(* ===== verification/Prelude.thy ===== *)
theory Prelude
  imports Main "HOL-Library.AList" "HOL-Library.Product_Lexorder"
    "HOL-Library.List_Lexorder" "HOL-Library.Char_ord"
begin

text \<open>
  What the component theories share.

  \<^item> Python dictionaries are association lists in insertion order: \<open>AList.update\<close>
    overwrites in place or appends, \<open>AList.delete\<close> removes, as \<open>d[k] = v\<close> and
    \<open>d.pop(k)\<close> do. \<open>wf_dict\<close> says that no key occurs twice.
  \<^item> An operation that can raise returns \<open>'e + 'a\<close>, \<open>Inl\<close> for the exception. An
    operation that also mutates an object returns that sum together with the object as it
    is left, on the raising path too: \<open>('e + 'a) \<times> 's\<close>. \<open>sbind\<close> and
    \<open>rbind\<close> sequence them.
  \<^item> Python integers are \<open>int\<close>; \<open>//\<close> and \<open>%\<close> are \<open>div\<close> and
    \<open>mod\<close>, which round towards minus infinity as Python's do.
  \<^item> Text is \<open>string\<close>, with characters below code point 256; \<open>strip\<close> and
    \<open>lower\<close> are Python's on that range, as far as the callers compare results.
  \<^item> Rounding to a multiple, the chunks of a byte range and reachable states of a step
    relation are developed once here and used by several components.
\<close>

named_theorems dict_simps \<open>lookups and sums after dictionary updates\<close>
named_theorems step_simps \<open>sequencing of operations that may raise\<close>

section \<open>Sequencing operations that may raise\<close>

definition rbind :: "'e + 'a \<Rightarrow> ('a \<Rightarrow> 'e + 'b) \<Rightarrow> 'e + 'b" where
  "rbind r f = (case r of Inl e \<Rightarrow> Inl e | Inr a \<Rightarrow> f a)"

definition require :: "bool \<Rightarrow> 'e \<Rightarrow> 'e + unit" where
  "require c e = (if c then Inr () else Inl e)"

definition sbind :: "('e + 'a) \<times> 's \<Rightarrow> ('a \<Rightarrow> 's \<Rightarrow> ('e + 'b) \<times> 's) \<Rightarrow> ('e + 'b) \<times> 's" where
  "sbind r f = (case fst r of Inl e \<Rightarrow> (Inl e, snd r) | Inr a \<Rightarrow> f a (snd r))"

lemma rbind_simps [simp, step_simps]:
  "rbind (Inl e) f = Inl e"
  "rbind (Inr a) f = f a"
  by (simp_all add: rbind_def)

lemma rbind_eq_Inr [step_simps]:
  "rbind r f = Inr b \<longleftrightarrow> (\<exists>a. r = Inr a \<and> f a = Inr b)"
  by (cases r) simp_all

lemma require_eq_Inr [simp, step_simps]: "require c e = Inr u \<longleftrightarrow> c"
  by (simp add: require_def)

lemma require_eq_Inl [simp, step_simps]: "require c e = Inl e' \<longleftrightarrow> \<not> c \<and> e' = e"
  by (auto simp: require_def)

lemma require_True [simp]: "require True e = Inr ()"
  by (simp add: require_def)

lemma sbind_simps [simp, step_simps]:
  "sbind (Inl e, s) f = (Inl e, s)"
  "sbind (Inr a, s) f = f a s"
  by (simp_all add: sbind_def)

lemma sbind_eq_Inr [step_simps]:
  "sbind r f = (Inr b, s') \<longleftrightarrow> (\<exists>a s. r = (Inr a, s) \<and> f a s = (Inr b, s'))"
  by (cases r; cases "fst r") (auto simp: sbind_def)

lemma sbind_eq_Inl:
  "sbind r f = (Inl e, s') \<longleftrightarrow>
    r = (Inl e, s') \<or> (\<exists>a s. r = (Inr a, s) \<and> f a s = (Inl e, s'))"
  by (cases r; cases "fst r") (auto simp: sbind_def)

text \<open>A sequence of checks, each with the message of the exception it raises.\<close>

fun check_all :: "(bool \<times> 'e) list \<Rightarrow> 'e + unit" where
  "check_all [] = Inr ()"
| "check_all ((c, e) # cs) = (if c then check_all cs else Inl e)"

lemma check_all_Inr [simp, step_simps]: "check_all cs = Inr u \<longleftrightarrow> list_all fst cs"
  by (induction cs) (auto split: if_splits)

text \<open>
  A long list of checks is read through \<open>check_all_Inr\<close>, so it is unfolded only where a
  closed term is evaluated.
\<close>

declare check_all.simps [simp del]

section \<open>Dictionaries\<close>

type_synonym ('k, 'v) dict = "('k \<times> 'v) list"

definition wf_dict :: "('k, 'v) dict \<Rightarrow> bool" where
  "wf_dict d \<longleftrightarrow> distinct (map fst d)"

definition dict_sum :: "('v \<Rightarrow> int) \<Rightarrow> ('k, 'v) dict \<Rightarrow> int" where
  "dict_sum f d = sum_list (map (\<lambda>(k, v). f v) d)"

lemma wf_dict_Nil [simp]: "wf_dict []"
  by (simp add: wf_dict_def)

lemma wf_dict_Cons: "wf_dict ((k, v) # d) \<longleftrightarrow> k \<notin> fst ` set d \<and> wf_dict d"
  by (simp add: wf_dict_def)

lemma wf_dict_update [simp, intro]: "wf_dict d \<Longrightarrow> wf_dict (AList.update k v d)"
  by (simp add: wf_dict_def distinct_update)

lemma wf_dict_delete [simp, intro]: "wf_dict d \<Longrightarrow> wf_dict (AList.delete k d)"
  by (simp add: wf_dict_def distinct_delete)

lemma dict_lookup_update [simp, dict_simps]:
  "map_of (AList.update k v d) k' = (if k' = k then Some v else map_of d k')"
  by (simp add: update_conv')

lemma dict_lookup_delete [simp, dict_simps]:
  "map_of (AList.delete k d) k' = (if k' = k then None else map_of d k')"
  by (simp add: delete_conv')

lemma dict_dom_update: "dom (map_of (AList.update k v d)) = insert k (dom (map_of d))"
  by (auto simp: dom_def)

lemma dict_dom_delete: "dom (map_of (AList.delete k d)) = dom (map_of d) - {k}"
  by (auto simp: dom_def split: if_splits)

lemma delete_notin: "map_of d k = None \<Longrightarrow> AList.delete k d = d"
  by (simp add: map_of_eq_None_iff)

lemma dict_sum_Nil [simp, dict_simps]: "dict_sum f [] = 0"
  by (simp add: dict_sum_def)

lemma dict_sum_Cons [simp, dict_simps]: "dict_sum f ((k, v) # d) = f v + dict_sum f d"
  by (simp add: dict_sum_def)

lemma dict_sum_append [simp, dict_simps]: "dict_sum f (d @ d') = dict_sum f d + dict_sum f d'"
  by (simp add: dict_sum_def)

definition dict_val :: "('v \<Rightarrow> int) \<Rightarrow> ('k, 'v) dict \<Rightarrow> 'k \<Rightarrow> int" where
  "dict_val f d k = (case map_of d k of None \<Rightarrow> 0 | Some v \<Rightarrow> f v)"

lemma dict_sum_delete [dict_simps]:
  "wf_dict d \<Longrightarrow> dict_sum f (AList.delete k d) = dict_sum f d - dict_val f d k"
proof (induction d)
  case (Cons p d)
  obtain k' v' where p: "p = (k', v')" by (cases p)
  show ?case
  proof (cases "k' = k")
    case True
    with Cons.prems p have "map_of d k = None"
      by (auto simp: wf_dict_Cons map_of_eq_None_iff)
    with True p show ?thesis by (simp add: dict_val_def delete_notin)
  next
    case False
    with Cons p show ?thesis by (simp add: dict_val_def wf_dict_Cons)
  qed
qed (simp add: dict_val_def)

lemma dict_sum_update [dict_simps]:
  "wf_dict d \<Longrightarrow> dict_sum f (AList.update k v d) = dict_sum f d - dict_val f d k + f v"
proof (induction d)
  case (Cons p d)
  obtain k' v' where p: "p = (k', v')" by (cases p)
  with Cons show ?case
    by (cases "k' = k") (simp_all add: dict_val_def wf_dict_Cons)
qed (simp add: dict_val_def)

lemma dict_sum_by_keys: "wf_dict d \<Longrightarrow> dict_sum f d = (\<Sum>k \<in> dom (map_of d). dict_val f d k)"
proof (induction d)
  case (Cons p d)
  obtain k v where p: "p = (k, v)" by (cases p)
  have k: "k \<notin> dom (map_of d)" "wf_dict d" using Cons.prems by (simp_all add: p wf_dict_Cons dom_map_of_conv_image_fst)
  have "(\<Sum>j \<in> dom (map_of d). dict_val f (p # d) j) = (\<Sum>j \<in> dom (map_of d). dict_val f d j)"
    by (rule sum.cong) (use k in \<open>auto simp: p dict_val_def\<close>)
  moreover have "(\<Sum>j \<in> insert k (dom (map_of d)). dict_val f (p # d) j) =
      dict_val f (p # d) k + (\<Sum>j \<in> dom (map_of d). dict_val f (p # d) j)"
    by (rule sum.insert [OF finite_dom_map_of k(1)])
  moreover have "dom (map_of (p # d)) = insert k (dom (map_of d))" "dict_val f (p # d) k = f v" "dict_sum f (p # d) = f v + dict_sum f d"
    by (auto simp: p dict_val_def dom_def)
  ultimately show ?case using Cons.IH [OF k(2)] by (simp only:)
qed simp

text \<open>A sum over a dict depends on what its keys stand for, not on their order.\<close>

lemma dict_sum_ext:
  assumes "wf_dict d" "wf_dict e" "\<And>k. map_option f (map_of d k) = map_option f (map_of e k)"
  shows "dict_sum f d = dict_sum f e"
proof -
  have "dom (map_of d) = dom (map_of e)"
  proof (rule set_eqI)
    fix k
    show "k \<in> dom (map_of d) \<longleftrightarrow> k \<in> dom (map_of e)"
      using assms(3) [of k] by (cases "map_of d k"; cases "map_of e k") (simp_all add: dom_def)
  qed
  moreover have "dict_val f d k = dict_val f e k" for k
    using assms(3) [of k] by (cases "map_of d k"; cases "map_of e k") (simp_all add: dict_val_def)
  ultimately show ?thesis using assms(1,2) by (simp add: dict_sum_by_keys)
qed

lemma dict_update_swap:
  "map_of d k \<noteq> None \<Longrightarrow> k \<noteq> k' \<Longrightarrow> AList.update k v (AList.update k' v' d) = AList.update k' v' (AList.update k v d)"
  by (induction d) (auto split: if_splits)

lemma dict_sum_nonneg: "(\<And>k v. (k, v) \<in> set d \<Longrightarrow> 0 \<le> f v) \<Longrightarrow> 0 \<le> dict_sum f d"
  by (induction d) force+

lemma dict_val_le_sum:
  assumes "wf_dict d" and "\<And>k v. (k, v) \<in> set d \<Longrightarrow> 0 \<le> f v"
  shows "dict_val f d k \<le> dict_sum f d"
proof -
  have "0 \<le> dict_sum f (AList.delete k d)"
    using assms(2) by (intro dict_sum_nonneg) (auto simp: AList.delete_eq)
  then show ?thesis using dict_sum_delete [OF assms(1)] by simp
qed

lemma in_update_cases:
  "(k', v') \<in> set (AList.update k v d) \<Longrightarrow> (k' = k \<and> v' = v) \<or> (k', v') \<in> set d"
  by (induction d) (auto split: if_splits)

lemma wf_dict_in_iff: "wf_dict d \<Longrightarrow> (k, v) \<in> set d \<longleftrightarrow> map_of d k = Some v"
  by (simp add: wf_dict_def)

section \<open>Text\<close>

text \<open>The code points below 256 that \<open>str.strip\<close> removes.\<close>

definition is_space :: "char \<Rightarrow> bool" where
  "is_space c \<longleftrightarrow> (let n = of_char c :: nat in (9 \<le> n \<and> n \<le> 13) \<or> (28 \<le> n \<and> n \<le> 32) \<or> n = 133 \<or> n = 160)"

definition strip :: "string \<Rightarrow> string" where
  "strip s = rev (dropWhile is_space (rev (dropWhile is_space s)))"

definition lower_char :: "char \<Rightarrow> char" where
  "lower_char c = (let n = of_char c :: nat in if 65 \<le> n \<and> n \<le> 90 then char_of (n + 32) else c)"

definition lower :: "string \<Rightarrow> string" where
  "lower s = map lower_char s"

lemma strip_idem [simp]: "strip (strip s) = strip s"
proof -
  let ?u = "dropWhile is_space s"
  let ?w = "dropWhile is_space (rev ?u)"
  have "dropWhile is_space (rev ?w) = rev ?w"
  proof (cases "?w = []")
    case False
    obtain pre where pre: "rev ?u = pre @ ?w"
      by (metis takeWhile_dropWhile_id)
    then have split: "?u = rev ?w @ rev pre" by (metis rev_append rev_rev_ident)
    with False have "?u \<noteq> []" by (metis Nil_is_append_conv rev_is_Nil_conv)
    then have "\<not> is_space (hd ?u)" by (rule hd_dropWhile)
    moreover have "hd ?u = hd (rev ?w)"
      using split False by (metis hd_append2 rev_is_Nil_conv)
    ultimately show ?thesis by (simp only: dropWhile_eq_self_iff) simp
  next
    case True
    then show ?thesis by (simp only: rev.simps dropWhile.simps)
  qed
  then show ?thesis by (simp add: strip_def)
qed

section \<open>Rounding to a multiple\<close>

definition round_up :: "int \<Rightarrow> int \<Rightarrow> int" where
  "round_up v q = ((v + q - 1) div q) * q"

lemma round_up_ge: "0 < q \<Longrightarrow> v \<le> round_up v q"
proof -
  assume q: "0 < q"
  have "(v + q - 1) div q * q + (v + q - 1) mod q = v + q - 1" by simp
  moreover have "(v + q - 1) mod q < q" using q by simp
  ultimately show ?thesis unfolding round_up_def by linarith
qed

lemma round_up_less: "0 < q \<Longrightarrow> round_up v q < v + q"
proof -
  assume q: "0 < q"
  have "(v + q - 1) div q * q + (v + q - 1) mod q = v + q - 1" by simp
  moreover have "0 \<le> (v + q - 1) mod q" using q by simp
  ultimately show ?thesis unfolding round_up_def by linarith
qed

lemma round_up_dvd [simp]: "q dvd round_up v q"
  by (simp add: round_up_def)

lemma round_up_least: "0 < q \<Longrightarrow> v \<le> m \<Longrightarrow> q dvd m \<Longrightarrow> round_up v q \<le> m"
proof -
  assume q: "0 < q" and vm: "v \<le> m" and "q dvd m"
  then obtain k where k: "m = k * q" by (auto simp: dvd_def mult.commute)
  have "(v + q - 1) div q \<le> (k * q + (q - 1)) div q"
    using q vm k by (intro zdiv_mono1) auto
  also have "\<dots> = k" using q by simp
  finally show ?thesis using q k by (simp add: round_up_def)
qed

lemma round_up_id: "0 < q \<Longrightarrow> q dvd v \<Longrightarrow> round_up v q = v"
  by (simp add: order.antisym round_up_ge round_up_least)

lemma round_up_mono: "0 < q \<Longrightarrow> v \<le> w \<Longrightarrow> round_up v q \<le> round_up w q"
  by (meson order_trans round_up_dvd round_up_ge round_up_least)

lemma round_down_le: "0 < (q::int) \<Longrightarrow> v div q * q \<le> v"
  by (metis minus_mod_eq_div_mult diff_le_eq le_add_same_cancel1 pos_mod_sign)

lemma round_down_greater: "0 < (q::int) \<Longrightarrow> v < v div q * q + q"
  by (metis add.commute add_strict_left_mono div_mult_mod_eq pos_mod_bound)

section \<open>Digits\<close>

lemma div_less_of_less_mult: "0 < (b::int) \<Longrightarrow> x < a * b \<Longrightarrow> x div b < a"
  by (metis le_less_linear mult_right_mono order.strict_trans1 order_less_imp_le round_down_le leD)

lemma div_less_iff_mult: "0 < (b::int) \<Longrightarrow> x div b < a \<longleftrightarrow> x < a * b"
proof
  assume b: "0 < b" and "x div b < a"
  then have "(x div b + 1) * b \<le> a * b" by (intro mult_right_mono) auto
  then show "x < a * b" using round_down_greater [OF b, of x] by (simp add: algebra_simps)
qed (rule div_less_of_less_mult)

lemma transpose_digits:
  fixes off g p :: int
  assumes "0 < g" "0 < p" "0 \<le> off" "off < g * p"
  shows "0 \<le> (off mod g) * p + off div g" and "(off mod g) * p + off div g < g * p"
    and "((off mod g) * p + off div g) div p = off mod g"
    and "((off mod g) * p + off div g) mod p = off div g"
proof -
  have d: "0 \<le> off div g" "off div g < p"
    using assms by (simp_all add: pos_imp_zdiv_nonneg_iff div_less_of_less_mult mult.commute)
  have m: "0 \<le> off mod g" "off mod g < g" using assms(1) by auto
  show "0 \<le> (off mod g) * p + off div g" using d m assms(2) by simp
  have "(off mod g) * p \<le> (g - 1) * p" using m assms(2) by (intro mult_right_mono) auto
  then show "(off mod g) * p + off div g < g * p" using d by (simp add: algebra_simps)
  show "((off mod g) * p + off div g) div p = off mod g"
    using d assms(2) by (simp add: int_div_pos_eq)
  show "((off mod g) * p + off div g) mod p = off div g"
    using d by simp
qed

text \<open>A number is a block of \<open>u\<close> and an offset in it; the offset decides nothing of the block.\<close>

lemma block_digits:
  fixes base u t :: int
  assumes "0 < u" "0 \<le> t" "t < u"
  shows "(base * u + t) div u = base" "(base * u + t) mod u = t"
  using assms by (simp_all add: int_div_pos_eq)

lemma block_in_range:
  fixes u n base t t' :: int
  assumes "0 < u" "u dvd n" "base * u + t < n" "0 \<le> t" "t' < u"
  shows "base * u + t' < n"
proof -
  from assms(2) obtain k where k: "n = k * u" by (auto simp: dvd_def mult.commute)
  have "base * u < k * u" using assms(3,4) k by linarith
  then have "base + 1 \<le> k" using assms(1) by simp
  then have "(base + 1) * u \<le> k * u" using assms(1) by (intro mult_right_mono) auto
  then show ?thesis using assms(5) k by (simp add: algebra_simps)
qed

lemma digit_less:
  fixes base u n t :: int
  assumes "base < n" "t < u" "0 < u"
  shows "base * u + t < n * u"
proof -
  have "(base + 1) * u \<le> n * u" using assms(1,3) by (intro mult_right_mono) auto
  then show ?thesis using assms(2) by (simp add: algebra_simps)
qed

section \<open>The chunks of a byte range\<close>

text \<open>
  A range of bytes \<open>[s, e)\<close> is cut at the multiples of a quantum \<open>q\<close> (a DRAM burst, a
  NAND page, a cache line): the chunk of index \<open>b\<close> is \<open>[b q, b q + q)\<close> cut to the range.
\<close>

definition chunk_indices :: "int \<Rightarrow> int \<Rightarrow> int \<Rightarrow> int list" where
  "chunk_indices q s e = [s div q .. (e - 1) div q]"

definition chunk_lo :: "int \<Rightarrow> int \<Rightarrow> int \<Rightarrow> int" where
  "chunk_lo q s b = max s (b * q)"

definition chunk_hi :: "int \<Rightarrow> int \<Rightarrow> int \<Rightarrow> int" where
  "chunk_hi q e b = min e (b * q + q)"

lemma chunk_nonempty:
  assumes "0 < q" "s < e" "b \<in> set (chunk_indices q s e)"
  shows "chunk_lo q s b < chunk_hi q e b"
proof -
  from assms(3) have b: "s div q \<le> b" "b \<le> (e - 1) div q"
    by (auto simp: chunk_indices_def)
  have "b * q \<le> (e - 1) div q * q" "s div q * q \<le> b * q"
    using b assms(1) by (simp_all add: mult_right_mono)
  then have "b * q \<le> e - 1" "s < b * q + q"
    using round_down_le [OF assms(1), of "e - 1"] round_down_greater [OF assms(1), of s]
    by linarith+
  then show ?thesis using assms(1,2) by (simp add: chunk_lo_def chunk_hi_def)
qed

lemma chunk_bounds:
  assumes "0 < q"
  shows "s \<le> chunk_lo q s b" "b * q \<le> chunk_lo q s b"
    "chunk_hi q e b \<le> e" "chunk_hi q e b \<le> b * q + q"
  by (simp_all add: chunk_lo_def chunk_hi_def)

lemma chunk_sum_aux:
  assumes "0 < q" "s < e" "s div q = m" "n = nat ((e - 1) div q - m)"
  shows "(\<Sum>b\<leftarrow>[m .. m + int n]. chunk_hi q e b - chunk_lo q s b) = e - s"
  using assms
proof (induction n arbitrary: e)
  case 0
  have "(e - 1) div q \<ge> s div q" using "0.prems"(1,2) by (intro zdiv_mono1) auto
  then have eq: "(e - 1) div q = m" using "0.prems" by simp
  have "m * q \<le> s" "e - 1 < m * q + q"
    using eq "0.prems" round_down_le [of q s] round_down_greater [of q "e - 1"] by auto
  then show ?case using "0.prems" by (simp add: chunk_lo_def chunk_hi_def)
next
  case (Suc n)
  define e' where "e' = (m + int n) * q + q"
  have idx: "(e - 1) div q = m + int n + 1" using Suc.prems by linarith
  have "s < m * q + q" using Suc.prems(1,3) round_down_greater [of q s] by auto
  also have "\<dots> \<le> e'" using Suc.prems(1) by (simp add: e'_def algebra_simps)
  finally have se: "s < e'" .
  have "(e' - 1) div q = m + int n"
    using Suc.prems(1) by (simp add: e'_def int_div_pos_eq)
  then have IH: "(\<Sum>b\<leftarrow>[m .. m + int n]. chunk_hi q e' b - chunk_lo q s b) = e' - s"
    using Suc.IH [of e'] Suc.prems se by simp
  have up: "(m + int n + 1) * q \<le> e - 1"
    using round_down_le [OF Suc.prems(1), of "e - 1"] idx by simp
  have e'e: "e' \<le> e - 1" using up by (simp add: e'_def algebra_simps)
  have same: "chunk_hi q e b = chunk_hi q e' b" if "b \<in> set [m .. m + int n]" for b
  proof -
    from that have "b \<le> m + int n" by simp
    then have "b * q \<le> (m + int n) * q" using Suc.prems(1) by (intro mult_right_mono) auto
    then show ?thesis using e'e by (simp add: chunk_hi_def e'_def)
  qed
  have last: "chunk_hi q e (m + int n + 1) = e" "chunk_lo q s (m + int n + 1) = e'"
    using round_down_greater [OF Suc.prems(1), of "e - 1"] idx se
    by (auto simp: chunk_hi_def chunk_lo_def e'_def algebra_simps)
  have split: "[m .. m + int (Suc n)] = [m .. m + int n] @ [m + int n + 1]"
    using upto_rec2 [of m "m + int n + 1"] by (simp add: algebra_simps)
  have "map (\<lambda>b. chunk_hi q e b - chunk_lo q s b) [m .. m + int n] =
      map (\<lambda>b. chunk_hi q e' b - chunk_lo q s b) [m .. m + int n]"
    by (rule map_cong [OF refl]) (use same in simp)
  then have "(\<Sum>b\<leftarrow>[m .. m + int n]. chunk_hi q e b - chunk_lo q s b) = e' - s"
    using IH by (simp only:)
  then show ?case unfolding split using last by simp
qed

lemma chunk_sum:
  assumes "0 < q" "s < e"
  shows "(\<Sum>b\<leftarrow>chunk_indices q s e. chunk_hi q e b - chunk_lo q s b) = e - s"
proof -
  have "s div q \<le> (e - 1) div q" using assms by (intro zdiv_mono1) auto
  then show ?thesis using chunk_sum_aux [OF assms refl refl] by (simp add: chunk_indices_def)
qed

lemma chunk_cover:
  assumes "0 < q" "s \<le> x" "x < e"
  shows "x div q \<in> set (chunk_indices q s e)"
    and "chunk_lo q s (x div q) \<le> x" and "x < chunk_hi q e (x div q)"
proof -
  show "x div q \<in> set (chunk_indices q s e)"
    using assms by (auto simp: chunk_indices_def intro: zdiv_mono1)
  show "chunk_lo q s (x div q) \<le> x" "x < chunk_hi q e (x div q)"
    using assms round_down_le [of q x] round_down_greater [of q x]
    by (auto simp: chunk_lo_def chunk_hi_def)
qed

lemma distinct_chunk_indices [simp]: "distinct (chunk_indices q s e)"
  by (simp add: chunk_indices_def)

section \<open>Reachable states\<close>

inductive reach :: "('s \<Rightarrow> bool) \<Rightarrow> ('s \<Rightarrow> 's \<Rightarrow> bool) \<Rightarrow> 's \<Rightarrow> bool"
  for start :: "'s \<Rightarrow> bool" and step :: "'s \<Rightarrow> 's \<Rightarrow> bool" where
  reach_start: "start s \<Longrightarrow> reach start step s"
| reach_step: "reach start step s \<Longrightarrow> step s t \<Longrightarrow> reach start step t"

text \<open>
  A component is a start predicate, a step relation and an invariant that every step keeps; what
  holds of a reachable state is proved once here and used through each component's
  interpretation.
\<close>

locale state_machine =
  fixes start :: "'s \<Rightarrow> bool"
    and step :: "'s \<Rightarrow> 's \<Rightarrow> bool"
    and inv :: "'s \<Rightarrow> bool"
  assumes inv_start: "start s \<Longrightarrow> inv s"
    and inv_step: "inv s \<Longrightarrow> step s t \<Longrightarrow> inv t"
begin

lemma reach_inv: "reach start step s \<Longrightarrow> inv s"
  by (induction rule: reach.induct) (auto intro: inv_start inv_step)

lemma reach_rtranclp: "reach start step s \<Longrightarrow> step\<^sup>*\<^sup>* s t \<Longrightarrow> inv t"
proof (rotate_tac, induction rule: rtranclp_induct)
  case base
  then show ?case by (rule reach_inv)
next
  case (step t u)
  then show ?case by (blast intro: inv_step)
qed

lemma inv_run: "inv s \<Longrightarrow> step\<^sup>*\<^sup>* s t \<Longrightarrow> inv t"
  by (rotate_tac, induction rule: rtranclp_induct) (auto intro: inv_step)

end

end
