(* ===== verification/Memory_Types.thy ===== *)
theory Memory_Types
  imports Complex_Main Prelude
begin

text \<open>
  The records of \<open>src/src/heterollm_sim/memory_types.py\<close> that the address mapping and the
  request splitting read: requests, segments, coordinates, and the DRAM and NAND
  organizations with the checks of their constructors.

  The timing and bandwidth fields of \<open>DramConfig\<close> are left out of \<open>dram_config\<close>. A Python float that
  has passed \<open>_nonnegative\<close> is finite, so it is the rational number it denotes, and the
  comparisons made here on rationals are the comparisons Python makes on the floats.
  Checks that a field has its declared Python type hold by typing.
\<close>

unbundle bit_operations_syntax

section \<open>Requests, coordinates and segments\<close>

datatype operation = READ | WRITE | ERASE

datatype memory_kind = DDR | LPDDR | HBM | GDDR | SSD | HBF | SRAM

definition parse_operation :: "string \<Rightarrow> string + operation" where
  "parse_operation s =
    (let t = lower s in
     if t = ''read'' then Inr READ
     else if t = ''write'' then Inr WRITE
     else if t = ''erase'' then Inr ERASE
     else Inl ''operation must be read, write or erase'')"

record access_request =
  request_id :: string
  req_operation :: operation
  req_address :: int
  byte_count :: int

text \<open>\<open>AccessRequest.__post_init__\<close>, without the arrival time.\<close>

definition make_access_request :: "string \<Rightarrow> string \<Rightarrow> int \<Rightarrow> int \<Rightarrow> string + access_request" where
  "make_access_request rid op addr n =
    rbind (require (rid \<noteq> []) ''request_id must be a non-empty string'') (\<lambda>_.
    rbind (parse_operation op) (\<lambda>operation.
    rbind (check_all
      [(0 \<le> addr, ''address must be a non-negative integer''),
       (0 < n, ''byte_count must be a positive integer'')]) (\<lambda>_.
    Inr \<lparr>request_id = rid, req_operation = operation, req_address = addr, byte_count = n\<rparr>)))"

record address_mapping =
  am_address :: int
  am_stack :: int
  am_lane :: int
  am_channel :: int
  am_subchannel :: int
  am_pseudo_channel :: int
  am_rank :: int
  am_bank_group :: int
  am_bank :: int
  am_row :: int
  am_column :: int
  am_unit :: int
  am_target :: int
  am_die :: int
  am_lun :: int
  am_plane :: int
  am_block :: int
  am_page :: int
  am_page_offset :: int

text \<open>Every coordinate defaults to zero.\<close>

definition address_mapping_of :: "int \<Rightarrow> address_mapping" where
  "address_mapping_of a = \<lparr>am_address = a, am_stack = 0, am_lane = 0, am_channel = 0,
     am_subchannel = 0, am_pseudo_channel = 0, am_rank = 0, am_bank_group = 0, am_bank = 0,
     am_row = 0, am_column = 0, am_unit = 0, am_target = 0, am_die = 0, am_lun = 0,
     am_plane = 0, am_block = 0, am_page = 0, am_page_offset = 0\<rparr>"

record segment =
  seg_request_id :: string
  seg_operation :: operation
  seg_address :: int
  logical_bytes :: int
  transfer_bytes :: int
  seg_mapping :: address_mapping
  seg_host_transfer_bytes :: int
  seg_internal_transfer_bytes :: int

section \<open>DRAM organization\<close>

datatype mapping_policy = Bank_Interleaved | Row_Local | Sid_Aware
datatype bank_scope = Per_Die | Per_Stack
datatype stack_interface = Shared | Independent
datatype control_mode = Analytical | Jedec_Hbm
datatype dram_scheduler = Fcfs | Row_Hit_First | Read_Write_Batch | Fr_Fcfs
datatype dram_queue_scope = Device_Scope | Channel_Scope | Pc_Scope

record dram_config =
  dram_kind :: memory_kind
  dram_generation :: string
  control_mode_of :: control_mode
  scheduler_of :: dram_scheduler
  scheduler_window :: int
  queue_scope_of :: dram_queue_scope
  read_queue_depth_per_pc :: int
  write_queue_depth_per_pc :: int
  min_reads_per_switch :: int
  write_high_watermark :: rat
  write_low_watermark :: rat
  channels :: int
  subchannels_per_channel :: int
  pseudo_channels_per_channel :: int
  stacks :: int
  dies_per_stack :: int
  ranks_per_channel :: int
  bank_groups_per_rank :: int
  banks_per_group :: int
  rows_per_bank :: int
  row_bytes :: int
  burst_bytes :: int
  data_width_bits :: int
  data_lanes :: "int option"
  interleave_bytes :: "int option"
  mapping_policy_of :: mapping_policy
  bank_geometry_scope :: bank_scope
  stack_interface_mode :: stack_interface
  dram_capacity_bytes :: "int option"
  dram_max_outstanding_requests :: int
  dram_max_expanded_segments :: int

text \<open>Python's \<open>x or d\<close> on an optional integer: the default replaces both \<open>None\<close> and 0.\<close>

definition or_default :: "int option \<Rightarrow> int \<Rightarrow> int" where
  "or_default x d = (case x of None \<Rightarrow> d | Some v \<Rightarrow> if v = 0 then d else v)"

lemma or_default_simps [simp]:
  "or_default None d = d"
  "or_default (Some v) d = (if v = 0 then d else v)"
  by (simp_all add: or_default_def)

definition sid_count :: "dram_config \<Rightarrow> int" where
  "sid_count c = max 1 (bank_groups_per_rank c * banks_per_group c div 16)"

definition bank_groups_per_sid :: "dram_config \<Rightarrow> int" where
  "bank_groups_per_sid c = bank_groups_per_rank c div sid_count c"

definition bank_count :: "dram_config \<Rightarrow> int" where
  "bank_count c = ranks_per_channel c * bank_groups_per_rank c * banks_per_group c"

definition lanes_per_stack :: "dram_config \<Rightarrow> int" where
  "lanes_per_stack c = or_default (data_lanes c)
     (channels c * subchannels_per_channel c * pseudo_channels_per_channel c)"

definition lane_count :: "dram_config \<Rightarrow> int" where
  "lane_count c = lanes_per_stack c * (if stack_interface_mode c = Independent then stacks c else 1)"

definition addressable_die_count :: "dram_config \<Rightarrow> int" where
  "addressable_die_count c = (if bank_geometry_scope c = Per_Stack then 1 else dies_per_stack c)"

definition addressable_stack_count :: "dram_config \<Rightarrow> int" where
  "addressable_stack_count c = (if stack_interface_mode c = Independent then 1 else stacks c)"

definition dram_computed_capacity :: "dram_config \<Rightarrow> int" where
  "dram_computed_capacity c = addressable_stack_count c * addressable_die_count c * lane_count c *
     bank_count c * rows_per_bank c * row_bytes c"

definition dram_effective_capacity :: "dram_config \<Rightarrow> int" where
  "dram_effective_capacity c = or_default (dram_capacity_bytes c) (dram_computed_capacity c)"

text \<open>
  The checks of \<open>DramConfig.__post_init__\<close> on the fields of the record: those of the mapping
  policy and the queues, those of the geometry the JEDEC HBM controller supports, those of the
  geometry in general, then the capacity, which is filled in when it is not declared. The record
  is the one after \<open>normalize_hbm_dependencies\<close>. The checks of timing and bandwidth fields,
  which the record does not have, only reject more configurations.
\<close>

definition dram_check_policy :: "dram_config \<Rightarrow> string + unit" where
  "dram_check_policy c =
    (let sid = (mapping_policy_of c = Sid_Aware); fr = (scheduler_of c = Fr_Fcfs);
         pc = (queue_scope_of c = Pc_Scope); per_sid = bank_groups_per_sid c in check_all
    [(dram_kind c \<in> {DDR, LPDDR, HBM, GDDR}, ''DramConfig.kind must be DDR, LPDDR, HBM or GDDR''),
     (mapping_policy_of c = Row_Local \<longrightarrow> interleave_bytes c = None,
      ''row_local address_mapping requires interleave_bytes=None''),
     (0 < scheduler_window c, ''scheduler_window must be a positive integer''),
     (sid \<or> fr \<or> pc \<longrightarrow> sid \<and> fr \<and> pc \<and> dram_kind c = HBM \<and> control_mode_of c = Jedec_Hbm,
      ''sid_aware address_mapping, fr_fcfs scheduler and queue_scope=pc go together and require the jedec_hbm controller''),
     (control_mode_of c = Jedec_Hbm \<longrightarrow> sid \<and> fr \<and> pc,
      ''the jedec_hbm controller requires sid_aware address_mapping, fr_fcfs scheduler and queue_scope=pc''),
     (sid \<longrightarrow> interleave_bytes c = None \<and> banks_per_group c \<le> 16 \<and>
        2 \<le> per_sid \<and> per_sid AND (per_sid - 1) = 0,
      ''sid_aware address_mapping requires interleave_bytes=None, at most 16 banks per group and a power of two, at least two, bank groups per SID''),
     (0 < read_queue_depth_per_pc c, ''read_queue_depth_per_pc must be a positive integer''),
     (0 < write_queue_depth_per_pc c, ''write_queue_depth_per_pc must be a positive integer''),
     (0 < min_reads_per_switch c, ''min_reads_per_switch must be a positive integer''),
     (0 \<le> write_high_watermark c \<and> write_high_watermark c \<le> 1, ''write_high_watermark must be in [0, 1]''),
     (0 \<le> write_low_watermark c \<and> write_low_watermark c \<le> 1, ''write_low_watermark must be in [0, 1]''),
     (write_low_watermark c \<le> write_high_watermark c,
      ''write_low_watermark cannot exceed write_high_watermark'')])"

definition dram_check_jedec :: "dram_config \<Rightarrow> string + unit" where
  "dram_check_jedec c =
    (if control_mode_of c = Jedec_Hbm
     then let hbm2 = (dram_generation c = ''HBM2'' \<or> dram_generation c = ''HBM2E'') in check_all
      [(0 < rows_per_bank c, ''rows_per_bank must be a positive integer''),
       (dram_kind c = HBM \<and> dram_generation c \<in> {''HBM2'', ''HBM2E'', ''HBM3'', ''HBM3E'', ''HBM4''},
        ''jedec_hbm control requires a supported HBM generation''),
       (pseudo_channels_per_channel c = 2 \<and> subchannels_per_channel c = 1 \<and> ranks_per_channel c = 1
          \<and> (data_lanes c = None \<or> data_lanes c = Some (channels c * 2))
          \<and> burst_bytes c = 32 \<and> data_width_bits c = (if hbm2 then 64 else 32) \<and> row_bytes c = 1024
          \<and> bank_geometry_scope c = Per_Stack \<and> stack_interface_mode c = Independent,
        ''jedec_hbm control requires PC-mode HBM geometry and independent stack interfaces'')]
     else Inr ())"

definition opt_pos :: "int option \<Rightarrow> bool" where
  "opt_pos x = (case x of None \<Rightarrow> True | Some v \<Rightarrow> 0 < v)"

definition dram_check_geometry :: "dram_config \<Rightarrow> string + unit" where
  "dram_check_geometry c =
    (let bank_bytes = rows_per_bank c * row_bytes c in check_all
    [(0 < channels c, ''channels must be a positive integer''),
     (0 < subchannels_per_channel c, ''subchannels_per_channel must be a positive integer''),
     (0 < pseudo_channels_per_channel c, ''pseudo_channels_per_channel must be a positive integer''),
     (0 < stacks c, ''stacks must be a positive integer''),
     (0 < dies_per_stack c, ''dies_per_stack must be a positive integer''),
     (0 < ranks_per_channel c, ''ranks_per_channel must be a positive integer''),
     (0 < bank_groups_per_rank c, ''bank_groups_per_rank must be a positive integer''),
     (0 < banks_per_group c, ''banks_per_group must be a positive integer''),
     (0 < rows_per_bank c, ''rows_per_bank must be a positive integer''),
     (0 < row_bytes c, ''row_bytes must be a positive integer''),
     (0 < burst_bytes c, ''burst_bytes must be a positive integer''),
     (0 < data_width_bits c, ''data_width_bits must be a positive integer''),
     (0 < dram_max_outstanding_requests c, ''max_outstanding_requests must be a positive integer''),
     (0 < dram_max_expanded_segments c, ''max_expanded_segments must be a positive integer''),
     (opt_pos (data_lanes c), ''data_lanes must be a positive integer''),
     (row_bytes c mod burst_bytes c = 0, ''row_bytes must be a multiple of burst_bytes''),
     (case dram_capacity_bytes c of None \<Rightarrow> True | Some k \<Rightarrow> k mod burst_bytes c = 0,
      ''capacity_bytes must be a multiple of burst_bytes''),
     (opt_pos (interleave_bytes c), ''interleave_bytes must be a positive integer''),
     (case interleave_bytes c of None \<Rightarrow> True | Some i \<Rightarrow> i mod burst_bytes c = 0,
      ''interleave_bytes must be a multiple of burst_bytes''),
     (case interleave_bytes c of None \<Rightarrow> True | Some i \<Rightarrow> i \<le> bank_bytes \<and> bank_bytes mod i = 0,
      ''interleave_bytes must divide the capacity of one bank'')])"

definition dram_check_capacity :: "dram_config \<Rightarrow> string + dram_config" where
  "dram_check_capacity c =
    rbind (check_all
      [(opt_pos (dram_capacity_bytes c), ''capacity_bytes must be a positive integer''),
       (case dram_capacity_bytes c of None \<Rightarrow> True | Some k \<Rightarrow> k \<le> dram_computed_capacity c,
        ''capacity_bytes cannot exceed the declared physical geometry'')]) (\<lambda>_.
    Inr (case dram_capacity_bytes c of
           None \<Rightarrow> c\<lparr>dram_capacity_bytes := Some (dram_computed_capacity c)\<rparr>
         | Some _ \<Rightarrow> c))"

definition dram_post_init :: "dram_config \<Rightarrow> string + dram_config" where
  "dram_post_init c =
    rbind (dram_check_policy c) (\<lambda>_.
    rbind (dram_check_jedec c) (\<lambda>_.
    rbind (dram_check_geometry c) (\<lambda>_.
    dram_check_capacity c)))"

text \<open>What a constructed configuration satisfies, in the form the address mapping needs it.\<close>

definition dram_ok :: "dram_config \<Rightarrow> bool" where
  "dram_ok c \<longleftrightarrow> 0 < channels c \<and> 0 < subchannels_per_channel c \<and> 0 < pseudo_channels_per_channel c
     \<and> 0 < stacks c \<and> 0 < dies_per_stack c \<and> 0 < ranks_per_channel c \<and> 0 < bank_groups_per_rank c
     \<and> 0 < banks_per_group c \<and> 0 < rows_per_bank c \<and> 0 < row_bytes c \<and> 0 < burst_bytes c
     \<and> opt_pos (data_lanes c) \<and> opt_pos (interleave_bytes c)
     \<and> burst_bytes c dvd row_bytes c
     \<and> (\<forall>i. interleave_bytes c = Some i \<longrightarrow> burst_bytes c dvd i \<and> i dvd rows_per_bank c * row_bytes c)
     \<and> (mapping_policy_of c = Row_Local \<longrightarrow> interleave_bytes c = None)
     \<and> (mapping_policy_of c = Sid_Aware \<longrightarrow> interleave_bytes c = None \<and> banks_per_group c \<le> 16
          \<and> 2 \<le> bank_groups_per_sid c)
     \<and> (mapping_policy_of c = Sid_Aware \<longrightarrow> ranks_per_channel c = 1
          \<and> bank_geometry_scope c = Per_Stack \<and> stack_interface_mode c = Independent)
     \<and> 0 < dram_effective_capacity c \<and> burst_bytes c dvd dram_effective_capacity c
     \<and> dram_effective_capacity c \<le> dram_computed_capacity c"

lemma dram_computed_capacity_pos:
  "0 < channels c \<Longrightarrow> 0 < subchannels_per_channel c \<Longrightarrow> 0 < pseudo_channels_per_channel c \<Longrightarrow>
   0 < stacks c \<Longrightarrow> 0 < dies_per_stack c \<Longrightarrow> 0 < ranks_per_channel c \<Longrightarrow> 0 < bank_groups_per_rank c \<Longrightarrow>
   0 < banks_per_group c \<Longrightarrow> 0 < rows_per_bank c \<Longrightarrow> 0 < row_bytes c \<Longrightarrow> opt_pos (data_lanes c) \<Longrightarrow>
   0 < dram_computed_capacity c"
  by (auto simp: dram_computed_capacity_def addressable_stack_count_def addressable_die_count_def
      lane_count_def lanes_per_stack_def bank_count_def opt_pos_def or_default_def
      split: option.splits)

lemma dram_post_init_ok: "dram_post_init c0 = Inr c \<Longrightarrow> dram_ok c"
proof -
  assume "dram_post_init c0 = Inr c"
  then have pol: "dram_check_policy c0 = Inr ()" and jed: "dram_check_jedec c0 = Inr ()"
    and geo: "dram_check_geometry c0 = Inr ()" and cap: "dram_check_capacity c0 = Inr c"
    by (auto simp: dram_post_init_def step_simps)
  let ?k = "dram_computed_capacity c0"
  have pos: "0 < ?k" using geo
    by (intro dram_computed_capacity_pos) (simp_all add: dram_check_geometry_def Let_def)
  have same: "c = c0 \<or> dram_capacity_bytes c0 = None \<and> c = c0\<lparr>dram_capacity_bytes := Some ?k\<rparr>"
    using cap by (auto simp: dram_check_capacity_def step_simps split: option.splits)
  have dvd: "burst_bytes c0 dvd ?k" using geo
    by (simp add: dram_computed_capacity_def dram_check_geometry_def Let_def mod_eq_0_iff_dvd)
  have fields: "dram_computed_capacity (c0\<lparr>dram_capacity_bytes := x\<rparr>) = ?k"
    "bank_groups_per_sid (c0\<lparr>dram_capacity_bytes := x\<rparr>) = bank_groups_per_sid c0" for x
    by (simp_all add: dram_computed_capacity_def addressable_stack_count_def
        addressable_die_count_def lane_count_def lanes_per_stack_def bank_count_def
        bank_groups_per_sid_def sid_count_def)
  have "0 < dram_effective_capacity c \<and> burst_bytes c dvd dram_effective_capacity c
      \<and> dram_effective_capacity c \<le> dram_computed_capacity c"
    using same cap geo pos dvd
    by (auto simp: dram_effective_capacity_def dram_check_capacity_def dram_check_geometry_def Let_def
        step_simps fields opt_pos_def mod_eq_0_iff_dvd split: option.splits)
  moreover have "mapping_policy_of c0 = Row_Local \<longrightarrow> interleave_bytes c0 = None"
    "mapping_policy_of c0 = Sid_Aware \<longrightarrow> interleave_bytes c0 = None \<and> banks_per_group c0 \<le> 16
       \<and> 2 \<le> bank_groups_per_sid c0"
    and sid: "mapping_policy_of c0 = Sid_Aware \<longrightarrow> control_mode_of c0 = Jedec_Hbm"
    using pol unfolding dram_check_policy_def Let_def check_all_Inr list.pred_inject fst_conv
    by blast+
  moreover have "mapping_policy_of c0 = Sid_Aware \<longrightarrow> ranks_per_channel c0 = 1
      \<and> bank_geometry_scope c0 = Per_Stack \<and> stack_interface_mode c0 = Independent"
    using sid jed by (auto simp: dram_check_jedec_def Let_def)
  ultimately show ?thesis using same geo
    by (auto simp: dram_ok_def dram_check_geometry_def Let_def fields mod_eq_0_iff_dvd)
qed

section \<open>NAND organization\<close>

datatype protocol_mode = Generic_Nand | Ocp_Hbf_0_7
datatype nand_queue_scope = Device_Queue | Host_Channel_Queue
datatype page_staging = No_Staging | Logic_Die | External
datatype partial_page_policy = Host_Merge | Reject_Partial

record nand_wear =
  rated_pe_cycles :: int
  initial_pe_cycles :: int
  program_latency_growth_at_rated_pe :: rat
  max_program_latency_scale :: rat
  assumption_label :: string

record nand_config =
  nand_kind :: memory_kind
  protocol_mode_of :: protocol_mode
  host_channels :: int
  host_full_duplex :: bool
  read_cache_pages_per_bank :: int
  nand_channels :: int
  targets_per_channel :: int
  dies_per_target :: int
  luns_per_die :: int
  planes_per_lun :: int
  planes_independent :: bool
  parallel_units :: "int option"
  blocks_per_plane :: int
  pages_per_block :: int
  page_bytes :: int
  host_granularity_bytes :: int
  internal_transfer_bytes :: "int option"
  host_bandwidth :: rat
  internal_bandwidth :: rat
  host_read_bandwidth :: rat
  host_write_bandwidth :: rat
  page_read_ns :: rat
  page_program_ns :: rat
  block_erase_ns :: rat
  front_ns :: rat
  write_buffer_bytes :: int
  page_staging_of :: page_staging
  page_staging_bytes_per_host_channel :: int
  page_staging_latency_ns :: rat
  page_staging_burst_bytes :: int
  wear_model :: "nand_wear option"
  partial_page_policy_of :: partial_page_policy
  nand_capacity_bytes :: "int option"
  nand_max_outstanding_requests :: int
  nand_queue_scope_of :: nand_queue_scope
  max_outstanding_write_requests :: "int option"
  nand_max_expanded_segments :: int

definition wear_post_init :: "nand_wear \<Rightarrow> string + unit" where
  "wear_post_init w = check_all
    [(0 < rated_pe_cycles w, ''rated_pe_cycles must be a positive integer''),
     (0 \<le> initial_pe_cycles w, ''initial_pe_cycles must be a non-negative integer''),
     (0 \<le> program_latency_growth_at_rated_pe w,
      ''program_latency_growth_at_rated_pe must be a finite non-negative number''),
     (0 \<le> max_program_latency_scale w,
      ''max_program_latency_scale must be a finite non-negative number''),
     (1 \<le> max_program_latency_scale w, ''max_program_latency_scale must be at least one''),
     (strip (assumption_label w) \<noteq> [], ''NAND wear feedback requires an explicit assumption label'')]"

definition array_units :: "nand_config \<Rightarrow> int" where
  "array_units c = (case parallel_units c of
      Some u \<Rightarrow> u
    | None \<Rightarrow> (let base = nand_channels c * targets_per_channel c * dies_per_target c * luns_per_die c
        in if planes_independent c then base * planes_per_lun c else base))"

definition nand_computed_capacity :: "nand_config \<Rightarrow> int" where
  "nand_computed_capacity c = nand_channels c * targets_per_channel c * dies_per_target c *
     luns_per_die c * planes_per_lun c * blocks_per_plane c * pages_per_block c * page_bytes c"

definition nand_effective_capacity :: "nand_config \<Rightarrow> int" where
  "nand_effective_capacity c = or_default (nand_capacity_bytes c) (nand_computed_capacity c)"

definition block_bytes :: "nand_config \<Rightarrow> int" where
  "block_bytes c = pages_per_block c * page_bytes c"

definition transfer_page_bytes :: "nand_config \<Rightarrow> int" where
  "transfer_page_bytes c = (let quantum = or_default (internal_transfer_bytes c) (page_bytes c)
     in ((page_bytes c + quantum - 1) div quantum) * quantum)"

definition host_bandwidth_for :: "nand_config \<Rightarrow> operation \<Rightarrow> string + rat" where
  "host_bandwidth_for c op =
    (if op = READ then Inr (host_read_bandwidth c)
     else if op = WRITE then Inr (host_write_bandwidth c)
     else Inl ''host bandwidth requires a read or write operation'')"

definition buffered_write_mode :: "nand_config \<Rightarrow> bool" where
  "buffered_write_mode c \<longleftrightarrow> 0 < write_buffer_bytes c"

text \<open>\<open>NandConfig.__post_init__\<close>, in three consecutive parts of its body.\<close>

definition nand_check_geometry :: "nand_config \<Rightarrow> string + unit" where
  "nand_check_geometry c =
    rbind (require (nand_kind c = SSD \<or> nand_kind c = HBF) ''NandConfig.kind must be SSD or HBF'') (\<lambda>_.
    rbind (case wear_model c of None \<Rightarrow> Inr () | Some w \<Rightarrow> wear_post_init w) (\<lambda>_.
    check_all
      [(0 < nand_channels c, ''channels must be a positive integer''),
       (0 < targets_per_channel c, ''targets_per_channel must be a positive integer''),
       (0 < dies_per_target c, ''dies_per_target must be a positive integer''),
       (0 < luns_per_die c, ''luns_per_die must be a positive integer''),
       (0 < planes_per_lun c, ''planes_per_lun must be a positive integer''),
       (0 < blocks_per_plane c, ''blocks_per_plane must be a positive integer''),
       (0 < pages_per_block c, ''pages_per_block must be a positive integer''),
       (0 < page_bytes c, ''page_bytes must be a positive integer''),
       (0 < host_granularity_bytes c, ''host_granularity_bytes must be a positive integer''),
       (opt_pos (parallel_units c), ''parallel_units must be a positive integer''),
       (opt_pos (internal_transfer_bytes c), ''internal_transfer_bytes must be a positive integer''),
       (protocol_mode_of c = Generic_Nand \<longrightarrow> nand_queue_scope_of c = Device_Queue,
        ''generic_nand requires queue_scope=device; host-channel page-command admission is supported only by ocp_hbf_0_7''),
       (0 < host_channels c, ''host_channels must be a positive integer''),
       (host_channels c \<le> nand_channels c \<and> nand_channels c mod host_channels c = 0,
        ''internal channels must divide evenly among host_channels''),
       (0 \<le> read_cache_pages_per_bank c, ''read_cache_pages_per_bank must be a non-negative integer'')]))"

definition nand_check_protocol :: "nand_config \<Rightarrow> string + unit" where
  "nand_check_protocol c =
    (if protocol_mode_of c = Ocp_Hbf_0_7 then check_all
      [(nand_kind c = HBF, ''ocp_hbf_0_7 requires kind=HBF''),
       (parallel_units c = None,
        ''ocp_hbf_0_7 derives bank parallelism from geometry; parallel_units must be None''),
       (planes_independent c,
        ''ocp_hbf_0_7 requires independent bank resources (planes_independent=True)''),
       (page_bytes c = 4096 \<and> host_granularity_bytes c = 64,
        ''ocp_hbf_0_7 requires 4096-byte pages and 64-byte host granularity''),
       (host_channels c \<le> 16 \<and> host_full_duplex c,
        ''ocp_hbf_0_7 requires at most 16 full-duplex host channels''),
       (read_cache_pages_per_bank c = 2, ''ocp_hbf_0_7 requires two read-cache pages per bank''),
       (write_buffer_bytes c = 0,
        ''ocp_hbf_0_7 ordinary writes complete on media; host-ack write buffering is unsupported'')]
     else Inr ())"

definition nand_check_limits :: "nand_config \<Rightarrow> string + unit" where
  "nand_check_limits c = check_all
    [(opt_pos (nand_capacity_bytes c), ''capacity_bytes must be a positive integer''),
     (case nand_capacity_bytes c of None \<Rightarrow> True | Some k \<Rightarrow> k mod page_bytes c = 0,
      ''capacity_bytes must be a multiple of page_bytes''),
     (0 < nand_max_outstanding_requests c, ''max_outstanding_requests must be a positive integer''),
     (opt_pos (max_outstanding_write_requests c),
      ''max_outstanding_write_requests must be a positive integer''),
     (case max_outstanding_write_requests c of None \<Rightarrow> True
        | Some w \<Rightarrow> w \<le> nand_max_outstanding_requests c,
      ''max_outstanding_write_requests cannot exceed max_outstanding_requests''),
     (0 < nand_max_expanded_segments c, ''max_expanded_segments must be a positive integer''),
     (0 \<le> write_buffer_bytes c, ''write_buffer_bytes must be a non-negative integer''),
     (0 \<le> host_bandwidth c, ''host_bandwidth_gb_s must be a finite non-negative number''),
     (0 < host_bandwidth c, ''host_bandwidth_gb_s must be positive''),
     (0 \<le> internal_bandwidth c, ''internal_bandwidth_gb_s must be a finite non-negative number''),
     (0 < internal_bandwidth c, ''internal_bandwidth_gb_s must be positive''),
     (0 \<le> page_read_ns c, ''page_read_ns must be a finite non-negative number''),
     (0 \<le> page_program_ns c, ''page_program_ns must be a finite non-negative number''),
     (0 \<le> block_erase_ns c, ''block_erase_ns must be a finite non-negative number''),
     (0 \<le> front_ns c, ''front_ns must be a finite non-negative number''),
     (0 \<le> host_read_bandwidth c, ''host_read_bandwidth_gb_s must be a finite non-negative number''),
     (0 < host_read_bandwidth c, ''host_read_bandwidth_gb_s must be positive''),
     (host_read_bandwidth c \<le> host_bandwidth c,
      ''host_read_bandwidth_gb_s cannot exceed host_bandwidth_gb_s''),
     (0 \<le> host_write_bandwidth c, ''host_write_bandwidth_gb_s must be a finite non-negative number''),
     (0 < host_write_bandwidth c, ''host_write_bandwidth_gb_s must be positive''),
     (host_write_bandwidth c \<le> host_bandwidth c,
      ''host_write_bandwidth_gb_s cannot exceed host_bandwidth_gb_s''),
     (case nand_capacity_bytes c of None \<Rightarrow> True | Some k \<Rightarrow> k \<le> nand_computed_capacity c,
      ''capacity_bytes cannot exceed the declared physical geometry'')]"

definition nand_check_staging :: "nand_config \<Rightarrow> string + unit" where
  "nand_check_staging c = check_all
    [(write_buffer_bytes c \<le> nand_effective_capacity c,
      ''write_buffer_bytes cannot exceed device capacity''),
     (0 \<le> page_staging_bytes_per_host_channel c,
      ''page_staging_bytes_per_host_channel must be a non-negative integer''),
     (0 < page_staging_burst_bytes c, ''page_staging_burst_bytes must be a positive integer''),
     (0 \<le> page_staging_latency_ns c,
      ''page_staging_latency_ns must be a finite non-negative number''),
     (page_staging_of c \<noteq> No_Staging \<longrightarrow> write_buffer_bytes c = 0,
      ''page staging requires no host write buffer''),
     (page_staging_of c \<noteq> No_Staging \<longrightarrow> page_bytes c mod page_staging_burst_bytes c = 0,
      ''page_staging_burst_bytes must divide page_bytes'')]"

definition nand_post_init :: "nand_config \<Rightarrow> string + nand_config" where
  "nand_post_init c =
    rbind (nand_check_geometry c) (\<lambda>_.
    rbind (nand_check_protocol c) (\<lambda>_.
    rbind (nand_check_limits c) (\<lambda>_.
    let c' = (case nand_capacity_bytes c of
        None \<Rightarrow> c\<lparr>nand_capacity_bytes := Some (nand_computed_capacity c)\<rparr>
      | Some _ \<Rightarrow> c) in
    rbind (nand_check_staging c') (\<lambda>_. Inr c'))))"

definition nand_ok :: "nand_config \<Rightarrow> bool" where
  "nand_ok c \<longleftrightarrow> 0 < nand_channels c \<and> 0 < targets_per_channel c \<and> 0 < dies_per_target c
     \<and> 0 < luns_per_die c \<and> 0 < planes_per_lun c \<and> 0 < blocks_per_plane c
     \<and> 0 < pages_per_block c \<and> 0 < page_bytes c \<and> 0 < host_granularity_bytes c
     \<and> opt_pos (internal_transfer_bytes c)
     \<and> 0 < nand_effective_capacity c \<and> page_bytes c dvd nand_effective_capacity c
     \<and> nand_effective_capacity c \<le> nand_computed_capacity c"

lemma nand_post_init_ok: "nand_post_init c0 = Inr c \<Longrightarrow> nand_ok c"
proof -
  assume init: "nand_post_init c0 = Inr c"
  let ?k = "nand_computed_capacity c0"
  from init have geo: "nand_check_geometry c0 = Inr ()" and lim: "nand_check_limits c0 = Inr ()"
    and same: "(nand_capacity_bytes c0 \<noteq> None \<and> c = c0) \<or>
      (nand_capacity_bytes c0 = None \<and> c = c0\<lparr>nand_capacity_bytes := Some ?k\<rparr>)"
    by (auto simp: nand_post_init_def step_simps Let_def split: option.splits)
  have pos: "0 < ?k" and dvd: "page_bytes c0 dvd ?k"
    using geo by (auto simp: nand_computed_capacity_def nand_check_geometry_def step_simps)
  have field: "nand_computed_capacity (c0\<lparr>nand_capacity_bytes := x\<rparr>) = ?k" for x
    by (simp add: nand_computed_capacity_def)
  have g: "0 < nand_channels c0" "0 < targets_per_channel c0" "0 < dies_per_target c0"
    "0 < luns_per_die c0" "0 < planes_per_lun c0" "0 < blocks_per_plane c0"
    "0 < pages_per_block c0" "0 < page_bytes c0" "0 < host_granularity_bytes c0"
    "opt_pos (internal_transfer_bytes c0)"
    using geo by (auto simp: nand_check_geometry_def step_simps)
  have l: "opt_pos (nand_capacity_bytes c0)"
    "\<And>k. nand_capacity_bytes c0 = Some k \<Longrightarrow> k mod page_bytes c0 = 0 \<and> k \<le> ?k"
    using lim by (auto simp: nand_check_limits_def)
  show ?thesis using same
  proof (elim disjE conjE)
    assume "nand_capacity_bytes c0 \<noteq> None" "c = c0"
    then show ?thesis using g l
      by (auto simp: nand_ok_def nand_effective_capacity_def opt_pos_def mod_eq_0_iff_dvd)
  next
    assume "c = c0\<lparr>nand_capacity_bytes := Some ?k\<rparr>"
    then show ?thesis using g pos dvd by (simp add: nand_ok_def nand_effective_capacity_def field)
  qed
qed

end
