(* ===== verification/Memory_Mapping.thy ===== *)
theory Memory_Mapping
  imports Memory_Types
begin

text \<open>
  \<open>src/src/heterollm_sim/memory_mapping.py\<close>: the bank rotation, the DRAM and NAND address
  mappings, the channels a request touches, and the splitting of a request into bursts or
  pages. The lemmas show that a mapping is invertible, so that no two bursts or pages share a
  physical place, that coordinates stay in their ranges, and that a split neither loses nor
  duplicates a byte.
\<close>

datatype mapping_error =
    Address_Outside int int
  | Sid_Geometry
  | Dram_Erase
  | Beyond_Dram_Capacity
  | Beyond_Nand_Capacity
  | Ocp_Erase
  | Partial_Page_Write

section \<open>Definitions from the source\<close>

definition round_up_to :: "int \<Rightarrow> int \<Rightarrow> int" where
  "round_up_to value quantum = ((value + quantum - 1) div quantum) * quantum"

definition check_address :: "int \<Rightarrow> int \<Rightarrow> mapping_error + unit" where
  "check_address address capacity =
    (if address < 0 \<or> address \<ge> capacity then Inl (Address_Outside address capacity) else Inr ())"

definition rotation_unit :: "int \<Rightarrow> int \<Rightarrow> int" where
  "rotation_unit banks per_group =
    (if banks mod 16 = 0 \<and> per_group < 16 \<and> 16 mod per_group = 0 then 16 else banks)"

definition rotation_groups :: "int \<Rightarrow> int \<Rightarrow> int" where
  "rotation_groups banks per_group =
    (let u = rotation_unit banks per_group in if u mod per_group = 0 then u div per_group else 1)"

definition rotated_bank :: "int \<Rightarrow> int \<Rightarrow> int \<Rightarrow> int" where
  "rotated_bank step banks per_group =
    (let u = rotation_unit banks per_group; groups = rotation_groups banks per_group in
     if groups \<le> 1 then step
     else let base = step div u; offset = step mod u in
       base * u + (offset mod groups) * per_group + offset div groups)"

definition rotated_bank_step :: "int \<Rightarrow> int \<Rightarrow> int \<Rightarrow> int" where
  "rotated_bank_step bank banks per_group =
    (let u = rotation_unit banks per_group; groups = rotation_groups banks per_group in
     if groups \<le> 1 then bank
     else let base = bank div u; offset = bank mod u;
              grp = offset div per_group; idx = offset mod per_group in
       base * u + idx * groups + grp)"

text \<open>The three address mappings: lane, bank group, bank, row and column of a die-local address.\<close>

definition bursts_per_row :: "dram_config \<Rightarrow> int" where
  "bursts_per_row c = row_bytes c div burst_bytes c"

definition sid_aware_coords :: "dram_config \<Rightarrow> int \<Rightarrow> mapping_error + (int \<times> int \<times> int \<times> int \<times> int)" where
  "sid_aware_coords c local =
    (let groups_per_sid = bank_groups_per_sid c; cursor = local div burst_bytes c;
         sid_bg = cursor div groups_per_sid div lane_count c;
         lane = cursor div groups_per_sid mod lane_count c;
         bg_in_sid = cursor mod groups_per_sid;
         column = sid_bg mod bursts_per_row c;
         sid_bg = sid_bg div bursts_per_row c;
         bank = sid_bg mod banks_per_group c;
         sid_bg = sid_bg div banks_per_group c;
         sid = sid_bg mod sid_count c;
         row = sid_bg div sid_count c in
     if sid \<ge> sid_count c \<or> row \<ge> rows_per_bank c then Inl Sid_Geometry
     else Inr (lane, sid * groups_per_sid + bg_in_sid, bank, row, column))"

definition row_local_coords :: "dram_config \<Rightarrow> int \<Rightarrow> int \<times> int \<times> int \<times> int" where
  "row_local_coords c local =
    (let cursor = local div burst_bytes c;
         stripe = cursor div bursts_per_row c; column = cursor mod bursts_per_row c;
         stripe' = stripe div bank_count c; bank = stripe mod bank_count c in
     (stripe' mod lane_count c, bank, stripe' div lane_count c, column))"

definition bank_interleaved_coords :: "dram_config \<Rightarrow> int \<Rightarrow> int \<times> int \<times> int \<times> int" where
  "bank_interleaved_coords c local =
    (let interleave_bursts = or_default (interleave_bytes c) (burst_bytes c) div burst_bytes c;
         cursor = local div burst_bytes c;
         interleave_block = cursor div interleave_bursts; inner_burst = cursor mod interleave_bursts;
         lane = interleave_block mod lane_count c;
         bank_linear = interleave_block div lane_count c;
         bank = rotated_bank (bank_linear mod bank_count c) (bank_count c) (banks_per_group c);
         bank_local = bank_linear div bank_count c;
         row_column = bank_local * interleave_bursts + inner_burst in
     (lane, bank, row_column div bursts_per_row c, row_column mod bursts_per_row c))"

definition dram_per_die :: "dram_config \<Rightarrow> int" where
  "dram_per_die c = lane_count c * bank_count c * rows_per_bank c * row_bytes c"

text \<open>
  The tail of \<open>map_dram_address\<close>: the lane is decoded into channel coordinates, and the flat
  bank, unless the mapping is SID-aware, into rank, group and bank. An independent stack is
  read off the lane.
\<close>

definition dram_mapping ::
  "dram_config \<Rightarrow> int \<Rightarrow> int \<Rightarrow> int \<Rightarrow> int \<Rightarrow> int \<Rightarrow> int \<Rightarrow> int \<Rightarrow> int \<Rightarrow> address_mapping" where
  "dram_mapping c address stack0 die lane bank_group0 bank row column =
    (let stack = (if stack_interface_mode c = Independent then lane div lanes_per_stack c else stack0);
         rem = lane mod lanes_per_stack c;
         pseudo = rem mod pseudo_channels_per_channel c;
         rem = rem div pseudo_channels_per_channel c;
         subchannel = rem mod subchannels_per_channel c;
         rem = rem div subchannels_per_channel c;
         channel = rem mod channels c;
         per_rank = bank_groups_per_rank c * banks_per_group c;
         rank = (if mapping_policy_of c = Sid_Aware then 0 else bank div per_rank);
         bank_group = (if mapping_policy_of c = Sid_Aware then bank_group0
                       else bank mod per_rank div banks_per_group c);
         bank_id = (if mapping_policy_of c = Sid_Aware then bank
                    else bank mod per_rank mod banks_per_group c) in
     (address_mapping_of address)\<lparr>am_stack := stack, am_die := die, am_lane := lane,
       am_channel := channel, am_subchannel := subchannel, am_pseudo_channel := pseudo,
       am_rank := rank, am_bank_group := bank_group, am_bank := bank_id,
       am_row := row, am_column := column\<rparr>)"

definition map_dram_address :: "dram_config \<Rightarrow> int \<Rightarrow> mapping_error + address_mapping" where
  "map_dram_address c address =
    rbind (check_address address (dram_effective_capacity c)) (\<lambda>_.
    let per_die = dram_per_die c; per_stack = per_die * addressable_die_count c;
        stack = address div per_stack; stack_local = address mod per_stack;
        die = stack_local div per_die; local = stack_local mod per_die in
    case mapping_policy_of c of
      Sid_Aware \<Rightarrow> rbind (sid_aware_coords c local) (\<lambda>(lane, bank_group, bank, row, column).
        Inr (dram_mapping c address stack die lane bank_group bank row column))
    | Row_Local \<Rightarrow> (case row_local_coords c local of (lane, bank, row, column) \<Rightarrow>
        Inr (dram_mapping c address stack die lane 0 bank row column))
    | Bank_Interleaved \<Rightarrow> (case bank_interleaved_coords c local of (lane, bank, row, column) \<Rightarrow>
        Inr (dram_mapping c address stack die lane 0 bank row column)))"

definition lane_channel :: "dram_config \<Rightarrow> int \<Rightarrow> int \<times> int" where
  "lane_channel c lane =
    (if stack_interface_mode c = Independent then lane div lanes_per_stack c else 0,
     ((lane mod lanes_per_stack c) div pseudo_channels_per_channel c
        div subchannels_per_channel c) mod channels c)"

definition channel_block_bytes :: "dram_config \<Rightarrow> int" where
  "channel_block_bytes c = (case mapping_policy_of c of
      Row_Local \<Rightarrow> row_bytes c * bank_count c
    | Sid_Aware \<Rightarrow> burst_bytes c * bank_groups_per_sid c
    | Bank_Interleaved \<Rightarrow> or_default (interleave_bytes c) (burst_bytes c))"

definition dram_request_channels :: "dram_config \<Rightarrow> access_request \<Rightarrow> (int \<times> int) list" where
  "dram_request_channels c request =
    (let n = lane_count c; block = channel_block_bytes c;
         start = req_address request div block;
         stop = (req_address request + byte_count request - 1) div block + 1;
         lanes = (if stop - start \<ge> n then [0 .. n - 1] else map (\<lambda>i. i mod n) [start .. stop - 1]) in
     sorted_list_of_set (set (map (lane_channel c) lanes)))"

definition nand_base_units :: "nand_config \<Rightarrow> int" where
  "nand_base_units c = nand_channels c * targets_per_channel c * dies_per_target c * luns_per_die c"

definition map_nand_address :: "nand_config \<Rightarrow> int \<Rightarrow> mapping_error + address_mapping" where
  "map_nand_address c address =
    rbind (check_address address (nand_effective_capacity c)) (\<lambda>_.
    let page_index = address div page_bytes c; page_offset = address mod page_bytes c;
        base_units = nand_base_units c;
        base_unit = page_index mod base_units;
        (plane, unit, physical_page) =
          (if planes_independent c
           then let plane = page_index div base_units mod planes_per_lun c in
             (plane, base_unit + plane * base_units, page_index div (base_units * planes_per_lun c))
           else let physical_page = page_index div base_units in
             (physical_page mod planes_per_lun c, base_unit, physical_page div planes_per_lun c));
        page = physical_page mod pages_per_block c;
        block = physical_page div pages_per_block c;
        lun = base_unit mod luns_per_die c;
        base = base_unit div luns_per_die c;
        die = base mod dies_per_target c;
        base = base div dies_per_target c;
        target = base mod targets_per_channel c;
        channel = base div targets_per_channel c in
    Inr ((address_mapping_of address)\<lparr>am_channel := channel, am_target := target, am_die := die,
      am_lun := lun, am_plane := plane, am_block := block, am_page := page,
      am_page_offset := page_offset, am_unit := unit\<rparr>))"

definition validate_dram_request :: "access_request \<Rightarrow> dram_config \<Rightarrow> mapping_error + unit" where
  "validate_dram_request request c =
    (if req_operation request = ERASE then Inl Dram_Erase
     else rbind (check_address (req_address request) (dram_effective_capacity c)) (\<lambda>_.
       if req_address request + byte_count request > dram_effective_capacity c
       then Inl Beyond_Dram_Capacity else Inr ()))"

text \<open>A generator that raises part way yields no list: the first error is the result.\<close>

fun map_result :: "('a \<Rightarrow> 'e + 'b) \<Rightarrow> 'a list \<Rightarrow> 'e + 'b list" where
  "map_result f [] = Inr []"
| "map_result f (x # xs) = rbind (f x) (\<lambda>y. rbind (map_result f xs) (\<lambda>ys. Inr (y # ys)))"

definition dram_segment :: "dram_config \<Rightarrow> access_request \<Rightarrow> int \<Rightarrow> mapping_error + segment" where
  "dram_segment c request burst =
    (let start = req_address request; stop = start + byte_count request;
         burst_start = burst * burst_bytes c;
         logical_start = max start burst_start;
         logical_end = min stop (burst_start + burst_bytes c) in
     rbind (map_dram_address c burst_start) (\<lambda>mapping.
     Inr \<lparr>seg_request_id = request_id request, seg_operation = req_operation request,
       seg_address = burst_start, logical_bytes = logical_end - logical_start,
       transfer_bytes = burst_bytes c, seg_mapping = mapping,
       seg_host_transfer_bytes = 0, seg_internal_transfer_bytes = 0\<rparr>))"

definition split_dram_request :: "access_request \<Rightarrow> dram_config \<Rightarrow> mapping_error + segment list" where
  "split_dram_request request c =
    rbind (validate_dram_request request c) (\<lambda>_.
    let start = req_address request; stop = start + byte_count request;
        first = start div burst_bytes c; last = (stop - 1) div burst_bytes c in
    map_result (dram_segment c request) [first .. last])"

definition validate_nand_request :: "access_request \<Rightarrow> nand_config \<Rightarrow> mapping_error + unit" where
  "validate_nand_request request c =
    (let start = req_address request; stop = start + byte_count request in
     rbind (check_address start (nand_effective_capacity c)) (\<lambda>_.
     if stop > nand_effective_capacity c then Inl Beyond_Nand_Capacity
     else if protocol_mode_of c = Ocp_Hbf_0_7 \<and> req_operation request = ERASE then Inl Ocp_Erase
     else if req_operation request = WRITE \<and> partial_page_policy_of c = Reject_Partial
        \<and> (start mod page_bytes c \<noteq> 0 \<or> byte_count request mod page_bytes c \<noteq> 0)
     then Inl Partial_Page_Write
     else Inr ()))"

definition block_key :: "address_mapping \<Rightarrow> int \<times> int \<times> int \<times> int \<times> int \<times> int" where
  "block_key m = (am_channel m, am_target m, am_die m, am_lun m, am_plane m, am_block m)"

text \<open>The erase branch: one segment per physical block, at the first page that names the block.\<close>

fun collect_blocks :: "nand_config \<Rightarrow> int list \<Rightarrow> (int \<times> int \<times> int \<times> int \<times> int \<times> int, int \<times> address_mapping) dict
    \<Rightarrow> mapping_error + (int \<times> int \<times> int \<times> int \<times> int \<times> int, int \<times> address_mapping) dict" where
  "collect_blocks c [] blocks = Inr blocks"
| "collect_blocks c (p # ps) blocks =
    (let address = p * page_bytes c in
     rbind (map_nand_address c address) (\<lambda>mapping.
     let key = block_key mapping in
     collect_blocks c ps
       (if map_of blocks key = None then AList.update key (address, mapping) blocks else blocks)))"

definition erase_segment :: "access_request \<Rightarrow> int \<times> address_mapping \<Rightarrow> segment" where
  "erase_segment request am = \<lparr>seg_request_id = request_id request,
     seg_operation = req_operation request, seg_address = fst am, logical_bytes = 0,
     transfer_bytes = 0, seg_mapping = snd am, seg_host_transfer_bytes = 0,
     seg_internal_transfer_bytes = 0\<rparr>"

definition nand_segment :: "nand_config \<Rightarrow> access_request \<Rightarrow> int \<Rightarrow> mapping_error + segment" where
  "nand_segment c request page_index =
    (let start = req_address request; stop = start + byte_count request;
         page_start = page_index * page_bytes c;
         logical_start = max start page_start;
         logical_end = min stop (page_start + page_bytes c);
         aligned_start = (logical_start div host_granularity_bytes c) * host_granularity_bytes c;
         aligned_end = round_up_to logical_end (host_granularity_bytes c) in
     rbind (map_nand_address c page_start) (\<lambda>mapping.
     Inr \<lparr>seg_request_id = request_id request, seg_operation = req_operation request,
       seg_address = page_start, logical_bytes = logical_end - logical_start,
       transfer_bytes = transfer_page_bytes c, seg_mapping = mapping,
       seg_host_transfer_bytes = aligned_end - aligned_start,
       seg_internal_transfer_bytes = transfer_page_bytes c\<rparr>))"

definition split_nand_request :: "access_request \<Rightarrow> nand_config \<Rightarrow> mapping_error + segment list" where
  "split_nand_request request c =
    rbind (validate_nand_request request c) (\<lambda>_.
    let start = req_address request; stop = start + byte_count request;
        first = start div page_bytes c; last = (stop - 1) div page_bytes c in
    if req_operation request = ERASE
    then rbind (collect_blocks c [first .. last] []) (\<lambda>blocks.
      Inr (map (erase_segment request \<circ> snd) blocks))
    else map_result (nand_segment c request) [first .. last])"

text \<open>The dispatch on the medium; a value of another type is excluded by typing.\<close>

datatype memory_config = Dram_Medium dram_config | Nand_Medium nand_config

fun map_address :: "memory_config \<Rightarrow> int \<Rightarrow> mapping_error + address_mapping" where
  "map_address (Dram_Medium c) address = map_dram_address c address"
| "map_address (Nand_Medium c) address = map_nand_address c address"

fun split_request :: "access_request \<Rightarrow> memory_config \<Rightarrow> mapping_error + segment list" where
  "split_request request (Dram_Medium c) = split_dram_request request c"
| "split_request request (Nand_Medium c) = split_nand_request request c"

section \<open>The bank rotation is a permutation\<close>

lemma rotation_unit_props:
  assumes "0 < banks" "0 < per_group"
  shows "0 < rotation_unit banks per_group" "rotation_unit banks per_group dvd banks"
  using assms by (auto simp: rotation_unit_def)

lemma rotation_groups_split:
  assumes "0 < per_group" "1 < rotation_groups banks per_group"
  shows "rotation_groups banks per_group * per_group = rotation_unit banks per_group"
  using assms by (auto simp: rotation_groups_def Let_def split: if_splits)

lemma rotated_bank_range:
  assumes "0 < banks" "0 < per_group" "0 \<le> step" "step < banks"
  shows "0 \<le> rotated_bank step banks per_group \<and> rotated_bank step banks per_group < banks"
proof -
  let ?u = "rotation_unit banks per_group" and ?g = "rotation_groups banks per_group"
  show ?thesis
  proof (cases "?g \<le> 1")
    case True
    then show ?thesis using assms by (simp add: rotated_bank_def Let_def)
  next
    case False
    let ?o = "step mod ?u"
    have u: "0 < ?u" "?u dvd banks" by (rule rotation_unit_props [OF assms(1,2)])+
    have gu: "?g * per_group = ?u" using False assms(2) by (intro rotation_groups_split) auto
    have o: "0 \<le> ?o" "?o < ?g * per_group" using u gu by auto
    note t = transpose_digits [OF _ assms(2) o]
    have "step div ?u * ?u + ?o < banks" using assms(4) by (simp only: div_mult_mod_eq)
    moreover have "(?o mod ?g) * per_group + ?o div ?g < ?u" using t(2) False gu by auto
    ultimately have "step div ?u * ?u + ((?o mod ?g) * per_group + ?o div ?g) < banks"
      by (rule block_in_range [OF u _ o(1)])
    moreover have "0 \<le> step div ?u * ?u"
      using assms(3) u by (simp add: pos_imp_zdiv_nonneg_iff)
    ultimately show ?thesis using False t(1) by (simp add: rotated_bank_def Let_def)
  qed
qed

lemma rotated_bank_step_inverse:
  assumes "0 < banks" "0 < per_group"
  shows "rotated_bank_step (rotated_bank step banks per_group) banks per_group = step"
proof -
  let ?u = "rotation_unit banks per_group" and ?g = "rotation_groups banks per_group"
  show ?thesis
  proof (cases "?g \<le> 1")
    case True
    then show ?thesis by (simp add: rotated_bank_def rotated_bank_step_def Let_def)
  next
    case False
    let ?o = "step mod ?u"
    have u: "0 < ?u" by (rule rotation_unit_props [OF assms])
    have gu: "?g * per_group = ?u" using False assms(2) by (intro rotation_groups_split) auto
    have o: "0 \<le> ?o" "?o < ?g * per_group" using u gu by auto
    note t = transpose_digits [OF _ assms(2) o]
    let ?t = "(?o mod ?g) * per_group + ?o div ?g"
    have tr: "0 \<le> ?t" "?t < ?u" using t(1,2) False gu by auto
    have eq: "rotated_bank step banks per_group = step div ?u * ?u + ?t"
      using False by (simp add: rotated_bank_def Let_def)
    have "rotated_bank_step (step div ?u * ?u + ?t) banks per_group =
        step div ?u * ?u + ((?t mod per_group) * ?g + ?t div per_group)"
      using False block_digits [OF u tr] by (simp only: rotated_bank_step_def Let_def if_False add.assoc)
    also have "\<dots> = step div ?u * ?u + (?o div ?g * ?g + ?o mod ?g)"
      using False t(3,4) by (simp only:)
    also have "\<dots> = step" by (simp only: div_mult_mod_eq)
    finally show ?thesis unfolding eq .
  qed
qed

lemma rotated_bank_inverse:
  assumes "0 < banks" "0 < per_group"
  shows "rotated_bank (rotated_bank_step bank banks per_group) banks per_group = bank"
proof -
  let ?u = "rotation_unit banks per_group" and ?g = "rotation_groups banks per_group"
  show ?thesis
  proof (cases "?g \<le> 1")
    case True
    then show ?thesis by (simp add: rotated_bank_def rotated_bank_step_def Let_def)
  next
    case False
    let ?o = "bank mod ?u"
    have u: "0 < ?u" by (rule rotation_unit_props [OF assms])
    have gu: "?g * per_group = ?u" using False assms(2) by (intro rotation_groups_split) auto
    have o: "0 \<le> ?o" "?o < per_group * ?g" using u gu by (auto simp: mult.commute)
    note t = transpose_digits [OF assms(2) _ o]
    let ?t = "(?o mod per_group) * ?g + ?o div per_group"
    have tr: "0 \<le> ?t" "?t < ?u" using t(1,2) False gu by (auto simp: mult.commute)
    have eq: "rotated_bank_step bank banks per_group = bank div ?u * ?u + ?t"
      using False by (simp add: rotated_bank_step_def Let_def)
    have "rotated_bank (bank div ?u * ?u + ?t) banks per_group =
        bank div ?u * ?u + ((?t mod ?g) * per_group + ?t div ?g)"
      using False block_digits [OF u tr] by (simp only: rotated_bank_def Let_def if_False add.assoc)
    also have "\<dots> = bank div ?u * ?u + (?o div per_group * per_group + ?o mod per_group)"
      using False t(3,4) by (simp only:)
    also have "\<dots> = bank" by (simp only: div_mult_mod_eq)
    finally show ?thesis unfolding eq .
  qed
qed

section \<open>The DRAM mapping is invertible\<close>

text \<open>
  The inverse, which the code does not have: the die-local burst that a coordinate names, and
  the address of its first byte.
\<close>

definition dram_cursor :: "dram_config \<Rightarrow> int \<Rightarrow> int \<Rightarrow> int \<Rightarrow> int \<Rightarrow> int \<Rightarrow> int" where
  "dram_cursor c lane bank_group bank row column =
    (case mapping_policy_of c of
       Sid_Aware \<Rightarrow>
         (let sid = bank_group div bank_groups_per_sid c; g = bank_group mod bank_groups_per_sid c in
          ((((row * sid_count c + sid) * banks_per_group c + bank) * bursts_per_row c + column)
            * lane_count c + lane) * bank_groups_per_sid c + g)
     | Row_Local \<Rightarrow> ((row * lane_count c + lane) * bank_count c + bank) * bursts_per_row c + column
     | Bank_Interleaved \<Rightarrow>
         (let ib = or_default (interleave_bytes c) (burst_bytes c) div burst_bytes c;
              rc = row * bursts_per_row c + column in
          (((rc div ib) * bank_count c + rotated_bank_step bank (bank_count c) (banks_per_group c))
            * lane_count c + lane) * ib + rc mod ib))"

definition flat_bank :: "dram_config \<Rightarrow> address_mapping \<Rightarrow> int" where
  "flat_bank c m = (if mapping_policy_of c = Sid_Aware then am_bank m
     else am_rank m * (bank_groups_per_rank c * banks_per_group c)
        + (am_bank_group m * banks_per_group c + am_bank m))"

definition dram_address_of :: "dram_config \<Rightarrow> address_mapping \<Rightarrow> int" where
  "dram_address_of c m =
    (let stack = (if stack_interface_mode c = Independent then 0 else am_stack m) in
     stack * (dram_per_die c * addressable_die_count c) + (am_die m * dram_per_die c
       + dram_cursor c (am_lane m) (am_bank_group m) (flat_bank c m) (am_row m) (am_column m)
           * burst_bytes c))"

lemma dram_counts_pos:
  assumes "dram_ok c"
  shows "0 < lanes_per_stack c" "0 < lane_count c" "0 < bank_count c" "0 < bursts_per_row c"
    "bursts_per_row c * burst_bytes c = row_bytes c" "0 < dram_per_die c"
    "0 < addressable_die_count c" "burst_bytes c dvd dram_per_die c" "0 < sid_count c"
proof -
  show lps: "0 < lanes_per_stack c" using assms
    by (auto simp: dram_ok_def lanes_per_stack_def opt_pos_def or_default_def split: option.splits)
  then show lc: "0 < lane_count c" using assms by (simp add: lane_count_def dram_ok_def)
  show bc: "0 < bank_count c" using assms by (simp add: bank_count_def dram_ok_def)
  have d: "burst_bytes c dvd row_bytes c" "0 < row_bytes c" "0 < burst_bytes c"
    using assms by (auto simp: dram_ok_def)
  then show eq: "bursts_per_row c * burst_bytes c = row_bytes c" by (simp add: bursts_per_row_def)
  with d show "0 < bursts_per_row c" by (metis zero_less_mult_pos2)
  show "0 < dram_per_die c" using lc bc assms by (simp add: dram_per_die_def dram_ok_def)
  show "0 < addressable_die_count c" using assms by (simp add: addressable_die_count_def dram_ok_def)
  show "burst_bytes c dvd dram_per_die c" using d by (simp add: dram_per_die_def)
  show "0 < sid_count c" by (simp add: sid_count_def)
qed

lemma interleave_bursts_pos:
  assumes "dram_ok c"
  shows "0 < or_default (interleave_bytes c) (burst_bytes c) div burst_bytes c"
    "or_default (interleave_bytes c) (burst_bytes c) div burst_bytes c dvd
       rows_per_bank c * bursts_per_row c"
proof -
  let ?i = "or_default (interleave_bytes c) (burst_bytes c)" and ?q = "burst_bytes c"
  have q: "0 < ?q" and i: "0 < ?i" "?q dvd ?i" "?i dvd rows_per_bank c * row_bytes c"
    using assms by (auto simp: dram_ok_def opt_pos_def or_default_def split: option.splits)
  then obtain k where k: "?i = ?q * k" by (auto simp: dvd_def)
  show "0 < ?i div ?q" using i(1) q k by (simp add: zero_less_mult_iff)
  have "?q * k dvd rows_per_bank c * bursts_per_row c * ?q"
    using i(3) dram_counts_pos(5) [OF assms] k by (simp add: mult.assoc)
  then have "k dvd rows_per_bank c * bursts_per_row c" using q by (simp add: mult.commute)
  then show "?i div ?q dvd rows_per_bank c * bursts_per_row c" using k q by simp
qed

lemma row_local_cursor:
  assumes "row_local_coords c l = (lane, bank, row, column)" "mapping_policy_of c = Row_Local"
  shows "dram_cursor c lane bg bank row column = l div burst_bytes c"
  using assms by (auto simp: row_local_coords_def dram_cursor_def Let_def)

lemma bank_interleaved_cursor:
  assumes "bank_interleaved_coords c l = (lane, bank, row, column)"
    "mapping_policy_of c = Bank_Interleaved" "dram_ok c"
  shows "dram_cursor c lane bg bank row column = l div burst_bytes c"
proof -
  let ?ib = "or_default (interleave_bytes c) (burst_bytes c) div burst_bytes c"
  let ?cur = "l div burst_bytes c"
  have ib: "0 < ?ib" by (rule interleave_bursts_pos [OF assms(3)])
  have b: "0 < bank_count c" "0 < banks_per_group c"
    using dram_counts_pos [OF assms(3)] assms(3) by (auto simp: dram_ok_def)
  have rc: "row * bursts_per_row c + column = ?cur div ?ib div lane_count c div bank_count c * ?ib + ?cur mod ?ib"
    using assms(1) by (auto simp: bank_interleaved_coords_def Let_def)
  have m: "0 \<le> ?cur mod ?ib" "?cur mod ?ib < ?ib" using ib by auto
  have bk: "rotated_bank_step bank (bank_count c) (banks_per_group c) = ?cur div ?ib div lane_count c mod bank_count c"
    using assms(1) rotated_bank_step_inverse [OF b] by (auto simp: bank_interleaved_coords_def Let_def)
  have ln: "lane = ?cur div ?ib mod lane_count c"
    using assms(1) by (auto simp: bank_interleaved_coords_def Let_def)
  show ?thesis
    unfolding dram_cursor_def assms(2) mapping_policy.case Let_def rc bk ln block_digits [OF ib m]
    by (simp only: div_mult_mod_eq)
qed

lemma sid_aware_coordsE:
  assumes "sid_aware_coords c l = Inr (lane, bg, bank, row, column)"
  defines "cur \<equiv> l div burst_bytes c" and "g \<equiv> bank_groups_per_sid c"
  defines "b \<equiv> cur div g div lane_count c div bursts_per_row c"
  defines "s \<equiv> b div banks_per_group c"
  shows "lane = cur div g mod lane_count c" "bg = s mod sid_count c * g + cur mod g"
    "bank = b mod banks_per_group c" "row = s div sid_count c"
    "column = cur div g div lane_count c mod bursts_per_row c" "row < rows_per_bank c"
proof -
  have "\<not> (s mod sid_count c \<ge> sid_count c \<or> s div sid_count c \<ge> rows_per_bank c) \<and>
      (cur div g mod lane_count c, s mod sid_count c * g + cur mod g, b mod banks_per_group c,
        s div sid_count c, cur div g div lane_count c mod bursts_per_row c) = (lane, bg, bank, row, column)"
    using assms(1) unfolding sid_aware_coords_def Let_def
    unfolding cur_def [symmetric] g_def [symmetric] unfolding b_def [symmetric]
    unfolding s_def [symmetric] by (cases "s mod sid_count c \<ge> sid_count c \<or> s div sid_count c \<ge> rows_per_bank c") simp_all
  then show "lane = cur div g mod lane_count c" "bg = s mod sid_count c * g + cur mod g"
    "bank = b mod banks_per_group c" "row = s div sid_count c"
    "column = cur div g div lane_count c mod bursts_per_row c" "row < rows_per_bank c" by auto
qed

lemma sid_aware_cursor:
  assumes "sid_aware_coords c l = Inr (lane, bg, bank, row, column)"
    "mapping_policy_of c = Sid_Aware" "dram_ok c"
  shows "dram_cursor c lane bg bank row column = l div burst_bytes c"
proof -
  let ?g = "bank_groups_per_sid c"
  have g: "0 < ?g" using assms(2,3) by (auto simp: dram_ok_def)
  define cur where "cur = l div burst_bytes c"
  define s where "s = cur div ?g div lane_count c div bursts_per_row c div banks_per_group c"
  have eqs: "lane = cur div ?g mod lane_count c" "bg = s mod sid_count c * ?g + cur mod ?g"
    "bank = cur div ?g div lane_count c div bursts_per_row c mod banks_per_group c"
    "row = s div sid_count c" "column = cur div ?g div lane_count c mod bursts_per_row c"
    using sid_aware_coordsE [OF assms(1)] by (simp_all only: cur_def s_def)
  have m: "0 \<le> cur mod ?g" "cur mod ?g < ?g" using g by auto
  have "dram_cursor c lane bg bank row column = cur"
    unfolding dram_cursor_def assms(2) mapping_policy.case Let_def eqs block_digits [OF g m]
    by (simp only: div_mult_mod_eq s_def)
  then show ?thesis by (simp only: cur_def)
qed

lemma flat_bank_mapping [simp]:
  "flat_bank c (dram_mapping c a stack die lane bg bank row column) = bank"
  using div_mult_mod_eq [of bank "bank_groups_per_rank c * banks_per_group c"]
  by (simp add: flat_bank_def dram_mapping_def Let_def address_mapping_of_def)

lemma dram_mapping_fields [simp]:
  "am_address (dram_mapping c a stack die lane bg bank row column) = a"
  "am_die (dram_mapping c a stack die lane bg bank row column) = die"
  "am_lane (dram_mapping c a stack die lane bg bank row column) = lane"
  "am_row (dram_mapping c a stack die lane bg bank row column) = row"
  "am_column (dram_mapping c a stack die lane bg bank row column) = column"
  "am_stack (dram_mapping c a stack die lane bg bank row column) =
     (if stack_interface_mode c = Independent then lane div lanes_per_stack c else stack)"
  "mapping_policy_of c = Sid_Aware \<Longrightarrow> am_bank_group (dram_mapping c a stack die lane bg bank row column) = bg"
  by (simp_all add: dram_mapping_def Let_def address_mapping_of_def)

lemma dram_cursor_bank_group:
  "mapping_policy_of c \<noteq> Sid_Aware \<Longrightarrow> dram_cursor c lane bg bank row column = dram_cursor c lane bg' bank row column"
  by (cases "mapping_policy_of c") (simp_all add: dram_cursor_def)

text \<open>A mapped address, taken apart: its stack, die and die-local burst.\<close>

lemma map_dram_addressE:
  assumes "dram_ok c" "map_dram_address c a = Inr m"
  obtains lane bg bank row column where
    "m = dram_mapping c a (a div (dram_per_die c * addressable_die_count c))
       (a mod (dram_per_die c * addressable_die_count c) div dram_per_die c) lane bg bank row column"
    "dram_cursor c lane bg bank row column =
       a mod (dram_per_die c * addressable_die_count c) mod dram_per_die c div burst_bytes c"
    "0 \<le> a" "a < dram_effective_capacity c"
proof -
  let ?l = "a mod (dram_per_die c * addressable_die_count c) mod dram_per_die c"
  have rng: "0 \<le> a" "a < dram_effective_capacity c"
    using assms(2) by (auto simp: map_dram_address_def check_address_def split: if_splits)
  show ?thesis
  proof (cases "mapping_policy_of c")
    case Sid_Aware
    with assms(2) rng obtain lane bg bank row column where
      "sid_aware_coords c ?l = Inr (lane, bg, bank, row, column)"
      "m = dram_mapping c a (a div (dram_per_die c * addressable_die_count c))
       (a mod (dram_per_die c * addressable_die_count c) div dram_per_die c) lane bg bank row column"
      by (auto simp: map_dram_address_def Let_def step_simps)
    then show ?thesis using sid_aware_cursor [OF _ Sid_Aware assms(1)] rng that by blast
  next
    case Row_Local
    obtain lane bank row column where co: "row_local_coords c ?l = (lane, bank, row, column)"
      by (metis prod_cases4)
    have "m = dram_mapping c a (a div (dram_per_die c * addressable_die_count c))
       (a mod (dram_per_die c * addressable_die_count c) div dram_per_die c) lane 0 bank row column"
      using assms(2) Row_Local co by (auto simp: map_dram_address_def Let_def step_simps)
    then show ?thesis using row_local_cursor [OF co Row_Local] rng that by blast
  next
    case Bank_Interleaved
    obtain lane bank row column where co: "bank_interleaved_coords c ?l = (lane, bank, row, column)"
      by (metis prod_cases4)
    have "m = dram_mapping c a (a div (dram_per_die c * addressable_die_count c))
       (a mod (dram_per_die c * addressable_die_count c) div dram_per_die c) lane 0 bank row column"
      using assms(2) Bank_Interleaved co by (auto simp: map_dram_address_def Let_def step_simps)
    then show ?thesis using bank_interleaved_cursor [OF co Bank_Interleaved assms(1)] rng that by blast
  qed
qed

lemma dram_capacity_independent:
  assumes "dram_ok c" "stack_interface_mode c = Independent" "0 \<le> a" "a < dram_effective_capacity c"
  shows "a div (dram_per_die c * addressable_die_count c) = 0"
proof -
  have "dram_computed_capacity c = dram_per_die c * addressable_die_count c"
    using assms(2) by (simp add: dram_computed_capacity_def dram_per_die_def addressable_stack_count_def)
  moreover have "dram_effective_capacity c \<le> dram_computed_capacity c"
    using assms(1) by (simp add: dram_ok_def)
  ultimately show ?thesis using assms(3,4) by simp
qed

text \<open>
  Decoding the coordinates of an address gives back the first byte of its burst.
\<close>

lemma dram_address_of_mapping:
  assumes "dram_ok c" "map_dram_address c a = Inr m"
  shows "dram_address_of c m = a div burst_bytes c * burst_bytes c"
proof -
  let ?ps = "dram_per_die c * addressable_die_count c" and ?pd = "dram_per_die c"
  let ?l = "a mod ?ps mod ?pd" and ?q = "burst_bytes c"
  obtain lane bg bank row column where m: "m = dram_mapping c a (a div ?ps) (a mod ?ps div ?pd) lane bg bank row column"
    and cur: "dram_cursor c lane bg bank row column = ?l div ?q"
    and rng: "0 \<le> a" "a < dram_effective_capacity c"
    using map_dram_addressE [OF assms] by blast
  have stack: "(if stack_interface_mode c = Independent then 0 else am_stack m) = a div ?ps"
    using dram_capacity_independent [OF assms(1) _ rng] m by auto
  have cur': "dram_cursor c lane (am_bank_group m) bank row column = ?l div ?q"
  proof (cases "mapping_policy_of c = Sid_Aware")
    case True
    then show ?thesis using cur m by simp
  next
    case False
    then show ?thesis using cur dram_cursor_bank_group by metis
  qed
  have "dram_address_of c m = a div ?ps * ?ps + (a mod ?ps div ?pd * ?pd + ?l div ?q * ?q)"
    unfolding dram_address_of_def Let_def stack using cur' m by simp
  moreover have "a = a div ?ps * ?ps + (a mod ?ps div ?pd * ?pd + ?l)"
    by (simp only: div_mult_mod_eq)
  moreover have "?l mod ?q = a mod ?q"
    using dram_counts_pos(8) [OF assms(1)] by (simp add: mod_mod_cancel)
  ultimately show ?thesis
    by (metis add.assoc add_diff_cancel_right' minus_mod_eq_div_mult add_diff_eq)
qed

lemma map_dram_injective:
  assumes "dram_ok c" "map_dram_address c a = Inr m" "map_dram_address c b = Inr n"
    "n\<lparr>am_address := am_address m\<rparr> = m"
  shows "a div burst_bytes c = b div burst_bytes c"
proof -
  have "dram_address_of c (n\<lparr>am_address := x\<rparr>) = dram_address_of c n" for x
    by (simp add: dram_address_of_def flat_bank_def)
  then have "dram_address_of c m = dram_address_of c n" using assms(4) by metis
  then show ?thesis
    using dram_address_of_mapping [OF assms(1,2)] dram_address_of_mapping [OF assms(1,3)] assms(1)
    by (auto simp: dram_ok_def)
qed

section \<open>Coordinates stay in their ranges\<close>

definition dram_coords_in_range :: "dram_config \<Rightarrow> address_mapping \<Rightarrow> bool" where
  "dram_coords_in_range c m \<longleftrightarrow>
     0 \<le> am_stack m \<and> am_stack m < stacks c \<and>
     0 \<le> am_die m \<and> am_die m < dies_per_stack c \<and>
     0 \<le> am_lane m \<and> am_lane m < lane_count c \<and>
     0 \<le> am_channel m \<and> am_channel m < channels c \<and>
     0 \<le> am_subchannel m \<and> am_subchannel m < subchannels_per_channel c \<and>
     0 \<le> am_pseudo_channel m \<and> am_pseudo_channel m < pseudo_channels_per_channel c \<and>
     0 \<le> am_rank m \<and> am_rank m < ranks_per_channel c \<and>
     0 \<le> am_bank_group m \<and> am_bank_group m < bank_groups_per_rank c \<and>
     0 \<le> am_bank m \<and> am_bank m < banks_per_group c \<and>
     0 \<le> am_row m \<and> am_row m < rows_per_bank c \<and>
     0 \<le> am_column m \<and> am_column m < bursts_per_row c"

lemma sid_groups_le:
  assumes "dram_ok c"
  shows "bank_groups_per_sid c * sid_count c \<le> bank_groups_per_rank c"
  using dram_counts_pos(9) [OF assms] by (simp add: bank_groups_per_sid_def round_down_le)

lemma dram_mapping_in_range:
  assumes ok: "dram_ok c"
    and lane: "0 \<le> lane" "lane < lane_count c"
    and bank: "mapping_policy_of c = Sid_Aware \<Longrightarrow> 0 \<le> bank \<and> bank < banks_per_group c
      \<and> 0 \<le> bg \<and> bg < bank_groups_per_rank c"
      "mapping_policy_of c \<noteq> Sid_Aware \<Longrightarrow> 0 \<le> bank \<and> bank < bank_count c"
    and row: "0 \<le> row" "row < rows_per_bank c" and col: "0 \<le> column" "column < bursts_per_row c"
    and die: "0 \<le> die" "die < dies_per_stack c"
    and stack: "stack_interface_mode c = Shared \<Longrightarrow> 0 \<le> stack \<and> stack < stacks c"
  shows "dram_coords_in_range c (dram_mapping c a stack die lane bg bank row column)"
proof -
  let ?m = "dram_mapping c a stack die lane bg bank row column"
  let ?pr = "bank_groups_per_rank c * banks_per_group c"
  have pos: "0 < channels c" "0 < subchannels_per_channel c" "0 < pseudo_channels_per_channel c"
    "0 < banks_per_group c" "0 < bank_groups_per_rank c" "0 < ranks_per_channel c" "0 < stacks c"
    using ok by (auto simp: dram_ok_def)
  have pr: "0 < ?pr" using pos by simp
  have lps: "0 < lanes_per_stack c" by (rule dram_counts_pos [OF ok])
  have st: "0 \<le> am_stack ?m \<and> am_stack ?m < stacks c"
  proof (cases "stack_interface_mode c")
    case Shared
    then show ?thesis using stack by simp
  next
    case Independent
    then have "lane < stacks c * lanes_per_stack c" using lane by (simp add: lane_count_def mult.commute)
    then show ?thesis using Independent lane lps
      by (simp add: div_less_of_less_mult pos_imp_zdiv_nonneg_iff)
  qed
  have ch: "0 \<le> am_channel ?m \<and> am_channel ?m < channels c \<and> 0 \<le> am_subchannel ?m \<and>
      am_subchannel ?m < subchannels_per_channel c \<and> 0 \<le> am_pseudo_channel ?m \<and>
      am_pseudo_channel ?m < pseudo_channels_per_channel c"
    using pos by (simp add: dram_mapping_def Let_def address_mapping_of_def)
  have bk: "0 \<le> am_rank ?m \<and> am_rank ?m < ranks_per_channel c \<and> 0 \<le> am_bank_group ?m \<and>
      am_bank_group ?m < bank_groups_per_rank c \<and> 0 \<le> am_bank ?m \<and> am_bank ?m < banks_per_group c"
  proof (cases "mapping_policy_of c = Sid_Aware")
    case True
    then show ?thesis using bank(1) pos by (simp add: dram_mapping_def Let_def address_mapping_of_def)
  next
    case False
    have "bank < ranks_per_channel c * ?pr" using bank(2) False by (simp add: bank_count_def mult.assoc)
    moreover have "bank mod ?pr < bank_groups_per_rank c * banks_per_group c" using pr by simp
    ultimately show ?thesis using False bank(2) pos pr
      by (simp add: dram_mapping_def Let_def address_mapping_of_def div_less_of_less_mult
          pos_imp_zdiv_nonneg_iff)
  qed
  show ?thesis using st ch bk lane row col die by (simp add: dram_coords_in_range_def)
qed

lemma dram_local_cursor_bounds:
  assumes "dram_ok c" "0 \<le> l" "l < dram_per_die c"
  shows "0 \<le> l div burst_bytes c"
    "l div burst_bytes c < lane_count c * bank_count c * rows_per_bank c * bursts_per_row c"
proof -
  have q: "0 < burst_bytes c" using assms(1) by (simp add: dram_ok_def)
  show "0 \<le> l div burst_bytes c" using assms(2) q by (simp add: pos_imp_zdiv_nonneg_iff)
  have "dram_per_die c = lane_count c * bank_count c * rows_per_bank c * bursts_per_row c * burst_bytes c"
    using dram_counts_pos(5) [OF assms(1)] by (simp add: dram_per_die_def mult.assoc)
  then show "l div burst_bytes c < lane_count c * bank_count c * rows_per_bank c * bursts_per_row c"
    using assms(3) q by (intro div_less_of_less_mult) auto
qed

lemma row_local_range:
  assumes "dram_ok c" "0 \<le> l" "l < dram_per_die c" "row_local_coords c l = (lane, bank, row, column)"
  shows "0 \<le> lane" "lane < lane_count c" "0 \<le> bank" "bank < bank_count c"
    "0 \<le> row" "row < rows_per_bank c" "0 \<le> column" "column < bursts_per_row c"
proof -
  let ?cur = "l div burst_bytes c"
  note pos = dram_counts_pos [OF assms(1)]
  have eqs: "lane = ?cur div bursts_per_row c div bank_count c mod lane_count c"
    "bank = ?cur div bursts_per_row c mod bank_count c"
    "row = ?cur div bursts_per_row c div bank_count c div lane_count c"
    "column = ?cur mod bursts_per_row c"
    using assms(4) by (auto simp: row_local_coords_def Let_def)
  show "0 \<le> lane" "lane < lane_count c" "0 \<le> bank" "bank < bank_count c" "0 \<le> column"
    "column < bursts_per_row c" using pos eqs by auto
  note b = dram_local_cursor_bounds [OF assms(1,2,3)]
  show "0 \<le> row" using b(1) pos eqs(3) by (simp add: pos_imp_zdiv_nonneg_iff)
  have "?cur < rows_per_bank c * lane_count c * bank_count c * bursts_per_row c"
    using b(2) by (simp add: mult.commute mult.left_commute)
  then show "row < rows_per_bank c" using pos eqs(3) by (simp add: div_less_of_less_mult)
qed

lemma bank_interleaved_range:
  assumes "dram_ok c" "0 \<le> l" "l < dram_per_die c"
    "bank_interleaved_coords c l = (lane, bank, row, column)"
  shows "0 \<le> lane" "lane < lane_count c" "0 \<le> bank" "bank < bank_count c"
    "0 \<le> row" "row < rows_per_bank c" "0 \<le> column" "column < bursts_per_row c"
proof -
  let ?cur = "l div burst_bytes c"
  let ?ib = "or_default (interleave_bytes c) (burst_bytes c) div burst_bytes c"
  let ?bl = "?cur div ?ib div lane_count c div bank_count c"
  note pos = dram_counts_pos [OF assms(1)] and ib = interleave_bursts_pos [OF assms(1)]
  have bpg: "0 < banks_per_group c" using assms(1) by (simp add: dram_ok_def)
  have eqs: "lane = ?cur div ?ib mod lane_count c"
    "bank = rotated_bank (?cur div ?ib div lane_count c mod bank_count c) (bank_count c) (banks_per_group c)"
    "row = (?bl * ?ib + ?cur mod ?ib) div bursts_per_row c"
    "column = (?bl * ?ib + ?cur mod ?ib) mod bursts_per_row c"
    using assms(4) by (auto simp: bank_interleaved_coords_def Let_def)
  show "0 \<le> lane" "lane < lane_count c" using eqs(1) pos(2) by simp_all
  show "0 \<le> column" "column < bursts_per_row c" using eqs(4) pos(4) by simp_all
  show "0 \<le> bank" "bank < bank_count c"
    using rotated_bank_range [OF pos(3) bpg] pos(3) eqs(2) by auto
  note b = dram_local_cursor_bounds [OF assms(1,2,3)]
  have bl: "0 \<le> ?bl" using b(1) pos ib by (simp add: pos_imp_zdiv_nonneg_iff)
  then show "0 \<le> row" using pos ib eqs(3) by (simp add: pos_imp_zdiv_nonneg_iff)
  obtain k where k: "rows_per_bank c * bursts_per_row c = k * ?ib"
    using ib(2) by (metis dvd_def mult.commute)
  have "lane_count c * bank_count c * rows_per_bank c * bursts_per_row c
      = lane_count c * bank_count c * (rows_per_bank c * bursts_per_row c)" by (simp add: mult.assoc)
  also have "\<dots> = k * bank_count c * lane_count c * ?ib" unfolding k by (simp only: ac_simps)
  finally have total: "lane_count c * bank_count c * rows_per_bank c * bursts_per_row c =
      k * bank_count c * lane_count c * ?ib" .
  have "?cur < k * bank_count c * lane_count c * ?ib" using b(2) by (simp only: total)
  then have "?bl < k"
    by (rule div_less_of_less_mult [OF pos(3) div_less_of_less_mult
          [OF pos(2) div_less_of_less_mult [OF ib(1)]]])
  then have "?bl * ?ib + ?cur mod ?ib < k * ?ib"
    using ib(1) by (intro digit_less) auto
  then show "row < rows_per_bank c" using eqs(3) k pos by (simp add: div_less_of_less_mult)
qed

lemma sid_aware_range:
  assumes "dram_ok c" "mapping_policy_of c = Sid_Aware" "0 \<le> l"
    "sid_aware_coords c l = Inr (lane, bg, bank, row, column)"
  shows "0 \<le> lane" "lane < lane_count c" "0 \<le> bg" "bg < bank_groups_per_rank c"
    "0 \<le> bank" "bank < banks_per_group c"
    "0 \<le> row" "row < rows_per_bank c" "0 \<le> column" "column < bursts_per_row c"
proof -
  let ?g = "bank_groups_per_sid c"
  define cur where "cur = l div burst_bytes c"
  define s where "s = cur div ?g div lane_count c div bursts_per_row c div banks_per_group c"
  have eqs: "lane = cur div ?g mod lane_count c" "bg = s mod sid_count c * ?g + cur mod ?g"
    "bank = cur div ?g div lane_count c div bursts_per_row c mod banks_per_group c"
    "row = s div sid_count c" "column = cur div ?g div lane_count c mod bursts_per_row c"
    and row: "row < rows_per_bank c"
    using sid_aware_coordsE [OF assms(4)] by (simp_all only: cur_def s_def)
  note pos = dram_counts_pos [OF assms(1)]
  have g: "0 < ?g" "0 < banks_per_group c" "0 < burst_bytes c"
    using assms(1,2) by (auto simp: dram_ok_def)
  show "0 \<le> lane" "lane < lane_count c" "0 \<le> bank" "bank < banks_per_group c" "0 \<le> column"
    "column < bursts_per_row c" using pos g eqs by auto
  show "row < rows_per_bank c" by (rule row)
  have "0 \<le> s" using pos g assms(3) by (simp add: s_def cur_def pos_imp_zdiv_nonneg_iff)
  then show "0 \<le> row" using pos eqs(4) by (simp add: pos_imp_zdiv_nonneg_iff)
  show "0 \<le> bg" using pos g eqs(2) by simp
  have "s mod sid_count c * ?g + cur mod ?g < sid_count c * ?g"
    using pos g by (intro digit_less) auto
  then show "bg < bank_groups_per_rank c"
    using sid_groups_le [OF assms(1)] eqs(2) by (simp add: mult.commute)
qed


text \<open>
  The SID-aware digits count \<open>sid_count * bank_groups_per_sid\<close> bank groups, which both round
  down, so with an odd organization some bank groups of the declared capacity have no address.
  What can be mapped is the declared capacity up to that bound; below it every address has a
  mapping, and the mapping's coordinates exist.
\<close>

definition sid_capacity :: "dram_config \<Rightarrow> int" where
  "sid_capacity c = rows_per_bank c * sid_count c * banks_per_group c * bursts_per_row c * lane_count c
     * bank_groups_per_sid c * burst_bytes c"

definition dram_mapped_capacity :: "dram_config \<Rightarrow> int" where
  "dram_mapped_capacity c =
    (if mapping_policy_of c = Sid_Aware then min (sid_capacity c) (dram_effective_capacity c)
     else dram_effective_capacity c)"

lemma sid_aware_outcome:
  assumes "dram_ok c" "mapping_policy_of c = Sid_Aware"
  shows "if l < sid_capacity c then \<exists>co. sid_aware_coords c l = Inr co
    else sid_aware_coords c l = Inl Sid_Geometry"
proof -
  let ?g = "bank_groups_per_sid c"
  let ?s = "l div burst_bytes c div ?g div lane_count c div bursts_per_row c div banks_per_group c"
  note pos = dram_counts_pos [OF assms(1)]
  have g: "0 < ?g" "0 < banks_per_group c" "0 < burst_bytes c"
    using assms by (auto simp: dram_ok_def)
  have "?s div sid_count c < rows_per_bank c \<longleftrightarrow> l < sid_capacity c"
    by (simp only: div_less_iff_mult pos(2,4,9) g sid_capacity_def)
  moreover have "?s mod sid_count c < sid_count c" using pos(9) by simp
  ultimately show ?thesis by (auto simp: sid_aware_coords_def Let_def)
qed

text \<open>A SID-aware device is a single die with its own interface, so an address is die-local.\<close>

lemma sid_aware_local:
  assumes "dram_ok c" "mapping_policy_of c = Sid_Aware" "0 \<le> a" "a < dram_effective_capacity c"
  shows "a mod (dram_per_die c * addressable_die_count c) mod dram_per_die c = a"
proof -
  have "bank_geometry_scope c = Per_Stack" "stack_interface_mode c = Independent"
    "dram_effective_capacity c \<le> dram_computed_capacity c"
    using assms(1,2) by (auto simp: dram_ok_def)
  then have "a < dram_per_die c" "addressable_die_count c = 1"
    using assms(4) by (simp_all add: addressable_die_count_def dram_computed_capacity_def
        addressable_stack_count_def dram_per_die_def)
  then show ?thesis using assms(3) by simp
qed

lemma dram_position_bounds:
  assumes "dram_ok c" "0 \<le> a" "a < dram_effective_capacity c"
  defines "ps \<equiv> dram_per_die c * addressable_die_count c"
  shows "0 \<le> a mod ps mod dram_per_die c" "a mod ps mod dram_per_die c < dram_per_die c"
    "0 \<le> a mod ps div dram_per_die c" "a mod ps div dram_per_die c < dies_per_stack c"
    "0 \<le> a div ps" "stack_interface_mode c = Shared \<Longrightarrow> a div ps < stacks c"
proof -
  note pos = dram_counts_pos [OF assms(1)]
  have ps: "0 < ps" using pos by (simp add: ps_def)
  show "0 \<le> a mod ps mod dram_per_die c" "a mod ps mod dram_per_die c < dram_per_die c"
    using pos by auto
  show "0 \<le> a mod ps div dram_per_die c" using pos ps by (simp add: pos_imp_zdiv_nonneg_iff)
  have "a mod ps < addressable_die_count c * dram_per_die c"
    using ps unfolding ps_def by (metis mult.commute pos_mod_bound)
  then have "a mod ps div dram_per_die c < addressable_die_count c"
    using pos by (intro div_less_of_less_mult)
  moreover have "addressable_die_count c \<le> dies_per_stack c"
    using assms(1) by (simp add: addressable_die_count_def dram_ok_def)
  ultimately show "a mod ps div dram_per_die c < dies_per_stack c" by simp
  show "0 \<le> a div ps" using assms(2) ps by (simp add: pos_imp_zdiv_nonneg_iff)
  assume shared: "stack_interface_mode c = Shared"
  have "dram_computed_capacity c = stacks c * ps"
    using shared by (simp add: dram_computed_capacity_def ps_def dram_per_die_def
        addressable_stack_count_def)
  then have "a < stacks c * ps" using assms(1,3) by (simp add: dram_ok_def)
  then show "a div ps < stacks c" using ps by (intro div_less_of_less_mult)
qed

lemma map_dram_in_range_aux:
  assumes ok: "dram_ok c" and m: "map_dram_address c a = Inr m"
  shows "dram_coords_in_range c m"
proof -
  let ?ps = "dram_per_die c * addressable_die_count c" and ?pd = "dram_per_die c"
  let ?l = "a mod ?ps mod ?pd"
  have rng: "0 \<le> a" "a < dram_effective_capacity c"
    using m by (auto simp: map_dram_address_def check_address_def split: if_splits)
  note b = dram_position_bounds [OF ok rng]
  show ?thesis
  proof (cases "mapping_policy_of c")
    case Sid_Aware
    with m rng obtain lane bg bank row column where co:
      "sid_aware_coords c ?l = Inr (lane, bg, bank, row, column)"
      and eq: "m = dram_mapping c a (a div ?ps) (a mod ?ps div ?pd) lane bg bank row column"
      by (auto simp: map_dram_address_def Let_def step_simps)
    show ?thesis unfolding eq
      by (rule dram_mapping_in_range [OF ok])
        (use sid_aware_range [OF ok Sid_Aware b(1) co] b Sid_Aware in simp_all)
  next
    case Row_Local
    obtain lane bank row column where co: "row_local_coords c ?l = (lane, bank, row, column)"
      by (metis prod_cases4)
    have eq: "m = dram_mapping c a (a div ?ps) (a mod ?ps div ?pd) lane 0 bank row column"
      using m Row_Local co by (auto simp: map_dram_address_def Let_def step_simps)
    show ?thesis unfolding eq
      by (rule dram_mapping_in_range [OF ok])
        (use row_local_range [OF ok b(1,2) co] b Row_Local in simp_all)
  next
    case Bank_Interleaved
    obtain lane bank row column where co: "bank_interleaved_coords c ?l = (lane, bank, row, column)"
      by (metis prod_cases4)
    have eq: "m = dram_mapping c a (a div ?ps) (a mod ?ps div ?pd) lane 0 bank row column"
      using m Bank_Interleaved co by (auto simp: map_dram_address_def Let_def step_simps)
    show ?thesis unfolding eq
      by (rule dram_mapping_in_range [OF ok])
        (use bank_interleaved_range [OF ok b(1,2) co] b Bank_Interleaved in simp_all)
  qed
qed

lemma map_dram_outcome:
  assumes ok: "dram_ok c"
  shows "if 0 \<le> a \<and> a < dram_mapped_capacity c then \<exists>m. map_dram_address c a = Inr m
    else map_dram_address c a =
      Inl (if 0 \<le> a \<and> a < dram_effective_capacity c then Sid_Geometry
           else Address_Outside a (dram_effective_capacity c))"
proof (cases "0 \<le> a \<and> a < dram_effective_capacity c")
  case False
  then have "check_address a (dram_effective_capacity c) = Inl (Address_Outside a (dram_effective_capacity c))"
    by (auto simp: check_address_def)
  moreover have "\<not> (0 \<le> a \<and> a < dram_mapped_capacity c)" using False by (auto simp: dram_mapped_capacity_def)
  ultimately show ?thesis using False by (simp add: map_dram_address_def)
next
  case True
  then have chk: "check_address a (dram_effective_capacity c) = Inr ()" by (simp add: check_address_def)
  show ?thesis
  proof (cases "mapping_policy_of c")
    case Sid_Aware
    note loc = sid_aware_local [OF ok Sid_Aware conjunct1 [OF True] conjunct2 [OF True]]
    show ?thesis
      using sid_aware_outcome [OF ok Sid_Aware, of a] True Sid_Aware loc
      by (auto simp: map_dram_address_def chk Let_def dram_mapped_capacity_def split: if_splits)
  qed (use True chk in \<open>auto simp: map_dram_address_def dram_mapped_capacity_def Let_def split: prod.splits\<close>)
qed

lemma map_dram_total_aux:
  "dram_ok c \<Longrightarrow> 0 \<le> a \<Longrightarrow> a < dram_mapped_capacity c \<Longrightarrow> \<exists>m. map_dram_address c a = Inr m"
  using map_dram_outcome [of c a] by simp

lemma map_dram_mapped:
  "dram_ok c \<Longrightarrow> map_dram_address c a = Inr m \<Longrightarrow> 0 \<le> a \<and> a < dram_mapped_capacity c"
  using map_dram_outcome [of c a] by (auto split: if_splits)

lemma dram_mapped_le: "dram_mapped_capacity c \<le> dram_effective_capacity c"
  by (simp add: dram_mapped_capacity_def)

lemma dram_mapped_dvd: "dram_ok c \<Longrightarrow> burst_bytes c dvd dram_mapped_capacity c"
  by (simp add: dram_mapped_capacity_def sid_capacity_def dram_ok_def min_def)

lemma dram_mapped_full:
  "dram_ok c \<Longrightarrow> (mapping_policy_of c = Sid_Aware \<Longrightarrow> bank_groups_per_sid c * sid_count c = bank_groups_per_rank c) \<Longrightarrow>
    dram_mapped_capacity c = dram_effective_capacity c"
proof (cases "mapping_policy_of c = Sid_Aware")
  case True
  assume ok: "dram_ok c" and full: "mapping_policy_of c = Sid_Aware \<Longrightarrow> bank_groups_per_sid c * sid_count c = bank_groups_per_rank c"
  have *: "ranks_per_channel c = 1" "bank_geometry_scope c = Per_Stack" "stack_interface_mode c = Independent"
    "dram_effective_capacity c \<le> dram_computed_capacity c"
    using ok True by (auto simp: dram_ok_def)
  have "dram_computed_capacity c = lane_count c * bank_count c * rows_per_bank c * (bursts_per_row c * burst_bytes c)"
    using * dram_counts_pos(5) [OF ok]
    by (simp add: dram_computed_capacity_def addressable_die_count_def addressable_stack_count_def)
  also have "bank_count c = bank_groups_per_sid c * sid_count c * banks_per_group c"
    using full [OF True] * by (simp add: bank_count_def)
  also have "lane_count c * (bank_groups_per_sid c * sid_count c * banks_per_group c) * rows_per_bank c
      * (bursts_per_row c * burst_bytes c) = sid_capacity c"
    by (simp only: sid_capacity_def ac_simps)
  finally show ?thesis using *(4) True by (simp add: dram_mapped_capacity_def)
qed (simp add: dram_mapped_capacity_def)

section \<open>The channels of a request\<close>

lemma image_mod_all:
  fixes n :: int
  assumes "0 < n" "n \<le> stop - start"
  shows "(\<lambda>i. i mod n) ` {start..<stop} = {0..<n}"
proof
  show "(\<lambda>i. i mod n) ` {start..<stop} \<subseteq> {0..<n}" using assms(1) by auto
  show "{0..<n} \<subseteq> (\<lambda>i. i mod n) ` {start..<stop}"
  proof
    fix r assume r: "r \<in> {0..<n}"
    let ?i = "start + (r - start) mod n"
    have "?i mod n = r" using r by (simp add: mod_add_right_eq)
    moreover have "?i \<in> {start..<stop}" 
      using assms pos_mod_bound [OF assms(1), of "r - start"] pos_mod_sign [OF assms(1), of "r - start"]
      by (simp only: atLeastLessThan_iff) linarith
    ultimately show "r \<in> (\<lambda>i. i mod n) ` {start..<stop}" by (metis image_eqI)
  qed
qed

lemma image_div_range:
  fixes q :: int
  assumes "0 < q" "s < e"
  shows "(\<lambda>x. x div q) ` {s..<e} = {s div q..<(e - 1) div q + 1}"
proof
  show "(\<lambda>x. x div q) ` {s..<e} \<subseteq> {s div q..<(e - 1) div q + 1}"
    using zdiv_mono1 [of s _ q] zdiv_mono1 [of _ "e - 1" q] assms(1) by auto
  show "{s div q..<(e - 1) div q + 1} \<subseteq> (\<lambda>x. x div q) ` {s..<e}"
  proof
    fix b assume b: "b \<in> {s div q..<(e - 1) div q + 1}"
    then have "b \<in> set (chunk_indices q s e)" by (auto simp: chunk_indices_def)
    then have ne: "chunk_lo q s b < chunk_hi q e b" by (rule chunk_nonempty [OF assms])
    have "chunk_lo q s b div q = b"
      using ne chunk_bounds(1) [OF assms(1), of s b] chunk_bounds(2) [OF assms(1), of b s] chunk_bounds(3,4) [OF assms(1), of e b]
      by (intro int_div_pos_eq [where r = "chunk_lo q s b - b * q"]) (auto simp: mult.commute)
    moreover have "chunk_lo q s b \<in> {s..<e}"
      using ne chunk_bounds(1) [OF assms(1), of s b] chunk_bounds(2) [OF assms(1), of b s] chunk_bounds(3,4) [OF assms(1), of e b] by auto
    ultimately show "b \<in> (\<lambda>x. x div q) ` {s..<e}" by (metis image_eqI)
  qed
qed

lemma channel_block_pos: "dram_ok c \<Longrightarrow> 0 < channel_block_bytes c"
proof -
  assume ok: "dram_ok c"
  then have "0 < row_bytes c" "0 < bank_count c" "0 < burst_bytes c"
    "mapping_policy_of c = Sid_Aware \<Longrightarrow> 0 < bank_groups_per_sid c"
    "0 < or_default (interleave_bytes c) (burst_bytes c)"
    using dram_counts_pos(3) [OF ok]
    by (auto simp: dram_ok_def opt_pos_def or_default_def split: option.splits)
  then show ?thesis by (cases "mapping_policy_of c") (simp_all add: channel_block_bytes_def)
qed

lemma channel_block_divides:
  assumes "dram_ok c" "mapping_policy_of c \<noteq> Sid_Aware"
  shows "channel_block_bytes c * lane_count c dvd dram_per_die c"
proof (cases "mapping_policy_of c")
  case Row_Local
  then show ?thesis by (simp add: channel_block_bytes_def dram_per_die_def ac_simps)
next
  case Bank_Interleaved
  have "or_default (interleave_bytes c) (burst_bytes c) dvd rows_per_bank c * row_bytes c"
    using assms(1) by (auto simp: dram_ok_def opt_pos_def or_default_def split: option.splits)
  then have "or_default (interleave_bytes c) (burst_bytes c) * lane_count c dvd
      (rows_per_bank c * row_bytes c) * (lane_count c * bank_count c)"
    by (intro mult_dvd_mono) auto
  moreover have "dram_per_die c = (rows_per_bank c * row_bytes c) * (lane_count c * bank_count c)"
    by (simp only: dram_per_die_def ac_simps)
  ultimately show ?thesis using Bank_Interleaved by (simp add: channel_block_bytes_def)
qed (use assms(2) in simp)

lemma mod_mod_div:
  fixes a b n m :: int
  assumes "0 < b" "0 < n" "b * n dvd m"
  shows "a mod m div b mod n = a div b mod n"
proof -
  have *: "x div b mod n = x mod (b * n) div b" for x
    using assms(1,2) by (simp add: zmod_zmult2_eq)
  show ?thesis unfolding * using assms(3) by (simp add: mod_mod_cancel)
qed

lemma sid_aware_lane:
  "sid_aware_coords c l = Inr (lane, bg, bank, row, column) \<Longrightarrow>
    lane = l div burst_bytes c div bank_groups_per_sid c mod lane_count c"
  by (rule sid_aware_coordsE(1))

lemma row_local_lane:
  "row_local_coords c l = (lane, bank, row, column) \<Longrightarrow>
    lane = l div burst_bytes c div bursts_per_row c div bank_count c mod lane_count c"
  by (auto simp: row_local_coords_def Let_def)

lemma bank_interleaved_lane:
  "bank_interleaved_coords c l = (lane, bank, row, column) \<Longrightarrow> lane = l div burst_bytes c
     div (or_default (interleave_bytes c) (burst_bytes c) div burst_bytes c) mod lane_count c"
  by (auto simp: bank_interleaved_coords_def Let_def)

text \<open>The lane of an address depends on its block only.\<close>

lemma map_dram_lane:
  assumes ok: "dram_ok c" and m: "map_dram_address c a = Inr m"
  shows "am_lane m = a div channel_block_bytes c mod lane_count c"
proof -
  let ?ps = "dram_per_die c * addressable_die_count c" and ?pd = "dram_per_die c"
  let ?l = "a mod ?ps mod ?pd"
  note pos = dram_counts_pos [OF ok] and d = channel_block_pos [OF ok] channel_block_divides [OF ok]
  have ib: "0 < or_default (interleave_bytes c) (burst_bytes c) div burst_bytes c"
    "burst_bytes c dvd or_default (interleave_bytes c) (burst_bytes c)"
    using interleave_bursts_pos [OF ok] ok by (auto simp: dram_ok_def or_default_def split: option.splits)
  have q: "0 < burst_bytes c" using ok by (simp add: dram_ok_def)
  have rng: "0 \<le> a" "a < dram_effective_capacity c"
    using m by (auto simp: map_dram_address_def check_address_def split: if_splits)
  have "am_lane m = ?l div channel_block_bytes c mod lane_count c"
  proof (cases "mapping_policy_of c")
    case Sid_Aware
    with m rng obtain lane bg bank row column where co: "sid_aware_coords c ?l = Inr (lane, bg, bank, row, column)"
      and "m = dram_mapping c a (a div ?ps) (a mod ?ps div ?pd) lane bg bank row column"
      by (auto simp: map_dram_address_def Let_def step_simps)
    then have "am_lane m = lane" by simp
    moreover have "lane = ?l div burst_bytes c div bank_groups_per_sid c mod lane_count c"
      using sid_aware_lane [OF co] .
    moreover have "0 \<le> bank_groups_per_sid c" using ok Sid_Aware by (auto simp: dram_ok_def)
    ultimately show ?thesis using Sid_Aware q by (simp add: channel_block_bytes_def zdiv_zmult2_eq)
  next
    case Row_Local
    have eq: "row_bytes c * bank_count c = burst_bytes c * (bursts_per_row c * bank_count c)"
      using pos(5) by (metis mult.assoc mult.commute)
    obtain lane bank row column where co: "row_local_coords c ?l = (lane, bank, row, column)"
      by (metis prod_cases4)
    have "m = dram_mapping c a (a div ?ps) (a mod ?ps div ?pd) lane 0 bank row column"
      using m Row_Local co by (auto simp: map_dram_address_def Let_def step_simps)
    then have "am_lane m = ?l div burst_bytes c div bursts_per_row c div bank_count c mod lane_count c"
      using row_local_lane [OF co] by simp
    then show ?thesis using Row_Local q pos(3,4)
      by (simp add: channel_block_bytes_def eq zdiv_zmult2_eq)
  next
    case Bank_Interleaved
    define i where "i = or_default (interleave_bytes c) (burst_bytes c)"
    have i: "burst_bytes c * (i div burst_bytes c) = i" using ib(2) by (simp add: i_def)
    have "?l div i = ?l div (burst_bytes c * (i div burst_bytes c))" unfolding i ..
    also have "\<dots> = ?l div burst_bytes c div (i div burst_bytes c)"
      using ib(1) by (simp add: zdiv_zmult2_eq i_def)
    finally have eq: "?l div i = ?l div burst_bytes c div (i div burst_bytes c)" .
    obtain lane bank row column where co: "bank_interleaved_coords c ?l = (lane, bank, row, column)"
      by (metis prod_cases4)
    have "m = dram_mapping c a (a div ?ps) (a mod ?ps div ?pd) lane 0 bank row column"
      using m Bank_Interleaved co by (auto simp: map_dram_address_def Let_def step_simps)
    then have "am_lane m = ?l div burst_bytes c div (i div burst_bytes c) mod lane_count c"
      using bank_interleaved_lane [OF co] by (simp add: i_def)
    then show ?thesis using Bank_Interleaved by (simp add: channel_block_bytes_def i_def [symmetric] eq)
  qed
  also have "\<dots> = a div channel_block_bytes c mod lane_count c"
  proof (cases "mapping_policy_of c = Sid_Aware")
    case True
    then show ?thesis using sid_aware_local [OF ok True rng] by simp
  next
    case False
    have "?l div channel_block_bytes c mod lane_count c = a mod ?ps div channel_block_bytes c mod lane_count c"
      by (rule mod_mod_div [OF d(1) pos(2) d(2) [OF False]])
    also have "\<dots> = a div channel_block_bytes c mod lane_count c"
      using d(2) [OF False] by (intro mod_mod_div [OF d(1) pos(2)]) simp
    finally show ?thesis .
  qed
  finally show ?thesis .
qed

lemma map_dram_channel:
  assumes "dram_ok c" "map_dram_address c a = Inr m"
  shows "lane_channel c (am_lane m) =
    (if stack_interface_mode c = Independent then am_stack m else 0, am_channel m)"
proof -
  obtain lane bg bank row column stack die where
    m: "m = dram_mapping c a stack die lane bg bank row column"
    using map_dram_addressE [OF assms] by metis
  show ?thesis unfolding m by (simp add: lane_channel_def) (simp add: dram_mapping_def Let_def address_mapping_of_def)
qed

text \<open>The channels of a request are those of its bytes.\<close>

lemma dram_request_channels_bytes:
  assumes "dram_ok c" "0 < byte_count r" "0 \<le> req_address r"
    "req_address r + byte_count r \<le> dram_mapped_capacity c"
  shows "set (dram_request_channels c r) =
    {(if stack_interface_mode c = Independent then am_stack m else 0, am_channel m) | a m.
       req_address r \<le> a \<and> a < req_address r + byte_count r \<and> map_dram_address c a = Inr m}"
proof -
  let ?b = "channel_block_bytes c" and ?n = "lane_count c"
  let ?s = "req_address r" and ?e = "req_address r + byte_count r"
  let ?start = "?s div ?b" and ?stop = "(?e - 1) div ?b + 1"
  note pos = dram_counts_pos(2) [OF assms(1)] and d = channel_block_pos [OF assms(1)]
  have se: "?s < ?e" using assms(2) by simp
  have "{?start..<?stop} = (\<lambda>x. x div ?b) ` {?s..<?e}"
    by (rule image_div_range [OF d se, symmetric])
  then have img: "(\<lambda>i. i mod ?n) ` {?start..<?stop} = (\<lambda>a. a div ?b mod ?n) ` {?s..<?e}"
    by (simp add: image_image)
  have lanes: "set (if ?stop - ?start \<ge> ?n then [0 .. ?n - 1] else map (\<lambda>i. i mod ?n) [?start .. ?stop - 1])
      = (\<lambda>i. i mod ?n) ` {?start..<?stop}"
    using image_mod_all [OF pos, of ?stop ?start]
    by (auto simp: atLeastLessThanPlusOne_atLeastAtMost_int)
  have total: "\<exists>m. map_dram_address c a = Inr m" if "?s \<le> a" "a < ?e" for a
    using map_dram_total_aux [OF assms(1), of a] assms(3,4) that by auto
  have "set (dram_request_channels c r) = lane_channel c ` (\<lambda>a. a div ?b mod ?n) ` {?s..<?e}"
    unfolding dram_request_channels_def Let_def
    using lanes img by (simp add: set_sorted_list_of_set)
  also have "\<dots> = {lane_channel c (am_lane m) | a m. ?s \<le> a \<and> a < ?e \<and> map_dram_address c a = Inr m}"
  proof (intro equalityI subsetI)
    fix x assume "x \<in> lane_channel c ` (\<lambda>a. a div ?b mod ?n) ` {?s..<?e}"
    then obtain a where a: "?s \<le> a" "a < ?e" "x = lane_channel c (a div ?b mod ?n)" by auto
    obtain m where m: "map_dram_address c a = Inr m" using total a by blast
    then have "x = lane_channel c (am_lane m)" using a(3) map_dram_lane [OF assms(1) m] by simp
    with a(1,2) m show "x \<in> {lane_channel c (am_lane m) | a m. ?s \<le> a \<and> a < ?e \<and> map_dram_address c a = Inr m}"
      by blast
  next
    fix x assume "x \<in> {lane_channel c (am_lane m) | a m. ?s \<le> a \<and> a < ?e \<and> map_dram_address c a = Inr m}"
    then obtain a m where a: "?s \<le> a" "a < ?e" and m: "map_dram_address c a = Inr m"
      and x: "x = lane_channel c (am_lane m)" by blast
    then show "x \<in> lane_channel c ` (\<lambda>a. a div ?b mod ?n) ` {?s..<?e}"
      using map_dram_lane [OF assms(1) m] by auto
  qed
  also have "\<dots> = {(if stack_interface_mode c = Independent then am_stack m else 0, am_channel m) | a m.
       ?s \<le> a \<and> a < ?e \<and> map_dram_address c a = Inr m}"
    by (rule Collect_cong, rule ex_cong1, rule ex_cong1)
      (metis map_dram_channel [OF assms(1)])
  finally show ?thesis .
qed

end
