(* ===== verification/Request_Split.thy ===== *)
theory Request_Split
  imports Memory_Mapping
begin

text \<open>
  What \<open>split_dram_request\<close>, \<open>map_nand_address\<close> and \<open>split_nand_request\<close> of
  \<open>memory_mapping.py\<close> promise: a request is split when and only when its checks pass, the
  segments carry exactly its bytes, each in its own burst or page, the NAND mapping is
  invertible with every coordinate inside the declared geometry, and an erase names each
  physical block of its range once.
\<close>

section \<open>Generators\<close>

lemma map_result_Inr:
  "map_result f xs = Inr ys \<longleftrightarrow> list_all2 (\<lambda>x y. f x = Inr y) xs ys"
  by (induction xs arbitrary: ys) (auto simp: step_simps list_all2_Cons1)

lemma map_result_total:
  "(\<And>x. x \<in> set xs \<Longrightarrow> \<exists>y. f x = Inr y) \<Longrightarrow> \<exists>ys. map_result f xs = Inr ys"
  by (induction xs) (auto, metis rbind_simps(2))

lemma list_all2_in1: "list_all2 P xs ys \<Longrightarrow> x \<in> set xs \<Longrightarrow> \<exists>y \<in> set ys. P x y"
  by (induction rule: list_all2_induct) auto

lemma list_all2_in2: "list_all2 P xs ys \<Longrightarrow> y \<in> set ys \<Longrightarrow> \<exists>x \<in> set xs. P x y"
  by (induction rule: list_all2_induct) auto

text \<open>
  Segments that sit one in each chunk of a byte range, and carry what the range has of it. The
  client is \<open>split_dram_request\<close> (bursts) and \<open>split_nand_request\<close> (pages).
\<close>

definition chunked :: "int \<Rightarrow> int \<Rightarrow> int \<Rightarrow> segment list \<Rightarrow> bool" where
  "chunked q s e segs \<longleftrightarrow>
     map seg_address segs = map (\<lambda>b. b * q) (chunk_indices q s e) \<and>
     map logical_bytes segs = map (\<lambda>b. chunk_hi q e b - chunk_lo q s b) (chunk_indices q s e)"

definition pieces_of :: "int \<Rightarrow> (access_request \<Rightarrow> int \<Rightarrow> mapping_error + segment) \<Rightarrow>
    access_request \<Rightarrow> mapping_error + segment list" where
  "pieces_of q piece r =
     map_result (piece r) (chunk_indices q (req_address r) (req_address r + byte_count r))"

locale chunk_splitter =
  fixes ok :: "'c \<Rightarrow> bool"
    and quantum :: "'c \<Rightarrow> int"
    and piece :: "'c \<Rightarrow> access_request \<Rightarrow> int \<Rightarrow> mapping_error + segment"
  assumes quantum_pos: "ok c \<Longrightarrow> 0 < quantum c"
    and piece_address: "piece c r b = Inr g \<Longrightarrow> seg_address g = b * quantum c"
    and piece_logical: "piece c r b = Inr g \<Longrightarrow> logical_bytes g =
      chunk_hi (quantum c) (req_address r + byte_count r) b - chunk_lo (quantum c) (req_address r) b"
begin

lemma pieces_all2:
  "pieces_of (quantum c) (piece c) r = Inr segs \<Longrightarrow> list_all2 (\<lambda>b g. piece c r b = Inr g)
     (chunk_indices (quantum c) (req_address r) (req_address r + byte_count r)) segs"
  by (simp add: pieces_of_def map_result_Inr)

lemma pieces_chunked:
  assumes "pieces_of (quantum c) (piece c) r = Inr segs"
  shows "chunked (quantum c) (req_address r) (req_address r + byte_count r) segs"
  using pieces_all2 [OF assms] unfolding chunked_def
  by (induction rule: list_all2_induct) (auto simp: piece_address piece_logical)

lemma pieces_bytes:
  assumes "ok c" "pieces_of (quantum c) (piece c) r = Inr segs" "0 < byte_count r"
  shows "sum_list (map logical_bytes segs) = byte_count r"
  using pieces_chunked [OF assms(2)] assms(3)
    chunk_sum [OF quantum_pos [OF assms(1)], of "req_address r" "req_address r + byte_count r"]
  by (simp add: chunked_def)

lemma piece_nonempty:
  assumes "ok c" "pieces_of (quantum c) (piece c) r = Inr segs" "0 < byte_count r" "g \<in> set segs"
  shows "0 < logical_bytes g" "logical_bytes g \<le> quantum c" "quantum c dvd seg_address g"
proof -
  let ?I = "chunk_indices (quantum c) (req_address r) (req_address r + byte_count r)"
  note q = quantum_pos [OF assms(1)]
  obtain b where b: "b \<in> set ?I" "piece c r b = Inr g"
    using list_all2_in2 [OF pieces_all2 [OF assms(2)] assms(4)] by blast
  then show "0 < logical_bytes g" using chunk_nonempty [OF q _ b(1)] assms(3)
    by (simp add: piece_logical)
  show "logical_bytes g \<le> quantum c" using b
    chunk_bounds(2) [OF q, of b "req_address r"]
    chunk_bounds(4) [OF q, of "req_address r + byte_count r" b]
    by (simp add: piece_logical)
  show "quantum c dvd seg_address g" using b by (simp add: piece_address)
qed

lemma byte_in_one_piece:
  assumes "ok c" "pieces_of (quantum c) (piece c) r = Inr segs"
    "req_address r \<le> x" "x < req_address r + byte_count r"
  shows "\<exists>!g. g \<in> set segs \<and> seg_address g \<le> x \<and> x < seg_address g + quantum c"
proof -
  let ?I = "chunk_indices (quantum c) (req_address r) (req_address r + byte_count r)"
  note q = quantum_pos [OF assms(1)] and all2 = pieces_all2 [OF assms(2)]
  have "x div quantum c \<in> set ?I" by (rule chunk_cover [OF q assms(3,4)])
  from list_all2_in1 [OF all2 this]
  obtain g where g: "g \<in> set segs" "piece c r (x div quantum c) = Inr g" by blast
  have uniq: "g' = g" if g': "g' \<in> set segs" "seg_address g' \<le> x" "x < seg_address g' + quantum c" for g'
  proof -
    obtain b where b: "piece c r b = Inr g'"
      using list_all2_in2 [OF all2 g'(1)] by blast
    then have "x div quantum c = b" using g'(2,3) q
      by (intro int_div_pos_eq [where r = "x - b * quantum c"]) (auto simp: piece_address mult.commute)
    with b g(2) show "g' = g" by simp
  qed
  have "seg_address g \<le> x" "x < seg_address g + quantum c"
    using g(2) round_down_le [OF q, of x] round_down_greater [OF q, of x]
    by (simp_all add: piece_address)
  with g(1) uniq show ?thesis by blast
qed

end

section \<open>DRAM requests\<close>

lemma dram_segmentE:
  assumes "dram_segment c r b = Inr g"
  shows "map_dram_address c (b * burst_bytes c) = Inr (seg_mapping g)"
    "seg_address g = b * burst_bytes c" "transfer_bytes g = burst_bytes c"
    "seg_request_id g = request_id r" "seg_operation g = req_operation r"
    "logical_bytes g = chunk_hi (burst_bytes c) (req_address r + byte_count r) b
       - chunk_lo (burst_bytes c) (req_address r) b"
  using assms by (auto simp: dram_segment_def Let_def step_simps chunk_hi_def chunk_lo_def)

interpretation bursts: chunk_splitter dram_ok burst_bytes dram_segment
  by unfold_locales (auto simp: dram_ok_def dest: dram_segmentE)

lemma split_dram_pieces:
  "split_dram_request r c = Inr segs \<longleftrightarrow>
    validate_dram_request r c = Inr () \<and> pieces_of (burst_bytes c) (dram_segment c) r = Inr segs"
  by (auto simp: split_dram_request_def pieces_of_def Let_def step_simps chunk_indices_def)

lemma split_dram_mapped:
  assumes "split_dram_request r c = Inr segs" "g \<in> set segs"
  shows "map_dram_address c (seg_address g) = Inr (seg_mapping g)" "transfer_bytes g = burst_bytes c"
    "seg_request_id g = request_id r" "seg_operation g = req_operation r"
proof -
  obtain b where "dram_segment c r b = Inr g"
    using list_all2_in2 [OF bursts.pieces_all2 assms(2)] assms(1) by (auto simp: split_dram_pieces)
  then show "map_dram_address c (seg_address g) = Inr (seg_mapping g)" "transfer_bytes g = burst_bytes c"
    "seg_request_id g = request_id r" "seg_operation g = req_operation r"
    using dram_segmentE by metis+
qed

lemma split_dram_total_aux:
  assumes "dram_ok c" "0 < byte_count r"
  shows "(\<exists>segs. split_dram_request r c = Inr segs) \<longleftrightarrow>
    req_operation r \<noteq> ERASE \<and> 0 \<le> req_address r \<and>
    req_address r + byte_count r \<le> dram_mapped_capacity c"
proof
  assume "\<exists>segs. split_dram_request r c = Inr segs"
  then obtain segs where segs: "split_dram_request r c = Inr segs" by blast
  then have v: "req_operation r \<noteq> ERASE" "0 \<le> req_address r"
    by (auto simp: split_dram_pieces validate_dram_request_def check_address_def step_simps
        split: if_splits)
  let ?q = "burst_bytes c" and ?e = "req_address r + byte_count r"
  have q: "0 < ?q" using assms(1) by (simp add: dram_ok_def)
  have "(?e - 1) div ?q \<in> set (chunk_indices ?q (req_address r) ?e)"
    using assms(2) chunk_cover(1) [OF q, of "req_address r" "?e - 1" ?e] by simp
  moreover have "pieces_of ?q (dram_segment c) r = Inr segs" using segs by (simp add: split_dram_pieces)
  ultimately obtain g where "dram_segment c r ((?e - 1) div ?q) = Inr g"
    using list_all2_in1 [OF bursts.pieces_all2] by blast
  then have "map_dram_address c ((?e - 1) div ?q * ?q) = Inr (seg_mapping g)"
    by (rule dram_segmentE(1))
  then have last: "(?e - 1) div ?q * ?q < dram_mapped_capacity c"
    using map_dram_mapped [OF assms(1)] by blast
  obtain k where k: "dram_mapped_capacity c = k * ?q"
    using dram_mapped_dvd [OF assms(1)] by (metis dvd_def mult.commute)
  have "(?e - 1) div ?q < k" using last q k by simp
  then have "?e - 1 < k * ?q" using div_less_iff_mult [OF q] by simp
  then show "req_operation r \<noteq> ERASE \<and> 0 \<le> req_address r \<and> ?e \<le> dram_mapped_capacity c"
    using v k by simp
next
  assume rng: "req_operation r \<noteq> ERASE \<and> 0 \<le> req_address r \<and>
      req_address r + byte_count r \<le> dram_mapped_capacity c"
  let ?q = "burst_bytes c"
  let ?I = "chunk_indices ?q (req_address r) (req_address r + byte_count r)"
  have q: "0 < ?q" using assms(1) by (simp add: dram_ok_def)
  have "\<exists>g. dram_segment c r b = Inr g" if b: "b \<in> set ?I" for b
  proof -
    have "req_address r div ?q * ?q \<le> b * ?q" "b * ?q \<le> (req_address r + byte_count r - 1) div ?q * ?q"
      using b q by (auto simp: chunk_indices_def mult_right_mono)
    moreover have "0 \<le> req_address r div ?q * ?q" using rng q by (simp add: pos_imp_zdiv_nonneg_iff)
    ultimately have "0 \<le> b * ?q" "b * ?q < dram_mapped_capacity c"
      using rng round_down_le [OF q, of "req_address r + byte_count r - 1"] by linarith+
    then obtain m where "map_dram_address c (b * ?q) = Inr m"
      using map_dram_total_aux [OF assms(1)] by blast
    then show ?thesis by (simp add: dram_segment_def Let_def)
  qed
  then have "\<exists>segs. pieces_of ?q (dram_segment c) r = Inr segs"
    unfolding pieces_of_def by (rule map_result_total)
  then show "\<exists>segs. split_dram_request r c = Inr segs"
    using rng assms(2) dram_mapped_le [of c]
    by (auto simp: split_dram_pieces validate_dram_request_def check_address_def)
qed

lemma split_dram_conserves_aux:
  assumes "dram_ok c" "0 < byte_count r" "split_dram_request r c = Inr segs"
  shows "sum_list (map logical_bytes segs) = byte_count r"
    and "\<forall>g \<in> set segs. 0 < logical_bytes g \<and> logical_bytes g \<le> transfer_bytes g
      \<and> burst_bytes c dvd seg_address g
      \<and> map_dram_address c (seg_address g) = Inr (seg_mapping g)"
  using assms bursts.pieces_bytes bursts.piece_nonempty split_dram_mapped [OF assms(3)]
  by (auto simp: split_dram_pieces)

section \<open>The NAND mapping\<close>

text \<open>The inverse of \<open>map_nand_address\<close>, which the code does not have.\<close>

definition nand_base_unit :: "nand_config \<Rightarrow> address_mapping \<Rightarrow> int" where
  "nand_base_unit c m = ((am_channel m * targets_per_channel c + am_target m) * dies_per_target c
     + am_die m) * luns_per_die c + am_lun m"

definition nand_address_of :: "nand_config \<Rightarrow> address_mapping \<Rightarrow> int" where
  "nand_address_of c m =
    (((am_block m * pages_per_block c + am_page m) * planes_per_lun c + am_plane m)
       * nand_base_units c + nand_base_unit c m) * page_bytes c + am_page_offset m"

definition nand_coords_in_range :: "nand_config \<Rightarrow> address_mapping \<Rightarrow> bool" where
  "nand_coords_in_range c m \<longleftrightarrow>
     0 \<le> am_channel m \<and> am_channel m < nand_channels c \<and>
     0 \<le> am_target m \<and> am_target m < targets_per_channel c \<and>
     0 \<le> am_die m \<and> am_die m < dies_per_target c \<and>
     0 \<le> am_lun m \<and> am_lun m < luns_per_die c \<and>
     0 \<le> am_plane m \<and> am_plane m < planes_per_lun c \<and>
     0 \<le> am_block m \<and> am_block m < blocks_per_plane c \<and>
     0 \<le> am_page m \<and> am_page m < pages_per_block c \<and>
     0 \<le> am_page_offset m \<and> am_page_offset m < page_bytes c \<and>
     0 \<le> am_unit m \<and> (parallel_units c = None \<longrightarrow> am_unit m < array_units c)"

lemma nand_base_units_pos: "nand_ok c \<Longrightarrow> 0 < nand_base_units c"
  by (simp add: nand_ok_def nand_base_units_def)

text \<open>The coordinates of a page, in both plane layouts.\<close>

definition nand_coords :: "nand_config \<Rightarrow> int \<Rightarrow> address_mapping \<Rightarrow> bool" where
  "nand_coords c p m \<longleftrightarrow>
     (let bu = p mod nand_base_units c; pp = p div nand_base_units c div planes_per_lun c in
      am_plane m = p div nand_base_units c mod planes_per_lun c \<and>
      am_page m = pp mod pages_per_block c \<and> am_block m = pp div pages_per_block c \<and>
      am_lun m = bu mod luns_per_die c \<and> am_die m = bu div luns_per_die c mod dies_per_target c \<and>
      am_target m = bu div luns_per_die c div dies_per_target c mod targets_per_channel c \<and>
      am_channel m = bu div luns_per_die c div dies_per_target c div targets_per_channel c \<and>
      am_unit m = (if planes_independent c then bu + am_plane m * nand_base_units c else bu))"


lemma map_nand_coords:
  assumes "nand_ok c" "map_nand_address c a = Inr m"
  shows "0 \<le> a" "a < nand_effective_capacity c" "nand_coords c (a div page_bytes c) m"
    "am_page_offset m = a mod page_bytes c" "am_address m = a"
proof -
  have u: "0 < nand_base_units c" "0 < planes_per_lun c"
    using assms(1) nand_base_units_pos by (auto simp: nand_ok_def)
  have "\<exists>v. check_address a (nand_effective_capacity c) = Inr v"
    using assms(2) unfolding map_nand_address_def rbind_eq_Inr by (elim exE conjE) (rule exI)
  then have chk: "check_address a (nand_effective_capacity c) = Inr ()" by simp
  then show "0 \<le> a" "a < nand_effective_capacity c"
    by (simp_all add: check_address_def split: if_splits)
  define p where "p = a div page_bytes c"
  note m = assms(2) [unfolded map_nand_address_def chk rbind_simps Let_def, folded p_def]
  have z: "p div (nand_base_units c * planes_per_lun c) = p div nand_base_units c div planes_per_lun c"
    using u by (simp add: zdiv_zmult2_eq)
  have "nand_coords c p m \<and> am_page_offset m = a mod page_bytes c \<and> am_address m = a"
  proof (cases "planes_independent c")
    case True
    show ?thesis using m [unfolded if_P [OF True] prod.case sum.inject, symmetric] True
      by (simp add: address_mapping_of_def nand_coords_def Let_def z)
  next
    case False
    show ?thesis using m [unfolded if_not_P [OF False] prod.case sum.inject, symmetric] False
      by (simp add: address_mapping_of_def nand_coords_def Let_def z)
  qed
  then show "nand_coords c (a div page_bytes c) m" "am_page_offset m = a mod page_bytes c" "am_address m = a"
    by (simp_all add: p_def)
qed

lemma map_nand_total_aux:
  "0 \<le> a \<Longrightarrow> a < nand_effective_capacity c \<Longrightarrow> \<exists>m. map_nand_address c a = Inr m"
  by (simp add: map_nand_address_def check_address_def Let_def)

lemma nand_address_of_mapping:
  assumes "nand_ok c" "map_nand_address c a = Inr m"
  shows "nand_address_of c m = a"
proof -
  have bu: "nand_base_unit c m = a div page_bytes c mod nand_base_units c"
    using map_nand_coords(3) [OF assms] by (simp add: nand_base_unit_def nand_coords_def Let_def)
  have pp: "(am_block m * pages_per_block c + am_page m) * planes_per_lun c + am_plane m
      = a div page_bytes c div nand_base_units c"
    using map_nand_coords(3) [OF assms] by (simp add: nand_coords_def Let_def)
  show ?thesis unfolding nand_address_of_def bu pp map_nand_coords(4) [OF assms]
    by (simp only: div_mult_mod_eq)
qed

lemma map_nand_in_range_aux:
  assumes "nand_ok c" "map_nand_address c a = Inr m"
  shows "nand_coords_in_range c m"
proof -
  define p where "p = a div page_bytes c"
  have pos: "0 < nand_channels c" "0 < targets_per_channel c" "0 < dies_per_target c"
    "0 < luns_per_die c" "0 < planes_per_lun c" "0 < blocks_per_plane c" "0 < pages_per_block c"
    "0 < page_bytes c" using assms(1) by (auto simp: nand_ok_def)
  note u = nand_base_units_pos [OF assms(1)]
  note co = map_nand_coords [OF assms]
  have p: "0 \<le> p" "p < blocks_per_plane c * pages_per_block c * planes_per_lun c * nand_base_units c"
  proof -
    show "0 \<le> p" using co(1) pos by (simp add: p_def pos_imp_zdiv_nonneg_iff)
    have "a < nand_computed_capacity c" using co(2) assms(1) by (simp add: nand_ok_def)
    also have "nand_computed_capacity c =
        blocks_per_plane c * pages_per_block c * planes_per_lun c * nand_base_units c * page_bytes c"
      by (simp only: nand_computed_capacity_def nand_base_units_def ac_simps)
    finally show "p < blocks_per_plane c * pages_per_block c * planes_per_lun c * nand_base_units c"
      unfolding p_def using pos by (intro div_less_of_less_mult)
  qed
  have blk: "p div nand_base_units c div planes_per_lun c div pages_per_block c < blocks_per_plane c"
    by (rule div_less_of_less_mult [OF pos(7) div_less_of_less_mult [OF pos(5)
          div_less_of_less_mult [OF u p(2)]]])
  have b0: "0 \<le> p mod nand_base_units c" "p mod nand_base_units c <
      nand_channels c * targets_per_channel c * dies_per_target c * luns_per_die c"
    using u by (auto simp: nand_base_units_def [symmetric])
  have chn: "p mod nand_base_units c div luns_per_die c div dies_per_target c div targets_per_channel c < nand_channels c"
    by (rule div_less_of_less_mult [OF pos(2) div_less_of_less_mult [OF pos(3)
          div_less_of_less_mult [OF pos(4) b0(2)]]])
  have pl: "0 \<le> p div nand_base_units c mod planes_per_lun c"
    "p div nand_base_units c mod planes_per_lun c < planes_per_lun c" using pos by auto
  have unit: "p div nand_base_units c mod planes_per_lun c * nand_base_units c + p mod nand_base_units c
      < planes_per_lun c * nand_base_units c"
    using pl u by (intro digit_less) auto
  have nn: "0 \<le> p div nand_base_units c div planes_per_lun c div pages_per_block c"
    "0 \<le> p mod nand_base_units c div luns_per_die c div dies_per_target c div targets_per_channel c"
    using p(1) b0(1) pos u by (simp_all add: pos_imp_zdiv_nonneg_iff)
  have units: "parallel_units c = None \<Longrightarrow> array_units c =
      (if planes_independent c then planes_per_lun c * nand_base_units c else nand_base_units c)"
    by (simp add: array_units_def Let_def nand_base_units_def)
  have eqs: "am_plane m = p div nand_base_units c mod planes_per_lun c"
      "am_page m = p div nand_base_units c div planes_per_lun c mod pages_per_block c"
      "am_block m = p div nand_base_units c div planes_per_lun c div pages_per_block c"
      "am_lun m = p mod nand_base_units c mod luns_per_die c"
      "am_die m = p mod nand_base_units c div luns_per_die c mod dies_per_target c"
      "am_target m = p mod nand_base_units c div luns_per_die c div dies_per_target c mod targets_per_channel c"
      "am_channel m = p mod nand_base_units c div luns_per_die c div dies_per_target c div targets_per_channel c"
      "am_unit m = (if planes_independent c then p mod nand_base_units c +
         p div nand_base_units c mod planes_per_lun c * nand_base_units c else p mod nand_base_units c)"
    using co(3) by (simp_all add: nand_coords_def Let_def p_def)
  show ?thesis unfolding nand_coords_in_range_def eqs co(4)
    using pos blk chn nn pl b0 unit units u by (simp add: add.commute)
qed

section \<open>NAND requests\<close>

text \<open>What rounding to a quantum means, independently of how it is computed.\<close>

definition next_multiple :: "int \<Rightarrow> int \<Rightarrow> int \<Rightarrow> bool" where
  "next_multiple q v w \<longleftrightarrow> q dvd w \<and> v \<le> w \<and> w < v + q"

definition previous_multiple :: "int \<Rightarrow> int \<Rightarrow> int \<Rightarrow> bool" where
  "previous_multiple q v w \<longleftrightarrow> q dvd w \<and> w \<le> v \<and> v < w + q"

lemma next_multiple_round_up: "0 < q \<Longrightarrow> next_multiple q v (round_up v q)"
  by (simp add: next_multiple_def round_up_ge round_up_less)

lemma previous_multiple_div: "0 < q \<Longrightarrow> previous_multiple q v (v div q * q)"
  by (simp add: previous_multiple_def round_down_le round_down_greater)

lemma nand_segmentE:
  assumes "nand_segment c r b = Inr g"
  shows "map_nand_address c (b * page_bytes c) = Inr (seg_mapping g)"
    "seg_address g = b * page_bytes c" "transfer_bytes g = transfer_page_bytes c"
    "logical_bytes g = chunk_hi (page_bytes c) (req_address r + byte_count r) b
       - chunk_lo (page_bytes c) (req_address r) b"
    "seg_host_transfer_bytes g =
       round_up (chunk_hi (page_bytes c) (req_address r + byte_count r) b) (host_granularity_bytes c)
       - chunk_lo (page_bytes c) (req_address r) b div host_granularity_bytes c * host_granularity_bytes c"
    "seg_internal_transfer_bytes g = transfer_page_bytes c"
  using assms by (auto simp: nand_segment_def Let_def step_simps chunk_hi_def chunk_lo_def
      round_up_to_def round_up_def)

interpretation pages: chunk_splitter nand_ok page_bytes nand_segment
  by unfold_locales (auto simp: nand_ok_def dest: nand_segmentE)

lemma split_nand_pieces:
  "req_operation r \<noteq> ERASE \<Longrightarrow> split_nand_request r c = Inr segs \<longleftrightarrow>
    validate_nand_request r c = Inr () \<and> pieces_of (page_bytes c) (nand_segment c) r = Inr segs"
  by (auto simp: split_nand_request_def pieces_of_def Let_def step_simps chunk_indices_def)

lemma validate_nand_Inr:
  "0 < byte_count r \<Longrightarrow> validate_nand_request r c = Inr () \<longleftrightarrow>
    0 \<le> req_address r \<and> req_address r + byte_count r \<le> nand_effective_capacity c
    \<and> \<not> (protocol_mode_of c = Ocp_Hbf_0_7 \<and> req_operation r = ERASE)
    \<and> \<not> (req_operation r = WRITE \<and> partial_page_policy_of c = Reject_Partial
          \<and> \<not> (page_bytes c dvd req_address r \<and> page_bytes c dvd byte_count r))"
  by (auto simp: validate_nand_request_def check_address_def Let_def step_simps mod_eq_0_iff_dvd
      split: if_splits)

lemma nand_page_in_capacity:
  assumes "nand_ok c" "0 \<le> req_address r" "req_address r + byte_count r \<le> nand_effective_capacity c"
    "b \<in> set (chunk_indices (page_bytes c) (req_address r) (req_address r + byte_count r))"
  shows "\<exists>m. map_nand_address c (b * page_bytes c) = Inr m"
proof -
  let ?q = "page_bytes c"
  have q: "0 < ?q" using assms(1) by (simp add: nand_ok_def)
  have "req_address r div ?q * ?q \<le> b * ?q" "b * ?q \<le> (req_address r + byte_count r - 1) div ?q * ?q"
    using assms(4) q by (auto simp: chunk_indices_def mult_right_mono)
  moreover have "0 \<le> req_address r div ?q * ?q" using assms(2) q by (simp add: pos_imp_zdiv_nonneg_iff)
  ultimately have "0 \<le> b * ?q" "b * ?q < nand_effective_capacity c"
    using assms(3) round_down_le [OF q, of "req_address r + byte_count r - 1"] by linarith+
  then show ?thesis by (rule map_nand_total_aux)
qed

text \<open>The physical blocks of an erase.\<close>

definition erase_dict :: "nand_config \<Rightarrow> (int \<times> int \<times> int \<times> int \<times> int \<times> int, int \<times> address_mapping) dict \<Rightarrow> bool" where
  "erase_dict c d \<longleftrightarrow> wf_dict d \<and>
     (\<forall>(k, a, m) \<in> set d. map_nand_address c a = Inr m \<and> block_key m = k \<and> page_bytes c dvd a)"

lemma collect_blocks_inv:
  assumes "collect_blocks c ps d = Inr d'" "erase_dict c d"
  shows "erase_dict c d'" and "fst ` set d' = fst ` set d \<union>
     {block_key m | p m. p \<in> set ps \<and> map_nand_address c (p * page_bytes c) = Inr m}"
proof (atomize (full), use assms in \<open>induction ps arbitrary: d\<close>)
  case Nil
  then show ?case by simp
next
  case (Cons p ps)
  obtain m where m: "map_nand_address c (p * page_bytes c) = Inr m"
    and rest: "collect_blocks c ps (if map_of d (block_key m) = None
       then AList.update (block_key m) (p * page_bytes c, m) d else d) = Inr d'"
    using Cons.prems(1) by (auto simp: step_simps Let_def)
  let ?d = "if map_of d (block_key m) = None
       then AList.update (block_key m) (p * page_bytes c, m) d else d"
  have "erase_dict c ?d" using Cons.prems(2) m
    by (auto simp: erase_dict_def dest!: in_update_cases)
  note IH = Cons.IH [OF rest this]
  have "fst ` set ?d = insert (block_key m) (fst ` set d)"
    by (auto simp: dom_update [unfolded dom_map_of_conv_image_fst] map_of_eq_None_iff)
      (metis domI dom_map_of_conv_image_fst fst_conv image_eqI)
  with IH m show ?case by auto
qed

lemma collect_blocks_total:
  "(\<And>p. p \<in> set ps \<Longrightarrow> \<exists>m. map_nand_address c (p * page_bytes c) = Inr m) \<Longrightarrow>
    \<exists>d'. collect_blocks c ps d = Inr d'"
proof (induction ps arbitrary: d)
  case (Cons p ps)
  then obtain m where "map_nand_address c (p * page_bytes c) = Inr m" by fastforce
  with Cons show ?case by (simp add: Let_def)
qed simp

lemma split_nand_total_aux:
  assumes "nand_ok c" "0 < byte_count r"
  shows "(\<exists>segs. split_nand_request r c = Inr segs) \<longleftrightarrow>
    0 \<le> req_address r \<and> req_address r + byte_count r \<le> nand_effective_capacity c
    \<and> \<not> (protocol_mode_of c = Ocp_Hbf_0_7 \<and> req_operation r = ERASE)
    \<and> \<not> (req_operation r = WRITE \<and> partial_page_policy_of c = Reject_Partial
          \<and> \<not> (page_bytes c dvd req_address r \<and> page_bytes c dvd byte_count r))"
proof -
  let ?I = "chunk_indices (page_bytes c) (req_address r) (req_address r + byte_count r)"
  have go: "\<exists>segs. split_nand_request r c = Inr segs" if v: "validate_nand_request r c = Inr ()"
  proof -
    have rng: "0 \<le> req_address r" "req_address r + byte_count r \<le> nand_effective_capacity c"
      using v assms(2) by (auto simp: validate_nand_Inr)
    note page = nand_page_in_capacity [OF assms(1) rng]
    show ?thesis
    proof (cases "req_operation r = ERASE")
      case True
      obtain d' where "collect_blocks c ?I [] = Inr d'" using collect_blocks_total [OF page] by blast
      then show ?thesis using v True by (simp add: split_nand_request_def Let_def chunk_indices_def)
    next
      case False
      have "\<exists>g. nand_segment c r b = Inr g" if "b \<in> set ?I" for b
        using page [OF that] by (auto simp: nand_segment_def Let_def)
      then have "\<exists>segs. pieces_of (page_bytes c) (nand_segment c) r = Inr segs"
        unfolding pieces_of_def by (rule map_result_total)
      then show ?thesis using v False by (simp add: split_nand_pieces)
    qed
  qed
  have conv: "validate_nand_request r c = Inr ()" if "\<exists>segs. split_nand_request r c = Inr segs"
    using that by (auto simp: split_nand_request_def step_simps)
  show ?thesis using go conv validate_nand_Inr [OF assms(2)] by blast
qed

lemma split_nand_conserves_aux:
  assumes "nand_ok c" "0 < byte_count r" "req_operation r \<noteq> ERASE" "split_nand_request r c = Inr segs"
  shows "sum_list (map logical_bytes segs) = byte_count r \<and>
    (\<forall>g \<in> set segs. 0 < logical_bytes g \<and> logical_bytes g \<le> page_bytes c
      \<and> page_bytes c dvd seg_address g
      \<and> transfer_bytes g = seg_internal_transfer_bytes g
      \<and> next_multiple (or_default (internal_transfer_bytes c) (page_bytes c)) (page_bytes c)
          (seg_internal_transfer_bytes g)
      \<and> (\<exists>lo hi s e. lo = max (req_address r) (seg_address g)
          \<and> hi = min (req_address r + byte_count r) (seg_address g + page_bytes c)
          \<and> logical_bytes g = hi - lo
          \<and> previous_multiple (host_granularity_bytes c) lo s
          \<and> next_multiple (host_granularity_bytes c) hi e
          \<and> seg_host_transfer_bytes g = e - s)
      \<and> map_nand_address c (seg_address g) = Inr (seg_mapping g))"
proof (intro conjI ballI)
  have p: "pieces_of (page_bytes c) (nand_segment c) r = Inr segs"
    using assms(3,4) by (simp add: split_nand_pieces)
  show "sum_list (map logical_bytes segs) = byte_count r"
    by (rule pages.pieces_bytes [OF assms(1) p assms(2)])
  fix g assume g: "g \<in> set segs"
  show "0 < logical_bytes g" "logical_bytes g \<le> page_bytes c" "page_bytes c dvd seg_address g"
    using pages.piece_nonempty [OF assms(1) p assms(2) g] by auto
  obtain b where b: "nand_segment c r b = Inr g"
    using list_all2_in2 [OF pages.pieces_all2 [OF p] g] by blast
  note seg = nand_segmentE [OF b]
  show "map_nand_address c (seg_address g) = Inr (seg_mapping g)" using seg(1,2) by simp
  let ?h = "host_granularity_bytes c"
  let ?lo = "chunk_lo (page_bytes c) (req_address r) b"
  let ?hi = "chunk_hi (page_bytes c) (req_address r + byte_count r) b"
  have h: "0 < ?h" using assms(1) by (simp add: nand_ok_def)
  have pos: "0 < or_default (internal_transfer_bytes c) (page_bytes c)"
    using assms(1) by (auto simp: nand_ok_def opt_pos_def or_default_def split: option.splits)
  show "transfer_bytes g = seg_internal_transfer_bytes g" using seg(3,6) by simp
  show "next_multiple (or_default (internal_transfer_bytes c) (page_bytes c)) (page_bytes c)
      (seg_internal_transfer_bytes g)"
    using next_multiple_round_up [OF pos, of "page_bytes c"]
    by (simp add: seg(6) transfer_page_bytes_def Let_def round_up_def)
  show "\<exists>lo hi s e. lo = max (req_address r) (seg_address g)
      \<and> hi = min (req_address r + byte_count r) (seg_address g + page_bytes c)
      \<and> logical_bytes g = hi - lo \<and> previous_multiple ?h lo s \<and> next_multiple ?h hi e
      \<and> seg_host_transfer_bytes g = e - s"
    using next_multiple_round_up [OF h, of ?hi] previous_multiple_div [OF h, of ?lo] seg(2,4,5)
    by (auto simp: chunk_lo_def chunk_hi_def)
qed

lemma block_key_of_page:
  assumes "nand_ok c" "map_nand_address c a = Inr m" "map_nand_address c (a div page_bytes c * page_bytes c) = Inr m'"
  shows "block_key m = block_key m'"
proof -
  have "0 < page_bytes c" using assms(1) by (simp add: nand_ok_def)
  then have "nand_coords c (a div page_bytes c) m" "nand_coords c (a div page_bytes c) m'"
    using map_nand_coords(3) [OF assms(1,2)] map_nand_coords(3) [OF assms(1,3)] by simp_all
  then show ?thesis by (simp add: nand_coords_def block_key_def Let_def)
qed

text \<open>The blocks of the pages of a range are the blocks of its bytes.\<close>

lemma blocks_of_range:
  assumes "nand_ok c" "0 < byte_count r" "0 \<le> req_address r"
    "req_address r + byte_count r \<le> nand_effective_capacity c"
  defines "I \<equiv> chunk_indices (page_bytes c) (req_address r) (req_address r + byte_count r)"
  shows "{block_key m | p m. p \<in> set I \<and> map_nand_address c (p * page_bytes c) = Inr m} =
      {block_key m | a m. req_address r \<le> a \<and> a < req_address r + byte_count r \<and> map_nand_address c a = Inr m}"
    (is "?L = ?R")
proof
  let ?q = "page_bytes c"
  have q: "0 < ?q" using assms(1) by (simp add: nand_ok_def)
  show "?R \<subseteq> ?L"
  proof
    fix k assume "k \<in> ?R"
    then obtain a m where k: "k = block_key m" and a: "req_address r \<le> a"
      "a < req_address r + byte_count r" "map_nand_address c a = Inr m" by blast
    have i: "a div ?q \<in> set I" unfolding I_def by (rule chunk_cover [OF q a(1,2)])
    then obtain m' where m': "map_nand_address c (a div ?q * ?q) = Inr m'"
      using nand_page_in_capacity [OF assms(1,3,4)] unfolding I_def by blast
    show "k \<in> ?L" using i m' block_key_of_page [OF assms(1) a(3) m'] k by blast
  qed
  show "?L \<subseteq> ?R"
  proof
    fix k assume "k \<in> ?L"
    then obtain p m where k: "k = block_key m" and p: "p \<in> set I" "map_nand_address c (p * ?q) = Inr m"
      by blast
    have "p \<in> (\<lambda>x. x div ?q) ` {req_address r..<req_address r + byte_count r}"
      using p(1) assms(2) image_div_range [OF q, of "req_address r" "req_address r + byte_count r"]
      by (simp add: chunk_indices_def I_def)
    then obtain a where a: "req_address r \<le> a" "a < req_address r + byte_count r" "a div ?q = p" by auto
    obtain m' where m': "map_nand_address c a = Inr m'"
      using map_nand_total_aux [of a c] a assms(3,4) by force
    have "k = block_key m'" using block_key_of_page [OF assms(1) m'] p(2) a(3) k by simp
    then show "k \<in> ?R" using a(1,2) m' by blast
  qed
qed

lemma split_nand_erase_aux:
  assumes "nand_ok c" "req_operation r = ERASE" "split_nand_request r c = Inr segs" "0 < byte_count r"
  shows "distinct (map (block_key \<circ> seg_mapping) segs)
    \<and> set (map (block_key \<circ> seg_mapping) segs) =
       {block_key m | a m. req_address r \<le> a \<and> a < req_address r + byte_count r
          \<and> map_nand_address c a = Inr m}
    \<and> (\<forall>g \<in> set segs. map_nand_address c (seg_address g) = Inr (seg_mapping g)
          \<and> logical_bytes g = 0 \<and> transfer_bytes g = 0)"
proof -
  let ?q = "page_bytes c"
  let ?I = "chunk_indices ?q (req_address r) (req_address r + byte_count r)"
  obtain d where d: "collect_blocks c ?I [] = Inr d" and segs: "segs = map (erase_segment r \<circ> snd) d"
    using assms(2,3) by (auto simp: split_nand_request_def step_simps Let_def chunk_indices_def)
  have inv: "erase_dict c d" and keys: "fst ` set d =
      {block_key m | p m. p \<in> set ?I \<and> map_nand_address c (p * ?q) = Inr m}"
    using collect_blocks_inv [OF d] by (auto simp: erase_dict_def)
  have fstk: "map (block_key \<circ> seg_mapping) segs = map fst d"
    using inv by (auto simp: segs erase_segment_def erase_dict_def)
  have rng: "0 \<le> req_address r" "req_address r + byte_count r \<le> nand_effective_capacity c"
    using assms(3,4) validate_nand_Inr [OF assms(4)] by (auto simp: split_nand_request_def step_simps)
  have "distinct (map fst d)" using inv by (simp add: erase_dict_def wf_dict_def)
  moreover have "\<forall>g \<in> set segs. map_nand_address c (seg_address g) = Inr (seg_mapping g)
          \<and> logical_bytes g = 0 \<and> transfer_bytes g = 0"
    using inv by (auto simp: segs erase_segment_def erase_dict_def)
  ultimately show ?thesis
    using keys fstk blocks_of_range [OF assms(1,4) rng] by (simp only: set_map)
qed

section \<open>Example devices\<close>

definition example_dram :: dram_config where
  "example_dram = \<lparr>dram_kind = DDR, dram_generation = [], control_mode_of = Analytical, scheduler_of = Fcfs,
     scheduler_window = 8, queue_scope_of = Device_Scope, read_queue_depth_per_pc = 32,
     write_queue_depth_per_pc = 32, min_reads_per_switch = 8, write_high_watermark = 3 / 4,
     write_low_watermark = 1 / 4, channels = 2, subchannels_per_channel = 1, pseudo_channels_per_channel = 2,
     stacks = 2, dies_per_stack = 2, ranks_per_channel = 1, bank_groups_per_rank = 4,
     banks_per_group = 4, rows_per_bank = 8, row_bytes = 64, burst_bytes = 32,
     data_width_bits = 64, data_lanes = None, interleave_bytes = Some 64,
     mapping_policy_of = Bank_Interleaved, bank_geometry_scope = Per_Die,
     stack_interface_mode = Shared, dram_capacity_bytes = Some 131072,
     dram_max_outstanding_requests = 4, dram_max_expanded_segments = 4\<rparr>"

definition example_nand :: nand_config where
  "example_nand = \<lparr>nand_kind = SSD, protocol_mode_of = Generic_Nand, host_channels = 2,
     host_full_duplex = True, read_cache_pages_per_bank = 0, nand_channels = 2,
     targets_per_channel = 2, dies_per_target = 1, luns_per_die = 2, planes_per_lun = 2,
     planes_independent = True, parallel_units = None, blocks_per_plane = 4,
     pages_per_block = 2, page_bytes = 4096, host_granularity_bytes = 512,
     internal_transfer_bytes = None, host_bandwidth = 8, internal_bandwidth = 8,
     host_read_bandwidth = 8, host_write_bandwidth = 8, page_read_ns = 1, page_program_ns = 1,
     block_erase_ns = 1, front_ns = 1, write_buffer_bytes = 0, page_staging_of = No_Staging,
     page_staging_bytes_per_host_channel = 0, page_staging_latency_ns = 0,
     page_staging_burst_bytes = 64, wear_model = None, partial_page_policy_of = Host_Merge,
     nand_capacity_bytes = Some 524288, nand_max_outstanding_requests = 4,
     nand_queue_scope_of = Device_Queue, max_outstanding_write_requests = None,
     nand_max_expanded_segments = 4\<rparr>"

lemma example_dram_ok: "dram_post_init example_dram = Inr example_dram"
  by code_simp

lemma example_nand_ok: "nand_post_init example_nand = Inr example_nand"
  by code_simp

section \<open>Properties\<close>

text \<open>C1: an address that \<open>map_dram_address\<close> maps can be recovered, up to its burst, from
  the coordinates alone, for each of the three mapping policies; so two bursts never share
  a place.\<close>

theorem map_dram_roundtrip:
  assumes "dram_post_init c0 = Inr c" "map_dram_address c a = Inr m"
  shows "dram_address_of c m = a div burst_bytes c * burst_bytes c"
  by (rule dram_address_of_mapping [OF dram_post_init_ok [OF assms(1)] assms(2)])

theorem map_dram_roundtrip_witness:
  "dram_address_of example_dram (projr (map_dram_address example_dram 70000)) = 70000 div 32 * 32"
proof -
  have "map_dram_address example_dram 70000 = Inr (projr (map_dram_address example_dram 70000))"
    by code_simp
  from map_dram_roundtrip [OF example_dram_ok this] show ?thesis by (simp add: example_dram_def)
qed

text \<open>C2: \<open>map_dram_address\<close> maps exactly the addresses below \<open>dram_mapped_capacity\<close>, to
  coordinates that all lie inside the declared geometry. That bound is the capacity of the device,
  except for a SID-aware device whose bank groups do not divide into its SIDs: there it is the
  number of bytes the SID digits count, and the addresses from there to the capacity raise the SID
  geometry error. Every address outside the capacity raises the address error.\<close>

theorem map_dram_total_in_range:
  assumes "dram_post_init c0 = Inr c"
  shows "(if 0 \<le> a \<and> a < dram_mapped_capacity c
      then \<exists>m. map_dram_address c a = Inr m \<and> dram_coords_in_range c m
      else map_dram_address c a =
        Inl (if 0 \<le> a \<and> a < dram_effective_capacity c then Sid_Geometry
             else Address_Outside a (dram_effective_capacity c)))
    \<and> dram_mapped_capacity c =
        (if mapping_policy_of c = Sid_Aware \<and> bank_groups_per_sid c * sid_count c \<noteq> bank_groups_per_rank c
         then min (rows_per_bank c * sid_count c * banks_per_group c * lane_count c
                     * bank_groups_per_sid c * row_bytes c) (dram_effective_capacity c)
         else dram_effective_capacity c)"
proof -
  have ok: "dram_ok c" by (rule dram_post_init_ok [OF assms])
  have "row_bytes c = bursts_per_row c * burst_bytes c" using dram_counts_pos(5) [OF ok] by simp
  then have "sid_capacity c = rows_per_bank c * sid_count c * banks_per_group c * lane_count c
      * bank_groups_per_sid c * row_bytes c"
    by (simp add: sid_capacity_def)
  then have "dram_mapped_capacity c =
        (if mapping_policy_of c = Sid_Aware \<and> bank_groups_per_sid c * sid_count c \<noteq> bank_groups_per_rank c
         then min (rows_per_bank c * sid_count c * banks_per_group c * lane_count c
                     * bank_groups_per_sid c * row_bytes c) (dram_effective_capacity c)
         else dram_effective_capacity c)"
    using dram_mapped_full [OF ok] by (simp add: dram_mapped_capacity_def)
  then show ?thesis
    using map_dram_outcome [OF ok, of a] map_dram_in_range_aux [OF ok, of a]
    by (cases "0 \<le> a \<and> a < dram_mapped_capacity c") auto
qed

text \<open>A SID-aware device of eight bank groups of six banks: of its 8 groups the SID digits count 6.\<close>

definition example_sid :: dram_config where
  "example_sid = \<lparr>dram_kind = HBM, dram_generation = ''HBM3'', control_mode_of = Jedec_Hbm,
     scheduler_of = Fr_Fcfs, scheduler_window = 8, queue_scope_of = Pc_Scope,
     read_queue_depth_per_pc = 8, write_queue_depth_per_pc = 8, min_reads_per_switch = 1,
     write_high_watermark = 1, write_low_watermark = 0, channels = 1, subchannels_per_channel = 1,
     pseudo_channels_per_channel = 2, stacks = 1, dies_per_stack = 4, ranks_per_channel = 1,
     bank_groups_per_rank = 8, banks_per_group = 6, rows_per_bank = 2, row_bytes = 1024,
     burst_bytes = 32, data_width_bits = 32, data_lanes = None, interleave_bytes = None,
     mapping_policy_of = Sid_Aware, bank_geometry_scope = Per_Stack,
     stack_interface_mode = Independent, dram_capacity_bytes = Some 196608,
     dram_max_outstanding_requests = 4, dram_max_expanded_segments = 4\<rparr>"

lemma example_sid_ok: "dram_post_init example_sid = Inr example_sid"
  by code_simp

theorem map_dram_total_in_range_witness:
  "(\<exists>m. map_dram_address example_dram 70000 = Inr m \<and> dram_coords_in_range example_dram m)
    \<and> dram_mapped_capacity example_sid = 147456
    \<and> map_dram_address example_sid 147456 = Inl Sid_Geometry"
proof -
  have full: "mapping_policy_of example_dram \<noteq> Sid_Aware" "dram_effective_capacity example_dram = 131072"
    by code_simp+
  have sid: "dram_effective_capacity example_sid = 196608" "mapping_policy_of example_sid = Sid_Aware"
    "bank_groups_per_sid example_sid * sid_count example_sid \<noteq> bank_groups_per_rank example_sid"
    "rows_per_bank example_sid * sid_count example_sid * banks_per_group example_sid * lane_count example_sid
       * bank_groups_per_sid example_sid * row_bytes example_sid = 147456"
    by code_simp+
  show ?thesis
    using map_dram_total_in_range [OF example_dram_ok, of 70000] full
      map_dram_total_in_range [OF example_sid_ok, of 147456] sid by simp
qed

text \<open>C3: \<open>dram_request_channels\<close>, which computes the channels from the blocks at the two
  ends of a request, lists exactly the (stack, channel) pairs that the request's bytes map to, for
  every request inside the part of the capacity that is mapped (all of it, unless the bank groups
  of a SID-aware device do not divide into its SIDs).\<close>

theorem dram_request_channels_exact:
  assumes "dram_post_init c0 = Inr c" "0 < byte_count r" "0 \<le> req_address r"
    "req_address r + byte_count r \<le> dram_mapped_capacity c"
  shows "set (dram_request_channels c r) =
    {(if stack_interface_mode c = Independent then am_stack m else 0, am_channel m) | a m.
       req_address r \<le> a \<and> a < req_address r + byte_count r \<and> map_dram_address c a = Inr m}"
  by (rule dram_request_channels_bytes [OF dram_post_init_ok [OF assms(1)] assms(2-4)])

definition example_read :: access_request where
  "example_read = \<lparr>request_id = ''r'', req_operation = READ, req_address = 100, byte_count = 200\<rparr>"

theorem dram_request_channels_exact_witness:
  "{(0::int, am_channel m) | a m. 100 \<le> a \<and> a < 300 \<and> map_dram_address example_dram a = Inr m}
    = set (dram_request_channels example_dram example_read)"
proof -
  have "dram_mapped_capacity example_dram = 131072" by code_simp
  with dram_request_channels_exact [OF example_dram_ok, of example_read]
  show ?thesis by (simp add: example_dram_def example_read_def)
qed

text \<open>C5: \<open>split_dram_request\<close> succeeds exactly on a read or write inside the part of the
  capacity that is mapped, which is all of it unless the bank groups of a SID-aware device do not
  divide into its SIDs; an erase and every other range are rejected.\<close>

theorem split_dram_total:
  assumes "dram_post_init c0 = Inr c" "0 < byte_count r"
  shows "(\<exists>segs. split_dram_request r c = Inr segs) \<longleftrightarrow>
    req_operation r \<noteq> ERASE \<and> 0 \<le> req_address r \<and>
    req_address r + byte_count r \<le> dram_mapped_capacity c"
  by (rule split_dram_total_aux [OF dram_post_init_ok [OF assms(1)] assms(2)])

theorem split_dram_total_witness:
  "\<exists>segs. split_dram_request example_read example_dram = Inr segs"
proof -
  have "dram_mapped_capacity example_dram = 131072" by code_simp
  with split_dram_total [OF example_dram_ok, of example_read]
  show ?thesis by (simp add: example_read_def)
qed

text \<open>C4: the segments of \<open>split_dram_request\<close> carry each byte of the request once: their
  logical bytes add up, every byte is in the burst of exactly one segment, and each segment is
  a whole aligned burst mapped by \<open>map_dram_address\<close>.\<close>

theorem split_dram_conserves:
  assumes "dram_post_init c0 = Inr c" "0 < byte_count r" "split_dram_request r c = Inr segs"
  shows "sum_list (map logical_bytes segs) = byte_count r
    \<and> (\<forall>x \<in> {req_address r ..< req_address r + byte_count r}.
         \<exists>!g. g \<in> set segs \<and> seg_address g \<le> x \<and> x < seg_address g + burst_bytes c)
    \<and> (\<forall>g \<in> set segs. 0 < logical_bytes g \<and> logical_bytes g \<le> transfer_bytes g
         \<and> transfer_bytes g = burst_bytes c \<and> burst_bytes c dvd seg_address g
         \<and> map_dram_address c (seg_address g) = Inr (seg_mapping g))"
proof -
  have ok: "dram_ok c" by (rule dram_post_init_ok [OF assms(1)])
  have p: "pieces_of (burst_bytes c) (dram_segment c) r = Inr segs"
    using assms(3) by (simp add: split_dram_pieces)
  show ?thesis
    using split_dram_conserves_aux [OF ok assms(2,3)] split_dram_mapped(2) [OF assms(3)]
      bursts.byte_in_one_piece [OF ok p] by simp
qed

theorem split_dram_conserves_witness:
  "map_option (\<lambda>segs. sum_list (map logical_bytes segs)) (case split_dram_request example_read example_dram of
     Inl e \<Rightarrow> None | Inr segs \<Rightarrow> Some segs) = Some 200"
proof -
  have "split_dram_request example_read example_dram = Inr (projr (split_dram_request example_read example_dram))"
    by code_simp
  with split_dram_conserves [OF example_dram_ok _ this] show ?thesis
    by (metis (no_types) access_request.select_convs(4) example_read_def old.sum.simps(6)
        option.simps(9) zero_less_numeral)
qed

text \<open>C6: \<open>map_nand_address\<close> maps every address below the capacity, in both plane layouts;
  its coordinates lie inside the declared geometry and determine the address.\<close>

theorem map_nand_roundtrip:
  assumes "nand_post_init c0 = Inr c"
  shows "if 0 \<le> a \<and> a < nand_effective_capacity c
    then \<exists>m. map_nand_address c a = Inr m \<and> nand_coords_in_range c m \<and> nand_address_of c m = a
    else map_nand_address c a = Inl (Address_Outside a (nand_effective_capacity c))"
proof (cases "0 \<le> a \<and> a < nand_effective_capacity c")
  case True
  have ok: "nand_ok c" by (rule nand_post_init_ok [OF assms])
  obtain m where m: "map_nand_address c a = Inr m" using map_nand_total_aux True by blast
  then show ?thesis
    using map_nand_in_range_aux [OF ok m] nand_address_of_mapping [OF ok m] True by simp
next
  case False
  then have chk: "check_address a (nand_effective_capacity c) = Inl (Address_Outside a (nand_effective_capacity c))"
    by (auto simp: check_address_def)
  show ?thesis unfolding map_nand_address_def chk rbind_simps if_not_P [OF False] ..
qed

theorem map_nand_roundtrip_witness:
  "\<exists>m. map_nand_address example_nand 300000 = Inr m \<and> nand_coords_in_range example_nand m
     \<and> nand_address_of example_nand m = 300000"
  using map_nand_roundtrip [OF example_nand_ok, of 300000]
  by (simp add: example_nand_def nand_effective_capacity_def)

text \<open>C8: \<open>split_nand_request\<close> succeeds exactly when the range is inside the device, an
  erase is not aimed at an OCP HBF device, and a write that does not cover whole pages is not
  forbidden by the partial-page policy.\<close>

theorem split_nand_total:
  assumes "nand_post_init c0 = Inr c" "0 < byte_count r"
  shows "(\<exists>segs. split_nand_request r c = Inr segs) \<longleftrightarrow>
    0 \<le> req_address r \<and> req_address r + byte_count r \<le> nand_effective_capacity c
    \<and> \<not> (protocol_mode_of c = Ocp_Hbf_0_7 \<and> req_operation r = ERASE)
    \<and> \<not> (req_operation r = WRITE \<and> partial_page_policy_of c = Reject_Partial
          \<and> \<not> (page_bytes c dvd req_address r \<and> page_bytes c dvd byte_count r))"
  by (rule split_nand_total_aux [OF nand_post_init_ok [OF assms(1)] assms(2)])

theorem split_nand_total_witness: "\<exists>segs. split_nand_request example_read example_nand = Inr segs"
  using split_nand_total [OF example_nand_ok, of example_read]
  by (simp add: example_nand_def example_read_def nand_effective_capacity_def)

text \<open>C7: the page segments of a NAND read or write carry each byte of the request once. The
  internal transfer of a segment is the page rounded up to the next multiple of the transfer
  quantum. Its host transfer runs from the last host granule boundary at or before its first byte
  to the first boundary at or after its last.\<close>

theorem split_nand_conserves:
  assumes "nand_post_init c0 = Inr c" "0 < byte_count r" "req_operation r \<noteq> ERASE"
    "split_nand_request r c = Inr segs"
  shows "sum_list (map logical_bytes segs) = byte_count r
    \<and> (\<forall>x \<in> {req_address r ..< req_address r + byte_count r}.
         \<exists>!g. g \<in> set segs \<and> seg_address g \<le> x \<and> x < seg_address g + page_bytes c)
    \<and> (\<forall>g \<in> set segs. 0 < logical_bytes g \<and> logical_bytes g \<le> page_bytes c
      \<and> page_bytes c dvd seg_address g
      \<and> transfer_bytes g = seg_internal_transfer_bytes g
      \<and> next_multiple (or_default (internal_transfer_bytes c) (page_bytes c)) (page_bytes c)
          (seg_internal_transfer_bytes g)
      \<and> (\<exists>lo hi s e. lo = max (req_address r) (seg_address g)
          \<and> hi = min (req_address r + byte_count r) (seg_address g + page_bytes c)
          \<and> logical_bytes g = hi - lo
          \<and> previous_multiple (host_granularity_bytes c) lo s
          \<and> next_multiple (host_granularity_bytes c) hi e
          \<and> seg_host_transfer_bytes g = e - s)
      \<and> map_nand_address c (seg_address g) = Inr (seg_mapping g))"
proof -
  have ok: "nand_ok c" by (rule nand_post_init_ok [OF assms(1)])
  have p: "pieces_of (page_bytes c) (nand_segment c) r = Inr segs"
    using assms(3,4) by (simp add: split_nand_pieces)
  have byte: "\<forall>x \<in> {req_address r ..< req_address r + byte_count r}.
      \<exists>!g. g \<in> set segs \<and> seg_address g \<le> x \<and> x < seg_address g + page_bytes c"
    using pages.byte_in_one_piece [OF ok p] by simp
  from split_nand_conserves_aux [OF ok assms(2-4)] show ?thesis
    by (intro conjI byte) (elim conjE, assumption)+
qed

theorem split_nand_conserves_witness:
  "sum_list (map logical_bytes (projr (split_nand_request example_read example_nand))) = 200"
proof -
  have "split_nand_request example_read example_nand = Inr (projr (split_nand_request example_read example_nand))"
    by code_simp
  from split_nand_conserves [OF example_nand_ok _ _ this] show ?thesis by (simp add: example_read_def)
qed

text \<open>C9: an erase names each physical block that holds a byte of its range exactly once,
  at an address inside the block, and transfers nothing.\<close>

theorem split_nand_erase_blocks:
  assumes "nand_post_init c0 = Inr c" "req_operation r = ERASE" "split_nand_request r c = Inr segs"
    "0 < byte_count r"
  shows "distinct (map (block_key \<circ> seg_mapping) segs)
    \<and> set (map (block_key \<circ> seg_mapping) segs) =
       {block_key m | a m. req_address r \<le> a \<and> a < req_address r + byte_count r
          \<and> map_nand_address c a = Inr m}
    \<and> (\<forall>g \<in> set segs. map_nand_address c (seg_address g) = Inr (seg_mapping g)
          \<and> logical_bytes g = 0 \<and> transfer_bytes g = 0)"
  by (rule split_nand_erase_aux [OF nand_post_init_ok [OF assms(1)] assms(2-4)])

theorem split_nand_erase_blocks_witness:
  "distinct (map (block_key \<circ> seg_mapping)
     (projr (split_nand_request (example_read\<lparr>req_operation := ERASE\<rparr>) example_nand)))"
proof -
  let ?r = "example_read\<lparr>req_operation := ERASE\<rparr>"
  have "split_nand_request ?r example_nand = Inr (projr (split_nand_request ?r example_nand))"
    by code_simp
  from split_nand_erase_blocks [OF example_nand_ok _ this] show ?thesis by (simp add: example_read_def)
qed

end
