(* ===== verification/Cache_State.thy ===== *)
theory Cache_State
  imports Prelude
begin

text \<open>
  \<open>src/src/heterollm_sim/cache_state.py\<close>: the line-granular, fully associative LRU cache
  \<open>ExplicitCacheState\<close>. A state has the resident lines as a dictionary in LRU order, the
  side indexes \<open>_lru_prev\<close>, \<open>_lru_next\<close> and \<open>_buffer_line_keys\<close>, the remembered buffer sizes,
  the counters and the rollback journal of an active transaction.

  The identity of a transaction object is a number, taken from \<open>next_tx\<close>; \<open>None\<close> as a
  transaction handle is Python's \<open>None\<close>. \<open>_buffer_sizes\<close> and the two link dictionaries are
  read by key only, so they are maps.
\<close>

section \<open>Data\<close>

datatype cache_error = Cache_State_Error string | Cache_Key_Error | Cache_Type_Error

datatype cache_op = Cache_Read | Cache_Write

record cache_access =
  ca_buffer :: string
  ca_offset :: int
  ca_size :: int
  ca_op :: cache_op
  ca_buffer_size :: "int option"
  ca_generation :: int

type_synonym line_key = "string \<times> int \<times> int"
type_synonym buffer_key = "string \<times> int"

record cache_line =
  cl_buffer :: string
  cl_index :: int
  cl_size :: int
  cl_dirty :: bool
  cl_generation :: int

definition cl_key :: "cache_line \<Rightarrow> line_key" where
  "cl_key l = (cl_buffer l, cl_generation l, cl_index l)"

definition buffer_of :: "line_key \<Rightarrow> buffer_key" where
  "buffer_of k = (fst k, fst (snd k))"

text \<open>\<open>CacheAccess.__post_init__\<close>; the operation is text there, one of two constructors here.\<close>

definition make_cache_access ::
  "string \<Rightarrow> int \<Rightarrow> int \<Rightarrow> cache_op \<Rightarrow> int option \<Rightarrow> int \<Rightarrow> cache_error + cache_access" where
  "make_cache_access bid off n op bsize gen =
    (if strip bid = [] then Inl (Cache_State_Error ''buffer_id must be non-empty text'')
     else if off < 0 then Inl (Cache_State_Error ''offset_bytes must be a non-negative integer'')
     else if n \<le> 0 then Inl (Cache_State_Error ''size_bytes must be a positive integer'')
     else if gen < 0 then Inl (Cache_State_Error ''allocation_generation must be a non-negative integer'')
     else (case bsize of
         None \<Rightarrow> Inr \<lparr>ca_buffer = strip bid, ca_offset = off, ca_size = n, ca_op = op,
           ca_buffer_size = bsize, ca_generation = gen\<rparr>
       | Some b \<Rightarrow>
           if b \<le> 0 then Inl (Cache_State_Error ''buffer_size_bytes must be a positive integer or None'')
           else if off + n > b then Inl (Cache_State_Error ''access range exceeds declared buffer_size_bytes'')
           else Inr \<lparr>ca_buffer = strip bid, ca_offset = off, ca_size = n, ca_op = op,
             ca_buffer_size = bsize, ca_generation = gen\<rparr>))"

record access_result =
  touched_lines :: int
  hit_lines :: int
  miss_lines :: int
  allocated_lines :: int
  read_fill_bytes :: int
  read_for_ownership_bytes :: int
  write_through_bytes :: int
  bypass_write_bytes :: int
  dirty_eviction_bytes :: int
  clean_eviction_bytes :: int
  dirty_eviction_lines :: int
  clean_eviction_lines :: int
  backing_accesses :: "cache_access list"

definition backing_read_bytes :: "access_result \<Rightarrow> int" where
  "backing_read_bytes r = read_fill_bytes r"

definition backing_write_bytes :: "access_result \<Rightarrow> int" where
  "backing_write_bytes r = write_through_bytes r + bypass_write_bytes r + dirty_eviction_bytes r"

definition evicted_lines :: "access_result \<Rightarrow> int" where
  "evicted_lines r = dirty_eviction_lines r + clean_eviction_lines r"

record cache_counters =
  n_access_count :: int
  n_hit_lines :: int
  n_miss_lines :: int
  n_eviction_lines :: int
  n_dirty_eviction_bytes :: int
  n_flush_writeback_bytes :: int
  n_write_through_bytes :: int
  n_bypass_write_bytes :: int
  n_read_fill_bytes :: int

text \<open>A journal entry: the key, the line if it was resident, and its LRU successor.\<close>

type_synonym line_entry = "line_key \<times> cache_line option \<times> line_key option"
type_synonym size_entry = "buffer_key \<times> int option option"

record cache_tx =
  tx_id :: nat
  tx_lines :: "line_entry list"
  tx_buffers :: "size_entry list"
  tx_seen :: "buffer_key set"
  tx_scalars :: cache_counters

record cache =
  capacity_bytes :: int
  line_bytes :: int
  capacity_lines :: int
  write_back :: bool
  write_allocate :: bool
  cache_lines :: "(line_key, cache_line) dict"
  lru_prev :: "line_key \<rightharpoonup> line_key option"
  lru_next :: "line_key \<rightharpoonup> line_key option"
  buffer_line_keys :: "buffer_key \<rightharpoonup> line_key set"
  buffer_sizes :: "buffer_key \<rightharpoonup> int option"
  counters :: cache_counters
  transaction :: "cache_tx option"
  next_tx :: nat

definition no_counts :: cache_counters where
  "no_counts = \<lparr>n_access_count = 0, n_hit_lines = 0, n_miss_lines = 0, n_eviction_lines = 0,
     n_dirty_eviction_bytes = 0, n_flush_writeback_bytes = 0, n_write_through_bytes = 0,
     n_bypass_write_bytes = 0, n_read_fill_bytes = 0\<rparr>"

text \<open>\<open>ExplicitCacheState.__init__\<close>.\<close>

definition new_cache :: "int \<Rightarrow> int \<Rightarrow> bool \<Rightarrow> bool \<Rightarrow> cache_error + cache" where
  "new_cache capacity line wb wa =
    (if capacity \<le> 0 then Inl (Cache_State_Error ''capacity_bytes must be a positive integer'')
     else if line \<le> 0 then Inl (Cache_State_Error ''line_bytes must be a positive integer'')
     else if capacity < line then Inl (Cache_State_Error ''capacity_bytes must fit at least one line'')
     else if capacity mod line \<noteq> 0 then
       Inl (Cache_State_Error ''capacity_bytes must be an integer multiple of line_bytes'')
     else Inr \<lparr>capacity_bytes = capacity, line_bytes = line, capacity_lines = capacity div line,
       write_back = wb, write_allocate = wa, cache_lines = [], lru_prev = Map.empty,
       lru_next = Map.empty, buffer_line_keys = Map.empty, buffer_sizes = Map.empty,
       counters = no_counts, transaction = None, next_tx = 0\<rparr>)"

section \<open>Lines, links and the journal\<close>

definition record_line :: "line_key \<Rightarrow> cache \<Rightarrow> cache" where
  "record_line k s = (case transaction s of
      None \<Rightarrow> s
    | Some t \<Rightarrow> s\<lparr>transaction := Some (t\<lparr>tx_lines := tx_lines t @
        [(k, map_of (cache_lines s) k, case lru_next s k of None \<Rightarrow> None | Some n \<Rightarrow> n)]\<rparr>)\<rparr>)"

text \<open>\<open>if p is not None: links[p] = n\<close>.\<close>

definition link_next :: "'a option \<Rightarrow> 'a option \<Rightarrow> ('a \<rightharpoonup> 'a option) \<Rightarrow> ('a \<rightharpoonup> 'a option)" where
  "link_next p n m = (case p of None \<Rightarrow> m | Some q \<Rightarrow> m(q \<mapsto> n))"

definition pop_line :: "line_key \<Rightarrow> cache \<Rightarrow> cache_line option \<times> cache" where
  "pop_line k s0 =
    (let s = record_line k s0 in
     case map_of (cache_lines s) k of
       None \<Rightarrow> (None, s)
     | Some line \<Rightarrow>
       (let previous = (case lru_prev s k of None \<Rightarrow> None | Some p \<Rightarrow> p);
            successor = (case lru_next s k of None \<Rightarrow> None | Some n \<Rightarrow> n);
            nxt = link_next previous successor ((lru_next s)(k := None));
            prev = link_next successor previous ((lru_prev s)(k := None));
            bk = buffer_of k;
            idx = (case buffer_line_keys s bk of
                None \<Rightarrow> buffer_line_keys s
              | Some ks \<Rightarrow> if ks - {k} = {} then (buffer_line_keys s)(bk := None)
                           else (buffer_line_keys s)(bk \<mapsto> ks - {k})) in
        (Some line, s\<lparr>lru_prev := prev, lru_next := nxt, buffer_line_keys := idx,
           cache_lines := AList.delete k (cache_lines s)\<rparr>)))"

definition set_line :: "line_key \<Rightarrow> cache_line \<Rightarrow> cache \<Rightarrow> cache" where
  "set_line k v s0 =
    (let s = record_line k s0 in
     if map_of (cache_lines s) k \<noteq> None then s\<lparr>cache_lines := AList.update k v (cache_lines s)\<rparr>
     else
       let previous = (if cache_lines s = [] then None else Some (fst (last (cache_lines s))));
           idx = (buffer_line_keys s)(buffer_of k \<mapsto>
             insert k (case buffer_line_keys s (buffer_of k) of None \<Rightarrow> {} | Some ks \<Rightarrow> ks));
           prev = (lru_prev s)(k \<mapsto> previous);
           nxt = link_next previous (Some k) ((lru_next s)(k \<mapsto> None)) in
       s\<lparr>cache_lines := AList.update k v (cache_lines s), buffer_line_keys := idx,
         lru_prev := prev, lru_next := nxt\<rparr>)"

fun rebuild_loop :: "line_key option \<Rightarrow> line_key list \<Rightarrow>
    (line_key \<rightharpoonup> line_key option) \<times> (line_key \<rightharpoonup> line_key option) \<times> (buffer_key \<rightharpoonup> line_key set) \<Rightarrow>
    (line_key \<rightharpoonup> line_key option) \<times> (line_key \<rightharpoonup> line_key option) \<times> (buffer_key \<rightharpoonup> line_key set)" where
  "rebuild_loop previous [] links = links"
| "rebuild_loop previous (k # ks) (prev, nxt, idx) =
    (let idx = idx(buffer_of k \<mapsto> insert k (case idx (buffer_of k) of None \<Rightarrow> {} | Some s \<Rightarrow> s));
         prev = prev(k \<mapsto> previous);
         nxt = link_next previous (Some k) (nxt(k \<mapsto> None)) in
     rebuild_loop (Some k) ks (prev, nxt, idx))"

definition rebuild_lru_links :: "cache \<Rightarrow> cache" where
  "rebuild_lru_links s = (case rebuild_loop None (map fst (cache_lines s)) (Map.empty, Map.empty, Map.empty) of
     (prev, nxt, idx) \<Rightarrow> s\<lparr>lru_prev := prev, lru_next := nxt, buffer_line_keys := idx\<rparr>)"

definition remember_buffer :: "buffer_key \<Rightarrow> cache \<Rightarrow> cache" where
  "remember_buffer bk s = (case transaction s of
      None \<Rightarrow> s
    | Some t \<Rightarrow> if bk \<in> tx_seen t then s
        else s\<lparr>transaction := Some (t\<lparr>tx_seen := insert bk (tx_seen t),
          tx_buffers := tx_buffers t @ [(bk, buffer_sizes s bk)]\<rparr>)\<rparr>)"

section \<open>Transactions\<close>

definition begin_transaction :: "cache \<Rightarrow> (cache_error + nat option) \<times> cache" where
  "begin_transaction s =
    (if transaction s \<noteq> None then (Inl (Cache_State_Error ''cache transaction already active''), s)
     else (Inr (Some (next_tx s)), s\<lparr>next_tx := Suc (next_tx s),
       transaction := Some \<lparr>tx_id = next_tx s, tx_lines = [], tx_buffers = [], tx_seen = {},
         tx_scalars = counters s\<rparr>\<rparr>))"

definition commit_transaction :: "nat option \<Rightarrow> cache \<Rightarrow> (cache_error + unit) \<times> cache" where
  "commit_transaction h s =
    (if h \<noteq> map_option tx_id (transaction s)
     then (Inl (Cache_State_Error ''invalid cache transaction''), s)
     else (Inr (), s\<lparr>transaction := None\<rparr>))"

text \<open>
  Undoing one journalled mutation: the key is popped and, if it was resident, inserted again
  before its successor by rebuilding the dictionary, or at the end.
\<close>

definition undo_line :: "line_entry \<Rightarrow> (line_key, cache_line) dict \<Rightarrow> (line_key, cache_line) dict" where
  "undo_line e ls = (case e of (k, old, successor) \<Rightarrow>
    (case old of
       None \<Rightarrow> AList.delete k ls
     | Some line \<Rightarrow>
         (let ls = AList.delete k ls in
          case successor of
            None \<Rightarrow> AList.update k line ls
          | Some n \<Rightarrow> if map_of ls n = None then AList.update k line ls
              else foldl (\<lambda>restored (ck, cl). AList.update ck cl
                     (if ck = n then AList.update k line restored else restored)) [] ls)))"

definition undo_size :: "size_entry \<Rightarrow> (buffer_key \<rightharpoonup> int option) \<Rightarrow> (buffer_key \<rightharpoonup> int option)" where
  "undo_size e m = (case e of (bk, old) \<Rightarrow> m(bk := old))"

definition rollback_transaction :: "nat option \<Rightarrow> cache \<Rightarrow> (cache_error + unit) \<times> cache" where
  "rollback_transaction h s =
    (if h \<noteq> map_option tx_id (transaction s)
     then (Inl (Cache_State_Error ''invalid cache transaction''), s)
     else case transaction s of
       None \<Rightarrow> (Inl Cache_Type_Error, s)
     | Some t \<Rightarrow>
       (let s = s\<lparr>cache_lines := fold undo_line (rev (tx_lines t)) (cache_lines s),
              buffer_sizes := fold undo_size (rev (tx_buffers t)) (buffer_sizes s),
              counters := tx_scalars t\<rparr> in
        (Inr (), (rebuild_lru_links s)\<lparr>transaction := None\<rparr>)))"

section \<open>Accesses\<close>

definition access_key :: "cache_access \<Rightarrow> buffer_key" where
  "access_key a = (ca_buffer a, ca_generation a)"

definition fixed_size_error :: cache_error where
  "fixed_size_error = Cache_State_Error ''buffer_size_bytes must be fixed at first access''"

definition remembered_range_error :: cache_error where
  "remembered_range_error = Cache_State_Error ''access range exceeds remembered buffer_size_bytes''"

text \<open>\<open>_buffer_size\<close>; the message of the first error also names the buffer.\<close>

definition buffer_size :: "cache \<Rightarrow> cache_access \<Rightarrow> cache_error + int option" where
  "buffer_size s a =
    rbind (case buffer_sizes s (access_key a) of
        Some known \<Rightarrow> if ca_buffer_size a \<noteq> None \<and> known \<noteq> ca_buffer_size a
          then Inl fixed_size_error else Inr known
      | None \<Rightarrow> Inr (ca_buffer_size a)) (\<lambda>known.
    case known of
      None \<Rightarrow> Inr known
    | Some n \<Rightarrow> if ca_offset a + ca_size a > n then Inl remembered_range_error else Inr known)"

text \<open>A line of an access: its key, its bytes, the bytes covered, and whether these are all.\<close>

type_synonym spec_row = "line_key \<times> int \<times> int \<times> bool"

definition line_spec :: "cache \<Rightarrow> cache_access \<Rightarrow> int option \<Rightarrow> int \<Rightarrow> cache_error + spec_row" where
  "line_spec s a bsize line_index =
    (let start = ca_offset a; stop = start + ca_size a;
         line_start = line_index * line_bytes s; line_end = line_start + line_bytes s;
         line_end = (case bsize of None \<Rightarrow> line_end | Some n \<Rightarrow> min line_end n);
         physical_size = line_end - line_start;
         covered_start = max start line_start; covered_end = min stop line_end in
     if (case bsize of None \<Rightarrow> False | Some n \<Rightarrow> line_start \<ge> n)
     then Inl (Cache_State_Error ''access resolved beyond declared buffer'')
     else if physical_size \<le> 0
     then Inl (Cache_State_Error ''access resolved to an empty cache line'')
     else if covered_end \<le> covered_start
     then Inl (Cache_State_Error ''access range does not cover cache line'')
     else Inr ((strip (ca_buffer a), ca_generation a, line_index), physical_size,
       covered_end - covered_start, covered_start = line_start \<and> covered_end = line_end))"

fun collect_specs :: "(int \<Rightarrow> cache_error + spec_row) \<Rightarrow> int list \<Rightarrow> cache_error + spec_row list" where
  "collect_specs f [] = Inr []"
| "collect_specs f (i # is) = rbind (f i) (\<lambda>x. rbind (collect_specs f is) (\<lambda>xs. Inr (x # xs)))"

definition line_specs :: "cache \<Rightarrow> cache_access \<Rightarrow> cache_error + spec_row list" where
  "line_specs s a =
    rbind (buffer_size s a) (\<lambda>known.
    let start = ca_offset a; stop = start + ca_size a;
        first = start div line_bytes s; last = (stop - 1) div line_bytes s in
    collect_specs (line_spec s a known) [first .. last])"

definition evict_one :: "cache \<Rightarrow> (cache_error + cache_line \<times> int \<times> int) \<times> cache" where
  "evict_one s =
    (case cache_lines s of
       [] \<Rightarrow> (Inl (Cache_State_Error ''cache has no resident line to evict''), s)
     | (k, _) # _ \<Rightarrow>
       (case pop_line k s of
          (None, s) \<Rightarrow> (Inl Cache_Type_Error, s)
        | (Some victim, s) \<Rightarrow>
          (let dirty = (if cl_dirty victim then cl_size victim else 0);
               clean = (if \<not> cl_dirty victim then cl_size victim else 0) in
           (Inr (victim, dirty, clean), s\<lparr>counters := (counters s)\<lparr>
              n_eviction_lines := n_eviction_lines (counters s) + 1,
              n_dirty_eviction_bytes := n_dirty_eviction_bytes (counters s) + dirty\<rparr>\<rparr>))))"

text \<open>The backing write of a dirty line, in \<open>_ensure_slot\<close> and in \<open>flush\<close>.\<close>

definition line_writeback :: "cache \<Rightarrow> cache_line \<Rightarrow> cache_error + cache_access" where
  "line_writeback s l =
    (case buffer_sizes s (cl_buffer l, cl_generation l) of
       None \<Rightarrow> Inl Cache_Key_Error
     | Some bsize \<Rightarrow> make_cache_access (cl_buffer l) (cl_index l * line_bytes s) (cl_size l)
         Cache_Write bsize (cl_generation l))"

text \<open>\<open>_ensure_slot\<close>, with its appends to the caller's list and sums.\<close>

definition ensure_slot :: "access_result \<Rightarrow> cache \<Rightarrow> (cache_error + access_result) \<times> cache" where
  "ensure_slot r s =
    (if int (length (cache_lines s)) \<ge> capacity_lines s then
       sbind (evict_one s) (\<lambda>(victim, dirty, clean) s.
         if cl_dirty victim then
           (case line_writeback s victim of
              Inl e \<Rightarrow> (Inl e, s)
            | Inr w \<Rightarrow> (Inr (r\<lparr>
                dirty_eviction_bytes := dirty_eviction_bytes r + dirty,
                clean_eviction_bytes := clean_eviction_bytes r + clean,
                dirty_eviction_lines := dirty_eviction_lines r + 1,
                backing_accesses := backing_accesses r @ [w]\<rparr>), s))
         else (Inr (r\<lparr>
                dirty_eviction_bytes := dirty_eviction_bytes r + dirty,
                clean_eviction_bytes := clean_eviction_bytes r + clean,
                clean_eviction_lines := clean_eviction_lines r + 1\<rparr>), s))
     else (Inr r, s))"

definition line_dirty :: "cache_line \<Rightarrow> cache_line" where
  "line_dirty l = l\<lparr>cl_dirty := True\<rparr>"

text \<open>The three branches of the loop of \<open>access\<close>: a hit, a bypassing write, an allocation.\<close>

definition write_backing :: "cache_access \<Rightarrow> cache \<Rightarrow> int \<Rightarrow> int \<Rightarrow> cache_error + cache_access" where
  "write_backing a s off n = (case buffer_sizes s (access_key a) of
      None \<Rightarrow> Inl Cache_Key_Error
    | Some bsize \<Rightarrow> make_cache_access (ca_buffer a) off n Cache_Write bsize (ca_generation a))"

definition read_backing :: "cache_access \<Rightarrow> cache \<Rightarrow> int \<Rightarrow> int \<Rightarrow> cache_error + cache_access" where
  "read_backing a s off n = (case buffer_sizes s (access_key a) of
      None \<Rightarrow> Inl Cache_Key_Error
    | Some bsize \<Rightarrow> make_cache_access (ca_buffer a) off n Cache_Read bsize (ca_generation a))"

definition write_through :: "cache_access \<Rightarrow> int \<Rightarrow> int \<Rightarrow> access_result \<Rightarrow> cache \<Rightarrow>
    (cache_error + access_result) \<times> cache" where
  "write_through a off covered r s0 =
    (let s = s0\<lparr>counters := (counters s0)\<lparr>
           n_write_through_bytes := n_write_through_bytes (counters s0) + covered\<rparr>\<rparr>;
         r = r\<lparr>write_through_bytes := write_through_bytes r + covered\<rparr> in
     case write_backing a s off covered of
       Inl e \<Rightarrow> (Inl e, s)
     | Inr w \<Rightarrow> (Inr (r\<lparr>backing_accesses := backing_accesses r @ [w]\<rparr>), s))"

definition hit_line :: "cache_access \<Rightarrow> spec_row \<Rightarrow> cache_line \<Rightarrow> access_result \<Rightarrow> cache \<Rightarrow>
    (cache_error + access_result) \<times> cache" where
  "hit_line a spec line r0 s0 =
    (case spec of (key, physical, covered, full) \<Rightarrow>
     let r = r0\<lparr>hit_lines := hit_lines r0 + 1\<rparr>;
         s = s0\<lparr>counters := (counters s0)\<lparr>n_hit_lines := n_hit_lines (counters s0) + 1\<rparr>\<rparr>;
         covered_offset = max (ca_offset a) (snd (snd key) * line_bytes s) in
     if ca_op a = Cache_Write \<and> write_back s then (Inr r, set_line key (line_dirty line) s)
     else sbind (if ca_op a = Cache_Write then write_through a covered_offset covered r s
                 else (Inr r, s)) (\<lambda>r s. (Inr r, set_line key line s)))"

definition bypass_line :: "cache_access \<Rightarrow> spec_row \<Rightarrow> access_result \<Rightarrow> cache \<Rightarrow>
    (cache_error + access_result) \<times> cache" where
  "bypass_line a spec r0 s0 =
    (case spec of (key, physical, covered, full) \<Rightarrow>
     let r = r0\<lparr>bypass_write_bytes := bypass_write_bytes r0 + covered\<rparr>;
         s = s0\<lparr>counters := (counters s0)\<lparr>
           n_bypass_write_bytes := n_bypass_write_bytes (counters s0) + covered\<rparr>\<rparr> in
     case write_backing a s (max (ca_offset a) (snd (snd key) * line_bytes s)) covered of
       Inl e \<Rightarrow> (Inl e, s)
     | Inr w \<Rightarrow> (Inr (r\<lparr>backing_accesses := backing_accesses r @ [w]\<rparr>), s))"

text \<open>The line fill of a read, or of a write that does not cover its line.\<close>

definition fill_line :: "cache_access \<Rightarrow> int \<Rightarrow> int \<Rightarrow> access_result \<Rightarrow> cache \<Rightarrow> (cache_error + access_result) \<times> cache" where
  "fill_line a line_offset physical r s =
    (let r = r\<lparr>read_fill_bytes := read_fill_bytes r + physical\<rparr>;
         s = s\<lparr>counters := (counters s)\<lparr>
           n_read_fill_bytes := n_read_fill_bytes (counters s) + physical\<rparr>\<rparr> in
     case read_backing a s line_offset physical of
       Inl e \<Rightarrow> (Inl e, s)
     | Inr b \<Rightarrow> (Inr (r\<lparr>backing_accesses := backing_accesses r @ [b],
         read_for_ownership_bytes := read_for_ownership_bytes r
           + (if ca_op a = Cache_Write then physical else 0)\<rparr>), s))"

definition alloc_line :: "cache_access \<Rightarrow> spec_row \<Rightarrow> access_result \<Rightarrow> cache \<Rightarrow>
    (cache_error + access_result) \<times> cache" where
  "alloc_line a spec r0 s0 =
    (case spec of (key, physical, covered, full) \<Rightarrow>
     sbind (ensure_slot r0 s0) (\<lambda>r s.
     sbind (if ca_op a \<noteq> Cache_Write \<or> \<not> full then fill_line a (snd (snd key) * line_bytes s) physical r s
            else (Inr r, s)) (\<lambda>r s.
     let s = set_line key \<lparr>cl_buffer = fst key, cl_index = snd (snd key), cl_size = physical,
               cl_dirty = (ca_op a = Cache_Write \<and> write_back s), cl_generation = fst (snd key)\<rparr> s;
         r = r\<lparr>allocated_lines := allocated_lines r + 1\<rparr> in
     if ca_op a = Cache_Write \<and> \<not> write_back s
     then write_through a (max (ca_offset a) (snd (snd key) * line_bytes s)) covered r s
     else (Inr r, s))))"

definition access_line :: "cache_access \<Rightarrow> spec_row \<Rightarrow> access_result \<Rightarrow> cache \<Rightarrow>
    (cache_error + access_result) \<times> cache" where
  "access_line a spec r s0 =
    (case pop_line (fst spec) s0 of
       (Some line, s) \<Rightarrow> hit_line a spec line r s
     | (None, s) \<Rightarrow>
       (let r = r\<lparr>miss_lines := miss_lines r + 1\<rparr>;
            s = s\<lparr>counters := (counters s)\<lparr>n_miss_lines := n_miss_lines (counters s) + 1\<rparr>\<rparr> in
        if ca_op a = Cache_Write \<and> \<not> write_allocate s then bypass_line a spec r s
        else alloc_line a spec r s))"

fun access_lines :: "cache_access \<Rightarrow> spec_row list \<Rightarrow> access_result \<Rightarrow> cache \<Rightarrow>
    (cache_error + access_result) \<times> cache" where
  "access_lines a [] r s = (Inr r, s)"
| "access_lines a (spec # specs) r s =
    sbind (access_line a spec r s) (\<lambda>r s. access_lines a specs r s)"

definition no_result :: "int \<Rightarrow> access_result" where
  "no_result n = \<lparr>touched_lines = n, hit_lines = 0, miss_lines = 0, allocated_lines = 0,
     read_fill_bytes = 0, read_for_ownership_bytes = 0, write_through_bytes = 0,
     bypass_write_bytes = 0, dirty_eviction_bytes = 0, clean_eviction_bytes = 0,
     dirty_eviction_lines = 0, clean_eviction_lines = 0, backing_accesses = []\<rparr>"

definition set_default_size :: "cache_access \<Rightarrow> cache \<Rightarrow> cache" where
  "set_default_size a s = (case buffer_sizes s (access_key a) of
      None \<Rightarrow> s\<lparr>buffer_sizes := (buffer_sizes s)(access_key a \<mapsto> ca_buffer_size a)\<rparr>
    | Some _ \<Rightarrow> s)"

definition access :: "cache_access \<Rightarrow> cache \<Rightarrow> (cache_error + access_result) \<times> cache" where
  "access a s0 =
    (case line_specs s0 a of
       Inl e \<Rightarrow> (Inl e, s0)
     | Inr specs \<Rightarrow>
       (let s = set_default_size a (remember_buffer (access_key a) s0) in
        sbind (access_lines a specs (no_result (int (length specs))) s) (\<lambda>r s.
        (Inr r, s\<lparr>counters := (counters s)\<lparr>
           n_access_count := n_access_count (counters s) + 1\<rparr>\<rparr>))))"

text \<open>\<open>access_many\<close>: the sizes of the whole batch are checked before the first access.\<close>

fun check_batch :: "cache \<Rightarrow> cache_access list \<Rightarrow> (buffer_key \<rightharpoonup> int option) \<Rightarrow> cache_error + unit" where
  "check_batch s [] sizes = Inr ()"
| "check_batch s (a # as) sizes =
    (let bk = access_key a;
         sizes = (if sizes bk \<noteq> None then sizes
                  else sizes(bk \<mapsto> (case buffer_sizes s bk of
                         Some n \<Rightarrow> n | None \<Rightarrow> ca_buffer_size a)));
         bsize = the (sizes bk) in
     if ca_buffer_size a \<noteq> None \<and> bsize \<noteq> ca_buffer_size a then Inl fixed_size_error
     else if (case bsize of None \<Rightarrow> False | Some n \<Rightarrow> ca_offset a + ca_size a > n)
     then Inl remembered_range_error
     else check_batch s as sizes)"

fun access_each :: "cache_access list \<Rightarrow> cache \<Rightarrow> (cache_error + access_result list) \<times> cache" where
  "access_each [] s = (Inr [], s)"
| "access_each (a # as) s =
    sbind (access a s) (\<lambda>r s. sbind (access_each as s) (\<lambda>rs s. (Inr (r # rs), s)))"

definition access_many :: "cache_access list \<Rightarrow> cache \<Rightarrow> (cache_error + access_result list) \<times> cache" where
  "access_many as s =
    (case check_batch s as Map.empty of Inl e \<Rightarrow> (Inl e, s) | Inr _ \<Rightarrow> access_each as s)"

definition cache_read :: "string \<Rightarrow> int \<Rightarrow> int \<Rightarrow> int option \<Rightarrow> int \<Rightarrow> cache \<Rightarrow>
    (cache_error + access_result) \<times> cache" where
  "cache_read bid off n bsize gen s = (case make_cache_access bid off n Cache_Read bsize gen of
      Inl e \<Rightarrow> (Inl e, s) | Inr a \<Rightarrow> access a s)"

definition cache_write :: "string \<Rightarrow> int \<Rightarrow> int \<Rightarrow> int option \<Rightarrow> int \<Rightarrow> cache \<Rightarrow>
    (cache_error + access_result) \<times> cache" where
  "cache_write bid off n bsize gen s = (case make_cache_access bid off n Cache_Write bsize gen of
      Inl e \<Rightarrow> (Inl e, s) | Inr a \<Rightarrow> access a s)"

section \<open>Discarding, flushing and reading the state\<close>

text \<open>
  Python iterates over the set of keys in an unspecified order, here the ascending one;
  \<open>pop_lines_order\<close> below shows that every order leaves the same lines and indexes.
\<close>

definition pop_lines :: "line_key list \<Rightarrow> cache \<Rightarrow> cache" where
  "pop_lines ks s = fold (\<lambda>k s. snd (pop_line k s)) ks s"

definition discard_buffer :: "string \<Rightarrow> int \<Rightarrow> cache \<Rightarrow> cache" where
  "discard_buffer bid gen s0 =
    (let bk = (bid, gen);
         ks = (case buffer_line_keys s0 bk of None \<Rightarrow> {} | Some ks \<Rightarrow> ks);
         s = remember_buffer bk (pop_lines (sorted_list_of_set ks) s0) in
     s\<lparr>buffer_sizes := (buffer_sizes s)(bk := None)\<rparr>)"

record flush_result =
  fl_buffer :: "string option"
  flushed_lines :: int
  writeback_bytes :: int
  fl_backing :: "cache_access list"

definition flush_matches :: "string option \<Rightarrow> int option \<Rightarrow> line_key \<Rightarrow> cache_line \<Rightarrow> bool" where
  "flush_matches bid gen k l \<longleftrightarrow> (bid = None \<or> bid = Some (fst k)) \<and>
     (gen = None \<or> gen = Some (cl_generation l)) \<and> cl_dirty l"

definition line_clean :: "cache_line \<Rightarrow> cache_line" where
  "line_clean l = l\<lparr>cl_dirty := False\<rparr>"

fun flush_lines :: "string option \<Rightarrow> int option \<Rightarrow> (line_key \<times> cache_line) list \<Rightarrow> flush_result \<Rightarrow>
    cache \<Rightarrow> (cache_error + flush_result) \<times> cache" where
  "flush_lines bid gen [] r s = (Inr r, s)"
| "flush_lines bid gen ((k, l) # rest) r s =
    (if \<not> flush_matches bid gen k l then flush_lines bid gen rest r s
     else case line_writeback s l of
       Inl e \<Rightarrow> (Inl e, s)
     | Inr w \<Rightarrow> flush_lines bid gen rest
         (r\<lparr>flushed_lines := flushed_lines r + 1, writeback_bytes := writeback_bytes r + cl_size l,
            fl_backing := fl_backing r @ [w]\<rparr>)
         (set_line k (line_clean l) s))"

definition flush :: "string option \<Rightarrow> int option \<Rightarrow> cache \<Rightarrow> (cache_error + flush_result) \<times> cache" where
  "flush bid gen s0 =
    (if (case gen of None \<Rightarrow> False | Some g \<Rightarrow> g < 0)
     then (Inl (Cache_State_Error ''allocation_generation must be a non-negative integer or None''), s0)
     else if (case bid of None \<Rightarrow> False | Some b \<Rightarrow> strip b = [])
     then (Inl (Cache_State_Error ''buffer_id must be non-empty text or None''), s0)
     else
       let normalized = map_option strip bid in
       sbind (flush_lines normalized gen (cache_lines s0)
           \<lparr>fl_buffer = normalized, flushed_lines = 0, writeback_bytes = 0, fl_backing = []\<rparr> s0)
         (\<lambda>r s. (Inr r, s\<lparr>counters := (counters s)\<lparr>
            n_flush_writeback_bytes := n_flush_writeback_bytes (counters s) + writeback_bytes r\<rparr>\<rparr>)))"

definition resident_lines :: "cache \<Rightarrow> cache_line list" where
  "resident_lines s = map snd (cache_lines s)"

record cache_snapshot =
  sn_capacity_bytes :: int
  sn_line_bytes :: int
  sn_capacity_lines :: int
  sn_resident_lines :: int
  sn_resident_bytes :: int
  sn_dirty_lines :: int
  sn_dirty_bytes :: int
  sn_counters :: cache_counters
  sn_buffers :: "string list"

definition cache_snapshot_of :: "cache \<Rightarrow> cache_snapshot" where
  "cache_snapshot_of s =
    (let ls = map snd (cache_lines s) in
     \<lparr>sn_capacity_bytes = capacity_bytes s, sn_line_bytes = line_bytes s,
      sn_capacity_lines = capacity_lines s, sn_resident_lines = int (length ls),
      sn_resident_bytes = sum_list (map cl_size ls),
      sn_dirty_lines = int (length (filter cl_dirty ls)),
      sn_dirty_bytes = sum_list (map cl_size (filter cl_dirty ls)), sn_counters = counters s,
      sn_buffers = sorted_list_of_set (set (map cl_buffer ls))\<rparr>)"

section \<open>The LRU links\<close>

fun succ_in :: "'a list \<Rightarrow> 'a \<Rightarrow> 'a option" where
  "succ_in [] k = None"
| "succ_in (x # xs) k = (if x = k then (if xs = [] then None else Some (hd xs)) else succ_in xs k)"

definition opt_hd :: "'a list \<Rightarrow> 'a option" where
  "opt_hd xs = (if xs = [] then None else Some (hd xs))"

definition opt_last :: "'a list \<Rightarrow> 'a option" where
  "opt_last xs = (if xs = [] then None else Some (last xs))"

definition next_map :: "'a list \<Rightarrow> ('a \<rightharpoonup> 'a option)" where
  "next_map ks k = (if k \<in> set ks then Some (succ_in ks k) else None)"

definition prev_map :: "'a list \<Rightarrow> ('a \<rightharpoonup> 'a option)" where
  "prev_map ks = next_map (rev ks)"

definition keys_in :: "line_key list \<Rightarrow> buffer_key \<Rightarrow> line_key set" where
  "keys_in ks b = Set.filter (\<lambda>k. buffer_of k = b) (set ks)"

definition index_map :: "line_key list \<Rightarrow> (buffer_key \<rightharpoonup> line_key set)" where
  "index_map ks b = (if keys_in ks b = {} then None else Some (keys_in ks b))"

lemma keys_in_snoc: "keys_in (xs @ [k]) b = (if b = buffer_of k then insert k (keys_in xs b) else keys_in xs b)"
  by (auto simp: keys_in_def)

lemma keys_in_remove:
  "distinct (xs @ k # ys) \<Longrightarrow> keys_in (xs @ ys) b =
     (if b = buffer_of k then keys_in (xs @ k # ys) b - {k} else keys_in (xs @ k # ys) b)"
  by (auto simp: keys_in_def)

lemma keys_in_mid: "keys_in (xs @ k # ys) (buffer_of k) \<noteq> {}"
proof -
  have "k \<in> keys_in (xs @ k # ys) (buffer_of k)" by (simp add: keys_in_def)
  then show ?thesis by blast
qed

lemma succ_in_notin: "k \<notin> set xs \<Longrightarrow> succ_in xs k = None"
  by (induction xs) auto

lemma succ_in_split:
  "distinct (xs @ k # ys) \<Longrightarrow> succ_in (xs @ k # ys) j =
    (if j \<in> set xs then succ_in (xs @ [k]) j else succ_in (k # ys) j)"
  by (induction xs) (auto simp: hd_append)

lemma succ_in_mid: "distinct (xs @ k # ys) \<Longrightarrow> succ_in (xs @ k # ys) k = opt_hd ys"
  by (simp add: succ_in_split opt_hd_def)

lemma opt_last_rev: "opt_last (rev xs) = opt_hd xs" "opt_hd (rev xs) = opt_last xs"
  by (simp_all add: opt_last_def opt_hd_def hd_rev last_rev)

lemma next_map_remove:
  assumes "distinct (xs @ k # ys)"
  shows "next_map (xs @ ys) = link_next (opt_last xs) (opt_hd ys) ((next_map (xs @ k # ys))(k := None))"
proof
  fix j
  show "next_map (xs @ ys) j = link_next (opt_last xs) (opt_hd ys) ((next_map (xs @ k # ys))(k := None)) j"
  proof (cases xs rule: rev_exhaust)
    case Nil
    with assms show ?thesis by (auto simp: next_map_def link_next_def opt_last_def)
  next
    case (snoc zs p)
    have d: "distinct (zs @ p # ys)" "distinct (zs @ p # k # ys)" using assms snoc by auto
    show ?thesis unfolding snoc
      using succ_in_split [OF d(1), of j] succ_in_split [OF d(2), of j] d
      by (auto simp: next_map_def link_next_def opt_last_def opt_hd_def)
  qed
qed

lemma prev_map_remove:
  assumes "distinct (xs @ k # ys)"
  shows "prev_map (xs @ ys) = link_next (opt_hd ys) (opt_last xs) ((prev_map (xs @ k # ys))(k := None))"
  using next_map_remove [of "rev ys" k "rev xs"] assms
  by (simp add: prev_map_def opt_last_rev Int_commute)

lemma next_map_snoc:
  assumes "distinct (xs @ [k])"
  shows "next_map (xs @ [k]) = link_next (opt_last xs) (Some k) ((next_map xs)(k \<mapsto> None))"
proof
  fix j
  show "next_map (xs @ [k]) j = link_next (opt_last xs) (Some k) ((next_map xs)(k \<mapsto> None)) j"
  proof (cases xs rule: rev_exhaust)
    case Nil
    then show ?thesis by (simp add: next_map_def link_next_def opt_last_def)
  next
    case (snoc zs p)
    have d: "distinct (zs @ p # [k])" "distinct (zs @ p # [])" using assms snoc by auto
    show ?thesis unfolding snoc
      using succ_in_split [OF d(1), of j] succ_in_split [OF d(2), of j] d
      by (auto simp: next_map_def link_next_def opt_last_def)
  qed
qed

lemma prev_map_snoc:
  assumes "distinct (xs @ [k])"
  shows "prev_map (xs @ [k]) = (prev_map xs)(k \<mapsto> opt_last xs)"
  using assms by (auto simp: prev_map_def next_map_def fun_eq_iff opt_last_def hd_rev)

lemma index_map_snoc:
  "index_map (xs @ [k]) = (index_map xs)(buffer_of k \<mapsto>
     insert k (case index_map xs (buffer_of k) of None \<Rightarrow> {} | Some s \<Rightarrow> s))"
  by (rule ext) (simp add: index_map_def keys_in_snoc)

lemma index_map_remove:
  assumes "distinct (xs @ k # ys)"
  shows "index_map (xs @ ys) = (case index_map (xs @ k # ys) (buffer_of k) of
      None \<Rightarrow> index_map (xs @ k # ys)
    | Some ks \<Rightarrow> if ks - {k} = {} then (index_map (xs @ k # ys))(buffer_of k := None)
                 else (index_map (xs @ k # ys))(buffer_of k \<mapsto> ks - {k}))"
  by (rule ext)
    (simp only: index_map_def keys_in_remove [OF assms] keys_in_mid if_False option.case fun_upd_apply
      split: if_split; simp add: keys_in_mid)

lemma rebuild_loop_maps:
  "distinct (done @ ks) \<Longrightarrow> rebuild_loop (opt_last done) ks (prev_map done, next_map done, index_map done)
     = (prev_map (done @ ks), next_map (done @ ks), index_map (done @ ks))"
proof (induction ks arbitrary: "done")
  case (Cons k ks)
  have d: "distinct (done @ [k])" using Cons.prems by auto
  have "rebuild_loop (opt_last done) (k # ks) (prev_map done, next_map done, index_map done)
      = rebuild_loop (opt_last (done @ [k])) ks (prev_map (done @ [k]), next_map (done @ [k]), index_map (done @ [k]))"
    unfolding prev_map_snoc [OF d] next_map_snoc [OF d] index_map_snoc
    by (simp add: Let_def link_next_def opt_last_def)
  then show ?case using Cons.IH [of "done @ [k]"] Cons.prems by simp
qed simp

lemma maps_Nil: "prev_map [] = Map.empty" "next_map [] = Map.empty" "index_map [] = Map.empty"
  by (simp_all add: prev_map_def next_map_def index_map_def keys_in_def fun_eq_iff)

lemma rebuild_loop_all:
  "distinct ks \<Longrightarrow> rebuild_loop None ks (Map.empty, Map.empty, Map.empty)
     = (prev_map ks, next_map ks, index_map ks)"
  using rebuild_loop_maps [of "[]" ks]
  by (simp add: opt_last_def maps_Nil)

section \<open>The two mutations of the line dictionary\<close>

definition keys_of :: "cache \<Rightarrow> line_key list" where
  "keys_of s = map fst (cache_lines s)"

definition linked :: "cache \<Rightarrow> bool" where
  "linked s \<longleftrightarrow> wf_dict (cache_lines s) \<and> lru_prev s = prev_map (keys_of s)
     \<and> lru_next s = next_map (keys_of s) \<and> buffer_line_keys s = index_map (keys_of s)"

definition journal :: "line_key \<Rightarrow> cache \<Rightarrow> cache_tx option" where
  "journal k s = map_option (\<lambda>t. t\<lparr>tx_lines := tx_lines t @
     [(k, map_of (cache_lines s) k, case lru_next s k of None \<Rightarrow> None | Some n \<Rightarrow> n)]\<rparr>) (transaction s)"

lemma record_line_eq: "record_line k s = s\<lparr>transaction := journal k s\<rparr>"
  by (cases "transaction s") (simp_all add: record_line_def journal_def)

lemma delete_split:
  "k \<notin> fst ` set xs \<Longrightarrow> k \<notin> fst ` set ys \<Longrightarrow> AList.delete k (xs @ (k, v) # ys) = xs @ ys"
  by (induction xs) (auto simp: delete_notin map_of_eq_None_iff)

lemma update_absent: "map_of d k = None \<Longrightarrow> AList.update k v d = d @ [(k, v)]"
  by (induction d) (auto split: if_splits)

lemma update_split:
  "k \<notin> fst ` set xs \<Longrightarrow> AList.update k v (xs @ (k, w) # ys) = xs @ (k, v) # ys"
  by (induction xs) auto

lemma dict_split:
  assumes "wf_dict d" "map_of d k = Some v"
  obtains xs ys where "d = xs @ (k, v) # ys" "k \<notin> fst ` set xs" "k \<notin> fst ` set ys"
proof -
  have "(k, v) \<in> set d" using assms(2) by (rule map_of_SomeD)
  then obtain xs ys where "d = xs @ (k, v) # ys" by (meson split_list)
  with assms(1) that show ?thesis by (simp add: wf_dict_def)
qed

lemma pop_line_absent:
  "map_of (cache_lines s) k = None \<Longrightarrow> pop_line k s = (None, s\<lparr>transaction := journal k s\<rparr>)"
  by (simp add: pop_line_def record_line_eq Let_def)

lemma pop_line_present:
  assumes "linked s" "cache_lines s = xs @ (k, v) # ys"
  shows "pop_line k s = (Some v, s\<lparr>transaction := journal k s, cache_lines := xs @ ys,
    lru_prev := prev_map (map fst (xs @ ys)), lru_next := next_map (map fst (xs @ ys)),
    buffer_line_keys := index_map (map fst (xs @ ys))\<rparr>)"
proof -
  let ?xs = "map fst xs" and ?ys = "map fst ys"
  have d: "distinct (?xs @ k # ?ys)" using assms by (simp add: linked_def wf_dict_def)
  have ks: "keys_of s = ?xs @ k # ?ys" using assms(2) by (simp add: keys_of_def)
  have "distinct (map fst (cache_lines s))" using assms(1) by (simp add: linked_def wf_dict_def)
  then have look: "map_of (cache_lines s) k = Some v"
    by (rule map_of_is_SomeI) (simp add: assms(2))
  have del: "AList.delete k (cache_lines s) = xs @ ys"
    unfolding assms(2) using d by (intro delete_split) auto
  have nx: "lru_next s k = Some (opt_hd ?ys)" using assms(1) d
    by (simp add: linked_def ks next_map_def succ_in_mid)
  have "succ_in (rev ?ys @ k # rev ?xs) k = opt_hd (rev ?xs)"
    using d by (intro succ_in_mid) auto
  then have pv: "lru_prev s k = Some (opt_last ?xs)" using assms(1)
    by (simp add: linked_def ks prev_map_def next_map_def opt_last_rev)
  let ?idx = "case buffer_line_keys s (buffer_of k) of None \<Rightarrow> buffer_line_keys s
     | Some ks \<Rightarrow> if ks - {k} = {} then (buffer_line_keys s)(buffer_of k := None)
                 else (buffer_line_keys s)(buffer_of k \<mapsto> ks - {k})"
  have "pop_line k s = (Some v, s\<lparr>transaction := journal k s, cache_lines := xs @ ys,
      lru_prev := link_next (opt_hd ?ys) (opt_last ?xs) ((lru_prev s)(k := None)),
      lru_next := link_next (opt_last ?xs) (opt_hd ?ys) ((lru_next s)(k := None)),
      buffer_line_keys := ?idx\<rparr>)"
    by (cases "buffer_line_keys s (buffer_of k)")
      (simp_all add: pop_line_def record_line_eq Let_def look del nx pv)
  moreover have "lru_prev s = prev_map (?xs @ k # ?ys)" "lru_next s = next_map (?xs @ k # ?ys)"
    "buffer_line_keys s = index_map (?xs @ k # ?ys)"
    using assms(1) by (simp_all add: linked_def ks)
  ultimately show ?thesis
    unfolding map_append prev_map_remove [OF d] next_map_remove [OF d] index_map_remove [OF d]
    by (simp only:)
qed

lemma set_line_present:
  assumes "map_of (cache_lines s) k \<noteq> None"
  shows "set_line k v s = s\<lparr>transaction := journal k s, cache_lines := AList.update k v (cache_lines s)\<rparr>"
  using assms by (simp add: set_line_def record_line_eq Let_def)

lemma set_line_absent:
  assumes "linked s" "map_of (cache_lines s) k = None"
  shows "set_line k v s = s\<lparr>transaction := journal k s, cache_lines := cache_lines s @ [(k, v)],
    lru_prev := prev_map (keys_of s @ [k]), lru_next := next_map (keys_of s @ [k]),
    buffer_line_keys := index_map (keys_of s @ [k])\<rparr>"
proof -
  have d: "distinct (keys_of s @ [k])"
    using assms by (auto simp: linked_def wf_dict_def keys_of_def map_of_eq_None_iff)
  have last: "(if cache_lines s = [] then None else Some (fst (last (cache_lines s)))) = opt_last (keys_of s)"
    by (simp add: opt_last_def keys_of_def last_map)
  have "set_line k v s = s\<lparr>transaction := journal k s, cache_lines := cache_lines s @ [(k, v)],
      lru_prev := (lru_prev s)(k \<mapsto> opt_last (keys_of s)),
      lru_next := link_next (opt_last (keys_of s)) (Some k) ((lru_next s)(k \<mapsto> None)),
      buffer_line_keys := (buffer_line_keys s)(buffer_of k \<mapsto>
        insert k (case buffer_line_keys s (buffer_of k) of None \<Rightarrow> {} | Some ks \<Rightarrow> ks))\<rparr>"
    unfolding last [symmetric]
    by (simp add: set_line_def record_line_eq Let_def assms(2) update_absent [OF assms(2)] del: last)
  moreover have "lru_prev s = prev_map (keys_of s)" "lru_next s = next_map (keys_of s)"
    "buffer_line_keys s = index_map (keys_of s)"
    using assms(1) by (simp_all add: linked_def)
  ultimately show ?thesis
    unfolding prev_map_snoc [OF d] next_map_snoc [OF d] index_map_snoc by (simp only:)
qed

text \<open>What the two leave alone.\<close>

definition same_setup :: "cache \<Rightarrow> cache \<Rightarrow> bool" where
  "same_setup s s' \<longleftrightarrow> capacity_bytes s' = capacity_bytes s \<and> line_bytes s' = line_bytes s
     \<and> capacity_lines s' = capacity_lines s \<and> write_back s' = write_back s
     \<and> write_allocate s' = write_allocate s \<and> next_tx s' = next_tx s"

lemma same_setup_refl [simp]: "same_setup s s"
  by (simp add: same_setup_def)

lemma same_setup_trans [trans]: "same_setup s t \<Longrightarrow> same_setup t u \<Longrightarrow> same_setup s u"
  by (simp add: same_setup_def)

lemma pop_line_props:
  assumes "linked s"
  shows "fst (pop_line k s) = map_of (cache_lines s) k"
    "cache_lines (snd (pop_line k s)) = AList.delete k (cache_lines s)"
    "linked (snd (pop_line k s))" "same_setup s (snd (pop_line k s))"
    "transaction (snd (pop_line k s)) = journal k s"
    "buffer_sizes (snd (pop_line k s)) = buffer_sizes s" "counters (snd (pop_line k s)) = counters s"
proof (atomize (full), goal_cases)
  case 1
  show ?case
  proof (cases "map_of (cache_lines s) k")
    case None
    then show ?thesis using assms
      by (simp add: pop_line_absent delete_notin linked_def keys_of_def same_setup_def)
  next
    case (Some v)
    have wf: "wf_dict (cache_lines s)" using assms by (simp add: linked_def)
    obtain xs ys where sp: "cache_lines s = xs @ (k, v) # ys" and n: "k \<notin> fst ` set xs" "k \<notin> fst ` set ys"
      by (rule dict_split [OF wf Some])
    from wf sp have "wf_dict (xs @ ys)" by (simp add: wf_dict_def)
    moreover have "AList.delete k (cache_lines s) = xs @ ys" unfolding sp by (rule delete_split [OF n])
    ultimately show ?thesis unfolding pop_line_present [OF assms sp]
      by (simp add: Some linked_def keys_of_def same_setup_def)
  qed
qed

lemma set_line_props:
  assumes "linked s"
  shows "cache_lines (set_line k v s) = AList.update k v (cache_lines s)"
    "linked (set_line k v s)" "same_setup s (set_line k v s)"
    "transaction (set_line k v s) = journal k s"
    "buffer_sizes (set_line k v s) = buffer_sizes s" "counters (set_line k v s) = counters s"
proof (atomize (full), goal_cases)
  case 1
  have wf: "wf_dict (cache_lines s)" using assms by (simp add: linked_def)
  show ?case
  proof (cases "map_of (cache_lines s) k")
    case None
    then have "wf_dict (cache_lines s @ [(k, v)])" using wf by (auto simp: wf_dict_def map_of_eq_None_iff)
    then show ?thesis unfolding set_line_absent [OF assms None] update_absent [OF None]
      by (simp add: linked_def keys_of_def same_setup_def)
  next
    case (Some w)
    obtain xs ys where "cache_lines s = xs @ (k, w) # ys" "k \<notin> fst ` set xs"
      by (rule dict_split [OF wf Some])
    then have "map fst (AList.update k v (cache_lines s)) = map fst (cache_lines s)"
      by (simp add: update_split)
    moreover have "map_of (cache_lines s) k \<noteq> None" using Some by simp
    note set_line_present [OF this, of v]
    ultimately show ?thesis using assms wf
      by (simp add: linked_def keys_of_def same_setup_def)
  qed
qed

lemma linked_counters [simp]: "linked (s\<lparr>counters := c\<rparr>) = linked s"
  and linked_sizes [simp]: "linked (s\<lparr>buffer_sizes := m\<rparr>) = linked s"
  and linked_tx [simp]: "linked (s\<lparr>transaction := t\<rparr>) = linked s"
  by (simp_all add: linked_def keys_of_def)

section \<open>The journal undoes\<close>

lemma fold_update_fresh:
  assumes "distinct (map fst (acc @ zs))" "n \<notin> fst ` set zs"
  shows "foldl (\<lambda>restored (ck, cl). AList.update ck cl
      (if ck = n then AList.update k line restored else restored)) acc zs = acc @ zs"
  using assms
proof (induction zs arbitrary: acc)
  case (Cons z zs)
  obtain ck cl where z: "z = (ck, cl)" by (cases z)
  have "AList.update ck cl acc = acc @ [(ck, cl)]"
    using Cons.prems z by (intro update_absent) (auto simp: map_of_eq_None_iff)
  then show ?case using Cons.IH [of "acc @ [(ck, cl)]"] Cons.prems z by auto
qed simp

lemma fold_insert_before:
  assumes "distinct (map fst (xs @ (n, w) # ys))" "k \<notin> fst ` set (xs @ (n, w) # ys)"
  shows "foldl (\<lambda>restored (ck, cl). AList.update ck cl
      (if ck = n then AList.update k line restored else restored)) [] (xs @ (n, w) # ys)
      = xs @ (k, line) # (n, w) # ys"
proof -
  let ?f = "\<lambda>restored (ck, cl). AList.update ck cl
      (if ck = n then AList.update k line restored else restored)"
  have "foldl ?f [] xs = xs" using fold_update_fresh [of "[]" xs n k line] assms(1) by simp
  moreover have "AList.update k line xs = xs @ [(k, line)]"
    using assms(2) by (intro update_absent) (auto simp: map_of_eq_None_iff)
  moreover have "AList.update n w (xs @ [(k, line)]) = xs @ [(k, line), (n, w)]"
    using assms by (subst update_absent) (auto simp: map_of_eq_None_iff)
  ultimately have "foldl ?f [] (xs @ (n, w) # ys) = foldl ?f (xs @ [(k, line), (n, w)]) ys" by simp
  also have "\<dots> = (xs @ [(k, line), (n, w)]) @ ys"
    using assms by (intro fold_update_fresh) auto
  finally show ?thesis by simp
qed

lemma undo_line_present:
  assumes "linked s" "map_of (cache_lines s) k = Some v"
  shows "undo_line (k, Some v, case lru_next s k of None \<Rightarrow> None | Some n \<Rightarrow> n)
    (AList.delete k (cache_lines s)) = cache_lines s"
proof -
  have wf: "wf_dict (cache_lines s)" using assms(1) by (simp add: linked_def)
  obtain xs ys where sp: "cache_lines s = xs @ (k, v) # ys" "k \<notin> fst ` set xs" "k \<notin> fst ` set ys"
    by (rule dict_split [OF wf assms(2)])
  have d: "distinct (map fst xs @ k # map fst ys)" using wf sp by (simp add: wf_dict_def)
  have del: "AList.delete k (cache_lines s) = xs @ ys" unfolding sp(1) by (rule delete_split [OF sp(2,3)])
  have nx: "lru_next s k = Some (opt_hd (map fst ys))"
    using assms(1) d by (simp add: linked_def keys_of_def sp(1) next_map_def succ_in_mid)
  have dd: "AList.delete k (xs @ ys) = xs @ ys" using sp(2,3) by (intro delete_notin) (auto simp: map_of_eq_None_iff)
  have fresh: "map_of (xs @ ys) k = None" using sp(2,3) by (auto simp: map_of_eq_None_iff)
  show ?thesis
  proof (cases ys)
    case Nil
    then show ?thesis using nx del dd fresh sp(1)
      by (simp add: undo_line_def opt_hd_def Let_def update_absent)
  next
    case (Cons y ys')
    obtain n w where y: "y = (n, w)" by (cases y)
    have "map_of (xs @ ys) n \<noteq> None" using Cons y by (auto simp: map_of_eq_None_iff)
    moreover have "foldl (\<lambda>restored (ck, cl). AList.update ck cl
      (if ck = n then AList.update k v restored else restored)) [] (xs @ ys) = xs @ (k, v) # ys"
      unfolding Cons y using wf sp Cons y by (intro fold_insert_before) (auto simp: wf_dict_def)
    ultimately show ?thesis using nx del dd sp(1) Cons y
      by (simp add: undo_line_def opt_hd_def Let_def)
  qed
qed

lemma undo_delete: "undo_line (k, old, n) (AList.delete k d) = undo_line (k, old, n) d"
proof -
  have "AList.delete k (AList.delete k d) = AList.delete k d" by (induction d) auto
  then show ?thesis by (simp only: undo_line_def prod.case)
qed

lemma delete_update: "AList.delete k (AList.update k v d) = AList.delete k d"
  by (induction d) auto

lemma undo_pop_set:
  assumes "linked s"
  shows "undo_line (k, map_of (cache_lines s) k, case lru_next s k of None \<Rightarrow> None | Some n \<Rightarrow> n)
    (AList.delete k (cache_lines s)) = cache_lines s"
    and "undo_line (k, map_of (cache_lines s) k, case lru_next s k of None \<Rightarrow> None | Some n \<Rightarrow> n)
    (AList.update k v (cache_lines s)) = cache_lines s"
proof -
  show 1: "undo_line (k, map_of (cache_lines s) k, case lru_next s k of None \<Rightarrow> None | Some n \<Rightarrow> n)
    (AList.delete k (cache_lines s)) = cache_lines s"
  proof (cases "map_of (cache_lines s) k")
    case None
    then show ?thesis by (simp add: undo_line_def delete_notin)
  next
    case (Some w)
    then show ?thesis using undo_line_present [OF assms] by simp
  qed
  then show "undo_line (k, map_of (cache_lines s) k, case lru_next s k of None \<Rightarrow> None | Some n \<Rightarrow> n)
    (AList.update k v (cache_lines s)) = cache_lines s"
    by (metis delete_update undo_delete)
qed

text \<open>
  The elementary changes that every operation of the cache is composed of.
\<close>

inductive micro :: "cache \<Rightarrow> cache \<Rightarrow> bool" where
  micro_pop: "micro s (snd (pop_line k s))"
| micro_set: "micro s (set_line k v s)"
| micro_count: "micro s (s\<lparr>counters := c\<rparr>)"
| micro_remember: "micro s (remember_buffer b s)"
| micro_size: "micro s ((remember_buffer b s)\<lparr>buffer_sizes := (buffer_sizes s)(b := v)\<rparr>)"

inductive_cases microE: "micro s s'"

definition undoes :: "cache \<Rightarrow> cache \<Rightarrow> bool" where
  "undoes s0 s \<longleftrightarrow> linked s \<and> same_setup s0 s \<and>
     (\<exists>t. transaction s = Some t \<and> tx_id t = next_tx s0 - 1 \<and> tx_scalars t = counters s0 \<and>
       fold undo_line (rev (tx_lines t)) (cache_lines s) = cache_lines s0 \<and>
       tx_seen t = fst ` set (tx_buffers t) \<and>
       (\<forall>(b, v) \<in> set (tx_buffers t). v = buffer_sizes s0 b) \<and>
       (\<forall>b. b \<notin> tx_seen t \<longrightarrow> buffer_sizes s b = buffer_sizes s0 b))"

lemma remember_buffer_props:
  "cache_lines (remember_buffer b s) = cache_lines s" "linked (remember_buffer b s) = linked s"
  "same_setup s (remember_buffer b s)" "buffer_sizes (remember_buffer b s) = buffer_sizes s"
  "counters (remember_buffer b s) = counters s"
  by (simp_all add: remember_buffer_def same_setup_def split: option.split)

lemma undoes_remember:
  assumes "undoes s0 s"
  shows "undoes s0 ((remember_buffer b s)\<lparr>buffer_sizes := (buffer_sizes s)(b := v)\<rparr>)"
    "undoes s0 (remember_buffer b s)"
proof -
  from assms obtain t where t: "transaction s = Some t" "tx_id t = next_tx s0 - 1"
      "tx_scalars t = counters s0" "fold undo_line (rev (tx_lines t)) (cache_lines s) = cache_lines s0"
    and seen: "tx_seen t = fst ` set (tx_buffers t)"
      "\<And>b v. (b, v) \<in> set (tx_buffers t) \<Longrightarrow> v = buffer_sizes s0 b"
      "\<And>b. b \<notin> tx_seen t \<Longrightarrow> buffer_sizes s b = buffer_sizes s0 b"
    and lk: "linked s" "same_setup s0 s"
    unfolding undoes_def by blast
  let ?t = "if b \<in> tx_seen t then t else t\<lparr>tx_seen := insert b (tx_seen t),
          tx_buffers := tx_buffers t @ [(b, buffer_sizes s b)]\<rparr>"
  have r: "remember_buffer b s = s\<lparr>transaction := Some ?t\<rparr>"
    using t(1) by (cases s) (simp add: remember_buffer_def)
  define u where "u = ?t"
  have t6: "\<forall>(d, v) \<in> set (tx_buffers u). v = buffer_sizes s0 d"
    using seen unfolding u_def by (cases "b \<in> tx_seen t") auto
  have t5: "b \<in> tx_seen u" "\<And>d. d \<notin> tx_seen u \<Longrightarrow> d \<notin> tx_seen t"
    unfolding u_def by (cases "b \<in> tx_seen t"; simp)+
  have t7: "\<forall>d. d \<notin> tx_seen u \<longrightarrow> ((buffer_sizes s)(b := v)) d = buffer_sizes s0 d"
    "\<forall>d. d \<notin> tx_seen u \<longrightarrow> buffer_sizes s d = buffer_sizes s0 d"
    using t5 seen(3) by auto
  have tt: "tx_id u = next_tx s0 - 1" "tx_scalars u = counters s0" "tx_lines u = tx_lines t"
    "tx_seen u = fst ` set (tx_buffers u)"
    using t seen(1) unfolding u_def by (cases "b \<in> tx_seen t"; simp)+
  note r = r [folded u_def]
  show "undoes s0 ((remember_buffer b s)\<lparr>buffer_sizes := (buffer_sizes s)(b := v)\<rparr>)"
    unfolding undoes_def r using lk t(4) tt t6 t7(1) by (simp add: same_setup_def)
  show "undoes s0 (remember_buffer b s)"
    unfolding undoes_def r using lk t(4) tt t6 t7(2) by (simp add: same_setup_def)
qed

lemma undoes_micro:
  assumes "undoes s0 s" "micro s s'"
  shows "undoes s0 s'"
  using assms(2)
proof cases
  case (micro_pop k)
  note p = pop_line_props [of s k] and lk = assms(1) [unfolded undoes_def]
  from lk obtain t where t: "transaction s = Some t" by blast
  have "undo_line (k, map_of (cache_lines s) k, case lru_next s k of None \<Rightarrow> None | Some n \<Rightarrow> n)
    (AList.delete k (cache_lines s)) = cache_lines s" using lk by (intro undo_pop_set) blast
  then show ?thesis unfolding micro_pop undoes_def using p lk t
    by (auto simp: journal_def same_setup_def)
next
  case (micro_set k v)
  note p = set_line_props [of s k v] and lk = assms(1) [unfolded undoes_def]
  from lk obtain t where t: "transaction s = Some t" by blast
  have "undo_line (k, map_of (cache_lines s) k, case lru_next s k of None \<Rightarrow> None | Some n \<Rightarrow> n)
    (AList.update k v (cache_lines s)) = cache_lines s" using lk by (intro undo_pop_set) blast
  then show ?thesis unfolding micro_set undoes_def using p lk t
    by (auto simp: journal_def same_setup_def)
next
  case (micro_count c)
  then show ?thesis using assms(1) by (simp add: undoes_def same_setup_def)
qed (use undoes_remember [OF assms(1)] in simp_all)

lemma undoes_begin:
  assumes "linked s" "begin_transaction s = (Inr h, s')"
  shows "h = Some (next_tx s)" "transaction s = None" "undoes (s\<lparr>next_tx := Suc (next_tx s)\<rparr>) s'"
  using assms by (auto simp: begin_transaction_def undoes_def same_setup_def linked_def keys_of_def
      split: if_splits)

lemma undoes_run: "micro\<^sup>*\<^sup>* s s' \<Longrightarrow> undoes s0 s \<Longrightarrow> undoes s0 s'"
  by (induction rule: rtranclp_induct) (auto intro: undoes_micro)

lemma fold_undo_sizes:
  assumes "\<forall>(b, v) \<in> set es. v = m0 b" "\<forall>b. b \<notin> fst ` set es \<longrightarrow> m b = m0 b"
  shows "fold undo_size es m = m0"
  using assms
proof (induction es arbitrary: m)
  case (Cons e es)
  obtain b v where e: "e = (b, v)" by (cases e)
  have "fold undo_size es (m(b := v)) = m0"
    using Cons.prems e by (intro Cons.IH) auto
  moreover have "undo_size e m = m(b := v)" by (simp add: e undo_size_def)
  ultimately show ?case by (simp only: fold_simps)
qed auto

lemma rollback_undoes:
  assumes "undoes s0 s" "linked s0"
  shows "rollback_transaction (Some (next_tx s0 - 1)) s = (Inr (), s0\<lparr>transaction := None\<rparr>)"
proof -
  from assms(1) obtain t where t: "transaction s = Some t" "tx_id t = next_tx s0 - 1"
      "tx_scalars t = counters s0" "fold undo_line (rev (tx_lines t)) (cache_lines s) = cache_lines s0"
    and seen: "tx_seen t = fst ` set (tx_buffers t)"
      "\<forall>(b, v) \<in> set (tx_buffers t). v = buffer_sizes s0 b"
      "\<forall>b. b \<notin> tx_seen t \<longrightarrow> buffer_sizes s b = buffer_sizes s0 b"
    and lk: "same_setup s0 s"
    unfolding undoes_def by blast
  have sizes: "fold undo_size (rev (tx_buffers t)) (buffer_sizes s) = buffer_sizes s0"
    using seen by (intro fold_undo_sizes) auto
  have d: "distinct (map fst (cache_lines s0))" using assms(2) by (simp add: linked_def wf_dict_def)
  have links: "lru_prev s0 = prev_map (map fst (cache_lines s0))" "lru_next s0 = next_map (map fst (cache_lines s0))"
    "buffer_line_keys s0 = index_map (map fst (cache_lines s0))"
    using assms(2) by (simp_all add: linked_def keys_of_def)
  have "rebuild_lru_links (s\<lparr>cache_lines := cache_lines s0, buffer_sizes := buffer_sizes s0,
      counters := counters s0\<rparr>) = s\<lparr>cache_lines := cache_lines s0, buffer_sizes := buffer_sizes s0,
      counters := counters s0, lru_prev := lru_prev s0, lru_next := lru_next s0,
      buffer_line_keys := buffer_line_keys s0\<rparr>"
    by (simp add: rebuild_lru_links_def rebuild_loop_all [OF d] links)
  then have "rollback_transaction (Some (next_tx s0 - 1)) s =
      (Inr (), s\<lparr>cache_lines := cache_lines s0, buffer_sizes := buffer_sizes s0,
      counters := counters s0, lru_prev := lru_prev s0, lru_next := lru_next s0,
      buffer_line_keys := buffer_line_keys s0, transaction := None\<rparr>)"
    using t sizes by (simp add: rollback_transaction_def Let_def)
  also have "\<dots> = (Inr (), s0\<lparr>transaction := None\<rparr>)"
    using lk by (auto intro!: cache.equality simp: same_setup_def)
  finally show ?thesis .
qed

section \<open>Every operation is a run of elementary changes\<close>

lemma micro_run_trans: "micro\<^sup>*\<^sup>* s t \<Longrightarrow> micro\<^sup>*\<^sup>* t u \<Longrightarrow> micro\<^sup>*\<^sup>* s u"
  by (rule rtranclp_trans)

lemma run_pop: "micro\<^sup>*\<^sup>* s (snd (pop_line k s))"
  and run_set: "micro\<^sup>*\<^sup>* s (set_line k v s)"
  and run_count: "micro\<^sup>*\<^sup>* s (s\<lparr>counters := c\<rparr>)"
  by (simp_all add: r_into_rtranclp micro.intros)

lemma run_write_through: "micro\<^sup>*\<^sup>* s (snd (write_through a off n r s))"
  by (simp add: write_through_def Let_def run_count split: sum.split)

lemma run_sbind:
  assumes "micro\<^sup>*\<^sup>* s (snd x)" "\<And>v t. x = (Inr v, t) \<Longrightarrow> micro\<^sup>*\<^sup>* t (snd (f v t))"
  shows "micro\<^sup>*\<^sup>* s (snd (sbind x f))"
proof (cases "fst x")
  case (Inl e)
  then show ?thesis using assms(1) by (simp add: sbind_def)
next
  case (Inr v)
  then have "sbind x f = f v (snd x)" "x = (Inr v, snd x)" by (simp_all add: sbind_def prod_eq_iff)
  then show ?thesis using assms by (metis micro_run_trans)
qed

lemma run_hit_line: "micro\<^sup>*\<^sup>* s (snd (hit_line a spec line r s))"
proof -
  obtain key physical covered full where sp: "spec = (key, physical, covered, full)" by (cases spec)
  let ?s = "s\<lparr>counters := (counters s)\<lparr>n_hit_lines := n_hit_lines (counters s) + 1\<rparr>\<rparr>"
  have "micro\<^sup>*\<^sup>* ?s (snd (hit_line a spec line r s))"
    unfolding hit_line_def sp prod.case Let_def
    by (auto intro!: run_sbind run_set run_write_through)
  then show ?thesis by (rule micro_run_trans [OF run_count])
qed

lemma run_bypass_line: "micro\<^sup>*\<^sup>* s (snd (bypass_line a spec r s))"
  by (cases spec) (simp add: bypass_line_def Let_def run_count split: sum.split)

lemma run_evict_one: "micro\<^sup>*\<^sup>* s (snd (evict_one s))"
proof (cases "cache_lines s")
  case (Cons p ps)
  obtain k l where p: "p = (k, l)" by (cases p)
  obtain v t where v: "pop_line k s = (v, t)" by (cases "pop_line k s")
  have t: "micro\<^sup>*\<^sup>* s t" using run_pop [of s k] v by simp
  show ?thesis using Cons p v t
    by (auto simp: evict_one_def Let_def split: option.split intro: micro_run_trans [OF _ run_count])
qed (simp add: evict_one_def)

lemma run_ensure_slot: "micro\<^sup>*\<^sup>* s (snd (ensure_slot r s))"
  unfolding ensure_slot_def
  by (auto intro!: run_sbind run_evict_one split: sum.split)

lemma run_fill_line: "micro\<^sup>*\<^sup>* s (snd (fill_line a off n r s))"
  by (simp add: fill_line_def Let_def run_count split: sum.split)

lemma run_alloc_line: "micro\<^sup>*\<^sup>* s (snd (alloc_line a spec r s))"
proof -
  obtain key physical covered full where sp: "spec = (key, physical, covered, full)" by (cases spec)
  show ?thesis unfolding alloc_line_def sp prod.case Let_def
    by (intro run_sbind run_ensure_slot)
      (auto intro: run_fill_line run_set micro_run_trans [OF run_set run_write_through])
qed

lemma run_access_line: "micro\<^sup>*\<^sup>* s (snd (access_line a spec r s))"
proof -
  obtain v t where v: "pop_line (fst spec) s = (v, t)" by (cases "pop_line (fst spec) s")
  have t: "micro\<^sup>*\<^sup>* s t" using run_pop [of s "fst spec"] v by simp
  let ?t = "t\<lparr>counters := (counters t)\<lparr>n_miss_lines := n_miss_lines (counters t) + 1\<rparr>\<rparr>"
  have "micro\<^sup>*\<^sup>* t (snd (access_line a spec r s))" if "v = None"
    unfolding access_line_def v prod.case that option.case Let_def
    by (rule micro_run_trans [OF run_count]) (auto intro: run_bypass_line run_alloc_line)
  moreover have "micro\<^sup>*\<^sup>* t (snd (access_line a spec r s))" if "v = Some l" for l
    unfolding access_line_def v prod.case that option.case by (rule run_hit_line)
  ultimately show ?thesis using t by (cases v) (auto intro: micro_run_trans)
qed

lemma run_access_lines: "micro\<^sup>*\<^sup>* s (snd (access_lines a specs r s))"
proof (induction specs arbitrary: r s)
  case (Cons spec specs)
  show ?case unfolding access_lines.simps by (intro run_sbind run_access_line Cons.IH)
qed simp

lemma run_remember_default: "micro\<^sup>*\<^sup>* s (set_default_size a (remember_buffer b s))" if "b = access_key a"
proof (cases "buffer_sizes s b")
  case None
  have "set_default_size a (remember_buffer b s) =
      (remember_buffer b s)\<lparr>buffer_sizes := (buffer_sizes s)(b := Some (ca_buffer_size a))\<rparr>"
    using None that by (simp add: set_default_size_def remember_buffer_props)
  then show ?thesis by (simp add: r_into_rtranclp micro_size)
next
  case (Some n)
  then show ?thesis using that
    by (simp add: set_default_size_def remember_buffer_props r_into_rtranclp micro_remember)
qed

lemma run_access: "micro\<^sup>*\<^sup>* s (snd (access a s))"
proof (cases "line_specs s a")
  case (Inr specs)
  show ?thesis unfolding access_def Inr sum.case Let_def
    by (rule micro_run_trans [OF run_remember_default [OF refl]])
      (auto intro!: run_sbind run_access_lines run_count)
qed (simp add: access_def)

lemma run_access_each: "micro\<^sup>*\<^sup>* s (snd (access_each as s))"
proof (induction as arbitrary: s)
  case (Cons a as)
  show ?case unfolding access_each.simps by (auto intro!: run_sbind run_access Cons.IH)
qed simp

lemma run_access_many: "micro\<^sup>*\<^sup>* s (snd (access_many as s))"
  by (simp add: access_many_def run_access_each split: sum.split)

lemma run_pop_lines: "micro\<^sup>*\<^sup>* s (pop_lines ks s)"
  by (induction ks arbitrary: s) (auto simp: pop_lines_def intro: micro_run_trans [OF run_pop])

lemma run_discard: "micro\<^sup>*\<^sup>* s (discard_buffer b g s)"
proof -
  let ?t = "pop_lines (sorted_list_of_set (case buffer_line_keys s (b, g) of None \<Rightarrow> {} | Some ks \<Rightarrow> ks)) s"
  have "discard_buffer b g s =
      (remember_buffer (b, g) ?t)\<lparr>buffer_sizes := (buffer_sizes ?t)((b, g) := None)\<rparr>"
    by (simp add: discard_buffer_def Let_def remember_buffer_props)
  then have "micro ?t (discard_buffer b g s)" by (simp only: micro_size)
  with run_pop_lines show ?thesis by (rule rtranclp.rtrancl_into_rtrancl)
qed

lemma run_flush_lines: "micro\<^sup>*\<^sup>* s (snd (flush_lines b g ls r s))"
proof (induction ls arbitrary: r s)
  case (Cons p ls)
  obtain k l where p: "p = (k, l)" by (cases p)
  show ?case unfolding p
    by (auto simp: Cons.IH split: sum.split intro: micro_run_trans [OF run_set Cons.IH])
qed simp

lemma run_flush: "micro\<^sup>*\<^sup>* s (snd (flush b g s))"
  unfolding flush_def Let_def by (auto intro!: run_sbind run_flush_lines run_count)

lemmas cache_runs = run_access run_access_many run_discard run_flush

section \<open>The invariant\<close>

definition line_extent :: "int \<Rightarrow> int option \<Rightarrow> int \<Rightarrow> int" where
  "line_extent lb bs i = (case bs of None \<Rightarrow> lb | Some n \<Rightarrow> min (i * lb + lb) n - i * lb)"

definition line_ok :: "cache \<Rightarrow> line_key \<times> cache_line \<Rightarrow> bool" where
  "line_ok s p \<longleftrightarrow> cl_key (snd p) = fst p \<and> fst (fst p) \<noteq> [] \<and> strip (fst (fst p)) = fst (fst p)
     \<and> 0 \<le> fst (snd (fst p)) \<and> 0 \<le> snd (snd (fst p)) \<and> 0 < cl_size (snd p)
     \<and> (\<exists>bs. buffer_sizes s (buffer_of (fst p)) = Some bs
          \<and> cl_size (snd p) = line_extent (line_bytes s) bs (snd (snd (fst p))))"

definition cache_inv :: "cache \<Rightarrow> bool" where
  "cache_inv s \<longleftrightarrow> linked s \<and> 0 < line_bytes s \<and> 0 < capacity_lines s
     \<and> capacity_bytes s = capacity_lines s * line_bytes s
     \<and> int (length (cache_lines s)) \<le> capacity_lines s \<and> (\<forall>p \<in> set (cache_lines s). line_ok s p)"

lemma line_ok_cong:
  "buffer_sizes s' = buffer_sizes s \<Longrightarrow> line_bytes s' = line_bytes s \<Longrightarrow> line_ok s' p = line_ok s p"
  by (simp add: line_ok_def)

lemma cache_inv_intro:
  assumes "cache_inv s" "linked s'" "same_setup s s'" "buffer_sizes s' = buffer_sizes s"
    "\<forall>p \<in> set (cache_lines s'). line_ok s p" "int (length (cache_lines s')) \<le> capacity_lines s"
  shows "cache_inv s'"
proof -
  have "line_ok s' p = line_ok s p" for p using assms(3,4) by (intro line_ok_cong) (simp_all add: same_setup_def)
  then show ?thesis using assms by (simp add: cache_inv_def same_setup_def)
qed

lemma make_cache_access_ok:
  assumes "strip b = b" "b \<noteq> []" "0 \<le> off" "0 < n" "0 \<le> g" "\<And>m. bs = Some m \<Longrightarrow> off + n \<le> m"
  shows "make_cache_access b off n op bs g = Inr \<lparr>ca_buffer = b, ca_offset = off, ca_size = n,
    ca_op = op, ca_buffer_size = bs, ca_generation = g\<rparr>"
proof (cases bs)
  case (Some m)
  then show ?thesis using assms(6) [OF Some] assms(1-5) by (simp add: make_cache_access_def)
qed (use assms in \<open>simp add: make_cache_access_def\<close>)

lemma line_writeback_ok:
  assumes "line_ok s (k, l)" "0 < line_bytes s"
  obtains bs where "line_writeback s l = Inr \<lparr>ca_buffer = fst k, ca_offset = snd (snd k) * line_bytes s,
    ca_size = cl_size l, ca_op = Cache_Write, ca_buffer_size = bs, ca_generation = fst (snd k)\<rparr>"
proof -
  from assms(1) obtain bs where bs: "buffer_sizes s (buffer_of k) = Some bs"
      "cl_size l = line_extent (line_bytes s) bs (snd (snd k))" by (auto simp: line_ok_def)
  have k: "cl_buffer l = fst k" "cl_generation l = fst (snd k)" "cl_index l = snd (snd k)"
      "buffer_of k = (cl_buffer l, cl_generation l)"
    using assms(1) by (auto simp: line_ok_def cl_key_def buffer_of_def)
  have "0 \<le> snd (snd k) * line_bytes s" using assms by (simp add: line_ok_def)
  then have "line_writeback s l = Inr \<lparr>ca_buffer = fst k, ca_offset = snd (snd k) * line_bytes s,
    ca_size = cl_size l, ca_op = Cache_Write, ca_buffer_size = bs, ca_generation = fst (snd k)\<rparr>"
    unfolding line_writeback_def k(1-3) bs(1) [unfolded buffer_of_def] option.case
    using assms(1) bs(2) by (intro make_cache_access_ok) (auto simp: line_ok_def line_extent_def)
  then show ?thesis by (rule that)
qed

definition op_bytes :: "cache_op \<Rightarrow> cache_access list \<Rightarrow> int" where
  "op_bytes op bs = sum_list (map ca_size (filter (\<lambda>b. ca_op b = op) bs))"

lemma op_bytes_simps [simp]:
  "op_bytes op [] = 0" "op_bytes op (bs @ cs) = op_bytes op bs + op_bytes op cs"
  "op_bytes op (b # bs) = (if ca_op b = op then ca_size b else 0) + op_bytes op bs"
  by (simp_all add: op_bytes_def)

text \<open>
  Every operation keeps the differences between the traffic it lists, the totals it reports
  and the counters of the cache.
\<close>

definition book_gap :: "access_result \<Rightarrow> cache \<Rightarrow> int list" where
  "book_gap r s = [op_bytes Cache_Read (backing_accesses r) - read_fill_bytes r,
     op_bytes Cache_Write (backing_accesses r) - backing_write_bytes r,
     n_hit_lines (counters s) - hit_lines r, n_miss_lines (counters s) - miss_lines r,
     n_eviction_lines (counters s) - evicted_lines r,
     n_dirty_eviction_bytes (counters s) - dirty_eviction_bytes r,
     n_write_through_bytes (counters s) - write_through_bytes r,
     n_bypass_write_bytes (counters s) - bypass_write_bytes r,
     n_read_fill_bytes (counters s) - read_fill_bytes r, touched_lines r,
     n_access_count (counters s), n_flush_writeback_bytes (counters s)]"

text \<open>A line that is dirty with a number of bytes, and a write of a line's bytes to its backing.\<close>

definition dirty_at :: "cache \<Rightarrow> line_key \<Rightarrow> int \<Rightarrow> bool" where
  "dirty_at s k n \<longleftrightarrow> (\<exists>l. map_of (cache_lines s) k = Some l \<and> cl_dirty l \<and> cl_size l = n)"

definition written_back :: "int \<Rightarrow> cache_access list \<Rightarrow> line_key \<Rightarrow> int \<Rightarrow> bool" where
  "written_back lb bs k n \<longleftrightarrow> (\<exists>w \<in> set bs. ca_op w = Cache_Write \<and> (ca_buffer w, ca_generation w) = buffer_of k
     \<and> ca_offset w = snd (snd k) * lb \<and> ca_size w = n)"

definition spec_ok :: "cache \<Rightarrow> cache_access \<Rightarrow> spec_row \<Rightarrow> bool" where
  "spec_ok s a spec \<longleftrightarrow> (case spec of (k, physical, covered, full) \<Rightarrow>
     buffer_of k = access_key a \<and> ca_buffer a \<noteq> [] \<and> strip (ca_buffer a) = ca_buffer a \<and>
     0 \<le> ca_generation a \<and> 0 \<le> snd (snd k) \<and> 0 \<le> ca_offset a \<and>
     0 < covered \<and> covered \<le> physical \<and>
     max (ca_offset a) (snd (snd k) * line_bytes s) + covered \<le> snd (snd k) * line_bytes s + physical \<and>
     (full \<longleftrightarrow> covered = physical) \<and>
     (\<exists>bs. buffer_sizes s (access_key a) = Some bs \<and> physical = line_extent (line_bytes s) bs (snd (snd k))))"

lemma spec_ok_cong:
  "buffer_sizes s' = buffer_sizes s \<Longrightarrow> line_bytes s' = line_bytes s \<Longrightarrow> spec_ok s' a p = spec_ok s a p"
  by (simp add: spec_ok_def)

text \<open>The backing accesses of a valid line are constructed without error.\<close>

lemma backing_ok:
  assumes "spec_ok s a (k, physical, covered, full)" "0 < line_bytes s"
  obtains bs where
    "write_backing a s (max (ca_offset a) (snd (snd k) * line_bytes s)) covered =
       Inr \<lparr>ca_buffer = ca_buffer a, ca_offset = max (ca_offset a) (snd (snd k) * line_bytes s),
        ca_size = covered, ca_op = Cache_Write, ca_buffer_size = bs, ca_generation = ca_generation a\<rparr>"
    "read_backing a s (snd (snd k) * line_bytes s) physical =
       Inr \<lparr>ca_buffer = ca_buffer a, ca_offset = snd (snd k) * line_bytes s,
        ca_size = physical, ca_op = Cache_Read, ca_buffer_size = bs, ca_generation = ca_generation a\<rparr>"
proof -
  from assms(1) obtain bs where bs: "buffer_sizes s (access_key a) = Some bs"
      "physical = line_extent (line_bytes s) bs (snd (snd k))" by (auto simp: spec_ok_def)
  have nn: "0 \<le> snd (snd k) * line_bytes s" using assms by (simp add: spec_ok_def)
  have f: "ca_buffer a \<noteq> []" "strip (ca_buffer a) = ca_buffer a" "0 \<le> ca_generation a"
      "0 < covered" "covered \<le> physical" "0 \<le> ca_offset a"
      "max (ca_offset a) (snd (snd k) * line_bytes s) + covered \<le> snd (snd k) * line_bytes s + physical"
    using assms(1) by (auto simp: spec_ok_def)
  have top: "snd (snd k) * line_bytes s + physical \<le> n" if "bs = Some n" for n
    using bs(2) that by (simp add: line_extent_def)
  show ?thesis
  proof (rule that)
    show "write_backing a s (max (ca_offset a) (snd (snd k) * line_bytes s)) covered =
       Inr \<lparr>ca_buffer = ca_buffer a, ca_offset = max (ca_offset a) (snd (snd k) * line_bytes s),
        ca_size = covered, ca_op = Cache_Write, ca_buffer_size = bs, ca_generation = ca_generation a\<rparr>"
      unfolding write_backing_def bs(1) option.case
      using f nn top by (intro make_cache_access_ok) fastforce+
    show "read_backing a s (snd (snd k) * line_bytes s) physical =
       Inr \<lparr>ca_buffer = ca_buffer a, ca_offset = snd (snd k) * line_bytes s,
        ca_size = physical, ca_op = Cache_Read, ca_buffer_size = bs, ca_generation = ca_generation a\<rparr>"
      unfolding read_backing_def bs(1) option.case
      using f nn top by (intro make_cache_access_ok) fastforce+
  qed
qed

lemma backing_counters [simp]:
  "write_backing a (s\<lparr>counters := c\<rparr>) = write_backing a s"
  "read_backing a (s\<lparr>counters := c\<rparr>) = read_backing a s"
  by (simp_all add: fun_eq_iff write_backing_def read_backing_def)

lemma same_setup_counters [simp]: "same_setup s (t\<lparr>counters := c\<rparr>) = same_setup s t"
  by (simp add: same_setup_def)

section \<open>The effect of one line of an access\<close>

definition line_effect :: "access_result \<Rightarrow> cache \<Rightarrow> access_result \<Rightarrow> cache \<Rightarrow> bool" where
  "line_effect r s r' s' \<longleftrightarrow> cache_inv s' \<and> same_setup s s' \<and> buffer_sizes s' = buffer_sizes s
     \<and> book_gap r' s' = book_gap r s
     \<and> (\<forall>k n. dirty_at s k n \<longrightarrow> dirty_at s' k n \<or> written_back (line_bytes s) (backing_accesses r') k n)
     \<and> set (backing_accesses r) \<subseteq> set (backing_accesses r')"

text \<open>The LRU list of an ideal cache: a touched key moves to the end, a full cache drops the first.\<close>

definition lru_touch :: "nat \<Rightarrow> bool \<Rightarrow> line_key \<Rightarrow> line_key list \<Rightarrow> line_key list" where
  "lru_touch cap alloc k ks =
    (if k \<in> set ks then removeAll k ks @ [k]
     else if \<not> alloc then ks
     else if length ks < cap then ks @ [k] else tl ks @ [k])"

lemma keys_delete: "map fst (AList.delete k d) = removeAll k (map fst d)"
  by (induction d) auto

lemma length_delete: "map_of d k \<noteq> None \<Longrightarrow> length (AList.delete k d) < length d"
proof (induction d)
  case (Cons p d)
  then show ?case using length_delete_le [of k d] by (cases p) (auto simp: less_Suc_eq_le)
qed simp

lemma pop_reinsert:
  fixes c :: cache_counters
  assumes inv: "cache_inv s" and k: "map_of (cache_lines s) k = Some l" and ok: "line_ok s (k, l')"
  defines "s2 \<equiv> set_line k l' ((snd (pop_line k s))\<lparr>counters := c\<rparr>)"
  shows "cache_lines s2 = AList.delete k (cache_lines s) @ [(k, l')]" "cache_inv s2"
    "same_setup s s2" "buffer_sizes s2 = buffer_sizes s" "counters s2 = c"
proof -
  have lk: "linked s" using inv by (simp add: cache_inv_def)
  note p = pop_line_props [OF lk, of k]
  let ?s1 = "(snd (pop_line k s))\<lparr>counters := c\<rparr>"
  have lk1: "linked ?s1" using p(3) by simp
  note q = set_line_props [OF lk1, of k l']
  show lines: "cache_lines s2 = AList.delete k (cache_lines s) @ [(k, l')]"
    unfolding s2_def q(1) by (simp add: p(2) update_absent)
  show frame: "same_setup s s2" "buffer_sizes s2 = buffer_sizes s" "counters s2 = c"
    using q(3,5,6) p(4,6) by (auto simp: s2_def same_setup_def)
  have "\<forall>p \<in> set (cache_lines s2). line_ok s p"
    using inv ok by (auto simp: lines cache_inv_def AList.delete_eq)
  moreover have "length (AList.delete k (cache_lines s)) < length (cache_lines s)"
    using k by (intro length_delete) simp
  then have "int (length (cache_lines s2)) \<le> capacity_lines s"
    using inv by (simp add: lines cache_inv_def)
  ultimately show "cache_inv s2"
    using cache_inv_intro [OF inv _ frame(1,2)] q(2) by (simp add: s2_def)
qed

lemma dirty_reinsert:
  assumes "cache_lines s' = AList.delete k (cache_lines s) @ [(k, l')]" "map_of (cache_lines s) k = Some l"
    "cl_size l' = cl_size l" "cl_dirty l \<Longrightarrow> cl_dirty l'" "dirty_at s j n"
  shows "dirty_at s' j n"
proof (cases "j = k")
  case True
  then show ?thesis using assms by (auto simp: dirty_at_def map_add_def)
next
  case False
  then have "map_of (cache_lines s') j = map_of (cache_lines s) j"
    using assms(1) by (simp add: map_add_def split: option.split)
  then show ?thesis using assms(5) by (simp add: dirty_at_def)
qed

lemma keys_reinsert:
  assumes "cache_lines s' = AList.delete k (cache_lines s) @ [(k, l')]" "map_of (cache_lines s) k = Some l"
  shows "keys_of s' = lru_touch cap alloc k (keys_of s)"
proof -
  have "k \<in> set (keys_of s)" using assms(2) by (force simp: keys_of_def dest: map_of_SomeD)
  then show ?thesis using assms(1) by (simp add: lru_touch_def keys_of_def keys_delete)
qed

lemma hit_effect:
  assumes inv: "cache_inv s" and k: "map_of (cache_lines s) (fst spec) = Some l" and sp: "spec_ok s a spec"
  obtains r' s' where "access_line a spec r s = (Inr r', s')" "line_effect r s r' s'"
    "hit_lines r' + miss_lines r' = hit_lines r + miss_lines r + 1"
    "keys_of s' = lru_touch cap alloc (fst spec) (keys_of s)"
proof -
  obtain key physical covered full where spec: "spec = (key, physical, covered, full)" by (cases spec)
  have lk: "linked s" using inv by (simp add: cache_inv_def)
  note p = pop_line_props [OF lk, of key]
  have km: "map_of (cache_lines s) key = Some l" using k spec by simp
  then have lok: "line_ok s (key, l)" using inv by (auto simp: cache_inv_def dest: map_of_SomeD)
  define s1 where "s1 = snd (pop_line key s)"
  have pop: "pop_line key s = (Some l, s1)" using p(1) km by (simp add: prod_eq_iff s1_def)
  let ?c = "(counters s)\<lparr>n_hit_lines := n_hit_lines (counters s) + 1\<rparr>"
  have c1: "counters s1 = counters s" "write_back s1 = write_back s" "line_bytes s1 = line_bytes s"
    "buffer_sizes s1 = buffer_sizes s"
    using p(4,6,7) by (auto simp: same_setup_def s1_def)
  have al: "access_line a spec r s = hit_line a spec l r s1"
    by (simp add: access_line_def spec pop)
  show ?thesis
  proof (cases "ca_op a = Cache_Write \<and> \<not> write_back s")
    case False
    let ?l' = "if ca_op a = Cache_Write then line_dirty l else l"
    have ok: "line_ok s (key, ?l')" using lok by (simp add: line_ok_def line_dirty_def cl_key_def)
    let ?r' = "r\<lparr>hit_lines := hit_lines r + 1\<rparr>" and ?s' = "set_line key ?l' (s1\<lparr>counters := ?c\<rparr>)"
    have eq: "access_line a spec r s = (Inr ?r', ?s')"
    proof (cases "ca_op a = Cache_Write")
      case True
      then show ?thesis unfolding al using False by (simp add: hit_line_def spec Let_def c1)
    next
      case False
      then show ?thesis unfolding al by (simp add: hit_line_def spec Let_def c1)
    qed
    note q = pop_reinsert [OF inv km ok, where c = ?c, folded s1_def]
    have "line_effect r s ?r' ?s'" unfolding line_effect_def
      using q dirty_reinsert [OF q(1) km]
      by (auto simp: book_gap_def backing_write_bytes_def evicted_lines_def line_dirty_def)
    moreover have "keys_of ?s' = lru_touch cap alloc (fst spec) (keys_of s)"
      using keys_reinsert [OF q(1) km] spec by simp
    ultimately show ?thesis using that eq by simp
  next
    case True
    obtain bs where w: "write_backing a s (max (ca_offset a) (snd (snd key) * line_bytes s)) covered =
       Inr \<lparr>ca_buffer = ca_buffer a, ca_offset = max (ca_offset a) (snd (snd key) * line_bytes s),
        ca_size = covered, ca_op = Cache_Write, ca_buffer_size = bs, ca_generation = ca_generation a\<rparr>"
      (is "_ = Inr ?w")
      using backing_ok [of s a key physical covered full] sp inv spec by (auto simp: cache_inv_def)
    have wb: "write_backing a s1 = write_backing a s" by (simp add: fun_eq_iff write_backing_def c1)
    let ?c' = "?c\<lparr>n_write_through_bytes := n_write_through_bytes (counters s) + covered\<rparr>"
    let ?r' = "r\<lparr>hit_lines := hit_lines r + 1, write_through_bytes := write_through_bytes r + covered,
      backing_accesses := backing_accesses r @ [?w]\<rparr>" and ?s' = "set_line key l (s1\<lparr>counters := ?c'\<rparr>)"
    have eq: "access_line a spec r s = (Inr ?r', ?s')"
      unfolding al using True by (simp add: hit_line_def spec Let_def c1 write_through_def wb w)
    note q = pop_reinsert [OF inv km lok, where c = ?c', folded s1_def]
    have "line_effect r s ?r' ?s'" unfolding line_effect_def
      using q dirty_reinsert [OF q(1) km]
      by (auto simp: book_gap_def backing_write_bytes_def evicted_lines_def)
    moreover have "keys_of ?s' = lru_touch cap alloc (fst spec) (keys_of s)"
      using keys_reinsert [OF q(1) km] spec by simp
    ultimately show ?thesis using that eq by simp
  qed
qed

lemma line_effect_trans:
  assumes "line_effect r s r' s'" "line_effect r' s' r'' s''"
  shows "line_effect r s r'' s''"
proof -
  have lb: "line_bytes s' = line_bytes s" using assms(1) by (simp add: line_effect_def same_setup_def)
  have "dirty_at s'' k n \<or> written_back (line_bytes s) (backing_accesses r'') k n" if "dirty_at s k n" for k n
  proof -
    have "dirty_at s' k n \<or> written_back (line_bytes s) (backing_accesses r') k n"
      using assms(1) that unfolding line_effect_def by blast
    moreover have "written_back (line_bytes s) (backing_accesses r'') k n"
      if "written_back (line_bytes s) (backing_accesses r') k n"
      using that assms(2) by (auto simp: line_effect_def written_back_def)
    ultimately show ?thesis using assms(2) unfolding line_effect_def lb by blast
  qed
  moreover have "same_setup s s''" using assms same_setup_trans unfolding line_effect_def by blast
  ultimately show ?thesis using assms by (auto simp: line_effect_def)
qed

lemma ensure_slot_effect:
  assumes inv: "cache_inv s"
  obtains r' s' where "ensure_slot r s = (Inr r', s')" "line_effect r s r' s'"
    "int (length (cache_lines s')) < capacity_lines s"
    "cache_lines s' = (if int (length (cache_lines s)) \<ge> capacity_lines s
       then tl (cache_lines s) else cache_lines s)"
    "hit_lines r' = hit_lines r" "miss_lines r' = miss_lines r" "read_fill_bytes r' = read_fill_bytes r"
proof (cases "int (length (cache_lines s)) \<ge> capacity_lines s")
  case False
  then have "ensure_slot r s = (Inr r, s)" by (simp add: ensure_slot_def)
  then show ?thesis using that [of r s] False inv by (simp add: line_effect_def)
next
  case True
  then obtain k l rest where L: "cache_lines s = (k, l) # rest"
    using inv by (cases "cache_lines s") (auto simp: cache_inv_def)
  have lk: "linked s" using inv by (simp add: cache_inv_def)
  have wf: "wf_dict ((k, l) # rest)" using lk L by (simp add: linked_def)
  note p = pop_line_props [OF lk, of k]
  define s1 where "s1 = snd (pop_line k s)"
  have pop: "pop_line k s = (Some l, s1)" using p(1) L by (simp add: prod_eq_iff s1_def)
  have L1: "cache_lines s1 = rest" using p(2) L wf by (simp add: s1_def wf_dict_def)
  have c1: "counters s1 = counters s" "line_bytes s1 = line_bytes s" "buffer_sizes s1 = buffer_sizes s"
    "same_setup s s1" "linked s1"
    using p by (auto simp: same_setup_def s1_def)
  have len: "int (length rest) < capacity_lines s" using inv L by (simp add: cache_inv_def)
  let ?n = "if cl_dirty l then cl_size l else 0" and ?m = "if \<not> cl_dirty l then cl_size l else 0"
  define s2 where "s2 = s1\<lparr>counters := (counters s)\<lparr>n_eviction_lines := n_eviction_lines (counters s) + 1,
     n_dirty_eviction_bytes := n_dirty_eviction_bytes (counters s) + ?n\<rparr>\<rparr>"
  have ev: "evict_one s = (Inr (l, ?n, ?m), s2)"
    by (simp add: evict_one_def L pop Let_def c1 s2_def)
  have inv2: "cache_inv s2"
    by (rule cache_inv_intro [OF inv]) (use c1 L1 inv L len in \<open>auto simp: s2_def cache_inv_def\<close>)
  have fr: "same_setup s s2" "buffer_sizes s2 = buffer_sizes s" "cache_lines s2 = rest"
      "line_bytes s2 = line_bytes s"
    using c1 L1 by (simp_all add: s2_def)
  have lok: "line_ok s (k, l)" "0 < line_bytes s" using inv L by (auto simp: cache_inv_def)
  have others: "dirty_at s2 j n" if "dirty_at s j n" "j \<noteq> k" for j n
    using that fr(3) L by (simp add: dirty_at_def)
  show ?thesis
  proof (cases "cl_dirty l")
    case False
    let ?r = "r\<lparr>dirty_eviction_bytes := dirty_eviction_bytes r + ?n, clean_eviction_bytes :=
      clean_eviction_bytes r + ?m, clean_eviction_lines := clean_eviction_lines r + 1\<rparr>"
    have "ensure_slot r s = (Inr ?r, s2)" using True False by (simp add: ensure_slot_def ev)
    moreover have "j \<noteq> k" if "dirty_at s j n" for j n using that L False by (auto simp: dirty_at_def)
    then have D: "\<forall>j n. dirty_at s j n \<longrightarrow> dirty_at s2 j n \<or> written_back (line_bytes s) (backing_accesses ?r) j n"
      using others by blast
    have "book_gap ?r s2 = book_gap r s"
      using False by (simp add: book_gap_def backing_write_bytes_def evicted_lines_def s2_def)
    then have "line_effect r s ?r s2" unfolding line_effect_def
      using fr inv2 D by simp
    ultimately show ?thesis using that [of ?r s2] True L fr len by simp
  next
    case d: True
    obtain bs where "line_writeback s l = Inr \<lparr>ca_buffer = fst k, ca_offset = snd (snd k) * line_bytes s,
      ca_size = cl_size l, ca_op = Cache_Write, ca_buffer_size = bs, ca_generation = fst (snd k)\<rparr>"
      (is "_ = Inr ?w") by (rule line_writeback_ok [OF lok])
    then have w: "line_writeback s2 l = Inr ?w"
      by (simp only: line_writeback_def fr)
    let ?r = "r\<lparr>dirty_eviction_bytes := dirty_eviction_bytes r + ?n, clean_eviction_bytes :=
      clean_eviction_bytes r + ?m, dirty_eviction_lines := dirty_eviction_lines r + 1,
      backing_accesses := backing_accesses r @ [?w]\<rparr>"
    have es: "ensure_slot r s = (Inr ?r, s2)" using True d w by (simp add: ensure_slot_def ev)
    have "written_back (line_bytes s) (backing_accesses ?r) k n" if "dirty_at s k n" for n
      using that L by (auto simp: dirty_at_def written_back_def buffer_of_def)
    then have D: "\<forall>j n. dirty_at s j n \<longrightarrow> dirty_at s2 j n \<or> written_back (line_bytes s) (backing_accesses ?r) j n"
      using others by blast
    have "book_gap ?r s2 = book_gap r s"
      using d by (simp add: book_gap_def backing_write_bytes_def evicted_lines_def s2_def)
    moreover have "set (backing_accesses r) \<subseteq> set (backing_accesses ?r)" by auto
    ultimately have "line_effect r s ?r s2" unfolding line_effect_def
      using fr(1-3) inv2 D by blast
    with es show ?thesis using that [of ?r s2] True L fr len by simp
  qed
qed

lemma set_absent_effect:
  assumes inv: "cache_inv s" and k: "map_of (cache_lines s) k = None" and ok: "line_ok s (k, l)"
    and room: "int (length (cache_lines s)) < capacity_lines s"
  shows "line_effect r s r (set_line k l s)" "keys_of (set_line k l s) = keys_of s @ [k]"
    "counters (set_line k l s) = counters s"
proof -
  have lk: "linked s" using inv by (simp add: cache_inv_def)
  note q = set_line_props [OF lk, of k l]
  have L: "cache_lines (set_line k l s) = cache_lines s @ [(k, l)]" using q(1) k by (simp add: update_absent)
  have "cache_inv (set_line k l s)"
    by (rule cache_inv_intro [OF inv]) (use q(2-) L inv ok room in \<open>auto simp: cache_inv_def\<close>)
  moreover have "dirty_at (set_line k l s) j n" if "dirty_at s j n" for j n
    using that L k by (auto simp: dirty_at_def map_add_def split: option.split)
  ultimately show "line_effect r s r (set_line k l s)"
    using q(2-) by (auto simp: line_effect_def book_gap_def)
  show "keys_of (set_line k l s) = keys_of s @ [k]" "counters (set_line k l s) = counters s"
    using L q(2-) by (simp_all add: keys_of_def)
qed

lemma count_effect:
  assumes "cache_inv s" "book_gap r' (s\<lparr>counters := c\<rparr>) = book_gap r s"
    "set (backing_accesses r) \<subseteq> set (backing_accesses r')"
  shows "line_effect r s r' (s\<lparr>counters := c\<rparr>)"
proof -
  have "cache_inv (s\<lparr>counters := c\<rparr>)"
    by (rule cache_inv_intro [OF assms(1)]) (use assms(1) in \<open>auto simp: cache_inv_def\<close>)
  then show ?thesis using assms by (simp add: line_effect_def dirty_at_def)
qed

lemma write_through_effect:
  assumes inv: "cache_inv s" and sp: "spec_ok s a (k, physical, covered, full)"
  obtains r' s' where
    "write_through a (max (ca_offset a) (snd (snd k) * line_bytes s)) covered r s = (Inr r', s')"
    "line_effect r s r' s'" "cache_lines s' = cache_lines s"
    "hit_lines r' = hit_lines r" "miss_lines r' = miss_lines r"
proof -
  have "0 < line_bytes s" using inv by (simp add: cache_inv_def)
  from backing_ok [OF sp this] obtain bs where
    w: "write_backing a s (max (ca_offset a) (snd (snd k) * line_bytes s)) covered =
       Inr \<lparr>ca_buffer = ca_buffer a, ca_offset = max (ca_offset a) (snd (snd k) * line_bytes s),
        ca_size = covered, ca_op = Cache_Write, ca_buffer_size = bs, ca_generation = ca_generation a\<rparr>"
      (is "_ = Inr ?w") by blast
  let ?r = "r\<lparr>write_through_bytes := write_through_bytes r + covered, backing_accesses := backing_accesses r @ [?w]\<rparr>"
  let ?s = "s\<lparr>counters := (counters s)\<lparr>n_write_through_bytes := n_write_through_bytes (counters s) + covered\<rparr>\<rparr>"
  have "write_through a (max (ca_offset a) (snd (snd k) * line_bytes s)) covered r s = (Inr ?r, ?s)"
    by (simp add: write_through_def Let_def w)
  moreover have "line_effect r s ?r ?s"
    by (rule count_effect [OF inv]) (auto simp: book_gap_def backing_write_bytes_def evicted_lines_def)
  ultimately show ?thesis using that by simp
qed

lemma line_effect_frame:
  assumes "line_effect r s r' s'"
  shows "cache_inv s'" "line_bytes s' = line_bytes s" "capacity_lines s' = capacity_lines s"
    "write_back s' = write_back s" "write_allocate s' = write_allocate s"
    "buffer_sizes s' = buffer_sizes s" "spec_ok s' a p = spec_ok s a p" "line_ok s' q = line_ok s q"
  using assms spec_ok_cong [of s' s a p] line_ok_cong [of s' s q]
  by (auto simp: line_effect_def same_setup_def)

lemma fill_line_effect:
  assumes inv: "cache_inv s" and sp: "spec_ok s a (k, physical, covered, full)"
  obtains r' s' where "fill_line a (snd (snd k) * line_bytes s) physical r s = (Inr r', s')"
    "line_effect r s r' s'" "cache_lines s' = cache_lines s"
    "hit_lines r' = hit_lines r" "miss_lines r' = miss_lines r"
proof -
  have "0 < line_bytes s" using inv by (simp add: cache_inv_def)
  from backing_ok [OF sp this] obtain bs where
    w: "read_backing a s (snd (snd k) * line_bytes s) physical =
       Inr \<lparr>ca_buffer = ca_buffer a, ca_offset = snd (snd k) * line_bytes s,
        ca_size = physical, ca_op = Cache_Read, ca_buffer_size = bs, ca_generation = ca_generation a\<rparr>"
      (is "_ = Inr ?w") by blast
  let ?r = "r\<lparr>read_fill_bytes := read_fill_bytes r + physical, backing_accesses := backing_accesses r @ [?w],
    read_for_ownership_bytes := read_for_ownership_bytes r + (if ca_op a = Cache_Write then physical else 0)\<rparr>"
  let ?s = "s\<lparr>counters := (counters s)\<lparr>n_read_fill_bytes := n_read_fill_bytes (counters s) + physical\<rparr>\<rparr>"
  have "fill_line a (snd (snd k) * line_bytes s) physical r s = (Inr ?r, ?s)"
    by (simp add: fill_line_def Let_def w)
  moreover have "line_effect r s ?r ?s"
    by (rule count_effect [OF inv]) (auto simp: book_gap_def backing_write_bytes_def evicted_lines_def)
  ultimately show ?thesis using that by simp
qed

lemma alloc_effect:
  assumes inv: "cache_inv s" and k: "map_of (cache_lines s) key = None"
    and sp: "spec_ok s a (key, physical, covered, full)"
  obtains r' s' where "alloc_line a (key, physical, covered, full) r s = (Inr r', s')" "line_effect r s r' s'"
    "hit_lines r' = hit_lines r" "miss_lines r' = miss_lines r"
    "keys_of s' = lru_touch (nat (capacity_lines s)) True key (keys_of s)"
proof -
  obtain r1 s1 where es: "ensure_slot r s = (Inr r1, s1)" "line_effect r s r1 s1"
    "int (length (cache_lines s1)) < capacity_lines s"
    "cache_lines s1 = (if int (length (cache_lines s)) \<ge> capacity_lines s then tl (cache_lines s) else cache_lines s)"
    "hit_lines r1 = hit_lines r" "miss_lines r1 = miss_lines r"
    using ensure_slot_effect [OF inv] by metis
  note f1 = line_effect_frame [OF es(2)]
  have sp1: "spec_ok s1 a (key, physical, covered, full)" using sp f1(7) by blast
  let ?x = "if ca_op a \<noteq> Cache_Write \<or> \<not> full
    then fill_line a (snd (snd key) * line_bytes s1) physical r1 s1 else (Inr r1, s1)"
  obtain r2 s2 where fl: "?x = (Inr r2, s2)" "line_effect r1 s1 r2 s2" "cache_lines s2 = cache_lines s1"
    "hit_lines r2 = hit_lines r1" "miss_lines r2 = miss_lines r1"
  proof (cases "ca_op a \<noteq> Cache_Write \<or> \<not> full")
    case True
    then show ?thesis using fill_line_effect [OF f1(1) sp1] that by (metis (no_types))
  next
    case False
    have "line_effect r1 s1 r1 s1" using f1(1) by (simp add: line_effect_def)
    then show ?thesis using that [of r1 s1] False by auto
  qed
  note f2 = line_effect_frame [OF fl(2)]
  have sub: "set (cache_lines s1) \<subseteq> set (cache_lines s)"
    using es(4) by (cases "cache_lines s") auto
  have k2: "map_of (cache_lines s2) key = None" using k sub fl(3) by (force simp: map_of_eq_None_iff)
  let ?l = "\<lparr>cl_buffer = fst key, cl_index = snd (snd key), cl_size = physical,
               cl_dirty = (ca_op a = Cache_Write \<and> write_back s2), cl_generation = fst (snd key)\<rparr>"
  have "line_ok s (key, ?l)" using sp
    by (auto simp: spec_ok_def line_ok_def cl_key_def buffer_of_def access_key_def prod_eq_iff)
  then have ok: "line_ok s2 (key, ?l)" using f1(8) f2(8) by blast
  have room: "int (length (cache_lines s2)) < capacity_lines s2" using es(3) fl(3) f1(3) f2(3) by simp
  let ?r3 = "r2\<lparr>allocated_lines := allocated_lines r2 + 1\<rparr>" and ?s3 = "set_line key ?l s2"
  have e3: "line_effect r2 s2 ?r3 ?s3"
    using set_absent_effect(1) [OF f2(1) k2 ok room, of r2]
    by (simp add: line_effect_def book_gap_def backing_write_bytes_def evicted_lines_def)
  have k3: "keys_of ?s3 = keys_of s2 @ [key]" by (rule set_absent_effect(2) [OF f2(1) k2 ok room])
  note f3 = line_effect_frame [OF e3]
  have sp3: "spec_ok ?s3 a (key, physical, covered, full)" using sp1 f2(7) f3(7) by blast
  let ?y = "if ca_op a = Cache_Write \<and> \<not> write_back ?s3
     then write_through a (max (ca_offset a) (snd (snd key) * line_bytes ?s3)) covered ?r3 ?s3 else (Inr ?r3, ?s3)"
  obtain r4 s4 where wt: "?y = (Inr r4, s4)" "line_effect ?r3 ?s3 r4 s4" "cache_lines s4 = cache_lines ?s3"
    "hit_lines r4 = hit_lines ?r3" "miss_lines r4 = miss_lines ?r3"
  proof (cases "ca_op a = Cache_Write \<and> \<not> write_back ?s3")
    case True
    then show ?thesis using write_through_effect [OF f3(1) sp3] that by (metis (no_types))
  next
    case False
    have "line_effect ?r3 ?s3 ?r3 ?s3" using f3(1) by (simp add: line_effect_def)
    then show ?thesis using that [of ?r3 ?s3] False by auto
  qed
  have eq: "alloc_line a (key, physical, covered, full) r s = (Inr r4, s4)"
    unfolding alloc_line_def prod.case es(1) sbind_simps fl(1) Let_def wt(1) ..
  have "line_effect r s r4 s4"
    using es(2) fl(2) e3 wt(2) line_effect_trans by blast
  moreover have "keys_of s4 = lru_touch (nat (capacity_lines s)) True key (keys_of s)"
  proof -
    have "key \<notin> set (keys_of s)" using k by (auto simp: keys_of_def map_of_eq_None_iff)
    moreover have "keys_of s4 = keys_of s1 @ [key]" using wt(3) k3 fl(3) by (simp add: keys_of_def)
    ultimately show ?thesis using es(4) inv
      by (auto simp: lru_touch_def keys_of_def map_tl cache_inv_def)
  qed
  ultimately show ?thesis using that eq es fl wt by simp
qed

lemma bypass_effect:
  assumes inv: "cache_inv s" and sp: "spec_ok s a (k, physical, covered, full)"
  obtains r' s' where "bypass_line a (k, physical, covered, full) r s = (Inr r', s')"
    "line_effect r s r' s'" "cache_lines s' = cache_lines s"
    "hit_lines r' = hit_lines r" "miss_lines r' = miss_lines r"
proof -
  have "0 < line_bytes s" using inv by (simp add: cache_inv_def)
  from backing_ok [OF sp this] obtain bs where
    w: "write_backing a s (max (ca_offset a) (snd (snd k) * line_bytes s)) covered =
       Inr \<lparr>ca_buffer = ca_buffer a, ca_offset = max (ca_offset a) (snd (snd k) * line_bytes s),
        ca_size = covered, ca_op = Cache_Write, ca_buffer_size = bs, ca_generation = ca_generation a\<rparr>"
      (is "_ = Inr ?w") by blast
  let ?r = "r\<lparr>bypass_write_bytes := bypass_write_bytes r + covered, backing_accesses := backing_accesses r @ [?w]\<rparr>"
  let ?s = "s\<lparr>counters := (counters s)\<lparr>n_bypass_write_bytes := n_bypass_write_bytes (counters s) + covered\<rparr>\<rparr>"
  have "bypass_line a (k, physical, covered, full) r s = (Inr ?r, ?s)"
    by (simp add: bypass_line_def Let_def w)
  moreover have "line_effect r s ?r ?s"
    by (rule count_effect [OF inv]) (auto simp: book_gap_def backing_write_bytes_def evicted_lines_def)
  ultimately show ?thesis using that by simp
qed

section \<open>Whole accesses\<close>

lemma miss_effect:
  assumes inv: "cache_inv s" and k: "map_of (cache_lines s) (fst spec) = None" and sp: "spec_ok s a spec"
  obtains r' s' where "access_line a spec r s = (Inr r', s')" "line_effect r s r' s'"
    "hit_lines r' + miss_lines r' = hit_lines r + miss_lines r + 1"
    "keys_of s' = lru_touch (nat (capacity_lines s)) (ca_op a = Cache_Read \<or> write_allocate s)
       (fst spec) (keys_of s)"
proof -
  obtain key physical covered full where spec: "spec = (key, physical, covered, full)" by (cases spec)
  have lk: "linked s" using inv by (simp add: cache_inv_def)
  note p = pop_line_props [OF lk, of key]
  have kn: "map_of (cache_lines s) key = None" using k spec by simp
  define s1 where "s1 = (snd (pop_line key s))\<lparr>counters := (counters s)\<lparr>n_miss_lines := n_miss_lines (counters s) + 1\<rparr>\<rparr>"
  let ?r1 = "r\<lparr>miss_lines := miss_lines r + 1\<rparr>"
  have L1: "cache_lines s1 = cache_lines s" using p(2) kn by (simp add: s1_def delete_notin)
  have fr: "same_setup s s1" "buffer_sizes s1 = buffer_sizes s" "linked s1"
    using p(3,4,6) by (simp_all add: s1_def)
  have inv1: "cache_inv s1"
    by (rule cache_inv_intro [OF inv fr(3,1,2)]) (use inv L1 in \<open>auto simp: cache_inv_def\<close>)
  have e1: "line_effect r s ?r1 s1"
    using inv1 fr L1 by (simp add: line_effect_def dirty_at_def book_gap_def backing_write_bytes_def
        evicted_lines_def s1_def)
  note f1 = line_effect_frame [OF e1]
  have sp1: "spec_ok s1 a (key, physical, covered, full)" using sp f1(7) spec by blast
  have pop: "pop_line (fst spec) s = (None, snd (pop_line key s))"
    using p(1) kn by (simp add: prod_eq_iff spec)
  have al: "access_line a spec r s = (if ca_op a = Cache_Write \<and> \<not> write_allocate s
      then bypass_line a spec ?r1 s1 else alloc_line a spec ?r1 s1)"
    unfolding access_line_def pop prod.case option.case Let_def p(7)
    unfolding s1_def [symmetric] f1(5) ..
  have k1: "map_of (cache_lines s1) key = None" using kn L1 by simp
  have keys1: "keys_of s1 = keys_of s" using L1 by (simp add: keys_of_def)
  have notin: "key \<notin> set (keys_of s)" using kn by (auto simp: keys_of_def map_of_eq_None_iff)
  have rd: "ca_op a \<noteq> Cache_Write \<longleftrightarrow> ca_op a = Cache_Read" by (cases "ca_op a") simp_all
  show ?thesis
  proof (cases "ca_op a = Cache_Write \<and> \<not> write_allocate s")
    case True
    obtain r' s' where b: "bypass_line a (key, physical, covered, full) ?r1 s1 = (Inr r', s')"
      "line_effect ?r1 s1 r' s'" "cache_lines s' = cache_lines s1"
      "hit_lines r' = hit_lines ?r1" "miss_lines r' = miss_lines ?r1"
      by (rule bypass_effect [OF inv1 sp1])
    have "keys_of s' = keys_of s" using b(3) L1 by (simp add: keys_of_def)
    then show ?thesis using that [of r' s'] line_effect_trans [OF e1 b(2)] al b True notin spec rd
      by (simp add: lru_touch_def)
  next
    case False
    obtain r' s' where b: "alloc_line a (key, physical, covered, full) ?r1 s1 = (Inr r', s')"
      "line_effect ?r1 s1 r' s'" "hit_lines r' = hit_lines ?r1" "miss_lines r' = miss_lines ?r1"
      "keys_of s' = lru_touch (nat (capacity_lines s1)) True key (keys_of s1)"
      by (rule alloc_effect [OF inv1 k1 sp1])
    have "(ca_op a = Cache_Read \<or> write_allocate s) = True" using False rd by blast
    then show ?thesis using that [of r' s'] line_effect_trans [OF e1 b(2)] al b False keys1 f1(3) spec
      by simp
  qed
qed

lemma access_line_effect:
  assumes inv: "cache_inv s" and sp: "spec_ok s a spec"
  obtains r' s' where "access_line a spec r s = (Inr r', s')" "line_effect r s r' s'"
    "hit_lines r' + miss_lines r' = hit_lines r + miss_lines r + 1"
    "keys_of s' = lru_touch (nat (capacity_lines s)) (ca_op a = Cache_Read \<or> write_allocate s)
       (fst spec) (keys_of s)"
proof (cases "map_of (cache_lines s) (fst spec)")
  case None
  show ?thesis by (rule miss_effect [OF inv None sp]) (rule that)
next
  case (Some l)
  show ?thesis by (rule hit_effect [OF inv Some sp]) (rule that)
qed

lemma line_effect_refl: "cache_inv s \<Longrightarrow> line_effect r s r s"
  by (simp add: line_effect_def)

lemma access_lines_effect:
  assumes "cache_inv s" "\<forall>spec \<in> set specs. spec_ok s a spec"
  shows "\<exists>r' s'. access_lines a specs r s = (Inr r', s') \<and> line_effect r s r' s' \<and>
    hit_lines r' + miss_lines r' = hit_lines r + miss_lines r + int (length specs) \<and>
    keys_of s' = fold (lru_touch (nat (capacity_lines s)) (ca_op a = Cache_Read \<or> write_allocate s))
       (map fst specs) (keys_of s)"
  using assms
proof (induction specs arbitrary: r s)
  case Nil
  then show ?case by (simp add: line_effect_refl)
next
  case (Cons spec specs)
  obtain r1 s1 where a1: "access_line a spec r s = (Inr r1, s1)" "line_effect r s r1 s1"
    "hit_lines r1 + miss_lines r1 = hit_lines r + miss_lines r + 1"
    "keys_of s1 = lru_touch (nat (capacity_lines s)) (ca_op a = Cache_Read \<or> write_allocate s)
       (fst spec) (keys_of s)"
    using access_line_effect [OF Cons.prems(1), of a spec r] Cons.prems(2) by auto
  note f1 = line_effect_frame [OF a1(2)]
  have "\<forall>spec \<in> set specs. spec_ok s1 a spec" using Cons.prems(2) f1(7) by simp
  from Cons.IH [OF f1(1) this, of r1] obtain r2 s2 where
    a2: "access_lines a specs r1 s1 = (Inr r2, s2)" "line_effect r1 s1 r2 s2"
    "hit_lines r2 + miss_lines r2 = hit_lines r1 + miss_lines r1 + int (length specs)"
    "keys_of s2 = fold (lru_touch (nat (capacity_lines s1)) (ca_op a = Cache_Read \<or> write_allocate s1))
       (map fst specs) (keys_of s1)" by blast
  have "access_lines a (spec # specs) r s = (Inr r2, s2)" using a1(1) a2(1) by simp
  then show ?case using a1 a2 line_effect_trans [OF a1(2) a2(2)] f1(3,5) by simp
qed

definition access_ok :: "cache_access \<Rightarrow> bool" where
  "access_ok a \<longleftrightarrow> ca_buffer a \<noteq> [] \<and> strip (ca_buffer a) = ca_buffer a \<and> 0 \<le> ca_offset a \<and> 0 < ca_size a
     \<and> 0 \<le> ca_generation a \<and> (case ca_buffer_size a of None \<Rightarrow> True | Some n \<Rightarrow> ca_offset a + ca_size a \<le> n)"

lemma make_cache_access_access_ok: "make_cache_access b off n op bs g = Inr a \<Longrightarrow> access_ok a"
  by (auto simp: make_cache_access_def access_ok_def split: if_splits option.splits)

lemma collect_specs_Inr:
  assumes "\<And>i. i \<in> set is \<Longrightarrow> f i = Inr (g i)"
  shows "collect_specs f is = Inr (map g is)"
  using assms by (induction "is") auto

text \<open>The lines that an access touches, and what its check rejects.\<close>

definition line_count :: "cache \<Rightarrow> cache_access \<Rightarrow> int" where
  "line_count s a = (ca_offset a + ca_size a - 1) div line_bytes s - ca_offset a div line_bytes s + 1"

definition access_keys :: "cache \<Rightarrow> cache_access \<Rightarrow> line_key list" where
  "access_keys s a = map (\<lambda>i. (ca_buffer a, ca_generation a, i))
     [ca_offset a div line_bytes s .. (ca_offset a + ca_size a - 1) div line_bytes s]"

definition the_spec :: "cache \<Rightarrow> cache_access \<Rightarrow> int option \<Rightarrow> int \<Rightarrow> spec_row" where
  "the_spec s a known i =
    ((ca_buffer a, ca_generation a, i), line_extent (line_bytes s) known i,
      min (ca_offset a + ca_size a) (i * line_bytes s + line_extent (line_bytes s) known i)
        - max (ca_offset a) (i * line_bytes s),
      max (ca_offset a) (i * line_bytes s) = i * line_bytes s \<and>
      min (ca_offset a + ca_size a) (i * line_bytes s + line_extent (line_bytes s) known i)
        = i * line_bytes s + line_extent (line_bytes s) known i)"

lemma cover_arith:
  fixes s e x n :: int
  assumes "max s x < min e (x + n)"
  shows "0 < min e (x + n) - max s x" "min e (x + n) - max s x \<le> n"
    "max s x + (min e (x + n) - max s x) \<le> x + n"
    "(max s x = x \<and> min e (x + n) = x + n) \<longleftrightarrow> min e (x + n) - max s x = n"
  using assms by (auto simp: min_def max_def)

lemma line_spec_Inr:
  assumes ok: "access_ok a" and lb: "0 < line_bytes s" and bs: "buffer_size s a = Inr known"
    and i: "i \<in> set [ca_offset a div line_bytes s .. (ca_offset a + ca_size a - 1) div line_bytes s]"
  shows "line_spec s a known i = Inr (the_spec s a known i)"
    and "buffer_sizes s' (access_key a) = Some known \<Longrightarrow> line_bytes s' = line_bytes s \<Longrightarrow>
      spec_ok s' a (the_spec s a known i)"
proof -
  let ?s = "ca_offset a" and ?e = "ca_offset a + ca_size a" and ?q = "line_bytes s"
  have se: "?s < ?e" "0 \<le> ?s" using ok by (simp_all add: access_ok_def)
  have ch: "max ?s (i * ?q) < min ?e (i * ?q + ?q)"
    using chunk_nonempty [OF lb se(1), of i] i by (simp add: chunk_indices_def chunk_lo_def chunk_hi_def)
  have kn: "?e \<le> n" if "known = Some n" for n
    using bs that by (auto simp: buffer_size_def step_simps split: if_splits option.splits)
  have le: "i * ?q + line_extent ?q known i = (case known of None \<Rightarrow> i * ?q + ?q | Some n \<Rightarrow> min (i * ?q + ?q) n)"
    by (simp add: line_extent_def split: option.split)
  have cov: "max ?s (i * ?q) < min ?e (i * ?q + line_extent ?q known i)"
    unfolding le using ch kn by (cases known) auto
  have ex: "0 < line_extent ?q known i" using cov by linarith
  have strip: "strip (ca_buffer a) = ca_buffer a" using ok by (simp add: access_ok_def)
  have below: "\<not> (case known of None \<Rightarrow> False | Some n \<Rightarrow> i * ?q \<ge> n)"
    using ch kn by (cases known) auto
  show "line_spec s a known i = Inr (the_spec s a known i)"
    unfolding line_spec_def Let_def le [symmetric] strip if_not_P [OF below] the_spec_def
      add_diff_cancel_left' if_not_P [OF ex [folded not_le]] if_not_P [OF cov [folded not_le]] ..
  assume s': "buffer_sizes s' (access_key a) = Some known" "line_bytes s' = line_bytes s"
  have "0 \<le> ?s div ?q" using se lb by (simp add: pos_imp_zdiv_nonneg_iff)
  then have "0 \<le> i" using i by simp
  then show "spec_ok s' a (the_spec s a known i)"
    unfolding spec_ok_def the_spec_def prod.case s'
    using ok [unfolded access_ok_def] cover_arith [OF cov] s'(1)
    by (intro conjI) (simp_all add: buffer_of_def access_key_def)
qed

lemma line_specs_cases:
  assumes ok: "access_ok a" and lb: "0 < line_bytes s"
  shows "line_specs s a = (case buffer_size s a of Inl e \<Rightarrow> Inl e
    | Inr known \<Rightarrow> Inr (map (the_spec s a known)
        [ca_offset a div line_bytes s .. (ca_offset a + ca_size a - 1) div line_bytes s]))"
proof (cases "buffer_size s a")
  case (Inr known)
  show ?thesis unfolding line_specs_def Inr rbind_simps sum.case Let_def
    by (rule collect_specs_Inr) (rule line_spec_Inr(1) [OF ok lb Inr])
qed (simp add: line_specs_def)

lemma buffer_size_default:
  assumes "buffer_size s a = Inr known"
  shows "buffer_sizes (set_default_size a (remember_buffer (access_key a) s)) (access_key a) = Some known"
    "bk \<noteq> access_key a \<Longrightarrow>
      buffer_sizes (set_default_size a (remember_buffer (access_key a) s)) bk = buffer_sizes s bk"
  using assms by (auto simp: buffer_size_def set_default_size_def remember_buffer_props step_simps
      split: if_splits option.splits)

lemma set_default_inv:
  fixes a :: cache_access
  assumes inv: "cache_inv s"
  defines "s' \<equiv> set_default_size a (remember_buffer (access_key a) s)"
  shows "cache_inv s'" "same_setup s s'" "cache_lines s' = cache_lines s" "counters s' = counters s"
    "\<And>bk v. buffer_sizes s bk = Some v \<Longrightarrow> buffer_sizes s' bk = Some v"
proof -
  let ?r = "remember_buffer (access_key a) s"
  show L: "cache_lines s' = cache_lines s" "counters s' = counters s"
    by (simp_all add: s'_def set_default_size_def remember_buffer_props split: option.split)
  have fr: "same_setup s s'" "linked s'"
    using remember_buffer_props(3) [of s "access_key a"] inv
    by (auto simp: s'_def set_default_size_def remember_buffer_props same_setup_def cache_inv_def
        split: option.split)
  then show "same_setup s s'" by blast
  show sizes: "buffer_sizes s' bk = Some v" if "buffer_sizes s bk = Some v" for bk v
    using that by (auto simp: s'_def set_default_size_def remember_buffer_props split: option.split)
  have lb: "line_bytes s' = line_bytes s" using fr(1) by (simp add: same_setup_def)
  have "line_ok s' p" if "line_ok s p" for p
    using that sizes [of "buffer_of (fst p)"] unfolding line_ok_def lb by blast
  then show "cache_inv s'" using inv fr L by (simp add: cache_inv_def same_setup_def)
qed

lemma access_cases:
  assumes inv: "cache_inv s" and ok: "access_ok a"
  shows "case buffer_size s a of
      Inl e \<Rightarrow> access a s = (Inl e, s)
    | Inr known \<Rightarrow> \<exists>r s'. access a s = (Inr r, s') \<and> cache_inv s' \<and> same_setup s s'
        \<and> buffer_sizes s' = (buffer_sizes s)(access_key a \<mapsto> known)
        \<and> keys_of s' = fold (lru_touch (nat (capacity_lines s)) (ca_op a = Cache_Read \<or> write_allocate s))
             (access_keys s a) (keys_of s)
        \<and> (\<forall>k n. dirty_at s k n \<longrightarrow> dirty_at s' k n \<or> written_back (line_bytes s) (backing_accesses r) k n)
        \<and> hit_lines r + miss_lines r = line_count s a
        \<and> book_gap r (s'\<lparr>counters := (counters s')\<lparr>n_access_count := n_access_count (counters s') - 1\<rparr>\<rparr>)
            = book_gap (no_result (line_count s a)) s"
proof (cases "buffer_size s a")
  case (Inl e)
  have "line_specs s a = Inl e"
    using line_specs_cases [OF ok] inv Inl by (simp add: cache_inv_def)
  then show ?thesis using Inl by (simp add: access_def)
next
  case (Inr known)
  have lb: "0 < line_bytes s" using inv by (simp add: cache_inv_def)
  let ?I = "[ca_offset a div line_bytes s .. (ca_offset a + ca_size a - 1) div line_bytes s]"
  let ?specs = "map (the_spec s a known) ?I"
  define s1 where "s1 = set_default_size a (remember_buffer (access_key a) s)"
  note d = set_default_inv [OF inv, where a = a, folded s1_def]
  have specs: "line_specs s a = Inr ?specs" using line_specs_cases [OF ok lb] Inr by simp
  have k1: "buffer_sizes s1 (access_key a) = Some known" using buffer_size_default(1) [OF Inr] by (simp add: s1_def)
  have "\<forall>p \<in> set ?specs. spec_ok s1 a p"
    using line_spec_Inr(2) [OF ok lb Inr _ k1] d(2) by (auto simp: same_setup_def)
  from access_lines_effect [OF d(1) this, of "no_result (int (length ?specs))"] obtain r s2 where
    al: "access_lines a ?specs (no_result (int (length ?specs))) s1 = (Inr r, s2)"
    "line_effect (no_result (int (length ?specs))) s1 r s2"
    "hit_lines r + miss_lines r = int (length ?specs)"
    "keys_of s2 = fold (lru_touch (nat (capacity_lines s1)) (ca_op a = Cache_Read \<or> write_allocate s1))
       (map fst ?specs) (keys_of s1)" by (auto simp: no_result_def)
  have "ca_offset a div line_bytes s \<le> (ca_offset a + ca_size a - 1) div line_bytes s"
    using ok lb by (intro zdiv_mono1) (auto simp: access_ok_def)
  then have len: "int (length ?specs) = line_count s a" by (simp add: line_count_def)
  let ?s3 = "s2\<lparr>counters := (counters s2)\<lparr>n_access_count := n_access_count (counters s2) + 1\<rparr>\<rparr>"
  have acc: "access a s = (Inr r, ?s3)"
    by (simp only: access_def specs sum.case Let_def s1_def [symmetric] al(1) sbind_simps)
  note f2 = line_effect_frame [OF al(2)]
  have inv3: "cache_inv ?s3" by (rule cache_inv_intro [OF f2(1)]) (use f2(1) in \<open>auto simp: cache_inv_def\<close>)
  have st: "same_setup s ?s3" using al(2) d(2) same_setup_trans by (auto simp: line_effect_def)
  have "map fst ?specs = access_keys s a" by (simp add: the_spec_def access_keys_def)
  moreover have "keys_of s1 = keys_of s" using d(3) by (simp add: keys_of_def)
  ultimately have keys: "keys_of ?s3 = fold (lru_touch (nat (capacity_lines s))
      (ca_op a = Cache_Read \<or> write_allocate s)) (access_keys s a) (keys_of s)"
    using al(4) d(2) by (simp add: keys_of_def same_setup_def)
  have sizes: "buffer_sizes ?s3 = (buffer_sizes s)(access_key a \<mapsto> known)"
    using f2(6) k1 buffer_size_default(2) [OF Inr] by (auto simp: s1_def fun_eq_iff)
  have "dirty_at s k n \<Longrightarrow> dirty_at s1 k n" for k n using d(3) by (simp add: dirty_at_def)
  moreover have "dirty_at s2 k n \<Longrightarrow> dirty_at ?s3 k n" for k n by (simp add: dirty_at_def)
  ultimately have dirty: "\<forall>k n. dirty_at s k n \<longrightarrow>
      dirty_at ?s3 k n \<or> written_back (line_bytes s) (backing_accesses r) k n"
    using al(2) d(2) unfolding line_effect_def same_setup_def by metis
  have "book_gap r s2 = book_gap (no_result (line_count s a)) s"
    using al(2) len d(4) by (simp add: line_effect_def book_gap_def)
  then have gap: "book_gap r (?s3\<lparr>counters := (counters ?s3)\<lparr>n_access_count := n_access_count (counters ?s3) - 1\<rparr>\<rparr>)
      = book_gap (no_result (line_count s a)) s" by (simp add: book_gap_def)
  show ?thesis unfolding Inr sum.case
    using acc inv3 st sizes keys dirty gap al(3) len by (intro exI conjI) auto
qed

section \<open>Batches, flushing and discarding\<close>

lemma buffer_size_Inr:
  "buffer_size s a = Inr known \<longleftrightarrow>
    known = (case buffer_sizes s (access_key a) of Some n \<Rightarrow> n | None \<Rightarrow> ca_buffer_size a) \<and>
    (ca_buffer_size a = None \<or> known = ca_buffer_size a) \<and>
    (\<forall>n. known = Some n \<longrightarrow> ca_offset a + ca_size a \<le> n)"
  by (auto simp: buffer_size_def step_simps split: option.splits if_splits)

lemma access_each_batch:
  assumes "cache_inv s" "\<forall>a \<in> set as. access_ok a" "check_batch s0 as sizes = Inr ()"
    "\<And>bk. case sizes bk of Some v \<Rightarrow> buffer_sizes s bk = Some v
       | None \<Rightarrow> buffer_sizes s bk = buffer_sizes s0 bk"
  shows "\<exists>rs s'. access_each as s = (Inr rs, s') \<and> cache_inv s' \<and> same_setup s s' \<and> length rs = length as"
  using assms
proof (induction as arbitrary: s sizes)
  case (Cons a as)
  let ?bk = "access_key a"
  let ?known = "case sizes ?bk of Some v \<Rightarrow> v | None \<Rightarrow>
     (case buffer_sizes s0 ?bk of Some n \<Rightarrow> n | None \<Rightarrow> ca_buffer_size a)"
  let ?sizes = "if sizes ?bk \<noteq> None then sizes else sizes(?bk \<mapsto> ?known)"
  have at: "the (?sizes ?bk) = ?known" by (auto split: option.split)
  have chk: "ca_buffer_size a = None \<or> ?known = ca_buffer_size a"
    "\<forall>n. ?known = Some n \<longrightarrow> ca_offset a + ca_size a \<le> n" "check_batch s0 as ?sizes = Inr ()"
    using Cons.prems(3) by (auto simp: Let_def split: if_splits option.splits)
  have "(case buffer_sizes s ?bk of Some n \<Rightarrow> n | None \<Rightarrow> ca_buffer_size a) = ?known"
    using Cons.prems(4) [of ?bk] by (cases "sizes ?bk") auto
  then have bs: "buffer_size s a = Inr ?known" using chk(1,2) by (simp only: buffer_size_Inr)
  have "access_ok a" using Cons.prems(2) by simp
  from access_cases [OF Cons.prems(1) this] bs obtain r s1 where
    ac: "access a s = (Inr r, s1)" "cache_inv s1" "same_setup s s1"
    "buffer_sizes s1 = (buffer_sizes s)(?bk \<mapsto> ?known)" by auto
  have "case ?sizes bk of Some v \<Rightarrow> buffer_sizes s1 bk = Some v
       | None \<Rightarrow> buffer_sizes s1 bk = buffer_sizes s0 bk" for bk
    using Cons.prems(4) [of bk] ac(4) by (auto split: option.splits)
  from Cons.IH [OF ac(2) _ chk(3) this] Cons.prems(2) obtain rs s2 where
    "access_each as s1 = (Inr rs, s2)" "cache_inv s2" "same_setup s1 s2" "length rs = length as" by auto
  then show ?case using ac same_setup_trans by (intro exI [of _ "r # rs"] exI [of _ s2]) auto
qed simp

definition wb_access :: "cache \<Rightarrow> cache_line \<Rightarrow> cache_access" where
  "wb_access s l = \<lparr>ca_buffer = cl_buffer l, ca_offset = cl_index l * line_bytes s, ca_size = cl_size l,
     ca_op = Cache_Write, ca_buffer_size = the (buffer_sizes s (cl_buffer l, cl_generation l)),
     ca_generation = cl_generation l\<rparr>"

lemma line_writeback_wb:
  assumes "line_ok s (k, l)" "0 < line_bytes s"
  shows "line_writeback s l = Inr (wb_access s l)"
proof -
  obtain bs where w: "line_writeback s l = Inr \<lparr>ca_buffer = fst k, ca_offset = snd (snd k) * line_bytes s,
      ca_size = cl_size l, ca_op = Cache_Write, ca_buffer_size = bs, ca_generation = fst (snd k)\<rparr>"
    by (rule line_writeback_ok [OF assms])
  have k: "cl_key l = k" using assms(1) by (simp add: line_ok_def)
  obtain b where b: "buffer_sizes s (cl_buffer l, cl_generation l) = Some b"
    using w by (cases "buffer_sizes s (cl_buffer l, cl_generation l)") (auto simp: line_writeback_def)
  have "b = bs" using w b unfolding line_writeback_def make_cache_access_def
    by (auto split: if_splits option.splits)
  then show ?thesis using w k b by (auto simp: wb_access_def cl_key_def)
qed

definition clean_matching :: "string option \<Rightarrow> int option \<Rightarrow> line_key \<times> cache_line \<Rightarrow> line_key \<times> cache_line" where
  "clean_matching b g p = (if flush_matches b g (fst p) (snd p) then (fst p, line_clean (snd p)) else p)"

lemma flush_lines_effect:
  assumes "cache_inv s" "cache_lines s = pre @ ls"
  shows "\<exists>r' s'. flush_lines b g ls r s = (Inr r', s') \<and> cache_inv s' \<and> same_setup s s'
    \<and> buffer_sizes s' = buffer_sizes s \<and> counters s' = counters s
    \<and> cache_lines s' = pre @ map (clean_matching b g) ls
    \<and> fl_backing r' = fl_backing r @ map (wb_access s \<circ> snd) (filter (\<lambda>(k, l). flush_matches b g k l) ls)
    \<and> writeback_bytes r' - op_bytes Cache_Write (fl_backing r') = writeback_bytes r - op_bytes Cache_Write (fl_backing r)
    \<and> flushed_lines r' - int (length (fl_backing r')) = flushed_lines r - int (length (fl_backing r))"
  using assms
proof (induction ls arbitrary: pre r s)
  case Nil
  then show ?case by (intro exI [of _ r] exI [of _ s]) simp
next
  case (Cons p ls)
  obtain k l where p: "p = (k, l)" by (cases p)
  show ?case
  proof (cases "flush_matches b g k l")
    case False
    have "cache_lines s = (pre @ [p]) @ ls" using Cons.prems(2) by simp
    from Cons.IH [OF Cons.prems(1) this, of r] show ?thesis
      using False p by (auto simp: clean_matching_def)
  next
    case True
    have lk: "linked s" and lb: "0 < line_bytes s" and lok: "line_ok s (k, l)"
      using Cons.prems p by (auto simp: cache_inv_def)
    have kn: "k \<notin> fst ` set pre" using lk Cons.prems(2) p by (simp add: linked_def wf_dict_def)
    note q = set_line_props [OF lk, of k "line_clean l"]
    let ?s = "set_line k (line_clean l) s"
    have L: "cache_lines ?s = (pre @ [(k, line_clean l)]) @ ls"
      unfolding q(1) Cons.prems(2) p using update_split [OF kn] by simp
    have "line_ok s (k, line_clean l)" using lok by (simp add: line_ok_def line_clean_def cl_key_def)
    then have inv: "cache_inv ?s"
      by (intro cache_inv_intro [OF Cons.prems(1) q(2,3,5)]) (use Cons.prems L in \<open>auto simp: cache_inv_def\<close>)
    let ?r = "r\<lparr>flushed_lines := flushed_lines r + 1, writeback_bytes := writeback_bytes r + cl_size l,
            fl_backing := fl_backing r @ [wb_access s l]\<rparr>"
    have wb: "wb_access ?s = wb_access s" using q(3,5) by (simp add: wb_access_def fun_eq_iff same_setup_def)
    have go: "flush_lines b g (p # ls) r s = flush_lines b g ls ?r ?s"
      using True line_writeback_wb [OF lok lb] by (simp add: p)
    from Cons.IH [OF inv L, of ?r] obtain r' s' where *: "flush_lines b g ls ?r ?s = (Inr r', s')" "cache_inv s'"
      "same_setup ?s s'" "buffer_sizes s' = buffer_sizes ?s" "counters s' = counters ?s"
      "cache_lines s' = (pre @ [(k, line_clean l)]) @ map (clean_matching b g) ls"
      "fl_backing r' = fl_backing ?r @ map (wb_access ?s \<circ> snd) (filter (\<lambda>(k, l). flush_matches b g k l) ls)"
      "writeback_bytes r' - op_bytes Cache_Write (fl_backing r') = writeback_bytes ?r - op_bytes Cache_Write (fl_backing ?r)"
      "flushed_lines r' - int (length (fl_backing r')) = flushed_lines ?r - int (length (fl_backing ?r))" by blast
    have "same_setup s s'" using q(3) *(3) by (rule same_setup_trans)
    moreover have "clean_matching b g p = (k, line_clean l)" using True p by (simp add: clean_matching_def)
    moreover have "filter (\<lambda>(k, l). flush_matches b g k l) (p # ls) = p # filter (\<lambda>(k, l). flush_matches b g k l) ls"
      using True p by simp
    ultimately show ?thesis
      using go * q(5,6) wb p by (intro exI [of _ r'] exI [of _ s']) (simp add: wb_access_def)
  qed
qed

lemma pop_lines_effect:
  assumes "linked s"
  shows "cache_lines (pop_lines ks s) = filter (\<lambda>p. fst p \<notin> set ks) (cache_lines s)
    \<and> linked (pop_lines ks s) \<and> same_setup s (pop_lines ks s)
    \<and> buffer_sizes (pop_lines ks s) = buffer_sizes s \<and> counters (pop_lines ks s) = counters s"
  using assms
proof (induction ks arbitrary: s)
  case (Cons k ks)
  note p = pop_line_props [OF Cons.prems, of k]
  have "pop_lines (k # ks) s = pop_lines ks (snd (pop_line k s))" by (simp add: pop_lines_def)
  moreover have "filter (\<lambda>p. fst p \<notin> set ks) (AList.delete k (cache_lines s)) =
      filter (\<lambda>p. fst p \<notin> set (k # ks)) (cache_lines s)"
    by (simp add: AList.delete_eq) (auto intro: filter_cong)
  ultimately show ?case using Cons.IH [OF p(3)] p(2,4,6,7) same_setup_trans by auto
qed (simp add: pop_lines_def)

text \<open>In whatever order the keys are popped, the lines and the indexes are the same.\<close>

lemma pop_lines_order:
  assumes "linked s" "set ks = set ks'"
  shows "cache_lines (pop_lines ks s) = cache_lines (pop_lines ks' s)"
    "lru_prev (pop_lines ks s) = lru_prev (pop_lines ks' s)"
    "lru_next (pop_lines ks s) = lru_next (pop_lines ks' s)"
    "buffer_line_keys (pop_lines ks s) = buffer_line_keys (pop_lines ks' s)"
proof -
  have e: "linked (pop_lines ks s)" "linked (pop_lines ks' s)"
    and l: "cache_lines (pop_lines ks s) = cache_lines (pop_lines ks' s)"
    using pop_lines_effect [OF assms(1)] assms(2) by auto
  then show "cache_lines (pop_lines ks s) = cache_lines (pop_lines ks' s)"
    "lru_prev (pop_lines ks s) = lru_prev (pop_lines ks' s)"
    "lru_next (pop_lines ks s) = lru_next (pop_lines ks' s)"
    "buffer_line_keys (pop_lines ks s) = buffer_line_keys (pop_lines ks' s)"
    by (auto simp: linked_def keys_of_def)
qed

lemma discard_effect:
  assumes inv: "cache_inv s"
  shows "cache_inv (discard_buffer b g s)"
    "cache_lines (discard_buffer b g s) = filter (\<lambda>p. buffer_of (fst p) \<noteq> (b, g)) (cache_lines s)"
    "same_setup s (discard_buffer b g s)" "counters (discard_buffer b g s) = counters s"
    "buffer_sizes (discard_buffer b g s) = (buffer_sizes s)((b, g) := None)"
proof -
  have lk: "linked s" using inv by (simp add: cache_inv_def)
  let ?ks = "case buffer_line_keys s (b, g) of None \<Rightarrow> {} | Some ks \<Rightarrow> ks"
  have ks: "?ks = keys_in (keys_of s) (b, g)" using lk by (simp add: linked_def index_map_def)
  have fin: "finite ?ks" unfolding ks by (simp add: keys_in_def)
  define t where "t = pop_lines (sorted_list_of_set ?ks) s"
  have d: "discard_buffer b g s = (remember_buffer (b, g) t)\<lparr>buffer_sizes := (buffer_sizes t)((b, g) := None)\<rparr>"
    by (simp add: discard_buffer_def Let_def t_def remember_buffer_props)
  have "\<And>p. p \<in> set (cache_lines s) \<Longrightarrow> fst p \<in> ?ks \<longleftrightarrow> buffer_of (fst p) = (b, g)"
    unfolding ks by (auto simp: keys_in_def keys_of_def)
  then have L: "cache_lines t = filter (\<lambda>p. buffer_of (fst p) \<noteq> (b, g)) (cache_lines s)"
    using pop_lines_effect [OF lk, of "sorted_list_of_set ?ks"] fin
    by (auto simp: t_def intro: filter_cong)
  have t: "linked t" "same_setup s t" "buffer_sizes t = buffer_sizes s" "counters t = counters s"
    using pop_lines_effect [OF lk, of "sorted_list_of_set ?ks"] by (auto simp: t_def)
  show L': "cache_lines (discard_buffer b g s) = filter (\<lambda>p. buffer_of (fst p) \<noteq> (b, g)) (cache_lines s)"
    unfolding d using L by (simp add: remember_buffer_props)
  show fr: "same_setup s (discard_buffer b g s)" "counters (discard_buffer b g s) = counters s"
    "buffer_sizes (discard_buffer b g s) = (buffer_sizes s)((b, g) := None)"
    unfolding d using t remember_buffer_props(3) [of t "(b, g)"]
    by (auto simp: remember_buffer_props same_setup_def)
  have lk': "linked (discard_buffer b g s)" unfolding d using t by (simp add: remember_buffer_props)
  have "line_ok (discard_buffer b g s) p" if "p \<in> set (cache_lines (discard_buffer b g s))" for p
    using that inv L' fr by (auto simp: cache_inv_def line_ok_def same_setup_def)
  moreover have "length (cache_lines (discard_buffer b g s)) \<le> length (cache_lines s)"
    unfolding L' by (rule length_filter_le)
  ultimately show "cache_inv (discard_buffer b g s)"
    using inv fr lk' by (auto simp: cache_inv_def same_setup_def)
qed

end
