(* ===== verification/Cache_Props.thy ===== *)
theory Cache_Props
  imports Cache_State
begin

text \<open>
  The cache as a state machine over every public operation of \<open>ExplicitCacheState\<close>, and the
  properties of the component: the invariant of reachable states, the equivalence of \<open>access\<close>
  with an ideal LRU list, the traffic it accounts for, the safety of dirty data, atomicity of
  batches, flushing, and the rollback of transactions.
\<close>

definition cache_start :: "cache \<Rightarrow> bool" where
  "cache_start s \<longleftrightarrow> (\<exists>capacity line wb wa. new_cache capacity line wb wa = Inr s)"

inductive cache_work :: "cache \<Rightarrow> cache \<Rightarrow> bool" where
  work_access: "access_ok a \<Longrightarrow> cache_work s (snd (access a s))"
| work_access_many: "\<forall>a \<in> set as. access_ok a \<Longrightarrow> cache_work s (snd (access_many as s))"
| work_discard: "cache_work s (discard_buffer b g s)"
| work_flush: "cache_work s (snd (flush fb fg s))"

inductive cache_step :: "cache \<Rightarrow> cache \<Rightarrow> bool" where
  step_work: "cache_work s s' \<Longrightarrow> cache_step s s'"
| step_begin: "cache_step s (snd (begin_transaction s))"
| step_commit: "cache_step s (snd (commit_transaction h s))"
| step_rollback: "cache_step s (snd (rollback_transaction h s))"

inductive_cases cache_workE: "cache_work s s'"
inductive_cases cache_stepE: "cache_step s s'"

definition cache_full_inv :: "cache \<Rightarrow> bool" where
  "cache_full_inv s \<longleftrightarrow> cache_inv s \<and> (transaction s \<noteq> None \<longrightarrow>
     (\<exists>s0. cache_inv s0 \<and> transaction s0 = None \<and> 0 < next_tx s0 \<and> undoes s0 s))"

lemma cache_inv_tx [simp]: "cache_inv (s\<lparr>transaction := t\<rparr>) = cache_inv s"
  "cache_inv (s\<lparr>next_tx := n\<rparr>) = cache_inv s"
  by (auto simp: cache_inv_def linked_def keys_of_def line_ok_def)

lemma cache_start_inv: "cache_start s \<Longrightarrow> cache_full_inv s"
proof -
  assume "cache_start s"
  then obtain capacity line wb wa where n: "new_cache capacity line wb wa = Inr s"
    by (auto simp: cache_start_def)
  then have c: "0 < line" "line \<le> capacity" "line dvd capacity"
    and s: "line_bytes s = line" "capacity_bytes s = capacity" "capacity_lines s = capacity div line"
      "cache_lines s = []" "linked s" "transaction s = None"
    by (auto simp: new_cache_def linked_def keys_of_def maps_Nil mod_eq_0_iff_dvd split: if_splits)
  then have "0 < capacity div line" by (simp add: pos_imp_zdiv_pos_iff)
  then show ?thesis using c s by (simp add: cache_full_inv_def cache_inv_def)
qed

lemma micro_tx_None: "micro\<^sup>*\<^sup>* s s' \<Longrightarrow> linked s \<Longrightarrow> transaction s = None \<Longrightarrow> linked s' \<and> transaction s' = None"
proof (induction rule: rtranclp_induct)
  case (step t u)
  then have lk: "linked t" "transaction t = None" by auto
  from step.hyps(2) show ?case
  proof cases
    case (micro_pop k)
    then show ?thesis using pop_line_props [OF lk(1), of k] lk(2) by (simp add: journal_def)
  next
    case (micro_set k v)
    then show ?thesis using set_line_props [OF lk(1), of k v] lk(2) by (simp add: journal_def)
  qed (use lk in \<open>auto simp: remember_buffer_def\<close>)
qed simp

lemma full_inv_run:
  assumes "cache_full_inv s" "micro\<^sup>*\<^sup>* s s'" "cache_inv s'"
  shows "cache_full_inv s'"
proof (cases "transaction s")
  case None
  then show ?thesis using micro_tx_None [OF assms(2)] assms(1,3)
    by (simp add: cache_full_inv_def cache_inv_def)
next
  case (Some t)
  then show ?thesis using assms undoes_run [OF assms(2)] unfolding cache_full_inv_def by blast
qed

lemma access_inv: "cache_inv s \<Longrightarrow> access_ok a \<Longrightarrow> cache_inv (snd (access a s))"
  using access_cases [of s a] by (cases "buffer_size s a") auto

lemma access_many_inv:
  assumes "cache_inv s" "\<forall>a \<in> set as. access_ok a"
  shows "cache_inv (snd (access_many as s))"
proof (cases "check_batch s as Map.empty")
  case (Inr u)
  then show ?thesis using access_each_batch [OF assms, of s Map.empty]
    by (auto simp: access_many_def)
qed (simp add: access_many_def assms)

lemma flush_cases:
  assumes inv: "cache_inv s" and g: "\<forall>n. g = Some n \<longrightarrow> 0 \<le> n" and b: "\<forall>x. b = Some x \<longrightarrow> strip x \<noteq> []"
  defines "m \<equiv> map_option strip b"
  obtains r s' where "flush b g s = (Inr r, s')" "cache_inv s'" "same_setup s s'"
    "buffer_sizes s' = buffer_sizes s" "cache_lines s' = map (clean_matching m g) (cache_lines s)"
    "fl_backing r = map (wb_access s \<circ> snd) (filter (\<lambda>(k, l). flush_matches m g k l) (cache_lines s))"
    "writeback_bytes r = op_bytes Cache_Write (fl_backing r)"
    "flushed_lines r = int (length (fl_backing r))"
proof -
  let ?r0 = "\<lparr>fl_buffer = m, flushed_lines = 0, writeback_bytes = 0, fl_backing = []\<rparr>"
  obtain r s1 where *: "flush_lines m g (cache_lines s) ?r0 s = (Inr r, s1)" "cache_inv s1" "same_setup s s1"
    "buffer_sizes s1 = buffer_sizes s" "cache_lines s1 = map (clean_matching m g) (cache_lines s)"
    "fl_backing r = map (wb_access s \<circ> snd) (filter (\<lambda>(k, l). flush_matches m g k l) (cache_lines s))"
    "writeback_bytes r = op_bytes Cache_Write (fl_backing r)" "flushed_lines r = int (length (fl_backing r))"
    using flush_lines_effect [OF inv, of "[]" "cache_lines s" m g ?r0] by auto
  let ?s = "s1\<lparr>counters := (counters s1)\<lparr>
            n_flush_writeback_bytes := n_flush_writeback_bytes (counters s1) + writeback_bytes r\<rparr>\<rparr>"
  have chk: "\<not> (case g of None \<Rightarrow> False | Some g \<Rightarrow> g < 0)" "\<not> (case b of None \<Rightarrow> False | Some b \<Rightarrow> strip b = [])"
    using g b by (auto split: option.splits)
  have "flush b g s = (Inr r, ?s)"
    unfolding flush_def if_not_P [OF chk(1)] if_not_P [OF chk(2)] Let_def m_def [symmetric] *(1)
    by simp
  moreover have "cache_inv ?s"
    by (rule cache_inv_intro [OF *(2)]) (use *(2) in \<open>auto simp: cache_inv_def\<close>)
  ultimately show ?thesis using that [of r ?s] * by simp
qed

lemma flush_inv: "cache_inv s \<Longrightarrow> cache_inv (snd (flush b g s))"
proof -
  assume inv: "cache_inv s"
  show ?thesis
  proof (cases "(\<forall>n. g = Some n \<longrightarrow> 0 \<le> n) \<and> (\<forall>x. b = Some x \<longrightarrow> strip x \<noteq> [])")
    case True
    have pre: "\<forall>n. g = Some n \<longrightarrow> 0 \<le> n" "\<forall>x. b = Some x \<longrightarrow> strip x \<noteq> []" using True by blast+
    obtain r s' where "flush b g s = (Inr r, s')" "cache_inv s'"
      by (rule flush_cases [OF inv pre])
    then show ?thesis by simp
  next
    case False
    let ?g = "case g of None \<Rightarrow> False | Some n \<Rightarrow> n < 0"
    let ?b = "case b of None \<Rightarrow> False | Some x \<Rightarrow> strip x = []"
    have "?g \<or> ?b" using False by (cases g; cases b) auto
    then have "snd (flush b g s) = s" unfolding flush_def by (cases ?g) simp_all
    then show ?thesis using inv by simp
  qed
qed

lemma cache_work_run:
  assumes "cache_inv s" "cache_work s s'"
  shows "micro\<^sup>*\<^sup>* s s' \<and> cache_inv s'"
  using assms(2)
proof cases
  case (work_access a)
  then show ?thesis using run_access access_inv [OF assms(1)] by simp
next
  case (work_access_many as)
  then show ?thesis using run_access_many access_many_inv [OF assms(1)] by simp
next
  case (work_discard b g)
  then show ?thesis using run_discard discard_effect(1) [OF assms(1)] by simp
next
  case (work_flush b g)
  then show ?thesis using run_flush flush_inv [OF assms(1)] by simp
qed

lemma cache_work_runs: "cache_work\<^sup>*\<^sup>* s s' \<Longrightarrow> cache_inv s \<Longrightarrow> micro\<^sup>*\<^sup>* s s' \<and> cache_inv s'"
  by (induction rule: rtranclp_induct) (auto dest: cache_work_run intro: micro_run_trans)

lemma cache_step_inv:
  assumes "cache_full_inv s" "cache_step s s'"
  shows "cache_full_inv s'"
proof -
  have inv: "cache_inv s" using assms(1) by (simp add: cache_full_inv_def)
  from assms(2) show ?thesis
  proof cases
    case step_work
    then show ?thesis using full_inv_run [OF assms(1)] cache_work_run [OF inv] by blast
  next
    case step_begin
    show ?thesis
    proof (cases "transaction s")
      case None
      have lk: "linked s" using inv by (simp add: cache_inv_def)
      have "begin_transaction s = (Inr (Some (next_tx s)), s')" using None step_begin
        by (simp add: begin_transaction_def)
      from undoes_begin(3) [OF lk this] show ?thesis using inv None step_begin
        by (auto simp: cache_full_inv_def begin_transaction_def
            intro!: exI [of _ "s\<lparr>next_tx := Suc (next_tx s)\<rparr>"])
    qed (use step_begin assms(1) in \<open>simp add: begin_transaction_def\<close>)
  next
    case (step_commit h)
    then show ?thesis using assms(1) by (auto simp: cache_full_inv_def commit_transaction_def)
  next
    case (step_rollback h)
    show ?thesis
    proof (cases "h = map_option tx_id (transaction s) \<and> transaction s \<noteq> None")
      case True
      then obtain t s0 where t: "transaction s = Some t" "h = Some (tx_id t)"
        and s0: "cache_inv s0" "undoes s0 s"
        using assms(1) by (auto simp: cache_full_inv_def)
      have "tx_id t = next_tx s0 - 1" using s0(2) t(1) by (auto simp: undoes_def)
      then have "s' = s0\<lparr>transaction := None\<rparr>"
        using rollback_undoes [OF s0(2)] s0(1) t(2) step_rollback by (simp add: cache_inv_def)
      then show ?thesis using s0(1) by (simp add: cache_full_inv_def)
    next
      case False
      then have "s' = s" using step_rollback by (auto simp: rollback_transaction_def)
      then show ?thesis using assms(1) by simp
    qed
  qed
qed

interpretation cache_machine: state_machine cache_start cache_step cache_full_inv
  by unfold_locales (auto intro: cache_start_inv cache_step_inv)


section \<open>Example states\<close>

definition example_cache :: cache where
  "example_cache = projr (new_cache 128 64 True True)"

definition example_access :: cache_access where
  "example_access = \<lparr>ca_buffer = ''w'', ca_offset = 10, ca_size = 150, ca_op = Cache_Write,
     ca_buffer_size = Some 200, ca_generation = 0\<rparr>"

lemma example_cache_reach: "reach cache_start cache_step example_cache"
proof -
  have "new_cache 128 64 True True = Inr example_cache" by (simp add: example_cache_def new_cache_def)
  then show ?thesis by (intro reach_start) (auto simp: cache_start_def)
qed

lemma example_access_ok: "access_ok example_access"
  by code_simp

lemma example_access_runs: "access example_access example_cache =
    (Inr (projr (fst (access example_access example_cache))), snd (access example_access example_cache))"
proof -
  have "fst (access example_access example_cache) = Inr (projr (fst (access example_access example_cache)))"
    by code_simp
  then show ?thesis by (simp add: prod_eq_iff)
qed

section \<open>Properties\<close>

text \<open>C10: in every reachable state of the cache the line keys are distinct, the lines fit the
  capacity in number and in bytes, the LRU links and the per-buffer index agree with the order
  of the lines, and every line has its buffer's size remembered.\<close>

theorem cache_reachable_invariant:
  assumes "reach cache_start cache_step s"
  shows "distinct (keys_of s) \<and> int (length (cache_lines s)) \<le> capacity_lines s
    \<and> (\<Sum>l\<leftarrow>resident_lines s. cl_size l) \<le> capacity_bytes s
    \<and> lru_prev s = prev_map (keys_of s) \<and> lru_next s = next_map (keys_of s)
    \<and> buffer_line_keys s = index_map (keys_of s)
    \<and> (\<forall>(k, l) \<in> set (cache_lines s). cl_key l = k \<and> buffer_sizes s (buffer_of k) \<noteq> None
         \<and> 0 < cl_size l \<and> cl_size l \<le> line_bytes s)"
proof -
  have inv: "cache_inv s" using cache_machine.reach_inv [OF assms] by (simp add: cache_full_inv_def)
  have le: "cl_key l = k \<and> buffer_sizes s (buffer_of k) \<noteq> None \<and> 0 < cl_size l \<and> cl_size l \<le> line_bytes s"
    if "(k, l) \<in> set (cache_lines s)" for k l
    using inv that by (fastforce simp: cache_inv_def line_ok_def line_extent_def split: option.splits)
  have "(\<Sum>l\<leftarrow>ls. cl_size l) \<le> int (length ls) * line_bytes s" if "set ls \<subseteq> snd ` set (cache_lines s)" for ls
    using that by (induction ls) (use le in \<open>fastforce simp: algebra_simps\<close>)+
  from this [of "resident_lines s"] have "(\<Sum>l\<leftarrow>resident_lines s. cl_size l) \<le> int (length (cache_lines s)) * line_bytes s"
    by (simp add: resident_lines_def)
  also have "\<dots> \<le> capacity_lines s * line_bytes s"
    using inv by (intro mult_right_mono) (auto simp: cache_inv_def)
  finally show ?thesis using inv le by (auto simp: cache_inv_def linked_def wf_dict_def keys_of_def)
qed

theorem cache_reachable_invariant_witness:
  "(\<Sum>l\<leftarrow>resident_lines (snd (access example_access example_cache)). cl_size l) \<le> 128"
proof -
  have "reach cache_start cache_step (snd (access example_access example_cache))"
    by (rule reach_step [OF example_cache_reach step_work [OF work_access [OF example_access_ok]]])
  from cache_reachable_invariant [OF this]
  have "(\<Sum>l\<leftarrow>resident_lines (snd (access example_access example_cache)). cl_size l)
      \<le> capacity_bytes (snd (access example_access example_cache))" by blast
  moreover have "capacity_bytes (snd (access example_access example_cache)) = 128" by code_simp
  ultimately show ?thesis by simp
qed

text \<open>C11: \<open>access\<close> refines an ideal LRU list: it fails, changing nothing, exactly when its buffer
  size check fails, and otherwise the order of the resident keys is that of a list in which each
  touched line moves to the end, and a full cache drops its first line for a new one.\<close>

theorem access_refines_lru:
  assumes "reach cache_start cache_step s" "access_ok a"
  shows "case buffer_size s a of
      Inl e \<Rightarrow> access a s = (Inl e, s)
    | Inr known \<Rightarrow> \<exists>r s'. access a s = (Inr r, s') \<and> keys_of s' =
        fold (lru_touch (nat (capacity_lines s)) (ca_op a = Cache_Read \<or> write_allocate s))
          (access_keys s a) (keys_of s)"
  using access_cases [OF _ assms(2), of s] cache_machine.reach_inv [OF assms(1)]
  by (cases "buffer_size s a") (auto simp: cache_full_inv_def)

theorem access_refines_lru_witness:
  "keys_of (snd (access example_access example_cache)) = [(''w'', 0, 1), (''w'', 0, 2)]"
proof -
  have "buffer_size example_cache example_access = Inr (Some 200)" by code_simp
  with access_refines_lru [OF example_cache_reach example_access_ok]
  have "keys_of (snd (access example_access example_cache)) =
    fold (lru_touch (nat (capacity_lines example_cache))
      (ca_op example_access = Cache_Read \<or> write_allocate example_cache))
      (access_keys example_cache example_access) (keys_of example_cache)" by auto
  also have "\<dots> = [(''w'', 0, 1), (''w'', 0, 2)]" by code_simp
  finally show ?thesis .
qed

text \<open>C12: the accounting of an access is exact: hits and misses add up to the lines touched, the
  listed backing reads and writes add up to the reported byte totals, and the cache's counters
  advance by exactly what the result reports.\<close>

theorem access_accounting:
  assumes "reach cache_start cache_step s" "access_ok a" "access a s = (Inr r, s')"
  shows "touched_lines r = line_count s a \<and> hit_lines r + miss_lines r = touched_lines r
    \<and> op_bytes Cache_Read (backing_accesses r) = backing_read_bytes r
    \<and> op_bytes Cache_Write (backing_accesses r) = backing_write_bytes r
    \<and> n_access_count (counters s') = n_access_count (counters s) + 1
    \<and> n_hit_lines (counters s') = n_hit_lines (counters s) + hit_lines r
    \<and> n_miss_lines (counters s') = n_miss_lines (counters s) + miss_lines r
    \<and> n_eviction_lines (counters s') = n_eviction_lines (counters s) + evicted_lines r
    \<and> n_dirty_eviction_bytes (counters s') = n_dirty_eviction_bytes (counters s) + dirty_eviction_bytes r
    \<and> n_write_through_bytes (counters s') = n_write_through_bytes (counters s) + write_through_bytes r
    \<and> n_bypass_write_bytes (counters s') = n_bypass_write_bytes (counters s) + bypass_write_bytes r
    \<and> n_read_fill_bytes (counters s') = n_read_fill_bytes (counters s) + read_fill_bytes r"
  using access_cases [OF _ assms(2), of s] cache_machine.reach_inv [OF assms(1)] assms(3)
  by (cases "buffer_size s a")
    (auto simp: cache_full_inv_def book_gap_def no_result_def backing_read_bytes_def
      backing_write_bytes_def evicted_lines_def)

theorem access_accounting_witness:
  "hit_lines (projr (fst (access example_access example_cache)))
     + miss_lines (projr (fst (access example_access example_cache))) = 3"
proof -
  have "line_count example_cache example_access = 3" by code_simp
  then show ?thesis
    using access_accounting [OF example_cache_reach example_access_ok example_access_runs] by simp
qed

text \<open>C13: no dirty line is lost by an access: a line that was dirty is still resident and dirty
  with the same number of bytes, or the access lists a backing write of exactly these bytes.\<close>

theorem access_keeps_dirty_data:
  assumes "reach cache_start cache_step s" "access_ok a" "access a s = (Inr r, s')" "dirty_at s k n"
  shows "dirty_at s' k n \<or> written_back (line_bytes s) (backing_accesses r) k n"
proof (cases "buffer_size s a")
  case (Inl e)
  then show ?thesis
    using access_cases [OF _ assms(2), of s] cache_machine.reach_inv [OF assms(1)] assms(3)
    by (simp add: cache_full_inv_def)
next
  case (Inr known)
  have inv: "cache_inv s" using cache_machine.reach_inv [OF assms(1)] by (simp add: cache_full_inv_def)
  have "\<forall>k n. dirty_at s k n \<longrightarrow> dirty_at s' k n \<or> written_back (line_bytes s) (backing_accesses r) k n"
    using access_cases [OF inv assms(2)] Inr assms(3) by simp
  then show ?thesis using assms(4) by blast
qed

definition example_dirty :: cache where
  "example_dirty = snd (access example_access example_cache)"

definition example_other :: cache_access where
  "example_other = \<lparr>ca_buffer = ''v'', ca_offset = 0, ca_size = 64, ca_op = Cache_Read,
     ca_buffer_size = None, ca_generation = 0\<rparr>"

theorem access_keeps_dirty_data_witness:
  "written_back 64 (backing_accesses (projr (fst (access example_other example_dirty)))) (''w'', 0, 1) 64"
proof -
  have r: "reach cache_start cache_step example_dirty" unfolding example_dirty_def
    by (rule reach_step [OF example_cache_reach step_work [OF work_access [OF example_access_ok]]])
  have "fst (access example_other example_dirty) = Inr (projr (fst (access example_other example_dirty)))"
    by code_simp
  then have run: "access example_other example_dirty = (Inr (projr (fst (access example_other example_dirty))),
      snd (access example_other example_dirty))" by (simp add: prod_eq_iff)
  have ok: "access_ok example_other" by code_simp
  have "map_of (cache_lines example_dirty) (''w'', 0, 1) =
      Some \<lparr>cl_buffer = ''w'', cl_index = 1, cl_size = 64, cl_dirty = True, cl_generation = 0\<rparr>" by code_simp
  then have d: "dirty_at example_dirty (''w'', 0, 1) 64" by (simp add: dirty_at_def)
  have "map_of (cache_lines (snd (access example_other example_dirty))) (''w'', 0, 1) = None" by code_simp
  then have "\<not> dirty_at (snd (access example_other example_dirty)) (''w'', 0, 1) 64" by (simp add: dirty_at_def)
  moreover have "line_bytes example_dirty = 64" by code_simp
  ultimately show ?thesis using access_keeps_dirty_data [OF r ok run d] by simp
qed

text \<open>C14: \<open>access_many\<close> is atomic: if its check of the batch fails nothing changes, and if it
  passes every access of the batch succeeds.\<close>

theorem access_many_atomic:
  assumes "reach cache_start cache_step s" "\<forall>a \<in> set as. access_ok a"
  shows "case check_batch s as Map.empty of
      Inl e \<Rightarrow> access_many as s = (Inl e, s)
    | Inr _ \<Rightarrow> \<exists>rs s'. access_many as s = (Inr rs, s') \<and> length rs = length as"
proof (cases "check_batch s as Map.empty")
  case (Inr u)
  have "cache_inv s" using cache_machine.reach_inv [OF assms(1)] by (simp add: cache_full_inv_def)
  from access_each_batch [OF this assms(2), of s Map.empty] Inr show ?thesis
    by (auto simp: access_many_def)
qed (simp add: access_many_def)

theorem access_many_atomic_witness:
  "\<exists>rs s'. access_many [example_access, example_other] example_cache = (Inr rs, s') \<and> length rs = 2"
proof -
  have ok: "\<forall>a \<in> set [example_access, example_other]. access_ok a" by code_simp
  have "check_batch example_cache [example_access, example_other] Map.empty = Inr ()" by code_simp
  with access_many_atomic [OF example_cache_reach ok] show ?thesis by (simp add: numeral_2_eq_2)
qed

text \<open>C15: \<open>flush\<close> succeeds for valid arguments, leaves the resident lines and their order alone,
  makes every matching line clean and no other, and lists one backing write for each line that was
  dirty, of its bytes.\<close>

theorem flush_cleans:
  assumes "reach cache_start cache_step s" "\<forall>n. g = Some n \<longrightarrow> 0 \<le> n" "\<forall>x. b = Some x \<longrightarrow> strip x \<noteq> []"
  shows "\<exists>r s'. flush b g s = (Inr r, s')
    \<and> cache_lines s' = map (clean_matching (map_option strip b) g) (cache_lines s)
    \<and> fl_backing r = map (wb_access s \<circ> snd)
         (filter (\<lambda>(k, l). flush_matches (map_option strip b) g k l) (cache_lines s))
    \<and> writeback_bytes r = op_bytes Cache_Write (fl_backing r)
    \<and> flushed_lines r = int (length (fl_backing r))"
proof -
  have inv: "cache_inv s" using cache_machine.reach_inv [OF assms(1)] by (simp add: cache_full_inv_def)
  show ?thesis by (rule flush_cases [OF inv assms(2,3)]) blast
qed

theorem flush_cleans_witness:
  "\<exists>r s'. flush None None example_dirty = (Inr r, s') \<and> \<not> list_ex cl_dirty (resident_lines s')"
proof -
  have r: "reach cache_start cache_step example_dirty" unfolding example_dirty_def
    by (rule reach_step [OF example_cache_reach step_work [OF work_access [OF example_access_ok]]])
  obtain r s' where f: "flush None None example_dirty = (Inr r, s')"
    "cache_lines s' = map (clean_matching None None) (cache_lines example_dirty)"
    using flush_cleans [OF r, of None None] by auto
  have "\<not> list_ex (cl_dirty \<circ> snd) (map (clean_matching None None) (cache_lines example_dirty))" by code_simp
  with f show ?thesis by (auto simp: resident_lines_def list_ex_iff)
qed

text \<open>C16: rolling a transaction back restores the cache exactly: lines in their order, links, index,
  remembered sizes and counters, whatever was accessed, discarded and flushed since it began.\<close>

theorem rollback_restores:
  assumes "reach cache_start cache_step s" "begin_transaction s = (Inr h, s1)" "cache_work\<^sup>*\<^sup>* s1 s2"
  shows "rollback_transaction h s2 = (Inr (), s\<lparr>next_tx := next_tx s + 1\<rparr>)"
proof -
  have inv: "cache_inv s" using cache_machine.reach_inv [OF assms(1)] by (simp add: cache_full_inv_def)
  have lk: "linked s" using inv by (simp add: cache_inv_def)
  note b = undoes_begin [OF lk assms(2)]
  have "cache_inv s1" using inv assms(2) by (auto simp: begin_transaction_def split: if_splits)
  then have "micro\<^sup>*\<^sup>* s1 s2" using cache_work_runs [OF assms(3)] by simp
  then have "undoes (s\<lparr>next_tx := Suc (next_tx s)\<rparr>) s2" using b(3) by (rule undoes_run)
  moreover have "linked (s\<lparr>next_tx := Suc (next_tx s)\<rparr>)" using lk by (simp add: linked_def keys_of_def)
  ultimately have "rollback_transaction h s2 = (Inr (), s\<lparr>next_tx := Suc (next_tx s), transaction := None\<rparr>)"
    using rollback_undoes b(1) by fastforce
  also have "s\<lparr>next_tx := Suc (next_tx s), transaction := None\<rparr> = s\<lparr>next_tx := next_tx s + 1\<rparr>"
    using b(2) by (auto intro!: cache.equality)
  finally show ?thesis .
qed

theorem rollback_restores_witness:
  "cache_lines (snd (rollback_transaction (Some 0)
     (snd (access example_access (snd (begin_transaction example_cache)))))) = []"
proof -
  let ?s1 = "snd (begin_transaction example_cache)"
  have t: "transaction example_cache = None" "next_tx example_cache = 0" "cache_lines example_cache = []"
    by (simp_all add: example_cache_def new_cache_def)
  have b: "begin_transaction example_cache = (Inr (Some 0), ?s1)"
    using t by (simp add: begin_transaction_def)
  have "cache_work\<^sup>*\<^sup>* ?s1 (snd (access example_access ?s1))"
    by (intro r_into_rtranclp work_access example_access_ok)
  from rollback_restores [OF example_cache_reach b this] show ?thesis using t by simp
qed

end
