(* ===== verification/Byte_Ranges.thy ===== *)
theory Byte_Ranges
  imports Prelude
begin

text \<open>
  The byte-range algebra of \<open>residency.py\<close> (\<open>_merge_ranges\<close>, \<open>_subtract_ranges\<close>,
  \<open>_intersect_ranges\<close>, the backing-unit helpers and the recency ranges), and its meaning:
  a list of half-open ranges stands for the set of bytes it covers. A list is \<open>canonical\<close>
  when its ranges are nonempty, in address order and never touch; two canonical lists that
  cover the same bytes are equal, so the canonical list is a normal form of a byte set. The free
  extents of the physical allocator are kept in the same form.
\<close>

type_synonym byte_range = "int \<times> int"

section \<open>The bytes of a list of ranges\<close>

definition covered :: "byte_range list \<Rightarrow> int set" where
  "covered rs = (\<Union>(s, e) \<in> set rs. {s..<e})"

definition canonical :: "byte_range list \<Rightarrow> bool" where
  "canonical rs \<longleftrightarrow> sorted_wrt (\<lambda>a b. snd a < fst b) rs \<and> (\<forall>(s, e) \<in> set rs. s < e)"

named_theorems covered_simps \<open>the bytes that composed range lists cover\<close>

lemma covered_Nil [simp, covered_simps]: "covered [] = {}"
  by (simp add: covered_def)

lemma covered_Cons [covered_simps]: "covered ((s, e) # rs) = {s..<e} \<union> covered rs"
  by (simp add: covered_def)

lemma covered_append [covered_simps]: "covered (rs @ rs') = covered rs \<union> covered rs'"
  by (auto simp: covered_def)

lemma in_covered: "x \<in> covered rs \<longleftrightarrow> (\<exists>s e. (s, e) \<in> set rs \<and> s \<le> x \<and> x < e)"
  by (simp add: covered_def split_beta) (metis fst_conv prod.collapse snd_conv)

lemma covered_cong: "set rs = set rs' \<Longrightarrow> covered rs = covered rs'"
  by (simp add: covered_def)

lemma covered_filter_nonempty: "covered (filter (\<lambda>(s, e). s < e) rs) = covered rs"
  by (auto simp: covered_def)

lemma finite_covered [simp]: "finite (covered rs)"
  by (auto simp: covered_def)

lemma canonical_Nil [simp]: "canonical []"
  by (simp add: canonical_def)

lemma canonical_Cons:
  "canonical ((s, e) # rs) \<longleftrightarrow> s < e \<and> (\<forall>(s', e') \<in> set rs. e < s') \<and> canonical rs"
  by (auto simp: canonical_def)

lemma canonical_append:
  "canonical (rs @ rs') \<longleftrightarrow> canonical rs \<and> canonical rs' \<and>
     (\<forall>(s, e) \<in> set rs. \<forall>(s', e') \<in> set rs'. e < s')"
  by (fastforce simp: canonical_def sorted_wrt_append)

lemma canonicalD:
  assumes "canonical rs" "(s, e) \<in> set rs"
  shows "s < e" and "(s', e') \<in> set rs \<Longrightarrow> (s', e') = (s, e) \<or> e < s' \<or> e' < s"
proof -
  show "s < e" using assms by (auto simp: canonical_def)
  show "(s', e') = (s, e) \<or> e < s' \<or> e' < s" if "(s', e') \<in> set rs"
    using assms that by (induction rs) (auto simp: canonical_Cons split: prod.splits)
qed

text \<open>A range of a canonical list is a maximal run of covered bytes.\<close>

lemma canonical_maximal:
  assumes "canonical rs" "(s, e) \<in> set rs"
  shows "s - 1 \<notin> covered rs" "e \<notin> covered rs" "s < e" "{s..<e} \<subseteq> covered rs"
proof -
  show se: "s < e" using canonicalD [OF assms] by simp
  have "(s', e') = (s, e) \<or> e < s' \<or> e' < s" "s' < e'" if "(s', e') \<in> set rs" for s' e'
    using canonicalD(2) [OF assms] canonicalD(1) [OF assms(1)] that by blast+
  then have d: "s' = s \<and> e' = e \<or> e < s' \<or> e' < s" "s' < e'" if "(s', e') \<in> set rs" for s' e'
    using that by auto
  show "s - 1 \<notin> covered rs"
  proof
    assume "s - 1 \<in> covered rs"
    then obtain s' e' where "(s', e') \<in> set rs" "s' \<le> s - 1" "s - 1 < e'" by (auto simp: in_covered)
    with d [of s' e'] se show False by linarith
  qed
  show "e \<notin> covered rs"
  proof
    assume "e \<in> covered rs"
    then obtain s' e' where "(s', e') \<in> set rs" "s' \<le> e" "e < e'" by (auto simp: in_covered)
    with d [of s' e'] se show False by linarith
  qed
  show "{s..<e} \<subseteq> covered rs" using assms(2) unfolding covered_def by blast
qed

lemma canonical_run_in:
  assumes "canonical rs'" "s < (e::int)" "{s..<e} \<subseteq> covered rs'" "s - 1 \<notin> covered rs'" "e \<notin> covered rs'"
  shows "(s, e) \<in> set rs'"
proof -
  have "s \<in> covered rs'" using assms(2,3) by auto
  then obtain a b where ab: "(a, b) \<in> set rs'" "a \<le> s" "s < b" by (auto simp: in_covered)
  have sub: "{a..<b} \<subseteq> covered rs'" using canonical_maximal(4) [OF assms(1) ab(1)] .
  have "a = s"
  proof (rule ccontr)
    assume "a \<noteq> s"
    then have "s - 1 \<in> {a..<b}" using ab by simp
    with sub assms(4) show False by blast
  qed
  moreover have "b = e"
  proof (rule ccontr)
    assume ne: "b \<noteq> e"
    show False
    proof (cases "b < e")
      case True
      then have "b \<in> covered rs'" using assms(3) ab by auto
      then show False using canonical_maximal(2) [OF assms(1) ab(1)] by simp
    next
      case False
      then have "e \<in> {a..<b}" using ne ab assms(2) by simp
      with sub assms(5) show False by blast
    qed
  qed
  ultimately show ?thesis using ab by simp
qed

lemma canonical_strict_sorted: "canonical rs \<Longrightarrow> sorted_wrt (<) rs"
proof -
  assume c: "canonical rs"
  then have "sorted_wrt (\<lambda>a b. snd a < fst b) rs" by (simp add: canonical_def)
  moreover have "x < y" if "x \<in> set rs" "y \<in> set rs" "snd x < fst y" for x y
    using that c by (cases x; cases y) (auto simp: canonical_def)
  ultimately show ?thesis by (metis (no_types, lifting) sorted_wrt_mono_rel)
qed

theorem canonical_unique:
  assumes "canonical rs" "canonical rs'" "covered rs = covered rs'"
  shows "rs = rs'"
proof -
  have sub: "set a \<subseteq> set b" if "canonical a" "canonical b" "covered a = covered b" for a b
  proof
    fix r assume "r \<in> set a"
    moreover obtain s e where "r = (s, e)" by (cases r)
    ultimately show "r \<in> set b"
      using canonical_maximal [OF that(1), of s e] that(3) canonical_run_in [OF that(2), of s e] by auto
  qed
  have "set rs = set rs'" using sub [OF assms] sub [OF assms(2,1)] assms(3) by auto
  moreover have "sorted_wrt (<) rs" "sorted_wrt (<) rs'"
    using assms(1,2) by (simp_all add: canonical_strict_sorted)
  ultimately show ?thesis by (metis strict_sorted_equal)
qed

section \<open>Sizes and backing units\<close>

definition range_bytes :: "byte_range list \<Rightarrow> int" where
  "range_bytes ranges = sum_list (map (\<lambda>(start, end). end - start) ranges)"

definition ceil_div :: "int \<Rightarrow> int \<Rightarrow> int" where
  "ceil_div value divisor = (if value \<le> 0 then 0 else (value + divisor - 1) div divisor)"

lemma range_bytes_simps [simp]:
  "range_bytes [] = 0"
  "range_bytes ((s, e) # rs) = e - s + range_bytes rs"
  "range_bytes (rs @ rs') = range_bytes rs + range_bytes rs'"
  by (simp_all add: range_bytes_def)

lemma range_bytes_card: "canonical rs \<Longrightarrow> range_bytes rs = int (card (covered rs))"
proof (induction rs)
  case (Cons r rs)
  obtain s e where r: "r = (s, e)" by (cases r)
  with Cons.prems have c: "s < e" "\<forall>(s', e') \<in> set rs. e < s'" "canonical rs"
    by (simp_all add: canonical_Cons)
  have "{s..<e} \<inter> covered rs = {}" using c(2) by (fastforce simp: in_covered)
  then have "card (covered (r # rs)) = card {s..<e} + card (covered rs)"
    unfolding r covered_Cons by (intro card_Un_disjoint) auto
  then show ?case using Cons.IH c r by simp
qed simp

lemma ceil_div_round: "0 < q \<Longrightarrow> 0 < v \<Longrightarrow> ceil_div v q * q = round_up v q"
  by (simp add: ceil_div_def round_up_def)

lemma ceil_div_nonneg: "0 < q \<Longrightarrow> 0 \<le> ceil_div v q"
  by (simp add: ceil_div_def pos_imp_zdiv_nonneg_iff)

lemma ceil_div_ge: "0 < q \<Longrightarrow> v \<le> ceil_div v q * q"
  using round_up_ge [of q v] by (simp add: ceil_div_def round_up_def)

section \<open>Merging\<close>

definition merge_into :: "byte_range list \<Rightarrow> byte_range \<Rightarrow> byte_range list" where
  "merge_into merged r = (case r of (start, end) \<Rightarrow>
     if merged = [] \<or> snd (last merged) < start then merged @ [(start, end)]
     else butlast merged @ [(fst (last merged), max (snd (last merged)) end)])"

definition merge_ranges :: "byte_range list \<Rightarrow> byte_range list" where
  "merge_ranges ranges = foldl merge_into [] (sort (filter (\<lambda>(start, end). start < end) ranges))"

lemma merge_into_step:
  assumes "canonical m" "\<forall>(s', e') \<in> set m. s' \<le> s" "s < e"
  shows "canonical (merge_into m (s, e))" "covered (merge_into m (s, e)) = covered m \<union> {s..<e}"
    and "\<forall>(s', e') \<in> set (merge_into m (s, e)). s' \<le> s"
proof -
  have "canonical (merge_into m (s, e)) \<and> covered (merge_into m (s, e)) = covered m \<union> {s..<e}
    \<and> (\<forall>(s', e') \<in> set (merge_into m (s, e)). s' \<le> s)"
  proof (cases m rule: rev_cases)
    case Nil
    then show ?thesis using assms(3) by (simp add: merge_into_def canonical_Cons covered_simps)
  next
    case (snoc pre l)
    obtain a b where l: "l = (a, b)" by (cases l)
    have c: "canonical pre" "a < b" "\<forall>(x, y) \<in> set pre. y < a" "a \<le> s" "\<forall>(x, y) \<in> set pre. x \<le> s"
      using assms(1,2) snoc l by (auto simp: canonical_append canonical_Cons)
    show ?thesis
    proof (cases "b < s")
      case True
      then have "\<forall>(x, y) \<in> set pre. y < s" using c by fastforce
      then show ?thesis using snoc l c assms(3) True
        by (auto simp: merge_into_def canonical_append canonical_Cons covered_simps)
    next
      case False
      then have "{a..<max b e} = {a..<b} \<union> {s..<e}" using c(2,4) assms(3) by auto
      then show ?thesis using snoc l c assms(3) False
        by (auto simp: merge_into_def canonical_append canonical_Cons covered_simps)
    qed
  qed
  then show "canonical (merge_into m (s, e))" "covered (merge_into m (s, e)) = covered m \<union> {s..<e}"
    "\<forall>(s', e') \<in> set (merge_into m (s, e)). s' \<le> s" by blast+
qed

lemma merge_foldl:
  assumes "canonical m" "\<forall>(s, e) \<in> set rs. s < e \<and> (\<forall>(s', e') \<in> set m. s' \<le> s)" "sorted rs"
  shows "canonical (foldl merge_into m rs) \<and> covered (foldl merge_into m rs) = covered m \<union> covered rs"
  using assms
proof (induction rs arbitrary: m)
  case (Cons r rs)
  obtain s e where r: "r = (s, e)" by (cases r)
  have h: "s < e" "\<forall>(s', e') \<in> set m. s' \<le> s" using Cons.prems(2) r by auto
  note st = merge_into_step [OF Cons.prems(1) h(2,1)]
  have le: "\<forall>(s', e') \<in> set rs. s \<le> s'" using Cons.prems(3) r by (auto simp: less_eq_prod_def)
  have "\<forall>(s', e') \<in> set rs. s' < e' \<and> (\<forall>(x, y) \<in> set (merge_into m (s, e)). x \<le> s')"
    using Cons.prems(2) le st(3) r by fastforce
  from Cons.IH [OF st(1) this] Cons.prems(3) st(2) show ?case
    by (auto simp: r covered_simps)
qed simp

lemma merge_ranges_correct:
  shows canonical_merge [simp, intro]: "canonical (merge_ranges rs)"
    and covered_merge [simp, covered_simps]: "covered (merge_ranges rs) = covered rs"
proof -
  have "\<forall>(s, e) \<in> set (sort (filter (\<lambda>(s, e). s < e) rs)). s < e \<and> (\<forall>(s', e') \<in> set []. s' \<le> s)"
    by auto
  from merge_foldl [OF canonical_Nil this]
  have "canonical (merge_ranges rs) \<and> covered (merge_ranges rs) =
      covered (sort (filter (\<lambda>(s, e). s < e) rs))"
    by (simp add: merge_ranges_def)
  moreover have "covered (sort (filter (\<lambda>(s, e). s < e) rs)) = covered rs"
    using covered_cong [of "sort (filter (\<lambda>(s, e). s < e) rs)" "filter (\<lambda>(s, e). s < e) rs"]
    by (simp add: covered_filter_nonempty)
  ultimately show "canonical (merge_ranges rs)" "covered (merge_ranges rs) = covered rs" by simp_all
qed

lemma merge_canonical [simp]: "canonical rs \<Longrightarrow> merge_ranges rs = rs"
  by (rule canonical_unique) auto

lemma merge_ranges_eq_iff: "merge_ranges rs = merge_ranges rs' \<longleftrightarrow> covered rs = covered rs'"
  by (metis canonical_merge canonical_unique covered_merge)

lemma canonical_empty: "canonical rs \<Longrightarrow> covered rs = {} \<longleftrightarrow> rs = []"
  by (cases rs) (auto simp: canonical_Cons covered_simps)

section \<open>Subtracting\<close>

definition cut_range :: "int \<Rightarrow> int \<Rightarrow> byte_range \<Rightarrow> byte_range list" where
  "cut_range cut_start cut_end r = (case r of (start, end) \<Rightarrow>
     if cut_end \<le> start \<or> end \<le> cut_start then [(start, end)]
     else (if start < cut_start then [(start, cut_start)] else []) @
       (if cut_end < end then [(cut_end, end)] else []))"

definition subtract_ranges :: "byte_range list \<Rightarrow> byte_range list \<Rightarrow> byte_range list" where
  "subtract_ranges base cuts =
     foldl (\<lambda>result (cut_start, cut_end). concat (map (cut_range cut_start cut_end) result))
       base (merge_ranges cuts)"

lemma covered_concat: "covered (concat (map f rs)) = (\<Union>r \<in> set rs. covered (f r))"
  by (simp add: covered_def)

lemma cut_range_covered: "a < b \<Longrightarrow> covered (cut_range a b (s, e)) = {s..<e} - {a..<b}"
  by (auto simp: cut_range_def covered_simps)

lemma cut_range_within:
  "a < b \<Longrightarrow> s < e \<Longrightarrow> (x, y) \<in> set (cut_range a b (s, e)) \<Longrightarrow> s \<le> x \<and> x < y \<and> y \<le> e"
  by (auto simp: cut_range_def split: if_splits)

lemma cut_range_canonical: "a < b \<Longrightarrow> s < e \<Longrightarrow> canonical (cut_range a b (s, e))"
  by (auto simp: cut_range_def canonical_Cons)

lemma cut_all_covered:
  "a < b \<Longrightarrow> covered (concat (map (cut_range a b) rs)) = covered rs - {a..<b}"
proof (induction rs)
  case (Cons r rs)
  then show ?case by (cases r) (auto simp: covered_simps cut_range_covered)
qed simp

lemma cut_all_canonical:
  "a < b \<Longrightarrow> canonical rs \<Longrightarrow> canonical (concat (map (cut_range a b) rs))"
proof (induction rs)
  case (Cons r rs)
  obtain s e where r: "r = (s, e)" by (cases r)
  with Cons.prems have c: "s < e" "\<forall>(x, y) \<in> set rs. e < x" "canonical rs"
    by (simp_all add: canonical_Cons)
  have "e < x" if "(x, y) \<in> set (concat (map (cut_range a b) rs))" for x y
  proof -
    from that obtain s' e' where "(s', e') \<in> set rs" "(x, y) \<in> set (cut_range a b (s', e'))" by auto
    with c cut_range_within [OF Cons.prems(1), of s' e' x y] canonicalD(1) [OF c(3)] show ?thesis
      by fastforce
  qed
  then show ?case using Cons.IH [OF Cons.prems(1) c(3)] cut_range_canonical [OF Cons.prems(1) c(1)]
      cut_range_within [OF Cons.prems(1) c(1)]
    by (fastforce simp: r canonical_append)
qed simp

lemma subtract_foldl:
  assumes "\<forall>(a, b) \<in> set cuts. a < b"
  defines "step \<equiv> \<lambda>result (cut_start, cut_end). concat (map (cut_range cut_start cut_end) result)"
  shows "covered (foldl step rs cuts) = covered rs - covered cuts \<and>
    (canonical rs \<longrightarrow> canonical (foldl step rs cuts))"
  using assms(1)
proof (induction cuts arbitrary: rs)
  case (Cons c cuts)
  obtain a b where c: "c = (a, b)" by (cases c)
  have ab: "a < b" using Cons.prems c by auto
  have st: "step rs (a, b) = concat (map (cut_range a b) rs)" by (simp add: step_def)
  have "\<forall>(a, b) \<in> set cuts. a < b" using Cons.prems by auto
  from Cons.IH [OF this, of "step rs (a, b)"] cut_all_covered [OF ab, of rs] cut_all_canonical [OF ab, of rs]
  show ?case by (simp add: st c covered_simps) blast
qed simp

lemma subtract_ranges_correct:
  shows covered_subtract [simp, covered_simps]: "covered (subtract_ranges rs cuts) = covered rs - covered cuts"
    and canonical_subtract [simp, intro]: "canonical rs \<Longrightarrow> canonical (subtract_ranges rs cuts)"
proof -
  have "\<forall>(a, b) \<in> set (merge_ranges cuts). a < b"
    using canonicalD(1) [OF canonical_merge] by blast
  from subtract_foldl [OF this, of rs]
  show "covered (subtract_ranges rs cuts) = covered rs - covered cuts"
    "canonical rs \<Longrightarrow> canonical (subtract_ranges rs cuts)"
    by (simp_all add: subtract_ranges_def)
qed

section \<open>Intersecting\<close>

fun intersect_loop :: "byte_range list \<Rightarrow> byte_range list \<Rightarrow> byte_range list" where
  "intersect_loop ((ls, le) # left) ((rs, re) # right) =
     (if max ls rs < min le re then [(max ls rs, min le re)] else []) @
     (if le \<le> re then intersect_loop left ((rs, re) # right)
      else intersect_loop ((ls, le) # left) right)"
| "intersect_loop _ _ = []"

definition intersect_ranges :: "byte_range list \<Rightarrow> byte_range list \<Rightarrow> byte_range list" where
  "intersect_ranges left right = intersect_loop (merge_ranges left) (merge_ranges right)"

lemma intersect_loop_within:
  "(x, y) \<in> set (intersect_loop ls rs) \<Longrightarrow>
    x < y \<and> (\<exists>a b. (a, b) \<in> set ls \<and> a \<le> x) \<and> (\<exists>a b. (a, b) \<in> set rs \<and> a \<le> x)"
proof (induction ls rs rule: intersect_loop.induct)
  case (1 a b left c d right)
  consider "x = max a c" "y = min b d" "max a c < min b d"
    | "b \<le> d" "(x, y) \<in> set (intersect_loop left ((c, d) # right))"
    | "\<not> b \<le> d" "(x, y) \<in> set (intersect_loop ((a, b) # left) right)"
    using "1.prems" by (auto split: if_splits)
  then show ?case
  proof cases
    case 1
    then show ?thesis by (auto intro: exI [of _ a] exI [of _ b])
  qed (use "1.IH" in auto)
qed simp_all

lemma intersect_loop_covered:
  "canonical ls \<Longrightarrow> canonical rs \<Longrightarrow> covered (intersect_loop ls rs) = covered ls \<inter> covered rs"
proof (induction ls rs rule: intersect_loop.induct)
  case (1 a b left c d right)
  have l: "a < b" "\<And>x. x \<in> covered left \<Longrightarrow> b < x" "canonical left"
    and r: "c < d" "\<And>x. x \<in> covered right \<Longrightarrow> d < x" "canonical right"
    using "1.prems" by (fastforce simp: canonical_Cons in_covered)+
  have piece: "covered (if max a c < min b d then [(max a c, min b d)] else []) = {a..<b} \<inter> {c..<d}"
    by (auto simp: covered_simps)
  show ?case
  proof (cases "b \<le> d")
    case True
    have "{a..<b} \<inter> covered right = {}" using True r(2) by fastforce
    then show ?thesis using True "1.IH"(1) [OF True l(3) "1.prems"(2)] piece
      by (auto simp: covered_simps)
  next
    case False
    have "covered left \<inter> {c..<d} = {}" using False l(2) by fastforce
    then show ?thesis using False "1.IH"(2) [OF False "1.prems"(1) r(3)] piece
      by (auto simp: covered_simps)
  qed
qed simp_all

lemma intersect_loop_canonical:
  "canonical ls \<Longrightarrow> canonical rs \<Longrightarrow> canonical (intersect_loop ls rs)"
proof (induction ls rs rule: intersect_loop.induct)
  case (1 a b left c d right)
  have l: "a < b" "\<forall>(x, y) \<in> set left. b < x" "canonical left"
    and r: "c < d" "\<forall>(x, y) \<in> set right. d < x" "canonical right"
    using "1.prems" by (simp_all add: canonical_Cons)
  show ?case
  proof (cases "b \<le> d")
    case True
    have "b < x" if "(x, y) \<in> set (intersect_loop left ((c, d) # right))" for x y
      using intersect_loop_within [OF that] l(2) by fastforce
    then show ?thesis using True "1.IH"(1) [OF True l(3) "1.prems"(2)]
      by (auto simp: canonical_Cons)
  next
    case False
    have "d < x" if "(x, y) \<in> set (intersect_loop ((a, b) # left) right)" for x y
      using intersect_loop_within [OF that] r(2) by fastforce
    then show ?thesis using False "1.IH"(2) [OF False "1.prems"(1) r(3)]
      by (auto simp: canonical_Cons)
  qed
qed simp_all

lemma intersect_ranges_correct:
  shows covered_intersect [simp, covered_simps]: "covered (intersect_ranges rs rs') = covered rs \<inter> covered rs'"
    and canonical_intersect [simp, intro]: "canonical (intersect_ranges rs rs')"
  by (simp_all add: intersect_ranges_def intersect_loop_covered intersect_loop_canonical)

section \<open>Backing units\<close>

datatype residency_error =
    Residency_Error string
  | Residency_Validation string
  | Capacity_Exceeded string
  | Allocation_Not_Found string

text \<open>
  An allocation's committed bytes are backed in units of \<open>granule\<close> bytes, the last one possibly
  short.
\<close>

definition is_backing_unit_boundary :: "int \<Rightarrow> int \<Rightarrow> int \<Rightarrow> bool" where
  "is_backing_unit_boundary offset committed granule \<longleftrightarrow>
     0 \<le> offset \<and> offset \<le> committed \<and> (offset = committed \<or> offset mod granule = 0)"

definition ensure_backing_unit_ranges :: "byte_range list \<Rightarrow> int \<Rightarrow> int \<Rightarrow> residency_error + unit" where
  "ensure_backing_unit_ranges ranges committed granule =
     (if committed < 0 then Inl (Residency_Validation ''committed_bytes must be an integer >= 0'')
      else if granule < 1 then Inl (Residency_Validation ''residency_granule_bytes must be an integer >= 1'')
      else if \<forall>(start, end) \<in> set ranges. end \<le> start \<or>
          is_backing_unit_boundary start committed granule \<and> is_backing_unit_boundary end committed granule
      then Inr ()
      else Inl (Residency_Error ''range cuts through allocation backing granule''))"

definition prefix_backing_unit_ranges :: "int \<Rightarrow> int \<Rightarrow> int \<Rightarrow> byte_range list" where
  "prefix_backing_unit_ranges committed granule byte_count =
     (if byte_count \<le> 0 then [] else [(0, min committed (ceil_div byte_count granule * granule))])"

definition backing_unit_prefix_for_bytes :: "int \<Rightarrow> int \<Rightarrow> int \<Rightarrow> int \<Rightarrow> byte_range option" where
  "backing_unit_prefix_for_bytes start end granule byte_count =
     (if byte_count \<le> 0 \<or> end \<le> start then None
      else Some (start, min end (start + ceil_div byte_count granule * granule)))"

function iter_units :: "int \<Rightarrow> int \<Rightarrow> int \<Rightarrow> int \<Rightarrow> residency_error + byte_range list" where
  "iter_units committed granule cursor end =
     (if cursor < end then
        let unit_end = min committed (cursor + granule) in
        if unit_end \<le> cursor \<or> end < unit_end
        then Inl (Residency_Error ''backing unit iteration escaped selected range'')
        else rbind (iter_units committed granule unit_end end) (\<lambda>units. Inr ((cursor, unit_end) # units))
      else Inr [])"
  by auto
termination
  by (relation "measure (\<lambda>(committed, granule, cursor, end). nat (end - cursor))") auto

declare iter_units.simps [simp del]

fun iter_ranges :: "int \<Rightarrow> int \<Rightarrow> byte_range list \<Rightarrow> residency_error + byte_range list" where
  "iter_ranges committed granule [] = Inr []"
| "iter_ranges committed granule ((start, end) # ranges) =
     rbind (iter_units committed granule start end) (\<lambda>units.
       rbind (iter_ranges committed granule ranges) (\<lambda>rest. Inr (units @ rest)))"

definition iter_backing_unit_ranges :: "int \<Rightarrow> int \<Rightarrow> byte_range list \<Rightarrow> residency_error + byte_range list" where
  "iter_backing_unit_ranges committed granule ranges =
     rbind (ensure_backing_unit_ranges ranges committed granule) (\<lambda>_.
       iter_ranges committed granule (merge_ranges ranges))"

text \<open>Ranges made of whole backing units, as a property of the byte set.\<close>

definition unit_aligned :: "int \<Rightarrow> int \<Rightarrow> byte_range list \<Rightarrow> bool" where
  "unit_aligned committed granule rs \<longleftrightarrow> 0 < granule \<and> 0 \<le> committed \<and>
     (\<forall>(s, e) \<in> set rs. is_backing_unit_boundary s committed granule \<and>
        is_backing_unit_boundary e committed granule)"

lemma unit_alignedD: "unit_aligned c g rs \<Longrightarrow> (s, e) \<in> set rs \<Longrightarrow>
    is_backing_unit_boundary s c g \<and> is_backing_unit_boundary e c g \<and> 0 < g \<and> 0 \<le> c"
  by (auto simp: unit_aligned_def)

lemma unit_aligned_subset: "unit_aligned c g rs \<Longrightarrow> set rs' \<subseteq> set rs \<Longrightarrow> unit_aligned c g rs'"
  by (auto simp: unit_aligned_def)

lemma unit_aligned_append: "unit_aligned c g (rs @ rs') \<longleftrightarrow> unit_aligned c g rs \<and> unit_aligned c g rs'"
  by (auto simp: unit_aligned_def)

lemma unit_aligned_Nil: "unit_aligned c g [] \<longleftrightarrow> 0 < g \<and> 0 \<le> c"
  by (simp add: unit_aligned_def)

lemma unit_aligned_ensure:
  "unit_aligned c g rs \<Longrightarrow> ensure_backing_unit_ranges rs c g = Inr ()"
  by (fastforce simp: unit_aligned_def ensure_backing_unit_ranges_def)

lemma ensure_unit_aligned:
  assumes "ensure_backing_unit_ranges rs c g = Inr u" "\<forall>(s, e) \<in> set rs. s < e"
  shows "unit_aligned c g rs"
  using assms by (fastforce simp: unit_aligned_def ensure_backing_unit_ranges_def split: if_splits)

lemma boundary_next:
  assumes "is_backing_unit_boundary x c g" "is_backing_unit_boundary y c g" "x < y" "0 < g"
  shows "x < min c (x + g)" "min c (x + g) \<le> y" "is_backing_unit_boundary (min c (x + g)) c g"
proof -
  have x: "x mod g = 0" "0 \<le> x" using assms(1,2,3) by (auto simp: is_backing_unit_boundary_def)
  show "x < min c (x + g)" using assms by (auto simp: is_backing_unit_boundary_def)
  show "min c (x + g) \<le> y"
  proof (cases "y = c")
    case False
    then have "g dvd y - x" using assms(1,2,3) by (auto simp: is_backing_unit_boundary_def mod_eq_0_iff_dvd)
    then have "g \<le> y - x" using assms(3) by (simp add: zdvd_imp_le)
    then show ?thesis by simp
  qed simp
  show "is_backing_unit_boundary (min c (x + g)) c g"
    using x assms by (auto simp: is_backing_unit_boundary_def min_def)
qed

lemma iter_units_correct:
  assumes "is_backing_unit_boundary s c g" "is_backing_unit_boundary e c g" "0 < g"
  shows "\<exists>us. iter_units c g s e = Inr us \<and> covered us = {s..<e} \<and>
    (\<forall>(a, b) \<in> set us. s \<le> a \<and> a < b \<and> b \<le> e \<and> b - a \<le> g \<and> is_backing_unit_boundary a c g \<and> b = min c (a + g))
    \<and> sorted_wrt (\<lambda>a b. snd a \<le> fst b) us"
  using assms
proof (induction c g s e rule: iter_units.induct)
  case (1 c g s e)
  show ?case
  proof (cases "s < e")
    case True
    let ?u = "min c (s + g)"
    note b = boundary_next [OF "1.prems"(1,2) True "1.prems"(3)]
    have ne: "\<not> (?u \<le> s \<or> e < ?u)" using b by linarith
    from "1.IH" [OF True refl ne b(3) "1.prems"(2,3)] obtain us where
      us: "iter_units c g ?u e = Inr us" "covered us = {?u..<e}"
        "\<forall>(a, b) \<in> set us. ?u \<le> a \<and> a < b \<and> b \<le> e \<and> b - a \<le> g \<and> is_backing_unit_boundary a c g \<and> b = min c (a + g)"
        "sorted_wrt (\<lambda>a b. snd a \<le> fst b) us" by blast
    have "iter_units c g s e = Inr ((s, ?u) # us)"
      using True ne us(1) by (subst iter_units.simps) (simp add: Let_def)
    moreover have "covered ((s, ?u) # us) = {s..<e}" using us(2) b by (auto simp: covered_simps)
    moreover have "\<forall>(a, b') \<in> set ((s, ?u) # us). s \<le> a \<and> a < b' \<and> b' \<le> e \<and> b' - a \<le> g \<and>
        is_backing_unit_boundary a c g \<and> b' = min c (a + g)"
      using us(3) b "1.prems" by fastforce
    moreover have "sorted_wrt (\<lambda>a b. snd a \<le> fst b) ((s, ?u) # us)" using us(3,4) by auto
    ultimately show ?thesis by blast
  next
    case False
    then have "iter_units c g s e = Inr []" by (subst iter_units.simps) simp
    with False show ?thesis by simp
  qed
qed

lemma iter_ranges_correct:
  assumes "unit_aligned c g rs" "canonical rs"
  shows "\<exists>us. iter_ranges c g rs = Inr us \<and> covered us = covered rs \<and>
    (\<forall>(a, b) \<in> set us. a < b \<and> b - a \<le> g \<and> is_backing_unit_boundary a c g \<and> b = min c (a + g) \<and> {a..<b} \<subseteq> covered rs)
    \<and> sorted_wrt (\<lambda>a b. snd a \<le> fst b) us"
  using assms
proof (induction rs)
  case (Cons r rs)
  obtain s e where r: "r = (s, e)" by (cases r)
  have b: "is_backing_unit_boundary s c g" "is_backing_unit_boundary e c g" "0 < g"
    using Cons.prems(1) unit_alignedD [of c g "r # rs" s e] r by auto
  have al: "unit_aligned c g rs" using Cons.prems(1) unit_aligned_subset [of c g "r # rs" rs] by auto
  have can: "s < e" "\<forall>(x, y) \<in> set rs. e < x" "canonical rs"
    using Cons.prems(2) r by (simp_all add: canonical_Cons)
  from iter_units_correct [OF b] obtain us where
    us: "iter_units c g s e = Inr us" "covered us = {s..<e}"
      "\<forall>(a, b) \<in> set us. s \<le> a \<and> a < b \<and> b \<le> e \<and> b - a \<le> g \<and> is_backing_unit_boundary a c g \<and> b = min c (a + g)"
      "sorted_wrt (\<lambda>a b. snd a \<le> fst b) us" by blast
  from Cons.IH [OF al can(3)] obtain vs where
    vs: "iter_ranges c g rs = Inr vs" "covered vs = covered rs"
      "\<forall>(a, b) \<in> set vs. a < b \<and> b - a \<le> g \<and> is_backing_unit_boundary a c g \<and> b = min c (a + g) \<and> {a..<b} \<subseteq> covered rs"
      "sorted_wrt (\<lambda>a b. snd a \<le> fst b) vs" by blast
  have cross: "snd u \<le> fst v" if "u \<in> set us" "v \<in> set vs" for u v
  proof -
    obtain a b a' b' where uv: "u = (a, b)" "v = (a', b')" by (cases u; cases v)
    have "b \<le> e" using us(3) that uv by auto
    moreover have "a' \<in> covered rs" using vs(3) that uv by fastforce
    then have "e < a'" using can(2) by (fastforce simp: in_covered)
    ultimately show ?thesis using uv by simp
  qed
  have "iter_ranges c g (r # rs) = Inr (us @ vs)" using us(1) vs(1) r by simp
  moreover have "covered (us @ vs) = covered (r # rs)" using us(2) vs(2) r by (simp add: covered_simps)
  moreover have "sorted_wrt (\<lambda>a b. snd a \<le> fst b) (us @ vs)"
    using us(4) vs(4) cross by (simp add: sorted_wrt_append)
  moreover have "a < b \<and> b - a \<le> g \<and> is_backing_unit_boundary a c g \<and> b = min c (a + g) \<and> {a..<b} \<subseteq> covered (r # rs)"
    if "(a, b) \<in> set (us @ vs)" for a b
  proof (cases "(a, b) \<in> set us")
    case True
    then show ?thesis using us(3) r by (fastforce simp: covered_simps)
  next
    case False
    then have "(a, b) \<in> set vs" using that by simp
    then show ?thesis using vs(3) r by (fastforce simp: covered_simps)
  qed
  ultimately show ?case by blast
qed simp

section \<open>Ranges with the sequence number of their last access\<close>

type_synonym recency_range = "int \<times> int \<times> int"

definition merge_recency_into ::
  "residency_error + recency_range list \<Rightarrow> recency_range \<Rightarrow> residency_error + recency_range list" where
  "merge_recency_into acc r = rbind acc (\<lambda>merged. case r of (start, end, sequence) \<Rightarrow>
     if merged \<noteq> [] \<and> start < fst (snd (last merged))
     then Inl (Residency_Error ''overlapping allocation recency ranges'')
     else if merged \<noteq> [] \<and> start = fst (snd (last merged)) \<and> sequence = snd (snd (last merged))
     then Inr (butlast merged @ [(fst (last merged), end, sequence)])
     else Inr (merged @ [(start, end, sequence)]))"

definition merge_recency_ranges :: "recency_range list \<Rightarrow> residency_error + recency_range list" where
  "merge_recency_ranges ranges =
     foldl merge_recency_into (Inr []) (sort (filter (\<lambda>(start, end, sequence). start < end) ranges))"

definition cut_recency :: "int \<Rightarrow> int \<Rightarrow> recency_range \<Rightarrow> recency_range list" where
  "cut_recency cut_start cut_end r = (case r of (start, end, sequence) \<Rightarrow>
     if cut_end \<le> start \<or> end \<le> cut_start then [(start, end, sequence)]
     else (if start < cut_start then [(start, cut_start, sequence)] else []) @
       (if cut_end < end then [(cut_end, end, sequence)] else []))"

definition subtract_recency_ranges ::
  "recency_range list \<Rightarrow> byte_range list \<Rightarrow> residency_error + recency_range list" where
  "subtract_recency_ranges base cuts = merge_recency_ranges
     (foldl (\<lambda>result (cut_start, cut_end). concat (map (cut_recency cut_start cut_end) result))
       base (merge_ranges cuts))"

definition extent_of :: "recency_range \<Rightarrow> byte_range" where
  "extent_of r = (case r of (start, end, sequence) \<Rightarrow> (start, end))"

text \<open>
  A list of recency ranges stands for a relation between bytes and sequence numbers.
  \<open>disjoint_recency\<close> ranges are nonempty, ordered and do not overlap; \<open>recency_ok\<close> ranges are
  moreover merged as far as their sequence numbers allow.
\<close>

definition stamped :: "recency_range list \<Rightarrow> (int \<times> int) set" where
  "stamped rr = (\<Union>(s, e, q) \<in> set rr. {s..<e} \<times> {q})"

definition disjoint_recency :: "recency_range list \<Rightarrow> bool" where
  "disjoint_recency rr \<longleftrightarrow> sorted_wrt (\<lambda>(s, e, q) (s', e', q'). e \<le> s') rr \<and> (\<forall>(s, e, q) \<in> set rr. s < e)"

definition recency_ok :: "recency_range list \<Rightarrow> bool" where
  "recency_ok rr \<longleftrightarrow> sorted_wrt (\<lambda>(s, e, q) (s', e', q'). e \<le> s' \<and> (e = s' \<longrightarrow> q \<noteq> q')) rr \<and>
     (\<forall>(s, e, q) \<in> set rr. s < e)"

lemma extent_of_simp [simp]: "extent_of (s, e, q) = (s, e)"
  by (simp add: extent_of_def)

lemma stamped_simps [covered_simps]:
  "stamped [] = {}" "stamped ((s, e, q) # rr) = {s..<e} \<times> {q} \<union> stamped rr"
  "stamped (rr @ rr') = stamped rr \<union> stamped rr'"
  by (auto simp: stamped_def)

lemma in_stamped: "(x, q) \<in> stamped rr \<longleftrightarrow> (\<exists>s e. (s, e, q) \<in> set rr \<and> s \<le> x \<and> x < e)"
proof
  assume "(x, q) \<in> stamped rr"
  then obtain r where "r \<in> set rr" "(x, q) \<in> (case r of (s, e, q) \<Rightarrow> {s..<e} \<times> {q})"
    by (auto simp: stamped_def)
  moreover obtain a b c where "r = (a, b, c)" by (cases r)
  ultimately have "(a, b, q) \<in> set rr" "a \<le> x" "x < b" by auto
  then show "\<exists>s e. (s, e, q) \<in> set rr \<and> s \<le> x \<and> x < e" by blast
next
  assume "\<exists>s e. (s, e, q) \<in> set rr \<and> s \<le> x \<and> x < e"
  then obtain s e where "(s, e, q) \<in> set rr" "s \<le> x" "x < e" by blast
  then show "(x, q) \<in> stamped rr" unfolding stamped_def by (intro UN_I [of "(s, e, q)"]) auto
qed

lemma covered_extents: "covered (map extent_of rr) = fst ` stamped rr"
proof (induction rr)
  case (Cons r rr)
  then show ?case by (cases r) (simp add: covered_simps image_Un)
qed (simp add: stamped_simps)

lemma stamped_cong: "set rr = set rr' \<Longrightarrow> stamped rr = stamped rr'"
  by (simp add: stamped_def)

lemma recency_ok_disjoint: "recency_ok rr \<Longrightarrow> disjoint_recency rr"
  unfolding recency_ok_def disjoint_recency_def by (auto intro: sorted_wrt_mono_rel [rotated])

lemma recency_Nil [simp]: "recency_ok []" "disjoint_recency []"
  by (simp_all add: recency_ok_def disjoint_recency_def)

lemma recency_ok_Cons: "recency_ok ((s, e, q) # rr) \<longleftrightarrow>
    s < e \<and> (\<forall>(s', e', q') \<in> set rr. e \<le> s' \<and> (e = s' \<longrightarrow> q \<noteq> q')) \<and> recency_ok rr"
  by (auto simp: recency_ok_def)

lemma recency_ok_append: "recency_ok (rr @ rr') \<longleftrightarrow> recency_ok rr \<and> recency_ok rr' \<and>
    (\<forall>(s, e, q) \<in> set rr. \<forall>(s', e', q') \<in> set rr'. e \<le> s' \<and> (e = s' \<longrightarrow> q \<noteq> q'))"
  by (fastforce simp: recency_ok_def sorted_wrt_append)

lemma disjoint_recency_Cons: "disjoint_recency ((s, e, q) # rr) \<longleftrightarrow>
    s < e \<and> (\<forall>(s', e', q') \<in> set rr. e \<le> s') \<and> disjoint_recency rr"
  by (auto simp: disjoint_recency_def)

lemma disjoint_recency_append: "disjoint_recency (rr @ rr') \<longleftrightarrow> disjoint_recency rr \<and> disjoint_recency rr' \<and>
    (\<forall>(s, e, q) \<in> set rr. \<forall>(s', e', q') \<in> set rr'. e \<le> s')"
  by (fastforce simp: disjoint_recency_def sorted_wrt_append)

lemma disjoint_strict_sorted: "disjoint_recency rr \<Longrightarrow> sorted_wrt (<) rr"
proof (induction rr)
  case (Cons r rr)
  obtain s e q where r: "r = (s, e, q)" by (cases r)
  have "r < r'" if "r' \<in> set rr" for r'
  proof -
    obtain s' e' q' where r': "r' = (s', e', q')" by (cases r')
    then have "s < s'" using Cons.prems that r by (fastforce simp: disjoint_recency_Cons)
    then show ?thesis using r r' by (simp add: less_prod_def)
  qed
  then show ?case using Cons r by (simp add: disjoint_recency_Cons)
qed simp

text \<open>The ranges of one sequence number are canonical, which makes the whole list a normal form.\<close>

lemma recency_ok_canonical: "recency_ok rr \<Longrightarrow> canonical (map extent_of (filter (\<lambda>(s, e, q). q = k) rr))"
proof (induction rr)
  case (Cons r rr)
  obtain s e q where r: "r = (s, e, q)" by (cases r)
  with Cons.prems have c: "s < e" "\<forall>(s', e', q') \<in> set rr. e \<le> s' \<and> (e = s' \<longrightarrow> q \<noteq> q')" "recency_ok rr"
    by (simp_all add: recency_ok_Cons)
  have "e < s'" if "(s', e', k) \<in> set rr" "q = k" for s' e'
    using that c(2) by fastforce
  then have "\<forall>(s', e') \<in> set (map extent_of (filter (\<lambda>(s, e, q). q = k) rr)). q = k \<longrightarrow> e < s'"
    by auto
  then show ?case using Cons.IH [OF c(3)] c(1) r by (simp add: canonical_Cons)
qed simp

lemma covered_of_sequence:
  "covered (map extent_of (filter (\<lambda>(s, e, q). q = k) rr)) = {x. (x, k) \<in> stamped rr}"
proof (induction rr)
  case (Cons r rr)
  obtain s e q where r: "r = (s, e, q)" by (cases r)
  show ?case
  proof (cases "q = k")
    case True
    then have "covered (map extent_of (filter (\<lambda>(s, e, q). q = k) (r # rr))) =
        {s..<e} \<union> {x. (x, k) \<in> stamped rr}"
      using Cons.IH r by (simp add: covered_Cons)
    also have "\<dots> = {x. (x, k) \<in> stamped (r # rr)}" 
      by (simp add: r True stamped_simps set_eq_iff)
    finally show ?thesis .
  next
    case False
    then have "covered (map extent_of (filter (\<lambda>(s, e, q). q = k) (r # rr))) = {x. (x, k) \<in> stamped rr}"
      using Cons.IH r by simp
    also have "\<dots> = {x. (x, k) \<in> stamped (r # rr)}" using False unfolding r stamped_simps by simp
    finally show ?thesis .
  qed
qed (simp add: stamped_simps)

theorem recency_unique:
  assumes "recency_ok rr" "recency_ok rr'" "stamped rr = stamped rr'"
  shows "rr = rr'"
proof -
  have eq: "map extent_of (filter (\<lambda>(s, e, q). q = k) rr) = map extent_of (filter (\<lambda>(s, e, q). q = k) rr')" for k
    by (rule canonical_unique [OF recency_ok_canonical [OF assms(1)] recency_ok_canonical [OF assms(2)]])
      (simp add: covered_of_sequence assms(3))
  have in_k: "(s, e, k) \<in> set l \<longleftrightarrow> (s, e) \<in> set (map extent_of (filter (\<lambda>(s, e, q). q = k) l))" for s e k l
  proof (induction l)
    case (Cons a l)
    then show ?case by (cases a) auto
  qed simp
  have "(s, e, k) \<in> set rr \<longleftrightarrow> (s, e, k) \<in> set rr'" for s e k
    unfolding in_k eq ..
  then have "set rr = set rr'" by auto
  then show ?thesis
    using disjoint_strict_sorted [OF recency_ok_disjoint [OF assms(1)]]
      disjoint_strict_sorted [OF recency_ok_disjoint [OF assms(2)]]
    by (metis strict_sorted_equal)
qed

lemma merge_recency_into_step:
  assumes "recency_ok m" "\<forall>(s', e', q') \<in> set m. e' \<le> s" "s < e"
  shows "\<exists>m'. merge_recency_into (Inr m) (s, e, q) = Inr m' \<and> recency_ok m' \<and>
    stamped m' = stamped m \<union> {s..<e} \<times> {q} \<and> (\<forall>(s', e', q') \<in> set m'. e' \<le> e)"
proof (cases m rule: rev_cases)
  case Nil
  then show ?thesis using assms(3)
    by (simp add: merge_recency_into_def recency_ok_Cons stamped_simps)
next
  case (snoc pre l)
  obtain a b k where l: "l = (a, b, k)" by (cases l)
  have c: "recency_ok pre" "a < b" "b \<le> s" "\<forall>(x, y, z) \<in> set pre. y \<le> a \<and> (y = a \<longrightarrow> z \<noteq> k)"
    "\<forall>(x, y, z) \<in> set pre. y \<le> s"
    using assms(1,2) snoc l by (auto simp: recency_ok_append recency_ok_Cons)
  have lt: "y < s \<and> y \<le> e" if "(x, y, z) \<in> set pre" for x y z
    using c(2,3,4) that assms(3) by fastforce
  have le: "\<forall>(x, y, z) \<in> set pre. y \<le> e" using lt by blast
  show ?thesis
  proof (cases "s = b \<and> q = k")
    case True
    have "merge_recency_into (Inr m) (s, e, q) = Inr (pre @ [(a, e, q)])"
      using True snoc l by (simp add: merge_recency_into_def)
    moreover have "recency_ok (pre @ [(a, e, q)])"
      using c True assms(3) by (auto simp: recency_ok_append recency_ok_Cons)
    moreover have "{a..<e} = {a..<b} \<union> {s..<e}" using c(2) True assms(3) by auto
    then have "stamped (pre @ [(a, e, q)]) = stamped m \<union> {s..<e} \<times> {q}"
      using True snoc l by (auto simp: stamped_simps)
    moreover have "\<forall>(x, y, z) \<in> set (pre @ [(a, e, q)]). y \<le> e" using le by simp
    ultimately show ?thesis by blast
  next
    case False
    have "merge_recency_into (Inr m) (s, e, q) = Inr (m @ [(s, e, q)])"
      using False snoc l c(3) by (auto simp: merge_recency_into_def)
    moreover have "\<forall>(x, y, z) \<in> set pre. y \<le> s \<and> (y = s \<longrightarrow> z \<noteq> q)" using lt by fastforce
    then have "recency_ok (m @ [(s, e, q)])"
      using snoc l c(3) False assms(1,3) by (simp add: recency_ok_append recency_ok_Cons) blast
    moreover have "stamped (m @ [(s, e, q)]) = stamped m \<union> {s..<e} \<times> {q}"
      by (simp add: stamped_simps)
    moreover have "\<forall>(x, y, z) \<in> set (m @ [(s, e, q)]). y \<le> e"
      using le snoc l c(3) assms(3) by simp
    ultimately show ?thesis by blast
  qed
qed

lemma merge_recency_foldl:
  assumes "recency_ok m" "disjoint_recency rr" "\<forall>(s', e', q') \<in> set m. \<forall>(s, e, q) \<in> set rr. e' \<le> s"
  shows "\<exists>m'. foldl merge_recency_into (Inr m) rr = Inr m' \<and> recency_ok m' \<and> stamped m' = stamped m \<union> stamped rr"
  using assms
proof (induction rr arbitrary: m)
  case (Cons r rr)
  obtain s e q where r: "r = (s, e, q)" by (cases r)
  have h: "\<forall>(s', e', q') \<in> set m. e' \<le> s" "s < e" "\<forall>(s', e', q') \<in> set rr. e \<le> s'" "disjoint_recency rr"
    using Cons.prems r by (auto simp: disjoint_recency_Cons)
  obtain m' where m': "merge_recency_into (Inr m) r = Inr m'" "recency_ok m'"
      "stamped m' = stamped m \<union> {s..<e} \<times> {q}" "\<forall>(s', e', q') \<in> set m'. e' \<le> e"
    using merge_recency_into_step [OF Cons.prems(1) h(1,2), of q] r by blast
  have "\<forall>(s', e', q') \<in> set m'. \<forall>(s, e, q) \<in> set rr. e' \<le> s" using m'(4) h(3) by fastforce
  from Cons.IH [OF m'(2) h(4) this] m'(1,3) show ?case by (simp add: r stamped_simps Un_assoc)
qed (simp add: stamped_simps)

lemma disjoint_recency_intro:
  assumes "sorted rr" "distinct rr" "\<forall>r \<in> set rr. fst r < fst (snd r)"
    "\<forall>r \<in> set rr. \<forall>r' \<in> set rr. r \<noteq> r' \<longrightarrow> fst (snd r) \<le> fst r' \<or> fst (snd r') \<le> fst r"
  shows "disjoint_recency rr"
  using assms
proof (induction rr)
  case (Cons r rr)
  have ne: "fst x < fst (snd x)" if "x \<in> set (r # rr)" for x using Cons.prems(3) that by blast
  have "fst (snd r) \<le> fst x" if x: "x \<in> set rr" for x
  proof -
    have "r \<noteq> x" using Cons.prems(2) x by auto
    then have "fst (snd r) \<le> fst x \<or> fst (snd x) \<le> fst r" using Cons.prems(4) x by simp
    moreover have "r \<le> x" using Cons.prems(1) x by simp
    then have "fst r \<le> fst x" by (auto simp: less_eq_prod_def)
    ultimately show ?thesis using ne [of r] ne [of x] x by simp
  qed
  moreover have "disjoint_recency rr" using Cons.IH Cons.prems by simp
  ultimately show ?case using ne [of r] by (cases r) (auto simp: disjoint_recency_Cons)
qed simp

lemma disjoint_recencyD:
  assumes "disjoint_recency rr" "(s, e, q) \<in> set rr"
  shows "s < e" "(s', e', q') \<in> set rr \<Longrightarrow> (s, e, q) \<noteq> (s', e', q') \<Longrightarrow> e \<le> s' \<or> e' \<le> s"
  using assms by (induction rr) (auto simp: disjoint_recency_Cons split: prod.splits)

text \<open>Two lists of disjoint ranges over different bytes may be concatenated in any order.\<close>

lemma disjoint_sort_append:
  assumes "disjoint_recency a" "disjoint_recency b" "fst ` stamped a \<inter> fst ` stamped b = {}"
  shows "disjoint_recency (sort (a @ b))"
proof (rule disjoint_recency_intro)
  have ne: "fst r < fst (snd r)" if "r \<in> set a \<union> set b" for r
    using that disjoint_recencyD(1) [OF assms(1)] disjoint_recencyD(1) [OF assms(2)] by (cases r) auto
  have in_fst: "x \<in> fst ` stamped l" if "r \<in> set l" "fst r \<le> x" "x < fst (snd r)" for x r and l :: "recency_range list"
  proof -
    have "(x, snd (snd r)) \<in> stamped l"
      unfolding in_stamped using that by (intro exI [of _ "fst r"] exI [of _ "fst (snd r)"]) simp
    then show ?thesis by force
  qed
  have cross: "fst (snd r) \<le> fst r' \<or> fst (snd r') \<le> fst r" if r: "r \<in> set a" "r' \<in> set b" for r r'
  proof (rule ccontr)
    let ?x = "max (fst r) (fst r')"
    assume "\<not> ?thesis"
    then have "?x < fst (snd r)" "?x < fst (snd r')" using ne [of r] ne [of r'] r by auto
    then have "?x \<in> fst ` stamped a" "?x \<in> fst ` stamped b"
      using in_fst [of r a ?x] in_fst [of r' b ?x] r by simp_all
    then show False using assms(3) by blast
  qed
  have "distinct a" "distinct b"
    using disjoint_strict_sorted [OF assms(1)] disjoint_strict_sorted [OF assms(2)]
    by (simp_all add: strict_sorted_iff)
  moreover have "set a \<inter> set b = {}"
  proof (rule ccontr)
    assume "set a \<inter> set b \<noteq> {}"
    then obtain r where "r \<in> set a" "r \<in> set b" by blast
    then show False using cross [of r r] ne [of r] by auto
  qed
  ultimately show "distinct (sort (a @ b))" by simp
  show "\<forall>r \<in> set (sort (a @ b)). fst r < fst (snd r)" using ne by simp
  have in_a: "fst (snd r) \<le> fst r' \<or> fst (snd r') \<le> fst r"
    if "disjoint_recency l" "r \<in> set l" "r' \<in> set l" "r \<noteq> r'" for r r' l
    using disjoint_recencyD(2) [OF that(1), of "fst r" "fst (snd r)" "snd (snd r)" "fst r'" "fst (snd r')" "snd (snd r')"]
      that by simp
  show "\<forall>r \<in> set (sort (a @ b)). \<forall>r' \<in> set (sort (a @ b)). r \<noteq> r' \<longrightarrow>
      fst (snd r) \<le> fst r' \<or> fst (snd r') \<le> fst r"
    using in_a [OF assms(1)] in_a [OF assms(2)] cross by (metis Un_iff set_append set_sort)
qed simp

lemma merge_recency_correct:
  assumes "disjoint_recency (sort rr)"
  obtains m where "merge_recency_ranges rr = Inr m" "recency_ok m" "stamped m = stamped rr"
proof -
  have "\<forall>(s, e, q) \<in> set rr. s < e" using assms disjoint_recencyD(1) by (metis (no_types, lifting) case_prodI2 set_sort)
  then have f: "filter (\<lambda>(s, e, q). s < e) rr = rr" by (simp add: filter_id_conv)
  obtain m where "foldl merge_recency_into (Inr []) (sort rr) = Inr m" "recency_ok m"
      "stamped m = stamped [] \<union> stamped (sort rr)"
    using merge_recency_foldl [OF recency_Nil(1) assms] by auto
  moreover have "stamped (sort rr) = stamped rr" by (rule stamped_cong) simp
  ultimately show ?thesis using that [of m] by (simp add: merge_recency_ranges_def f stamped_simps)
qed

lemma disjoint_recency_sort: "disjoint_recency rr \<Longrightarrow> sort rr = rr"
  by (metis disjoint_strict_sorted sorted_sort_id strict_sorted_iff)

lemma merge_recency_ok: "recency_ok rr \<Longrightarrow> merge_recency_ranges rr = Inr rr"
proof -
  assume ok: "recency_ok rr"
  then have "disjoint_recency (sort rr)" by (simp add: disjoint_recency_sort recency_ok_disjoint)
  then obtain m where "merge_recency_ranges rr = Inr m" "recency_ok m" "stamped m = stamped rr"
    by (rule merge_recency_correct)
  then show ?thesis using recency_unique [OF _ ok] by auto
qed

lemma cut_recency_stamped:
  "a < b \<Longrightarrow> stamped (cut_recency a b (s, e, q)) = {(x, k) \<in> {s..<e} \<times> {q}. x \<notin> {a..<b}}"
  by (auto simp: cut_recency_def stamped_simps)

lemma cut_recency_within:
  "a < b \<Longrightarrow> s < e \<Longrightarrow> (x, y, k) \<in> set (cut_recency a b (s, e, q)) \<Longrightarrow> s \<le> x \<and> x < y \<and> y \<le> e \<and> k = q"
  by (auto simp: cut_recency_def split: if_splits)

lemma cut_all_stamped:
  "a < b \<Longrightarrow> stamped (concat (map (cut_recency a b) rr)) = {(x, k) \<in> stamped rr. x \<notin> {a..<b}}"
proof (induction rr)
  case (Cons r rr)
  obtain s e q where r: "r = (s, e, q)" by (cases r)
  then show ?case using Cons.IH [OF Cons.prems] cut_recency_stamped [OF Cons.prems, of s e q]
    by (auto simp: stamped_simps)
qed (simp add: stamped_simps)

lemma cut_all_disjoint:
  "a < b \<Longrightarrow> disjoint_recency rr \<Longrightarrow> disjoint_recency (concat (map (cut_recency a b) rr))"
proof (induction rr)
  case (Cons r rr)
  obtain s e q where r: "r = (s, e, q)" by (cases r)
  with Cons.prems have c: "s < e" "\<forall>(x, y, z) \<in> set rr. e \<le> x" "disjoint_recency rr"
    by (simp_all add: disjoint_recency_Cons)
  have out: "e \<le> x" if "(x, y, z) \<in> set (concat (map (cut_recency a b) rr))" for x y z
  proof -
    from that obtain s' e' q' where "(s', e', q') \<in> set rr" "(x, y, z) \<in> set (cut_recency a b (s', e', q'))" by auto
    with c cut_recency_within [OF Cons.prems(1), of s' e' x y z q'] disjoint_recencyD(1) [OF c(3)] show ?thesis
      by fastforce
  qed
  have "disjoint_recency (cut_recency a b r)"
    using Cons.prems(1) c(1) by (auto simp: r cut_recency_def disjoint_recency_Cons)
  moreover have "x < y \<and> y \<le> e" if "(x, y, z) \<in> set (cut_recency a b r)" for x y z
    using cut_recency_within [OF Cons.prems(1) c(1)] that r by blast
  ultimately show ?case using Cons.IH [OF Cons.prems(1) c(3)] out
    by (fastforce simp: disjoint_recency_append)
qed simp

lemma subtract_recency_foldl:
  assumes "\<forall>(a, b) \<in> set cuts. a < b" "disjoint_recency rr"
  defines "step \<equiv> \<lambda>result (cut_start, cut_end). concat (map (cut_recency cut_start cut_end) result)"
  shows "stamped (foldl step rr cuts) = {(x, k) \<in> stamped rr. x \<notin> covered cuts} \<and>
    disjoint_recency (foldl step rr cuts)"
  using assms(1,2)
proof (induction cuts arbitrary: rr)
  case (Cons c cuts)
  obtain a b where c: "c = (a, b)" by (cases c)
  have ab: "a < b" using Cons.prems c by auto
  have st: "step rr (a, b) = concat (map (cut_recency a b) rr)" by (simp add: step_def)
  have pre: "\<forall>(a, b) \<in> set cuts. a < b" using Cons.prems by auto
  have dj: "disjoint_recency (step rr (a, b))" using cut_all_disjoint [OF ab Cons.prems(2)] st by simp
  from Cons.IH [OF pre dj] show ?case using cut_all_stamped [OF ab, of rr]
    by (auto simp: st c covered_simps)
qed auto

lemma subtract_recency_correct:
  assumes "disjoint_recency rr"
  obtains m where "subtract_recency_ranges rr cuts = Inr m" "recency_ok m"
    "stamped m = {(x, k) \<in> stamped rr. x \<notin> covered cuts}"
proof -
  have "\<forall>(a, b) \<in> set (merge_ranges cuts). a < b" using canonicalD(1) [OF canonical_merge] by blast
  note f = subtract_recency_foldl [OF this assms]
  have "disjoint_recency (sort (foldl (\<lambda>result (cut_start, cut_end). concat (map (cut_recency cut_start cut_end) result))
       rr (merge_ranges cuts)))" using f disjoint_recency_sort by auto
  then obtain m where "subtract_recency_ranges rr cuts = Inr m" "recency_ok m"
    "stamped m = stamped (foldl (\<lambda>result (cut_start, cut_end). concat (map (cut_recency cut_start cut_end) result))
       rr (merge_ranges cuts))"
    unfolding subtract_recency_ranges_def by (rule merge_recency_correct)
  then show ?thesis using f that by simp
qed

section \<open>Consumers of released leases\<close>

definition retain_consumer_range ::
  "(int \<times> int \<times> string) list \<Rightarrow> int \<Rightarrow> int \<Rightarrow> string \<Rightarrow> (int \<times> int \<times> string) list" where
  "retain_consumer_range anchors start end task =
     (if end \<le> start then anchors
      else if anchors \<noteq> [] \<and> snd (snd (last anchors)) = task \<and>
          start \<le> fst (snd (last anchors)) \<and> fst (last anchors) \<le> end
      then butlast anchors @ [(min start (fst (last anchors)), max end (fst (snd (last anchors))), task)]
      else anchors @ [(start, end, task)])"

definition anchored :: "(int \<times> int \<times> string) list \<Rightarrow> (int \<times> string) set" where
  "anchored anchors = (\<Union>(s, e, task) \<in> set anchors. {s..<e} \<times> {task})"

lemma anchored_simps [covered_simps]:
  "anchored [] = {}" "anchored ((s, e, q) # rr) = {s..<e} \<times> {q} \<union> anchored rr"
  "anchored (rr @ rr') = anchored rr \<union> anchored rr'"
  by (auto simp: anchored_def)

lemma anchored_retain:
  assumes "\<forall>(s, e, t) \<in> set anchors. s < e"
  shows "anchored (retain_consumer_range anchors start end task) = anchored anchors \<union> {start..<end} \<times> {task}"
    and "\<forall>(s, e, t) \<in> set (retain_consumer_range anchors start end task). s < e"
proof -
  have "anchored (retain_consumer_range anchors start end task) = anchored anchors \<union> {start..<end} \<times> {task}
    \<and> (\<forall>(s, e, t) \<in> set (retain_consumer_range anchors start end task). s < e)"
  proof (cases "start < end")
    case True
    show ?thesis
    proof (cases anchors rule: rev_cases)
      case (snoc pre l)
      obtain a b k where l: "l = (a, b, k)" by (cases l)
      have ab: "a < b" using assms snoc l by auto
      show ?thesis
      proof (cases "k = task \<and> start \<le> b \<and> a \<le> end")
        case True': True
        then have "{min start a..<max end b} = {a..<b} \<union> {start..<end}" using ab True by auto
        then show ?thesis using True True' snoc l assms ab
          by (auto simp: retain_consumer_range_def anchored_simps)
      next
        case False
        then show ?thesis using True snoc l assms
          by (auto simp: retain_consumer_range_def anchored_simps)
      qed
    qed (use True in \<open>auto simp: retain_consumer_range_def anchored_simps\<close>)
  qed (use assms in \<open>auto simp: retain_consumer_range_def\<close>)
  then show "anchored (retain_consumer_range anchors start end task) = anchored anchors \<union> {start..<end} \<times> {task}"
    "\<forall>(s, e, t) \<in> set (retain_consumer_range anchors start end task). s < e" by blast+
qed

section \<open>Unit-aligned ranges as byte sets\<close>

text \<open>
  Ranges on backing-unit boundaries cover, of every unit, all its bytes or none. As a property of
  the byte set this is closed under the set operations, so alignment of composed ranges needs
  no case analysis.
\<close>

definition unit_closed :: "int \<Rightarrow> int \<Rightarrow> int set \<Rightarrow> bool" where
  "unit_closed c g X \<longleftrightarrow> X \<subseteq> {0..<c} \<and> (\<forall>x \<in> X. \<forall>y. 0 \<le> y \<and> y < c \<and> y div g = x div g \<longrightarrow> y \<in> X)"

lemma unit_closed_empty [simp]: "unit_closed c g {}"
  by (simp add: unit_closed_def)

lemma unit_closed_Un [intro]: "unit_closed c g X \<Longrightarrow> unit_closed c g Y \<Longrightarrow> unit_closed c g (X \<union> Y)"
  unfolding unit_closed_def by blast

lemma unit_closed_Int [intro]: "unit_closed c g X \<Longrightarrow> unit_closed c g Y \<Longrightarrow> unit_closed c g (X \<inter> Y)"
  unfolding unit_closed_def by blast

lemma unit_closed_Diff [intro]:
  assumes "unit_closed c g X" "unit_closed c g Y"
  shows "unit_closed c g (X - Y)"
  unfolding unit_closed_def
proof (intro conjI ballI allI impI)
  show "X - Y \<subseteq> {0..<c}" using assms(1) by (auto simp: unit_closed_def)
  fix x y assume x: "x \<in> X - Y" and y: "0 \<le> y \<and> y < c \<and> y div g = x div g"
  have "0 \<le> x \<and> x < c" using x assms(1) by (auto simp: unit_closed_def)
  then show "y \<in> X - Y" using x y assms unfolding unit_closed_def by (metis Diff_iff)
qed

lemma unit_closed_UN: "(\<And>i. i \<in> I \<Longrightarrow> unit_closed c g (X i)) \<Longrightarrow> unit_closed c g (\<Union>i \<in> I. X i)"
  unfolding unit_closed_def by blast

lemma div_less_same:
  fixes e x y g :: int
  assumes "0 < g" "e mod g = 0" "x < e" "y div g = x div g"
  shows "y < e"
proof -
  have e: "e = e div g * g" using assms(2) by (metis add.right_neutral div_mult_mod_eq)
  have "x div g < e div g" using assms(1,3) e div_less_of_less_mult by metis
  then have "(x div g + 1) * g \<le> e div g * g" using assms(1) by (intro mult_right_mono) auto
  then show ?thesis using round_down_greater [OF assms(1), of y] assms(4) e
    by (simp add: algebra_simps)
qed

lemma div_ge_same:
  fixes s x y g :: int
  assumes "0 < g" "s mod g = 0" "s \<le> x" "y div g = x div g"
  shows "s \<le> y"
  using div_less_same [OF assms(1,2), of y x] assms(3,4) by linarith

lemma boundary_closed:
  assumes "is_backing_unit_boundary s c g" "is_backing_unit_boundary e c g" "0 < g"
  shows "unit_closed c g {s..<e}"
  unfolding unit_closed_def
proof (intro conjI ballI allI impI)
  show "{s..<e} \<subseteq> {0..<c}" using assms(1,2) by (auto simp: is_backing_unit_boundary_def)
  fix x y assume x: "x \<in> {s..<e}" and y: "0 \<le> y \<and> y < c \<and> y div g = x div g"
  have sm: "s mod g = 0" and em: "e = c \<or> e mod g = 0"
    using assms(1,2) x by (auto simp: is_backing_unit_boundary_def)
  have "s \<le> y" using div_ge_same [OF assms(3) sm] x y by auto
  moreover have "y < e" using em div_less_same [OF assms(3), of e x y] x y by auto
  ultimately show "y \<in> {s..<e}" by simp
qed

lemma unit_aligned_closed: "unit_aligned c g rs \<Longrightarrow> unit_closed c g (covered rs)"
proof (induction rs)
  case (Cons r rs)
  obtain s e where r: "r = (s, e)" by (cases r)
  have "unit_closed c g {s..<e}"
    using unit_alignedD [OF Cons.prems, of s e] r by (intro boundary_closed) auto
  then show ?case using Cons.IH unit_aligned_subset [OF Cons.prems, of rs] r
    by (auto simp: covered_simps)
qed simp

lemma closed_unit_aligned:
  assumes "canonical rs" "unit_closed c g (covered rs)" "0 < g" "0 \<le> c"
  shows "unit_aligned c g rs"
proof -
  have "is_backing_unit_boundary s c g \<and> is_backing_unit_boundary e c g" if m: "(s, e) \<in> set rs" for s e
  proof -
    note mx = canonical_maximal [OF assms(1) m]
    have sx: "s \<in> covered rs" "e - 1 \<in> covered rs" using mx(3,4) by auto
    then have b: "0 \<le> s" "e \<le> c" using assms(2) by (auto simp: unit_closed_def)
    have cl: "y \<in> covered rs" if "x \<in> covered rs" "0 \<le> y" "y < c" "y div g = x div g" for x y
      using assms(2) that unfolding unit_closed_def by blast
    have prev: "(x - 1) div g = x div g" if "x mod g \<noteq> 0" for x
    proof -
      have "0 < x mod g" using that assms(3) by (simp add: order_less_le)
      then have "x - 1 = x div g * g + (x mod g - 1)" "0 \<le> x mod g - 1" "x mod g - 1 < g"
        using assms(3) pos_mod_bound [of g x] div_mult_mod_eq [of x g] by linarith+
      then show ?thesis using assms(3) by (metis block_digits(1))
    qed
    have "s mod g = 0"
    proof (rule ccontr)
      assume n: "s mod g \<noteq> 0"
      then have "s \<noteq> 0" by auto
      then have "s - 1 \<in> covered rs" using cl [OF sx(1), of "s - 1"] prev [OF n] b mx(3) by simp
      with mx(1) show False by simp
    qed
    moreover have "e = c \<or> e mod g = 0"
    proof (rule ccontr)
      assume n: "\<not> (e = c \<or> e mod g = 0)"
      then have "e \<in> covered rs" using cl [OF sx(2), of e] prev [of e] b mx(3) by simp
      with mx(2) show False by simp
    qed
    ultimately show ?thesis using b mx(3) by (auto simp: is_backing_unit_boundary_def)
  qed
  then show ?thesis using assms(3,4) by (auto simp: unit_aligned_def)
qed

lemma closed_ensure:
  "canonical rs \<Longrightarrow> unit_closed c g (covered rs) \<Longrightarrow> 0 < g \<Longrightarrow> 0 \<le> c \<Longrightarrow>
    ensure_backing_unit_ranges rs c g = Inr ()"
  by (intro unit_aligned_ensure closed_unit_aligned)

lemma ensure_closed:
  assumes "ensure_backing_unit_ranges rs c g = Inr u" "canonical rs"
  shows "unit_closed c g (covered rs)"
proof -
  have "\<forall>(s, e) \<in> set rs. s < e" using canonicalD(1) [OF assms(2)] by blast
  then show ?thesis using unit_aligned_closed [OF ensure_unit_aligned [OF assms(1)]] by blast
qed

text \<open>The same for recency ranges, one sequence number at a time.\<close>

definition stamped_at :: "recency_range list \<Rightarrow> int \<Rightarrow> int set" where
  "stamped_at rr q = {x. (x, q) \<in> stamped rr}"

lemma closed_recency_aligned:
  assumes "recency_ok rr" "\<And>q. unit_closed c g (stamped_at rr q)" "0 < g" "0 \<le> c"
  shows "unit_aligned c g (map extent_of rr)"
proof -
  have "is_backing_unit_boundary s c g \<and> is_backing_unit_boundary e c g" if m: "(s, e, q) \<in> set rr" for s e q
  proof -
    let ?f = "map extent_of (filter (\<lambda>(s, e, q'). q' = q) rr)"
    have "unit_aligned c g ?f"
      using assms(2) [of q] by (intro closed_unit_aligned recency_ok_canonical assms)
        (simp add: covered_of_sequence stamped_at_def)
    moreover have "(s, e) \<in> set ?f" using m by force
    ultimately show ?thesis using unit_alignedD by blast
  qed
  then show ?thesis using assms(3,4) by (fastforce simp: unit_aligned_def)
qed

lemma recency_aligned_closed:
  assumes "unit_aligned c g (map extent_of rr)"
  shows "unit_closed c g (stamped_at rr q)"
proof -
  have "unit_aligned c g (map extent_of (filter (\<lambda>(s, e, q'). q' = q) rr))"
    by (rule unit_aligned_subset [OF assms]) auto
  from unit_aligned_closed [OF this] show ?thesis by (simp add: covered_of_sequence stamped_at_def)
qed

lemma stamped_at_simps [covered_simps]:
  "stamped_at [] q = {}" "stamped_at ((s, e, k) # rr) q = (if k = q then {s..<e} else {}) \<union> stamped_at rr q"
  "stamped_at (rr @ rr') q = stamped_at rr q \<union> stamped_at rr' q"
  by (auto simp: stamped_at_def stamped_simps)

end
