(* ===== verification/Residency.thy ===== *)
theory Residency
  imports Byte_Ranges
begin

text \<open>
  \<open>residency.py\<close>: one capacity authority for the allocations of a memory component. The
  records are its dataclasses, \<open>manager\<close> is the state of \<open>AllocationResidencyManager\<close>, and every
  method is an operation on that state. An \<open>Allocation\<close> object is shared between the
  registry and the local variables of a method; here the registry entry under the allocation's id
  is the object, methods read it again after a call that may have changed it, and \<open>put_owner\<close>
  writes it back.
\<close>

section \<open>Data\<close>

datatype lifecycle = Persistent | Temporary | System_Claim | Released

datatype access_operation = Touch_Access | Read_Access | Write_Access

datatype migration_kind = Page_In | Clean_Discard | Dirty_Writeback

record pool =
  pl_component :: string
  pl_capacity :: int
  pl_page_size :: int
  pl_resident :: int
  pl_peak :: int

definition make_pool :: "string \<Rightarrow> int \<Rightarrow> int \<Rightarrow> residency_error + pool" where
  "make_pool component capacity page_size =
     (if strip component = [] then Inl (Residency_Validation ''component_id must not be empty'')
      else if capacity < 0 then Inl (Residency_Validation ''capacity_bytes must be an integer >= 0'')
      else if page_size < 1 then Inl (Residency_Validation ''page_size_bytes must be an integer >= 1'')
      else Inr \<lparr>pl_component = strip component, pl_capacity = capacity, pl_page_size = page_size,
        pl_resident = 0, pl_peak = 0\<rparr>)"

definition pool_available :: "pool \<Rightarrow> int" where
  "pool_available p = pl_capacity p - pl_resident p"

record owner =
  ow_id :: string
  ow_component :: string
  ow_size :: int
  ow_backing :: "string option"
  ow_kind :: string
  ow_committed :: int
  ow_evictable :: bool
  ow_pinned :: bool
  ow_lifecycle :: lifecycle
  ow_read_only :: bool
  ow_last_access :: int
  ow_granule :: int
  ow_resident_bytes :: int
  ow_dirty :: bool
  ow_order :: int
  ow_resident :: "byte_range list"
  ow_dirty_ranges :: "byte_range list"
  ow_recency :: "recency_range list"

definition ow_dirty_bytes :: "owner \<Rightarrow> int" where
  "ow_dirty_bytes o1 = range_bytes (ow_dirty_ranges o1)"

definition sync_derived :: "owner \<Rightarrow> owner" where
  "sync_derived o1 = (let
     resident = merge_ranges (ow_resident o1);
     dirty = intersect_ranges (merge_ranges (ow_dirty_ranges o1)) resident
   in o1\<lparr>ow_resident := resident, ow_dirty_ranges := dirty,
        ow_resident_bytes := range_bytes resident, ow_dirty := (dirty \<noteq> [])\<rparr>)"

record alloc_view =
  vw_id :: string
  vw_owner :: string
  vw_offset :: int
  vw_size :: int
  vw_granule :: int

record memory_access =
  ma_target :: string
  ma_operation :: access_operation
  ma_offset :: int
  ma_size :: "int option"

record migration =
  mg_sequence :: int
  mg_allocation :: string
  mg_kind :: migration_kind
  mg_bytes :: int
  mg_source :: "string option"
  mg_destination :: "string option"
  mg_granule :: int
  mg_count :: int
  mg_consumers :: "string list"

definition first_keys :: "'a list \<Rightarrow> 'a list" where
  "first_keys xs = foldl (\<lambda>keys x. if x \<in> set keys then keys else keys @ [x]) [] xs"

definition make_migration ::
  "int \<Rightarrow> string \<Rightarrow> migration_kind \<Rightarrow> int \<Rightarrow> string option \<Rightarrow> string option \<Rightarrow> int \<Rightarrow> int \<Rightarrow> string list
    \<Rightarrow> residency_error + migration" where
  "make_migration seq_no allocation kind byte_count source destination granule granule_count consumers =
     (if byte_count < 0 then Inl (Residency_Validation ''byte_count must be an integer >= 0'')
      else if granule < 1 then Inl (Residency_Validation ''residency_granule_bytes must be an integer >= 1'')
      else if granule_count < 0 then Inl (Residency_Validation ''granule_count must be an integer >= 1'')
      else if granule_count \<noteq> 0 \<and> granule_count \<noteq> ceil_div byte_count granule
      then Inl (Residency_Validation ''granule_count must equal ceil(byte_count / residency_granule_bytes)'')
      else Inr \<lparr>mg_sequence = seq_no, mg_allocation = allocation, mg_kind = kind, mg_bytes = byte_count,
        mg_source = source, mg_destination = destination, mg_granule = granule,
        mg_count = ceil_div byte_count granule,
        mg_consumers = first_keys (filter (\<lambda>c. c \<noteq> []) consumers)\<rparr>)"

definition mg_page_in :: "migration \<Rightarrow> int" where
  "mg_page_in m = (if mg_kind m = Page_In then mg_bytes m else 0)"

definition mg_page_out :: "migration \<Rightarrow> int" where
  "mg_page_out m = (if mg_kind m \<noteq> Page_In then mg_bytes m else 0)"

definition mg_clean_discard :: "migration \<Rightarrow> int" where
  "mg_clean_discard m = (if mg_kind m = Clean_Discard then mg_bytes m else 0)"

definition mg_dirty_writeback :: "migration \<Rightarrow> int" where
  "mg_dirty_writeback m = (if mg_kind m = Dirty_Writeback then mg_bytes m else 0)"

record migration_totals =
  mt_page_in :: int
  mt_page_out :: int
  mt_clean_discard :: int
  mt_dirty_writeback :: int

record residency_result =
  rr_sequence :: int
  rr_target :: string
  rr_owner :: string
  rr_operation :: access_operation
  rr_offset :: int
  rr_size :: int
  rr_page_in :: int
  rr_migrations :: "migration list"
  rr_physical :: int
  rr_ranges :: "byte_range list"

record residency_snapshot =
  sn_component :: string
  sn_capacity :: int
  sn_resident :: int
  sn_peak :: int
  sn_available :: int
  sn_committed :: int
  sn_allocations :: int
  sn_views :: int
  sn_migrations :: migration_totals

record lease =
  le_id :: string
  le_consumer :: string
  le_target :: string
  le_owner :: string
  le_offset :: int
  le_size :: int
  le_ranges :: "byte_range list"

type_synonym anchor = "int \<times> int \<times> string"

record manager =
  rm_pool :: pool
  rm_allocations :: "(string, owner) dict"
  rm_views :: "(string, alloc_view) dict"
  rm_access_seq :: int
  rm_registration_seq :: int
  rm_migration_seq :: int
  rm_migrations :: "migration list"
  rm_totals :: migration_totals
  rm_leases :: "(string, lease) dict"
  rm_anchors :: "(string, anchor list) dict"
  rm_deferred :: int

type_synonym 'a residency_op = "(residency_error + 'a) \<times> manager"

datatype pool_argument = Existing_Pool pool | Pool_Component string

definition new_manager :: "pool_argument \<Rightarrow> int option \<Rightarrow> int \<Rightarrow> residency_error + manager" where
  "new_manager pool_arg capacity page_size = rbind
     (case pool_arg of
        Existing_Pool p \<Rightarrow>
          if capacity \<noteq> None
          then Inl (Residency_Validation ''capacity_bytes must be omitted when pool is a PhysicalPool'')
          else if pl_resident p \<noteq> 0
          then Inl (Residency_Validation ''a PhysicalPool must be unused when attached to a manager'')
          else Inr p
      | Pool_Component component \<Rightarrow>
          (case capacity of
             None \<Rightarrow> Inl (Residency_Validation ''capacity_bytes is required when pool is a component id'')
           | Some c \<Rightarrow> make_pool component c page_size))
     (\<lambda>p. Inr \<lparr>rm_pool = p, rm_allocations = [], rm_views = [], rm_access_seq = 0, rm_registration_seq = 0,
        rm_migration_seq = 0, rm_migrations = [],
        rm_totals = \<lparr>mt_page_in = 0, mt_page_out = 0, mt_clean_discard = 0, mt_dirty_writeback = 0\<rparr>,
        rm_leases = [], rm_anchors = [], rm_deferred = 0\<rparr>)"

definition put_owner :: "owner \<Rightarrow> manager \<Rightarrow> manager" where
  "put_owner o1 s = s\<lparr>rm_allocations := AList.update (ow_id o1) o1 (rm_allocations s)\<rparr>"

section \<open>The self-check\<close>

text \<open>
  \<open>assert_consistent\<close> normalises each owner in passing (\<open>_sync_derived_state\<close>) and raises at the
  first violation.
\<close>

definition owner_checks :: "string \<Rightarrow> int \<Rightarrow> string \<Rightarrow> owner \<Rightarrow> residency_error + unit" where
  "owner_checks component access_seq owner_id o1 =
    rbind (require (ow_resident_bytes o1 \<le> ow_committed o1)
      (Residency_Error ''resident bytes exceed commitment'')) (\<lambda>_.
    rbind (require (ow_dirty_bytes o1 \<le> ow_resident_bytes o1)
      (Residency_Error ''dirty bytes exceed resident bytes'')) (\<lambda>_.
    rbind (require (1 \<le> ow_granule o1)
      (Residency_Validation ''residency_granule_bytes must be an integer >= 1'')) (\<lambda>_.
    rbind (ensure_backing_unit_ranges (ow_resident o1) (ow_committed o1) (ow_granule o1)) (\<lambda>_.
    rbind (ensure_backing_unit_ranges (ow_dirty_ranges o1) (ow_committed o1) (ow_granule o1)) (\<lambda>_.
    rbind (merge_recency_ranges (ow_recency o1)) (\<lambda>normalized.
    rbind (require (normalized = ow_recency o1)
      (Residency_Error ''allocation recency ranges are not normalized'')) (\<lambda>_.
    rbind (require (merge_ranges (map extent_of (ow_recency o1)) = ow_resident o1)
      (Residency_Error ''allocation recency does not cover exactly its resident bytes'')) (\<lambda>_.
    rbind (ensure_backing_unit_ranges (map extent_of (ow_recency o1)) (ow_committed o1) (ow_granule o1)) (\<lambda>_.
    rbind (require (\<forall>(start, end, sequence) \<in> set (ow_recency o1). 0 \<le> start \<and> end \<le> ow_committed o1
        \<and> 0 < sequence \<and> sequence \<le> ow_last_access o1)
      (Residency_Error ''allocation recency range or sequence is invalid'')) (\<lambda>_.
    rbind (require (0 < ow_last_access o1 \<and> ow_last_access o1 \<le> access_seq)
      (Residency_Error ''allocation last_access sequence is invalid'')) (\<lambda>_.
    require (\<not> (ow_pinned o1 \<and> ow_evictable o1))
      (Residency_Error ''pinned allocation is marked evictable''))))))))))))"

fun check_owners :: "string \<Rightarrow> int \<Rightarrow> int \<Rightarrow> (string, owner) dict \<Rightarrow>
    (residency_error + int) \<times> (string, owner) dict" where
  "check_owners component access_seq expected [] = (Inr expected, [])"
| "check_owners component access_seq expected ((k, o1) # rest) =
     (if ow_id o1 \<noteq> k then (Inl (Residency_Error ''allocation registry owner mismatch''), (k, o1) # rest)
      else if ow_component o1 \<noteq> component
      then (Inl (Residency_Error ''allocation belongs to another physical pool''), (k, o1) # rest)
      else let o2 = sync_derived o1 in
        case owner_checks component access_seq k o2 of
          Inl e \<Rightarrow> (Inl e, (k, o2) # rest)
        | Inr _ \<Rightarrow>
            let checked = check_owners component access_seq (expected + ow_resident_bytes o2) rest
            in (fst checked, (k, o2) # snd checked))"

definition view_checks :: "(string, owner) dict \<Rightarrow> string \<times> alloc_view \<Rightarrow> residency_error + unit" where
  "view_checks owners entry = (case entry of (k, v) \<Rightarrow>
     (case map_of owners (vw_owner v) of
        None \<Rightarrow> Inl (Residency_Error ''stale or malformed allocation view'')
      | Some o1 \<Rightarrow>
          if vw_id v \<noteq> k then Inl (Residency_Error ''stale or malformed allocation view'')
          else if vw_offset v < 0 \<or> ow_size o1 < vw_offset v + vw_size v
          then Inl (Residency_Error ''allocation view exceeds owner bounds'')
          else if vw_granule v \<noteq> ow_granule o1
          then Inl (Residency_Error ''allocation view residency granule is stale'')
          else Inr ()))"

definition lease_checks :: "(string, owner) dict \<Rightarrow> string \<times> lease \<Rightarrow> residency_error + unit" where
  "lease_checks owners entry = (case entry of (k, l) \<Rightarrow>
     (case map_of owners (le_owner l) of
        None \<Rightarrow> Inl (Residency_Error ''stale or malformed residency lease'')
      | Some o1 \<Rightarrow>
          if le_id l \<noteq> k then Inl (Residency_Error ''stale or malformed residency lease'')
          else if intersect_ranges (le_ranges l) (ow_resident o1) \<noteq> le_ranges l
          then Inl (Residency_Error ''residency lease covers non-resident bytes'')
          else Inr ()))"

fun each_check :: "('a \<Rightarrow> 'e + unit) \<Rightarrow> 'a list \<Rightarrow> 'e + unit" where
  "each_check f [] = Inr ()"
| "each_check f (x # xs) = rbind (f x) (\<lambda>_. each_check f xs)"

definition assert_consistent :: "manager \<Rightarrow> unit residency_op" where
  "assert_consistent s0 = (let
     checked = check_owners (pl_component (rm_pool s0)) (rm_access_seq s0) 0 (rm_allocations s0);
     s = s0\<lparr>rm_allocations := snd checked\<rparr>
   in (rbind (fst checked) (\<lambda>expected.
      rbind (each_check (view_checks (rm_allocations s)) (rm_views s)) (\<lambda>_.
      rbind (each_check (lease_checks (rm_allocations s)) (rm_leases s)) (\<lambda>_.
      rbind (require (expected = pl_resident (rm_pool s))
        (Residency_Error ''physical pool accounting mismatch'')) (\<lambda>_.
      require (0 \<le> expected \<and> expected \<le> pl_capacity (rm_pool s))
        (Residency_Error ''physical pool accounting is outside capacity''))))), s))"

definition validate_boundary :: "manager \<Rightarrow> unit residency_op" where
  "validate_boundary s = (if rm_deferred s = 0 then assert_consistent s else (Inr (), s))"

definition begin_deferred :: "manager \<Rightarrow> unit residency_op" where
  "begin_deferred s0 = sbind (if rm_deferred s0 = 0 then assert_consistent s0 else (Inr (), s0))
     (\<lambda>_ s. (Inr (), s\<lparr>rm_deferred := rm_deferred s + 1\<rparr>))"

definition end_deferred :: "manager \<Rightarrow> unit residency_op" where
  "end_deferred s0 =
     (if rm_deferred s0 \<le> 0 then (Inl (Residency_Error ''deferred validation is not active''), s0)
      else let s = s0\<lparr>rm_deferred := rm_deferred s0 - 1\<rparr> in
        if rm_deferred s = 0 then assert_consistent s else (Inr (), s))"

section \<open>Reading the state\<close>

definition migration_count :: "manager \<Rightarrow> int" where
  "migration_count s = int (length (rm_migrations s))"

definition migrations_since :: "int \<Rightarrow> manager \<Rightarrow> migration list option" where
  "migrations_since cursor s =
     (if cursor < 0 \<or> migration_count s < cursor then None else Some (drop (nat cursor) (rm_migrations s)))"

definition committed_total :: "manager \<Rightarrow> int" where
  "committed_total s = dict_sum ow_committed (rm_allocations s)"

definition residency_snapshot_of :: "manager \<Rightarrow> residency_snapshot" where
  "residency_snapshot_of s = \<lparr>sn_component = pl_component (rm_pool s), sn_capacity = pl_capacity (rm_pool s),
     sn_resident = pl_resident (rm_pool s), sn_peak = pl_peak (rm_pool s),
     sn_available = pool_available (rm_pool s), sn_committed = committed_total s,
     sn_allocations = int (length (rm_allocations s)), sn_views = int (length (rm_views s)),
     sn_migrations = rm_totals s\<rparr>"

definition get_owner :: "string \<Rightarrow> manager \<Rightarrow> residency_error + owner" where
  "get_owner owner_id s = (case map_of (rm_allocations s) owner_id of
     Some o1 \<Rightarrow> Inr o1
   | None \<Rightarrow>
       if map_of (rm_views s) owner_id \<noteq> None
       then Inl (Residency_Validation ''an AllocationView is not a physical owner'')
       else Inl (Allocation_Not_Found ''unknown allocation''))"

definition get_view :: "string \<Rightarrow> manager \<Rightarrow> residency_error + alloc_view" where
  "get_view view_id s = (case map_of (rm_views s) view_id of
     Some v \<Rightarrow> Inr v
   | None \<Rightarrow> Inl (Allocation_Not_Found ''unknown allocation view''))"

section \<open>Recency, accounting and migrations\<close>

text \<open>The ordered splice of one contiguous extent into a recency partition.\<close>

fun splice_recency :: "int \<Rightarrow> int \<Rightarrow> int \<Rightarrow> bool \<Rightarrow> recency_range list \<Rightarrow> recency_range list" where
  "splice_recency refresh_start refresh_end sequence inserted [] =
     (if inserted then [] else [(refresh_start, refresh_end, sequence)])"
| "splice_recency refresh_start refresh_end sequence inserted ((start, end, previous) # rest) =
     (if end \<le> refresh_start
      then (start, end, previous) # splice_recency refresh_start refresh_end sequence inserted rest
      else if refresh_end \<le> start
      then (if inserted then [] else [(refresh_start, refresh_end, sequence)]) @
        (start, end, previous) # splice_recency refresh_start refresh_end sequence True rest
      else (if start < refresh_start then [(start, refresh_start, previous)] else []) @
        (if inserted then [] else [(refresh_start, refresh_end, sequence)]) @
        (if refresh_end < end then [(refresh_end, end, previous)] else []) @
        splice_recency refresh_start refresh_end sequence True rest)"

definition refresh_single :: "recency_range list \<Rightarrow> int \<Rightarrow> int \<Rightarrow> int \<Rightarrow> residency_error + recency_range list" where
  "refresh_single recency refresh_start refresh_end sequence = (let
     refreshed = splice_recency refresh_start refresh_end sequence False recency
   in if \<exists>(start, end, previous) \<in> set recency. previous = sequence
      then merge_recency_ranges refreshed else Inr refreshed)"

definition refresh_general :: "recency_range list \<Rightarrow> byte_range list \<Rightarrow> int \<Rightarrow> residency_error + recency_range list" where
  "refresh_general recency normalized sequence =
     rbind (subtract_recency_ranges recency normalized) (\<lambda>retained.
       merge_recency_ranges (retained @ map (\<lambda>(start, end). (start, end, sequence)) normalized))"

definition refresh_recency :: "owner \<Rightarrow> byte_range list \<Rightarrow> int \<Rightarrow> residency_error + owner" where
  "refresh_recency o1 ranges sequence = (let normalized = merge_ranges ranges in
     if normalized = [] then Inr o1
     else rbind (ensure_backing_unit_ranges normalized (ow_committed o1) (ow_granule o1)) (\<lambda>_.
       if intersect_ranges normalized (ow_resident o1) \<noteq> normalized
       then Inl (Residency_Error ''cannot refresh non-resident bytes'')
       else rbind (case normalized of
             [(refresh_start, refresh_end)] \<Rightarrow> refresh_single (ow_recency o1) refresh_start refresh_end sequence
           | _ \<Rightarrow> refresh_general (ow_recency o1) normalized sequence)
         (\<lambda>refreshed. Inr (o1\<lparr>ow_recency := refreshed\<rparr>))))"

definition adjust_pool :: "int \<Rightarrow> manager \<Rightarrow> unit residency_op" where
  "adjust_pool delta s = (let p = rm_pool s; updated = pl_resident p + delta in
     if updated < 0 then (Inl (Residency_Error ''physical pool underflow''), s)
     else if pl_capacity p < updated then (Inl (Capacity_Exceeded ''physical pool capacity exceeded''), s)
     else (Inr (), s\<lparr>rm_pool := p\<lparr>pl_resident := updated, pl_peak := max (pl_peak p) updated\<rparr>\<rparr>))"

definition record_migration ::
  "owner \<Rightarrow> migration_kind \<Rightarrow> int \<Rightarrow> string option \<Rightarrow> string option \<Rightarrow> string list \<Rightarrow> manager
    \<Rightarrow> migration residency_op" where
  "record_migration o1 kind byte_count source destination consumers s0 =
     (if byte_count \<le> 0 then (Inl (Residency_Error ''cannot record a zero-byte migration''), s0)
      else let s = s0\<lparr>rm_migration_seq := rm_migration_seq s0 + 1\<rparr> in
        case make_migration (rm_migration_seq s) (ow_id o1) kind byte_count source destination
            (ow_granule o1) 0 consumers of
          Inl e \<Rightarrow> (Inl e, s)
        | Inr m \<Rightarrow> (Inr m, s\<lparr>rm_migrations := rm_migrations s @ [m],
            rm_totals := \<lparr>mt_page_in = mt_page_in (rm_totals s) + mg_page_in m,
              mt_page_out = mt_page_out (rm_totals s) + mg_page_out m,
              mt_clean_discard = mt_clean_discard (rm_totals s) + mg_clean_discard m,
              mt_dirty_writeback = mt_dirty_writeback (rm_totals s) + mg_dirty_writeback m\<rparr>\<rparr>))"

section \<open>Eviction\<close>

definition leased_ranges :: "string \<Rightarrow> manager \<Rightarrow> byte_range list" where
  "leased_ranges owner_id s = merge_ranges
     (concat (map (\<lambda>(k, l). if le_owner l = owner_id then le_ranges l else []) (rm_leases s)))"

definition eviction_cuts :: "owner \<Rightarrow> string option \<Rightarrow> byte_range list \<Rightarrow> manager \<Rightarrow> byte_range list" where
  "eviction_cuts o1 protected_owner protected_ranges s = leased_ranges (ow_id o1) s @
     (if protected_owner = Some (ow_id o1) then protected_ranges else [])"

definition evictable_now :: "owner \<Rightarrow> bool" where
  "evictable_now o1 \<longleftrightarrow> \<not> ow_pinned o1 \<and> ow_evictable o1 \<and> ow_resident o1 \<noteq> [] \<and> ow_backing o1 \<noteq> None"

definition candidate_ranges :: "owner \<Rightarrow> string option \<Rightarrow> byte_range list \<Rightarrow> manager \<Rightarrow> byte_range list" where
  "candidate_ranges o1 protected_owner protected_ranges s =
     (if evictable_now o1
      then subtract_ranges (ow_resident o1) (eviction_cuts o1 protected_owner protected_ranges s) else [])"

definition candidate_recency_ranges ::
  "owner \<Rightarrow> string option \<Rightarrow> byte_range list \<Rightarrow> manager \<Rightarrow> recency_range list" where
  "candidate_recency_ranges o1 protected_owner protected_ranges s =
     (if evictable_now o1
      then concat (map (\<lambda>(start, end, sequence).
          map (\<lambda>(fragment_start, fragment_end). (fragment_start, fragment_end, sequence))
            (subtract_ranges [(start, end)] (eviction_cuts o1 protected_owner protected_ranges s)))
        (ow_recency o1)) else [])"

definition consumers_of :: "anchor list \<Rightarrow> byte_range list \<Rightarrow> string list" where
  "consumers_of anchors selected = first_keys (map (\<lambda>(start, end, task). task)
     (filter (\<lambda>(start, end, task). intersect_ranges [(start, end)] selected \<noteq> []) anchors))"

definition retained_anchors :: "anchor list \<Rightarrow> byte_range list \<Rightarrow> anchor list" where
  "retained_anchors anchors selected = concat (map (\<lambda>(start, end, task).
     map (\<lambda>(fragment_start, fragment_end). (fragment_start, fragment_end, task))
       (subtract_ranges [(start, end)] selected)) anchors)"

definition anchors_of :: "string \<Rightarrow> manager \<Rightarrow> anchor list" where
  "anchors_of owner_id s = (case map_of (rm_anchors s) owner_id of None \<Rightarrow> [] | Some a \<Rightarrow> a)"

definition put_anchors :: "string \<Rightarrow> anchor list \<Rightarrow> manager \<Rightarrow> manager" where
  "put_anchors owner_id anchors s = s\<lparr>rm_anchors :=
     (if anchors \<noteq> [] then AList.update owner_id anchors (rm_anchors s)
      else AList.delete owner_id (rm_anchors s))\<rparr>"

definition evict_owner_ranges :: "owner \<Rightarrow> byte_range list \<Rightarrow> manager \<Rightarrow> unit residency_op" where
  "evict_owner_ranges o1 selected_ranges s0 =
     (if ow_pinned o1 \<or> \<not> ow_evictable o1 \<or> ow_backing o1 = None
      then (Inl (Residency_Error ''unsafe eviction plan''), s0)
      else let selected = merge_ranges selected_ranges in
      if selected = [] then (Inr (), s0)
      else case ensure_backing_unit_ranges selected (ow_committed o1) (ow_granule o1) of
        Inl e \<Rightarrow> (Inl e, s0)
      | Inr _ \<Rightarrow>
        if intersect_ranges selected (ow_resident o1) \<noteq> selected
        then (Inl (Residency_Error ''eviction selection includes non-resident bytes''), s0)
        else let
          selected_bytes = range_bytes selected;
          dirty_bytes = range_bytes (intersect_ranges selected (ow_dirty_ranges o1));
          clean_bytes = selected_bytes - dirty_bytes;
          anchors = anchors_of (ow_id o1) s0;
          consumers = consumers_of anchors selected;
          s1 = put_anchors (ow_id o1) (retained_anchors anchors selected) s0;
          o2 = o1\<lparr>ow_resident := subtract_ranges (ow_resident o1) selected,
            ow_dirty_ranges := subtract_ranges (ow_dirty_ranges o1) selected\<rparr>
        in case subtract_recency_ranges (ow_recency o1) selected of
          Inl e \<Rightarrow> (Inl e, put_owner o2 s1)
        | Inr recency \<Rightarrow>
          sbind (adjust_pool (- selected_bytes) (put_owner (sync_derived (o2\<lparr>ow_recency := recency\<rparr>)) s1)) (\<lambda>_ s2.
          sbind (if dirty_bytes \<noteq> 0
              then sbind (record_migration o1 Dirty_Writeback dirty_bytes (Some (pl_component (rm_pool s2)))
                (ow_backing o1) consumers s2) (\<lambda>_ s. (Inr (), s))
              else (Inr (), s2)) (\<lambda>_ s3.
          if clean_bytes \<noteq> 0
          then sbind (record_migration o1 Clean_Discard clean_bytes (Some (pl_component (rm_pool s3)))
            (ow_backing o1) consumers s3) (\<lambda>_ s. (Inr (), s))
          else (Inr (), s3))))"

text \<open>Selecting the highest backing units of an owner until enough bytes are covered.\<close>

fun take_units :: "byte_range list \<Rightarrow> int \<Rightarrow> byte_range list \<times> int" where
  "take_units [] remaining = ([], remaining)"
| "take_units ((unit_start, unit_end) # units) remaining =
     (if remaining \<le> 0 then ([], remaining)
      else let rest = take_units units (remaining - (unit_end - unit_start))
        in ((unit_start, unit_end) # fst rest, snd rest))"

fun select_units :: "int \<Rightarrow> int \<Rightarrow> byte_range list \<Rightarrow> int \<Rightarrow> residency_error + byte_range list \<times> int" where
  "select_units committed granule [] remaining = Inr ([], remaining)"
| "select_units committed granule ((start, end) # ranges) remaining =
     (if remaining \<le> 0 then Inr ([], remaining)
      else rbind (iter_backing_unit_ranges committed granule [(start, end)]) (\<lambda>units.
        let taken = take_units (rev units) remaining in
        rbind (select_units committed granule ranges (snd taken)) (\<lambda>rest.
          Inr (fst taken @ fst rest, snd rest))))"

definition evict_owner_bytes :: "owner \<Rightarrow> int \<Rightarrow> byte_range list \<Rightarrow> manager \<Rightarrow> unit residency_op" where
  "evict_owner_bytes o1 byte_count protected_ranges s =
     (if ow_pinned o1 \<or> \<not> ow_evictable o1 \<or> ow_backing o1 = None
      then (Inl (Residency_Error ''unsafe eviction plan''), s)
      else let available_ranges = candidate_ranges o1 (Some (ow_id o1)) protected_ranges s in
      if byte_count < 0 \<or> range_bytes available_ranges < byte_count
      then (Inl (Residency_Error ''eviction underflow''), s)
      else case select_units (ow_committed o1) (ow_granule o1) (rev available_ranges) byte_count of
        Inl e \<Rightarrow> (Inl e, s)
      | Inr (selected, remaining) \<Rightarrow>
          if 0 < remaining then (Inl (Residency_Error ''eviction selection underflow''), s)
          else evict_owner_ranges o1 selected s)"

text \<open>A candidate is \<open>(sequence, registration order, owner id, start, end, owner)\<close>.\<close>

type_synonym candidate = "int \<times> int \<times> string \<times> int \<times> int \<times> owner"

definition candidate_key :: "candidate \<Rightarrow> int \<times> int \<times> string \<times> int" where
  "candidate_key c = (case c of (sequence, order, owner_id, start, end, o1) \<Rightarrow> (sequence, order, owner_id, start))"

fun check_candidates :: "owner \<Rightarrow> recency_range list \<Rightarrow> residency_error + candidate list" where
  "check_candidates o1 [] = Inr []"
| "check_candidates o1 ((start, end, sequence) # ranges) =
     rbind (ensure_backing_unit_ranges [(start, end)] (ow_committed o1) (ow_granule o1)) (\<lambda>_.
     rbind (check_candidates o1 ranges) (\<lambda>rest.
       Inr ((sequence, ow_order o1, ow_id o1, start, end, o1) # rest)))"

fun gather_candidates :: "(string, owner) dict \<Rightarrow> string option \<Rightarrow> byte_range list \<Rightarrow> manager
    \<Rightarrow> residency_error + candidate list" where
  "gather_candidates [] protected_owner protected_ranges s = Inr []"
| "gather_candidates ((k, o1) # owners) protected_owner protected_ranges s =
     rbind (check_candidates o1 (candidate_recency_ranges o1 protected_owner protected_ranges s)) (\<lambda>found.
     rbind (gather_candidates owners protected_owner protected_ranges s) (\<lambda>rest. Inr (found @ rest)))"

text \<open>The plan: per owner, in order of first selection, the ranges to evict.\<close>

fun plan_evictions :: "candidate list \<Rightarrow> int \<Rightarrow> (string, byte_range list) dict \<Rightarrow>
    (string, byte_range list) dict \<times> int" where
  "plan_evictions [] remaining plan = (plan, remaining)"
| "plan_evictions ((sequence, order, owner_id, start, end, o1) # candidates) remaining plan =
     (if remaining \<le> 0 then (plan, remaining)
      else case backing_unit_prefix_for_bytes start end (ow_granule o1) remaining of
        None \<Rightarrow> plan_evictions candidates remaining plan
      | Some selected \<Rightarrow> plan_evictions candidates (remaining - (snd selected - fst selected))
          (AList.update owner_id
            ((case map_of plan owner_id of None \<Rightarrow> [] | Some rs \<Rightarrow> rs) @ [selected]) plan))"

fun evict_planned :: "(string, byte_range list) dict \<Rightarrow> manager \<Rightarrow> unit residency_op" where
  "evict_planned [] s = (Inr (), s)"
| "evict_planned ((owner_id, ranges) # plan) s =
     (case map_of (rm_allocations s) owner_id of
        None \<Rightarrow> (Inl (Allocation_Not_Found ''unknown allocation''), s)
      | Some o1 \<Rightarrow> sbind (evict_owner_ranges o1 ranges s) (\<lambda>_ s. evict_planned plan s))"

definition make_room :: "int \<Rightarrow> string option \<Rightarrow> byte_range list \<Rightarrow> manager \<Rightarrow> unit residency_op" where
  "make_room additional protected_owner protected_ranges s =
     (if additional < 0 then (Inl (Residency_Validation ''additional_bytes must be an integer >= 0''), s)
      else let need = max 0 (pl_resident (rm_pool s) + additional - pl_capacity (rm_pool s)) in
      if need = 0 then (Inr (), s)
      else case gather_candidates (rm_allocations s) protected_owner protected_ranges s of
        Inl e \<Rightarrow> (Inl e, s)
      | Inr candidates \<Rightarrow>
          let planned = plan_evictions (sort_key candidate_key candidates) need [] in
          if 0 < snd planned
          then (Inl (Capacity_Exceeded ''not enough additional resident bytes can be made available''), s)
          else evict_planned (fst planned) s)"

section \<open>Registering\<close>

record registration =
  rg_id :: string
  rg_size :: int
  rg_kind :: string
  rg_backing :: "string option"
  rg_committed :: "int option"
  rg_resident :: int
  rg_dirty :: bool
  rg_evictable :: "bool option"
  rg_pinned :: bool
  rg_lifecycle :: lifecycle
  rg_read_only :: "bool option"
  rg_granule :: "int option"

definition rg_resolved_backing :: "registration \<Rightarrow> string option" where
  "rg_resolved_backing r = map_option strip (rg_backing r)"

definition rg_resolved_evictable :: "registration \<Rightarrow> bool" where
  "rg_resolved_evictable r = (case rg_evictable r of
     None \<Rightarrow> rg_resolved_backing r \<noteq> None \<and> \<not> rg_pinned r | Some e \<Rightarrow> e)"

definition rg_resolved_committed :: "registration \<Rightarrow> int" where
  "rg_resolved_committed r = (case rg_committed r of None \<Rightarrow> rg_size r | Some c \<Rightarrow> c)"

definition rg_resolved_granule :: "registration \<Rightarrow> manager \<Rightarrow> int" where
  "rg_resolved_granule r s = (case rg_granule r of None \<Rightarrow> pl_page_size (rm_pool s) | Some g \<Rightarrow> g)"

definition rg_normal_kind :: "registration \<Rightarrow> string" where
  "rg_normal_kind r = lower (strip (rg_kind r))"

definition rg_resolved_read_only :: "registration \<Rightarrow> bool" where
  "rg_resolved_read_only r = (case rg_read_only r of
     None \<Rightarrow> rg_normal_kind r \<in> {''weight'', ''weights'', ''model_weight'', ''model_weights''} | Some b \<Rightarrow> b)"

definition register_checks :: "registration \<Rightarrow> manager \<Rightarrow> residency_error + unit" where
  "register_checks r s = check_all
    [(strip (rg_id r) \<noteq> [], Residency_Validation ''allocation_id must not be empty''),
     (map_of (rm_allocations s) (strip (rg_id r)) = None \<and> map_of (rm_views s) (strip (rg_id r)) = None,
       Residency_Validation ''allocation/view id already registered''),
     (1 \<le> rg_size r, Residency_Validation ''size_bytes must be an integer >= 1''),
     (0 \<le> rg_resolved_committed r, Residency_Validation ''committed_bytes must be an integer >= 0''),
     (0 \<le> rg_resident r, Residency_Validation ''resident_bytes must be an integer >= 0''),
     (rg_resolved_committed r \<le> rg_size r, Residency_Validation ''committed_bytes exceeds size_bytes''),
     (rg_resident r \<le> rg_resolved_committed r, Residency_Validation ''resident_bytes exceeds committed_bytes''),
     (1 \<le> rg_resolved_granule r s, Residency_Validation ''residency_granule_bytes must be an integer >= 1''),
     (rg_resolved_backing r \<noteq> Some [], Residency_Validation ''backing must not be empty''),
     (rg_lifecycle r \<noteq> Released, Residency_Validation ''cannot register a released allocation''),
     (\<not> (rg_pinned r \<and> rg_lifecycle r = Temporary),
       Residency_Validation ''temporary allocations cannot be pinned''),
     (\<not> (rg_pinned r \<and> rg_resolved_evictable r), Residency_Validation ''pinned allocations cannot be evictable''),
     (\<not> (rg_resolved_evictable r \<and> rg_resolved_backing r = None),
       Residency_Validation ''evictable allocations require a backing component''),
     (\<not> (rg_resolved_evictable r \<and> rg_resolved_backing r = Some (pl_component (rm_pool s))),
       Residency_Validation ''an evictable allocation backing must differ from its physical pool''),
     (rg_normal_kind r \<noteq> [], Residency_Validation ''kind must not be empty''),
     (\<not> (rg_dirty r \<and> rg_resident r = 0),
       Residency_Validation ''an allocation with no resident bytes cannot be dirty''),
     (\<not> (rg_dirty r \<and> rg_resolved_read_only r),
       Residency_Validation ''read-only allocations cannot start dirty''),
     (\<not> (rg_dirty r \<and> rg_resolved_evictable r \<and> rg_resolved_backing r = None),
       Residency_Validation ''dirty evictable bytes require backing'')]"

definition initial_ranges :: "registration \<Rightarrow> manager \<Rightarrow> byte_range list" where
  "initial_ranges r s =
     prefix_backing_unit_ranges (rg_resolved_committed r) (rg_resolved_granule r s) (rg_resident r)"

definition blank_owner :: "registration \<Rightarrow> int \<Rightarrow> int \<Rightarrow> manager \<Rightarrow> owner" where
  "blank_owner r order access_sequence s =
     \<lparr>ow_id = strip (rg_id r), ow_component = pl_component (rm_pool s), ow_size = rg_size r,
      ow_backing = rg_resolved_backing r, ow_kind = rg_normal_kind r,
      ow_committed = rg_resolved_committed r, ow_evictable = rg_resolved_evictable r,
      ow_pinned = rg_pinned r, ow_lifecycle = rg_lifecycle r, ow_read_only = rg_resolved_read_only r,
      ow_last_access = access_sequence, ow_granule = rg_resolved_granule r s, ow_resident_bytes = 0,
      ow_dirty = False, ow_order = order, ow_resident = [], ow_dirty_ranges = [], ow_recency = []\<rparr>"

text \<open>\<open>_next_access_sequence\<close>: the counter after it is stepped.\<close>

definition bump_access :: "manager \<Rightarrow> manager" where
  "bump_access s = s\<lparr>rm_access_seq := rm_access_seq s + 1\<rparr>"

definition register_owner :: "registration \<Rightarrow> manager \<Rightarrow> owner residency_op" where
  "register_owner r s0 =
     (case register_checks r s0 of
        Inl e \<Rightarrow> (Inl e, s0)
      | Inr _ \<Rightarrow> let
          initial = initial_ranges r s0;
          initial_resident = range_bytes initial
        in sbind (validate_boundary s0) (\<lambda>_ s1.
           sbind (make_room initial_resident None [] s1) (\<lambda>_ s2.
           let s3 = bump_access (s2\<lparr>rm_registration_seq := rm_registration_seq s2 + 1\<rparr>);
             blank = blank_owner r (rm_registration_seq s3) (rm_access_seq s3) s3;
             filled = sync_derived (blank\<lparr>ow_resident := initial,
               ow_dirty_ranges := (if rg_dirty r then initial else [])\<rparr>)
           in sbind
             (if initial_resident \<noteq> 0
              then case refresh_recency filled (ow_resident filled) (rm_access_seq s3) of
                  Inl e \<Rightarrow> (Inl e, s3)
                | Inr o1 \<Rightarrow> sbind (adjust_pool initial_resident s3) (\<lambda>_ s. (Inr o1, s))
              else (Inr blank, s3))
             (\<lambda>o1 s4. sbind (validate_boundary (put_owner o1 s4)) (\<lambda>_ s5. (Inr o1, s5))))))"

definition claim_system :: "string \<Rightarrow> int \<Rightarrow> int option \<Rightarrow> manager \<Rightarrow> owner residency_op" where
  "claim_system allocation_id size_bytes granule = register_owner
     \<lparr>rg_id = allocation_id, rg_size = size_bytes, rg_kind = ''system'', rg_backing = None,
      rg_committed = Some size_bytes, rg_resident = size_bytes, rg_dirty = False,
      rg_evictable = Some False, rg_pinned = True, rg_lifecycle = System_Claim, rg_read_only = None,
      rg_granule = granule\<rparr>"

definition register_temporary ::
  "string \<Rightarrow> int \<Rightarrow> string \<Rightarrow> int option \<Rightarrow> string option \<Rightarrow> bool option \<Rightarrow> int option \<Rightarrow> manager
    \<Rightarrow> owner residency_op" where
  "register_temporary allocation_id size_bytes kind resident backing evictable granule = register_owner
     \<lparr>rg_id = allocation_id, rg_size = size_bytes, rg_kind = kind, rg_backing = backing,
      rg_committed = Some size_bytes,
      rg_resident = (case resident of None \<Rightarrow> size_bytes | Some r \<Rightarrow> r), rg_dirty = False,
      rg_evictable = evictable, rg_pinned = False, rg_lifecycle = Temporary, rg_read_only = None,
      rg_granule = granule\<rparr>"

section \<open>Views\<close>

definition create_view :: "string \<Rightarrow> string \<Rightarrow> int \<Rightarrow> int option \<Rightarrow> manager \<Rightarrow> alloc_view residency_op" where
  "create_view view_id owner_id offset sz s =
     (let alias = strip view_id in
      if alias = [] then (Inl (Residency_Validation ''view_id must not be empty''), s)
      else if map_of (rm_allocations s) alias \<noteq> None \<or> map_of (rm_views s) alias \<noteq> None
      then (Inl (Residency_Validation ''allocation/view id already registered''), s)
      else case get_owner owner_id s of
        Inl e \<Rightarrow> (Inl e, s)
      | Inr o1 \<Rightarrow>
          if offset < 0 then (Inl (Residency_Validation ''offset_bytes must be an integer >= 0''), s)
          else if case sz of None \<Rightarrow> False | Some n \<Rightarrow> n < 1
          then (Inl (Residency_Validation ''size_bytes must be an integer >= 1''), s)
          else let view_size = (case sz of None \<Rightarrow> ow_size o1 - offset | Some n \<Rightarrow> n) in
          if ow_size o1 \<le> offset \<or> ow_size o1 < offset + view_size
          then (Inl (Residency_Validation ''allocation view exceeds owner bounds''), s)
          else let v = \<lparr>vw_id = alias, vw_owner = ow_id o1, vw_offset = offset, vw_size = view_size,
              vw_granule = ow_granule o1\<rparr>
            in (Inr v, s\<lparr>rm_views := AList.update alias v (rm_views s)\<rparr>))"

definition release_view :: "string \<Rightarrow> manager \<Rightarrow> alloc_view residency_op" where
  "release_view view_id s =
     (if \<exists>(k, l) \<in> set (rm_leases s). le_target l = view_id
      then (Inl (Residency_Validation ''release active allocation-view leases first''), s)
      else case map_of (rm_views s) view_id of
        None \<Rightarrow> (Inl (Allocation_Not_Found ''unknown allocation view''), s)
      | Some v \<Rightarrow> (Inr v, s\<lparr>rm_views := AList.delete view_id (rm_views s)\<rparr>))"

definition release_owner :: "string \<Rightarrow> bool \<Rightarrow> manager \<Rightarrow> owner residency_op" where
  "release_owner allocation_id force_pinned s0 =
     (case get_owner allocation_id s0 of
        Inl e \<Rightarrow> (Inl e, s0)
      | Inr o1 \<Rightarrow>
          if \<exists>(k, l) \<in> set (rm_leases s0). le_owner l = ow_id o1
          then (Inl (Residency_Validation ''release allocation leases first''), s0)
          else if \<exists>(k, v) \<in> set (rm_views s0). vw_owner v = ow_id o1
          then (Inl (Residency_Validation ''release allocation views first''), s0)
          else if ow_pinned o1 \<and> \<not> force_pinned
          then (Inl (Residency_Validation ''pinned allocation requires force_pinned=True to release''), s0)
          else sbind (if ow_resident_bytes o1 \<noteq> 0 then adjust_pool (- ow_resident_bytes o1) s0 else (Inr (), s0))
            (\<lambda>_ s1. let
              s2 = s1\<lparr>rm_allocations := AList.delete (ow_id o1) (rm_allocations s1),
                rm_anchors := AList.delete (ow_id o1) (rm_anchors s1)\<rparr>;
              o2 = (sync_derived (o1\<lparr>ow_resident := [], ow_dirty_ranges := [], ow_recency := []\<rparr>))
                \<lparr>ow_lifecycle := Released\<rparr>
             in sbind (validate_boundary s2) (\<lambda>_ s3. (Inr o2, s3))))"

section \<open>Leases\<close>

text \<open>\<open>_resolve_access\<close>: the owner, the byte range on it and the granules that range touches.\<close>

record resolved =
  rs_owner :: owner
  rs_offset :: int
  rs_size :: int
  rs_start :: int
  rs_end :: int

definition access_target :: "string \<Rightarrow> manager \<Rightarrow> residency_error + owner \<times> int \<times> int" where
  "access_target target s = (case map_of (rm_allocations s) target of
     Some o1 \<Rightarrow> Inr (o1, 0, ow_size o1)
   | None \<Rightarrow> (case map_of (rm_views s) target of
       Some v \<Rightarrow> rbind (get_owner (vw_owner v) s) (\<lambda>o1. Inr (o1, vw_offset v, vw_size v))
     | None \<Rightarrow> Inl (Allocation_Not_Found ''unknown allocation/view'')))"

definition resolve_access :: "memory_access \<Rightarrow> manager \<Rightarrow> residency_error + resolved" where
  "resolve_access a s = rbind (access_target (ma_target a) s) (\<lambda>(o1, view_offset, view_size).
     let offset = ma_offset a;
       requested = (case ma_size a of None \<Rightarrow> view_size - offset | Some n \<Rightarrow> n);
       owner_offset = view_offset + offset
     in if offset < 0 then Inl (Residency_Validation ''offset_bytes must be an integer >= 0'')
     else if view_size < offset then Inl (Residency_Validation ''memory access offset exceeds target bounds'')
     else if requested < 0 then Inl (Residency_Validation ''size_bytes must be an integer >= 0'')
     else if view_size < offset + requested
     then Inl (Residency_Validation ''memory access exceeds target bounds'')
     else if ow_committed o1 < owner_offset + requested
     then Inl (Residency_Validation ''memory access exceeds committed bytes'')
     else if requested = 0
     then Inr \<lparr>rs_owner = o1, rs_offset = owner_offset, rs_size = requested, rs_start = owner_offset,
       rs_end = owner_offset\<rparr>
     else let granule = ow_granule o1 in
       Inr \<lparr>rs_owner = o1, rs_offset = owner_offset, rs_size = requested,
         rs_start = owner_offset div granule * granule,
         rs_end = min (ow_committed o1) (ceil_div (owner_offset + requested) granule * granule)\<rparr>)"

definition required_ranges :: "resolved \<Rightarrow> byte_range list" where
  "required_ranges r = (if rs_start r = rs_end r then [] else [(rs_start r, rs_end r)])"

definition acquire_lease :: "string \<Rightarrow> string \<Rightarrow> string \<Rightarrow> int \<Rightarrow> int option \<Rightarrow> manager \<Rightarrow> lease residency_op" where
  "acquire_lease lease_id target consumer offset sz s =
     (let id1 = strip lease_id; task = strip consumer in
      if id1 = [] then (Inl (Residency_Validation ''lease_id must not be empty''), s)
      else if task = [] then (Inl (Residency_Validation ''consumer_task_id must not be empty''), s)
      else if map_of (rm_leases s) id1 \<noteq> None
      then (Inl (Residency_Validation ''residency lease already exists''), s)
      else case resolve_access \<lparr>ma_target = target, ma_operation = Touch_Access, ma_offset = offset,
          ma_size = sz\<rparr> s of
        Inl e \<Rightarrow> (Inl e, s)
      | Inr r \<Rightarrow> let ranges = required_ranges r in
          if intersect_ranges ranges (ow_resident (rs_owner r)) \<noteq> ranges
          then (Inl (Residency_Validation ''cannot lease non-resident bytes''), s)
          else let l = \<lparr>le_id = id1, le_consumer = task, le_target = target,
              le_owner = ow_id (rs_owner r), le_offset = rs_offset r, le_size = rs_size r,
              le_ranges = ranges\<rparr>
            in sbind (validate_boundary (s\<lparr>rm_leases := AList.update id1 l (rm_leases s)\<rparr>))
              (\<lambda>_ s'. (Inr l, s')))"

definition release_lease :: "string \<Rightarrow> manager \<Rightarrow> lease residency_op" where
  "release_lease lease_id s0 = (case map_of (rm_leases s0) lease_id of
     None \<Rightarrow> (Inl (Residency_Validation ''unknown residency lease''), s0)
   | Some l \<Rightarrow> let
       s1 = s0\<lparr>rm_leases := AList.delete lease_id (rm_leases s0)\<rparr>;
       anchors = foldl (\<lambda>a (start, end). retain_consumer_range a start end (le_consumer l))
         (anchors_of (le_owner l) s1) (le_ranges l);
       s2 = s1\<lparr>rm_anchors := AList.update (le_owner l) anchors (rm_anchors s1)\<rparr>
     in sbind (validate_boundary s2) (\<lambda>_ s3. (Inr l, s3)))"

definition retire_completed :: "string list \<Rightarrow> manager \<Rightarrow> unit residency_op" where
  "retire_completed tasks s =
     (if \<exists>t \<in> set tasks. t = []
      then (Inl (Residency_Validation ''completed consumers require nonempty task ids''), s)
      else if \<exists>(k, l) \<in> set (rm_leases s). le_consumer l \<in> set tasks
      then (Inl (Residency_Validation ''cannot retire a consumer with active residency leases''), s)
      else (Inr (), s\<lparr>rm_anchors := concat (map (\<lambda>(k, anchors).
        let retained = filter (\<lambda>(start, end, task). task \<notin> set tasks) anchors
        in if retained \<noteq> [] then [(k, retained)] else []) (rm_anchors s))\<rparr>))"

fun release_leases :: "string list \<Rightarrow> manager \<Rightarrow> lease list residency_op" where
  "release_leases [] s = (Inr [], s)"
| "release_leases (k # ks) s = sbind (release_lease k s) (\<lambda>l s.
     sbind (release_leases ks s) (\<lambda>ls s. (Inr (l # ls), s)))"

definition release_consumer_leases :: "string \<Rightarrow> manager \<Rightarrow> lease list residency_op" where
  "release_consumer_leases task s =
     release_leases (map fst (filter (\<lambda>(k, l). le_consumer l = task) (rm_leases s))) s"

section \<open>Commitment and access\<close>

definition commit_owner :: "string \<Rightarrow> int \<Rightarrow> manager \<Rightarrow> owner residency_op" where
  "commit_owner allocation_id committed s =
     (case get_owner allocation_id s of
        Inl e \<Rightarrow> (Inl e, s)
      | Inr o1 \<Rightarrow>
          if committed < 0 then (Inl (Residency_Validation ''committed_bytes must be an integer >= 0''), s)
          else if committed < ow_committed o1
          then (Inl (Residency_Validation ''commit cannot shrink; explicitly evict and release instead''), s)
          else if ow_size o1 < committed
          then (Inl (Residency_Validation ''committed_bytes exceeds size_bytes''), s)
          else case each_check (\<lambda>ranges. ensure_backing_unit_ranges ranges committed (ow_granule o1))
              [ow_resident o1, ow_dirty_ranges o1, map extent_of (ow_recency o1)] of
            Inl e \<Rightarrow> (Inl (Residency_Validation ''commit would split an existing residency backing granule''), s)
          | Inr _ \<Rightarrow> let o2 = o1\<lparr>ow_committed := committed\<rparr> in
              sbind (validate_boundary (put_owner o2 s)) (\<lambda>_ s'. (Inr o2, s')))"

definition write_refault_ranges :: "resolved \<Rightarrow> byte_range list \<Rightarrow> byte_range list" where
  "write_refault_ranges r missing =
     (if rs_size r = 0 \<or> missing = [] then []
      else let
        o1 = rs_owner r;
        write_end = rs_offset r + rs_size r;
        granule = ow_granule o1;
        last_start = (write_end - 1) div granule * granule
      in intersect_ranges missing
        ((if rs_start r < rs_offset r
          then [(rs_start r, min (ow_committed o1) (rs_start r + granule))] else []) @
         (if write_end < rs_end r
          then [(last_start, min (ow_committed o1) (last_start + granule))] else [])))"

definition fault_in :: "owner \<Rightarrow> byte_range list \<Rightarrow> byte_range list \<Rightarrow> byte_range list \<Rightarrow> manager \<Rightarrow> unit residency_op" where
  "fault_in o1 required missing page_in s0 =
     (if range_bytes missing = 0 then (Inr (), s0)
      else sbind (make_room (range_bytes missing) (Some (ow_id o1)) required s0) (\<lambda>_ s1.
        let o2 = the (map_of (rm_allocations s1) (ow_id o1));
          o3 = sync_derived (o2\<lparr>ow_resident := merge_ranges (ow_resident o2 @ missing)\<rparr>)
        in sbind (adjust_pool (range_bytes missing) (put_owner o3 s1)) (\<lambda>_ s2.
          if range_bytes page_in \<noteq> 0
          then sbind (record_migration o3 Page_In (range_bytes page_in) (ow_backing o3)
            (Some (pl_component (rm_pool s2))) [] s2) (\<lambda>_ s. (Inr (), s))
          else (Inr (), s2))))"

definition mark_dirty :: "access_operation \<Rightarrow> byte_range list \<Rightarrow> owner \<Rightarrow> owner" where
  "mark_dirty operation required o1 = (if operation = Write_Access \<and> required \<noteq> []
     then sync_derived (o1\<lparr>ow_dirty_ranges := merge_ranges (ow_dirty_ranges o1 @ required)\<rparr>) else o1)"

definition page_in_needed :: "access_operation \<Rightarrow> resolved \<Rightarrow> byte_range list \<Rightarrow> byte_range list" where
  "page_in_needed operation r missing =
     (if operation = Write_Access then write_refault_ranges r missing else missing)"

definition residency_access :: "memory_access \<Rightarrow> manager \<Rightarrow> residency_result residency_op" where
  "residency_access a s00 = sbind (validate_boundary s00) (\<lambda>_ s0.
     case resolve_access a s0 of
       Inl e \<Rightarrow> (Inl e, s0)
     | Inr r \<Rightarrow> let
         o1 = rs_owner r;
         required = required_ranges r;
         missing = subtract_ranges required (ow_resident o1);
         page_in = page_in_needed (ma_operation a) r missing
       in if ma_operation a = Write_Access \<and> ow_read_only o1
       then (Inl (Residency_Validation ''cannot write read-only allocation''), s0)
       else if range_bytes page_in \<noteq> 0 \<and> ow_backing o1 = None
       then (Inl (Residency_Validation ''cannot refault unbacked allocation''), s0)
       else sbind (fault_in o1 required missing page_in s0) (\<lambda>_ s1.
         let s2 = put_owner (mark_dirty (ma_operation a) required (the (map_of (rm_allocations s1) (ow_id o1)))) s1;
           s3 = bump_access s2;
           sequence = rm_access_seq s3;
           o4 = (the (map_of (rm_allocations s3) (ow_id o1)))\<lparr>ow_last_access := sequence\<rparr>
         in case refresh_recency o4 required sequence of
           Inl e \<Rightarrow> (Inl e, put_owner o4 s3)
         | Inr o5 \<Rightarrow> let
             s4 = put_owner o5 s3;
             migrations = drop (length (rm_migrations s0)) (rm_migrations s4)
           in sbind (validate_boundary s4) (\<lambda>_ s5.
             (Inr \<lparr>rr_sequence = sequence, rr_target = ma_target a, rr_owner = ow_id o1,
               rr_operation = ma_operation a, rr_offset = rs_offset r, rr_size = rs_size r,
               rr_page_in = sum_list (map mg_page_in migrations), rr_migrations = migrations,
               rr_physical = range_bytes required, rr_ranges = required\<rparr>, s5))))"

fun residency_access_many :: "memory_access list \<Rightarrow> manager \<Rightarrow> residency_result list residency_op" where
  "residency_access_many [] s = (Inr [], s)"
| "residency_access_many (a # as) s = sbind (residency_access a s) (\<lambda>r s.
     sbind (residency_access_many as s) (\<lambda>rs s. (Inr (r # rs), s)))"

definition touch_target :: "string \<Rightarrow> int \<Rightarrow> int option \<Rightarrow> manager \<Rightarrow> residency_result residency_op" where
  "touch_target target offset sz = residency_access
     \<lparr>ma_target = target, ma_operation = Touch_Access, ma_offset = offset, ma_size = sz\<rparr>"

definition read_target :: "string \<Rightarrow> int \<Rightarrow> int option \<Rightarrow> manager \<Rightarrow> residency_result residency_op" where
  "read_target target offset sz = residency_access
     \<lparr>ma_target = target, ma_operation = Read_Access, ma_offset = offset, ma_size = sz\<rparr>"

definition write_target :: "string \<Rightarrow> int \<Rightarrow> int option \<Rightarrow> manager \<Rightarrow> residency_result residency_op" where
  "write_target target offset sz = residency_access
     \<lparr>ma_target = target, ma_operation = Write_Access, ma_offset = offset, ma_size = sz\<rparr>"

definition evict :: "string \<Rightarrow> int option \<Rightarrow> manager \<Rightarrow> migration list residency_op" where
  "evict allocation_id byte_count s00 = sbind (validate_boundary s00) (\<lambda>_ s0.
     case get_owner allocation_id s0 of
       Inl e \<Rightarrow> (Inl e, s0)
     | Inr o1 \<Rightarrow>
         if ow_pinned o1 \<or> \<not> ow_evictable o1
         then (Inl (Residency_Validation ''allocation is not evictable''), s0)
         else let amount = (case byte_count of None \<Rightarrow> ow_resident_bytes o1 | Some n \<Rightarrow> n) in
         if amount < 0 then (Inl (Residency_Validation ''byte_count must be an integer >= 0''), s0)
         else if ow_resident_bytes o1 < amount
         then (Inl (Residency_Validation ''eviction byte_count exceeds resident bytes''), s0)
         else if amount = 0 then (Inr [], s0)
         else sbind (evict_owner_bytes o1 amount [] s0) (\<lambda>_ s1.
           sbind (validate_boundary s1) (\<lambda>_ s2.
             (Inr (drop (length (rm_migrations s0)) (rm_migrations s2)), s2))))"

end
