(* ===== verification/Residency_Inv.thy ===== *)
theory Residency_Inv
  imports Residency "HOL-Library.Multiset"
begin

text \<open>
  The invariant of the residency manager and what each step does to it: the recency splice, the
  self-check, eviction and its plan, faulting in. Everything is stated over byte sets, so an
  owner is read as its resident set, its dirty set and the relation of bytes to access sequence
  numbers.
\<close>

section \<open>The recency splice\<close>

definition recency_rel :: "bool \<Rightarrow> recency_range list \<Rightarrow> bool" where
  "recency_rel t rr \<longleftrightarrow> sorted_wrt (\<lambda>(s, e, q) (s', e', q'). e \<le> s' \<and> (t \<and> e = s' \<longrightarrow> q \<noteq> q')) rr \<and>
     (\<forall>(s, e, q) \<in> set rr. s < e)"

lemma recency_rel_cases: "recency_rel True rr = recency_ok rr" "recency_rel False rr = disjoint_recency rr"
  by (simp_all add: recency_rel_def recency_ok_def disjoint_recency_def)

lemma recency_rel_Nil [simp]: "recency_rel t []"
  by (simp add: recency_rel_def)

lemma recency_rel_Cons: "recency_rel t ((s, e, q) # rr) \<longleftrightarrow>
    s < e \<and> (\<forall>(s', e', q') \<in> set rr. e \<le> s' \<and> (t \<and> e = s' \<longrightarrow> q \<noteq> q')) \<and> recency_rel t rr"
  by (auto simp: recency_rel_def)

text \<open>The splice keeps what lies below the extent, the extent, and what lies above it.\<close>

definition below :: "int \<Rightarrow> recency_range \<Rightarrow> recency_range list" where
  "below a r = (case r of (s, e, k) \<Rightarrow> if s < a then [(s, min e a, k)] else [])"

definition above :: "int \<Rightarrow> recency_range \<Rightarrow> recency_range list" where
  "above b r = (case r of (s, e, k) \<Rightarrow> if b < e then [(max s b, e, k)] else [])"

lemma splice_inserted:
  "disjoint_recency rr \<Longrightarrow> \<forall>(s, e, k) \<in> set rr. a \<le> s \<Longrightarrow> a < b \<Longrightarrow>
    splice_recency a b q True rr = concat (map (above b) rr)"
proof (induction rr)
  case (Cons r rr)
  obtain s e k where r: "r = (s, e, k)" by (cases r)
  then show ?case using Cons by (auto simp: disjoint_recency_Cons above_def)
qed simp

lemma below_none: "\<forall>(s, e, k) \<in> set rr. a \<le> s \<Longrightarrow> concat (map (below a) rr) = []"
  by (auto simp: below_def)

lemma splice_split:
  "disjoint_recency rr \<Longrightarrow> a < b \<Longrightarrow>
    splice_recency a b q False rr = concat (map (below a) rr) @ [(a, b, q)] @ concat (map (above b) rr)"
proof (induction rr)
  case (Cons r rr)
  obtain s e k where r: "r = (s, e, k)" by (cases r)
  have c: "s < e" "\<forall>(s', e', k') \<in> set rr. e \<le> s'" "disjoint_recency rr"
    using Cons.prems(1) r by (simp_all add: disjoint_recency_Cons)
  show ?case
  proof (cases "e \<le> a")
    case True
    then show ?thesis using Cons.IH [OF c(3) Cons.prems(2)] c(1) Cons.prems(2) r
      by (simp add: below_def above_def)
  next
    case False
    then have "\<forall>(s', e', k') \<in> set rr. a \<le> s'" using c(2) by fastforce
    then have t: "splice_recency a b q True rr = concat (map (above b) rr)" "concat (map (below a) rr) = []"
      using splice_inserted [OF c(3) _ Cons.prems(2)] below_none by blast+
    show ?thesis using False c(1) Cons.prems(2)
      by (simp add: r t below_def [of a "(s, e, k)"] above_def [of b "(s, e, k)"])
  qed
qed simp

lemma stamped_below: "stamped (concat (map (below a) rr)) = {(x, k) \<in> stamped rr. x < a}"
proof (induction rr)
  case (Cons r rr)
  then show ?case by (cases r) (auto simp: stamped_simps below_def)
qed (simp add: stamped_simps)

lemma stamped_above: "stamped (concat (map (above b) rr)) = {(x, k) \<in> stamped rr. b \<le> x}"
proof (induction rr)
  case (Cons r rr)
  then show ?case by (cases r) (auto simp: stamped_simps above_def)
qed (simp add: stamped_simps)

lemma in_below: "(x, y, k) \<in> set (concat (map (below a) rr)) \<longleftrightarrow>
    (\<exists>e. (x, e, k) \<in> set rr \<and> x < a \<and> y = min e a)"
  by (force simp: below_def split: if_splits)

lemma in_above: "(x, y, k) \<in> set (concat (map (above b) rr)) \<longleftrightarrow>
    (\<exists>s. (s, y, k) \<in> set rr \<and> b < y \<and> x = max s b)"
  by (force simp: above_def split: if_splits)

lemma recency_rel_below: "recency_rel t rr \<Longrightarrow> recency_rel t (concat (map (below a) rr))"
proof (induction rr)
  case (Cons r rr)
  obtain s e k where r: "r = (s, e, k)" by (cases r)
  have c: "s < e" "\<forall>(s', e', k') \<in> set rr. e \<le> s' \<and> (t \<and> e = s' \<longrightarrow> k \<noteq> k')" "recency_rel t rr"
    using Cons.prems r by (simp_all add: recency_rel_Cons)
  have "min e a \<le> x \<and> (t \<and> min e a = x \<longrightarrow> k \<noteq> k')" if "(x, y, k') \<in> set (concat (map (below a) rr))" for x y k'
    using that c(2) unfolding in_below by fastforce
  then show ?case using Cons.IH [OF c(3)] c(1)
    by (auto simp: r below_def [of a "(s, e, k)"] recency_rel_Cons)
qed simp

lemma recency_rel_above: "recency_rel t rr \<Longrightarrow> recency_rel t (concat (map (above b) rr))"
proof (induction rr)
  case (Cons r rr)
  obtain s e k where r: "r = (s, e, k)" by (cases r)
  have c: "s < e" "\<forall>(s', e', k') \<in> set rr. e \<le> s' \<and> (t \<and> e = s' \<longrightarrow> k \<noteq> k')" "recency_rel t rr"
    using Cons.prems r by (simp_all add: recency_rel_Cons)
  have "e \<le> x \<and> (t \<and> e = x \<longrightarrow> k \<noteq> k')" if "(x, y, k') \<in> set (concat (map (above b) rr))" "b < e" for x y k'
    using that c(2) unfolding in_above by fastforce
  then show ?case using Cons.IH [OF c(3)] c(1)
    by (auto simp: r above_def [of b "(s, e, k)"] recency_rel_Cons)
qed simp

lemma recency_rel_append: "recency_rel t (rr @ rr') \<longleftrightarrow> recency_rel t rr \<and> recency_rel t rr' \<and>
    (\<forall>(s, e, q) \<in> set rr. \<forall>(s', e', q') \<in> set rr'. e \<le> s' \<and> (t \<and> e = s' \<longrightarrow> q \<noteq> q'))"
  by (fastforce simp: recency_rel_def sorted_wrt_append)

lemma splice_correct:
  assumes "disjoint_recency rr" "a < b"
  shows "stamped (splice_recency a b q False rr) = {(x, k) \<in> stamped rr. x \<notin> {a..<b}} \<union> {a..<b} \<times> {q}"
    and "recency_rel t rr \<Longrightarrow> t \<longrightarrow> (\<forall>(s, e, k) \<in> set rr. k \<noteq> q) \<Longrightarrow>
      recency_rel t (splice_recency a b q False rr)"
proof -
  show "stamped (splice_recency a b q False rr) = {(x, k) \<in> stamped rr. x \<notin> {a..<b}} \<union> {a..<b} \<times> {q}"
    using assms(2) by (auto simp: splice_split [OF assms] covered_simps stamped_below stamped_above)
  assume rel: "recency_rel t rr" and new: "t \<longrightarrow> (\<forall>(s, e, k) \<in> set rr. k \<noteq> q)"
  have lo: "y \<le> a \<and> (t \<longrightarrow> k \<noteq> q)" if "(x, y, k) \<in> set (concat (map (below a) rr))" for x y k
    using that new unfolding in_below by fastforce
  have hi: "b \<le> x \<and> (t \<longrightarrow> k \<noteq> q)" if "(x, y, k) \<in> set (concat (map (above b) rr))" for x y k
    using that new unfolding in_above by fastforce
  have "recency_rel t ([(a, b, q)] @ concat (map (above b) rr))"
    using hi assms(2) recency_rel_above [OF rel, of b] by (fastforce simp: recency_rel_Cons)
  moreover have "\<forall>(s, e, k) \<in> set (concat (map (below a) rr)).
      \<forall>(s', e', k') \<in> set ([(a, b, q)] @ concat (map (above b) rr)). e \<le> s' \<and> (t \<and> e = s' \<longrightarrow> k \<noteq> k')"
    using lo hi assms(2) by fastforce
  ultimately show "recency_rel t (splice_recency a b q False rr)"
    unfolding splice_split [OF assms] recency_rel_append using recency_rel_below [OF rel] by blast
qed

lemma refresh_single_correct:
  assumes "recency_ok rr" "a < b"
  obtains m where "refresh_single rr a b q = Inr m" "recency_ok m"
    "stamped m = {(x, k) \<in> stamped rr. x \<notin> {a..<b}} \<union> {a..<b} \<times> {q}"
proof -
  note dj = recency_ok_disjoint [OF assms(1)]
  let ?s = "splice_recency a b q False rr"
  note st = splice_correct [OF dj assms(2), where q = q]
  have dm: "disjoint_recency ?s" using st(2) [where t = False] dj by (simp add: recency_rel_cases)
  show ?thesis
  proof (cases "\<exists>(s, e, k) \<in> set rr. k = q")
    case True
    have "disjoint_recency (sort ?s)" using dm by (simp add: disjoint_recency_sort)
    from merge_recency_correct [OF this] show ?thesis using that True st(1)
      by (auto simp: refresh_single_def)
  next
    case False
    then have "recency_rel True ?s" using assms(1) by (intro st(2)) (auto simp: recency_rel_cases)
    then show ?thesis using that [of ?s] False st(1) by (auto simp: refresh_single_def recency_rel_cases)
  qed
qed

lemma stamp_ranges: "stamped (map (\<lambda>(s, e). (s, e, q)) rs) = covered rs \<times> {q}"
proof (induction rs)
  case (Cons r rs)
  then show ?case by (cases r) (auto simp: covered_simps)
qed (simp add: stamped_simps)

lemma stamp_ranges_disjoint: "canonical rs \<Longrightarrow> disjoint_recency (map (\<lambda>(s, e). (s, e, q)) rs)"
proof (induction rs)
  case (Cons a rs)
  obtain s e where a: "a = (s, e)" by (cases a)
  then have "s < e" "\<forall>(s', e') \<in> set rs. e < s'" "disjoint_recency (map (\<lambda>(s, e). (s, e, q)) rs)"
    using Cons by (simp_all add: canonical_Cons)
  then show ?case using a by (fastforce simp: disjoint_recency_Cons)
qed simp

lemma refresh_general_correct:
  assumes "recency_ok rr" "canonical rs"
  obtains m where "refresh_general rr rs q = Inr m" "recency_ok m"
    "stamped m = {(x, k) \<in> stamped rr. x \<notin> covered rs} \<union> covered rs \<times> {q}"
proof -
  obtain r where r: "subtract_recency_ranges rr rs = Inr r" "recency_ok r"
      "stamped r = {(x, k) \<in> stamped rr. x \<notin> covered rs}"
    using subtract_recency_correct [OF recency_ok_disjoint [OF assms(1)]] by blast
  let ?n = "map (\<lambda>(s, e). (s, e, q)) rs"
  have "disjoint_recency ?n" using assms(2) by (rule stamp_ranges_disjoint)
  moreover have "fst ` stamped r \<inter> fst ` stamped ?n = {}" unfolding r(3) stamp_ranges by auto
  ultimately have "disjoint_recency (sort (r @ ?n))"
    using disjoint_sort_append [OF recency_ok_disjoint [OF r(2)]] by blast
  from merge_recency_correct [OF this] obtain m where
    "merge_recency_ranges (r @ ?n) = Inr m" "recency_ok m" "stamped m = stamped (r @ ?n)" by blast
  then show ?thesis using that [of m] r(1,3) by (simp add: refresh_general_def covered_simps stamp_ranges)
qed

lemma refresh_single_general:
  assumes "recency_ok rr" "a < b"
  shows "refresh_single rr a b q = refresh_general rr [(a, b)] q"
proof -
  have "canonical [(a, b)]" using assms(2) by (simp add: canonical_Cons)
  then obtain m where m: "refresh_general rr [(a, b)] q = Inr m" "recency_ok m"
    "stamped m = {(x, k) \<in> stamped rr. x \<notin> covered [(a, b)]} \<union> covered [(a, b)] \<times> {q}"
    using refresh_general_correct [OF assms(1)] by blast
  obtain m' where "refresh_single rr a b q = Inr m'" "recency_ok m'"
    "stamped m' = {(x, k) \<in> stamped rr. x \<notin> {a..<b}} \<union> {a..<b} \<times> {q}"
    using refresh_single_correct [OF assms] by blast
  then show ?thesis using m recency_unique [of m m'] by (simp add: covered_simps)
qed

section \<open>The invariant\<close>

definition owner_inv :: "string \<Rightarrow> int \<Rightarrow> string \<Rightarrow> owner \<Rightarrow> bool" where
  "owner_inv component access_seq k o1 \<longleftrightarrow>
     ow_id o1 = k \<and> ow_component o1 = component \<and> 0 \<le> ow_committed o1 \<and> ow_committed o1 \<le> ow_size o1 \<and>
     0 < ow_granule o1 \<and>
     canonical (ow_resident o1) \<and> unit_closed (ow_committed o1) (ow_granule o1) (covered (ow_resident o1)) \<and>
     canonical (ow_dirty_ranges o1) \<and> unit_closed (ow_committed o1) (ow_granule o1) (covered (ow_dirty_ranges o1)) \<and>
     covered (ow_dirty_ranges o1) \<subseteq> covered (ow_resident o1) \<and>
     ow_resident_bytes o1 = range_bytes (ow_resident o1) \<and> ow_dirty o1 = (ow_dirty_ranges o1 \<noteq> []) \<and>
     recency_ok (ow_recency o1) \<and>
     (\<forall>q. unit_closed (ow_committed o1) (ow_granule o1) (stamped_at (ow_recency o1) q)) \<and>
     fst ` stamped (ow_recency o1) = covered (ow_resident o1) \<and>
     snd ` stamped (ow_recency o1) \<subseteq> {1..ow_last_access o1} \<and>
     0 < ow_last_access o1 \<and> ow_last_access o1 \<le> access_seq \<and>
     (ow_evictable o1 \<longrightarrow> \<not> ow_pinned o1 \<and> ow_backing o1 \<noteq> None)"

definition view_inv :: "(string, owner) dict \<Rightarrow> string \<Rightarrow> alloc_view \<Rightarrow> bool" where
  "view_inv owners k v \<longleftrightarrow> vw_id v = k \<and> 0 \<le> vw_offset v \<and>
     (\<exists>o1. map_of owners (vw_owner v) = Some o1 \<and> vw_offset v + vw_size v \<le> ow_size o1 \<and>
        vw_granule v = ow_granule o1)"

definition lease_inv :: "(string, owner) dict \<Rightarrow> string \<Rightarrow> lease \<Rightarrow> bool" where
  "lease_inv owners k l \<longleftrightarrow> le_id l = k \<and> canonical (le_ranges l) \<and>
     (\<exists>o1. map_of owners (le_owner l) = Some o1 \<and> covered (le_ranges l) \<subseteq> covered (ow_resident o1) \<and>
        unit_closed (ow_committed o1) (ow_granule o1) (covered (le_ranges l)))"

definition migration_inv :: "manager \<Rightarrow> bool" where
  "migration_inv s \<longleftrightarrow> rm_migration_seq s = int (length (rm_migrations s)) \<and>
     map mg_sequence (rm_migrations s) = [1..rm_migration_seq s] \<and>
     (\<forall>m \<in> set (rm_migrations s). 0 < mg_bytes m \<and> 0 < mg_granule m \<and>
        mg_count m = ceil_div (mg_bytes m) (mg_granule m)) \<and>
     mt_page_in (rm_totals s) = sum_list (map mg_page_in (rm_migrations s)) \<and>
     mt_page_out (rm_totals s) = sum_list (map mg_page_out (rm_migrations s)) \<and>
     mt_clean_discard (rm_totals s) = sum_list (map mg_clean_discard (rm_migrations s)) \<and>
     mt_dirty_writeback (rm_totals s) = sum_list (map mg_dirty_writeback (rm_migrations s))"

definition resident_sum :: "manager \<Rightarrow> int" where
  "resident_sum s = dict_sum (\<lambda>o1. range_bytes (ow_resident o1)) (rm_allocations s)"

text \<open>
  The invariant with the pool total off by \<open>d\<close> bytes: an operation changes an owner before
  it adjusts the pool.
\<close>

definition residency_off :: "int \<Rightarrow> manager \<Rightarrow> bool" where
  "residency_off d s \<longleftrightarrow>
     wf_dict (rm_allocations s) \<and> wf_dict (rm_views s) \<and> wf_dict (rm_leases s) \<and> wf_dict (rm_anchors s) \<and>
     (\<forall>k o1. map_of (rm_allocations s) k = Some o1 \<longrightarrow>
        owner_inv (pl_component (rm_pool s)) (rm_access_seq s) k o1) \<and>
     (\<forall>k v. map_of (rm_views s) k = Some v \<longrightarrow> view_inv (rm_allocations s) k v) \<and>
     (\<forall>k l. map_of (rm_leases s) k = Some l \<longrightarrow> lease_inv (rm_allocations s) k l) \<and>
     (\<forall>k. map_of (rm_allocations s) k \<noteq> None \<longrightarrow> map_of (rm_views s) k = None) \<and>
     dom (map_of (rm_anchors s)) \<subseteq> dom (map_of (rm_allocations s)) \<and>
     pl_resident (rm_pool s) = resident_sum s + d \<and> pl_resident (rm_pool s) \<le> pl_capacity (rm_pool s) \<and>
     pl_resident (rm_pool s) \<le> pl_peak (rm_pool s) \<and> pl_peak (rm_pool s) \<le> pl_capacity (rm_pool s) \<and>
     0 < pl_page_size (rm_pool s) \<and> 0 \<le> rm_access_seq s \<and> migration_inv s"

abbreviation residency_inv :: "manager \<Rightarrow> bool" where
  "residency_inv s \<equiv> residency_off 0 s"

lemma residency_offD:
  assumes "residency_off d s"
  shows "wf_dict (rm_allocations s)" "wf_dict (rm_views s)" "wf_dict (rm_leases s)" "wf_dict (rm_anchors s)"
    "map_of (rm_allocations s) k = Some o1 \<Longrightarrow> owner_inv (pl_component (rm_pool s)) (rm_access_seq s) k o1"
    "map_of (rm_views s) k = Some v \<Longrightarrow> view_inv (rm_allocations s) k v"
    "map_of (rm_leases s) k = Some l \<Longrightarrow> lease_inv (rm_allocations s) k l"
    "map_of (rm_allocations s) k = Some o1 \<Longrightarrow> map_of (rm_views s) k = None"
    "pl_resident (rm_pool s) = resident_sum s + d" "pl_resident (rm_pool s) \<le> pl_capacity (rm_pool s)"
    "migration_inv s"
  using assms unfolding residency_off_def by blast+

lemma range_bytes_nonneg [simp]: "canonical rs \<Longrightarrow> 0 \<le> range_bytes rs"
  by (simp add: range_bytes_card)

lemma range_bytes_zero: "canonical rs \<Longrightarrow> range_bytes rs = 0 \<longleftrightarrow> rs = []"
  using canonical_empty [of rs] by (auto simp: range_bytes_card)

lemma range_bytes_mono:
  "canonical rs \<Longrightarrow> canonical rs' \<Longrightarrow> covered rs \<subseteq> covered rs' \<Longrightarrow> range_bytes rs \<le> range_bytes rs'"
  by (simp add: range_bytes_card card_mono)

lemma resident_sum_nonneg: "residency_off d s \<Longrightarrow> 0 \<le> resident_sum s"
  unfolding resident_sum_def
proof (rule dict_sum_nonneg)
  fix k o1 assume "residency_off d s" "(k, o1) \<in> set (rm_allocations s)"
  then have "owner_inv (pl_component (rm_pool s)) (rm_access_seq s) k o1"
    using residency_offD(1,5) wf_dict_in_iff by metis
  then show "0 \<le> range_bytes (ow_resident o1)" by (simp add: owner_inv_def)
qed

text \<open>A canonical owner is a fixed point of the normalisation.\<close>

lemma sync_owner_inv: "owner_inv c n k o1 \<Longrightarrow> sync_derived o1 = o1"
proof -
  assume inv: "owner_inv c n k o1"
  have d: "canonical (ow_dirty_ranges o1)" "covered (ow_dirty_ranges o1) \<subseteq> covered (ow_resident o1)"
    "canonical (ow_resident o1)" "ow_resident_bytes o1 = range_bytes (ow_resident o1)"
    "ow_dirty o1 = (ow_dirty_ranges o1 \<noteq> [])"
    using inv by (simp_all add: owner_inv_def)
  have "intersect_ranges (ow_dirty_ranges o1) (ow_resident o1) = ow_dirty_ranges o1"
    by (rule canonical_unique) (use d in \<open>auto simp: covered_simps\<close>)
  then show ?thesis using d by (simp add: sync_derived_def Let_def)
qed

lemma intersect_subset: "canonical rs \<Longrightarrow> intersect_ranges rs rs' = rs \<longleftrightarrow> covered rs \<subseteq> covered rs'"
  by (metis canonical_intersect canonical_unique covered_intersect inf.absorb_iff1)

lemma covered_recency: "owner_inv c n k o1 \<Longrightarrow> merge_ranges (map extent_of (ow_recency o1)) = ow_resident o1"
  by (rule canonical_unique) (simp_all add: owner_inv_def covered_extents)

lemma owner_inv_checks:
  assumes inv: "owner_inv c n k o1"
  shows "owner_checks c n k o1 = Inr ()"
proof -
  have b: "ensure_backing_unit_ranges (ow_resident o1) (ow_committed o1) (ow_granule o1) = Inr ()"
    "ensure_backing_unit_ranges (ow_dirty_ranges o1) (ow_committed o1) (ow_granule o1) = Inr ()"
    by (rule closed_ensure; use inv in \<open>simp add: owner_inv_def\<close>)+
  have al: "unit_aligned (ow_committed o1) (ow_granule o1) (map extent_of (ow_recency o1))"
    by (rule closed_recency_aligned) (use inv in \<open>simp_all add: owner_inv_def\<close>)
  have rb: "ow_resident_bytes o1 = int (card (covered (ow_resident o1)))"
    "ow_dirty_bytes o1 = int (card (covered (ow_dirty_ranges o1)))"
    using inv by (simp_all add: owner_inv_def ow_dirty_bytes_def range_bytes_card)
  have "covered (ow_resident o1) \<subseteq> {0..<ow_committed o1}" using inv by (simp add: owner_inv_def unit_closed_def)
  then have "card (covered (ow_resident o1)) \<le> card {0..<ow_committed o1}" by (intro card_mono) auto
  moreover have "0 \<le> ow_committed o1" using inv by (simp add: owner_inv_def)
  ultimately have le: "ow_resident_bytes o1 \<le> ow_committed o1" unfolding rb by (simp add: le_nat_iff)
  have "ow_dirty_bytes o1 \<le> ow_resident_bytes o1"
    unfolding rb using inv by (simp add: owner_inv_def card_mono)
  moreover have "\<forall>(s, e, q) \<in> set (ow_recency o1). 0 \<le> s \<and> e \<le> ow_committed o1 \<and> 0 < q \<and> q \<le> ow_last_access o1"
  proof (intro ballI, clarify)
    fix s e q assume m: "(s, e, q) \<in> set (ow_recency o1)"
    have "recency_ok (ow_recency o1)" using inv by (simp add: owner_inv_def)
    then have "s < e" using disjoint_recencyD(1) recency_ok_disjoint m by blast
    then have "(s, q) \<in> stamped (ow_recency o1)" using m by (auto simp: in_stamped)
    then have "q \<in> snd ` stamped (ow_recency o1)" by force
    then have "q \<in> {1..ow_last_access o1}" using inv by (auto simp: owner_inv_def)
    moreover have "(s, e) \<in> set (map extent_of (ow_recency o1))" using m by force
    then have "0 \<le> s" "e \<le> ow_committed o1"
      using unit_alignedD [OF al] by (auto simp: is_backing_unit_boundary_def)
    ultimately show "0 \<le> s \<and> e \<le> ow_committed o1 \<and> 0 < q \<and> q \<le> ow_last_access o1" by simp
  qed
  ultimately show ?thesis
    using inv le b unit_aligned_ensure [OF al] merge_recency_ok [of "ow_recency o1"] covered_recency [OF inv]
    unfolding owner_checks_def by (simp add: owner_inv_def) blast
qed

lemma check_owners_ok:
  "\<forall>(k, o1) \<in> set owners. owner_inv c n k o1 \<Longrightarrow>
    check_owners c n acc owners = (Inr (acc + dict_sum (\<lambda>o1. range_bytes (ow_resident o1)) owners), owners)"
proof (induction owners arbitrary: acc)
  case (Cons p owners)
  obtain k o1 where p: "p = (k, o1)" by (cases p)
  then have inv: "owner_inv c n k o1" using Cons.prems by simp
  then have "ow_id o1 = k" "ow_component o1 = c" "ow_resident_bytes o1 = range_bytes (ow_resident o1)"
    by (simp_all add: owner_inv_def)
  then show ?case using Cons p sync_owner_inv [OF inv] owner_inv_checks [OF inv]
    by (simp add: Let_def algebra_simps)
qed simp

lemma each_check_ok: "(\<And>x. x \<in> set xs \<Longrightarrow> f x = Inr ()) \<Longrightarrow> each_check f xs = Inr ()"
  by (induction xs) auto

lemma assert_consistent_ok:
  assumes inv: "residency_inv s"
  shows "assert_consistent s = (Inr (), s)"
proof -
  note d = residency_offD [OF inv]
  have "\<forall>(k, o1) \<in> set (rm_allocations s). owner_inv (pl_component (rm_pool s)) (rm_access_seq s) k o1"
    using d(5) wf_dict_in_iff [OF d(1)] by auto
  note ck = check_owners_ok [OF this, of 0]
  have v: "view_checks (rm_allocations s) e = Inr ()" if "e \<in> set (rm_views s)" for e
  proof -
    obtain k v where e: "e = (k, v)" by (cases e)
    then have "view_inv (rm_allocations s) k v" using that d(6) wf_dict_in_iff [OF d(2)] by auto
    then show ?thesis using e by (auto simp: view_checks_def view_inv_def)
  qed
  have l: "lease_checks (rm_allocations s) e = Inr ()" if "e \<in> set (rm_leases s)" for e
  proof -
    obtain k l where e: "e = (k, l)" by (cases e)
    then have "lease_inv (rm_allocations s) k l" using that d(7) wf_dict_in_iff [OF d(3)] by auto
    then show ?thesis using e by (auto simp: lease_checks_def lease_inv_def intersect_subset)
  qed
  have "each_check (view_checks (rm_allocations s)) (rm_views s) = Inr ()"
    "each_check (lease_checks (rm_allocations s)) (rm_leases s) = Inr ()"
    using v l each_check_ok by blast+
  moreover have "s\<lparr>rm_allocations := rm_allocations s\<rparr> = s" by simp
  ultimately show ?thesis
    using ck d(9,10) resident_sum_nonneg [OF inv] by (simp add: assert_consistent_def resident_sum_def)
qed

lemma validate_ok: "residency_inv s \<Longrightarrow> validate_boundary s = (Inr (), s)"
  by (simp add: validate_boundary_def assert_consistent_ok)

section \<open>Writing owners back and recording migrations\<close>

lemma residency_off_cong:
  "residency_off d s \<Longrightarrow> d = d' \<Longrightarrow> residency_off d' s"
  by simp

lemma put_owner_new:
  assumes inv: "residency_off d s"
    and o1: "owner_inv (pl_component (rm_pool s)) (rm_access_seq s) k o1"
    and views: "map_of (rm_views s) k = None"
    and old: "\<And>o0. map_of (rm_allocations s) k = Some o0 \<Longrightarrow> ow_size o1 = ow_size o0 \<and> ow_granule o1 = ow_granule o0"
    and leases: "\<And>lk l. map_of (rm_leases s) lk = Some l \<Longrightarrow> le_owner l = k \<Longrightarrow>
      covered (le_ranges l) \<subseteq> covered (ow_resident o1) \<and>
      unit_closed (ow_committed o1) (ow_granule o1) (covered (le_ranges l))"
  shows "residency_off (d + dict_val (\<lambda>o1. range_bytes (ow_resident o1)) (rm_allocations s) k
    - range_bytes (ow_resident o1)) (put_owner o1 s)"
proof -
  note D = residency_offD [OF inv]
  have id: "ow_id o1 = k" using o1 by (simp add: owner_inv_def)
  let ?s = "put_owner o1 s"
  have al: "rm_allocations ?s = AList.update k o1 (rm_allocations s)" by (simp add: put_owner_def id)
  have rest: "rm_views ?s = rm_views s" "rm_leases ?s = rm_leases s" "rm_anchors ?s = rm_anchors s"
    "rm_pool ?s = rm_pool s" "rm_access_seq ?s = rm_access_seq s" "migration_inv ?s = migration_inv s"
    by (simp_all add: put_owner_def migration_inv_def)
  have v: "view_inv (rm_allocations ?s) kv v" if "map_of (rm_views s) kv = Some v" for kv v
    using D(6) [OF that] old unfolding view_inv_def al by (cases "vw_owner v = k") auto
  have l: "lease_inv (rm_allocations ?s) kl l" if "map_of (rm_leases s) kl = Some l" for kl l
    using D(7) [OF that] leases [OF that] unfolding lease_inv_def al by (cases "le_owner l = k") auto
  have w: "map_of (rm_views s) k' = None" if "map_of (rm_allocations ?s) k' \<noteq> None" for k'
    using D(8) views that unfolding al by (cases "k' = k") auto
  have sum: "resident_sum ?s = resident_sum s
      - dict_val (\<lambda>o1. range_bytes (ow_resident o1)) (rm_allocations s) k + range_bytes (ow_resident o1)"
    using dict_sum_update [OF D(1)] by (simp add: resident_sum_def al)
  show ?thesis
    unfolding residency_off_def
  proof (intro conjI)
    show "wf_dict (rm_allocations ?s)" unfolding al using D(1) by simp
    show "\<forall>k' o'. map_of (rm_allocations ?s) k' = Some o' \<longrightarrow>
        owner_inv (pl_component (rm_pool ?s)) (rm_access_seq ?s) k' o'"
      unfolding al rest using D(5) o1 by auto
    show "\<forall>kv v. map_of (rm_views ?s) kv = Some v \<longrightarrow> view_inv (rm_allocations ?s) kv v"
      unfolding rest using v by blast
    show "\<forall>kl l. map_of (rm_leases ?s) kl = Some l \<longrightarrow> lease_inv (rm_allocations ?s) kl l"
      unfolding rest using l by blast
    show "\<forall>k'. map_of (rm_allocations ?s) k' \<noteq> None \<longrightarrow> map_of (rm_views ?s) k' = None"
      unfolding rest using w by blast
    show "dom (map_of (rm_anchors ?s)) \<subseteq> dom (map_of (rm_allocations ?s))"
      using inv unfolding residency_off_def rest al by auto
  qed (use inv sum in \<open>auto simp: residency_off_def rest\<close>)
qed

lemma put_owner_off:
  assumes inv: "residency_off d s"
    and o0: "map_of (rm_allocations s) k = Some o0"
    and o1: "owner_inv (pl_component (rm_pool s)) (rm_access_seq s) k o1"
    and old: "ow_size o1 = ow_size o0" "ow_granule o1 = ow_granule o0"
    and leases: "\<And>lk l. map_of (rm_leases s) lk = Some l \<Longrightarrow> le_owner l = k \<Longrightarrow>
      covered (le_ranges l) \<subseteq> covered (ow_resident o1) \<and>
      unit_closed (ow_committed o1) (ow_granule o1) (covered (le_ranges l))"
  shows "residency_off (d + range_bytes (ow_resident o0) - range_bytes (ow_resident o1)) (put_owner o1 s)"
proof -
  have "residency_off (d + dict_val (\<lambda>o1. range_bytes (ow_resident o1)) (rm_allocations s) k
    - range_bytes (ow_resident o1)) (put_owner o1 s)"
    by (rule put_owner_new [OF inv o1]) (use residency_offD(8) [OF inv o0] old o0 leases in auto)
  then show ?thesis by (simp add: dict_val_def o0)
qed

lemma adjust_pool_ok:
  assumes inv: "residency_off d s" and fit: "0 \<le> pl_resident (rm_pool s) + delta"
    "pl_resident (rm_pool s) + delta \<le> pl_capacity (rm_pool s)"
  obtains p where "adjust_pool delta s = (Inr (), s\<lparr>rm_pool := p\<rparr>)"
    "residency_off (d + delta) (s\<lparr>rm_pool := p\<rparr>)"
    "p = (rm_pool s)\<lparr>pl_resident := pl_resident (rm_pool s) + delta,
       pl_peak := max (pl_peak (rm_pool s)) (pl_resident (rm_pool s) + delta)\<rparr>"
proof -
  let ?p = "(rm_pool s)\<lparr>pl_resident := pl_resident (rm_pool s) + delta,
       pl_peak := max (pl_peak (rm_pool s)) (pl_resident (rm_pool s) + delta)\<rparr>"
  have "residency_off (d + delta) (s\<lparr>rm_pool := ?p\<rparr>)"
    using inv fit unfolding residency_off_def resident_sum_def migration_inv_def by simp
  then show ?thesis using that [of ?p] fit by (simp add: adjust_pool_def Let_def)
qed

lemma residency_off_migrations:
  "migration_inv (s\<lparr>rm_migration_seq := n, rm_migrations := ms, rm_totals := t\<rparr>) \<Longrightarrow> residency_off d s \<Longrightarrow>
    residency_off d (s\<lparr>rm_migration_seq := n, rm_migrations := ms, rm_totals := t\<rparr>)"
  by (simp add: residency_off_def resident_sum_def)

lemma record_migration_ok:
  assumes inv: "residency_off d s" and n: "0 < n" and g: "0 < ow_granule o1"
  obtains m s' where "record_migration o1 kind n src dst consumers s = (Inr m, s')" "residency_off d s'"
    "mg_allocation m = ow_id o1" "mg_kind m = kind" "mg_bytes m = n"
    "mg_consumers m = first_keys (filter (\<lambda>c. c \<noteq> []) consumers)"
    "mg_source m = src" "mg_destination m = dst"
    "\<exists>t. s' = s\<lparr>rm_migration_seq := rm_migration_seq s + 1, rm_migrations := rm_migrations s @ [m], rm_totals := t\<rparr>"
proof -
  note mi = residency_offD(11) [OF inv]
  define m where "m = \<lparr>mg_sequence = rm_migration_seq s + 1, mg_allocation = ow_id o1, mg_kind = kind,
    mg_bytes = n, mg_source = src, mg_destination = dst, mg_granule = ow_granule o1,
    mg_count = ceil_div n (ow_granule o1), mg_consumers = first_keys (filter (\<lambda>c. c \<noteq> []) consumers)\<rparr>"
  have mk: "make_migration (rm_migration_seq s + 1) (ow_id o1) kind n src dst (ow_granule o1) 0 consumers = Inr m"
    using n g by (simp add: make_migration_def m_def)
  define t where "t = \<lparr>mt_page_in = mt_page_in (rm_totals s) + mg_page_in m,
    mt_page_out = mt_page_out (rm_totals s) + mg_page_out m,
    mt_clean_discard = mt_clean_discard (rm_totals s) + mg_clean_discard m,
    mt_dirty_writeback = mt_dirty_writeback (rm_totals s) + mg_dirty_writeback m\<rparr>"
  let ?s = "s\<lparr>rm_migration_seq := rm_migration_seq s + 1, rm_migrations := rm_migrations s @ [m], rm_totals := t\<rparr>"
  have "record_migration o1 kind n src dst consumers s = (Inr m, ?s)"
    using n mk by (simp add: record_migration_def Let_def t_def)
  moreover have "0 \<le> rm_migration_seq s" using mi by (simp add: migration_inv_def)
  then have "[1..rm_migration_seq s + 1] = [1..rm_migration_seq s] @ [rm_migration_seq s + 1]"
    using upto_rec2 [of 1 "rm_migration_seq s + 1"] by simp
  then have "migration_inv ?s"
    using mi n g by (simp add: migration_inv_def t_def m_def)
  then have "residency_off d ?s" using residency_off_migrations inv by blast
  moreover have "mg_allocation m = ow_id o1" "mg_kind m = kind" "mg_bytes m = n" "mg_source m = src"
    "mg_destination m = dst" "mg_consumers m = first_keys (filter (\<lambda>c. c \<noteq> []) consumers)"
    by (simp_all add: m_def)
  ultimately show ?thesis using that by blast
qed

section \<open>The effect of an eviction\<close>

text \<open>An owner that lost the bytes \<open>X\<close> and nothing else.\<close>

definition kept :: "owner \<Rightarrow> owner" where
  "kept o1 = o1\<lparr>ow_resident := [], ow_dirty_ranges := [], ow_recency := [], ow_resident_bytes := 0,
     ow_dirty := False\<rparr>"

definition shrunk :: "int set \<Rightarrow> owner \<Rightarrow> owner \<Rightarrow> bool" where
  "shrunk X o0 o1 \<longleftrightarrow> kept o1 = kept o0 \<and>
     covered (ow_resident o1) = covered (ow_resident o0) - X \<and>
     covered (ow_dirty_ranges o1) = covered (ow_dirty_ranges o0) - X \<and>
     stamped (ow_recency o1) = {(x, q) \<in> stamped (ow_recency o0). x \<notin> X}"

lemma kept_fields:
  "kept o1 = kept o0 \<Longrightarrow> ow_id o1 = ow_id o0 \<and> ow_size o1 = ow_size o0 \<and> ow_granule o1 = ow_granule o0 \<and> ow_committed o1 = ow_committed o0 \<and> ow_backing o1 = ow_backing o0 \<and> ow_pinned o1 = ow_pinned o0 \<and>
    ow_evictable o1 = ow_evictable o0 \<and> ow_component o1 = ow_component o0 \<and> ow_last_access o1 = ow_last_access o0 \<and> ow_order o1 = ow_order o0 \<and> ow_read_only o1 = ow_read_only o0"
  by (cases o1; cases o0) (simp add: kept_def)

lemma shrunk_fields:
  assumes "shrunk X o0 o1"
  shows "ow_id o1 = ow_id o0" "ow_size o1 = ow_size o0" "ow_granule o1 = ow_granule o0" "ow_committed o1 = ow_committed o0" "ow_backing o1 = ow_backing o0" "ow_pinned o1 = ow_pinned o0"
    "ow_evictable o1 = ow_evictable o0" "ow_component o1 = ow_component o0" "ow_last_access o1 = ow_last_access o0" "ow_order o1 = ow_order o0" "ow_read_only o1 = ow_read_only o0"
    "covered (ow_resident o1) = covered (ow_resident o0) - X"
    "covered (ow_dirty_ranges o1) = covered (ow_dirty_ranges o0) - X"
    "stamped (ow_recency o1) = {(x, q) \<in> stamped (ow_recency o0). x \<notin> X}"
  using assms kept_fields [of o1 o0] by (simp_all add: shrunk_def)

lemma shrunk_refl: "shrunk {} o0 o0"
  by (auto simp: shrunk_def)

lemma shrunk_trans: "shrunk X o0 o1 \<Longrightarrow> shrunk Y o1 o2 \<Longrightarrow> shrunk (X \<union> Y) o0 o2"
  by (auto simp: shrunk_def)

definition moved :: "(migration \<Rightarrow> int) \<Rightarrow> string \<Rightarrow> migration list \<Rightarrow> int" where
  "moved f k ms = sum_list (map f (filter (\<lambda>m. mg_allocation m = k) ms))"

lemma moved_simps [simp]:
  "moved f k [] = 0"
  "moved f k (m # ms) = (if mg_allocation m = k then f m else 0) + moved f k ms"
  "moved f k (ms @ ms') = moved f k ms + moved f k ms'"
  by (simp_all add: moved_def)

text \<open>
  \<open>evicts E ms s s'\<close>: from \<open>s\<close> to \<open>s'\<close> every owner \<open>k\<close> lost the bytes \<open>E k\<close>, the migrations
  \<open>ms\<close> were logged, and they account for every byte, the dirty ones as write-backs.
\<close>

definition same_registry :: "manager \<Rightarrow> manager \<Rightarrow> bool" where
  "same_registry s s' \<longleftrightarrow> rm_views s' = rm_views s \<and> rm_leases s' = rm_leases s \<and>
     rm_access_seq s' = rm_access_seq s \<and> rm_registration_seq s' = rm_registration_seq s \<and>
     rm_deferred s' = rm_deferred s \<and> map fst (rm_allocations s') = map fst (rm_allocations s)"

definition evicts :: "(string \<Rightarrow> int set) \<Rightarrow> migration list \<Rightarrow> manager \<Rightarrow> manager \<Rightarrow> bool" where
  "evicts E ms s s' \<longleftrightarrow> same_registry s s' \<and>
     (\<forall>k o0. map_of (rm_allocations s) k = Some o0 \<longrightarrow> E k \<subseteq> covered (ow_resident o0) \<and>
        (\<exists>o1. map_of (rm_allocations s') k = Some o1 \<and> shrunk (E k) o0 o1) \<and>
        moved mg_page_out k ms = int (card (E k)) \<and>
        moved mg_dirty_writeback k ms = int (card (E k \<inter> covered (ow_dirty_ranges o0)))) \<and>
     (\<forall>k. map_of (rm_allocations s) k = None \<longrightarrow> E k = {} \<and> moved mg_page_out k ms = 0) \<and>
     rm_pool s' = (rm_pool s)\<lparr>pl_resident := pl_resident (rm_pool s) - sum_list (map mg_page_out ms)\<rparr> \<and>
     rm_migrations s' = rm_migrations s @ ms \<and> (\<forall>m \<in> set ms. mg_kind m \<noteq> Page_In)"

lemma evicts_refl: "evicts (\<lambda>k. {}) [] s s"
  by (auto simp: evicts_def same_registry_def shrunk_refl)

lemma evicts_trans:
  assumes a: "evicts E ms s s'" and b: "evicts E' ms' s' s''"
  shows "evicts (\<lambda>k. E k \<union> E' k) (ms @ ms') s s''"
proof -
  have owner_case: "E k \<union> E' k \<subseteq> covered (ow_resident o0) \<and>
        (\<exists>o2. map_of (rm_allocations s'') k = Some o2 \<and> shrunk (E k \<union> E' k) o0 o2) \<and>
        moved mg_page_out k (ms @ ms') = int (card (E k \<union> E' k)) \<and>
        moved mg_dirty_writeback k (ms @ ms') = int (card ((E k \<union> E' k) \<inter> covered (ow_dirty_ranges o0)))"
    if o0: "map_of (rm_allocations s) k = Some o0" for k o0
  proof -
    obtain o1 where o1: "map_of (rm_allocations s') k = Some o1" "shrunk (E k) o0 o1"
        "E k \<subseteq> covered (ow_resident o0)" "moved mg_page_out k ms = int (card (E k))"
        "moved mg_dirty_writeback k ms = int (card (E k \<inter> covered (ow_dirty_ranges o0)))"
      using a o0 unfolding evicts_def by blast
    obtain o2 where o2: "map_of (rm_allocations s'') k = Some o2" "shrunk (E' k) o1 o2"
        "E' k \<subseteq> covered (ow_resident o1)" "moved mg_page_out k ms' = int (card (E' k))"
        "moved mg_dirty_writeback k ms' = int (card (E' k \<inter> covered (ow_dirty_ranges o1)))"
      using b o1(1) unfolding evicts_def by blast
    have sub: "E' k \<subseteq> covered (ow_resident o0) - E k" using o2(3) shrunk_fields(12) [OF o1(2)] by simp
    then have dj: "E k \<inter> E' k = {}" by blast
    have fin: "finite (E k)" "finite (E' k)"
      using o1(3) o2(3) finite_subset finite_covered by blast+
    have c1: "card (E k \<union> E' k) = card (E k) + card (E' k)" using fin dj by (rule card_Un_disjoint)
    have "E' k \<inter> covered (ow_dirty_ranges o1) = E' k \<inter> covered (ow_dirty_ranges o0)"
      using shrunk_fields(13) [OF o1(2)] dj by blast
    moreover have "(E k \<union> E' k) \<inter> covered (ow_dirty_ranges o0) =
        (E k \<inter> covered (ow_dirty_ranges o0)) \<union> (E' k \<inter> covered (ow_dirty_ranges o0))" by blast
    moreover have "card \<dots> = card (E k \<inter> covered (ow_dirty_ranges o0)) + card (E' k \<inter> covered (ow_dirty_ranges o0))"
      using fin dj by (intro card_Un_disjoint) auto
    ultimately show ?thesis
      using o1 o2 sub c1 shrunk_trans [OF o1(2) o2(2)] by auto
  qed
  have none: "E k \<union> E' k = {} \<and> moved mg_page_out k (ms @ ms') = 0" if n: "map_of (rm_allocations s) k = None" for k
  proof -
    have "map fst (rm_allocations s') = map fst (rm_allocations s)"
      using a by (simp add: evicts_def same_registry_def)
    then have "map_of (rm_allocations s') k = None"
      using n by (metis map_of_eq_None_iff set_map)
    then show ?thesis using a b n unfolding evicts_def by simp
  qed
  have rest: "same_registry s s''" "rm_migrations s'' = rm_migrations s @ ms @ ms'"
    "\<forall>m \<in> set (ms @ ms'). mg_kind m \<noteq> Page_In"
    "rm_pool s'' = (rm_pool s)\<lparr>pl_resident := pl_resident (rm_pool s) - sum_list (map mg_page_out (ms @ ms'))\<rparr>"
    using a b unfolding evicts_def same_registry_def by auto
  show ?thesis unfolding evicts_def using rest owner_case none by blast
qed

section \<open>Evicting ranges of one owner\<close>

lemma owner_inv_shrunk:
  assumes inv: "owner_inv c n k o0" and can: "canonical R" "canonical D" "recency_ok T"
    and cov: "covered R = covered (ow_resident o0) - X" "covered D = covered (ow_dirty_ranges o0) - X"
      "stamped T = {(x, q) \<in> stamped (ow_recency o0). x \<notin> X}"
    and X: "unit_closed (ow_committed o0) (ow_granule o0) X"
  defines "o1 \<equiv> sync_derived (o0\<lparr>ow_resident := R, ow_dirty_ranges := D, ow_recency := T\<rparr>)"
  shows "owner_inv c n k o1" "shrunk X o0 o1" "ow_resident o1 = R"
proof -
  have "intersect_ranges D R = D"
    using inv cov by (subst intersect_subset [OF can(2)]) (auto simp: owner_inv_def)
  then have o1: "o1 = o0\<lparr>ow_resident := R, ow_dirty_ranges := D, ow_recency := T,
      ow_resident_bytes := range_bytes R, ow_dirty := (D \<noteq> [])\<rparr>"
    using can by (simp add: o1_def sync_derived_def Let_def)
  have "stamped_at T q = stamped_at (ow_recency o0) q - X" for q
    using cov(3) by (auto simp: stamped_at_def)
  moreover have "fst ` stamped T = covered R"
  proof -
    have "fst ` stamped T = fst ` stamped (ow_recency o0) - X" unfolding cov(3) by force
    then show ?thesis using inv cov(1) by (simp add: owner_inv_def)
  qed
  moreover have "snd ` stamped T \<subseteq> {1..ow_last_access o0}"
  proof -
    have "snd ` stamped T \<subseteq> snd ` stamped (ow_recency o0)" unfolding cov(3) by force
    moreover have "snd ` stamped (ow_recency o0) \<subseteq> {1..ow_last_access o0}" using inv by (simp add: owner_inv_def)
    ultimately show ?thesis by (rule subset_trans)
  qed
  ultimately show "owner_inv c n k o1"
    using inv can cov X unfolding owner_inv_def o1 by (auto intro: unit_closed_Diff)
  show "shrunk X o0 o1" using cov by (simp add: shrunk_def o1 kept_def)
  show "ow_resident o1 = R" by (simp add: o1)
qed

lemma put_anchors_inv:
  "residency_off d s \<Longrightarrow> map_of (rm_allocations s) k \<noteq> None \<Longrightarrow> residency_off d (put_anchors k as s)"
  by (auto simp: residency_off_def put_anchors_def resident_sum_def migration_inv_def dict_dom_update
      dict_dom_delete wf_dict_update wf_dict_delete)

lemma put_anchors_simps [simp]:
  "rm_allocations (put_anchors k as s) = rm_allocations s" "rm_views (put_anchors k as s) = rm_views s"
  "rm_leases (put_anchors k as s) = rm_leases s" "rm_pool (put_anchors k as s) = rm_pool s"
  "rm_access_seq (put_anchors k as s) = rm_access_seq s"
  "rm_registration_seq (put_anchors k as s) = rm_registration_seq s"
  "rm_deferred (put_anchors k as s) = rm_deferred s" "rm_migrations (put_anchors k as s) = rm_migrations s"
  "rm_migration_seq (put_anchors k as s) = rm_migration_seq s" "rm_totals (put_anchors k as s) = rm_totals s"
  by (simp_all add: put_anchors_def)

text \<open>The migrations of one eviction: first the dirty bytes, then the clean ones.\<close>

definition log_evicted :: "owner \<Rightarrow> int \<Rightarrow> int \<Rightarrow> string list \<Rightarrow> manager \<Rightarrow> unit residency_op" where
  "log_evicted o1 dirty_bytes clean_bytes consumers s2 = sbind (if dirty_bytes \<noteq> 0
        then sbind (record_migration o1 Dirty_Writeback dirty_bytes (Some (pl_component (rm_pool s2)))
          (ow_backing o1) consumers s2) (\<lambda>_ s. (Inr (), s))
        else (Inr (), s2)) (\<lambda>_ s3.
    if clean_bytes \<noteq> 0
    then sbind (record_migration o1 Clean_Discard clean_bytes (Some (pl_component (rm_pool s3)))
      (ow_backing o1) consumers s3) (\<lambda>_ s. (Inr (), s))
    else (Inr (), s3))"

definition logs :: "manager \<Rightarrow> migration list \<Rightarrow> manager \<Rightarrow> bool" where
  "logs s ms s' \<longleftrightarrow> (\<exists>n t. s' = s\<lparr>rm_migration_seq := n, rm_migrations := rm_migrations s @ ms, rm_totals := t\<rparr>)"

lemma logs_refl: "logs s [] s"
  unfolding logs_def by (intro exI [of _ "rm_migration_seq s"] exI [of _ "rm_totals s"]) simp

lemma logs_trans: "logs s ms s' \<Longrightarrow> logs s' ms' s'' \<Longrightarrow> logs s (ms @ ms') s''"
  unfolding logs_def by (elim exE) (simp, blast)

lemma log_one:
  assumes inv: "residency_off d s" and n: "0 \<le> n" and g: "0 < ow_granule o1"
  obtains ms s' where "(if n \<noteq> 0 then sbind (record_migration o1 kind n src (ow_backing o1) consumers s)
      (\<lambda>_ s. (Inr (), s)) else (Inr (), s)) = (Inr (), s')" "residency_off d s'" "logs s ms s'"
    "\<forall>m \<in> set ms. mg_allocation m = ow_id o1 \<and> mg_kind m = kind \<and>
        mg_consumers m = first_keys (filter (\<lambda>c. c \<noteq> []) consumers)" "sum_list (map mg_bytes ms) = n"
proof (cases "n = 0")
  case True
  then show ?thesis using that [of s "[]"] inv logs_refl by simp
next
  case False
  then have "0 < n" using n by simp
  from record_migration_ok [OF inv this g, of kind src "ow_backing o1" consumers] obtain m s' where
    m: "record_migration o1 kind n src (ow_backing o1) consumers s = (Inr m, s')" "residency_off d s'"
      "mg_allocation m = ow_id o1" "mg_kind m = kind" "mg_bytes m = n"
      "mg_consumers m = first_keys (filter (\<lambda>c. c \<noteq> []) consumers)"
      "\<exists>t. s' = s\<lparr>rm_migration_seq := rm_migration_seq s + 1, rm_migrations := rm_migrations s @ [m], rm_totals := t\<rparr>"
    by blast
  then have "logs s [m] s'" unfolding logs_def by blast
  then show ?thesis using that [of s' "[m]"] m False by simp
qed

lemma moved_kind:
  assumes "\<forall>m \<in> set ms. mg_allocation m = k \<and> mg_kind m = kind" "kind \<noteq> Page_In"
  shows "moved mg_page_out k ms = sum_list (map mg_bytes ms)"
    "moved mg_dirty_writeback k ms = (if kind = Dirty_Writeback then sum_list (map mg_bytes ms) else 0)"
    "sum_list (map mg_page_out ms) = sum_list (map mg_bytes ms)"
    "k' \<noteq> k \<Longrightarrow> moved f k' ms = 0"
  using assms by (induction ms) (auto simp: mg_page_out_def mg_dirty_writeback_def)

lemma log_evicted_ok:
  assumes inv: "residency_off d s" and n: "0 \<le> dirty" "0 \<le> clean" and g: "0 < ow_granule o1"
  obtains ms s' where "log_evicted o1 dirty clean consumers s = (Inr (), s')" "residency_off d s'" "logs s ms s'"
    "moved mg_page_out (ow_id o1) ms = dirty + clean" "moved mg_dirty_writeback (ow_id o1) ms = dirty"
    "sum_list (map mg_page_out ms) = dirty + clean"
    "\<forall>k f. k \<noteq> ow_id o1 \<longrightarrow> moved f k ms = 0"
    "\<forall>m \<in> set ms. mg_kind m \<noteq> Page_In \<and> mg_allocation m = ow_id o1 \<and>
      mg_consumers m = first_keys (filter (\<lambda>c. c \<noteq> []) consumers)"
proof -
  obtain ms1 s1 where a: "(if dirty \<noteq> 0 then sbind (record_migration o1 Dirty_Writeback dirty
      (Some (pl_component (rm_pool s))) (ow_backing o1) consumers s) (\<lambda>_ s. (Inr (), s)) else (Inr (), s)) = (Inr (), s1)"
    "residency_off d s1" "logs s ms1 s1" "\<forall>m \<in> set ms1. mg_allocation m = ow_id o1 \<and> mg_kind m = Dirty_Writeback \<and>
        mg_consumers m = first_keys (filter (\<lambda>c. c \<noteq> []) consumers)"
    "sum_list (map mg_bytes ms1) = dirty"
    by (rule log_one [OF inv n(1) g, of Dirty_Writeback "Some (pl_component (rm_pool s))" consumers])
  obtain ms2 s2 where b: "(if clean \<noteq> 0 then sbind (record_migration o1 Clean_Discard clean
      (Some (pl_component (rm_pool s1))) (ow_backing o1) consumers s1) (\<lambda>_ s. (Inr (), s)) else (Inr (), s1)) = (Inr (), s2)"
    "residency_off d s2" "logs s1 ms2 s2" "\<forall>m \<in> set ms2. mg_allocation m = ow_id o1 \<and> mg_kind m = Clean_Discard \<and>
        mg_consumers m = first_keys (filter (\<lambda>c. c \<noteq> []) consumers)"
    "sum_list (map mg_bytes ms2) = clean"
    by (rule log_one [OF a(2) n(2) g, of Clean_Discard "Some (pl_component (rm_pool s1))" consumers])
  have run: "log_evicted o1 dirty clean consumers s = (Inr (), s2)"
    unfolding log_evicted_def a(1) using b(1) by simp
  have lg: "logs s (ms1 @ ms2) s2" using logs_trans a(3) b(3) by blast
  have k1: "\<forall>m \<in> set ms1. mg_allocation m = ow_id o1 \<and> mg_kind m = Dirty_Writeback"
    and k2: "\<forall>m \<in> set ms2. mg_allocation m = ow_id o1 \<and> mg_kind m = Clean_Discard"
    using a(4) b(4) by blast+
  have sums: "moved mg_page_out (ow_id o1) (ms1 @ ms2) = dirty + clean"
    "moved mg_dirty_writeback (ow_id o1) (ms1 @ ms2) = dirty"
    "sum_list (map mg_page_out (ms1 @ ms2)) = dirty + clean"
    using moved_kind(1,2,3) [OF k1] moved_kind(1,2,3) [OF k2] a(5) b(5) by simp_all
  have others: "\<forall>k f. k \<noteq> ow_id o1 \<longrightarrow> moved f k (ms1 @ ms2) = 0"
    using moved_kind(4) [OF k1] moved_kind(4) [OF k2] by simp
  have all: "\<forall>m \<in> set (ms1 @ ms2). mg_kind m \<noteq> Page_In \<and> mg_allocation m = ow_id o1 \<and>
      mg_consumers m = first_keys (filter (\<lambda>c. c \<noteq> []) consumers)"
    using a(4) b(4) by auto
  show ?thesis by (rule that [OF run b(2) lg sums others all])
qed

text \<open>Bytes of an owner that no lease protects.\<close>

definition unleased :: "string \<Rightarrow> int set \<Rightarrow> manager \<Rightarrow> bool" where
  "unleased k X s \<longleftrightarrow> (\<forall>lk l. map_of (rm_leases s) lk = Some l \<and> le_owner l = k \<longrightarrow> covered (le_ranges l) \<inter> X = {})"

lemma evict_owner_ranges_eq:
  assumes "\<not> ow_pinned o0" "ow_evictable o0" "ow_backing o0 \<noteq> None" "merge_ranges rs = M" "M \<noteq> []"
    "ensure_backing_unit_ranges M (ow_committed o0) (ow_granule o0) = Inr ()"
    "intersect_ranges M (ow_resident o0) = M" "subtract_recency_ranges (ow_recency o0) M = Inr T"
  shows "evict_owner_ranges o0 rs s = sbind (adjust_pool (- range_bytes M)
      (put_owner (sync_derived (o0\<lparr>ow_resident := subtract_ranges (ow_resident o0) M,
          ow_dirty_ranges := subtract_ranges (ow_dirty_ranges o0) M, ow_recency := T\<rparr>))
        (put_anchors (ow_id o0) (retained_anchors (anchors_of (ow_id o0) s) M) s)))
     (\<lambda>_. log_evicted o0 (range_bytes (intersect_ranges M (ow_dirty_ranges o0)))
        (range_bytes M - range_bytes (intersect_ranges M (ow_dirty_ranges o0)))
        (consumers_of (anchors_of (ow_id o0) s) M))"
proof -
  have n: "\<not> (ow_pinned o0 \<or> \<not> ow_evictable o0 \<or> ow_backing o0 = None)" using assms(1-3) by simp
  show ?thesis
    unfolding evict_owner_ranges_def log_evicted_def Let_def if_not_P [OF n] assms(4)
      if_not_P [OF assms(5)] assms(6,7,8) by simp
qed

lemma evict_owner_ranges_ok:
  assumes inv: "residency_inv s" and o0: "map_of (rm_allocations s) k = Some o0"
    and ev: "ow_evictable o0" and X: "covered rs = X" "X \<subseteq> covered (ow_resident o0)"
      "unit_closed (ow_committed o0) (ow_granule o0) X" "unleased k X s"
  obtains ms s' where "evict_owner_ranges o0 rs s = (Inr (), s')" "residency_inv s'"
    "evicts (\<lambda>k'. if k' = k then X else {}) ms s s'"
    "\<forall>m \<in> set ms. mg_allocation m = k \<and>
       mg_consumers m = first_keys (filter (\<lambda>c. c \<noteq> []) (consumers_of (anchors_of k s) (merge_ranges rs)))"
proof (cases "X = {}")
  case True
  have oi: "owner_inv (pl_component (rm_pool s)) (rm_access_seq s) k o0" using residency_offD(5) [OF inv o0] .
  have "merge_ranges rs = []" using True X(1) canonical_empty [of "merge_ranges rs"] by simp
  then have "evict_owner_ranges o0 rs s = (Inr (), s)"
    using ev oi by (simp add: evict_owner_ranges_def owner_inv_def)
  moreover have "(\<lambda>k'. if k' = k then X else {}) = (\<lambda>k'. {})" using True by auto
  then have "evicts (\<lambda>k'. if k' = k then X else {}) [] s s" using evicts_refl [of s] by simp
  ultimately show ?thesis using that [of s "[]"] inv by simp
next
  case False
  have oi: "owner_inv (pl_component (rm_pool s)) (rm_access_seq s) k o0" using residency_offD(5) [OF inv o0] .
  then have id: "ow_id o0 = k" "0 < ow_granule o0" "0 \<le> ow_committed o0" "\<not> ow_pinned o0" "ow_backing o0 \<noteq> None"
    using ev by (auto simp: owner_inv_def)
  define M where "M = merge_ranges rs"
  have cM [simp]: "canonical M" by (simp add: M_def)
  have M: "covered M = X" using X(1) by (simp add: M_def)
  have Mne: "M \<noteq> []" using M False by auto
  have chk: "ensure_backing_unit_ranges M (ow_committed o0) (ow_granule o0) = Inr ()"
    using X(3) id by (intro closed_ensure) (simp_all add: M)
  have res: "intersect_ranges M (ow_resident o0) = M" using X(2) M by (simp add: intersect_subset)
  have finX: "finite X" using M finite_covered [of M] by simp
  define R where "R = subtract_ranges (ow_resident o0) M"
  define D where "D = subtract_ranges (ow_dirty_ranges o0) M"
  have RD: "canonical R" "canonical D" "covered R = covered (ow_resident o0) - X"
    "covered D = covered (ow_dirty_ranges o0) - X"
    using oi M by (simp_all add: R_def D_def owner_inv_def)
  have "disjoint_recency (ow_recency o0)" using oi recency_ok_disjoint by (simp add: owner_inv_def)
  then obtain T where T: "subtract_recency_ranges (ow_recency o0) M = Inr T" "recency_ok T"
      "stamped T = {(x, q) \<in> stamped (ow_recency o0). x \<notin> covered M}"
    by (rule subtract_recency_correct)
  define o1 where "o1 = sync_derived (o0\<lparr>ow_resident := R, ow_dirty_ranges := D, ow_recency := T\<rparr>)"
  have o1: "owner_inv (pl_component (rm_pool s)) (rm_access_seq s) k o1" "shrunk X o0 o1" "ow_resident o1 = R"
    using owner_inv_shrunk [OF oi RD(1,2) T(2) RD(3,4) T(3) [unfolded M] X(3)] by (simp_all add: o1_def)
  define as where "as = retained_anchors (anchors_of k s) M"
  let ?s1 = "put_anchors k as s"
  have inv1: "residency_off 0 ?s1" using put_anchors_inv [OF inv] o0 by simp
  have ls: "covered (le_ranges l) \<subseteq> covered (ow_resident o1) \<and>
      unit_closed (ow_committed o1) (ow_granule o1) (covered (le_ranges l))"
    if l: "map_of (rm_leases ?s1) lk = Some l" "le_owner l = k" for lk l
  proof -
    have "lease_inv (rm_allocations s) lk l" using residency_offD(7) [OF inv] l by simp
    then have "covered (le_ranges l) \<subseteq> covered (ow_resident o0)"
        "unit_closed (ow_committed o0) (ow_granule o0) (covered (le_ranges l))"
      using l(2) o0 by (auto simp: lease_inv_def)
    moreover have "covered (le_ranges l) \<inter> X = {}" using X(4) l by (simp add: unleased_def)
    ultimately show ?thesis using shrunk_fields [OF o1(2)] by auto
  qed
  have inv2: "residency_off (0 + range_bytes (ow_resident o0) - range_bytes (ow_resident o1)) (put_owner o1 ?s1)"
    by (rule put_owner_off [OF inv1 _ _ _ _ ls]) (use o0 o1 shrunk_fields [OF o1(2)] in simp_all)
  have bytes: "range_bytes M = int (card X)"
    "range_bytes (ow_resident o0) - range_bytes R = range_bytes M"
  proof -
    show b: "range_bytes M = int (card X)" using M by (simp add: range_bytes_card)
    have "card (covered (ow_resident o0) - X) = card (covered (ow_resident o0)) - card X"
      using X(2) finX by (intro card_Diff_subset)
    moreover have "card X \<le> card (covered (ow_resident o0))" using X(2) by (intro card_mono) auto
    ultimately show "range_bytes (ow_resident o0) - range_bytes R = range_bytes M"
      using RD oi b by (simp add: range_bytes_card owner_inv_def)
  qed
  have pool1: "rm_pool (put_owner o1 ?s1) = rm_pool s" by (simp add: put_owner_def)
  have fit: "0 \<le> pl_resident (rm_pool s) - range_bytes M"
  proof -
    have "0 \<le> resident_sum (put_owner o1 ?s1)" by (rule resident_sum_nonneg [OF inv2])
    then show ?thesis using residency_offD(9) [OF inv2] bytes o1(3) pool1 by simp
  qed
  have up: "pl_resident (rm_pool s) - range_bytes M \<le> pl_capacity (rm_pool s)"
    using residency_offD(10) [OF inv] range_bytes_nonneg [of M] cM by linarith
  obtain p where p: "adjust_pool (- range_bytes M) (put_owner o1 ?s1) = (Inr (), (put_owner o1 ?s1)\<lparr>rm_pool := p\<rparr>)"
    "residency_off ((0 + range_bytes (ow_resident o0) - range_bytes (ow_resident o1)) + - range_bytes M)
      ((put_owner o1 ?s1)\<lparr>rm_pool := p\<rparr>)"
    "p = (rm_pool s)\<lparr>pl_resident := pl_resident (rm_pool s) + - range_bytes M,
       pl_peak := max (pl_peak (rm_pool s)) (pl_resident (rm_pool s) + - range_bytes M)\<rparr>"
    using adjust_pool_ok [OF inv2, of "- range_bytes M"] fit up unfolding pool1 by auto
  let ?s2 = "(put_owner o1 ?s1)\<lparr>rm_pool := p\<rparr>"
  have inv3: "residency_off 0 ?s2" by (rule residency_off_cong [OF p(2)]) (use bytes o1(3) in simp)
  have "pl_resident (rm_pool s) \<le> pl_peak (rm_pool s)" using inv by (simp add: residency_off_def)
  then have pe: "p = (rm_pool s)\<lparr>pl_resident := pl_resident (rm_pool s) - range_bytes M\<rparr>"
    using p(3) range_bytes_nonneg [OF cM] by (simp add: max_absorb1)
  let ?db = "range_bytes (intersect_ranges M (ow_dirty_ranges o0))"
  have db: "?db = int (card (X \<inter> covered (ow_dirty_ranges o0)))" using M by (simp add: range_bytes_card)
  have le: "0 \<le> ?db" "0 \<le> range_bytes M - ?db"
    unfolding db bytes(1) using finX by (simp_all add: card_mono)
  define cs where "cs = consumers_of (anchors_of k s) M"
  obtain ms s' where ms: "log_evicted o0 ?db (range_bytes M - ?db) cs ?s2 = (Inr (), s')" "residency_off 0 s'"
    "logs ?s2 ms s'" "moved mg_page_out (ow_id o0) ms = ?db + (range_bytes M - ?db)"
    "moved mg_dirty_writeback (ow_id o0) ms = ?db"
    "sum_list (map mg_page_out ms) = ?db + (range_bytes M - ?db)"
    "\<forall>k f. k \<noteq> ow_id o0 \<longrightarrow> moved f k ms = 0"
    "\<forall>m \<in> set ms. mg_kind m \<noteq> Page_In \<and> mg_allocation m = ow_id o0 \<and>
      mg_consumers m = first_keys (filter (\<lambda>c. c \<noteq> []) cs)"
    by (rule log_evicted_ok [OF inv3 le id(2), of cs])
  have run: "evict_owner_ranges o0 rs s = (Inr (), s')"
    using evict_owner_ranges_eq [OF id(4) ev id(5) M_def [symmetric] Mne chk res T(1), of s] p(1) ms(1)
    unfolding R_def [symmetric] D_def [symmetric] o1_def [symmetric] id(1) as_def [symmetric] cs_def [symmetric]
    by simp
  have al: "rm_allocations ?s2 = AList.update k o1 (rm_allocations s)"
    using shrunk_fields(1) [OF o1(2)] id(1) by (simp add: put_owner_def)
  obtain n t where s': "s' = ?s2\<lparr>rm_migration_seq := n, rm_migrations := rm_migrations ?s2 @ ms, rm_totals := t\<rparr>"
    using ms(3) unfolding logs_def by blast
  have keys: "map fst (AList.update k o1 (rm_allocations s)) = map fst (rm_allocations s)"
  proof -
    have "k \<in> fst ` set (rm_allocations s)" using o0 by (metis map_of_eq_None_iff option.distinct(1))
    then show ?thesis by (simp add: update_keys)
  qed
  have id1: "ow_id o1 = k" using shrunk_fields(1) [OF o1(2)] id(1) by simp
  have "same_registry s s'" using keys by (simp add: same_registry_def s' put_owner_def id1)
  then have "evicts (\<lambda>k'. if k' = k then X else {}) ms s s'"
    unfolding evicts_def
    using o0 o1(2) X(2) ms(4,5,6,7,8) id(1) bytes(1) db pe
    by (auto simp: s' put_owner_def id1 shrunk_refl)
  then show ?thesis using that [OF run ms(2)] ms(8) id(1) cs_def M_def by blast
qed

section \<open>The eviction plan\<close>

text \<open>What may be evicted: the resident bytes that neither a lease nor the caller protects.\<close>

definition protected_bytes :: "string \<Rightarrow> string option \<Rightarrow> byte_range list \<Rightarrow> manager \<Rightarrow> int set" where
  "protected_bytes k pk P s =
     (\<Union>lk \<in> {lk. \<exists>l. map_of (rm_leases s) lk = Some l \<and> le_owner l = k}.
        covered (le_ranges (the (map_of (rm_leases s) lk)))) \<union> (if pk = Some k then covered P else {})"

definition evictable_stamps :: "string \<Rightarrow> owner \<Rightarrow> string option \<Rightarrow> byte_range list \<Rightarrow> manager \<Rightarrow> (int \<times> int) set" where
  "evictable_stamps k o1 pk P s = (if evictable_now o1
     then {(x, q) \<in> stamped (ow_recency o1). x \<notin> protected_bytes k pk P s} else {})"

lemma covered_leased:
  assumes "wf_dict (rm_leases s)"
  shows "x \<in> covered (leased_ranges k s) \<longleftrightarrow>
    (\<exists>lk l. map_of (rm_leases s) lk = Some l \<and> le_owner l = k \<and> x \<in> covered (le_ranges l))"
proof -
  have "x \<in> covered (leased_ranges k s) \<longleftrightarrow>
      (\<exists>p \<in> set (rm_leases s). le_owner (snd p) = k \<and> x \<in> covered (le_ranges (snd p)))"
    by (auto simp: leased_ranges_def covered_concat split_beta)
  also have "\<dots> \<longleftrightarrow> (\<exists>lk l. (lk, l) \<in> set (rm_leases s) \<and> le_owner l = k \<and> x \<in> covered (le_ranges l))"
    by force
  finally show ?thesis using wf_dict_in_iff [OF assms] by simp
qed

lemma covered_cuts:
  assumes "wf_dict (rm_leases s)" "ow_id o1 = k"
  shows "covered (eviction_cuts o1 pk P s) = protected_bytes k pk P s"
proof -
  have "x \<in> covered (leased_ranges k s) \<longleftrightarrow> x \<in> (\<Union>lk \<in> {lk. \<exists>l. map_of (rm_leases s) lk = Some l \<and> le_owner l = k}.
        covered (le_ranges (the (map_of (rm_leases s) lk))))" for x
    unfolding covered_leased [OF assms(1)] by force
  then show ?thesis using assms(2) by (auto simp: eviction_cuts_def covered_simps protected_bytes_def)
qed

lemma protected_closed:
  assumes "residency_off d s" "map_of (rm_allocations s) k = Some o1"
    "pk = Some k \<Longrightarrow> unit_closed (ow_committed o1) (ow_granule o1) (covered P)"
  shows "unit_closed (ow_committed o1) (ow_granule o1) (protected_bytes k pk P s)"
proof -
  have "unit_closed (ow_committed o1) (ow_granule o1) (covered (le_ranges l))"
    if "map_of (rm_leases s) lk = Some l" "le_owner l = k" for lk l
    using residency_offD(7) [OF assms(1) that(1)] that(2) assms(2) by (auto simp: lease_inv_def)
  then show ?thesis unfolding protected_bytes_def
    by (intro unit_closed_Un unit_closed_UN) (use assms(3) in auto)
qed

definition fragments :: "byte_range list \<Rightarrow> recency_range \<Rightarrow> recency_range list" where
  "fragments cuts r = (case r of (start, end, sequence) \<Rightarrow>
     map (\<lambda>(a, b). (a, b, sequence)) (subtract_ranges [(start, end)] cuts))"

lemma fragments_one:
  assumes "s < e"
  shows "disjoint_recency (fragments cuts (s, e, q))"
    "stamped (fragments cuts (s, e, q)) = ({s..<e} - covered cuts) \<times> {q}"
    "(a, b, k) \<in> set (fragments cuts (s, e, q)) \<Longrightarrow> s \<le> a \<and> a < b \<and> b \<le> e \<and> k = q"
proof -
  let ?F = "subtract_ranges [(s, e)] cuts"
  have F: "canonical ?F" "covered ?F = {s..<e} - covered cuts"
    using assms by (simp_all add: canonical_Cons covered_Cons)
  have fr: "fragments cuts (s, e, q) = map (\<lambda>(a, b). (a, b, q)) ?F" by (simp add: fragments_def)
  show "disjoint_recency (fragments cuts (s, e, q))" unfolding fr by (rule stamp_ranges_disjoint [OF F(1)])
  show "stamped (fragments cuts (s, e, q)) = ({s..<e} - covered cuts) \<times> {q}"
    unfolding fr stamp_ranges F(2) ..
  assume "(a, b, k) \<in> set (fragments cuts (s, e, q))"
  then have m: "(a, b) \<in> set ?F" "k = q" by (auto simp: fr)
  then have ab: "a < b" "{a..<b} \<subseteq> covered ?F" using canonical_maximal [OF F(1)] by auto
  then have "a \<in> covered ?F" "b - 1 \<in> covered ?F" by (simp_all add: subset_eq del: covered_subtract)
  then have "a \<in> {s..<e}" "b - 1 \<in> {s..<e}" unfolding F(2) by auto
  then show "s \<le> a \<and> a < b \<and> b \<le> e \<and> k = q" using ab m by auto
qed

lemma fragments_all:
  assumes "disjoint_recency rr"
  shows "disjoint_recency (concat (map (fragments cuts) rr)) \<and>
    stamped (concat (map (fragments cuts) rr)) = {(x, q) \<in> stamped rr. x \<notin> covered cuts}"
  using assms
proof (induction rr)
  case (Cons r rr)
  obtain s e q where r: "r = (s, e, q)" by (cases r)
  have c: "s < e" "\<forall>(s', e', q') \<in> set rr. e \<le> s'" "disjoint_recency rr"
    using Cons.prems r by (simp_all add: disjoint_recency_Cons)
  note IH = Cons.IH [OF c(3)] and one = fragments_one [OF c(1), where cuts = cuts and q = q]
  have out: "e \<le> x" if m: "(x, y, k) \<in> set (concat (map (fragments cuts) rr))" for x y k
  proof -
    from m obtain s' e' q' where "(s', e', q') \<in> set rr" "(x, y, k) \<in> set (fragments cuts (s', e', q'))" by auto
    then have "s' < e'" "e \<le> s'" using c(2) disjoint_recencyD(1) [OF c(3)] by auto
    then show ?thesis using fragments_one(3) [of s' e' x y k cuts q'] \<open>(x, y, k) \<in> set (fragments cuts (s', e', q'))\<close>
      by simp
  qed
  have "\<forall>(a, b, k) \<in> set (fragments cuts r). \<forall>(x, y, k') \<in> set (concat (map (fragments cuts) rr)). b \<le> x"
    using one(3) out r by fastforce
  then have "disjoint_recency (concat (map (fragments cuts) (r # rr)))"
    using IH one(1) r by (simp add: disjoint_recency_append)
  moreover have "stamped (concat (map (fragments cuts) (r # rr))) = {(x, k) \<in> stamped (r # rr). x \<notin> covered cuts}"
    using IH one(2) r by (auto simp: stamped_simps)
  ultimately show ?case by blast
qed (simp add: stamped_simps)

lemma candidate_fragments: "candidate_recency_ranges o1 pk P s =
    (if evictable_now o1 then concat (map (fragments (eviction_cuts o1 pk P s)) (ow_recency o1)) else [])"
  by (simp add: candidate_recency_ranges_def fragments_def cong: map_cong)

lemma candidate_recency_correct:
  assumes inv: "residency_off d s" and o1: "map_of (rm_allocations s) k = Some o1"
    and P: "pk = Some k \<Longrightarrow> unit_closed (ow_committed o1) (ow_granule o1) (covered P)"
  shows "disjoint_recency (candidate_recency_ranges o1 pk P s)"
    "stamped (candidate_recency_ranges o1 pk P s) = evictable_stamps k o1 pk P s"
    "unit_aligned (ow_committed o1) (ow_granule o1) (map extent_of (candidate_recency_ranges o1 pk P s))"
proof -
  have oi: "owner_inv (pl_component (rm_pool s)) (rm_access_seq s) k o1" using residency_offD(5) [OF inv o1] .
  then have id: "ow_id o1 = k" "0 < ow_granule o1" "0 \<le> ow_committed o1" "recency_ok (ow_recency o1)"
    and cl: "unit_closed (ow_committed o1) (ow_granule o1) (stamped_at (ow_recency o1) q)" for q
    by (simp_all add: owner_inv_def)
  let ?cuts = "eviction_cuts o1 pk P s"
  have cc: "covered ?cuts = protected_bytes k pk P s" using covered_cuts [OF residency_offD(3) [OF inv] id(1)] .
  note all = fragments_all [OF recency_ok_disjoint [OF id(4)], of ?cuts]
  show "disjoint_recency (candidate_recency_ranges o1 pk P s)"
    "stamped (candidate_recency_ranges o1 pk P s) = evictable_stamps k o1 pk P s"
    using all by (auto simp: candidate_fragments evictable_stamps_def cc stamped_simps)
  have al: "unit_aligned (ow_committed o1) (ow_granule o1) (map extent_of (ow_recency o1))"
    using closed_recency_aligned [OF id(4) cl id(2,3)] .
  have "is_backing_unit_boundary a (ow_committed o1) (ow_granule o1) \<and> is_backing_unit_boundary b (ow_committed o1) (ow_granule o1)"
    if m: "(a, b, q) \<in> set (concat (map (fragments ?cuts) (ow_recency o1)))" for a b q
  proof -
    from m obtain s' e' q' where r: "(s', e', q') \<in> set (ow_recency o1)" "(a, b, q) \<in> set (fragments ?cuts (s', e', q'))"
      by auto
    then have "s' < e'" using disjoint_recencyD(1) [OF recency_ok_disjoint [OF id(4)]] by blast
    let ?F = "subtract_ranges [(s', e')] ?cuts"
    have "(s', e') \<in> set (map extent_of (ow_recency o1))" using r(1) by force
    then have "unit_closed (ow_committed o1) (ow_granule o1) {s'..<e'}"
      using unit_alignedD [OF al] boundary_closed by blast
    then have "unit_closed (ow_committed o1) (ow_granule o1) (covered ?F)"
      using protected_closed [OF inv o1 P] by (auto simp: covered_simps cc)
    moreover have "canonical ?F" using \<open>s' < e'\<close> by (simp add: canonical_Cons)
    ultimately have "unit_aligned (ow_committed o1) (ow_granule o1) ?F"
      using closed_unit_aligned id(2,3) by blast
    moreover have "(a, b) \<in> set ?F" using r(2) by (auto simp: fragments_def)
    ultimately show ?thesis using unit_alignedD by blast
  qed
  then show "unit_aligned (ow_committed o1) (ow_granule o1) (map extent_of (candidate_recency_ranges o1 pk P s))"
    using id(2,3) by (fastforce simp: candidate_fragments unit_aligned_def)
qed

definition candidate_of :: "owner \<Rightarrow> recency_range \<Rightarrow> candidate" where
  "candidate_of o1 r = (case r of (a, b, q) \<Rightarrow> (q, ow_order o1, ow_id o1, a, b, o1))"

definition all_candidates :: "string option \<Rightarrow> byte_range list \<Rightarrow> manager \<Rightarrow> (string, owner) dict \<Rightarrow> candidate list" where
  "all_candidates pk P s owners =
     concat (map (\<lambda>(k, o1). map (candidate_of o1) (candidate_recency_ranges o1 pk P s)) owners)"

lemma check_candidates_ok:
  "unit_aligned (ow_committed o1) (ow_granule o1) (map extent_of rr) \<Longrightarrow>
    check_candidates o1 rr = Inr (map (candidate_of o1) rr)"
proof (induction rr)
  case (Cons r rr)
  obtain a b q where r: "r = (a, b, q)" by (cases r)
  have "unit_aligned (ow_committed o1) (ow_granule o1) [(a, b)]"
    "unit_aligned (ow_committed o1) (ow_granule o1) (map extent_of rr)"
    using Cons.prems r by (auto intro: unit_aligned_subset)
  then show ?case using Cons.IH unit_aligned_ensure r by (simp add: candidate_of_def)
qed simp

definition protects_units :: "string option \<Rightarrow> byte_range list \<Rightarrow> manager \<Rightarrow> bool" where
  "protects_units pk P s \<longleftrightarrow> (\<forall>k o1. pk = Some k \<and> map_of (rm_allocations s) k = Some o1 \<longrightarrow>
     unit_closed (ow_committed o1) (ow_granule o1) (covered P))"

lemma gather_ok:
  assumes inv: "residency_off d s" and P: "protects_units pk P s"
    and sub: "set owners \<subseteq> set (rm_allocations s)"
  shows "gather_candidates owners pk P s = Inr (all_candidates pk P s owners)"
  using sub
proof (induction owners)
  case (Cons p owners)
  obtain k o1 where p: "p = (k, o1)" by (cases p)
  then have "map_of (rm_allocations s) k = Some o1"
    using Cons.prems wf_dict_in_iff [OF residency_offD(1) [OF inv]] by auto
  then have "check_candidates o1 (candidate_recency_ranges o1 pk P s) =
      Inr (map (candidate_of o1) (candidate_recency_ranges o1 pk P s))"
    using P unfolding protects_units_def
    by (intro check_candidates_ok candidate_recency_correct(3) [OF inv]) auto
  then show ?case using Cons p by (simp add: all_candidates_def)
qed (simp add: all_candidates_def)

text \<open>What a candidate is, and that together they are exactly the evictable bytes.\<close>

definition candidate_ok :: "string option \<Rightarrow> byte_range list \<Rightarrow> manager \<Rightarrow> candidate \<Rightarrow> bool" where
  "candidate_ok pk P s c = (case c of (q, ord, k, a, b, o1) \<Rightarrow>
     map_of (rm_allocations s) k = Some o1 \<and> evictable_now o1 \<and> ord = ow_order o1 \<and> a < b \<and>
     is_backing_unit_boundary a (ow_committed o1) (ow_granule o1) \<and>
     is_backing_unit_boundary b (ow_committed o1) (ow_granule o1) \<and>
     {a..<b} \<times> {q} \<subseteq> evictable_stamps k o1 pk P s)"

definition candidate_len :: "candidate \<Rightarrow> int" where
  "candidate_len c = (case c of (q, ord, k, a, b, o1) \<Rightarrow> b - a)"

definition evictable_total :: "string option \<Rightarrow> byte_range list \<Rightarrow> manager \<Rightarrow> int" where
  "evictable_total pk P s = dict_sum (\<lambda>o1. int (card (evictable_stamps (ow_id o1) o1 pk P s))) (rm_allocations s)"

lemma stamped_subset: "(a, b, q) \<in> set rr \<Longrightarrow> {a..<b} \<times> {q} \<subseteq> stamped rr"
  by (force simp: in_stamped)

lemma finite_stamped [simp]: "finite (stamped rr)"
  by (auto simp: stamped_def)

lemma stamped_card: "disjoint_recency rr \<Longrightarrow> sum_list (map (\<lambda>(a, b, q). b - a) rr) = int (card (stamped rr))"
proof (induction rr)
  case (Cons r rr)
  obtain s e q where r: "r = (s, e, q)" by (cases r)
  have c: "s < e" "\<forall>(s', e', q') \<in> set rr. e \<le> s'" "disjoint_recency rr"
    using Cons.prems r by (simp_all add: disjoint_recency_Cons)
  have "({s..<e} \<times> {q}) \<inter> stamped rr = {}" using c(2) by (fastforce simp: in_stamped)
  then have "card (stamped (r # rr)) = card ({s..<e} \<times> {q}) + card (stamped rr)"
    unfolding r stamped_simps by (intro card_Un_disjoint) auto
  then show ?case using Cons.IH [OF c(3)] c(1) r by (simp add: card_cartesian_product)
qed (simp add: stamped_simps)

lemma all_candidates_correct:
  assumes inv: "residency_off d s" and P: "protects_units pk P s"
  defines "cs \<equiv> all_candidates pk P s (rm_allocations s)"
  shows "c \<in> set cs \<Longrightarrow> candidate_ok pk P s c"
    "map_of (rm_allocations s) k = Some o1 \<Longrightarrow> (x, q) \<in> evictable_stamps k o1 pk P s \<Longrightarrow>
      \<exists>a b. (q, ow_order o1, k, a, b, o1) \<in> set cs \<and> a \<le> x \<and> x < b"
    "sum_list (map candidate_len cs) = evictable_total pk P s"
proof -
  have cr: "disjoint_recency (candidate_recency_ranges o1 pk P s)"
    "stamped (candidate_recency_ranges o1 pk P s) = evictable_stamps k o1 pk P s"
    "unit_aligned (ow_committed o1) (ow_granule o1) (map extent_of (candidate_recency_ranges o1 pk P s))"
    "ow_id o1 = k"
    if "map_of (rm_allocations s) k = Some o1" for k o1
    using candidate_recency_correct [OF inv that, of pk P] P that residency_offD(5) [OF inv that]
    by (auto simp: protects_units_def owner_inv_def)
  have in_iff: "(k, o1) \<in> set (rm_allocations s) \<longleftrightarrow> map_of (rm_allocations s) k = Some o1" for k o1
    using wf_dict_in_iff [OF residency_offD(1) [OF inv]] .
  show "candidate_ok pk P s c" if "c \<in> set cs"
  proof -
    from that obtain k o1 where "(k, o1) \<in> set (rm_allocations s)"
      "c \<in> set (map (candidate_of o1) (candidate_recency_ranges o1 pk P s))"
      by (auto simp: cs_def all_candidates_def)
    then obtain a b q where m: "map_of (rm_allocations s) k = Some o1" "c = (q, ow_order o1, ow_id o1, a, b, o1)"
      "(a, b, q) \<in> set (candidate_recency_ranges o1 pk P s)"
      using in_iff by (auto simp: candidate_of_def)
    note cr = cr [OF m(1)]
    have "(a, b) \<in> set (map extent_of (candidate_recency_ranges o1 pk P s))" using m(3) by force
    moreover have "evictable_now o1" using m(3) by (auto simp: candidate_recency_ranges_def split: if_splits)
    ultimately show ?thesis
      using m(1,2) cr(4) stamped_subset [OF m(3)] disjoint_recencyD(1) [OF cr(1) m(3)] unit_alignedD [OF cr(3)]
      by (simp add: candidate_ok_def cr(2))
  qed
  show "\<exists>a b. (q, ow_order o1, k, a, b, o1) \<in> set cs \<and> a \<le> x \<and> x < b"
    if o1: "map_of (rm_allocations s) k = Some o1" and x: "(x, q) \<in> evictable_stamps k o1 pk P s"
  proof -
    have "(x, q) \<in> stamped (candidate_recency_ranges o1 pk P s)" using x cr(2) [OF o1] by simp
    then obtain a b where ab: "(a, b, q) \<in> set (candidate_recency_ranges o1 pk P s)" "a \<le> x" "x < b"
      by (auto simp: in_stamped)
    have "candidate_of o1 (a, b, q) \<in> set cs"
      unfolding cs_def all_candidates_def using ab(1) in_iff [of k o1] o1 by force
    then show ?thesis using ab cr(4) [OF o1] by (auto simp: candidate_of_def)
  qed
  have "sum_list (map candidate_len (all_candidates pk P s owners)) =
      dict_sum (\<lambda>o1. int (card (evictable_stamps (ow_id o1) o1 pk P s))) owners"
    if "set owners \<subseteq> set (rm_allocations s)" for owners
    using that
  proof (induction owners)
    case (Cons p owners)
    obtain k o1 where p: "p = (k, o1)" by (cases p)
    then have m: "map_of (rm_allocations s) k = Some o1" using Cons.prems in_iff by auto
    have "candidate_len \<circ> candidate_of o1 = (\<lambda>(a, b, q). b - a)"
      by (auto simp: candidate_len_def candidate_of_def)
    then show ?case using Cons p cr [OF m] stamped_card [OF cr(1) [OF m]]
      by (simp add: all_candidates_def)
  qed (simp add: all_candidates_def)
  then show "sum_list (map candidate_len cs) = evictable_total pk P s"
    unfolding cs_def evictable_total_def by simp
qed

text \<open>The ranges a plan takes, in the order it takes them: \<open>(sequence, owner, start, end)\<close>.\<close>

fun picks :: "candidate list \<Rightarrow> int \<Rightarrow> (int \<times> string \<times> int \<times> int) list" where
  "picks [] remaining = []"
| "picks ((q, ord, k, a, b, o1) # cs) remaining =
     (if remaining \<le> 0 then []
      else let b' = min b (a + ceil_div remaining (ow_granule o1) * ow_granule o1)
        in (q, k, a, b') # picks cs (remaining - (b' - a)))"

definition pick_len :: "int \<times> string \<times> int \<times> int \<Rightarrow> int" where
  "pick_len p = (case p of (q, k, a, b) \<Rightarrow> b - a)"

definition add_pick :: "(string, byte_range list) dict \<Rightarrow> int \<times> string \<times> int \<times> int \<Rightarrow> (string, byte_range list) dict" where
  "add_pick plan p = (case p of (q, k, a, b) \<Rightarrow>
     AList.update k ((case map_of plan k of None \<Rightarrow> [] | Some rs \<Rightarrow> rs) @ [(a, b)]) plan)"

definition picked :: "(int \<times> string \<times> int \<times> int) list \<Rightarrow> string \<Rightarrow> (int \<times> int) set" where
  "picked ps k = (\<Union>(q, k', a, b) \<in> set ps. if k' = k then {a..<b} \<times> {q} else {})"

definition planned :: "(string, byte_range list) dict \<Rightarrow> string \<Rightarrow> int set" where
  "planned plan k = (case map_of plan k of None \<Rightarrow> {} | Some rs \<Rightarrow> covered rs)"

lemma pick_len_simp [simp]: "pick_len (q, k, a, b) = b - a"
  by (simp add: pick_len_def)

lemma candidate_len_simp [simp]: "candidate_len (q, ord, k, a, b, o1) = b - a"
  by (simp add: candidate_len_def)

lemma picked_simps:
  "picked [] k = {}"
  "picked ((q, k', a, b) # ps) k = (if k' = k then {a..<b} \<times> {q} else {}) \<union> picked ps k"
  by (auto simp: picked_def)

lemma plan_picks:
  assumes "\<forall>c \<in> set cs. candidate_ok pk P s c"
  shows "plan_evictions cs remaining plan =
    (foldl add_pick plan (picks cs remaining), remaining - sum_list (map pick_len (picks cs remaining)))"
  using assms
proof (induction cs arbitrary: remaining plan)
  case (Cons c cs)
  obtain q ord k a b o1 where c: "c = (q, ord, k, a, b, o1)" by (cases c)
  have "a < b" using Cons.prems c by (simp add: candidate_ok_def)
  then show ?case using Cons c
    by (simp add: backing_unit_prefix_for_bytes_def Let_def add_pick_def algebra_simps)
qed simp

lemma planned_foldl: "planned (foldl add_pick plan ps) k = planned plan k \<union> fst ` picked ps k"
proof (induction ps arbitrary: plan)
  case (Cons p ps)
  obtain q k' a b where p: "p = (q, k', a, b)" by (cases p)
  have "planned (add_pick plan p) k = planned plan k \<union> (if k' = k then {a..<b} else {})"
    by (auto simp: p planned_def add_pick_def covered_simps split: option.splits)
  then show ?case using Cons.IH [of "add_pick plan p"]
    by (simp add: p picked_simps image_Un) blast
qed (simp add: picked_simps)

lemma wf_foldl_pick: "wf_dict plan \<Longrightarrow> wf_dict (foldl add_pick plan ps)"
proof (induction ps arbitrary: plan)
  case (Cons p ps)
  have "wf_dict (add_pick plan p)" using Cons.prems by (cases p) (simp add: add_pick_def)
  then show ?case using Cons.IH by simp
qed simp

lemma candidate_prefix:
  assumes ok: "candidate_ok pk P s (q, ord, k, a, b, o1)" and inv: "residency_off d s" and r: "0 < r"
  defines "b' \<equiv> min b (a + ceil_div r (ow_granule o1) * ow_granule o1)"
  shows "a < b'" "b' \<le> b" "unit_closed (ow_committed o1) (ow_granule o1) {a..<b'}" "b' = b \<or> r \<le> b' - a"
    "b' - a < r + ow_granule o1"
proof -
  have c: "map_of (rm_allocations s) k = Some o1" "a < b"
    "is_backing_unit_boundary a (ow_committed o1) (ow_granule o1)"
    "is_backing_unit_boundary b (ow_committed o1) (ow_granule o1)"
    using ok by (auto simp: candidate_ok_def)
  have g: "0 < ow_granule o1" using residency_offD(5) [OF inv c(1)] by (simp add: owner_inv_def)
  let ?n = "ceil_div r (ow_granule o1) * ow_granule o1"
  have n: "r \<le> ?n" "?n < r + ow_granule o1"
    using g r ceil_div_round [OF g r] round_up_ge [OF g] round_up_less [OF g] by auto
  show "a < b'" using c(2) n r by (simp add: b'_def)
  show "b' \<le> b" "b' = b \<or> r \<le> b' - a" "b' - a < r + ow_granule o1" using n by (auto simp: b'_def)
  have "is_backing_unit_boundary b' (ow_committed o1) (ow_granule o1)"
  proof (cases "b \<le> a + ?n")
    case False
    have "a mod ow_granule o1 = 0" using c(2,3,4) by (auto simp: is_backing_unit_boundary_def)
    then have "(a + ?n) mod ow_granule o1 = 0" by simp
    then show ?thesis using False c(2,3,4) n r by (auto simp: b'_def is_backing_unit_boundary_def)
  qed (use c in \<open>simp add: b'_def\<close>)
  then show "unit_closed (ow_committed o1) (ow_granule o1) {a..<b'}"
    using boundary_closed c(3) g by blast
qed

text \<open>Every pick lies in evictable bytes on unit boundaries.\<close>

lemma picks_ok:
  assumes inv: "residency_off d s" and ok: "\<forall>c \<in> set cs. candidate_ok pk P s c"
    and p: "(q, k, a, b) \<in> set (picks cs r)"
  shows "\<exists>o1. map_of (rm_allocations s) k = Some o1 \<and> evictable_now o1 \<and>
    {a..<b} \<times> {q} \<subseteq> evictable_stamps k o1 pk P s \<and> unit_closed (ow_committed o1) (ow_granule o1) {a..<b}"
  using ok p
proof (induction cs arbitrary: r)
  case (Cons c cs)
  obtain q' ord k' a' b' o1 where c: "c = (q', ord, k', a', b', o1)" by (cases c)
  have r: "0 < r" using Cons.prems(2) c by (auto split: if_splits)
  let ?b = "min b' (a' + ceil_div r (ow_granule o1) * ow_granule o1)"
  have okc: "candidate_ok pk P s (q', ord, k', a', b', o1)" using Cons.prems(1) c by simp
  note pre = candidate_prefix [OF okc inv r]
  show ?case
  proof (cases "(q, k, a, b) = (q', k', a', ?b)")
    case True
    have "{a'..<?b} \<times> {q'} \<subseteq> {a'..<b'} \<times> {q'}" using pre(2) by auto
    also have "\<dots> \<subseteq> evictable_stamps k' o1 pk P s" using okc by (simp add: candidate_ok_def)
    finally show ?thesis using True okc pre(3) by (auto simp: candidate_ok_def)
  next
    case False
    then have "(q, k, a, b) \<in> set (picks cs (r - (?b - a')))" using Cons.prems(2) c r by (auto simp: Let_def)
    then show ?thesis using Cons.IH Cons.prems(1) by simp
  qed
qed simp

text \<open>
  Candidates are taken in order: once a byte is passed over, only candidates with a key at least
  as large follow.
\<close>

lemma picks_lru:
  assumes inv: "residency_off d s"
    and "sorted (map fst cs)" "\<forall>c \<in> set cs. candidate_ok pk P s c" "(q, k, a, b) \<in> set (picks cs r)"
    "(q', ord', k', a', b', o') \<in> set cs" "a' \<le> x" "x < b'" "(x, q') \<notin> picked (picks cs r) k'"
  shows "q \<le> q'"
  using assms(2-)
proof (induction cs arbitrary: r)
  case (Cons c cs)
  obtain qc oc kc ac bc ow where c: "c = (qc, oc, kc, ac, bc, ow)" by (cases c)
  have r: "0 < r" using Cons.prems(3) c by (auto split: if_splits)
  let ?b = "min bc (ac + ceil_div r (ow_granule ow) * ow_granule ow)"
  have pk: "picks (c # cs) r = (qc, kc, ac, ?b) # picks cs (r - (?b - ac))"
    using r c by (simp add: Let_def)
  have okc: "candidate_ok pk P s (qc, oc, kc, ac, bc, ow)" using Cons.prems(2) c by simp
  have le: "\<forall>d \<in> set cs. qc \<le> fst d" using Cons.prems(1) c by auto
  show ?case
  proof (cases "(q, k, a, b) = (qc, kc, ac, ?b)")
    case True
    then show ?thesis using Cons.prems(4) c le by fastforce
  next
    case False
    then have later: "(q, k, a, b) \<in> set (picks cs (r - (?b - ac)))" using Cons.prems(3) pk by auto
    then have "0 < r - (?b - ac)"
      by (cases cs) (auto split: if_splits)
    then have full: "?b = bc" using candidate_prefix(4) [OF okc inv r] by linarith
    have "(q', ord', k', a', b', o') \<noteq> c"
    proof
      assume "(q', ord', k', a', b', o') = c"
      then have "(x, q') \<in> picked (picks (c # cs) r) k'"
        using c pk full Cons.prems(5,6) by (auto simp: picked_simps)
      then show False using Cons.prems(7) by blast
    qed
    then have "(q', ord', k', a', b', o') \<in> set cs" using Cons.prems(4) by auto
    moreover have "(x, q') \<notin> picked (picks cs (r - (?b - ac))) k'"
      using Cons.prems(7) unfolding pk by (simp add: picked_simps)
    ultimately show ?thesis using Cons.IH [of "r - (?b - ac)"] Cons.prems(1,2,5,6) later by simp
  qed
qed simp

lemma picks_len_nonneg:
  assumes "residency_off d s" "\<forall>c \<in> set cs. candidate_ok pk P s c"
  shows "0 \<le> sum_list (map pick_len (picks cs r))"
  using assms(2)
proof (induction cs arbitrary: r)
  case (Cons c cs)
  obtain qc oc kc ac bc ow where c: "c = (qc, oc, kc, ac, bc, ow)" by (cases c)
  then have okc: "candidate_ok pk P s (qc, oc, kc, ac, bc, ow)" using Cons.prems by simp
  have IH: "0 \<le> sum_list (map pick_len (picks cs r'))" for r' using Cons.IH Cons.prems by simp
  show ?case
  proof (cases "0 < r")
    case True
    let ?b = "min bc (ac + ceil_div r (ow_granule ow) * ow_granule ow)"
    have pk: "picks (c # cs) r = (qc, kc, ac, ?b) # picks cs (r - (?b - ac))"
      using True c by (simp add: Let_def)
    show ?thesis using IH [of "r - (?b - ac)"] candidate_prefix(1) [OF okc assms(1) True]
      unfolding pk by simp
  qed (simp add: c)
qed simp

text \<open>If the plan falls short, it took every candidate whole.\<close>

lemma picks_short:
  assumes inv: "residency_off d s" and "\<forall>c \<in> set cs. candidate_ok pk P s c"
    "sum_list (map pick_len (picks cs r)) < r"
  shows "sum_list (map pick_len (picks cs r)) = sum_list (map candidate_len cs)"
  using assms(2-)
proof (induction cs arbitrary: r)
  case (Cons c cs)
  obtain qc oc kc ac bc ow where c: "c = (qc, oc, kc, ac, bc, ow)" by (cases c)
  then have okc: "candidate_ok pk P s (qc, oc, kc, ac, bc, ow)" using Cons.prems by simp
  let ?b = "min bc (ac + ceil_div r (ow_granule ow) * ow_granule ow)"
  have r: "0 < r"
  proof (rule ccontr)
    assume "\<not> 0 < r"
    then show False using Cons.prems(2) c by simp
  qed
  have pk: "picks (c # cs) r = (qc, kc, ac, ?b) # picks cs (r - (?b - ac))"
    using r c by (simp add: Let_def)
  have short: "sum_list (map pick_len (picks cs (r - (?b - ac)))) < r - (?b - ac)"
    using Cons.prems(2) unfolding pk by simp
  have IH: "sum_list (map pick_len (picks cs (r - (?b - ac)))) = sum_list (map candidate_len cs)"
    using Cons.IH [OF _ short] Cons.prems(1) by simp
  have "0 \<le> sum_list (map pick_len (picks cs (r - (?b - ac))))"
    using picks_len_nonneg [OF inv, of cs pk P] Cons.prems(1) by simp
  then have "?b = bc" using short candidate_prefix(4) [OF okc inv r] by linarith
  then show ?case using IH unfolding pk by (simp add: c)
qed simp

text \<open>A plan that covers the need overshoots it by less than one backing unit.\<close>

lemma picks_overshoot:
  assumes inv: "residency_off d s" and "\<forall>c \<in> set cs. candidate_ok pk P s c"
    "\<forall>k o1. map_of (rm_allocations s) k = Some o1 \<longrightarrow> ow_granule o1 \<le> G" "0 < r"
  shows "sum_list (map pick_len (picks cs r)) < r + max G 0"
  using assms(2-)
proof (induction cs arbitrary: r)
  case (Cons c cs)
  obtain qc oc kc ac bc ow where c: "c = (qc, oc, kc, ac, bc, ow)" by (cases c)
  then have okc: "candidate_ok pk P s (qc, oc, kc, ac, bc, ow)" using Cons.prems by simp
  let ?b = "min bc (ac + ceil_div r (ow_granule ow) * ow_granule ow)"
  let ?t = "picks cs (r - (?b - ac))"
  have pk: "picks (c # cs) r = (qc, kc, ac, ?b) # ?t"
    using Cons.prems(3) c by (simp add: Let_def)
  have sum: "sum_list (map pick_len (picks (c # cs) r)) = (?b - ac) + sum_list (map pick_len ?t)"
    unfolding pk by simp
  have g: "ow_granule ow \<le> G" using okc Cons.prems(2) by (auto simp: candidate_ok_def)
  show ?case
  proof (cases "0 < r - (?b - ac)")
    case True
    have "sum_list (map pick_len ?t) < (r - (?b - ac)) + max G 0"
      using Cons.IH [OF _ _ True] Cons.prems(1,2) by simp
    then show ?thesis unfolding sum by linarith
  next
    case False
    then have "?t = []" by (cases cs) (auto split: prod.splits)
    then show ?thesis using candidate_prefix(5) [OF okc inv Cons.prems(3)] g unfolding sum by simp
  qed
qed simp

section \<open>Making room\<close>

definition plan_ok :: "(string, byte_range list) dict \<Rightarrow> manager \<Rightarrow> bool" where
  "plan_ok plan s \<longleftrightarrow> wf_dict plan \<and> (\<forall>k rs. map_of plan k = Some rs \<longrightarrow>
     (\<exists>o1. map_of (rm_allocations s) k = Some o1 \<and> ow_evictable o1 \<and> covered rs \<subseteq> covered (ow_resident o1) \<and>
        unit_closed (ow_committed o1) (ow_granule o1) (covered rs) \<and> unleased k (covered rs) s))"

lemma evicts_other:
  assumes "evicts E ms s s'" "E k = {}" "map_of (rm_allocations s) k = Some o1"
  obtains o2 where "map_of (rm_allocations s') k = Some o2" "shrunk {} o1 o2"
  using assms unfolding evicts_def by metis

lemma plan_ok_step:
  assumes ok: "plan_ok ((k, rs) # plan) s" and ev: "evicts (\<lambda>k'. if k' = k then X else {}) ms s s'"
  shows "plan_ok plan s'"
  unfolding plan_ok_def
proof (intro conjI allI impI)
  show "wf_dict plan" using ok by (simp add: plan_ok_def wf_dict_Cons)
  fix k' rs' assume m: "map_of plan k' = Some rs'"
  have ne: "k' \<noteq> k"
  proof
    assume "k' = k"
    then have "k \<in> fst ` set plan" using m by (force dest: map_of_SomeD)
    then show False using ok by (simp add: plan_ok_def wf_dict_Cons)
  qed
  then have "map_of ((k, rs) # plan) k' = Some rs'" using m by simp
  then obtain o1 where o1: "map_of (rm_allocations s) k' = Some o1" "ow_evictable o1"
      "covered rs' \<subseteq> covered (ow_resident o1)" "unit_closed (ow_committed o1) (ow_granule o1) (covered rs')"
      "unleased k' (covered rs') s"
    using ok unfolding plan_ok_def by metis
  obtain o2 where o2: "map_of (rm_allocations s') k' = Some o2" "shrunk {} o1 o2"
    using evicts_other [OF ev _ o1(1)] ne by auto
  have "rm_leases s' = rm_leases s" using ev by (simp add: evicts_def same_registry_def)
  then have "unleased k' (covered rs') s'" using o1(5) by (simp add: unleased_def)
  then show "\<exists>o1. map_of (rm_allocations s') k' = Some o1 \<and> ow_evictable o1 \<and>
      covered rs' \<subseteq> covered (ow_resident o1) \<and> unit_closed (ow_committed o1) (ow_granule o1) (covered rs') \<and>
      unleased k' (covered rs') s'"
    using o1 o2(1) shrunk_fields [OF o2(2)] by auto
qed

lemma moved_all: "\<forall>m \<in> set ms. mg_allocation m = k \<Longrightarrow> moved f k ms = sum_list (map f ms)"
  by (induction ms) auto

definition plan_bytes :: "(string, byte_range list) dict \<Rightarrow> int" where
  "plan_bytes plan = sum_list (map (\<lambda>(k, rs). int (card (covered rs))) plan)"

lemma evict_planned_ok:
  assumes "residency_inv s" "plan_ok plan s"
  shows "\<exists>ms s'. evict_planned plan s = (Inr (), s') \<and> residency_inv s' \<and> evicts (planned plan) ms s s' \<and>
    sum_list (map mg_page_out ms) = plan_bytes plan"
  using assms
proof (induction plan arbitrary: s)
  case Nil
  have "planned [] = (\<lambda>k. {})" by (auto simp: planned_def)
  then have "evicts (planned []) [] s s" using evicts_refl by metis
  then show ?case using Nil.prems by (auto simp: plan_bytes_def intro!: exI [of _ "[]"])
next
  case (Cons p plan)
  obtain k rs where p: "p = (k, rs)" by (cases p)
  then have "map_of (p # plan) k = Some rs" by simp
  then obtain o1 where o1: "map_of (rm_allocations s) k = Some o1" "ow_evictable o1"
      "covered rs \<subseteq> covered (ow_resident o1)" "unit_closed (ow_committed o1) (ow_granule o1) (covered rs)"
      "unleased k (covered rs) s"
    using Cons.prems(2) unfolding plan_ok_def by metis
  obtain ms1 s1 where a: "evict_owner_ranges o1 rs s = (Inr (), s1)" "residency_inv s1"
    "evicts (\<lambda>k'. if k' = k then covered rs else {}) ms1 s s1" "\<forall>m \<in> set ms1. mg_allocation m = k"
    by (rule evict_owner_ranges_ok [OF Cons.prems(1) o1(1,2) refl o1(3,4,5)]) blast
  have "plan_ok plan s1" using plan_ok_step a(3) Cons.prems(2) p by blast
  from Cons.IH [OF a(2) this] obtain ms2 s2 where b: "evict_planned plan s1 = (Inr (), s2)" "residency_inv s2"
    "evicts (planned plan) ms2 s1 s2" "sum_list (map mg_page_out ms2) = plan_bytes plan" by blast
  have "moved mg_page_out k ms1 = int (card (covered rs))" using a(3) o1(1) by (simp add: evicts_def)
  then have bytes: "sum_list (map mg_page_out (ms1 @ ms2)) = plan_bytes (p # plan)"
    using moved_all [OF a(4)] b(4) p by (simp add: plan_bytes_def)
  have "k \<notin> fst ` set plan" using Cons.prems(2) p by (simp add: plan_ok_def wf_dict_Cons)
  then have "map_of plan k = None" by (simp add: map_of_eq_None_iff)
  then have "(\<lambda>k'. (if k' = k then covered rs else {}) \<union> planned plan k') = planned (p # plan)"
    by (intro ext) (auto simp: planned_def p)
  then have "evicts (planned (p # plan)) (ms1 @ ms2) s s2" using evicts_trans [OF a(3) b(3)] by metis
  moreover have "evict_planned (p # plan) s = (Inr (), s2)" using p o1(1) a(1) b(1) by simp
  ultimately show ?case using b(2) bytes by blast
qed

definition room_needed :: "int \<Rightarrow> manager \<Rightarrow> int" where
  "room_needed additional s = max 0 (pl_resident (rm_pool s) + additional - pl_capacity (rm_pool s))"

text \<open>
  Room is made completely or not at all: either the evictable bytes are too few and nothing
  changes, or enough evictable bytes leave, the least recently used first.
\<close>

definition lru_evicted :: "string option \<Rightarrow> byte_range list \<Rightarrow> manager \<Rightarrow> (string \<Rightarrow> int set) \<Rightarrow> bool" where
  "lru_evicted pk P s E \<longleftrightarrow> (\<forall>k o1 x q k' o' x' q'.
     map_of (rm_allocations s) k = Some o1 \<and> (x, q) \<in> stamped (ow_recency o1) \<and> x \<in> E k \<and>
     map_of (rm_allocations s) k' = Some o' \<and> (x', q') \<in> evictable_stamps k' o' pk P s \<and> x' \<notin> E k' \<longrightarrow> q \<le> q')"

lemma stamp_unique:
  assumes "disjoint_recency rr" "(x, q) \<in> stamped rr" "(x, q') \<in> stamped rr"
  shows "q = q'"
proof -
  obtain s e where a: "(s, e, q) \<in> set rr" "s \<le> x" "x < e" using assms(2) unfolding in_stamped by blast
  obtain s' e' where b: "(s', e', q') \<in> set rr" "s' \<le> x" "x < e'" using assms(3) unfolding in_stamped by blast
  show ?thesis using disjoint_recencyD(2) [OF assms(1) a(1) b(1)] a b by auto
qed

lemma sorted_candidates: "sorted (map fst (sort_key candidate_key cs))"
proof -
  have "sorted (map candidate_key (sort_key candidate_key cs))" by simp
  moreover have "candidate_key c \<le> candidate_key d \<Longrightarrow> fst c \<le> fst d" for c d
    by (cases c; cases d) (auto simp: candidate_key_def less_eq_prod_def)
  ultimately show ?thesis unfolding sorted_map by (metis (no_types, lifting) sorted_wrt_mono_rel)
qed

text \<open>The picks are disjoint, so their lengths count bytes.\<close>

definition cand_bytes :: "candidate \<Rightarrow> (string \<times> int) set" where
  "cand_bytes c = (case c of (q, ord, k, a, b, o1) \<Rightarrow> {k} \<times> {a..<b})"

definition pick_bytes :: "int \<times> string \<times> int \<times> int \<Rightarrow> (string \<times> int) set" where
  "pick_bytes p = (case p of (q, k, a, b) \<Rightarrow> {k} \<times> {a..<b})"

lemma byte_sets_simps [simp]:
  "cand_bytes (q, ord, k, a, b, o1) = {k} \<times> {a..<b}" "pick_bytes (q, k, a, b) = {k} \<times> {a..<b}"
  by (simp_all add: cand_bytes_def pick_bytes_def)

lemma finite_cand_bytes [simp]: "finite (cand_bytes c)"
  by (cases c) simp

lemma cand_bytes_card: "candidate_ok pk P s c \<Longrightarrow> int (card (cand_bytes c)) = candidate_len c"
  by (cases c) (simp add: candidate_ok_def card_cartesian_product)

lemma picks_sub: "residency_off d s \<Longrightarrow> \<forall>c \<in> set cs. candidate_ok pk P s c \<Longrightarrow>
    (\<Union>p \<in> set (picks cs r). pick_bytes p) \<subseteq> (\<Union>c \<in> set cs. cand_bytes c)"
proof (induction cs arbitrary: r)
  case (Cons c cs)
  obtain q ord k a b o1 where c: "c = (q, ord, k, a, b, o1)" by (cases c)
  have "(\<Union>p \<in> set (picks cs r'). pick_bytes p) \<subseteq> (\<Union>c \<in> set cs. cand_bytes c)" for r'
    using Cons.IH [OF Cons.prems(1)] Cons.prems(2) by simp
  then show ?case unfolding c by (auto simp: Let_def subset_iff)
qed simp

lemma cand_bytes_le:
  "\<forall>c \<in> set cs. candidate_ok pk P s c \<Longrightarrow>
    int (card (\<Union>c \<in> set cs. cand_bytes c)) \<le> sum_list (map candidate_len cs)"
proof (induction cs)
  case (Cons x xs)
  have "card (cand_bytes x \<union> (\<Union>c \<in> set xs. cand_bytes c)) \<le> card (cand_bytes x) + card (\<Union>c \<in> set xs. cand_bytes c)"
    by (rule card_Un_le)
  moreover have "int (card (cand_bytes x)) = candidate_len x" using Cons.prems by (intro cand_bytes_card) auto
  ultimately show ?case using Cons by simp
qed simp

lemma picks_count:
  assumes inv: "residency_off d s" and "\<forall>c \<in> set cs. candidate_ok pk P s c"
    "sum_list (map candidate_len cs) = int (card (\<Union>c \<in> set cs. cand_bytes c))"
  shows "sum_list (map pick_len (picks cs r)) = int (card (\<Union>p \<in> set (picks cs r). pick_bytes p))"
  using assms(2-)
proof (induction cs arbitrary: r)
  case (Cons c cs)
  obtain q ord k a b o1 where c: "c = (q, ord, k, a, b, o1)" by (cases c)
  let ?U = "\<Union>c \<in> set cs. cand_bytes c"
  have okc: "candidate_ok pk P s (q, ord, k, a, b, o1)" and oks: "\<forall>c \<in> set cs. candidate_ok pk P s c"
    using Cons.prems(1) c by auto
  have "card (cand_bytes c) + card ?U = card (cand_bytes c \<union> ?U) + card (cand_bytes c \<inter> ?U)"
    by (rule card_Un_Int) auto
  moreover have "candidate_len c + sum_list (map candidate_len cs) = int (card (cand_bytes c \<union> ?U))"
    using Cons.prems(2) by simp
  moreover have "int (card (cand_bytes c)) = candidate_len c" using Cons.prems(1) by (intro cand_bytes_card) auto
  moreover have "int (card ?U) \<le> sum_list (map candidate_len cs)" by (rule cand_bytes_le [OF oks])
  ultimately have dj: "card (cand_bytes c \<inter> ?U) = 0" and eq: "sum_list (map candidate_len cs) = int (card ?U)"
    by linarith+
  have disjoint: "cand_bytes c \<inter> ?U = {}" using dj by simp
  show ?case
  proof (cases "0 < r")
    case True
    let ?b = "min b (a + ceil_div r (ow_granule o1) * ow_granule o1)"
    let ?t = "picks cs (r - (?b - a))"
    have pk: "picks (c # cs) r = (q, k, a, ?b) # ?t" using True c by (simp add: Let_def)
    note pre = candidate_prefix [OF okc inv True]
    have "{k} \<times> {a..<?b} \<subseteq> cand_bytes c" using pre(2) c by auto
    moreover have "(\<Union>p \<in> set ?t. pick_bytes p) \<subseteq> ?U" by (rule picks_sub [OF inv oks])
    ultimately have "({k} \<times> {a..<?b}) \<inter> (\<Union>p \<in> set ?t. pick_bytes p) = {}" using disjoint by blast
    moreover have "finite (\<Union>p \<in> set ?t. pick_bytes p)" by (auto simp: pick_bytes_def)
    ultimately have "card (({k} \<times> {a..<?b}) \<union> (\<Union>p \<in> set ?t. pick_bytes p)) =
        card ({k} \<times> {a..<?b}) + card (\<Union>p \<in> set ?t. pick_bytes p)"
      by (intro card_Un_disjoint) auto
    then show ?thesis using Cons.IH [OF oks eq, of "r - (?b - a)"] pre(1) unfolding pk
      by (simp add: card_cartesian_product)
  qed (simp add: c)
qed simp

lemma all_candidates_bytes:
  assumes inv: "residency_off d s" and P: "protects_units pk P s"
  shows "sum_list (map candidate_len (all_candidates pk P s (rm_allocations s))) =
    int (card (\<Union>c \<in> set (all_candidates pk P s (rm_allocations s)). cand_bytes c))"
proof -
  have in_iff: "(k, o1) \<in> set (rm_allocations s) \<longleftrightarrow> map_of (rm_allocations s) k = Some o1" for k o1
    using wf_dict_in_iff [OF residency_offD(1) [OF inv]] .
  have "wf_dict owners \<Longrightarrow> set owners \<subseteq> set (rm_allocations s) \<Longrightarrow>
      sum_list (map candidate_len (all_candidates pk P s owners)) =
        int (card (\<Union>c \<in> set (all_candidates pk P s owners). cand_bytes c)) \<and>
      fst ` (\<Union>c \<in> set (all_candidates pk P s owners). cand_bytes c) \<subseteq> fst ` set owners" for owners
  proof (induction owners)
    case (Cons p owners)
    obtain k o1 where p: "p = (k, o1)" by (cases p)
    have o1: "map_of (rm_allocations s) k = Some o1" using Cons.prems(2) in_iff p by auto
    have id: "ow_id o1 = k" using residency_offD(5) [OF inv o1] by (simp add: owner_inv_def)
    let ?R = "candidate_recency_ranges o1 pk P s" and ?A = "all_candidates pk P s owners"
    have dj: "disjoint_recency ?R"
      using candidate_recency_correct(1) [OF inv o1] P o1 by (auto simp: protects_units_def)
    have bytes: "(\<Union>c \<in> set (map (candidate_of o1) rr). cand_bytes c) = {k} \<times> fst ` stamped rr" for rr
    proof (induction rr)
      case (Cons r rr)
      obtain a b q where r: "r = (a, b, q)" by (cases r)
      have "fst ` stamped (r # rr) = {a..<b} \<union> fst ` stamped rr" by (auto simp: r stamped_simps image_Un)
      then show ?case using Cons by (simp add: r candidate_of_def id) blast
    qed (simp add: stamped_simps)
    have "card (fst ` stamped ?R) = card (stamped ?R)"
      using stamp_unique [OF dj] by (intro card_image inj_onI) auto
    moreover have len: "candidate_len \<circ> candidate_of o1 = (\<lambda>(a, b, q). b - a)"
      by (auto simp: candidate_len_def candidate_of_def)
    ultimately have own: "sum_list (map candidate_len (map (candidate_of o1) ?R)) = int (card ({k} \<times> fst ` stamped ?R))"
      using stamped_card [OF dj] by (simp add: card_cartesian_product len)
    have all: "all_candidates pk P s (p # owners) = map (candidate_of o1) ?R @ ?A"
      by (simp add: all_candidates_def p)
    have IH: "sum_list (map candidate_len ?A) = int (card (\<Union>c \<in> set ?A. cand_bytes c))"
      "fst ` (\<Union>c \<in> set ?A. cand_bytes c) \<subseteq> fst ` set owners"
      using Cons.IH Cons.prems p by (auto simp: wf_dict_Cons)
    have "k \<notin> fst ` set owners" using Cons.prems(1) p by (simp add: wf_dict_Cons)
    then have "({k} \<times> fst ` stamped ?R) \<inter> (\<Union>c \<in> set ?A. cand_bytes c) = {}" using IH(2) by force
    then have "card (({k} \<times> fst ` stamped ?R) \<union> (\<Union>c \<in> set ?A. cand_bytes c)) =
        card ({k} \<times> fst ` stamped ?R) + card (\<Union>c \<in> set ?A. cand_bytes c)"
      by (intro card_Un_disjoint) auto
    moreover have un: "(\<Union>c \<in> set (all_candidates pk P s (p # owners)). cand_bytes c) =
        ({k} \<times> fst ` stamped ?R) \<union> (\<Union>c \<in> set ?A. cand_bytes c)"
      unfolding all using bytes [of ?R] by simp
    ultimately show ?case using own IH p unfolding un unfolding all by auto
  qed (simp add: all_candidates_def)
  from this [OF residency_offD(1) [OF inv]] show ?thesis by simp
qed

lemma picked_bytes: "(\<Union>k. {k} \<times> fst ` picked ps k) = (\<Union>p \<in> set ps. pick_bytes p)"
proof (induction ps)
  case (Cons p ps)
  obtain q k' a b where p: "p = (q, k', a, b)" by (cases p)
  have "fst ` picked (p # ps) k = (if k' = k then {a..<b} else {}) \<union> fst ` picked ps k" for k
    by (simp add: p picked_simps image_Un)
  then have "(\<Union>k. {k} \<times> fst ` picked (p # ps) k) = ({k'} \<times> {a..<b}) \<union> (\<Union>k. {k} \<times> fst ` picked ps k)"
    by (auto split: if_splits)
  then show ?case using Cons by (simp add: p)
qed (simp add: picked_simps)

lemma plan_bytes_picks:
  assumes "wf_dict plan"
  shows "plan_bytes plan = int (card (\<Union>k. {k} \<times> planned plan k))"
  using assms
proof (induction plan)
  case (Cons p plan)
  obtain k rs where p: "p = (k, rs)" by (cases p)
  have "map_of plan k = None" "wf_dict plan" using Cons.prems p by (auto simp: wf_dict_Cons map_of_eq_None_iff)
  then have n: "planned plan k = {}" by (simp add: planned_def)
  have fin: "finite (\<Union>k. {k} \<times> planned plan k)"
  proof (rule finite_subset)
    show "(\<Union>k. {k} \<times> planned plan k) \<subseteq> (\<Union>(k, rs) \<in> set plan. {k} \<times> covered rs)"
      by (force simp: planned_def split: option.splits dest: map_of_SomeD)
  qed auto
  have "planned (p # plan) k' = (if k' = k then covered rs else planned plan k')" for k'
    by (simp add: p planned_def)
  then have "(\<Union>k. {k} \<times> planned (p # plan) k) = ({k} \<times> covered rs) \<union> (\<Union>k. {k} \<times> planned plan k)"
    using n by (auto split: if_splits)
  moreover have "card (({k} \<times> covered rs) \<union> (\<Union>k. {k} \<times> planned plan k)) =
      card ({k} \<times> covered rs) + card (\<Union>k. {k} \<times> planned plan k)"
    using n fin by (intro card_Un_disjoint) auto
  ultimately show ?case using Cons.IH [OF \<open>wf_dict plan\<close>] p
    by (simp add: plan_bytes_def card_cartesian_product)
qed (simp add: plan_bytes_def planned_def)

lemma plan_keys: "map_of (foldl add_pick plan ps) k = Some rs \<Longrightarrow>
    map_of plan k \<noteq> None \<or> (\<exists>q a b. (q, k, a, b) \<in> set ps)"
proof (induction ps arbitrary: plan)
  case (Cons p ps)
  obtain q k' a b where p: "p = (q, k', a, b)" by (cases p)
  show ?case using Cons.IH [of "add_pick plan p"] Cons.prems
    by (cases "k = k'") (auto simp: p add_pick_def)
qed simp

lemma evictable_stamps_sub:
  "evictable_stamps k o1 pk P s \<subseteq> stamped (ow_recency o1)"
  "(x, q) \<in> evictable_stamps k o1 pk P s \<Longrightarrow> x \<notin> protected_bytes k pk P s \<and> evictable_now o1"
  by (auto simp: evictable_stamps_def split: if_splits)

lemma unleased_protected: "X \<inter> protected_bytes k pk P s = {} \<Longrightarrow> unleased k X s"
  unfolding unleased_def protected_bytes_def by force

lemma plan_ok_picks:
  fixes r :: int
  assumes inv: "residency_off d s" and P: "protects_units pk P s" and ok: "\<forall>c \<in> set cs. candidate_ok pk P s c"
  defines "plan \<equiv> foldl add_pick [] (picks cs r)"
  shows "plan_ok plan s"
    and "map_of (rm_allocations s) k = Some o1 \<Longrightarrow> picked (picks cs r) k \<subseteq> evictable_stamps k o1 pk P s"
proof -
  show sub: "picked (picks cs r) k \<subseteq> evictable_stamps k o1 pk P s"
    if "map_of (rm_allocations s) k = Some o1" for k o1
  proof
    fix y assume "y \<in> picked (picks cs r) k"
    then obtain q a b where "(q, k, a, b) \<in> set (picks cs r)" "y \<in> {a..<b} \<times> {q}"
      by (auto simp: picked_def split: if_splits)
    then show "y \<in> evictable_stamps k o1 pk P s" using picks_ok [OF inv ok] that by fastforce
  qed
  have pl: "planned plan k = fst ` picked (picks cs r) k" for k
    using planned_foldl [of "[]"] by (simp add: planned_def plan_def)
  have "\<exists>o1. map_of (rm_allocations s) k = Some o1 \<and> ow_evictable o1 \<and> covered rs \<subseteq> covered (ow_resident o1) \<and>
        unit_closed (ow_committed o1) (ow_granule o1) (covered rs) \<and> unleased k (covered rs) s"
    if rs: "map_of plan k = Some rs" for k rs
  proof -
    have cov: "covered rs = fst ` picked (picks cs r) k" using pl [of k] rs by (simp add: planned_def)
    obtain q a b where p: "(q, k, a, b) \<in> set (picks cs r)"
      using plan_keys [of "[]" "picks cs r" k rs] rs by (auto simp: plan_def)
    from picks_ok [OF inv ok p] obtain o1 where o1: "map_of (rm_allocations s) k = Some o1" "evictable_now o1"
      by blast
    have oi: "owner_inv (pl_component (rm_pool s)) (rm_access_seq s) k o1" using residency_offD(5) [OF inv o1(1)] .
    have "fst ` picked (picks cs r) k = (\<Union>p \<in> {p \<in> set (picks cs r). fst (snd p) = k}. {fst (snd (snd p))..<snd (snd (snd p))})"
      by (force simp: picked_def split: if_splits)
    moreover have "unit_closed (ow_committed o1) (ow_granule o1) {fst (snd (snd p))..<snd (snd (snd p))}"
      if "p \<in> {p \<in> set (picks cs r). fst (snd p) = k}" for p
      using picks_ok [OF inv ok, of "fst p" k "fst (snd (snd p))" "snd (snd (snd p))"] that o1(1) by auto
    then have "unit_closed (ow_committed o1) (ow_granule o1)
        (\<Union>p \<in> {p \<in> set (picks cs r). fst (snd p) = k}. {fst (snd (snd p))..<snd (snd (snd p))})"
      by (rule unit_closed_UN)
    ultimately have "unit_closed (ow_committed o1) (ow_granule o1) (covered rs)"
      unfolding cov by simp
    moreover have "covered rs \<subseteq> covered (ow_resident o1)"
    proof -
      have "covered rs \<subseteq> fst ` stamped (ow_recency o1)"
        unfolding cov using sub [OF o1(1)] evictable_stamps_sub(1) by (meson image_mono subset_trans)
      then show ?thesis using oi by (simp add: owner_inv_def)
    qed
    moreover have "unleased k (covered rs) s"
    proof (rule unleased_protected [where pk = pk and P = P])
      show "covered rs \<inter> protected_bytes k pk P s = {}"
        unfolding cov using sub [OF o1(1)] evictable_stamps_sub(2) by fastforce
    qed
    ultimately show ?thesis using o1 by (auto simp: evictable_now_def)
  qed
  then show "plan_ok plan s" unfolding plan_ok_def plan_def by (simp add: wf_foldl_pick)
qed

lemma make_room_ok:
  assumes inv: "residency_inv s" and n: "0 \<le> additional" and P: "protects_units pk P s"
  shows "(make_room additional pk P s = (Inl (Capacity_Exceeded ''not enough additional resident bytes can be made available''), s)
      \<and> evictable_total pk P s < room_needed additional s) \<or>
    (\<exists>E ms s'. make_room additional pk P s = (Inr (), s') \<and> residency_inv s' \<and> evicts E ms s s' \<and>
      (\<forall>k o1. map_of (rm_allocations s) k = Some o1 \<longrightarrow> E k \<subseteq> fst ` evictable_stamps k o1 pk P s) \<and>
      lru_evicted pk P s E \<and> room_needed additional s \<le> sum_list (map mg_page_out ms) \<and>
      (room_needed additional s = 0 \<longrightarrow> s' = s))"
proof (cases "room_needed additional s = 0")
  case True
  then have "make_room additional pk P s = (Inr (), s)" using n by (simp add: make_room_def room_needed_def Let_def)
  moreover have "lru_evicted pk P s (\<lambda>k. {})" by (simp add: lru_evicted_def)
  ultimately show ?thesis using inv evicts_refl True
    by (intro disjI2 exI [of _ "\<lambda>k. {}"] exI [of _ "[]"] exI [of _ s]) simp
next
  case False
  let ?need = "room_needed additional s"
  have need: "0 < ?need" using False by (simp add: room_needed_def)
  define cs where "cs = sort_key candidate_key (all_candidates pk P s (rm_allocations s))"
  note ac = all_candidates_correct [OF inv P]
  have okc: "\<forall>c \<in> set cs. candidate_ok pk P s c" using ac(1) by (simp add: cs_def)
  let ?ps = "picks cs ?need"
  let ?plan = "foldl add_pick [] ?ps"
  have run: "make_room additional pk P s =
     (if 0 < ?need - sum_list (map pick_len ?ps)
      then (Inl (Capacity_Exceeded ''not enough additional resident bytes can be made available''), s)
      else evict_planned ?plan s)"
    using n need gather_ok [OF inv P] plan_picks [OF okc, of ?need "[]"]
    by (simp add: make_room_def room_needed_def [symmetric] cs_def [symmetric] Let_def)
  show ?thesis
  proof (cases "sum_list (map pick_len ?ps) < ?need")
    case True
    then have "sum_list (map pick_len ?ps) = sum_list (map candidate_len cs)"
      using picks_short [OF inv okc] by blast
    also have "\<dots> = evictable_total pk P s"
      unfolding ac(3) [symmetric] cs_def by (simp only: sum_mset_sum_list [symmetric] mset_map mset_sort)
    finally have "evictable_total pk P s < ?need" using True by simp
    then show ?thesis using run True by simp
  next
    case False
    have pl: "planned ?plan k = fst ` picked ?ps k" for k
      using planned_foldl [of "[]"] by (simp add: planned_def)
    have pok: "plan_ok ?plan s" by (rule plan_ok_picks(1) [OF inv P okc])
    have sub: "\<And>k o1. map_of (rm_allocations s) k = Some o1 \<Longrightarrow>
        planned ?plan k \<subseteq> fst ` evictable_stamps k o1 pk P s"
      unfolding pl by (rule image_mono, rule plan_ok_picks(2) [OF inv P okc])
    obtain ms s' where e: "evict_planned ?plan s = (Inr (), s')" "residency_inv s'" "evicts (planned ?plan) ms s s'"
      "sum_list (map mg_page_out ms) = plan_bytes ?plan"
      using evict_planned_ok [OF inv pok] by blast
    have "(\<Union>k. {k} \<times> planned ?plan k) = (\<Union>p \<in> set ?ps. pick_bytes p)"
      unfolding pl by (rule picked_bytes)
    moreover have "sum_list (map candidate_len cs) = int (card (\<Union>c \<in> set cs. cand_bytes c))"
      using all_candidates_bytes [OF inv P] unfolding cs_def
      by (simp only: sum_mset_sum_list [symmetric] mset_map mset_sort set_sort)
    ultimately have "plan_bytes ?plan = sum_list (map pick_len ?ps)"
      using plan_bytes_picks [OF wf_foldl_pick] picks_count [OF inv okc, of ?need] by simp
    then have "?need \<le> sum_list (map mg_page_out ms)" using e(4) False by simp
    moreover have "lru_evicted pk P s (planned ?plan)"
      unfolding lru_evicted_def
    proof (intro allI impI, elim conjE)
      fix k o1 x q k' o' x' q'
      assume o1: "map_of (rm_allocations s) k = Some o1" "(x, q) \<in> stamped (ow_recency o1)" "x \<in> planned ?plan k"
        and o': "map_of (rm_allocations s) k' = Some o'" "(x', q') \<in> evictable_stamps k' o' pk P s" "x' \<notin> planned ?plan k'"
      from o1(3) obtain q0 where q0: "(x, q0) \<in> picked ?ps k" unfolding pl by force
      then have "(x, q0) \<in> stamped (ow_recency o1)"
        using plan_ok_picks(2) [OF inv P okc o1(1)] evictable_stamps_sub(1) by blast
      moreover have "disjoint_recency (ow_recency o1)"
        using residency_offD(5) [OF inv o1(1)] recency_ok_disjoint by (simp add: owner_inv_def)
      ultimately have "q0 = q" using stamp_unique o1(2) by blast
      then obtain a b where p: "(q, k, a, b) \<in> set ?ps" using q0 by (auto simp: picked_def split: if_splits)
      have np: "(x', q') \<notin> picked ?ps k'" using o'(3) unfolding pl by force
      obtain a' b' where c: "(q', ow_order o', k', a', b', o') \<in> set cs" "a' \<le> x'" "x' < b'"
        using ac(2) [OF o'(1,2)] by (auto simp: cs_def)
      show "q \<le> q'"
        by (rule picks_lru [OF inv _ okc p c(1,2,3) np]) (simp add: cs_def sorted_candidates)
    qed
    moreover have "make_room additional pk P s = (Inr (), s')" using run e(1) False by simp
    ultimately show ?thesis
      by (intro disjI2 exI [of _ "planned ?plan"] exI [of _ ms] exI [of _ s'] conjI allI impI)
        (use e(2,3) sub need in \<open>simp_all only: less_irrefl\<close>)
  qed
qed

end
