(* ===== verification/Residency_Ops.thy ===== *)
theory Residency_Ops
  imports Residency_Inv
begin

text \<open>
  Every public operation keeps the invariant, and one that raises leaves the manager as it
  was.
\<close>

definition keeps :: "'a residency_op \<Rightarrow> manager \<Rightarrow> bool" where
  "keeps r s \<longleftrightarrow> residency_inv (snd r) \<and> (\<forall>e. fst r = Inl e \<longrightarrow> snd r = s)"

lemma keeps_raise [intro]: "residency_inv s \<Longrightarrow> keeps (Inl e, s) s"
  by (simp add: keeps_def)

lemma keeps_return: "residency_inv s' \<Longrightarrow> keeps (Inr x, s') s"
  by (simp add: keeps_def)

lemma get_ownerD: "get_owner k s = Inr o1 \<Longrightarrow> map_of (rm_allocations s) k = Some o1"
  by (auto simp: get_owner_def split: option.splits if_splits)

section \<open>Views, leases and deferred validation\<close>

lemma keeps_create_view: "residency_inv s \<Longrightarrow> keeps (create_view v k off sz s) s"
proof -
  assume inv: "residency_inv s"
  let ?a = "strip v"
  consider (raise) e where "create_view v k off sz s = (Inl e, s)"
    | (ok) o1 n where "get_owner k s = Inr o1" "map_of (rm_allocations s) ?a = None" "0 \<le> off"
        "off + n \<le> ow_size o1"
        "create_view v k off sz s = (Inr \<lparr>vw_id = ?a, vw_owner = ow_id o1, vw_offset = off, vw_size = n,
            vw_granule = ow_granule o1\<rparr>, s\<lparr>rm_views := AList.update ?a \<lparr>vw_id = ?a, vw_owner = ow_id o1,
            vw_offset = off, vw_size = n, vw_granule = ow_granule o1\<rparr> (rm_views s)\<rparr>)"
  proof (cases "\<exists>e. create_view v k off sz s = (Inl e, s)")
    case False
    then obtain o1 where o1: "get_owner k s = Inr o1"
      unfolding create_view_def Let_def by (cases "get_owner k s") (auto split: if_splits)
    show ?thesis
      by (rule that(2) [of o1 "case sz of None \<Rightarrow> ow_size o1 - off | Some n \<Rightarrow> n"])
        (use False o1 in \<open>simp_all add: create_view_def Let_def split: if_splits\<close>)
  qed blast
  then show ?thesis
  proof cases
    case ok
    note o1 = get_ownerD [OF ok(1)]
    have id: "ow_id o1 = k" using residency_offD(5) [OF inv o1] by (simp add: owner_inv_def)
    have "residency_inv (s\<lparr>rm_views := AList.update ?a \<lparr>vw_id = ?a, vw_owner = ow_id o1,
            vw_offset = off, vw_size = n, vw_granule = ow_granule o1\<rparr> (rm_views s)\<rparr>)"
      using inv ok(2,3,4) o1 id unfolding residency_off_def resident_sum_def migration_inv_def
      by (simp add: view_inv_def)
    then show ?thesis using ok(5) by (simp add: keeps_return)
  qed (use inv in auto)
qed

lemma keeps_release_view: "residency_inv s \<Longrightarrow> keeps (release_view v s) s"
proof -
  assume inv: "residency_inv s"
  have "residency_inv (s\<lparr>rm_views := AList.delete v (rm_views s)\<rparr>)"
    using inv unfolding residency_off_def resident_sum_def migration_inv_def by simp
  then show ?thesis using inv by (auto simp: release_view_def keeps_return split: option.splits)
qed


lemma resolve_access_ok:
  assumes inv: "residency_off d s" and r: "resolve_access a s = Inr r"
  defines "o1 \<equiv> rs_owner r"
  shows "map_of (rm_allocations s) (ow_id o1) = Some o1"
    "0 \<le> rs_offset r" "0 \<le> rs_size r" "rs_offset r + rs_size r \<le> ow_committed o1"
    "unit_closed (ow_committed o1) (ow_granule o1) {rs_start r..<rs_end r}"
    "{rs_offset r..<rs_offset r + rs_size r} \<subseteq> {rs_start r..<rs_end r}"
    "rs_start r = rs_end r \<longleftrightarrow> rs_size r = 0" "rs_start r \<le> rs_end r"
    "covered (required_ranges r) = {rs_start r..<rs_end r}" "canonical (required_ranges r)"
proof -
  obtain o0 vo vs where t: "access_target (ma_target a) s = Inr (o0, vo, vs)"
    using r by (auto simp: resolve_access_def rbind_eq_Inr)
  have o0: "\<exists>k. map_of (rm_allocations s) k = Some o0" and vo: "0 \<le> vo"
  proof -
    have "(\<exists>k. map_of (rm_allocations s) k = Some o0) \<and> 0 \<le> vo"
    proof (cases "map_of (rm_allocations s) (ma_target a)")
      case None
      then obtain v where v: "map_of (rm_views s) (ma_target a) = Some v"
        "get_owner (vw_owner v) s = Inr o0" "vo = vw_offset v"
        using t by (auto simp: access_target_def rbind_eq_Inr split: option.splits)
      then show ?thesis using residency_offD(6) [OF inv v(1)] get_ownerD by (auto simp: view_inv_def)
    next
      case (Some o')
      then show ?thesis using t by (auto simp: access_target_def)
    qed
    then show "\<exists>k. map_of (rm_allocations s) k = Some o0" "0 \<le> vo" by auto
  qed
  then obtain k where k: "map_of (rm_allocations s) k = Some o0" by blast
  have oi: "owner_inv (pl_component (rm_pool s)) (rm_access_seq s) k o0" using residency_offD(5) [OF inv k] .
  define off where "off = vo + ma_offset a"
  define n where "n = (case ma_size a of None \<Rightarrow> vs - ma_offset a | Some n \<Rightarrow> n)"
  have c: "0 \<le> ma_offset a" "0 \<le> n" "off + n \<le> ow_committed o0"
    "r = (if n = 0 then \<lparr>rs_owner = o0, rs_offset = off, rs_size = n, rs_start = off, rs_end = off\<rparr>
      else \<lparr>rs_owner = o0, rs_offset = off, rs_size = n, rs_start = off div ow_granule o0 * ow_granule o0,
         rs_end = min (ow_committed o0) (ceil_div (off + n) (ow_granule o0) * ow_granule o0)\<rparr>)"
    using r t unfolding resolve_access_def Let_def off_def n_def
    by (simp_all split: if_splits)
  have o1: "o1 = o0" using c(4) by (simp add: o1_def)
  have g: "0 < ow_granule o0" "ow_id o0 = k" using oi by (simp_all add: owner_inv_def)
  have off0: "0 \<le> off" using vo c(1) by (simp add: off_def)
  show "map_of (rm_allocations s) (ow_id o1) = Some o1" using k g(2) o1 by simp
  show "0 \<le> rs_offset r" "0 \<le> rs_size r" "rs_offset r + rs_size r \<le> ow_committed o1"
    using c off0 o1 by auto
  let ?g = "ow_granule o0" and ?c = "ow_committed o0"
  let ?s = "off div ?g * ?g" and ?e = "min ?c (ceil_div (off + n) ?g * ?g)"
  have s: "?s \<le> off" "0 \<le> ?s" "?s mod ?g = 0"
    using round_down_le [OF g(1)] off0 g(1) by (simp_all add: pos_imp_zdiv_nonneg_iff)
  have e: "off + n \<le> ?e" if "n \<noteq> 0" using ceil_div_ge [OF g(1), of "off + n"] c(3) by simp
  have eb: "?e = ?c \<or> ?e mod ?g = 0" by (auto simp: min_def)
  have se: "n \<noteq> 0 \<Longrightarrow> ?s < ?e" using s e c(2) by simp
  show "rs_start r = rs_end r \<longleftrightarrow> rs_size r = 0" "rs_start r \<le> rs_end r" using c(4) se by auto
  show "{rs_offset r..<rs_offset r + rs_size r} \<subseteq> {rs_start r..<rs_end r}"
    using c(2,4) s(1) e by auto
  have "is_backing_unit_boundary ?s ?c ?g \<and> is_backing_unit_boundary ?e ?c ?g" if "n \<noteq> 0"
    using s e [OF that] eb c(2,3) that off0 by (auto simp: is_backing_unit_boundary_def)
  then show "unit_closed (ow_committed o1) (ow_granule o1) {rs_start r..<rs_end r}"
    using c(4) o1 boundary_closed g(1) by auto
  show "covered (required_ranges r) = {rs_start r..<rs_end r}" "canonical (required_ranges r)"
    using \<open>rs_start r \<le> rs_end r\<close> by (auto simp: required_ranges_def covered_simps canonical_Cons)
qed

lemma keeps_validated:
  "residency_inv s' \<Longrightarrow> keeps (sbind (validate_boundary s') (\<lambda>_ s. (Inr x, s))) s"
  by (simp add: validate_ok keeps_return)

lemma keeps_acquire_lease: "residency_inv s \<Longrightarrow> keeps (acquire_lease l t c off sz s) s"
proof -
  assume inv: "residency_inv s"
  let ?a = "\<lparr>ma_target = t, ma_operation = Touch_Access, ma_offset = off, ma_size = sz\<rparr>"
  show ?thesis
  proof (cases "strip l = [] \<or> strip c = [] \<or> map_of (rm_leases s) (strip l) \<noteq> None")
    case True
    then show ?thesis using inv by (auto simp: acquire_lease_def Let_def)
  next
    case False
    show ?thesis
    proof (cases "resolve_access ?a s")
      case (Inl e)
      then show ?thesis using inv False by (auto simp: acquire_lease_def Let_def)
    next
      case (Inr r)
      note ra = resolve_access_ok [OF inv Inr]
      show ?thesis
      proof (cases "intersect_ranges (required_ranges r) (ow_resident (rs_owner r)) = required_ranges r")
        case True
        then have sub: "covered (required_ranges r) \<subseteq> covered (ow_resident (rs_owner r))"
          using ra(10) by (simp add: intersect_subset)
        let ?l = "\<lparr>le_id = strip l, le_consumer = strip c, le_target = t, le_owner = ow_id (rs_owner r),
            le_offset = rs_offset r, le_size = rs_size r, le_ranges = required_ranges r\<rparr>"
        have "lease_inv (rm_allocations s) (strip l) ?l"
          using ra(1,5,9,10) sub by (simp add: lease_inv_def)
        then have "residency_inv (s\<lparr>rm_leases := AList.update (strip l) ?l (rm_leases s)\<rparr>)"
          using inv unfolding residency_off_def resident_sum_def migration_inv_def by simp
        then show ?thesis using False Inr True keeps_validated by (simp add: acquire_lease_def Let_def)
      qed (use inv False Inr in \<open>auto simp: acquire_lease_def Let_def\<close>)
    qed
  qed
qed

lemma anchors_update_inv:
  "residency_off d s \<Longrightarrow> map_of (rm_allocations s) k \<noteq> None \<Longrightarrow>
    residency_off d (s\<lparr>rm_anchors := AList.update k as (rm_anchors s)\<rparr>)"
  by (auto simp: residency_off_def resident_sum_def migration_inv_def dict_dom_update)

lemma lease_delete_inv:
  "residency_off d s \<Longrightarrow> residency_off d (s\<lparr>rm_leases := AList.delete k (rm_leases s)\<rparr>)"
  by (auto simp: residency_off_def resident_sum_def migration_inv_def split: if_splits)

lemma release_lease_ok:
  assumes inv: "residency_inv s" and l: "map_of (rm_leases s) k = Some l"
  obtains s' where "release_lease k s = (Inr l, s')" "residency_inv s'"
    "rm_leases s' = AList.delete k (rm_leases s)" "rm_allocations s' = rm_allocations s"
proof -
  have "lease_inv (rm_allocations s) k l" using residency_offD(7) [OF inv l] .
  then have o1: "map_of (rm_allocations s) (le_owner l) \<noteq> None" by (auto simp: lease_inv_def)
  let ?s1 = "s\<lparr>rm_leases := AList.delete k (rm_leases s)\<rparr>"
  define as where "as = foldl (\<lambda>a (start, end). retain_consumer_range a start end (le_consumer l))
         (anchors_of (le_owner l) ?s1) (le_ranges l)"
  let ?s2 = "?s1\<lparr>rm_anchors := AList.update (le_owner l) as (rm_anchors ?s1)\<rparr>"
  have inv2: "residency_inv ?s2" using anchors_update_inv [OF lease_delete_inv [OF inv]] o1 by simp
  have "release_lease k s = sbind (validate_boundary ?s2) (\<lambda>_ s3. (Inr l, s3))"
    unfolding release_lease_def Let_def as_def using l by simp
  then show ?thesis using that [of ?s2] inv2 validate_ok [OF inv2] by simp
qed

lemma keeps_release_lease:
  assumes inv: "residency_inv s"
  shows "keeps (release_lease k s) s"
proof (cases "map_of (rm_leases s) k")
  case None
  then show ?thesis using inv by (auto simp: release_lease_def)
next
  case (Some l)
  obtain s' where "release_lease k s = (Inr l, s')" "residency_inv s'"
    by (rule release_lease_ok [OF inv Some])
  then show ?thesis by (simp add: keeps_return)
qed

lemma release_leases_ok:
  assumes "residency_inv s" "distinct ks" "set ks \<subseteq> dom (map_of (rm_leases s))"
  shows "\<exists>ls s'. release_leases ks s = (Inr ls, s') \<and> residency_inv s' \<and>
    (\<forall>k. map_of (rm_leases s') k = (if k \<in> set ks then None else map_of (rm_leases s) k)) \<and>
    rm_allocations s' = rm_allocations s"
  using assms
proof (induction ks arbitrary: s)
  case (Cons k ks)
  then obtain l where l: "map_of (rm_leases s) k = Some l" by auto
  obtain s1 where a: "release_lease k s = (Inr l, s1)" "residency_inv s1"
    "rm_leases s1 = AList.delete k (rm_leases s)" "rm_allocations s1 = rm_allocations s"
    by (rule release_lease_ok [OF Cons.prems(1) l])
  have "set ks \<subseteq> dom (map_of (rm_leases s1))" using Cons.prems(2,3) a(3) by (auto simp: dict_dom_delete)
  from Cons.IH [OF a(2) _ this] obtain ls s2 where b: "release_leases ks s1 = (Inr ls, s2)" "residency_inv s2"
    "\<forall>k. map_of (rm_leases s2) k = (if k \<in> set ks then None else map_of (rm_leases s1) k)"
    "rm_allocations s2 = rm_allocations s1"
    using Cons.prems(2) by auto
  then show ?case using a by auto
qed simp

lemma consumer_keys:
  assumes "wf_dict d"
  shows "distinct (map fst (filter P d))" "set (map fst (filter P d)) \<subseteq> dom (map_of d)"
proof -
  show "distinct (map fst (filter P d))" using assms by (simp add: wf_dict_def distinct_map_filter)
  show "set (map fst (filter P d)) \<subseteq> dom (map_of d)" by (auto simp: dom_map_of_conv_image_fst)
qed

lemma keeps_release_consumer: "residency_inv s \<Longrightarrow> keeps (release_consumer_leases t s) s"
proof -
  assume inv: "residency_inv s"
  note ck = consumer_keys [OF residency_offD(3) [OF inv], of "\<lambda>(k, l). le_consumer l = t"]
  from release_leases_ok [OF inv ck] show ?thesis
    by (auto simp: release_consumer_leases_def keeps_return)
qed

lemma anchors_filter_inv:
  assumes inv: "residency_off d s" and sub: "\<forall>(k, a) \<in> set as'. k \<in> fst ` set (rm_anchors s)" and wf: "wf_dict as'"
  shows "residency_off d (s\<lparr>rm_anchors := as'\<rparr>)"
proof -
  have "dom (map_of as') \<subseteq> dom (map_of (rm_anchors s))"
    using sub by (auto simp: dom_map_of_conv_image_fst)
  moreover have "dom (map_of (rm_anchors s)) \<subseteq> dom (map_of (rm_allocations s))"
    using inv by (simp add: residency_off_def)
  ultimately have "dom (map_of as') \<subseteq> dom (map_of (rm_allocations s))" by (rule subset_trans)
  then show ?thesis using inv wf unfolding residency_off_def resident_sum_def migration_inv_def by simp
qed

lemma wf_concat_keep:
  defines "keep \<equiv> \<lambda>f. (\<lambda>(k, a). if f a \<noteq> [] then [(k, f a)] else [])"
  shows "fst ` set (concat (map (keep f) d)) \<subseteq> fst ` set d"
    and "wf_dict d \<Longrightarrow> wf_dict (concat (map (keep f) d))"
proof -
  show sub: "fst ` set (concat (map (keep f) d)) \<subseteq> fst ` set d" for d
    by (force simp: keep_def split: if_splits)
  show "wf_dict d \<Longrightarrow> wf_dict (concat (map (keep f) d))"
  proof (induction d)
    case (Cons p d)
    obtain k a where p: "p = (k, a)" by (cases p)
    have "k \<notin> fst ` set (concat (map (keep f) d))" using Cons.prems p sub [of d] by (auto simp: wf_dict_Cons)
    then show ?case using Cons p by (simp add: wf_dict_Cons keep_def)
  qed simp
qed

lemma keeps_retire: "residency_inv s \<Longrightarrow> keeps (retire_completed ts s) s"
proof -
  assume inv: "residency_inv s"
  let ?f = "filter (\<lambda>(start, end, task). task \<notin> set ts)"
  let ?as = "concat (map (\<lambda>(k, a). if ?f a \<noteq> [] then [(k, ?f a)] else []) (rm_anchors s))"
  have "wf_dict ?as" "fst ` set ?as \<subseteq> fst ` set (rm_anchors s)"
    using wf_concat_keep [where f = ?f and d = "rm_anchors s"] residency_offD(4) [OF inv] by blast+
  then have "residency_inv (s\<lparr>rm_anchors := ?as\<rparr>)" by (intro anchors_filter_inv [OF inv]) force+
  then show ?thesis using inv by (auto simp: retire_completed_def Let_def keeps_return)
qed

section \<open>Releasing an owner and growing its commitment\<close>

lemma keeps_release_owner: "residency_inv s \<Longrightarrow> keeps (release_owner k f s) s"
proof -
  assume inv: "residency_inv s"
  show ?thesis
  proof (cases "get_owner k s")
    case (Inl e)
    then show ?thesis using inv by (auto simp: release_owner_def)
  next
    case (Inr o1)
    note o1 = get_ownerD [OF Inr]
    have oi: "owner_inv (pl_component (rm_pool s)) (rm_access_seq s) k o1" using residency_offD(5) [OF inv o1] .
    then have id: "ow_id o1 = k" "ow_resident_bytes o1 = range_bytes (ow_resident o1)" "canonical (ow_resident o1)"
      by (simp_all add: owner_inv_def)
    show ?thesis
    proof (cases "(\<exists>(lk, l) \<in> set (rm_leases s). le_owner l = k) \<or> (\<exists>(vk, v) \<in> set (rm_views s). vw_owner v = k) \<or>
        (ow_pinned o1 \<and> \<not> f)")
      case True
      then show ?thesis using inv Inr id by (auto simp: release_owner_def)
    next
      case False
      let ?p = "if ow_resident_bytes o1 \<noteq> 0 then adjust_pool (- ow_resident_bytes o1) s else (Inr (), s)"
      have sum: "dict_sum (\<lambda>o1. range_bytes (ow_resident o1)) (AList.delete k (rm_allocations s)) =
          resident_sum s - range_bytes (ow_resident o1)"
        using dict_sum_delete [OF residency_offD(1) [OF inv]] o1 by (simp add: resident_sum_def dict_val_def)
      have "0 \<le> dict_sum (\<lambda>o1. range_bytes (ow_resident o1)) (AList.delete k (rm_allocations s))"
      proof (rule dict_sum_nonneg)
        fix k' o' assume "(k', o') \<in> set (AList.delete k (rm_allocations s))"
        then have "map_of (rm_allocations s) k' = Some o'"
          using wf_dict_in_iff [OF residency_offD(1) [OF inv]] by (auto simp: AList.delete_eq)
        then show "0 \<le> range_bytes (ow_resident o')" using residency_offD(5) [OF inv] by (simp add: owner_inv_def)
      qed
      then have ge: "0 \<le> pl_resident (rm_pool s) - ow_resident_bytes o1"
        using sum residency_offD(9) [OF inv] id(2) by simp
      obtain p where p: "?p = (Inr (), s\<lparr>rm_pool := p\<rparr>)" "residency_off (- ow_resident_bytes o1) (s\<lparr>rm_pool := p\<rparr>)"
      proof (cases "ow_resident_bytes o1 = 0")
        case True
        then show ?thesis using that [of "rm_pool s"] inv by simp
      next
        case nz: False
        have "0 \<le> ow_resident_bytes o1" using id by simp
        then show ?thesis using adjust_pool_ok [OF inv, of "- ow_resident_bytes o1"] ge residency_offD(10) [OF inv] nz that
          by fastforce
      qed
      let ?s1 = "s\<lparr>rm_pool := p\<rparr>"
      let ?s2 = "?s1\<lparr>rm_allocations := AList.delete k (rm_allocations ?s1), rm_anchors := AList.delete k (rm_anchors ?s1)\<rparr>"
      have nol: "le_owner l \<noteq> k" if "map_of (rm_leases s) lk = Some l" for lk l
        using False that by (force dest: map_of_SomeD)
      have nov: "vw_owner v \<noteq> k" if "map_of (rm_views s) vk = Some v" for vk v
        using False that by (force dest: map_of_SomeD)
      have inv2: "residency_inv ?s2"
        unfolding residency_off_def
      proof (intro conjI)
        show "\<forall>kv v. map_of (rm_views ?s2) kv = Some v \<longrightarrow> view_inv (rm_allocations ?s2) kv v"
          using residency_offD(6) [OF inv] nov by (simp add: view_inv_def)
        show "\<forall>kl l. map_of (rm_leases ?s2) kl = Some l \<longrightarrow> lease_inv (rm_allocations ?s2) kl l"
          using residency_offD(7) [OF inv] nol by (simp add: lease_inv_def)
        show "dom (map_of (rm_anchors ?s2)) \<subseteq> dom (map_of (rm_allocations ?s2))"
          using inv by (auto simp: residency_off_def dict_dom_delete)
        show "pl_resident (rm_pool ?s2) = resident_sum ?s2 + 0"
          using residency_offD(9) [OF p(2)] sum id(2) by (simp add: resident_sum_def)
      qed (use p(2) in \<open>auto simp: residency_off_def migration_inv_def split: if_splits\<close>)
      have nl: "\<not> (\<exists>(lk, l) \<in> set (rm_leases s). le_owner l = k)"
        "\<not> (\<exists>(vk, v) \<in> set (rm_views s). vw_owner v = k)" "\<not> (ow_pinned o1 \<and> \<not> f)" using False by blast+
      have "release_owner k f s = sbind (validate_boundary ?s2) (\<lambda>_ s3.
          (Inr ((sync_derived (o1\<lparr>ow_resident := [], ow_dirty_ranges := [], ow_recency := []\<rparr>))
                \<lparr>ow_lifecycle := Released\<rparr>), s3))"
        unfolding release_owner_def Inr id(1) sum.case if_not_P [OF nl(1)] if_not_P [OF nl(2)] if_not_P [OF nl(3)]
          p(1) by (simp add: Let_def)
      then show ?thesis using keeps_validated [OF inv2] by simp
    qed
  qed
qed

lemma unit_closed_grow:
  assumes "unit_closed c g X" "X \<subseteq> R" "unit_closed c' g R" "R \<subseteq> {0..<c}"
  shows "unit_closed c' g X"
  unfolding unit_closed_def
proof (intro conjI ballI allI impI)
  show "X \<subseteq> {0..<c'}" using assms(2,3) by (auto simp: unit_closed_def)
  fix x y assume x: "x \<in> X" and y: "0 \<le> y \<and> y < c' \<and> y div g = x div g"
  then have "y \<in> R" using assms(2,3) unfolding unit_closed_def by blast
  then have "y < c" using assms(4) by auto
  then show "y \<in> X" using assms(1) x y unfolding unit_closed_def by blast
qed

lemma keeps_commit: "residency_inv s \<Longrightarrow> keeps (commit_owner k c s) s"
proof -
  assume inv: "residency_inv s"
  show ?thesis
  proof (cases "get_owner k s")
    case (Inl e)
    then show ?thesis using inv by (auto simp: commit_owner_def)
  next
    case (Inr o1)
    note o1 = get_ownerD [OF Inr]
    have oi: "owner_inv (pl_component (rm_pool s)) (rm_access_seq s) k o1" using residency_offD(5) [OF inv o1] .
    let ?chk = "each_check (\<lambda>ranges. ensure_backing_unit_ranges ranges c (ow_granule o1))
              [ow_resident o1, ow_dirty_ranges o1, map extent_of (ow_recency o1)]"
    show ?thesis
    proof (cases "c < 0 \<or> c < ow_committed o1 \<or> ow_size o1 < c \<or> (\<exists>e. ?chk = Inl e)")
      case True
      then show ?thesis using inv Inr by (auto simp: commit_owner_def simp del: each_check.simps)
    next
      case False
      then obtain u where u: "?chk = Inr u" by (cases ?chk) auto
      have okr: "ensure_backing_unit_ranges (ow_resident o1) c (ow_granule o1) = Inr ()"
        "ensure_backing_unit_ranges (ow_dirty_ranges o1) c (ow_granule o1) = Inr ()"
        "ensure_backing_unit_ranges (map extent_of (ow_recency o1)) c (ow_granule o1) = Inr ()"
        using u by (auto simp: rbind_eq_Inr)
      have can: "canonical (ow_resident o1)" "canonical (ow_dirty_ranges o1)" "recency_ok (ow_recency o1)"
        using oi by (simp_all add: owner_inv_def)
      have "\<forall>(s, e) \<in> set (map extent_of (ow_recency o1)). s < e"
        using disjoint_recencyD(1) [OF recency_ok_disjoint [OF can(3)]] by fastforce
      note al = ensure_unit_aligned [OF okr(3) this]
      let ?o2 = "o1\<lparr>ow_committed := c\<rparr>"
      have oi2: "owner_inv (pl_component (rm_pool s)) (rm_access_seq s) k ?o2"
        using oi False ensure_closed [OF okr(1) can(1)] ensure_closed [OF okr(2) can(2)]
          recency_aligned_closed [OF al]
        by (auto simp: owner_inv_def)
      have ls: "covered (le_ranges l) \<subseteq> covered (ow_resident ?o2) \<and>
          unit_closed (ow_committed ?o2) (ow_granule ?o2) (covered (le_ranges l))"
        if l: "map_of (rm_leases s) lk = Some l" "le_owner l = k" for lk l
      proof -
        have "covered (le_ranges l) \<subseteq> covered (ow_resident o1)"
          "unit_closed (ow_committed o1) (ow_granule o1) (covered (le_ranges l))"
          using residency_offD(7) [OF inv l(1)] l(2) o1 by (auto simp: lease_inv_def)
        moreover have "covered (ow_resident o1) \<subseteq> {0..<ow_committed o1}"
          using oi by (simp add: owner_inv_def unit_closed_def)
        moreover have "unit_closed c (ow_granule o1) (covered (ow_resident o1))"
          using oi2 by (simp add: owner_inv_def)
        ultimately show ?thesis using unit_closed_grow by fastforce
      qed
      have "residency_off (0 + range_bytes (ow_resident o1) - range_bytes (ow_resident ?o2)) (put_owner ?o2 s)"
        by (rule put_owner_off [OF inv o1 oi2 _ _ ls]) simp_all
      then have inv2: "residency_inv (put_owner ?o2 s)" by simp
      have "commit_owner k c s = sbind (validate_boundary (put_owner ?o2 s)) (\<lambda>_ s'. (Inr ?o2, s'))"
        using False u Inr by (simp add: commit_owner_def Let_def del: each_check.simps)
      then show ?thesis using keeps_validated [OF inv2] by simp
    qed
  qed
qed

lemma deferred_inv: "residency_off d s \<Longrightarrow> residency_off d (s\<lparr>rm_deferred := n\<rparr>)"
  by (simp add: residency_off_def resident_sum_def migration_inv_def)

lemma keeps_begin_deferred: "residency_inv s \<Longrightarrow> keeps (begin_deferred s) s"
  using assert_consistent_ok [of s] deferred_inv [of 0 s]
  by (simp add: begin_deferred_def keeps_return)

lemma keeps_end_deferred: "residency_inv s \<Longrightarrow> keeps (end_deferred s) s"
  using assert_consistent_ok [OF deferred_inv [of 0 s]] deferred_inv [of 0 s]
  by (auto simp: end_deferred_def Let_def keeps_return)

section \<open>Explicit eviction\<close>

lemma take_units_split:
  "\<exists>rest. L = fst (take_units L r) @ rest \<and> snd (take_units L r) = r - range_bytes (fst (take_units L r)) \<and>
    (rest \<noteq> [] \<longrightarrow> snd (take_units L r) \<le> 0)"
proof (induction L r rule: take_units.induct)
  case (2 a b units r)
  then show ?case by (cases "r \<le> 0") (auto simp: Let_def)
qed simp

lemma take_units_append: "take_units (xs @ ys) r =
    (fst (take_units xs r) @ fst (take_units ys (snd (take_units xs r))),
     snd (take_units ys (snd (take_units xs r))))"
proof (induction xs r rule: take_units.induct)
  case (2 a b units r)
  have "take_units ys r = ([], r)" if "r \<le> 0" using that by (cases ys) auto
  then show ?case using 2 by (auto simp: Let_def)
qed (simp add: prod_eq_iff)

definition units_of :: "int \<Rightarrow> int \<Rightarrow> byte_range \<Rightarrow> byte_range list" where
  "units_of c g r = (case iter_backing_unit_ranges c g [r] of Inl e \<Rightarrow> [] | Inr us \<Rightarrow> us)"

lemma units_of_correct:
  assumes "is_backing_unit_boundary s c g" "is_backing_unit_boundary e c g" "0 < g" "s < e"
  shows "iter_backing_unit_ranges c g [(s, e)] = Inr (units_of c g (s, e))"
    "covered (units_of c g (s, e)) = {s..<e}"
    "\<forall>(a, b) \<in> set (units_of c g (s, e)). a < b \<and> b - a \<le> g \<and> unit_closed c g {a..<b}"
    "sorted_wrt (\<lambda>a b. snd a \<le> fst b) (units_of c g (s, e))"
proof -
  have c: "0 \<le> c" using assms(1,2,4) by (auto simp: is_backing_unit_boundary_def)
  have al: "unit_aligned c g [(s, e)]" using assms c by (simp add: unit_aligned_def)
  have can: "canonical [(s, e)]" using assms(4) by (simp add: canonical_Cons)
  obtain us where us: "iter_ranges c g [(s, e)] = Inr us" "covered us = covered [(s, e)]"
    "\<forall>(a, b) \<in> set us. a < b \<and> b - a \<le> g \<and> is_backing_unit_boundary a c g \<and> b = min c (a + g) \<and> {a..<b} \<subseteq> covered [(s, e)]"
    "sorted_wrt (\<lambda>a b. snd a \<le> fst b) us"
    using iter_ranges_correct [OF al can] by blast
  have it: "iter_backing_unit_ranges c g [(s, e)] = Inr us"
    using unit_aligned_ensure [OF al] us(1) can by (simp add: iter_backing_unit_ranges_def)
  then have u: "units_of c g (s, e) = us" by (simp add: units_of_def)
  show "iter_backing_unit_ranges c g [(s, e)] = Inr (units_of c g (s, e))" using it u by simp
  show "covered (units_of c g (s, e)) = {s..<e}" using us(2) u by (simp add: covered_Cons)
  have "unit_closed c g {a..<b}" if m: "(a, b) \<in> set us" for a b
  proof -
    have b: "is_backing_unit_boundary a c g" "b = min c (a + g)" "a < b" using us(3) m by auto
    have "is_backing_unit_boundary b c g"
      using b assms(3) c by (auto simp: is_backing_unit_boundary_def min_def)
    then show ?thesis using boundary_closed b(1) assms(3) by blast
  qed
  then show "\<forall>(a, b) \<in> set (units_of c g (s, e)). a < b \<and> b - a \<le> g \<and> unit_closed c g {a..<b}"
    using us(3) u by fastforce
  show "sorted_wrt (\<lambda>a b. snd a \<le> fst b) (units_of c g (s, e))" using us(4) u by simp
qed

lemma select_units_ok:
  assumes "\<forall>(s, e) \<in> set rs. s < e \<and> is_backing_unit_boundary s c g \<and> is_backing_unit_boundary e c g" "0 < g"
  shows "select_units c g rs r = Inr (take_units (concat (map (rev \<circ> units_of c g) rs)) r)"
  using assms(1)
proof (induction rs arbitrary: r)
  case (Cons x rs)
  obtain s e where x: "x = (s, e)" by (cases x)
  have "iter_backing_unit_ranges c g [(s, e)] = Inr (units_of c g (s, e))"
    using Cons.prems x assms(2) by (intro units_of_correct) auto
  moreover have "take_units L r = ([], r)" if "r \<le> 0" for L using that by (cases L) auto
  ultimately show ?case using Cons x by (auto simp: take_units_append Let_def)
qed simp

text \<open>The selected units are the highest of the available ranges.\<close>

definition descending :: "byte_range list \<Rightarrow> bool" where
  "descending L \<longleftrightarrow> sorted_wrt (\<lambda>u v. snd v \<le> fst u) L"

lemma all_units_correct:
  assumes "\<forall>(s, e) \<in> set rs. is_backing_unit_boundary s c g \<and> is_backing_unit_boundary e c g" "0 < g"
    "canonical rs"
  defines "L \<equiv> concat (map (rev \<circ> units_of c g) (rev rs))"
  shows "covered L = covered rs" "\<forall>(a, b) \<in> set L. a < b \<and> unit_closed c g {a..<b}" "descending L"
    "range_bytes L = range_bytes rs"
proof -
  have "covered L = covered rs \<and> (\<forall>(a, b) \<in> set L. a < b \<and> unit_closed c g {a..<b}) \<and> descending L \<and>
    range_bytes L = range_bytes rs"
    using assms(1,3) unfolding L_def
  proof (induction rs)
    case (Cons r rs)
    obtain s e where r: "r = (s, e)" by (cases r)
    have c: "s < e" "\<forall>(x, y) \<in> set rs. e < x" "canonical rs"
      using Cons.prems(2) r by (simp_all add: canonical_Cons)
    have b: "is_backing_unit_boundary s c g" "is_backing_unit_boundary e c g" using Cons.prems(1) r by auto
    let ?U = "units_of c g (s, e)" and ?L = "concat (map (rev \<circ> units_of c g) (rev rs))"
    note U = units_of_correct [OF b assms(2) c(1)]
    have IH: "covered ?L = covered rs" "\<forall>(a, b) \<in> set ?L. a < b \<and> unit_closed c g {a..<b}" "descending ?L"
      "range_bytes ?L = range_bytes rs"
    proof -
      have "\<forall>(s, e) \<in> set rs. is_backing_unit_boundary s c g \<and> is_backing_unit_boundary e c g"
        using Cons.prems(1) by simp
      from Cons.IH [OF this c(3)] show "covered ?L = covered rs"
        "\<forall>(a, b) \<in> set ?L. a < b \<and> unit_closed c g {a..<b}" "descending ?L" "range_bytes ?L = range_bytes rs"
        by blast+
    qed
    have "snd v \<le> fst u" if "u \<in> set ?L" "v \<in> set ?U" for u v
    proof -
      have u: "fst u < snd u" using IH(2) that(1) by (cases u) auto
      have "(fst u, snd u) \<in> set ?L" using that(1) by simp
      then have "fst u \<in> covered ?L" unfolding in_covered using u by fastforce
      then have "e < fst u" unfolding IH(1) using c(2) by (auto simp: in_covered)
      moreover have v: "fst v < snd v" using U(3) that(2) by (cases v) auto
      have "(fst v, snd v) \<in> set ?U" using that(2) by simp
      then have "snd v - 1 \<in> covered ?U" unfolding in_covered using v by fastforce
      then have "snd v - 1 < e" unfolding U(2) by simp
      ultimately show ?thesis by linarith
    qed
    moreover have "sorted_wrt (\<lambda>u v. snd v \<le> fst u) (rev ?U)" using U(4) by (simp add: sorted_wrt_rev)
    ultimately have desc: "descending (?L @ rev ?U)" using IH(3) by (simp add: descending_def sorted_wrt_append)
    have "range_bytes us = e' - s'" if "sorted_wrt (\<lambda>a b. snd a \<le> fst b) us" "covered us = {s'..<e'}"
      "\<forall>(a, b) \<in> set us. a < b" "s' \<le> e'" for us s' e'
    proof -
      have "range_bytes us = int (card (covered us))" using that(1,3)
      proof (induction us)
        case (Cons u us)
        obtain a b where u: "u = (a, b)" by (cases u)
        have "{a..<b} \<inter> covered us = {}" using Cons.prems u by (fastforce simp: in_covered)
        then have "card (covered (u # us)) = card {a..<b} + card (covered us)"
          unfolding u covered_Cons by (intro card_Un_disjoint) auto
        then show ?case using Cons u by simp
      qed simp
      then show ?thesis using that(2,4) by simp
    qed
    then have len: "range_bytes ?U = e - s" using U c(1) by fastforce
    have rb: "range_bytes (rev us) = range_bytes us" for us
      by (simp add: range_bytes_def rev_map [symmetric])
    have cr: "covered (rev us) = covered us" for us by (rule covered_cong) simp
    have L: "concat (map (rev \<circ> units_of c g) (rev (r # rs))) = ?L @ rev ?U" by (simp add: r)
    show ?case
      unfolding L
    proof (intro conjI)
      show "covered (?L @ rev ?U) = covered (r # rs)"
        unfolding covered_append cr IH(1) U(2) r covered_Cons by blast
      show "\<forall>(a, b) \<in> set (?L @ rev ?U). a < b \<and> unit_closed c g {a..<b}"
        using IH(2) U(3) by (auto simp del: set_concat)
      show "range_bytes (?L @ rev ?U) = range_bytes (r # rs)" using IH(4) len rb r by simp
    qed (rule desc)
  qed (simp add: descending_def)
  then show "covered L = covered rs" "\<forall>(a, b) \<in> set L. a < b \<and> unit_closed c g {a..<b}" "descending L"
    "range_bytes L = range_bytes rs" by blast+
qed

lemma candidate_ranges_bytes:
  assumes inv: "residency_off d s" and o1: "map_of (rm_allocations s) k = Some o1" and ev: "ow_evictable o1"
  shows "canonical (candidate_ranges o1 (Some k) [] s)"
    "covered (candidate_ranges o1 (Some k) [] s) = covered (ow_resident o1) - protected_bytes k (Some k) [] s"
    "unit_closed (ow_committed o1) (ow_granule o1) (covered (candidate_ranges o1 (Some k) [] s))"
proof -
  have oi: "owner_inv (pl_component (rm_pool s)) (rm_access_seq s) k o1" using residency_offD(5) [OF inv o1] .
  then have id: "ow_id o1 = k" "canonical (ow_resident o1)" "\<not> ow_pinned o1" "ow_backing o1 \<noteq> None"
    using ev by (auto simp: owner_inv_def)
  have cc: "covered (eviction_cuts o1 (Some k) [] s) = protected_bytes k (Some k) [] s"
    using covered_cuts [OF residency_offD(3) [OF inv] id(1)] .
  show "canonical (candidate_ranges o1 (Some k) [] s)" using id by (simp add: candidate_ranges_def)
  show cov: "covered (candidate_ranges o1 (Some k) [] s) = covered (ow_resident o1) - protected_bytes k (Some k) [] s"
    using id ev by (auto simp: candidate_ranges_def evictable_now_def cc)
  show "unit_closed (ow_committed o1) (ow_granule o1) (covered (candidate_ranges o1 (Some k) [] s))"
    unfolding cov using oi protected_closed [OF inv o1, of "Some k" "[]"]
    by (intro unit_closed_Diff) (auto simp: owner_inv_def)
qed

definition unprotected :: "string \<Rightarrow> owner \<Rightarrow> manager \<Rightarrow> int set" where
  "unprotected k o1 s = covered (ow_resident o1) - protected_bytes k None [] s"

lemma protected_none: "protected_bytes k (Some k) [] s = protected_bytes k None [] s"
  by (simp add: protected_bytes_def)

lemma evict_owner_bytes_ok:
  assumes inv: "residency_inv s" and o1: "map_of (rm_allocations s) k = Some o1" and ev: "ow_evictable o1"
    and n: "0 \<le> n"
  shows "(int (card (unprotected k o1 s)) < n \<and>
      evict_owner_bytes o1 n [] s = (Inl (Residency_Error ''eviction underflow''), s)) \<or>
    (\<exists>X ms s'. evict_owner_bytes o1 n [] s = (Inr (), s') \<and> residency_inv s' \<and>
      evicts (\<lambda>k'. if k' = k then X else {}) ms s s' \<and> X \<subseteq> unprotected k o1 s \<and> n \<le> int (card X) \<and>
      (\<forall>x \<in> X. \<forall>y \<in> unprotected k o1 s - X. y < x) \<and>
      (\<forall>m \<in> set ms. mg_allocation m = k))"
proof -
  have oi: "owner_inv (pl_component (rm_pool s)) (rm_access_seq s) k o1" using residency_offD(5) [OF inv o1] .
  then have id: "ow_id o1 = k" "0 < ow_granule o1" "0 \<le> ow_committed o1" "\<not> ow_pinned o1" "ow_backing o1 \<noteq> None"
    using ev by (auto simp: owner_inv_def)
  let ?A = "candidate_ranges o1 (Some k) [] s" and ?c = "ow_committed o1" and ?g = "ow_granule o1"
  note A = candidate_ranges_bytes [OF inv o1 ev]
  have Au: "covered ?A = unprotected k o1 s" using A(2) by (simp add: unprotected_def protected_none)
  have bytes: "range_bytes ?A = int (card (unprotected k o1 s))" using A(1) Au by (simp add: range_bytes_card)
  have al: "unit_aligned ?c ?g ?A" by (rule closed_unit_aligned [OF A(1,3) id(2,3)])
  have rs: "\<forall>(s, e) \<in> set ?A. is_backing_unit_boundary s ?c ?g \<and> is_backing_unit_boundary e ?c ?g"
    using unit_alignedD [OF al] by blast
  have rs': "\<forall>(s, e) \<in> set (rev ?A). s < e \<and> is_backing_unit_boundary s ?c ?g \<and> is_backing_unit_boundary e ?c ?g"
    using rs canonicalD(1) [OF A(1)] by fastforce
  define L where "L = concat (map (rev \<circ> units_of ?c ?g) (rev ?A))"
  note L = all_units_correct [OF rs id(2) A(1), folded L_def]
  obtain p r where pr: "take_units L n = (p, r)" by (cases "take_units L n")
  obtain rest where sp: "L = p @ rest" "r = n - range_bytes p" "rest \<noteq> [] \<longrightarrow> r \<le> 0"
    using take_units_split [of L n] pr by auto
  have sel: "select_units ?c ?g (rev ?A) n = Inr (p, r)"
    using select_units_ok [OF rs' id(2), of n] pr by (simp add: L_def)
  show ?thesis
  proof (cases "range_bytes ?A < n")
    case True
    then have "evict_owner_bytes o1 n [] s = (Inl (Residency_Error ''eviction underflow''), s)"
      using id ev by (simp add: evict_owner_bytes_def)
    then show ?thesis using True bytes by simp
  next
    case False
    then have r0: "r \<le> 0" using sp L(4) by (cases "rest = []") auto
    have run: "evict_owner_bytes o1 n [] s = evict_owner_ranges o1 p s"
      using id ev n False sel r0 by (cases "ow_backing o1") (simp_all add: evict_owner_bytes_def)
    have sub: "covered p \<subseteq> unprotected k o1 s" using L(1) sp(1) Au by (auto simp: covered_simps)
    have cl: "unit_closed ?c ?g (covered p)"
    proof -
      have "covered p = (\<Union>r \<in> set p. {fst r..<snd r})" by (auto simp: covered_def split_beta)
      moreover have "unit_closed ?c ?g {fst r..<snd r}" if "r \<in> set p" for r
        using L(2) sp(1) that by (cases r) auto
      ultimately show ?thesis by (simp add: unit_closed_UN)
    qed
    have un: "unleased k (covered p) s"
      by (rule unleased_protected [where pk = None and P = "[]"]) (use sub in \<open>auto simp: unprotected_def\<close>)
    have subr: "covered p \<subseteq> covered (ow_resident o1)" using sub by (auto simp: unprotected_def)
    obtain ms s' where e: "evict_owner_ranges o1 p s = (Inr (), s')" "residency_inv s'"
      "evicts (\<lambda>k'. if k' = k then covered p else {}) ms s s'" "\<forall>m \<in> set ms. mg_allocation m = k"
      by (rule evict_owner_ranges_ok [OF inv o1 ev refl subr cl un]) blast
    have "y < x" if xy: "x \<in> covered p" "y \<in> unprotected k o1 s - covered p" for x y
    proof -
      have "y \<in> covered rest" using xy(2) L(1) sp(1) Au by (auto simp: covered_simps)
      then obtain a b where ab: "(a, b) \<in> set rest" "a \<le> y" "y < b" by (auto simp: in_covered)
      obtain a' b' where ab': "(a', b') \<in> set p" "a' \<le> x" "x < b'" using xy(1) unfolding in_covered by blast
      have "b \<le> a'" using L(3) sp(1) ab(1) ab'(1) by (fastforce simp: descending_def sorted_wrt_append)
      then show ?thesis using ab ab' by linarith
    qed
    moreover have "n \<le> int (card (covered p))"
    proof -
      have "range_bytes p \<le> int (card (covered p))"
      proof -
        have d: "descending p" using L(3) sp(1) by (simp add: descending_def sorted_wrt_append)
        have "\<forall>(a, b) \<in> set p. a < b" using L(2) sp(1) by auto
        then show ?thesis using d
        proof (induction p)
          case (Cons u us)
          obtain a b where u: "u = (a, b)" by (cases u)
          have "{a..<b} \<inter> covered us = {}"
            using Cons.prems u by (fastforce simp: in_covered descending_def)
          then have "card (covered (u # us)) = card {a..<b} + card (covered us)"
            unfolding u covered_Cons by (intro card_Un_disjoint) auto
          then show ?case using Cons u by (auto simp: descending_def)
        qed simp
      qed
      then show ?thesis using sp(2) r0 by simp
    qed
    ultimately show ?thesis using run e sub by (intro disjI2 exI [of _ "covered p"] exI [of _ ms] exI [of _ s']) auto
  qed
qed

lemma evict_cases:
  assumes inv: "residency_inv s"
  obtains (raised) e where "evict k n s = (Inl e, s)"
  | (idle) o1 where "evict k n s = (Inr [], s)" "map_of (rm_allocations s) k = Some o1"
      "(case n of None \<Rightarrow> int (card (covered (ow_resident o1))) | Some b \<Rightarrow> b) = 0"
  | (evicted) o1 X ms s' where "evict k n s = (Inr ms, s')" "residency_inv s'"
      "map_of (rm_allocations s) k = Some o1" "ow_evictable o1"
      "evicts (\<lambda>k'. if k' = k then X else {}) ms s s'" "X \<subseteq> unprotected k o1 s"
      "(case n of None \<Rightarrow> int (card (covered (ow_resident o1))) | Some b \<Rightarrow> b) \<le> int (card X)"
      "\<forall>x \<in> X. \<forall>y \<in> unprotected k o1 s - X. y < x"
proof (cases "get_owner k s")
  case (Inl e)
  then show ?thesis using raised validate_ok [OF inv] by (simp add: evict_def)
next
  case (Inr o1)
  note o1 = get_ownerD [OF Inr]
  have oi: "owner_inv (pl_component (rm_pool s)) (rm_access_seq s) k o1" using residency_offD(5) [OF inv o1] .
  let ?n = "case n of None \<Rightarrow> ow_resident_bytes o1 | Some b \<Rightarrow> b"
  have ow: "ow_resident_bytes o1 = int (card (covered (ow_resident o1)))"
    using oi by (simp add: owner_inv_def range_bytes_card)
  show ?thesis
  proof (cases "ow_pinned o1 \<or> \<not> ow_evictable o1 \<or> ?n < 0 \<or> ow_resident_bytes o1 < ?n")
    case True
    then have "\<exists>e. evict k n s = (Inl e, s)"
      using validate_ok [OF inv] Inr by (auto simp: evict_def Let_def)
    then show ?thesis using raised by blast
  next
    case False
    show ?thesis
    proof (cases "?n = 0")
      case True
      then have run: "evict k n s = (Inr [], s)"
        using validate_ok [OF inv] Inr False by (simp add: evict_def Let_def)
      have zero: "(case n of None \<Rightarrow> int (card (covered (ow_resident o1))) | Some b \<Rightarrow> b) = 0"
        using True unfolding ow .
      show ?thesis by (rule idle [OF run o1 zero])
    next
      case nz: False
      have run: "evict k n s = sbind (evict_owner_bytes o1 ?n [] s) (\<lambda>_ s1.
           sbind (validate_boundary s1) (\<lambda>_ s2. (Inr (drop (length (rm_migrations s)) (rm_migrations s2)), s2)))"
        using validate_ok [OF inv] Inr False nz by (simp add: evict_def Let_def)
      have ev: "ow_evictable o1" "0 \<le> ?n" using False by auto
      from evict_owner_bytes_ok [OF inv o1 ev] show ?thesis
      proof (elim disjE exE conjE)
        fix X ms s' assume e: "evict_owner_bytes o1 ?n [] s = (Inr (), s')" "residency_inv s'"
          "evicts (\<lambda>k'. if k' = k then X else {}) ms s s'" "X \<subseteq> unprotected k o1 s" "?n \<le> int (card X)"
          "\<forall>x \<in> X. \<forall>y \<in> unprotected k o1 s - X. y < x"
        have "rm_migrations s' = rm_migrations s @ ms" using e(3) by (simp add: evicts_def)
        then have r: "evict k n s = (Inr ms, s')" unfolding run using e(1) validate_ok [OF e(2)] by simp
        show ?thesis by (rule evicted [OF r e(2) o1 ev(1) e(3,4) _ e(6)]) (use e(5) ow in \<open>simp split: option.splits\<close>)
      next
        assume "evict_owner_bytes o1 ?n [] s = (Inl (Residency_Error ''eviction underflow''), s)"
        then show ?thesis using raised run by simp
      qed
    qed
  qed
qed

lemma keeps_evict: "residency_inv s \<Longrightarrow> keeps (evict k n s) s"
  by (rule evict_cases [of s k n]) (auto simp: keeps_return)

section \<open>Refreshing, faulting in and marking dirty\<close>

lemma refresh_recency_ok:
  assumes "recency_ok (ow_recency o1)" "canonical rs" "covered rs \<subseteq> covered (ow_resident o1)"
    "unit_closed (ow_committed o1) (ow_granule o1) (covered rs)" "0 < ow_granule o1" "0 \<le> ow_committed o1"
  obtains T where "refresh_recency o1 rs q = Inr (o1\<lparr>ow_recency := T\<rparr>)" "recency_ok T"
    "stamped T = {(x, k) \<in> stamped (ow_recency o1). x \<notin> covered rs} \<union> covered rs \<times> {q}"
proof (cases "rs = []")
  case True
  then show ?thesis using that [of "ow_recency o1"] assms(1) by (simp add: refresh_recency_def)
next
  case False
  have chk: "ensure_backing_unit_ranges rs (ow_committed o1) (ow_granule o1) = Inr ()"
    using closed_ensure assms by blast
  have sub: "intersect_ranges rs (ow_resident o1) = rs" using assms(2,3) by (simp add: intersect_subset)
  show ?thesis
  proof (cases "\<exists>a b. rs = [(a, b)]")
    case True
    then obtain a b where rs: "rs = [(a, b)]" by blast
    then have "a < b" using assms(2) by (simp add: canonical_Cons)
    from refresh_single_correct [OF assms(1) this, of q] obtain T where
      "refresh_single (ow_recency o1) a b q = Inr T" "recency_ok T"
      "stamped T = {(x, k) \<in> stamped (ow_recency o1). x \<notin> {a..<b}} \<union> {a..<b} \<times> {q}" by blast
    then show ?thesis using that [of T] rs chk sub assms(2) by (simp add: refresh_recency_def Let_def covered_Cons)
  next
    case many: False
    from refresh_general_correct [OF assms(1,2), of q] obtain T where
      "refresh_general (ow_recency o1) rs q = Inr T" "recency_ok T"
      "stamped T = {(x, k) \<in> stamped (ow_recency o1). x \<notin> covered rs} \<union> covered rs \<times> {q}" by blast
    moreover have "(case rs of [(a, b)] \<Rightarrow> refresh_single (ow_recency o1) a b q
        | _ \<Rightarrow> refresh_general (ow_recency o1) rs q) = refresh_general (ow_recency o1) rs q"
      using many by (auto split: list.splits)
    ultimately show ?thesis using that [of T] chk sub assms(2) False by (simp add: refresh_recency_def Let_def)
  qed
qed

lemma adjust_put: "adjust_pool d (put_owner o1 s) = (fst (adjust_pool d s), put_owner o1 (snd (adjust_pool d s)))"
  by (simp add: adjust_pool_def put_owner_def Let_def)

lemma record_put: "record_migration o2 kind n a b c (put_owner o1 s) =
    (fst (record_migration o2 kind n a b c s), put_owner o1 (snd (record_migration o2 kind n a b c s)))"
  by (cases "make_migration (rm_migration_seq s + 1) (ow_id o2) kind n a b (ow_granule o2) 0 c")
    (simp_all add: record_migration_def put_owner_def Let_def)

lemma put_put: "ow_id o1 = ow_id o2 \<Longrightarrow> put_owner o1 (put_owner o2 s) = put_owner o1 s"
  by (simp add: put_owner_def update_last)

lemma get_put: "map_of (rm_allocations (put_owner o1 s)) (ow_id o1) = Some o1"
  by (simp add: put_owner_def)

lemma put_same: "map_of (rm_allocations s) (ow_id o1) = Some o1 \<Longrightarrow> put_owner o1 s = s"
  by (simp add: put_owner_def update_triv)

lemma bump_put: "bump_access (put_owner o1 s) = put_owner o1 (bump_access s)"
  by (simp add: bump_access_def put_owner_def)

lemma owner_inv_mono: "owner_inv c n k o1 \<Longrightarrow> n \<le> n' \<Longrightarrow> owner_inv c n' k o1"
  by (auto simp: owner_inv_def)

lemma bump_inv:
  assumes inv: "residency_off d s"
  shows "residency_off d (bump_access s)"
proof -
  have "owner_inv (pl_component (rm_pool s)) (rm_access_seq s + 1) k o1" if "map_of (rm_allocations s) k = Some o1" for k o1
    using residency_offD(5) [OF inv that] by (rule owner_inv_mono) simp
  then show ?thesis using inv
    unfolding residency_off_def bump_access_def resident_sum_def migration_inv_def by simp
qed

text \<open>The owner after its missing bytes came in.\<close>

definition filled_with :: "owner \<Rightarrow> byte_range list \<Rightarrow> owner" where
  "filled_with o1 missing = sync_derived (o1\<lparr>ow_resident := merge_ranges (ow_resident o1 @ missing)\<rparr>)"

lemma filled_eq:
  assumes "canonical (ow_resident o1)" "canonical (ow_dirty_ranges o1)"
    "covered (ow_dirty_ranges o1) \<subseteq> covered (ow_resident o1)"
  shows "filled_with o1 missing = o1\<lparr>ow_resident := merge_ranges (ow_resident o1 @ missing),
    ow_resident_bytes := range_bytes (merge_ranges (ow_resident o1 @ missing)), ow_dirty := (ow_dirty_ranges o1 \<noteq> [])\<rparr>"
proof -
  have "intersect_ranges (ow_dirty_ranges o1) (merge_ranges (ow_resident o1 @ missing)) = ow_dirty_ranges o1"
    using assms by (subst intersect_subset) (auto simp: covered_simps)
  then show ?thesis using assms by (simp add: filled_with_def sync_derived_def Let_def)
qed

lemma filled_none: "owner_inv c n k o1 \<Longrightarrow> filled_with o1 [] = o1"
proof -
  assume inv: "owner_inv c n k o1"
  then have "canonical (ow_resident o1)" "canonical (ow_dirty_ranges o1)"
    "covered (ow_dirty_ranges o1) \<subseteq> covered (ow_resident o1)"
    "ow_resident_bytes o1 = range_bytes (ow_resident o1)" "ow_dirty o1 = (ow_dirty_ranges o1 \<noteq> [])"
    by (simp_all add: owner_inv_def)
  then show ?thesis by (simp add: filled_eq)
qed

definition paged_in :: "string \<Rightarrow> int \<Rightarrow> migration list \<Rightarrow> bool" where
  "paged_in k n pg \<longleftrightarrow> length pg \<le> 1 \<and> (\<forall>m \<in> set pg. mg_kind m = Page_In \<and> mg_allocation m = k) \<and>
     sum_list (map mg_page_in pg) = n"

definition pool_grown :: "int \<Rightarrow> manager \<Rightarrow> manager \<Rightarrow> bool" where
  "pool_grown n s s' \<longleftrightarrow> rm_pool s' = (rm_pool s)\<lparr>pl_resident := pl_resident (rm_pool s) + n,
       pl_peak := max (pl_peak (rm_pool s)) (pl_resident (rm_pool s) + n)\<rparr> \<and>
     rm_allocations s' = rm_allocations s \<and> rm_views s' = rm_views s \<and> rm_leases s' = rm_leases s \<and>
     rm_anchors s' = rm_anchors s \<and> rm_access_seq s' = rm_access_seq s \<and>
     rm_registration_seq s' = rm_registration_seq s \<and> rm_deferred s' = rm_deferred s"

text \<open>What makes room for an access and brings its bytes in.\<close>

definition room_made :: "string option \<Rightarrow> byte_range list \<Rightarrow> (string \<Rightarrow> int set) \<Rightarrow> migration list \<Rightarrow> manager \<Rightarrow> manager \<Rightarrow> bool" where
  "room_made pk P E ms s s1 \<longleftrightarrow> residency_inv s1 \<and> evicts E ms s s1 \<and> lru_evicted pk P s E \<and>
     (\<forall>k o1. map_of (rm_allocations s) k = Some o1 \<longrightarrow> E k \<subseteq> fst ` evictable_stamps k o1 pk P s)"

lemma room_made_protects:
  assumes "room_made pk P E ms s s1" "map_of (rm_allocations s) k = Some o1"
  shows "E k \<inter> protected_bytes k pk P s = {}"
proof -
  have "E k \<subseteq> fst ` evictable_stamps k o1 pk P s" using assms by (simp add: room_made_def)
  then show ?thesis using evictable_stamps_sub(2) by fastforce
qed

lemma room_made_refl: "residency_inv s \<Longrightarrow> room_made pk P (\<lambda>k. {}) [] s s"
  by (simp add: room_made_def evicts_refl lru_evicted_def)

lemma make_room_cases:
  assumes "residency_inv s" "0 \<le> n" "protects_units pk P s"
  obtains (short) "make_room n pk P s = (Inl (Capacity_Exceeded ''not enough additional resident bytes can be made available''), s)"
      "evictable_total pk P s < room_needed n s"
  | (made) E ms s1 where "make_room n pk P s = (Inr (), s1)" "room_made pk P E ms s s1"
      "pl_resident (rm_pool s1) + n \<le> pl_capacity (rm_pool s1)" "room_needed n s = 0 \<longrightarrow> s1 = s"
proof -
  from make_room_ok [OF assms] show ?thesis
  proof (elim disjE exE conjE)
    fix E ms s1 assume m: "make_room n pk P s = (Inr (), s1)" "residency_inv s1" "evicts E ms s s1"
      "\<forall>k o1. map_of (rm_allocations s) k = Some o1 \<longrightarrow> E k \<subseteq> fst ` evictable_stamps k o1 pk P s"
      "lru_evicted pk P s E" "room_needed n s \<le> sum_list (map mg_page_out ms)" "room_needed n s = 0 \<longrightarrow> s1 = s"
    have p: "rm_pool s1 = (rm_pool s)\<lparr>pl_resident := pl_resident (rm_pool s) - sum_list (map mg_page_out ms)\<rparr>"
      using m(3) unfolding evicts_def by blast
    have "pl_resident (rm_pool s1) + n \<le> pl_capacity (rm_pool s1)"
      using m(6) unfolding p room_needed_def by simp
    then show ?thesis using made m unfolding room_made_def by blast
  qed (rule short)
qed

lemma fault_in_ok:
  assumes inv: "residency_inv s" and o1: "map_of (rm_allocations s) k = Some o1"
    and req: "canonical req" "unit_closed (ow_committed o1) (ow_granule o1) (covered req)"
    and pg: "canonical page_in" "covered page_in \<subseteq> covered req - covered (ow_resident o1)"
  defines "missing \<equiv> subtract_ranges req (ow_resident o1)"
  obtains (short) "fault_in o1 req missing page_in s =
      (Inl (Capacity_Exceeded ''not enough additional resident bytes can be made available''), s)"
      "fst (make_room (range_bytes missing) (Some k) req s) =
        Inl (Capacity_Exceeded ''not enough additional resident bytes can be made available'')"
      "evictable_total (Some k) req s < room_needed (range_bytes missing) s"
  | (filled) E ms s1 o2 s2 pgs where "fault_in o1 req missing page_in s = (Inr (), put_owner (filled_with o2 missing) s2)"
      "room_made (Some k) req E ms s s1" "map_of (rm_allocations s1) k = Some o2" "shrunk (E k) o1 o2"
      "pool_grown (range_bytes missing) s1 s2" "residency_off (range_bytes missing) s2"
      "rm_migrations s2 = rm_migrations s1 @ pgs" "paged_in k (range_bytes page_in) pgs"
      "room_needed (range_bytes missing) s = 0 \<longrightarrow> s1 = s"
proof -
  have oi: "owner_inv (pl_component (rm_pool s)) (rm_access_seq s) k o1" using residency_offD(5) [OF inv o1] .
  then have id: "ow_id o1 = k" by (simp add: owner_inv_def)
  have cm: "canonical missing" "covered missing = covered req - covered (ow_resident o1)"
    using req(1) by (simp_all add: missing_def)
  have n0: "0 \<le> range_bytes missing" using cm(1) by simp
  have P: "protects_units (Some k) req s" using req(2) o1 by (simp add: protects_units_def)
  show ?thesis
  proof (cases "range_bytes missing = 0")
    case True
    then have m: "missing = []" using range_bytes_zero [OF cm(1)] by simp
    then have "covered page_in = {}" using cm(2) pg(2) by auto
    then have p0: "range_bytes page_in = 0" using pg(1) by (simp add: range_bytes_card)
    have put: "put_owner (filled_with o1 missing) s = s"
      using filled_none [OF oi] put_same o1 id m by simp
    have "pl_resident (rm_pool s) \<le> pl_peak (rm_pool s)" using inv by (simp add: residency_off_def)
    then have gr: "pool_grown (range_bytes missing) s s" by (simp add: pool_grown_def m max_absorb1)
    have run: "fault_in o1 req missing page_in s = (Inr (), put_owner (filled_with o1 missing) s)"
      using True put by (simp add: fault_in_def)
    have sh: "shrunk {} o1 o1" by (rule shrunk_refl)
    show ?thesis
      by (rule filled [OF run room_made_refl [OF inv] o1 sh gr, of "[]"])
        (use inv m p0 in \<open>simp_all add: paged_in_def\<close>)
  next
    case False
    show ?thesis
    proof (cases rule: make_room_cases [OF inv n0 P, case_names few made])
      case few
      then have "fault_in o1 req missing page_in s =
          (Inl (Capacity_Exceeded ''not enough additional resident bytes can be made available''), s)"
        using False id by (simp add: fault_in_def)
      then show ?thesis by (rule short) (use few in simp_all)
    next
      case (made E ms s1)
      have inv1: "residency_inv s1" and ev: "evicts E ms s s1" using made(2) by (simp_all add: room_made_def)
      obtain o2 where o2: "map_of (rm_allocations s1) k = Some o2" "shrunk (E k) o1 o2"
        using ev o1 unfolding evicts_def by blast
      have id2: "ow_id o2 = k" using shrunk_fields(1) [OF o2(2)] id by simp
      let ?o3 = "filled_with o2 missing" and ?m = "range_bytes missing"
      have id3: "ow_id ?o3 = k" "ow_granule ?o3 = ow_granule o2"
        using id2 by (simp_all add: filled_with_def sync_derived_def Let_def)
      have "0 \<le> pl_resident (rm_pool s1) + ?m"
        using residency_offD(9) [OF inv1] resident_sum_nonneg [OF inv1] n0 by simp
      then obtain p where p: "adjust_pool ?m s1 = (Inr (), s1\<lparr>rm_pool := p\<rparr>)"
        "residency_off (0 + ?m) (s1\<lparr>rm_pool := p\<rparr>)"
        "p = (rm_pool s1)\<lparr>pl_resident := pl_resident (rm_pool s1) + ?m,
          pl_peak := max (pl_peak (rm_pool s1)) (pl_resident (rm_pool s1) + ?m)\<rparr>"
        using adjust_pool_ok [OF inv1] made(3) by blast
      let ?s2 = "s1\<lparr>rm_pool := p\<rparr>"
      have gr: "pool_grown ?m s1 ?s2" using p(3) by (simp add: pool_grown_def)
      have g2: "0 < ow_granule ?o3"
        using residency_offD(5) [OF inv1 o2(1)] id3(2) by (simp add: owner_inv_def)
      have run: "fault_in o1 req missing page_in s =
         (if range_bytes page_in \<noteq> 0
          then sbind (record_migration ?o3 Page_In (range_bytes page_in) (ow_backing ?o3)
            (Some (pl_component (rm_pool ?s2))) [] (put_owner ?o3 ?s2)) (\<lambda>_ s. (Inr (), s))
          else (Inr (), put_owner ?o3 ?s2))"
        using False made(1) o2(1) p(1) id
        by (simp add: fault_in_def adjust_put filled_with_def [symmetric] Let_def) (simp add: put_owner_def)
      show ?thesis
      proof (cases "range_bytes page_in = 0")
        case True
        then show ?thesis
          by (intro filled [OF _ made(2) o2 gr, of "[]"]) (use run p(2) made(4) in \<open>simp_all add: paged_in_def\<close>)
      next
        case nz: False
        then have pos: "0 < range_bytes page_in" using range_bytes_nonneg [OF pg(1)] by simp
        obtain m s3 where m: "record_migration ?o3 Page_In (range_bytes page_in) (ow_backing ?o3)
            (Some (pl_component (rm_pool ?s2))) [] ?s2 = (Inr m, s3)" "residency_off (0 + ?m) s3"
          "mg_allocation m = ow_id ?o3" "mg_kind m = Page_In" "mg_bytes m = range_bytes page_in"
          "\<exists>t. s3 = ?s2\<lparr>rm_migration_seq := rm_migration_seq ?s2 + 1, rm_migrations := rm_migrations ?s2 @ [m], rm_totals := t\<rparr>"
          by (rule record_migration_ok [OF p(2) pos g2])
        have gr3: "pool_grown ?m s1 s3" using gr m(6) by (auto simp: pool_grown_def)
        have run3: "fault_in o1 req missing page_in s = (Inr (), put_owner ?o3 s3)"
          using run nz m(1) by (simp add: record_put)
        show ?thesis
          by (rule filled [OF run3 made(2) o2 gr3, of "[m]"])
            (use m id3 made(4) in \<open>auto simp: paged_in_def mg_page_in_def\<close>)
      qed
    qed
  qed
qed

section \<open>Accesses\<close>

lemma page_in_within:
  assumes "canonical missing"
  shows "canonical (page_in_needed op r missing)" "covered (page_in_needed op r missing) \<subseteq> covered missing"
  using assms by (auto simp: page_in_needed_def write_refault_ranges_def Let_def covered_simps)

definition dirtied :: "access_operation \<Rightarrow> byte_range list \<Rightarrow> int set" where
  "dirtied op req = (if op = Write_Access then covered req else {})"

text \<open>The owner an access leaves behind, from the owner \<open>o2\<close> it found after making room.\<close>

lemma accessed_owner:
  fixes op :: access_operation
  assumes o2: "owner_inv c n k o2" and X: "canonical req" "unit_closed (ow_committed o2) (ow_granule o2) (covered req)"
    and sub: "covered req \<inter> covered (ow_resident o2) \<union> covered missing = covered req"
  defines "o4 \<equiv> (mark_dirty op req (filled_with o2 missing))\<lparr>ow_last_access := n + 1\<rparr>"
  obtains o5 where "refresh_recency o4 req (n + 1) = Inr o5" "owner_inv c (n + 1) k o5"
    "covered (ow_resident o5) = covered (ow_resident o2) \<union> covered req"
    "covered (ow_dirty_ranges o5) = covered (ow_dirty_ranges o2) \<union> dirtied op req"
    "stamped (ow_recency o5) = {(x, q) \<in> stamped (ow_recency o2). x \<notin> covered req} \<union> covered req \<times> {n + 1}"
    "ow_last_access o5 = n + 1" "ow_size o5 = ow_size o2" "ow_granule o5 = ow_granule o2"
    "ow_committed o5 = ow_committed o2" "ow_id o4 = k" "ow_id o5 = k" "ow_id (filled_with o2 missing) = k"
    "ow_backing o5 = ow_backing o2"
proof -
  have inv: "canonical (ow_resident o2)" "canonical (ow_dirty_ranges o2)" "ow_id o2 = k" "0 < ow_granule o2"
    "covered (ow_dirty_ranges o2) \<subseteq> covered (ow_resident o2)" "recency_ok (ow_recency o2)" "0 \<le> ow_committed o2"
    "fst ` stamped (ow_recency o2) = covered (ow_resident o2)"
    "snd ` stamped (ow_recency o2) \<subseteq> {1..ow_last_access o2}" "ow_last_access o2 \<le> n" "0 < ow_last_access o2"
    using o2 by (simp_all add: owner_inv_def)
  define R where "R = merge_ranges (ow_resident o2 @ missing)"
  define D where "D = (if op = Write_Access \<and> req \<noteq> [] then merge_ranges (ow_dirty_ranges o2 @ req) else ow_dirty_ranges o2)"
  have R: "canonical R" "covered R = covered (ow_resident o2) \<union> covered req"
    using sub by (auto simp: R_def covered_simps)
  have D: "canonical D" "covered D = covered (ow_dirty_ranges o2) \<union> dirtied op req"
    using inv(2) by (auto simp: D_def dirtied_def covered_simps)
  have DR: "covered D \<subseteq> covered R" using D R inv(5) by (auto simp: dirtied_def)
  have fl: "filled_with o2 missing = o2\<lparr>ow_resident := R, ow_resident_bytes := range_bytes R,
      ow_dirty := (ow_dirty_ranges o2 \<noteq> [])\<rparr>"
    using filled_eq [OF inv(1,2,5)] by (simp add: R_def)
  have o4: "o4 = o2\<lparr>ow_resident := R, ow_dirty_ranges := D, ow_resident_bytes := range_bytes R,
      ow_dirty := (D \<noteq> []), ow_last_access := n + 1\<rparr>"
  proof (cases "op = Write_Access \<and> req \<noteq> []")
    case True
    have "intersect_ranges D R = D" using D(1) DR by (simp add: intersect_subset)
    then show ?thesis using True R(1) by (simp add: o4_def mark_dirty_def fl sync_derived_def Let_def D_def)
  next
    case False
    have "D = ow_dirty_ranges o2" "mark_dirty op req x = x" for x
      unfolding D_def mark_dirty_def if_not_P [OF False] by simp_all
    then show ?thesis by (simp add: o4_def fl)
  qed
  have f: "recency_ok (ow_recency o4)" "covered req \<subseteq> covered (ow_resident o4)"
    "unit_closed (ow_committed o4) (ow_granule o4) (covered req)" "0 < ow_granule o4" "0 \<le> ow_committed o4"
    using inv X R by (simp_all add: o4)
  obtain T where T: "refresh_recency o4 req (n + 1) = Inr (o4\<lparr>ow_recency := T\<rparr>)" "recency_ok T"
    "stamped T = {(x, k) \<in> stamped (ow_recency o4). x \<notin> covered req} \<union> covered req \<times> {n + 1}"
    by (rule refresh_recency_ok [OF f(1) X(1) f(2-5)])
  let ?o5 = "o4\<lparr>ow_recency := T\<rparr>"
  have st: "stamped T = {(x, k) \<in> stamped (ow_recency o2). x \<notin> covered req} \<union> covered req \<times> {n + 1}"
    using T(3) by (simp add: o4)
  have "stamped_at T q = stamped_at (ow_recency o2) q - covered req \<union> (if q = n + 1 then covered req else {})" for q
    using st by (auto simp: stamped_at_def)
  then have cl: "unit_closed (ow_committed o2) (ow_granule o2) (stamped_at T q)" for q
    using o2 X(2) by (auto simp: owner_inv_def)
  have ucR: "unit_closed (ow_committed o2) (ow_granule o2) (covered R)"
    using o2 X(2) unfolding R(2) by (auto simp: owner_inv_def)
  have ucD: "unit_closed (ow_committed o2) (ow_granule o2) (covered D)"
    using o2 X(2) unfolding D(2) by (auto simp: owner_inv_def dirtied_def)
  have fst_T: "fst ` stamped T = covered R"
  proof -
    have "fst ` {(x, k) \<in> stamped (ow_recency o2). x \<notin> covered req} = fst ` stamped (ow_recency o2) - covered req"
      by force
    then have "fst ` stamped T = (fst ` stamped (ow_recency o2) - covered req) \<union> covered req"
      unfolding st image_Un by simp
    then show ?thesis unfolding R(2) inv(8) by blast
  qed
  have snd_T: "snd ` stamped T \<subseteq> {1..n + 1}"
  proof
    fix q assume "q \<in> snd ` stamped T"
    then obtain x where "(x, q) \<in> stamped T" by force
    then have "q = n + 1 \<or> q \<in> snd ` stamped (ow_recency o2)" unfolding st by force
    then show "q \<in> {1..n + 1}" using inv(9,10,11) by auto
  qed
  have "owner_inv c (n + 1) k ?o5"
    using o2 R(1) D(1) DR T(2) cl ucR ucD fst_T snd_T inv(10,11) unfolding owner_inv_def by (simp add: o4)
  moreover have "ow_id (filled_with o2 missing) = k" using inv(3) by (simp add: fl)
  ultimately show ?thesis
    by (intro that [of ?o5]) (use T(1) R D st inv(3) in \<open>simp_all add: o4\<close>)
qed

lemma residency_off_grown_leases:
  "pool_grown n s1 s2 \<Longrightarrow> rm_leases s2 = rm_leases s1 \<and> rm_allocations s2 = rm_allocations s1 \<and>
    rm_access_seq s2 = rm_access_seq s1 \<and> pl_component (rm_pool s2) = pl_component (rm_pool s1)"
  by (simp add: pool_grown_def)

text \<open>What an access that succeeds does.\<close>

definition access_done ::
  "memory_access \<Rightarrow> manager \<Rightarrow> resolved \<Rightarrow> (string \<Rightarrow> int set) \<Rightarrow> migration list \<Rightarrow> migration list \<Rightarrow>
    residency_result \<Rightarrow> manager \<Rightarrow> bool" where
  "access_done a s r E ms pgs res s' \<longleftrightarrow> (let o1 = rs_owner r; k = ow_id o1; X = {rs_start r..<rs_end r} in
     (\<exists>o5. map_of (rm_allocations s') k = Some o5 \<and>
        covered (ow_resident o5) = covered (ow_resident o1) - E k \<union> X \<and>
        covered (ow_dirty_ranges o5) = covered (ow_dirty_ranges o1) - E k \<union> dirtied (ma_operation a) (required_ranges r) \<and>
        stamped (ow_recency o5) = {(x, q) \<in> stamped (ow_recency o1). x \<notin> E k \<union> X} \<union> X \<times> {rr_sequence res}) \<and>
     (\<forall>k' o'. k' \<noteq> k \<and> map_of (rm_allocations s) k' = Some o' \<longrightarrow>
        (\<exists>o''. map_of (rm_allocations s') k' = Some o'' \<and> shrunk (E k') o' o'')) \<and>
     (\<forall>k'. map_of (rm_allocations s) k' = None \<longrightarrow> map_of (rm_allocations s') k' = None) \<and>
     rm_leases s' = rm_leases s \<and> rm_views s' = rm_views s \<and>
     rm_migrations s' = rm_migrations s @ ms @ pgs \<and> rr_migrations res = ms @ pgs \<and>
     rr_sequence res = rm_access_seq s + 1 \<and> rm_access_seq s' = rm_access_seq s + 1 \<and>
     pl_resident (rm_pool s') = pl_resident (rm_pool s) - sum_list (map mg_page_out ms)
       + int (card (X - covered (ow_resident o1))) \<and>
     paged_in k (range_bytes (page_in_needed (ma_operation a) r
       (subtract_ranges (required_ranges r) (ow_resident o1)))) pgs \<and>
     rr_page_in res = range_bytes (page_in_needed (ma_operation a) r
       (subtract_ranges (required_ranges r) (ow_resident o1))))"

text \<open>Why an access raises.\<close>

definition access_refusal :: "memory_access \<Rightarrow> manager \<Rightarrow> residency_error \<Rightarrow> bool" where
  "access_refusal a s e \<longleftrightarrow> (case resolve_access a s of Inl e' \<Rightarrow> e = e' | Inr r \<Rightarrow>
     let o1 = rs_owner r; missing = subtract_ranges (required_ranges r) (ow_resident o1) in
     ma_operation a = Write_Access \<and> ow_read_only o1 \<and>
       e = Residency_Validation ''cannot write read-only allocation''
     \<or> range_bytes (page_in_needed (ma_operation a) r missing) \<noteq> 0 \<and> ow_backing o1 = None \<and>
       e = Residency_Validation ''cannot refault unbacked allocation''
     \<or> e = Capacity_Exceeded ''not enough additional resident bytes can be made available'' \<and>
       fst (make_room (range_bytes missing) (Some (ow_id o1)) (required_ranges r) s) = Inl e \<and>
       evictable_total (Some (ow_id o1)) (required_ranges r) s < room_needed (range_bytes missing) s)"

lemma residency_access_cases:
  assumes inv: "residency_inv s"
  obtains (raised) e where "residency_access a s = (Inl e, s)" "access_refusal a s e"
  | (accessed) r E ms pgs res s' s1 where "residency_access a s = (Inr res, s')" "residency_inv s'"
      "resolve_access a s = Inr r" "room_made (Some (ow_id (rs_owner r))) (required_ranges r) E ms s s1"
      "access_done a s r E ms pgs res s'"
      "room_needed (int (card ({rs_start r..<rs_end r} - covered (ow_resident (rs_owner r))))) s = 0 \<longrightarrow> s1 = s"
proof (cases "resolve_access a s")
  case (Inl e)
  then show ?thesis using raised validate_ok [OF inv] by (simp add: residency_access_def access_refusal_def)
next
  case (Inr r)
  note ra = resolve_access_ok [OF inv Inr]
  let ?o1 = "rs_owner r" and ?k = "ow_id (rs_owner r)" and ?req = "required_ranges r" and ?op = "ma_operation a"
  let ?missing = "subtract_ranges ?req (ow_resident ?o1)"
  let ?pg = "page_in_needed ?op r ?missing"
  have cm: "canonical ?missing" "covered ?missing = covered ?req - covered (ow_resident ?o1)" using ra(10) by simp_all
  note pg = page_in_within [OF cm(1), of ?op r]
  have pgs: "covered ?pg \<subseteq> covered ?req - covered (ow_resident ?o1)" using pg(2) cm(2) by simp
  have ucl: "unit_closed (ow_committed ?o1) (ow_granule ?o1) (covered ?req)" using ra(5,9) by simp
  have mb: "range_bytes ?missing = int (card ({rs_start r..<rs_end r} - covered (ow_resident ?o1)))"
    using cm ra(9) by (simp add: range_bytes_card)
  show ?thesis
  proof (cases "?op = Write_Access \<and> ow_read_only ?o1 \<or> range_bytes ?pg \<noteq> 0 \<and> ow_backing ?o1 = None")
    case True
    then have "\<exists>e. residency_access a s = (Inl e, s) \<and> access_refusal a s e"
      using Inr validate_ok [OF inv] by (auto simp: residency_access_def access_refusal_def Let_def)
    then show ?thesis using raised by blast
  next
    case False
    then have nw: "\<not> (?op = Write_Access \<and> ow_read_only ?o1)" "\<not> (range_bytes ?pg \<noteq> 0 \<and> ow_backing ?o1 = None)"
      by blast+
    define rest where "rest = (\<lambda>s1. let s2 = put_owner (mark_dirty ?op ?req (the (map_of (rm_allocations s1) ?k))) s1;
           s3 = bump_access s2; sequence = rm_access_seq s3;
           o4 = (the (map_of (rm_allocations s3) ?k))\<lparr>ow_last_access := sequence\<rparr>
         in case refresh_recency o4 ?req sequence of
           Inl e \<Rightarrow> (Inl e, put_owner o4 s3)
         | Inr o5 \<Rightarrow> let s4 = put_owner o5 s3; migrations = drop (length (rm_migrations s)) (rm_migrations s4)
           in sbind (validate_boundary s4) (\<lambda>_ s5.
             (Inr \<lparr>rr_sequence = sequence, rr_target = ma_target a, rr_owner = ?k,
               rr_operation = ?op, rr_offset = rs_offset r, rr_size = rs_size r,
               rr_page_in = sum_list (map mg_page_in migrations), rr_migrations = migrations,
               rr_physical = range_bytes ?req, rr_ranges = ?req\<rparr>, s5)))"
    have run: "residency_access a s = sbind (fault_in ?o1 ?req ?missing ?pg s) (\<lambda>_. rest)"
      unfolding residency_access_def validate_ok [OF inv] sbind_simps Inr sum.case Let_def if_not_P [OF nw(1)]
        if_not_P [OF nw(2)] rest_def ..
    show ?thesis
    proof (cases rule: fault_in_ok [OF inv ra(1) ra(10) ucl pg(1) pgs, case_names few full])
      case few
      then have "residency_access a s =
          (Inl (Capacity_Exceeded ''not enough additional resident bytes can be made available''), s)"
        using run by simp
      then show ?thesis by (rule raised) (use few Inr in \<open>simp add: access_refusal_def Let_def\<close>)
    next
      case (full E ms s1 o2 s2 pgs)
      have inv1: "residency_inv s1" and ev: "evicts E ms s s1" using full(2) by (simp_all add: room_made_def)
      have sr: "same_registry s s1" "rm_migrations s1 = rm_migrations s @ ms" "\<forall>m \<in> set ms. mg_kind m \<noteq> Page_In"
        using ev by (simp_all add: evicts_def)
      let ?n = "rm_access_seq s2" and ?c = "pl_component (rm_pool s2)"
      note gr = residency_off_grown_leases [OF full(5)]
      have al2: "map_of (rm_allocations s2) ?k = Some o2" using gr full(3) by simp
      have oi2: "owner_inv ?c ?n ?k o2" using residency_offD(5) [OF full(6) al2] .
      note sf = shrunk_fields [OF full(4)]
      have EX: "E ?k \<inter> covered ?req = {}"
        using room_made_protects [OF full(2) ra(1)] by (auto simp: protected_bytes_def)
      have sub: "covered ?req \<inter> covered (ow_resident o2) \<union> covered ?missing = covered ?req"
        using sf(12) cm(2) EX by blast
      have ucl2: "unit_closed (ow_committed o2) (ow_granule o2) (covered ?req)" using ucl sf by simp
      define f where "f = filled_with o2 ?missing"
      define o4 where "o4 = (mark_dirty ?op ?req f)\<lparr>ow_last_access := ?n + 1\<rparr>"
      obtain o5 where o5: "refresh_recency o4 ?req (?n + 1) = Inr o5" "owner_inv ?c (?n + 1) ?k o5"
        "covered (ow_resident o5) = covered (ow_resident o2) \<union> covered ?req"
        "covered (ow_dirty_ranges o5) = covered (ow_dirty_ranges o2) \<union> dirtied ?op ?req"
        "stamped (ow_recency o5) = {(x, q) \<in> stamped (ow_recency o2). x \<notin> covered ?req} \<union> covered ?req \<times> {?n + 1}"
        "ow_last_access o5 = ?n + 1" "ow_size o5 = ow_size o2" "ow_granule o5 = ow_granule o2"
        "ow_committed o5 = ow_committed o2" "ow_id o4 = ?k" "ow_id o5 = ?k" "ow_id f = ?k" "ow_backing o5 = ow_backing o2"
        unfolding o4_def f_def by (rule accessed_owner [OF oi2 ra(10) ucl2 sub])
      have idm: "ow_id (mark_dirty ?op ?req f) = ?k" using o5(10) by (simp add: o4_def)
      let ?s4 = "put_owner o5 (bump_access s2)"
      have g1: "the (map_of (rm_allocations (put_owner f s2)) ?k) = f"
        using get_put [of f s2] o5(12) by simp
      have g2: "put_owner (mark_dirty ?op ?req f) (put_owner f s2) = put_owner (mark_dirty ?op ?req f) s2"
        using put_put idm o5(12) by simp
      have g3: "bump_access (put_owner (mark_dirty ?op ?req f) s2) = put_owner (mark_dirty ?op ?req f) (bump_access s2)"
        by (rule bump_put)
      have g4: "the (map_of (rm_allocations (put_owner (mark_dirty ?op ?req f) (bump_access s2))) ?k) = mark_dirty ?op ?req f"
        using get_put [of "mark_dirty ?op ?req f" "bump_access s2"] idm by simp
      have g5: "rm_access_seq (put_owner x (bump_access s2)) = ?n + 1" for x by (simp add: put_owner_def bump_access_def)
      have g6: "put_owner o5 (put_owner (mark_dirty ?op ?req f) (bump_access s2)) = ?s4"
        using put_put idm o5(11) by simp
      have binv: "residency_off (range_bytes ?missing) (bump_access s2)" by (rule bump_inv [OF full(6)])
      have albump: "rm_allocations (bump_access s2) = rm_allocations s2" "rm_access_seq (bump_access s2) = ?n + 1"
        "rm_pool (bump_access s2) = rm_pool s2" "rm_leases (bump_access s2) = rm_leases s2"
        by (simp_all add: bump_access_def)
      have ls: "covered (le_ranges l) \<subseteq> covered (ow_resident o5) \<and>
          unit_closed (ow_committed o5) (ow_granule o5) (covered (le_ranges l))"
        if l: "map_of (rm_leases (bump_access s2)) lk = Some l" "le_owner l = ?k" for lk l
      proof -
        have "lease_inv (rm_allocations s2) lk l" using residency_offD(7) [OF full(6)] l albump by simp
        then show ?thesis using l(2) al2 o5(3,8,9) by (auto simp: lease_inv_def)
      qed
      have "residency_off (range_bytes ?missing + range_bytes (ow_resident o2) - range_bytes (ow_resident o5)) ?s4"
        by (rule put_owner_off [OF binv _ _ _ _ ls]) (use al2 o5 albump in simp_all)
      moreover have "range_bytes (ow_resident o5) = range_bytes (ow_resident o2) + range_bytes ?missing"
      proof -
        have "covered (ow_resident o5) = covered (ow_resident o2) \<union> covered ?missing"
          using o5(3) sub by blast
        moreover have "covered (ow_resident o2) \<inter> covered ?missing = {}" using sf(12) cm(2) by blast
        ultimately have "card (covered (ow_resident o5)) = card (covered (ow_resident o2)) + card (covered ?missing)"
          by (simp add: card_Un_disjoint)
        moreover have "canonical (ow_resident o5)" "canonical (ow_resident o2)"
          using o5(2) oi2 by (simp_all add: owner_inv_def)
        ultimately show ?thesis using cm(1) by (simp add: range_bytes_card)
      qed
      ultimately have inv4: "residency_inv ?s4" by simp
      have mig4: "rm_migrations ?s4 = rm_migrations s @ ms @ pgs"
        using full(7) sr(2) by (simp add: put_owner_def bump_access_def)
      define res where "res = \<lparr>rr_sequence = ?n + 1, rr_target = ma_target a, rr_owner = ?k,
               rr_operation = ?op, rr_offset = rs_offset r, rr_size = rs_size r,
               rr_page_in = sum_list (map mg_page_in (ms @ pgs)), rr_migrations = ms @ pgs,
               rr_physical = range_bytes ?req, rr_ranges = ?req\<rparr>"
      have r4: "rest (put_owner f s2) = (Inr res, ?s4)"
        unfolding rest_def Let_def g1 g2 g3 g4 g5 o4_def [symmetric] o5(1) sum.case g6 validate_ok [OF inv4] sbind_simps
        using mig4 by (simp add: res_def)
      have all: "residency_access a s = (Inr res, ?s4)" using run full(1) r4 by (simp add: f_def)
      have seq: "?n = rm_access_seq s" using gr sr(1) by (simp add: same_registry_def)
      have al4: "map_of (rm_allocations ?s4) k' = (if k' = ?k then Some o5 else map_of (rm_allocations s1) k')" for k'
        using gr by (simp add: put_owner_def o5(11) albump(1))
      have pin: "sum_list (map mg_page_in ms) = 0" using sr(3)
        by (induction ms) (auto simp: mg_page_in_def)
      have keys: "map_of (rm_allocations s1) k' = None \<longleftrightarrow> map_of (rm_allocations s) k' = None" for k'
      proof -
        have "fst ` set (rm_allocations s1) = fst ` set (rm_allocations s)"
          using sr(1) unfolding same_registry_def by (metis set_map)
        then show ?thesis by (simp add: map_of_eq_None_iff)
      qed
      have pool: "pl_resident (rm_pool ?s4) = pl_resident (rm_pool s) - sum_list (map mg_page_out ms)
          + int (card ({rs_start r..<rs_end r} - covered (ow_resident ?o1)))"
        using full(5) ev mb by (simp add: pool_grown_def evicts_def put_owner_def bump_access_def)
      have o1case: "covered (ow_resident o5) = covered (ow_resident ?o1) - E ?k \<union> {rs_start r..<rs_end r}"
        "covered (ow_dirty_ranges o5) = covered (ow_dirty_ranges ?o1) - E ?k \<union> dirtied ?op ?req"
        "stamped (ow_recency o5) = {(x, q) \<in> stamped (ow_recency ?o1). x \<notin> E ?k \<union> {rs_start r..<rs_end r}}
          \<union> {rs_start r..<rs_end r} \<times> {rr_sequence res}"
        unfolding o5(3,4,5) sf(12,13,14) ra(9) by (auto simp: res_def)
      have others: "\<exists>o''. map_of (rm_allocations ?s4) k' = Some o'' \<and> shrunk (E k') o' o''"
        if "k' \<noteq> ?k" "map_of (rm_allocations s) k' = Some o'" for k' o'
        using ev that unfolding evicts_def al4 by simp
      have ad: "access_done a s r E ms pgs res ?s4"
        unfolding access_done_def Let_def
      proof (intro conjI)
        show "\<exists>o6. map_of (rm_allocations ?s4) ?k = Some o6 \<and>
            covered (ow_resident o6) = covered (ow_resident ?o1) - E ?k \<union> {rs_start r..<rs_end r} \<and>
            covered (ow_dirty_ranges o6) = covered (ow_dirty_ranges ?o1) - E ?k \<union> dirtied ?op ?req \<and>
            stamped (ow_recency o6) = {(x, q) \<in> stamped (ow_recency ?o1). x \<notin> E ?k \<union> {rs_start r..<rs_end r}}
              \<union> {rs_start r..<rs_end r} \<times> {rr_sequence res}"
          using o1case al4 [of ?k] by (intro exI [of _ o5]) simp
        show "\<forall>k' o'. k' \<noteq> ?k \<and> map_of (rm_allocations s) k' = Some o' \<longrightarrow>
            (\<exists>o''. map_of (rm_allocations ?s4) k' = Some o'' \<and> shrunk (E k') o' o'')"
          using others by blast
        show "\<forall>k'. map_of (rm_allocations s) k' = None \<longrightarrow> map_of (rm_allocations ?s4) k' = None"
          using keys ra(1) unfolding al4 by auto
        show "rm_leases ?s4 = rm_leases s" "rm_views ?s4 = rm_views s"
          using sr(1) full(5) by (simp_all add: same_registry_def pool_grown_def put_owner_def bump_access_def)
      qed (use mig4 pool full(8) pin seq in \<open>simp_all add: res_def g5 paged_in_def\<close>)
      show ?thesis by (rule accessed [OF all inv4 Inr full(2) ad]) (use full(9) mb in simp)
    qed
  qed
qed

lemma keeps_access: "residency_inv s \<Longrightarrow> keeps (residency_access a s) s"
  by (rule residency_access_cases [of s a]) (auto simp: keeps_return)

section \<open>Registering\<close>

lemma register_checksD:
  assumes "register_checks r s = Inr u"
  shows "strip (rg_id r) \<noteq> []" "map_of (rm_allocations s) (strip (rg_id r)) = None"
    "map_of (rm_views s) (strip (rg_id r)) = None" "0 \<le> rg_resolved_committed r" "0 \<le> rg_resident r"
    "rg_resolved_committed r \<le> rg_size r" "rg_resident r \<le> rg_resolved_committed r"
    "0 < rg_resolved_granule r s" "rg_resolved_evictable r \<Longrightarrow> \<not> rg_pinned r \<and> rg_resolved_backing r \<noteq> None"
    "rg_dirty r \<Longrightarrow> rg_resident r \<noteq> 0"
  using assms unfolding register_checks_def check_all_Inr by auto

lemma initial_ranges_ok:
  assumes "register_checks r s = Inr u"
  shows "canonical (initial_ranges r s)"
    "unit_closed (rg_resolved_committed r) (rg_resolved_granule r s) (covered (initial_ranges r s))"
    "covered (initial_ranges r s) = {0..<min (rg_resolved_committed r)
       (ceil_div (rg_resident r) (rg_resolved_granule r s) * rg_resolved_granule r s)}"
    "rg_resident r \<le> range_bytes (initial_ranges r s)"
proof -
  note c = register_checksD [OF assms]
  let ?c = "rg_resolved_committed r" and ?g = "rg_resolved_granule r s" and ?n = "rg_resident r"
  let ?e = "min ?c (ceil_div ?n ?g * ?g)"
  have e: "?n \<le> ?e" "?n = 0 \<Longrightarrow> ?e = 0" using ceil_div_ge [OF c(8), of ?n] c(4,7) by (auto simp: ceil_div_def)
  have i: "initial_ranges r s = (if ?n = 0 then [] else [(0, ?e)])"
    using c(5) by (simp add: initial_ranges_def prefix_backing_unit_ranges_def)
  show "canonical (initial_ranges r s)" using e c(5) by (simp add: i canonical_Cons)
  show cov: "covered (initial_ranges r s) = {0..<?e}" using e(2) by (simp add: i covered_Cons)
  have "is_backing_unit_boundary 0 ?c ?g" "is_backing_unit_boundary ?e ?c ?g"
    using c(4,5,7) e(1) by (auto simp: is_backing_unit_boundary_def min_def)
  then show "unit_closed ?c ?g (covered (initial_ranges r s))" unfolding cov using boundary_closed c(8) by blast
  show "?n \<le> range_bytes (initial_ranges r s)" using e by (simp add: i)
qed

definition filled_blank :: "registration \<Rightarrow> int \<Rightarrow> int \<Rightarrow> manager \<Rightarrow> byte_range list \<Rightarrow> owner" where
  "filled_blank r order aseq s initial = sync_derived ((blank_owner r order aseq s)\<lparr>ow_resident := initial,
     ow_dirty_ranges := (if rg_dirty r then initial else [])\<rparr>)"

lemma registered_owner:
  fixes order :: int
  assumes chk: "register_checks r s = Inr u" and s': "rm_pool s' = (rm_pool s)\<lparr>pl_resident := n\<rparr>"
    and seq: "0 \<le> aseq"
  defines "o0 \<equiv> filled_blank r order (aseq + 1) s' (initial_ranges r s)"
  obtains o1 where "(if range_bytes (initial_ranges r s) \<noteq> 0 then refresh_recency o0 (ow_resident o0) (aseq + 1)
      else Inr (blank_owner r order (aseq + 1) s')) = Inr o1"
    "owner_inv (pl_component (rm_pool s)) (aseq + 1) (strip (rg_id r)) o1"
    "ow_resident o1 = initial_ranges r s" "ow_order o1 = order" "ow_last_access o1 = aseq + 1"
    "covered (ow_dirty_ranges o1) = (if rg_dirty r then covered (initial_ranges r s) else {})"
    "ow_size o1 = rg_size r" "ow_evictable o1 = rg_resolved_evictable r" "ow_pinned o1 = rg_pinned r"
proof -
  note c = register_checksD [OF chk] and i = initial_ranges_ok [OF chk]
  let ?I = "initial_ranges r s" and ?D = "if rg_dirty r then initial_ranges r s else []"
  let ?c = "rg_resolved_committed r" and ?g = "rg_resolved_granule r s"
  have gr: "rg_resolved_granule r s' = ?g" using s' by (simp add: rg_resolved_granule_def split: option.splits)
  have comp: "pl_component (rm_pool s') = pl_component (rm_pool s)" using s' by simp
  have "intersect_ranges ?D ?I = ?D" using i(1) by (subst intersect_subset) auto
  then have o0: "o0 = (blank_owner r order (aseq + 1) s')\<lparr>ow_resident := ?I, ow_dirty_ranges := ?D,
      ow_resident_bytes := range_bytes ?I, ow_dirty := (?D \<noteq> [])\<rparr>"
    using i(1) by (simp add: o0_def filled_blank_def sync_derived_def Let_def)
  show ?thesis
  proof (cases "range_bytes ?I = 0")
    case True
    then have I: "?I = []" using range_bytes_zero [OF i(1)] by simp
    then have nd: "\<not> rg_dirty r" using i(4) c(5,10) True by auto
    have "owner_inv (pl_component (rm_pool s)) (aseq + 1) (strip (rg_id r)) (blank_owner r order (aseq + 1) s')"
      using c seq by (simp add: owner_inv_def blank_owner_def gr comp stamped_at_simps stamped_simps)
    then show ?thesis by (intro that [of "blank_owner r order (aseq + 1) s'"]) (use I nd in \<open>simp_all add: blank_owner_def\<close>)
  next
    case False
    have f: "recency_ok (ow_recency o0)" "canonical (ow_resident o0)" "covered (ow_resident o0) \<subseteq> covered (ow_resident o0)"
      "unit_closed (ow_committed o0) (ow_granule o0) (covered (ow_resident o0))" "0 < ow_granule o0" "0 \<le> ow_committed o0"
      using i c by (simp_all add: o0 blank_owner_def gr)
    obtain T where T: "refresh_recency o0 (ow_resident o0) (aseq + 1) = Inr (o0\<lparr>ow_recency := T\<rparr>)" "recency_ok T"
      "stamped T = {(x, k) \<in> stamped (ow_recency o0). x \<notin> covered (ow_resident o0)} \<union> covered (ow_resident o0) \<times> {aseq + 1}"
      by (rule refresh_recency_ok [OF f])
    have st: "stamped T = covered ?I \<times> {aseq + 1}" using T(3) by (simp add: o0 blank_owner_def stamped_simps)
    have "stamped_at T q = (if q = aseq + 1 then covered ?I else {})" for q
      using st by (auto simp: stamped_at_def)
    then have cl: "unit_closed ?c ?g (stamped_at T q)" for q using i(2) by simp
    have "owner_inv (pl_component (rm_pool s)) (aseq + 1) (strip (rg_id r)) (o0\<lparr>ow_recency := T\<rparr>)"
      using c i T(2) cl st seq unfolding owner_inv_def
      by (auto simp: o0 blank_owner_def gr comp)
    then show ?thesis
      by (intro that [of "o0\<lparr>ow_recency := T\<rparr>"]) (use T(1) False in \<open>simp_all add: o0 blank_owner_def\<close>)
  qed
qed

lemma register_cases:
  assumes inv: "residency_inv s"
  obtains (raised) e where "register_owner r s = (Inl e, s)"
      "register_checks r s = Inl e \<or> register_checks r s = Inr () \<and>
         e = Capacity_Exceeded ''not enough additional resident bytes can be made available'' \<and>
         evictable_total None [] s < room_needed (range_bytes (initial_ranges r s)) s"
  | (registered) o1 E ms s1 s' where "register_owner r s = (Inr o1, s')" "residency_inv s'"
      "room_made None [] E ms s s1" "ow_id o1 = strip (rg_id r)" "ow_resident o1 = initial_ranges r s"
      "rm_allocations s' = rm_allocations s1 @ [(ow_id o1, o1)]" "map_of (rm_allocations s) (ow_id o1) = None"
proof (cases "register_checks r s")
  case (Inl e)
  then show ?thesis using raised by (simp add: register_owner_def)
next
  case (Inr u)
  note c = register_checksD [OF Inr] and i = initial_ranges_ok [OF Inr]
  let ?I = "initial_ranges r s" and ?k = "strip (rg_id r)"
  have n0: "0 \<le> range_bytes ?I" using i(1) by simp
  have P: "protects_units None [] s" by (simp add: protects_units_def)
  define rest where "rest = (\<lambda>s2. let s3 = bump_access (s2\<lparr>rm_registration_seq := rm_registration_seq s2 + 1\<rparr>);
             blank = blank_owner r (rm_registration_seq s3) (rm_access_seq s3) s3;
             filled = sync_derived (blank\<lparr>ow_resident := ?I, ow_dirty_ranges := (if rg_dirty r then ?I else [])\<rparr>)
           in sbind
             (if range_bytes ?I \<noteq> 0
              then case refresh_recency filled (ow_resident filled) (rm_access_seq s3) of
                  Inl e \<Rightarrow> (Inl e, s3)
                | Inr o1 \<Rightarrow> sbind (adjust_pool (range_bytes ?I) s3) (\<lambda>_ s. (Inr o1, s))
              else (Inr blank, s3))
             (\<lambda>o1 s4. sbind (validate_boundary (put_owner o1 s4)) (\<lambda>_ s5. (Inr o1, s5))))"
  have run: "register_owner r s = sbind (make_room (range_bytes ?I) None [] s) (\<lambda>_. rest)"
    unfolding register_owner_def Inr sum.case Let_def validate_ok [OF inv] sbind_simps rest_def ..
  show ?thesis
  proof (cases rule: make_room_cases [OF inv n0 P, case_names few made])
    case few
    then show ?thesis using raised run Inr by simp
  next
    case (made E ms s1)
    have inv1: "residency_inv s1" and ev: "evicts E ms s s1" using made(2) by (simp_all add: room_made_def)
    have keys: "map fst (rm_allocations s1) = map fst (rm_allocations s)" "rm_views s1 = rm_views s"
      "rm_leases s1 = rm_leases s" using ev by (simp_all add: evicts_def same_registry_def)
    have none1: "map_of (rm_allocations s1) ?k = None"
      using c(2) keys(1) by (metis map_of_eq_None_iff set_map)
    define s3 where "s3 = bump_access (s1\<lparr>rm_registration_seq := rm_registration_seq s1 + 1\<rparr>)"
    have "residency_inv (s1\<lparr>rm_registration_seq := rm_registration_seq s1 + 1\<rparr>)"
      using inv1 unfolding residency_off_def resident_sum_def migration_inv_def by simp
    then have inv3: "residency_off 0 s3" unfolding s3_def by (rule bump_inv)
    have f3: "rm_allocations s3 = rm_allocations s1" "rm_views s3 = rm_views s" "rm_leases s3 = rm_leases s"
      "rm_pool s3 = rm_pool s1" "rm_access_seq s3 = rm_access_seq s1 + 1"
      using keys by (simp_all add: s3_def bump_access_def)
    obtain n where pn: "rm_pool s3 = (rm_pool s)\<lparr>pl_resident := n\<rparr>" using ev f3 unfolding evicts_def by auto
    have aseq: "0 \<le> rm_access_seq s1" using inv1 by (simp add: residency_off_def)
    obtain o1 where o1: "(if range_bytes ?I \<noteq> 0 then refresh_recency (filled_blank r (rm_registration_seq s3) (rm_access_seq s1 + 1) s3 ?I)
         (ow_resident (filled_blank r (rm_registration_seq s3) (rm_access_seq s1 + 1) s3 ?I)) (rm_access_seq s1 + 1)
      else Inr (blank_owner r (rm_registration_seq s3) (rm_access_seq s1 + 1) s3)) = Inr o1"
      "owner_inv (pl_component (rm_pool s)) (rm_access_seq s1 + 1) ?k o1" "ow_resident o1 = ?I"
      by (rule registered_owner [OF Inr pn aseq])
    have id: "ow_id o1 = ?k" using o1(2) by (simp add: owner_inv_def)
    have oi: "owner_inv (pl_component (rm_pool s3)) (rm_access_seq s3) ?k o1" using o1(2) pn f3(5) by simp
    have "0 \<le> pl_resident (rm_pool s3) + range_bytes ?I"
      using residency_offD(9) [OF inv3] resident_sum_nonneg [OF inv3] n0 by simp
    then obtain p where p: "adjust_pool (range_bytes ?I) s3 = (Inr (), s3\<lparr>rm_pool := p\<rparr>)"
      "residency_off (0 + range_bytes ?I) (s3\<lparr>rm_pool := p\<rparr>)"
      "p = (rm_pool s3)\<lparr>pl_resident := pl_resident (rm_pool s3) + range_bytes ?I,
         pl_peak := max (pl_peak (rm_pool s3)) (pl_resident (rm_pool s3) + range_bytes ?I)\<rparr>"
      using adjust_pool_ok [OF inv3] made(3) f3(4) by metis
    have nol: "le_owner l \<noteq> ?k" if "map_of (rm_leases s) lk = Some l" for lk l
      using residency_offD(7) [OF inv that] c(2) by (auto simp: lease_inv_def)
    have new: "residency_off 0 (put_owner o1 s4)" if s4: "residency_off (range_bytes ?I) s4"
      "rm_allocations s4 = rm_allocations s1" "rm_views s4 = rm_views s" "rm_leases s4 = rm_leases s"
      "pl_component (rm_pool s4) = pl_component (rm_pool s)" "rm_access_seq s4 = rm_access_seq s1 + 1" for s4
    proof -
      have "residency_off (range_bytes ?I + dict_val (\<lambda>o1. range_bytes (ow_resident o1)) (rm_allocations s4) ?k
        - range_bytes (ow_resident o1)) (put_owner o1 s4)"
        by (rule put_owner_new [OF s4(1)]) (use o1(2) s4 none1 c(3) nol in auto)
      then show ?thesis using o1(3) none1 s4(2) by (simp add: dict_val_def)
    qed
    have app: "rm_allocations (put_owner o1 s4) = rm_allocations s1 @ [(ow_id o1, o1)]"
      if "rm_allocations s4 = rm_allocations s1" for s4
    proof -
      have "AList.update ?k o1 d = d @ [(?k, o1)]" if "map_of d ?k = None" for d using that
        by (induction d) (auto split: if_splits)
      then show ?thesis using none1 that by (simp add: put_owner_def id)
    qed
    have comp3: "pl_component (rm_pool s3) = pl_component (rm_pool s)" using pn by simp
    show ?thesis
    proof (cases "range_bytes ?I = 0")
      case True
      have b: "o1 = blank_owner r (rm_registration_seq s3) (rm_access_seq s1 + 1) s3" using o1(1) True by simp
      have inv4: "residency_inv (put_owner o1 s3)" by (rule new) (use inv3 True f3 comp3 in simp_all)
      have "rest s1 = (Inr o1, put_owner o1 s3)"
        unfolding rest_def Let_def s3_def [symmetric] using True f3(5) b validate_ok [OF inv4] by simp
      then have "register_owner r s = (Inr o1, put_owner o1 s3)" using run made(1) by simp
      then show ?thesis by (rule registered [OF _ inv4 made(2) id o1(3) app]) (use f3 c(2) id in simp_all)
    next
      case False
      let ?s4 = "s3\<lparr>rm_pool := p\<rparr>"
      have inv4: "residency_inv (put_owner o1 ?s4)" by (rule new) (use p f3 comp3 in simp_all)
      have "rest s1 = (Inr o1, put_owner o1 ?s4)"
        unfolding rest_def Let_def s3_def [symmetric] filled_blank_def [symmetric]
        using False f3(5) o1(1) p(1) validate_ok [OF inv4] by (simp add: filled_blank_def)
      then have "register_owner r s = (Inr o1, put_owner o1 ?s4)" using run made(1) by simp
      then show ?thesis by (rule registered [OF _ inv4 made(2) id o1(3) app]) (use f3 c(2) id in simp_all)
    qed
  qed
qed

lemma keeps_register: "residency_inv s \<Longrightarrow> keeps (register_owner r s) s"
  by (rule register_cases [of s r]) (auto simp: keeps_return)

section \<open>What a write pages in\<close>

text \<open>
  A write needs the old bytes of a granule only when it does not overwrite the granule
  completely, which concerns at most its first and its last one.
\<close>

lemma same_unit:
  fixes x s g :: int
  assumes "0 < g" "s mod g = 0" "s \<le> x" "x < s + g"
  shows "x div g = s div g"
proof -
  obtain k where k: "s = g * k" using assms(2) by (auto simp: mod_eq_0_iff_dvd)
  have "x div g = k" using int_div_pos_eq [of x g k "x - s"] assms k by simp
  then show ?thesis using k assms(1) by simp
qed

lemma partial_units:
  fixes off n c g x :: int
  assumes "0 < g" "0 \<le> off" "0 < n" "off + n \<le> c"
  defines "S \<equiv> off div g * g" and "W \<equiv> off + n"
  defines "E \<equiv> min c (ceil_div W g * g)" and "L \<equiv> (W - 1) div g * g"
  assumes x: "S \<le> x" "x < E"
  shows "(S < off \<and> x < S + g \<or> W < E \<and> L \<le> x \<and> x < L + g) \<longleftrightarrow>
    (\<exists>y. 0 \<le> y \<and> y < c \<and> y div g = x div g \<and> y \<notin> {off..<W})" (is "?first \<or> ?last \<longleftrightarrow> ?R")
proof -
  have S: "S mod g = 0" "0 \<le> S" "S \<le> off" "off < S + g"
    using assms(1,2) round_down_le [OF assms(1), of off] round_down_greater [OF assms(1), of off]
    by (simp_all add: S_def pos_imp_zdiv_nonneg_iff)
  have L: "L mod g = 0" "L \<le> W - 1" "W - 1 < L + g"
    using round_down_le [OF assms(1), of "W - 1"] round_down_greater [OF assms(1), of "W - 1"]
    by (simp_all add: L_def)
  have W: "0 < W" "W \<le> c" using assms by (simp_all add: W_def)
  have C: "W \<le> ceil_div W g * g" "ceil_div W g * g < W + g" "ceil_div W g * g mod g = 0"
    using round_up_ge [OF assms(1), of W] ceil_div_round [OF assms(1) W(1)] round_up_less [OF assms(1), of W] by simp_all
  have top: "ceil_div W g * g = L + g"
  proof (rule ccontr)
    assume ne: "ceil_div W g * g \<noteq> L + g"
    define i j where "i = (W - 1) div g" and "j = ceil_div W g"
    then have i: "L = i * g" and j: "ceil_div W g * g = j * g" by (simp_all add: L_def)
    have "(i + 2) * g = i * g + 2 * g" by (simp add: algebra_simps)
    then have "i * g < j * g" "j * g < (i + 2) * g" using C(1,2) L(2,3) i j by linarith+
    then have "i < j" "j < i + 2" using assms(1) by simp_all
    then have "j = i + 1" by simp
    then show False using ne i j by (simp add: algebra_simps)
  qed
  show ?thesis
  proof
    assume "?first \<or> ?last"
    then show ?R
    proof
      assume f: ?first
      have u: "x div g = S div g" by (rule same_unit [OF assms(1) S(1) x(1) conjunct2 [OF f]])
      have "S < c" "S < off" using f assms(3,4) by linarith+
      then show ?R using S(2) by (intro exI [of _ S] conjI) (simp_all add: u)
    next
      assume l: ?last
      have "W < L + g" using l top by (auto simp: E_def)
      then have "W div g = L div g" using L(2) by (intro same_unit [OF assms(1) L(1)]) linarith+
      moreover have "x div g = L div g" using l by (intro same_unit [OF assms(1) L(1)]) blast+
      ultimately have u: "W div g = x div g" by (rule trans [OF _ sym])
      have "W < c" using l by (simp add: E_def)
      then show ?R using W(1) by (intro exI [of _ W] conjI) (simp_all add: u)
    qed
  next
    assume ?R
    then obtain y where y: "0 \<le> y" "y < c" "y div g = x div g" "y \<notin> {off..<W}" by blast
    show "?first \<or> ?last"
    proof (cases "y < off")
      case True
      have Sy: "S \<le> y" using div_ge_same [OF assms(1) S(1) x(1) y(3)] .
      have "y < S + g" using True S(4) by linarith
      then have "y div g = S div g" using Sy by (intro same_unit [OF assms(1) S(1)])
      then have "x div g * g = S div g * g" using y(3) by argo
      also have "S div g * g = S" using S(1) by (metis add.right_neutral div_mult_mod_eq)
      finally have "x < S + g" using round_down_greater [OF assms(1), of x] by argo
      then show ?thesis using Sy True by linarith
    next
      case False
      then have yW: "W \<le> y" using y(4) by simp
      have WE: "W < E"
      proof (rule ccontr)
        assume "\<not> W < E"
        moreover have "W \<le> E" using C(1) W(2) by (simp add: E_def)
        ultimately have E: "E = W" by (rule order_antisym [OF leI])
        show False
        proof (cases "E = c")
          case True
          then show False using E yW y(2) by simp
        next
          case False
          then have "E mod g = 0" using C(3) by (simp add: E_def min_def split: if_splits)
          then show False using div_less_same [OF assms(1) _ x(2) y(3)] E yW by simp
        qed
      qed
      have "x < L + g" using x(2) top by (simp add: E_def)
      moreover have "L \<le> y" using L(2) yW by simp
      then have "L \<le> x" using div_ge_same [OF assms(1) L(1)] y(3) by metis
      ultimately show ?thesis using WE by simp
    qed
  qed
qed

lemma page_in_exact:
  assumes inv: "residency_off d s" and r: "resolve_access a s = Inr r"
    and m: "canonical missing" "covered missing \<subseteq> {rs_start r..<rs_end r}"
  shows "covered (page_in_needed op r missing) = {x \<in> covered missing. op = Write_Access \<longrightarrow>
    (\<exists>y. 0 \<le> y \<and> y < ow_committed (rs_owner r) \<and> y div ow_granule (rs_owner r) = x div ow_granule (rs_owner r) \<and>
      y \<notin> {rs_offset r..<rs_offset r + rs_size r})}"
proof (cases "op = Write_Access \<and> missing \<noteq> [] \<and> rs_size r \<noteq> 0")
  case True
  note ra = resolve_access_ok [OF inv r]
  let ?o = "rs_owner r" and ?c = "ow_committed (rs_owner r)" and ?g = "ow_granule (rs_owner r)"
  have g: "0 < ?g" using residency_offD(5) [OF inv ra(1)] by (simp add: owner_inv_def)
  have n: "0 < rs_size r" using ra(3) True by simp
  have se: "rs_start r = rs_offset r div ?g * ?g"
    "rs_end r = min ?c (ceil_div (rs_offset r + rs_size r) ?g * ?g)"
    using r True by (auto simp: resolve_access_def rbind_eq_Inr Let_def split: if_splits)
  let ?W = "rs_offset r + rs_size r"
  let ?L = "(?W - 1) div ?g * ?g"
  let ?P = "(if rs_start r < rs_offset r then [(rs_start r, min ?c (rs_start r + ?g))] else []) @
         (if ?W < rs_end r then [(?L, min ?c (?L + ?g))] else [])"
  have pe: "page_in_needed op r missing = intersect_ranges missing ?P"
    using True by (simp add: page_in_needed_def write_refault_ranges_def Let_def)
  have iff: "x \<in> covered ?P \<longleftrightarrow> (\<exists>y. 0 \<le> y \<and> y < ?c \<and> y div ?g = x div ?g \<and> y \<notin> {rs_offset r..<?W})"
    if x: "x \<in> covered missing" for x
  proof -
    have xb: "rs_start r \<le> x" "x < rs_end r" "x < ?c" using x m(2) se by auto
    have "x \<in> covered ?P \<longleftrightarrow> rs_start r < rs_offset r \<and> x < rs_start r + ?g \<or> ?W < rs_end r \<and> ?L \<le> x \<and> x < ?L + ?g"
      using xb by (auto simp: covered_simps)
    also have "\<dots> \<longleftrightarrow> (\<exists>y. 0 \<le> y \<and> y < ?c \<and> y div ?g = x div ?g \<and> y \<notin> {rs_offset r..<?W})"
      using partial_units [OF g ra(2) n ra(4)] xb unfolding se by blast
    finally show ?thesis .
  qed
  show ?thesis unfolding pe covered_intersect using iff True by blast
next
  case False
  note ra = resolve_access_ok [OF inv r]
  show ?thesis
  proof (cases "op = Write_Access")
    case True
    then have "covered missing = {}" using False m(2) ra(7) by auto
    then show ?thesis using page_in_within(2) [OF m(1), of op r] by auto
  qed (simp add: page_in_needed_def)
qed

end
