(* ===== verification/Residency_Props.thy ===== *)
theory Residency_Props
  imports Residency_Ops
begin

text \<open>
  The residency manager as a state machine over its public operations, and the properties of the
  component: its self-check never fails, failed operations change nothing, what an access does to
  the bytes, which bytes eviction may take and in which order, write-backs of dirty bytes, the
  equivalence of the recency splice with the general path, and the progress of registrations.
\<close>

section \<open>The state machine\<close>

definition residency_start :: "manager \<Rightarrow> bool" where
  "residency_start s \<longleftrightarrow> (\<exists>arg capacity page. new_manager arg capacity page = Inr s \<and>
     (\<forall>p. arg = Existing_Pool p \<longrightarrow> (\<exists>c n g. make_pool c n g = Inr p)))"

inductive residency_step :: "manager \<Rightarrow> manager \<Rightarrow> bool" where
  step_register: "residency_step s (snd (register_owner r s))"
| step_create_view: "residency_step s (snd (create_view v k off sz s))"
| step_release_view: "residency_step s (snd (release_view v s))"
| step_release: "residency_step s (snd (release_owner k f s))"
| step_acquire_lease: "residency_step s (snd (acquire_lease l t c off sz s))"
| step_release_lease: "residency_step s (snd (release_lease l s))"
| step_release_consumer: "residency_step s (snd (release_consumer_leases t s))"
| step_retire: "residency_step s (snd (retire_completed ts s))"
| step_commit: "residency_step s (snd (commit_owner k n s))"
| step_access: "residency_step s (snd (residency_access a s))"
| step_access_many: "residency_step s (snd (residency_access_many as s))"
| step_evict: "residency_step s (snd (evict k m s))"
| step_begin_deferred: "residency_step s (snd (begin_deferred s))"
| step_end_deferred: "residency_step s (snd (end_deferred s))"

inductive_cases residency_stepE: "residency_step s s'"

lemma residency_start_inv: "residency_start s \<Longrightarrow> residency_inv s"
proof -
  assume "residency_start s"
  then obtain arg capacity page where n: "new_manager arg capacity page = Inr s"
    and p: "\<And>p. arg = Existing_Pool p \<Longrightarrow> \<exists>c n g. make_pool c n g = Inr p"
    by (auto simp: residency_start_def)
  have mk: "pl_resident p = 0 \<and> pl_peak p = 0 \<and> 0 \<le> pl_capacity p \<and> 0 < pl_page_size p"
    if "make_pool c m g = Inr p" for c m g p
    using that by (auto simp: make_pool_def split: if_splits)
  have "\<exists>q. rm_pool s = q \<and> pl_resident q = 0 \<and> pl_peak q = 0 \<and> 0 \<le> pl_capacity q \<and> 0 < pl_page_size q"
  proof (cases arg)
    case (Existing_Pool q)
    then show ?thesis using n p mk by (auto simp: new_manager_def split: if_splits)
  next
    case (Pool_Component comp)
    then show ?thesis using n mk by (auto simp: new_manager_def rbind_eq_Inr split: option.splits)
  qed
  moreover have "rm_allocations s = []" "rm_views s = []" "rm_leases s = []" "rm_anchors s = []"
    "rm_access_seq s = 0" "migration_inv s"
    using n by (auto simp: new_manager_def rbind_eq_Inr migration_inv_def)
  ultimately show ?thesis by (auto simp: residency_off_def resident_sum_def)
qed

lemma residency_many_inv: "residency_inv s \<Longrightarrow> residency_inv (snd (residency_access_many as s))"
proof (induction as arbitrary: s)
  case (Cons a as)
  obtain r s1 where a: "residency_access a s = (r, s1)" by (cases "residency_access a s")
  have inv1: "residency_inv s1" using keeps_access [OF Cons.prems, of a] a by (simp add: keeps_def)
  show ?case
  proof (cases r)
    case (Inr x)
    obtain r2 s2 where b: "residency_access_many as s1 = (r2, s2)" by (cases "residency_access_many as s1")
    then have "residency_inv s2" using Cons.IH [OF inv1] by simp
    then show ?thesis using a b Inr by (cases r2) simp_all
  qed (use a inv1 in simp)
qed simp

lemmas residency_keeps = keeps_register keeps_create_view keeps_release_view keeps_release_owner
  keeps_acquire_lease keeps_release_lease keeps_release_consumer keeps_retire keeps_commit keeps_access
  keeps_evict keeps_begin_deferred keeps_end_deferred

lemma keeps_inv: "keeps r s \<Longrightarrow> residency_inv (snd r)"
  by (simp add: keeps_def)

lemma residency_step_inv: "residency_inv s \<Longrightarrow> residency_step s s' \<Longrightarrow> residency_inv s'"
  by (erule residency_stepE) (auto intro: keeps_inv residency_keeps residency_many_inv)

interpretation residency_machine: state_machine residency_start residency_step residency_inv
  by unfold_locales (fact residency_start_inv, fact residency_step_inv)

section \<open>Example states\<close>

definition example_registration :: "string \<Rightarrow> int \<Rightarrow> registration" where
  "example_registration name bytes = \<lparr>rg_id = name, rg_size = 64, rg_kind = ''kv'', rg_backing = Some ''hbf'',
     rg_committed = None, rg_resident = bytes, rg_dirty = True, rg_evictable = None, rg_pinned = False,
     rg_lifecycle = Persistent, rg_read_only = None, rg_granule = Some 16\<rparr>"

definition example_manager0 :: manager where
  "example_manager0 = projr (new_manager (Pool_Component ''hbm'') (Some 64) 16)"

definition example_manager1 :: manager where
  "example_manager1 = snd (register_owner (example_registration ''a'' 48) example_manager0)"

definition example_manager :: manager where
  "example_manager = snd (register_owner (example_registration ''b'' 16) example_manager1)"

definition example_memory_access :: memory_access where
  "example_memory_access = \<lparr>ma_target = ''b'', ma_operation = Write_Access, ma_offset = 20, ma_size = Some 20\<rparr>"

lemma example_manager1_reach: "reach residency_start residency_step example_manager1"
proof -
  have "new_manager (Pool_Component ''hbm'') (Some 64) 16 = Inr example_manager0" by code_simp
  then have "residency_start example_manager0"
    unfolding residency_start_def by (intro exI conjI) auto
  then have "reach residency_start residency_step example_manager0" by (rule reach_start)
  then show ?thesis
    unfolding example_manager1_def by (rule reach_step) (rule step_register)
qed

lemma example_manager_reach: "reach residency_start residency_step example_manager"
  unfolding example_manager_def using example_manager1_reach by (rule reach_step) (rule step_register)

section \<open>Properties\<close>

text \<open>C17: in every reachable manager the code's own self-check succeeds and changes nothing,
  the pool total is the number of resident bytes and stays within the capacity and the recorded
  peak, and the bytes of every lease are resident.\<close>

theorem residency_self_check:
  assumes "reach residency_start residency_step s"
  shows "assert_consistent s = (Inr (), s)
    \<and> pl_resident (rm_pool s) = dict_sum (\<lambda>o1. int (card (covered (ow_resident o1)))) (rm_allocations s)
    \<and> 0 \<le> pl_resident (rm_pool s) \<and> pl_resident (rm_pool s) \<le> pl_peak (rm_pool s)
    \<and> pl_peak (rm_pool s) \<le> pl_capacity (rm_pool s)
    \<and> (\<forall>k l. map_of (rm_leases s) k = Some l \<longrightarrow> (\<exists>o1. map_of (rm_allocations s) (le_owner l) = Some o1 \<and>
         covered (le_ranges l) \<subseteq> covered (ow_resident o1)))
    \<and> mt_page_out (rm_totals s) = mt_clean_discard (rm_totals s) + mt_dirty_writeback (rm_totals s)"
proof -
  have inv: "residency_inv s" by (rule residency_machine.reach_inv [OF assms])
  have "dict_sum (\<lambda>o1. range_bytes (ow_resident o1)) d = dict_sum (\<lambda>o1. int (card (covered (ow_resident o1)))) d"
    if "\<forall>(k, o1) \<in> set d. canonical (ow_resident o1)" for d :: "(string, owner) dict"
    using that by (induction d) (auto simp: range_bytes_card)
  moreover have "\<forall>(k, o1) \<in> set (rm_allocations s). canonical (ow_resident o1)"
    using residency_offD(5) [OF inv] wf_dict_in_iff [OF residency_offD(1) [OF inv]] by (auto simp: owner_inv_def)
  ultimately have "resident_sum s = dict_sum (\<lambda>o1. int (card (covered (ow_resident o1)))) (rm_allocations s)"
    by (simp add: resident_sum_def)
  moreover have "\<exists>o1. map_of (rm_allocations s) (le_owner l) = Some o1 \<and> covered (le_ranges l) \<subseteq> covered (ow_resident o1)"
    if "map_of (rm_leases s) k = Some l" for k l
    using residency_offD(7) [OF inv that] by (auto simp: lease_inv_def)
  moreover have "sum_list (map mg_page_out ms) = sum_list (map mg_clean_discard ms) + sum_list (map mg_dirty_writeback ms)" for ms
  proof (induction ms)
    case (Cons m ms)
    then show ?case by (cases "mg_kind m") (simp_all add: mg_page_out_def mg_clean_discard_def mg_dirty_writeback_def)
  qed simp
  moreover have "migration_inv s" using residency_offD(11) [OF inv] .
  ultimately show ?thesis
    using assert_consistent_ok [OF inv] residency_offD(9) [OF inv] resident_sum_nonneg [OF inv] inv
    by (auto simp: residency_off_def migration_inv_def)
qed

theorem residency_self_check_witness: "fst (assert_consistent example_manager) = Inr ()
    \<and> pl_resident (rm_pool example_manager) = 64"
proof -
  have "pl_resident (rm_pool example_manager) = 64" by code_simp
  then show ?thesis using residency_self_check [OF example_manager_reach] by simp
qed

definition unchanged_on_raise :: "'a residency_op \<Rightarrow> manager \<Rightarrow> bool" where
  "unchanged_on_raise r s \<longleftrightarrow> (\<forall>e. fst r = Inl e \<longrightarrow> snd r = s)"

lemma keeps_unchanged: "keeps r s \<Longrightarrow> unchanged_on_raise r s"
  by (simp add: keeps_def unchanged_on_raise_def)

text \<open>A batch that raises stops at the access that raises, with the accesses before it done.\<close>

definition stopped_at :: "memory_access list \<Rightarrow> residency_error \<Rightarrow> manager \<Rightarrow> manager \<Rightarrow> bool" where
  "stopped_at as e s s' \<longleftrightarrow> (\<exists>bs a cs rs. as = bs @ a # cs \<and> residency_access_many bs s = (Inr rs, s')
     \<and> residency_access a s' = (Inl e, s'))"

lemma access_many_stops:
  "residency_inv s \<Longrightarrow> residency_access_many as s = (Inl e, s') \<Longrightarrow> stopped_at as e s s'"
proof (induction as arbitrary: s)
  case (Cons a as)
  obtain r s1 where a: "residency_access a s = (r, s1)" by (cases "residency_access a s")
  have k: "residency_inv s1" "\<And>e. r = Inl e \<Longrightarrow> s1 = s"
    using keeps_access [OF Cons.prems(1), of a] a by (auto simp: keeps_def)
  show ?case
  proof (cases r)
    case (Inl e1)
    then have "e1 = e" "s' = s" "s1 = s" using Cons.prems(2) a k(2) by simp_all
    then have "a # as = [] @ a # as \<and> residency_access_many [] s = (Inr [], s') \<and> residency_access a s' = (Inl e, s')"
      using a Inl by simp
    then show ?thesis unfolding stopped_at_def by blast
  next
    case (Inr x)
    then have "residency_access_many as s1 = (Inl e, s')"
      using Cons.prems(2) a by (simp add: sbind_eq_Inl)
    from Cons.IH [OF k(1) this] obtain bs b cs rs where
      "as = bs @ b # cs" "residency_access_many bs s1 = (Inr rs, s')" "residency_access b s' = (Inl e, s')"
      by (auto simp: stopped_at_def)
    then have "a # as = (a # bs) @ b # cs \<and> residency_access_many (a # bs) s = (Inr (x # rs), s')
        \<and> residency_access b s' = (Inl e, s')"
      using a Inr by simp
    then show ?thesis unfolding stopped_at_def by blast
  qed
qed simp

text \<open>C20: every operation on a reachable manager other than a batch of accesses leaves the manager
  exactly as it was when it raises; in particular an access or a registration that finds no room has
  evicted nothing. A batch is not undone: when \<open>access_many\<close> raises, one of its accesses raised, the
  accesses before that one are done and nothing else is.\<close>

theorem residency_fail_closed:
  assumes "reach residency_start residency_step s"
  shows "(\<forall>r. unchanged_on_raise (register_owner r s) s)
    \<and> (\<forall>k n g. unchanged_on_raise (claim_system k n g s) s)
    \<and> (\<forall>k n d i b v g. unchanged_on_raise (register_temporary k n d i b v g s) s)
    \<and> (\<forall>v k off sz. unchanged_on_raise (create_view v k off sz s) s)
    \<and> (\<forall>v. unchanged_on_raise (release_view v s) s)
    \<and> (\<forall>k f. unchanged_on_raise (release_owner k f s) s)
    \<and> (\<forall>l t c off sz. unchanged_on_raise (acquire_lease l t c off sz s) s)
    \<and> (\<forall>l. unchanged_on_raise (release_lease l s) s)
    \<and> (\<forall>t. unchanged_on_raise (release_consumer_leases t s) s)
    \<and> (\<forall>ts. unchanged_on_raise (retire_completed ts s) s)
    \<and> (\<forall>k c. unchanged_on_raise (commit_owner k c s) s)
    \<and> (\<forall>a. unchanged_on_raise (residency_access a s) s)
    \<and> (\<forall>t off sz. unchanged_on_raise (touch_target t off sz s) s
          \<and> unchanged_on_raise (read_target t off sz s) s \<and> unchanged_on_raise (write_target t off sz s) s)
    \<and> (\<forall>k n. unchanged_on_raise (evict k n s) s)
    \<and> unchanged_on_raise (begin_deferred s) s \<and> unchanged_on_raise (end_deferred s) s
    \<and> (\<forall>as e. fst (residency_access_many as s) = Inl e \<longrightarrow>
          stopped_at as e s (snd (residency_access_many as s)))"
proof -
  have inv: "residency_inv s" by (rule residency_machine.reach_inv [OF assms])
  have "stopped_at as e s (snd (residency_access_many as s))" if "fst (residency_access_many as s) = Inl e" for as e
    using access_many_stops [OF inv, of as e] that by (cases "residency_access_many as s") simp
  then show ?thesis
    unfolding claim_system_def register_temporary_def touch_target_def read_target_def write_target_def
    by (intro conjI allI impI keeps_unchanged residency_keeps inv) auto
qed

theorem residency_fail_closed_witness:
  "snd (register_owner (example_registration ''a'' 48) example_manager) = example_manager
    \<and> (\<exists>e. fst (register_owner (example_registration ''a'' 48) example_manager) = Inl e)"
proof -
  have "fst (register_owner (example_registration ''a'' 48) example_manager) =
      Inl (Residency_Validation ''allocation/view id already registered'')" by code_simp
  then show ?thesis using conjunct1 [OF residency_fail_closed [OF example_manager_reach]]
    unfolding unchanged_on_raise_def by blast
qed

text \<open>C18: an access that succeeds makes every granule its range touches resident and stamps it with
  the access's sequence number, dirties exactly those granules when it writes, pages in exactly the
  missing bytes of the granules it does not overwrite completely, and leaves every other byte of
  every owner as it was, up to the bytes it evicts, none of which the access itself needs.\<close>

theorem access_effect:
  assumes "reach residency_start residency_step s" and "residency_access a s = (Inr res, s')"
  shows "\<exists>r E X. resolve_access a s = Inr r \<and> X = {rs_start r..<rs_end r}
    \<and> {rs_offset r..<rs_offset r + rs_size r} \<subseteq> X \<and> E (ow_id (rs_owner r)) \<inter> X = {}
    \<and> (\<exists>o5. map_of (rm_allocations s') (ow_id (rs_owner r)) = Some o5
        \<and> covered (ow_resident o5) = covered (ow_resident (rs_owner r)) - E (ow_id (rs_owner r)) \<union> X
        \<and> covered (ow_dirty_ranges o5) = covered (ow_dirty_ranges (rs_owner r)) - E (ow_id (rs_owner r))
            \<union> (if ma_operation a = Write_Access then X else {})
        \<and> stamped (ow_recency o5) = {(x, q) \<in> stamped (ow_recency (rs_owner r)).
            x \<notin> E (ow_id (rs_owner r)) \<union> X} \<union> X \<times> {rm_access_seq s + 1})
    \<and> (\<forall>k o1. k \<noteq> ow_id (rs_owner r) \<and> map_of (rm_allocations s) k = Some o1 \<longrightarrow>
        (\<exists>o2. map_of (rm_allocations s') k = Some o2 \<and> shrunk (E k) o1 o2))
    \<and> rr_page_in res = int (card {x \<in> X - covered (ow_resident (rs_owner r)). ma_operation a = Write_Access \<longrightarrow>
        (\<exists>y. 0 \<le> y \<and> y < ow_committed (rs_owner r) \<and>
           y div ow_granule (rs_owner r) = x div ow_granule (rs_owner r) \<and>
           y \<notin> {rs_offset r..<rs_offset r + rs_size r})})
    \<and> pl_resident (rm_pool s') = pl_resident (rm_pool s) + int (card (X - covered (ow_resident (rs_owner r))))
        - sum_list (map mg_page_out (rr_migrations res))"
proof -
  have inv: "residency_inv s" by (rule residency_machine.reach_inv [OF assms(1)])
  show ?thesis
  proof (cases rule: residency_access_cases [OF inv, of a, case_names raised accessed])
    case (raised e)
    then show ?thesis using assms(2) by simp
  next
    case (accessed r E ms pgs res' s'' s1)
    have eq: "res' = res" "s'' = s'" using accessed(1) assms(2) by simp_all
    let ?o = "rs_owner r" and ?X = "{rs_start r..<rs_end r}"
    note ra = resolve_access_ok [OF inv accessed(3)]
    have disj: "E (ow_id ?o) \<inter> ?X = {}"
      using room_made_protects [OF accessed(4) ra(1)] ra(9) by (auto simp: protected_bytes_def)
    note ad = accessed(5) [unfolded eq access_done_def Let_def dirtied_def ra(9)]
    have cm: "canonical (subtract_ranges (required_ranges r) (ow_resident ?o))"
      "covered (subtract_ranges (required_ranges r) (ow_resident ?o)) = ?X - covered (ow_resident ?o)"
      using ra(9,10) by simp_all
    have pin: "rr_page_in res = int (card {x \<in> ?X - covered (ow_resident ?o). ma_operation a = Write_Access \<longrightarrow>
        (\<exists>y. 0 \<le> y \<and> y < ow_committed ?o \<and> y div ow_granule ?o = x div ow_granule ?o \<and>
           y \<notin> {rs_offset r..<rs_offset r + rs_size r})})"
    proof -
      have "covered (subtract_ranges (required_ranges r) (ow_resident ?o)) \<subseteq> ?X" using cm(2) by blast
      note page_in_exact [OF inv accessed(3) cm(1) this, of "ma_operation a"]
      then show ?thesis using ad range_bytes_card [OF page_in_within(1) [OF cm(1)], of "ma_operation a" r]
        unfolding cm(2) by simp
    qed
    have out: "sum_list (map mg_page_out pgs) = 0"
    proof -
      have "\<forall>m \<in> set pgs. mg_kind m = Page_In" using ad by (simp add: paged_in_def)
      then show ?thesis by (induction pgs) (simp_all add: mg_page_out_def)
    qed
    have q: "rr_sequence res = rm_access_seq s + 1" using ad by blast
    have pool: "pl_resident (rm_pool s') = pl_resident (rm_pool s) + int (card (?X - covered (ow_resident ?o)))
        - sum_list (map mg_page_out (rr_migrations res))" using ad out by simp
    show ?thesis
      by (intro exI [of _ r] exI [of _ E] exI [of _ ?X] conjI)
        (fact accessed(3) disj ra(6) pin pool refl ad [THEN conjunct1, unfolded q]
          ad [THEN conjunct2, THEN conjunct1])+
  qed
qed

text \<open>The example access needs 32 bytes that are not there, and room for them.\<close>

lemma example_residency_access_runs:
  obtains res s' where "residency_access example_memory_access example_manager = (Inr res, s')"
proof -
  have inv: "residency_inv example_manager" by (rule residency_machine.reach_inv [OF example_manager_reach])
  have c: "case resolve_access example_memory_access example_manager of Inl e \<Rightarrow> False
    | Inr r \<Rightarrow> \<not> ow_read_only (rs_owner r) \<and> ow_backing (rs_owner r) = Some ''hbf'' \<and>
       fst (make_room (range_bytes (subtract_ranges (required_ranges r) (ow_resident (rs_owner r))))
         (Some (ow_id (rs_owner r))) (required_ranges r) example_manager) = Inr ()" by code_simp
  show ?thesis
  proof (cases rule: residency_access_cases [OF inv, of example_memory_access, case_names raised accessed])
    case (raised e)
    then have False
      using c by (cases "resolve_access example_memory_access example_manager")
        (simp_all add: access_refusal_def Let_def)
    then show ?thesis ..
  qed (rule that)
qed

lemma example_access_resolves:
  "resolve_access example_memory_access example_manager = Inr r \<Longrightarrow>
    ow_id (rs_owner r) = ''b'' \<and> rs_start r = 16 \<and> rs_end r = 48"
proof -
  have "case resolve_access example_memory_access example_manager of Inr r \<Rightarrow>
    ow_id (rs_owner r) = ''b'' \<and> rs_start r = 16 \<and> rs_end r = 48 | _ \<Rightarrow> False" by code_simp
  then show "resolve_access example_memory_access example_manager = Inr r \<Longrightarrow>
    ow_id (rs_owner r) = ''b'' \<and> rs_start r = 16 \<and> rs_end r = 48" by simp
qed

theorem access_effect_witness:
  "\<exists>res s' o5. residency_access example_memory_access example_manager = (Inr res, s')
    \<and> map_of (rm_allocations s') ''b'' = Some o5 \<and> 40 \<in> covered (ow_dirty_ranges o5)"
proof -
  obtain res s' where run: "residency_access example_memory_access example_manager = (Inr res, s')"
    by (rule example_residency_access_runs)
  from access_effect [OF example_manager_reach run] obtain r E where
    e: "resolve_access example_memory_access example_manager = Inr r"
    "\<exists>o5. map_of (rm_allocations s') (ow_id (rs_owner r)) = Some o5
        \<and> covered (ow_dirty_ranges o5) = covered (ow_dirty_ranges (rs_owner r)) - E (ow_id (rs_owner r))
            \<union> (if ma_operation example_memory_access = Write_Access then {rs_start r..<rs_end r} else {})" by blast
  have "ma_operation example_memory_access = Write_Access" by (simp add: example_memory_access_def)
  then have "\<exists>o5. map_of (rm_allocations s') ''b'' = Some o5 \<and> 40 \<in> covered (ow_dirty_ranges o5)"
    using e(2) example_access_resolves [OF e(1)] by auto
  then show ?thesis using run by blast
qed

lemma evicts_owner:
  assumes "evicts E ms s s'" "map_of (rm_allocations s) k = Some o1" "map_of (rm_allocations s') k = Some o2"
  shows "E k \<subseteq> covered (ow_resident o1)" "shrunk (E k) o1 o2" "moved mg_page_out k ms = int (card (E k))"
    "moved mg_dirty_writeback k ms = int (card (E k \<inter> covered (ow_dirty_ranges o1)))"
proof -
  have e: "E k \<subseteq> covered (ow_resident o1) \<and> (\<exists>o'. map_of (rm_allocations s') k = Some o' \<and> shrunk (E k) o1 o') \<and>
      moved mg_page_out k ms = int (card (E k)) \<and>
      moved mg_dirty_writeback k ms = int (card (E k \<inter> covered (ow_dirty_ranges o1)))"
    using assms(1,2) unfolding evicts_def by blast
  then show "E k \<subseteq> covered (ow_resident o1)" "moved mg_page_out k ms = int (card (E k))"
    "moved mg_dirty_writeback k ms = int (card (E k \<inter> covered (ow_dirty_ranges o1)))" by blast+
  show "shrunk (E k) o1 o2" using e assms(3) by auto
qed

text \<open>C19: the bytes an access evicts belong to unpinned evictable owners, none of them is leased
  or needed by the access, no byte that stays and could have been evicted was used less recently,
  and per owner the log shows exactly the evicted bytes, the dirty ones as written back.\<close>

theorem access_evicts_lru:
  assumes "reach residency_start residency_step s" and "residency_access a s = (Inr res, s')"
    and "resolve_access a s = Inr r"
  shows "\<exists>E. (\<forall>k o1 o2. map_of (rm_allocations s) k = Some o1 \<and> map_of (rm_allocations s') k = Some o2 \<longrightarrow>
        E k = covered (ow_resident o1) - covered (ow_resident o2)
        \<and> E k \<inter> protected_bytes k (Some (ow_id (rs_owner r))) (required_ranges r) s = {}
        \<and> (E k \<noteq> {} \<longrightarrow> evictable_now o1)
        \<and> moved mg_page_out k (rr_migrations res) = int (card (E k))
        \<and> moved mg_dirty_writeback k (rr_migrations res) = int (card (E k \<inter> covered (ow_dirty_ranges o1))))
    \<and> (\<forall>k o1 x q k' o' x' q'. map_of (rm_allocations s) k = Some o1 \<and> (x, q) \<in> stamped (ow_recency o1) \<and> x \<in> E k
        \<and> map_of (rm_allocations s) k' = Some o'
        \<and> (x', q') \<in> evictable_stamps k' o' (Some (ow_id (rs_owner r))) (required_ranges r) s \<and> x' \<notin> E k'
        \<longrightarrow> q \<le> q')"
proof -
  have inv: "residency_inv s" by (rule residency_machine.reach_inv [OF assms(1)])
  show ?thesis
  proof (cases rule: residency_access_cases [OF inv, of a, case_names raised accessed])
    case (raised e)
    then show ?thesis using assms(2) by simp
  next
    case (accessed r' E ms pgs res' s'' s1)
    have eq: "res' = res" "s'' = s'" "r' = r" using accessed(1,3) assms(2,3) by simp_all
    note rm = accessed(4) [unfolded eq] and ra = resolve_access_ok [OF inv assms(3)]
    note ad = accessed(5) [unfolded eq access_done_def Let_def]
    have ev: "evicts E ms s s1" and lru: "lru_evicted (Some (ow_id (rs_owner r))) (required_ranges r) s E"
      using rm by (simp_all add: room_made_def)
    have pg0: "moved mg_page_out k pgs = 0 \<and> moved mg_dirty_writeback k pgs = 0" for k
    proof -
      have "\<forall>m \<in> set pgs. mg_kind m = Page_In" using ad by (simp add: paged_in_def)
      then show ?thesis by (induction pgs) (simp_all add: mg_page_out_def mg_dirty_writeback_def)
    qed
    have mig: "rr_migrations res = ms @ pgs" using ad by blast
    have owners: "E k = covered (ow_resident o1) - covered (ow_resident o2)
        \<and> E k \<inter> protected_bytes k (Some (ow_id (rs_owner r))) (required_ranges r) s = {}
        \<and> (E k \<noteq> {} \<longrightarrow> evictable_now o1)
        \<and> moved mg_page_out k (rr_migrations res) = int (card (E k))
        \<and> moved mg_dirty_writeback k (rr_migrations res) = int (card (E k \<inter> covered (ow_dirty_ranges o1)))"
      if o1: "map_of (rm_allocations s) k = Some o1" and o2: "map_of (rm_allocations s') k = Some o2" for k o1 o2
    proof -
      have sub: "E k \<subseteq> covered (ow_resident o1)" "moved mg_page_out k ms = int (card (E k))"
        "moved mg_dirty_writeback k ms = int (card (E k \<inter> covered (ow_dirty_ranges o1)))"
        using ev o1 unfolding evicts_def by blast+
      note pr = room_made_protects [OF rm o1]
      have "E k \<subseteq> fst ` evictable_stamps k o1 (Some (ow_id (rs_owner r))) (required_ranges r) s"
        using rm o1 unfolding room_made_def by blast
      then have en: "E k \<noteq> {} \<longrightarrow> evictable_now o1" using evictable_stamps_sub(2) by fastforce
      have "E k = covered (ow_resident o1) - covered (ow_resident o2)"
      proof (cases "k = ow_id (rs_owner r)")
        case True
        then have "o1 = rs_owner r" using o1 ra(1) by simp
        moreover have "covered (ow_resident o2) = covered (ow_resident (rs_owner r)) - E k \<union> {rs_start r..<rs_end r}"
          using ad o2 True by auto
        moreover have "E k \<inter> {rs_start r..<rs_end r} = {}" using pr True ra(9) by (auto simp: protected_bytes_def)
        ultimately show ?thesis using sub(1) by blast
      next
        case False
        then have "shrunk (E k) o1 o2" using ad o1 o2 by fastforce
        then show ?thesis using sub(1) by (auto simp: shrunk_def)
      qed
      then show ?thesis using pr en sub(2,3) pg0 mig by simp
    qed
    show ?thesis
    proof (intro exI [of _ E] conjI)
      show "\<forall>k o1 x q k' o' x' q'. map_of (rm_allocations s) k = Some o1 \<and> (x, q) \<in> stamped (ow_recency o1) \<and> x \<in> E k
        \<and> map_of (rm_allocations s) k' = Some o'
        \<and> (x', q') \<in> evictable_stamps k' o' (Some (ow_id (rs_owner r))) (required_ranges r) s \<and> x' \<notin> E k'
        \<longrightarrow> q \<le> q'" using lru unfolding lru_evicted_def .
    qed (use owners in blast)
  qed
qed

theorem access_evicts_lru_witness:
  "\<exists>res s'. residency_access example_memory_access example_manager = (Inr res, s')
    \<and> (\<forall>o1 o2. map_of (rm_allocations example_manager) ''a'' = Some o1 \<and> map_of (rm_allocations s') ''a'' = Some o2
      \<longrightarrow> moved mg_page_out ''a'' (rr_migrations res) = int (card (covered (ow_resident o1) - covered (ow_resident o2))))"
proof -
  obtain res s' where run: "residency_access example_memory_access example_manager = (Inr res, s')"
    by (rule example_residency_access_runs)
  have "\<exists>r. resolve_access example_memory_access example_manager = Inr r"
  proof -
    have "case resolve_access example_memory_access example_manager of Inl e \<Rightarrow> False | Inr r \<Rightarrow> True" by code_simp
    then show ?thesis by (simp split: sum.splits)
  qed
  then obtain r where r: "resolve_access example_memory_access example_manager = Inr r" ..
  from access_evicts_lru [OF example_manager_reach run r] show ?thesis using run by metis
qed

text \<open>C21: a registration that passes its checks succeeds whenever the bytes it still needs do not
  exceed the bytes that may be evicted, and so does an access that resolves, may write and has a
  backing tier to page in from.\<close>

theorem residency_progress:
  assumes "reach residency_start residency_step s"
  shows "(\<forall>r. register_checks r s = Inr ()
        \<and> room_needed (range_bytes (initial_ranges r s)) s \<le> evictable_total None [] s
      \<longrightarrow> (\<exists>o1 s'. register_owner r s = (Inr o1, s')))
    \<and> (\<forall>a r. resolve_access a s = Inr r \<and> \<not> (ma_operation a = Write_Access \<and> ow_read_only (rs_owner r))
        \<and> ow_backing (rs_owner r) \<noteq> None
        \<and> room_needed (int (card ({rs_start r..<rs_end r} - covered (ow_resident (rs_owner r))))) s
            \<le> evictable_total (Some (ow_id (rs_owner r))) (required_ranges r) s
      \<longrightarrow> (\<exists>res s'. residency_access a s = (Inr res, s')))"
proof (intro conjI allI impI; elim conjE)
  have inv: "residency_inv s" by (rule residency_machine.reach_inv [OF assms])
  {
    fix r assume r: "register_checks r s = Inr ()"
      "room_needed (range_bytes (initial_ranges r s)) s \<le> evictable_total None [] s"
    show "\<exists>o1 s'. register_owner r s = (Inr o1, s')"
    proof (cases rule: register_cases [OF inv, of r, case_names raised registered])
      case (raised e)
      then show ?thesis using r by simp
    qed blast
  next
    fix a r assume r: "resolve_access a s = Inr r" "\<not> (ma_operation a = Write_Access \<and> ow_read_only (rs_owner r))"
      "ow_backing (rs_owner r) \<noteq> None"
      "room_needed (int (card ({rs_start r..<rs_end r} - covered (ow_resident (rs_owner r))))) s
            \<le> evictable_total (Some (ow_id (rs_owner r))) (required_ranges r) s"
    note ra = resolve_access_ok [OF inv r(1)]
    have mb: "range_bytes (subtract_ranges (required_ranges r) (ow_resident (rs_owner r))) =
        int (card ({rs_start r..<rs_end r} - covered (ow_resident (rs_owner r))))"
      using ra(9,10) by (simp add: range_bytes_card)
    show "\<exists>res s'. residency_access a s = (Inr res, s')"
    proof (cases rule: residency_access_cases [OF inv, of a, case_names raised accessed])
      case (raised e)
      then show ?thesis using r by (auto simp: access_refusal_def Let_def mb)
    qed blast
  }
qed

theorem residency_progress_witness:
  "\<exists>o1 s'. register_owner (example_registration ''b'' 16) example_manager1 = (Inr o1, s')"
proof -
  have c: "register_checks (example_registration ''b'' 16) example_manager1 = Inr ()"
    "room_needed (range_bytes (initial_ranges (example_registration ''b'' 16) example_manager1)) example_manager1 = 0"
    by code_simp+
  have "0 \<le> evictable_total None [] example_manager1"
    unfolding evictable_total_def by (rule dict_sum_nonneg) simp
  then show ?thesis using residency_progress [OF example_manager1_reach] c by simp
qed

text \<open>C22: \<open>evict\<close> takes at least the asked bytes, only bytes outside every lease, always the
  highest such bytes of the allocation, and logs them, the dirty ones as written back.\<close>

theorem evict_takes_highest:
  assumes "reach residency_start residency_step s" and "evict k n s = (Inr ms, s')"
    and "map_of (rm_allocations s) k = Some o1" and "map_of (rm_allocations s') k = Some o2"
  defines "X \<equiv> covered (ow_resident o1) - covered (ow_resident o2)"
    and "U \<equiv> covered (ow_resident o1) - protected_bytes k None [] s"
  shows "covered (ow_resident o2) \<subseteq> covered (ow_resident o1)
    \<and> X \<subseteq> U \<and> (\<forall>x \<in> X. \<forall>y \<in> U - X. y < x)
    \<and> (case n of None \<Rightarrow> int (card (covered (ow_resident o1))) | Some b \<Rightarrow> b) \<le> int (card X)
    \<and> moved mg_page_out k ms = int (card X)
    \<and> moved mg_dirty_writeback k ms = int (card (X \<inter> covered (ow_dirty_ranges o1)))
    \<and> pl_resident (rm_pool s') = pl_resident (rm_pool s) - sum_list (map mg_page_out ms)"
proof -
  have inv: "residency_inv s" by (rule residency_machine.reach_inv [OF assms(1)])
  show ?thesis
  proof (cases rule: evict_cases [OF inv, of k n, case_names raised idle evicted])
    case (raised e)
    then show ?thesis using assms(2) by simp
  next
    case (idle o1')
    then have "ms = []" "o2 = o1" "o1' = o1" "s' = s" using assms(2-4) by simp_all
    then show ?thesis using idle(3) by (simp add: X_def split: option.splits)
  next
    case (evicted o1' Y ms' s'')
    then have eq: "ms' = ms" "s'' = s'" "o1' = o1" using assms(2,3) by simp_all
    note ev = evicted(5) [unfolded eq] and sub = evicted(6) [unfolded eq unprotected_def]
    have sh: "shrunk Y o1 o2" "moved mg_page_out k ms = int (card Y)"
      "moved mg_dirty_writeback k ms = int (card (Y \<inter> covered (ow_dirty_ranges o1)))"
      using evicts_owner [OF ev assms(3,4)] by simp_all
    then have X: "X = Y" using sub by (auto simp: X_def shrunk_def)
    have p: "rm_pool s' = (rm_pool s)\<lparr>pl_resident := pl_resident (rm_pool s) - sum_list (map mg_page_out ms)\<rparr>"
      using ev unfolding evicts_def by blast
    have r: "covered (ow_resident o2) = covered (ow_resident o1) - Y" using sh(1) by (simp add: shrunk_def)
    show ?thesis
      using sh(2,3) sub evicted(7,8) [unfolded eq unprotected_def] p r unfolding X U_def by auto
  qed
qed

theorem evict_takes_highest_witness:
  "\<exists>ms s' o1 o2. evict ''a'' (Some 20) example_manager = (Inr ms, s')
    \<and> map_of (rm_allocations example_manager) ''a'' = Some o1 \<and> map_of (rm_allocations s') ''a'' = Some o2
    \<and> 20 \<le> int (card (covered (ow_resident o1) - covered (ow_resident o2)))"
proof -
  have c: "(case fst (evict ''a'' (Some 20) example_manager) of Inl e \<Rightarrow> False | Inr ms \<Rightarrow> True)"
    "map_of (rm_allocations example_manager) ''a'' \<noteq> None"
    "map_of (rm_allocations (snd (evict ''a'' (Some 20) example_manager))) ''a'' \<noteq> None" by code_simp+
  obtain ms s' where run: "evict ''a'' (Some 20) example_manager = (Inr ms, s')"
    using c(1) by (cases "evict ''a'' (Some 20) example_manager") (auto split: sum.splits)
  obtain o1 o2 where o12: "map_of (rm_allocations example_manager) ''a'' = Some o1"
    "map_of (rm_allocations s') ''a'' = Some o2" using c(2,3) run by auto
  have "20 \<le> int (card (covered (ow_resident o1) - covered (ow_resident o2)))"
    using evict_takes_highest [OF example_manager_reach run o12] by simp
  then show ?thesis using run o12 by blast
qed

text \<open>C23: the fast path of \<open>_refresh_recency\<close>, which splices one extent into the ordered recency
  partition, returns what the general subtract-and-merge path returns, on every allocation of a
  reachable manager.\<close>

theorem recency_splice_equivalent:
  assumes "reach residency_start residency_step s" and "map_of (rm_allocations s) k = Some o1" and "a < b"
  shows "refresh_single (ow_recency o1) a b q = refresh_general (ow_recency o1) [(a, b)] q"
proof -
  have "residency_inv s" by (rule residency_machine.reach_inv [OF assms(1)])
  from residency_offD(5) [OF this assms(2)] have "recency_ok (ow_recency o1)" by (simp add: owner_inv_def)
  then show ?thesis using assms(3) by (rule refresh_single_general)
qed

theorem recency_splice_equivalent_witness:
  "\<exists>o1. map_of (rm_allocations example_manager) ''a'' = Some o1
    \<and> refresh_single (ow_recency o1) 16 32 7 = refresh_general (ow_recency o1) [(16, 32)] 7"
proof -
  have "map_of (rm_allocations example_manager) ''a'' \<noteq> None" by code_simp
  then obtain o1 where o1: "map_of (rm_allocations example_manager) ''a'' = Some o1" by blast
  then show ?thesis using recency_splice_equivalent [OF example_manager_reach o1, of 16 32 7] by simp
qed

text \<open>C24: the normalised ranges are a canonical form of byte sets: merging yields sorted, disjoint,
  non-touching ranges of the same bytes, subtraction and intersection are the set operations and
  keep the form, two such lists of the same bytes are equal, and their lengths add up to the number
  of bytes.\<close>

theorem range_algebra_canonical:
  shows "canonical (merge_ranges rs) \<and> covered (merge_ranges rs) = covered rs
    \<and> canonical (subtract_ranges (merge_ranges rs) cuts)
    \<and> covered (subtract_ranges (merge_ranges rs) cuts) = covered rs - covered cuts
    \<and> canonical (intersect_ranges rs cuts) \<and> covered (intersect_ranges rs cuts) = covered rs \<inter> covered cuts
    \<and> (merge_ranges rs = merge_ranges cuts \<longleftrightarrow> covered rs = covered cuts)
    \<and> range_bytes (merge_ranges rs) = int (card (covered rs))"
  by (simp add: merge_ranges_eq_iff range_bytes_card)

text \<open>C25: splitting granule-aligned ranges into their backing units always ends with a list of
  units: consecutive, each one granule long but for the one at the committed end, covering exactly
  the bytes of the ranges.\<close>

theorem backing_units_partition:
  assumes "0 < g" and "0 \<le> c" and "canonical rs"
    and "\<forall>(a, b) \<in> set rs. is_backing_unit_boundary a c g \<and> is_backing_unit_boundary b c g"
  shows "\<exists>us. iter_backing_unit_ranges c g rs = Inr us \<and> covered us = covered rs
    \<and> (\<forall>(a, b) \<in> set us. a < b \<and> a mod g = 0 \<and> b = min c (a + g))
    \<and> sorted_wrt (\<lambda>u v. snd u \<le> fst v) us"
proof -
  have al: "unit_aligned c g rs" using assms(1,2,4) by (simp add: unit_aligned_def)
  from iter_ranges_correct [OF al assms(3)] obtain us where us: "iter_ranges c g rs = Inr us"
    "covered us = covered rs" "sorted_wrt (\<lambda>a b. snd a \<le> fst b) us"
    "\<forall>(a, b) \<in> set us. a < b \<and> b - a \<le> g \<and> is_backing_unit_boundary a c g \<and> b = min c (a + g) \<and> {a..<b} \<subseteq> covered rs"
    by blast
  have "iter_backing_unit_ranges c g rs = Inr us"
    using us(1) assms(3) by (simp add: iter_backing_unit_ranges_def unit_aligned_ensure [OF al])
  moreover have "\<forall>(a, b) \<in> set us. a < b \<and> a mod g = 0 \<and> b = min c (a + g)"
    using us(4) by (auto simp: is_backing_unit_boundary_def)
  ultimately show ?thesis using us(2,3) by blast
qed

theorem backing_units_partition_witness:
  "\<exists>us. iter_backing_unit_ranges 40 16 [(0, 16), (32, 40)] = Inr us \<and> covered us = covered [(0, 16), (32, 40)]"
  using backing_units_partition [of 16 40 "[(0, 16), (32, 40)]"]
  by (auto simp: canonical_Cons is_backing_unit_boundary_def)

end
