(* ===== verification/Physical_Allocator.thy ===== *)
theory Physical_Allocator
  imports Byte_Ranges
begin

text \<open>
  \<open>memory_allocator.py\<close>: the first-fit allocator of physical addresses with aliases, arenas,
  an address index searched by bisection, the free extents, and checkpoints that restore it.

  The weak set \<open>_saves\<close> of retained checkpoints is an explicit list of handles with their
  before-images; a caller that lets go of a checkpoint is the operation \<open>drop_save\<close>. Two
  allocations are the same object exactly when they are equal: a record equal to the stored one is
  never stored again, which changes nothing in any index. The copy and pickle hooks are not
  modelled, so every checkpoint is native and all keys are pairs of text and integer.
\<close>

section \<open>Bisection\<close>

text \<open>
  \<open>bisect_left(a, x)\<close> with the comparison \<open>a[i] < x\<close> as the predicate; probing
  with a shorter tuple \<open>(b,)\<close> compares the first component.
\<close>

function bisect_loop :: "('a \<Rightarrow> bool) \<Rightarrow> 'a list \<Rightarrow> nat \<Rightarrow> nat \<Rightarrow> nat" where
  "bisect_loop below xs lo hi =
     (if lo < hi then let mid = (lo + hi) div 2 in
        if below (xs ! mid) then bisect_loop below xs (mid + 1) hi else bisect_loop below xs lo mid
      else lo)"
  by pat_completeness auto
termination by (relation "measure (\<lambda>(below, xs, lo, hi). hi - lo)") (auto simp: Let_def)

declare bisect_loop.simps [simp del]

definition bisect_left :: "('a \<Rightarrow> bool) \<Rightarrow> 'a list \<Rightarrow> nat" where
  "bisect_left below xs = bisect_loop below xs 0 (length xs)"

definition list_pop :: "nat \<Rightarrow> 'a list \<Rightarrow> 'a list" where
  "list_pop i xs = take i xs @ drop (Suc i) xs"

definition list_insert :: "nat \<Rightarrow> 'a list \<Rightarrow> 'a list \<Rightarrow> 'a list" where
  "list_insert i ys xs = take i xs @ ys @ drop i xs"

section \<open>Data\<close>

type_synonym alloc_key = "string \<times> int"

datatype allocation_error = Allocation_Error string | Missing_Field string

record allocation =
  pa_buffer :: string
  pa_base :: int
  pa_size :: int
  pa_generation :: int
  pa_alias_of :: "string option"
  pa_alias_generation :: "int option"
  pa_alias_offset :: int
  pa_inferred :: bool
  pa_arena :: "string option"

definition pa_end :: "allocation \<Rightarrow> int" where
  "pa_end a = pa_base a + pa_size a"

definition pa_key :: "allocation \<Rightarrow> alloc_key" where
  "pa_key a = (pa_buffer a, pa_generation a)"

definition address_key :: "allocation \<Rightarrow> int \<times> string \<times> int" where
  "address_key a = (pa_base a, pa_buffer a, pa_generation a)"

definition alias_target :: "allocation \<Rightarrow> (string \<times> int option) option" where
  "alias_target a = (case pa_alias_of a of None \<Rightarrow> None | Some b \<Rightarrow> Some (b, pa_alias_generation a))"

text \<open>\<open>PhysicalAllocation.address\<close>\<close>

definition allocation_address :: "allocation \<Rightarrow> int \<Rightarrow> int \<Rightarrow> allocation_error + int" where
  "allocation_address a offset sz =
     (if offset < 0 then Inl (Allocation_Error ''offset_bytes must be a non-negative integer'')
      else if sz \<le> 0 then Inl (Allocation_Error ''size_bytes must be a positive integer'')
      else if pa_size a < offset + sz then Inl (Allocation_Error ''access exceeds allocation'')
      else Inr (pa_base a + offset))"

text \<open>A checkpoint: the before-image of every key changed since, and the peak.\<close>

type_synonym before_image = "allocation option \<times> int option"

record alloc_save =
  sv_entries :: "(alloc_key, before_image) dict"
  sv_peak :: int

record allocator =
  al_capacity :: int
  al_alignment :: int
  al_workspace :: int
  al_allocations :: "(alloc_key, allocation) dict"
  al_native_keys :: bool
  al_address_keys :: "(int \<times> string \<times> int) list"
  al_address_rows :: "allocation list"
  al_largest :: int
  al_peak :: int
  al_aliases :: "(string \<times> int option, alloc_key set) dict"
  al_free :: "byte_range list option"
  al_fits :: "byte_range list"
  al_order :: "(alloc_key, int) dict"
  al_next_order :: int
  al_open :: "nat list"
  al_saves :: "(nat, alloc_save) dict"
  al_next_save :: nat

type_synonym 'a alloc_op = "(allocation_error + 'a) \<times> allocator"

definition new_allocator :: "int \<Rightarrow> int \<Rightarrow> int \<Rightarrow> allocation_error + allocator" where
  "new_allocator capacity alignment workspace =
     (if capacity \<le> 0 then Inl (Allocation_Error ''capacity_bytes must be a positive integer'')
      else if alignment \<le> 0 then Inl (Allocation_Error ''alignment_bytes must be a positive integer'')
      else if \<not> (0 \<le> workspace \<and> workspace < capacity)
      then Inl (Allocation_Error ''workspace_capacity_bytes must be an integer in [0, capacity_bytes)'')
      else if workspace \<noteq> 0 \<and> (capacity - workspace) mod alignment \<noteq> 0
      then Inl (Allocation_Error ''workspace partition boundary must be aligned'')
      else Inr \<lparr>al_capacity = capacity, al_alignment = alignment, al_workspace = workspace,
        al_allocations = [], al_native_keys = True, al_address_keys = [], al_address_rows = [],
        al_largest = 0, al_peak = 0, al_aliases = [], al_free = Some [(0, capacity)],
        al_fits = [(0, capacity)], al_order = [], al_next_order = 0, al_open = [], al_saves = [],
        al_next_save = 0\<rparr>)"

section \<open>Checkpoints and before-images\<close>

definition begin_save :: "allocator \<Rightarrow> nat \<times> allocator" where
  "begin_save s = (al_next_save s, s\<lparr>al_open := al_open s @ [al_next_save s],
     al_saves := AList.update (al_next_save s) \<lparr>sv_entries = [], sv_peak = al_peak s\<rparr> (al_saves s),
     al_next_save := al_next_save s + 1\<rparr>)"

text \<open>\<open>_close\<close>: the open checkpoints from the given one on are closed; they stay restorable.\<close>

definition close_save :: "nat \<Rightarrow> allocator \<Rightarrow> allocator" where
  "close_save h s = (if h \<in> set (al_open s) then s\<lparr>al_open := takeWhile (\<lambda>k. k \<noteq> h) (al_open s)\<rparr> else s)"

definition commit_save :: "nat \<Rightarrow> allocator \<Rightarrow> allocator" where
  "commit_save = close_save"

definition drop_save :: "nat \<Rightarrow> allocator \<Rightarrow> allocator" where
  "drop_save h s = (if h \<in> set (al_open s) then s else s\<lparr>al_saves := AList.delete h (al_saves s)\<rparr>)"

definition before_image_of :: "alloc_key \<Rightarrow> allocator \<Rightarrow> before_image" where
  "before_image_of k s = (map_of (al_allocations s) k, map_of (al_order s) k)"

definition set_default :: "'k \<Rightarrow> 'v \<Rightarrow> ('k, 'v) dict \<Rightarrow> ('k, 'v) dict" where
  "set_default k v d = (if map_of d k = None then d @ [(k, v)] else d)"

definition before_mutation :: "alloc_key \<Rightarrow> allocator \<Rightarrow> allocator" where
  "before_mutation k s = s\<lparr>al_saves := map (\<lambda>(h, sv).
     (h, sv\<lparr>sv_entries := set_default k (before_image_of k s) (sv_entries sv)\<rparr>)) (al_saves s)\<rparr>"

section \<open>Free extents\<close>

definition pair_below :: "byte_range \<Rightarrow> byte_range \<Rightarrow> bool" where
  "pair_below y x \<longleftrightarrow> fst x < fst y \<or> fst x = fst y \<and> snd x < snd y"

definition fit_gap :: "int \<Rightarrow> byte_range \<Rightarrow> bool" where
  "fit_gap alignment gap \<longleftrightarrow> round_up (fst gap) alignment < snd gap"

definition pop_gap :: "int \<Rightarrow> nat \<Rightarrow> byte_range list \<times> byte_range list
    \<Rightarrow> byte_range \<times> byte_range list \<times> byte_range list" where
  "pop_gap alignment position gf = (case gf of (gaps, fits) \<Rightarrow> let gap = gaps ! position in
     (gap, list_pop position gaps,
      if fit_gap alignment gap then list_pop (bisect_left (pair_below gap) fits) fits else fits))"

fun insert_fits :: "int \<Rightarrow> byte_range list \<Rightarrow> byte_range list \<Rightarrow> byte_range list" where
  "insert_fits alignment [] fits = fits"
| "insert_fits alignment (gap # gaps) fits = insert_fits alignment gaps
     (if fit_gap alignment gap then list_insert (bisect_left (pair_below gap) fits) [gap] fits else fits)"

definition insert_gaps :: "int \<Rightarrow> nat \<Rightarrow> byte_range list \<Rightarrow> byte_range list \<times> byte_range list
    \<Rightarrow> byte_range list \<times> byte_range list" where
  "insert_gaps alignment position new gf = (case gf of (gaps, fits) \<Rightarrow>
     (list_insert position new gaps, insert_fits alignment new fits))"

text \<open>The loop of \<open>_free_extent\<close> that absorbs the following gaps; every turn removes one.\<close>

function absorb_gaps :: "int \<Rightarrow> nat \<Rightarrow> int \<Rightarrow> byte_range list \<times> byte_range list
    \<Rightarrow> int \<times> byte_range list \<times> byte_range list" where
  "absorb_gaps alignment position stop_at (gaps, fits) =
     (if position < length gaps \<and> fst (gaps ! position) \<le> stop_at
      then let popped = pop_gap alignment position (gaps, fits) in
        absorb_gaps alignment position (max stop_at (snd (fst popped))) (snd popped)
      else (stop_at, gaps, fits))"
  by pat_completeness auto
termination
  by (relation "measure (\<lambda>(alignment, position, stop_at, gaps, fits). length gaps)")
    (auto simp: pop_gap_def Let_def list_pop_def)

declare absorb_gaps.simps [simp del]

definition free_gap :: "int \<Rightarrow> int \<Rightarrow> int \<Rightarrow> byte_range list \<times> byte_range list
    \<Rightarrow> byte_range list \<times> byte_range list" where
  "free_gap alignment base stop_at gf = (let
     position = bisect_left (\<lambda>gap. fst gap < base) (fst gf);
     joins = position \<noteq> 0 \<and> base \<le> snd (fst gf ! (position - 1));
     popped = pop_gap alignment (position - 1) gf;
     position' = (if joins then position - 1 else position);
     base' = (if joins then min base (fst (fst popped)) else base);
     end' = (if joins then max stop_at (snd (fst popped)) else stop_at);
     absorbed = absorb_gaps alignment position' end' (if joins then snd popped else gf)
   in insert_gaps alignment position' [(base', fst absorbed)] (snd absorbed))"

definition free_extent :: "int \<Rightarrow> int \<Rightarrow> allocator \<Rightarrow> allocator" where
  "free_extent base stop_at s = (case al_free s of None \<Rightarrow> s | Some gaps \<Rightarrow>
     let gf = free_gap (al_alignment s) base stop_at (gaps, al_fits s) in
       s\<lparr>al_free := Some (fst gf), al_fits := snd gf\<rparr>)"

definition occupy_extent :: "allocation \<Rightarrow> allocator \<Rightarrow> allocator" where
  "occupy_extent a s = (case al_free s of None \<Rightarrow> s | Some gaps \<Rightarrow>
     if pa_alias_of a \<noteq> None then s
     else if pa_size a \<le> 0 then s\<lparr>al_free := None\<rparr>
     else let base = pa_base a; stop_at = pa_base a + pa_size a;
         found = bisect_left (\<lambda>gap. fst gap < base + 1) gaps; position = found - 1 in
       if found = 0 \<or> \<not> (fst (gaps ! position) \<le> base \<and> base < stop_at \<and> stop_at \<le> snd (gaps ! position))
       then s\<lparr>al_free := None\<rparr>
       else case pop_gap (al_alignment s) position (gaps, al_fits s) of ((start, stop), gf) \<Rightarrow>
         let gf' = insert_gaps (al_alignment s) position
           ((if start < base then [(start, base)] else []) @ (if stop_at < stop then [(stop_at, stop)] else [])) gf
         in s\<lparr>al_free := Some (fst gf'), al_fits := snd gf'\<rparr>)"

section \<open>Indexes\<close>

definition add_alias :: "alloc_key \<Rightarrow> allocation \<Rightarrow> allocator \<Rightarrow> allocator" where
  "add_alias k a s = (case alias_target a of None \<Rightarrow> s | Some t \<Rightarrow>
     s\<lparr>al_aliases := AList.update t
       (insert k (case map_of (al_aliases s) t of None \<Rightarrow> {} | Some ks \<Rightarrow> ks)) (al_aliases s)\<rparr>)"

definition remove_alias :: "alloc_key \<Rightarrow> allocation \<Rightarrow> allocator \<Rightarrow> allocator" where
  "remove_alias k a s = (case alias_target a of None \<Rightarrow> s | Some t \<Rightarrow>
     let ks = (case map_of (al_aliases s) t of None \<Rightarrow> {} | Some ks \<Rightarrow> ks) - {k} in
     s\<lparr>al_aliases := (if ks = {} then AList.delete t (al_aliases s)
       else AList.update t ks (al_aliases s))\<rparr>)"

definition remove_row :: "allocation \<Rightarrow> allocator \<Rightarrow> allocator" where
  "remove_row a s = (let position = bisect_left (\<lambda>k. k < address_key a) (al_address_keys s) in
     s\<lparr>al_address_keys := list_pop position (al_address_keys s),
       al_address_rows := list_pop position (al_address_rows s)\<rparr>)"

definition add_row :: "allocation \<Rightarrow> allocator \<Rightarrow> allocator" where
  "add_row a s = (let position = bisect_left (\<lambda>k. k < address_key a) (al_address_keys s) in
     s\<lparr>al_address_keys := list_insert position [address_key a] (al_address_keys s),
       al_address_rows := list_insert position [a] (al_address_rows s)\<rparr>)"

text \<open>\<open>_store_allocation\<close>\<close>

definition unstore :: "alloc_key \<Rightarrow> allocation \<Rightarrow> allocator \<Rightarrow> allocator" where
  "unstore k previous s = remove_row previous (remove_alias k previous
     (if pa_alias_of previous = None then free_extent (pa_base previous) (pa_end previous) s else s))"

definition enter :: "alloc_key \<Rightarrow> allocation \<Rightarrow> allocator \<Rightarrow> allocator" where
  "enter k a s = (let
     s1 = add_row a s;
     s2 = s1\<lparr>al_largest := max (al_largest s1) (pa_size a),
       al_peak := (if pa_alias_of a = None then max (al_peak s1) (pa_end a) else al_peak s1),
       al_allocations := AList.update k a (al_allocations s1)\<rparr>;
     s3 = (if map_of (al_order s2) k = None
       then s2\<lparr>al_order := AList.update k (al_next_order s2) (al_order s2),
         al_next_order := al_next_order s2 + 1\<rparr> else s2)
   in add_alias k a (occupy_extent a s3))"

definition store_allocation :: "alloc_key \<Rightarrow> allocation \<Rightarrow> allocator \<Rightarrow> allocator" where
  "store_allocation k a s = (case map_of (al_allocations s) k of
     None \<Rightarrow> enter k a (before_mutation k s)
   | Some previous \<Rightarrow> if previous = a then s
       else enter k a (unstore k previous (before_mutation k s)))"

definition index_one :: "alloc_key \<times> allocation \<Rightarrow> allocator \<Rightarrow> allocator" where
  "index_one ka s = add_alias (fst ka) (snd ka) (occupy_extent (snd ka) s)"

definition rebuild_indexes :: "allocator \<Rightarrow> allocator" where
  "rebuild_indexes s = (let rows = sort_key address_key (map snd (al_allocations s)) in
     fold index_one (al_allocations s) (s\<lparr>al_address_rows := rows, al_address_keys := map address_key rows,
       al_largest := (if rows = [] then 0 else Max (set (map pa_size rows))),
       al_aliases := [], al_free := Some [(0, al_capacity s)], al_fits := [(0, al_capacity s)]\<rparr>))"

definition restore_allocations :: "(alloc_key, allocation) dict \<Rightarrow> allocator \<Rightarrow> allocator" where
  "restore_allocations allocations s0 = (let
     s = s0\<lparr>al_native_keys := False\<rparr>;
     s1 = (if al_saves s \<noteq> []
       then fold before_mutation (remdups (map fst (al_allocations s) @ map fst allocations)) s else s)
   in rebuild_indexes (s1\<lparr>al_allocations := allocations,
     al_order := zip (map fst allocations) (map int [0..<length allocations]),
     al_next_order := int (length allocations)\<rparr>))"

text \<open>\<open>rollback_transaction\<close>: the before-images are written back, newest state first seen.\<close>

definition restore_key :: "alloc_key \<times> before_image \<Rightarrow> allocator \<times> bool \<times> bool \<Rightarrow> allocator \<times> bool \<times> bool" where
  "restore_key entry acc = (case (entry, acc) of ((k, previous, order), (s, changed, existing)) \<Rightarrow>
     if before_image_of k s = (previous, order) then (s, changed, existing)
     else let s1 = before_mutation k s in
       case previous of
         None \<Rightarrow> (s1\<lparr>al_allocations := AList.delete k (al_allocations s1),
           al_order := AList.delete k (al_order s1)\<rparr>, True, existing \<or> order \<noteq> None)
       | Some a \<Rightarrow> (s1\<lparr>al_allocations := AList.update k a (al_allocations s1),
           al_order := (case order of None \<Rightarrow> AList.delete k (al_order s1)
             | Some n \<Rightarrow> AList.update k n (al_order s1))\<rparr>, True, True))"

definition order_of :: "allocator \<Rightarrow> alloc_key \<Rightarrow> int" where
  "order_of s k = (case map_of (al_order s) k of None \<Rightarrow> 0 | Some n \<Rightarrow> n)"

definition max_order :: "allocator \<Rightarrow> int" where
  "max_order s = foldr max (map snd (al_order s)) (- 1)"

definition rollback_save :: "nat \<Rightarrow> allocator \<Rightarrow> allocator" where
  "rollback_save h s0 = (case map_of (al_saves s0) h of None \<Rightarrow> s0 | Some sv \<Rightarrow> let
     s1 = (close_save h s0)\<lparr>al_peak := sv_peak sv\<rparr>;
     (s2, changed, existing) = fold restore_key (sv_entries sv) (s1, False, False)
   in if \<not> changed then s2
     else let s3 = s2\<lparr>al_next_order := max (al_next_order s2) (max_order s2 + 1)\<rparr>;
         s4 = (if existing \<or> \<not> al_native_keys s3
           then s3\<lparr>al_allocations := sort_key (\<lambda>(k, a). order_of s3 k) (al_allocations s3)\<rparr> else s3)
       in rebuild_indexes s4)"

section \<open>Searching\<close>

definition alloc_key_of :: "string \<Rightarrow> int \<Rightarrow> allocation_error + alloc_key" where
  "alloc_key_of buffer generation =
     (if strip buffer = [] then Inl (Allocation_Error ''buffer_id must be non-empty text'')
      else if generation < 0 then Inl (Allocation_Error ''generation must be a non-negative integer'')
      else Inr (strip buffer, generation))"

definition check_extent :: "int \<Rightarrow> int \<Rightarrow> allocator \<Rightarrow> allocation_error + unit" where
  "check_extent base sz s =
     (if base < 0 then Inl (Allocation_Error ''base address must be a non-negative integer'')
      else if sz \<le> 0 then Inl (Allocation_Error ''size_bytes must be a positive integer'')
      else if al_capacity s < base + sz then Inl (Allocation_Error ''allocation range exceeds capacity'')
      else Inr ())"

definition overlapping :: "int \<Rightarrow> int \<Rightarrow> alloc_key option \<Rightarrow> allocator \<Rightarrow> allocation list" where
  "overlapping base sz ignore s = map snd (filter (\<lambda>(k, item). \<not> (Some k = ignore \<or> pa_alias_of item \<noteq> None)
     \<and> base < pa_base item + pa_size item \<and> pa_base item < base + sz) (al_allocations s))"

definition arena_bounds :: "int \<Rightarrow> string option \<Rightarrow> allocator \<Rightarrow> int \<times> int" where
  "arena_bounds generation arena s =
     (if al_workspace s = 0 then (0, al_capacity s)
      else let boundary = al_capacity s - al_workspace s;
          resident = (case arena of Some a \<Rightarrow> a = ''resident'' | None \<Rightarrow> generation = 0)
        in if resident then (0, boundary) else (boundary, al_capacity s))"

definition check_arena_extent :: "int \<Rightarrow> int \<Rightarrow> int \<Rightarrow> string option \<Rightarrow> allocator \<Rightarrow> allocation_error + unit" where
  "check_arena_extent base sz generation arena s = rbind (check_extent base sz s) (\<lambda>_.
     case arena_bounds generation arena s of (lo, hi) \<Rightarrow>
       if base < lo \<or> hi < base + sz
       then Inl (Allocation_Error ''allocation range exceeds its arena'') else Inr ())"

fun gap_scan :: "int \<Rightarrow> int \<Rightarrow> int \<Rightarrow> int \<Rightarrow> byte_range list \<Rightarrow> int option" where
  "gap_scan alignment lo hi sz [] = None"
| "gap_scan alignment lo hi sz ((start, stop_at) # gaps) =
     (if hi \<le> start then None
      else let cursor = round_up (max start lo) alignment in
        if cursor + sz \<le> min stop_at hi then Some cursor
        else gap_scan alignment lo hi sz gaps)"

fun row_scan :: "int \<Rightarrow> int \<Rightarrow> int \<Rightarrow> int \<Rightarrow> allocation list \<Rightarrow> int \<Rightarrow> int option \<times> int" where
  "row_scan alignment lo hi sz [] cursor = (None, cursor)"
| "row_scan alignment lo hi sz (item # rows) cursor =
     (if hi \<le> pa_base item then (None, cursor)
      else if pa_alias_of item \<noteq> None \<or> pa_base item + pa_size item \<le> lo
      then row_scan alignment lo hi sz rows cursor
      else let cursor' = round_up cursor alignment in
        if cursor' + sz \<le> pa_base item then (Some cursor', cursor')
        else row_scan alignment lo hi sz rows (max cursor' (pa_base item + pa_size item)))"

definition gap_first_fit :: "int \<Rightarrow> int \<Rightarrow> int \<Rightarrow> allocator \<Rightarrow> int option" where
  "gap_first_fit sz lo hi s = (let
     position = bisect_left (\<lambda>gap. fst gap < lo + 1) (al_fits s) - 1
   in gap_scan (al_alignment s) lo hi sz (drop position (al_fits s)))"

definition row_first_fit :: "int \<Rightarrow> int \<Rightarrow> int \<Rightarrow> allocator \<Rightarrow> int option" where
  "row_first_fit sz lo hi s = (let
     position = bisect_left (\<lambda>k. fst k < lo - al_largest s) (al_address_keys s)
   in case row_scan (al_alignment s) lo hi sz (drop position (al_address_rows s)) lo of
       (Some cursor, _) \<Rightarrow> Some cursor
     | (None, cursor) \<Rightarrow> let cursor' = round_up cursor (al_alignment s) in
         if hi < cursor' + sz then None else Some cursor')"

definition find_first_fit :: "int \<Rightarrow> int \<Rightarrow> string option \<Rightarrow> allocator \<Rightarrow> allocation_error + int" where
  "find_first_fit sz generation arena s = (case arena_bounds generation arena s of (lo, hi) \<Rightarrow>
     case (if al_free s \<noteq> None then gap_first_fit sz lo hi s else row_first_fit sz lo hi s) of
       None \<Rightarrow> Inl (Allocation_Error ''unable to allocate'')
     | Some base \<Rightarrow> Inr base)"

section \<open>Allocating\<close>

record alloc_request =
  aq_buffer :: string
  aq_size :: int
  aq_generation :: int
  aq_alias_of :: "string option"
  aq_alias_generation :: "int option"
  aq_address :: "int option"
  aq_alias_offset :: int
  aq_inferred :: bool
  aq_arena :: "string option"

definition own_arena :: "allocation \<Rightarrow> string" where
  "own_arena a = (case pa_arena a of Some r \<Rightarrow> if r = [] then (if pa_generation a = 0 then ''resident'' else ''workspace'') else r
     | None \<Rightarrow> if pa_generation a = 0 then ''resident'' else ''workspace'')"

text \<open>The checks before the allocation is looked up, and the alias the request asks for.\<close>

definition resolved_alias :: "alloc_request \<Rightarrow> string option \<times> int option" where
  "resolved_alias q = (case aq_alias_of q of
     None \<Rightarrow> (None, aq_alias_generation q)
   | Some b \<Rightarrow> (Some (strip b), Some (case aq_alias_generation q of None \<Rightarrow> aq_generation q | Some g \<Rightarrow> g)))"

definition request_checks :: "alloc_request \<Rightarrow> allocation_error + alloc_key" where
  "request_checks q = rbind (alloc_key_of (aq_buffer q) (aq_generation q)) (\<lambda>k.
     if aq_size q \<le> 0 then Inl (Allocation_Error ''size_bytes must be a positive integer'')
     else if aq_arena q \<noteq> None \<and> aq_arena q \<noteq> Some ''resident'' \<and> aq_arena q \<noteq> Some ''workspace''
     then Inl (Allocation_Error ''allocation_arena must be resident or workspace'')
     else if (case aq_alias_generation q of None \<Rightarrow> False | Some g \<Rightarrow> g < 0)
     then Inl (Allocation_Error ''alias_generation must be a non-negative integer'')
     else if (case aq_alias_of q of None \<Rightarrow> False | Some b \<Rightarrow> strip b = [])
     then Inl (Allocation_Error ''alias_of must be non-empty text'')
     else if aq_alias_offset q < 0 then Inl (Allocation_Error ''alias_offset_bytes must be non-negative'')
     else Inr k)"

text \<open>Registering a key again: the extent stays where it is and may only grow in place.\<close>

definition reallocate :: "alloc_request \<Rightarrow> alloc_key \<Rightarrow> allocation \<Rightarrow> allocator \<Rightarrow> allocation_error + allocation" where
  "reallocate q k existing s =
     (if aq_arena q \<noteq> None \<and> pa_arena existing \<noteq> None \<and> aq_arena q \<noteq> pa_arena existing
      then Inl (Allocation_Error ''allocation arena changed'')
      else let arena = (case aq_arena q of None \<Rightarrow> pa_arena existing | Some r \<Rightarrow> Some r) in
      rbind (if aq_arena q \<noteq> None
          then check_arena_extent (pa_base existing) (pa_size existing) (aq_generation q) arena s else Inr ())
        (\<lambda>_. if aq_address q \<noteq> None \<and> aq_address q \<noteq> Some (pa_base existing)
      then Inl (Allocation_Error ''allocation address changed'')
      else if pa_alias_of existing \<noteq> fst (resolved_alias q) \<or> pa_alias_generation existing \<noteq> snd (resolved_alias q)
      then Inl (Allocation_Error ''allocation alias changed'')
      else if pa_alias_offset existing \<noteq> aq_alias_offset q
      then Inl (Allocation_Error ''allocation alias offset changed'')
      else if pa_size existing < aq_size q
      then if pa_alias_of existing \<noteq> None \<or> \<not> pa_inferred existing \<or> \<not> aq_inferred q
        then Inl (Allocation_Error ''allocation cannot grow'')
        else rbind (check_arena_extent (pa_base existing) (aq_size q) (aq_generation q) arena s) (\<lambda>_.
          if overlapping (pa_base existing) (aq_size q) (Some k) s \<noteq> []
          then Inl (Allocation_Error ''allocation cannot grow without moving'')
          else Inr (existing\<lparr>pa_size := aq_size q, pa_arena := arena\<rparr>))
      else if aq_size q \<noteq> pa_size existing \<and> (\<not> pa_inferred existing \<or> \<not> aq_inferred q)
      then Inl (Allocation_Error ''allocation size changed'')
      else Inr (existing\<lparr>pa_arena := arena\<rparr>)))"

text \<open>Where a new allocation goes, and the arena it belongs to.\<close>

definition place_alias :: "alloc_request \<Rightarrow> string \<Rightarrow> allocator \<Rightarrow> allocation_error + int \<times> string option" where
  "place_alias q b s = (let generation = the (snd (resolved_alias q)) in
     case map_of (al_allocations s) (b, generation) of
       None \<Rightarrow> Inl (Allocation_Error ''alias target is not allocated'')
     | Some target \<Rightarrow>
         if aq_arena q \<noteq> None \<and> aq_arena q \<noteq> Some (own_arena target)
         then Inl (Allocation_Error ''alias arena differs from target allocation'')
         else if pa_size target < aq_alias_offset q + aq_size q
         then Inl (Allocation_Error ''alias range exceeds target allocation'')
         else let base = pa_base target + aq_alias_offset q in
           rbind (check_extent base (aq_size q) s) (\<lambda>_.
             if aq_address q \<noteq> None \<and> aq_address q \<noteq> Some base
             then Inl (Allocation_Error ''allocation address changed'')
             else Inr (base, Some (own_arena target))))"

definition place_at :: "alloc_request \<Rightarrow> int \<Rightarrow> allocator \<Rightarrow> allocation_error + int \<times> string option" where
  "place_at q base s =
     (if base < 0 then Inl (Allocation_Error ''address must be a non-negative integer'')
      else rbind (check_arena_extent base (aq_size q) (aq_generation q) (aq_arena q) s) (\<lambda>_.
        if overlapping base (aq_size q) None s \<noteq> []
        then Inl (Allocation_Error ''allocation overlaps without an explicit alias'')
        else Inr (base, aq_arena q)))"

definition place_new :: "alloc_request \<Rightarrow> allocator \<Rightarrow> allocation_error + int \<times> string option" where
  "place_new q s = (case fst (resolved_alias q) of
     Some b \<Rightarrow> place_alias q b s
   | None \<Rightarrow> (case aq_address q of
       Some base \<Rightarrow> place_at q base s
     | None \<Rightarrow> rbind (find_first_fit (aq_size q) (aq_generation q) (aq_arena q) s)
         (\<lambda>base. Inr (base, aq_arena q))))"

definition new_allocation :: "alloc_request \<Rightarrow> alloc_key \<Rightarrow> int \<times> string option \<Rightarrow> allocation" where
  "new_allocation q k placed = \<lparr>pa_buffer = fst k, pa_base = fst placed, pa_size = aq_size q,
     pa_generation = snd k, pa_alias_of = fst (resolved_alias q), pa_alias_generation = snd (resolved_alias q),
     pa_alias_offset = aq_alias_offset q, pa_inferred = aq_inferred q, pa_arena = snd placed\<rparr>"

definition allocate :: "alloc_request \<Rightarrow> allocator \<Rightarrow> allocation alloc_op" where
  "allocate q s = (case request_checks q of
     Inl e \<Rightarrow> (Inl e, s)
   | Inr k \<Rightarrow> (case (case map_of (al_allocations s) k of
         Some existing \<Rightarrow> reallocate q k existing s
       | None \<Rightarrow> rbind (place_new q s) (\<lambda>placed. Inr (new_allocation q k placed))) of
       Inl e \<Rightarrow> (Inl e, s)
     | Inr a \<Rightarrow> (Inr a, store_allocation k a s)))"

text \<open>\<open>register\<close> takes a dictionary: absent fields are \<open>None\<close>.\<close>

record alloc_declaration =
  dc_obsolete :: "string list"
  dc_buffer :: "string option"
  dc_size :: "int option"
  dc_generation :: "int option"
  dc_alias_of :: "string option"
  dc_alias_generation :: "int option"
  dc_base :: "int option"
  dc_alias_offset :: "int option"
  dc_inferred :: "bool option"
  dc_arena :: "string option"

definition field_or :: "'a option \<Rightarrow> 'a \<Rightarrow> 'a" where
  "field_or x d = (case x of None \<Rightarrow> d | Some y \<Rightarrow> y)"

definition obsolete_error :: allocation_error where
  "obsolete_error = Allocation_Error ''allocation record uses size_bytes and generation; unsupported fields''"

definition register_declaration :: "alloc_declaration \<Rightarrow> allocator \<Rightarrow> allocation alloc_op" where
  "register_declaration d s =
     (if dc_obsolete d \<noteq> [] then (Inl obsolete_error, s)
      else case dc_size d of
        None \<Rightarrow> (Inl (Allocation_Error ''physical allocation requires size_bytes''), s)
      | Some sz \<Rightarrow> (case dc_buffer d of
          None \<Rightarrow> (Inl (Allocation_Error ''buffer_id must be non-empty text''), s)
        | Some b \<Rightarrow> allocate \<lparr>aq_buffer = b, aq_size = sz, aq_generation = field_or (dc_generation d) 0,
            aq_alias_of = dc_alias_of d, aq_alias_generation = dc_alias_generation d, aq_address = dc_base d,
            aq_alias_offset = field_or (dc_alias_offset d) 0, aq_inferred = False,
            aq_arena = dc_arena d\<rparr> s))"

section \<open>Lookups and release\<close>

definition get_allocation :: "string \<Rightarrow> int \<Rightarrow> allocator \<Rightarrow> allocation_error + allocation option" where
  "get_allocation buffer generation s =
     rbind (alloc_key_of buffer generation) (\<lambda>k. Inr (map_of (al_allocations s) k))"

definition lookup_allocation :: "string \<Rightarrow> int \<Rightarrow> allocator \<Rightarrow> allocation_error + allocation" where
  "lookup_allocation buffer generation s = rbind (get_allocation buffer generation s) (\<lambda>found.
     case found of None \<Rightarrow> Inl (Allocation_Error ''allocation is not registered'') | Some a \<Rightarrow> Inr a)"

text \<open>
  The loop of \<open>canonical_range\<close>: the visited keys grow within the registered ones, so it ends.
\<close>

lemma lookup_in:
  assumes "lookup_allocation b g s = Inr a"
  shows "a \<in> snd ` set (al_allocations s)"
proof -
  obtain k where "map_of (al_allocations s) k = Some a"
    using assms by (auto simp: lookup_allocation_def get_allocation_def rbind_eq_Inr split: option.splits)
  then have "(k, a) \<in> set (al_allocations s)" by (rule map_of_SomeD)
  then show ?thesis by (metis image_eqI snd_conv)
qed

lemma follow_measure:
  assumes "pa_key a \<notin> visited" "lookup_allocation b g s = Inr target"
  defines "keys \<equiv> pa_key ` snd ` set (al_allocations s)"
  shows "card (insert (pa_key target) keys - insert (pa_key a) visited) < card (insert (pa_key a) keys - visited)"
proof (rule psubset_card_mono)
  have "pa_key target \<in> keys" using lookup_in [OF assms(2)] by (simp add: keys_def)
  then show "insert (pa_key target) keys - insert (pa_key a) visited \<subset> insert (pa_key a) keys - visited"
    using assms(1) by blast
qed (simp add: keys_def)

function follow_aliases :: "allocator \<Rightarrow> alloc_key set \<Rightarrow> allocation \<Rightarrow> int
    \<Rightarrow> allocation_error + string \<times> int \<times> int" where
  "follow_aliases s visited a offset = (case pa_alias_of a of
     None \<Rightarrow> Inr (pa_buffer a, pa_generation a, offset)
   | Some b \<Rightarrow>
       if pa_key a \<in> visited then Inl (Allocation_Error ''cyclic allocation alias'')
       else (case pa_alias_generation a of
           None \<Rightarrow> Inl (Allocation_Error ''generation must be a non-negative integer'')
         | Some g \<Rightarrow> (case lookup_allocation b g s of
             Inl e \<Rightarrow> Inl e
           | Inr target \<Rightarrow> follow_aliases s (insert (pa_key a) visited) target
               (offset + (pa_base a - pa_base target)))))"
  by pat_completeness auto
termination
  by (relation "measure (\<lambda>(s, visited, a, offset).
      card (insert (pa_key a) (pa_key ` snd ` set (al_allocations s)) - visited))")
    (use follow_measure in \<open>auto simp del: image_image\<close>)

declare follow_aliases.simps [simp del]

definition canonical_range :: "string \<Rightarrow> int \<Rightarrow> int \<Rightarrow> int \<Rightarrow> allocator
    \<Rightarrow> allocation_error + string \<times> int \<times> int" where
  "canonical_range buffer offset sz generation s = rbind (lookup_allocation buffer generation s) (\<lambda>a.
     rbind (allocation_address a offset sz) (\<lambda>_. follow_aliases s {} a offset))"

definition address_of :: "string \<Rightarrow> int \<Rightarrow> int \<Rightarrow> int \<Rightarrow> allocator \<Rightarrow> allocation_error + int" where
  "address_of buffer offset sz generation s =
     rbind (lookup_allocation buffer generation s) (\<lambda>a. allocation_address a offset sz)"

definition release_allocation :: "string \<Rightarrow> int \<Rightarrow> allocator \<Rightarrow> unit alloc_op" where
  "release_allocation buffer generation s = (case alloc_key_of buffer generation of
     Inl e \<Rightarrow> (Inl e, s)
   | Inr k \<Rightarrow> (case map_of (al_allocations s) k of
       None \<Rightarrow> (Inr (), s)
     | Some previous \<Rightarrow>
         if map_of (al_aliases s) (fst k, Some (snd k)) \<noteq> None
            \<and> map_of (al_aliases s) (fst k, Some (snd k)) \<noteq> Some {}
         then (Inl (Allocation_Error ''cannot release allocation with live aliases''), s)
         else let s1 = before_mutation k s in
           (Inr (), unstore k previous (s1\<lparr>al_allocations := AList.delete k (al_allocations s1),
             al_order := AList.delete k (al_order s1)\<rparr>))))"

section \<open>Snapshots\<close>

datatype snapshot_item = Stored allocation | Declared alloc_declaration

record alloc_snapshot =
  as_capacity :: int
  as_alignment :: int
  as_items :: "snapshot_item list"
  as_workspace :: int

definition snapshot_allocator :: "allocator \<Rightarrow> alloc_snapshot" where
  "snapshot_allocator s = \<lparr>as_capacity = al_capacity s, as_alignment = al_alignment s,
     as_items = map Stored (al_address_rows s), as_workspace = al_workspace s\<rparr>"

text \<open>
  \<open>from_snapshot\<close>: repeated passes take the items whose alias target has been taken, until a
  pass takes none.
\<close>

definition target_of :: "string option \<Rightarrow> int option \<Rightarrow> int \<Rightarrow> alloc_key option" where
  "target_of alias_of alias_generation generation = (case alias_of of None \<Rightarrow> None
     | Some b \<Rightarrow> Some (b, field_or alias_generation generation))"

definition item_links :: "snapshot_item \<Rightarrow> allocation_error + alloc_key \<times> alloc_key option" where
  "item_links item = (case item of
     Stored a \<Rightarrow> Inr (pa_key a, target_of (pa_alias_of a) (pa_alias_generation a) (pa_generation a))
   | Declared d \<Rightarrow> if dc_obsolete d \<noteq> [] then Inl obsolete_error
       else (case dc_buffer d of
           None \<Rightarrow> Inl (Missing_Field ''buffer_id'')
         | Some b \<Rightarrow> Inr ((b, field_or (dc_generation d) 0),
             target_of (dc_alias_of d) (dc_alias_generation d) (field_or (dc_generation d) 0))))"

fun snapshot_pass :: "snapshot_item list \<Rightarrow> alloc_key set
    \<Rightarrow> allocation_error + snapshot_item list \<times> snapshot_item list \<times> alloc_key set" where
  "snapshot_pass [] available = Inr ([], [], available)"
| "snapshot_pass (item # items) available = rbind (item_links item) (\<lambda>(k, target).
     if (case target of None \<Rightarrow> False | Some t \<Rightarrow> t \<notin> available)
     then rbind (snapshot_pass items available) (\<lambda>(ordered, deferred, available').
       Inr (ordered, item # deferred, available'))
     else rbind (snapshot_pass items (insert k available)) (\<lambda>(ordered, deferred, available').
       Inr (item # ordered, deferred, available')))"

lemma snapshot_pass_length:
  "snapshot_pass items available = Inr (ordered, deferred, available') \<Longrightarrow> length deferred \<le> length items"
proof (induction items arbitrary: available ordered deferred available')
  case (Cons item items)
  then show ?case by (fastforce simp: rbind_eq_Inr split: prod.splits if_splits)
qed simp

function snapshot_order :: "snapshot_item list \<Rightarrow> alloc_key set \<Rightarrow> allocation_error + snapshot_item list" where
  "snapshot_order pending available =
     (if pending = [] then Inr []
      else case snapshot_pass pending available of
        Inl e \<Rightarrow> Inl e
      | Inr passed \<Rightarrow>
          if length (fst (snd passed)) = length pending
          then Inl (Allocation_Error ''snapshot alias target is missing or aliases form a cycle'')
          else rbind (snapshot_order (fst (snd passed)) (snd (snd passed))) (\<lambda>rest. Inr (fst passed @ rest)))"
  by pat_completeness auto
termination
proof (relation "measure (\<lambda>(pending, available). length pending)")
  fix pending :: "snapshot_item list" and available passed
  assume "snapshot_pass pending available = Inr passed" "length (fst (snd passed)) \<noteq> length pending"
  then show "((fst (snd passed), snd (snd passed)), pending, available) \<in> measure (\<lambda>(pending, available). length pending)"
    using snapshot_pass_length [of pending available "fst passed" "fst (snd passed)" "snd (snd passed)"]
    by (simp add: split_beta)
qed simp

declare snapshot_order.simps [simp del]

definition store_item :: "snapshot_item \<Rightarrow> allocator \<Rightarrow> allocation_error + allocator" where
  "store_item item s = (case item of
     Stored a0 \<Rightarrow> let a = (if pa_alias_of a0 \<noteq> None \<and> pa_alias_generation a0 = None
         then a0\<lparr>pa_alias_generation := Some (pa_generation a0)\<rparr> else a0)
       in Inr (store_allocation (pa_key a) a s)
   | Declared d \<Rightarrow> (case dc_size d of
         None \<Rightarrow> Inl (Allocation_Error ''physical allocation requires size_bytes'')
       | Some sz \<Rightarrow> (case allocate \<lparr>aq_buffer = field_or (dc_buffer d) [], aq_size = sz,
             aq_generation = field_or (dc_generation d) 0, aq_alias_of = dc_alias_of d,
             aq_alias_generation = (if dc_alias_of d \<noteq> None \<and> dc_alias_generation d = None
               then Some (field_or (dc_generation d) 0) else dc_alias_generation d),
             aq_address = dc_base d, aq_alias_offset = field_or (dc_alias_offset d) 0,
             aq_inferred = field_or (dc_inferred d) False, aq_arena = dc_arena d\<rparr> s of
           (Inl e, _) \<Rightarrow> Inl e
         | (Inr _, s') \<Rightarrow> Inr s')))"

fun store_items :: "snapshot_item list \<Rightarrow> allocator \<Rightarrow> allocation_error + allocator" where
  "store_items [] s = Inr s"
| "store_items (item # items) s = rbind (store_item item s) (store_items items)"

definition from_snapshot :: "alloc_snapshot \<Rightarrow> allocation_error + allocator" where
  "from_snapshot snap =
     rbind (new_allocator (as_capacity snap) (as_alignment snap) (as_workspace snap)) (\<lambda>s0.
     rbind (snapshot_order (as_items snap) {}) (\<lambda>ordered.
     rbind (store_items ordered s0) (\<lambda>s. Inr (restore_allocations (al_allocations s) s))))"

end
