(* ===== verification/Allocator_Index.thy ===== *)
theory Allocator_Index
  imports Physical_Allocator
begin

text \<open>
  The indexes of the allocator as functions of its allocations: the address rows are the
  allocations in address order, the alias index groups the aliases by target, and the free extents
  are the canonical list of the bytes no root allocation holds, the fitting ones among them listed
  again. Storing, removing and rebuilding keep this.
\<close>

section \<open>Bisection\<close>

lemma bisect_loop_split:
  assumes "\<forall>i < n. below (xs ! i)" "\<forall>i. n \<le> i \<and> i < length xs \<longrightarrow> \<not> below (xs ! i)"
    "lo \<le> n" "n \<le> hi" "hi \<le> length xs"
  shows "bisect_loop below xs lo hi = n"
  using assms
proof (induction below xs lo hi rule: bisect_loop.induct)
  case (1 below xs lo hi)
  show ?case
  proof (cases "lo < hi")
    case True
    let ?mid = "(lo + hi) div 2"
    have mid: "lo \<le> ?mid" "?mid < hi" using True by auto
    show ?thesis
    proof (cases "below (xs ! ?mid)")
      case b: True
      then have "?mid + 1 \<le> n" using "1.prems"(2,5) mid by (metis Suc_eq_plus1 less_le_trans not_less not_less_eq_eq)
      then have "bisect_loop below xs (?mid + 1) hi = n" using "1.IH"(1) [OF True refl b] "1.prems" by simp
      then show ?thesis using True b by (simp add: bisect_loop.simps [of below xs lo hi])
    next
      case b: False
      then have "n \<le> ?mid" using "1.prems"(1) by (meson not_less)
      then have "bisect_loop below xs lo ?mid = n" using "1.IH"(2) [OF True refl b] "1.prems" mid by simp
      then show ?thesis using True b by (simp add: bisect_loop.simps [of below xs lo hi])
    qed
  next
    case False
    then show ?thesis using "1.prems"(3,4) by (simp add: bisect_loop.simps [of below xs lo hi])
  qed
qed

lemma bisect_left_split:
  assumes "\<forall>y \<in> set ys. below y" "\<forall>z \<in> set zs. \<not> below z"
  shows "bisect_left below (ys @ zs) = length ys"
  unfolding bisect_left_def
  by (rule bisect_loop_split) (use assms in \<open>auto simp: nth_append\<close>)

text \<open>On a list the predicate cuts in two, bisection finds the cut.\<close>

lemma dropWhile_not_below:
  assumes "sorted_wrt (\<lambda>x y. below y \<longrightarrow> below x) xs" "z \<in> set (dropWhile below xs)"
  shows "\<not> below z"
  using assms
proof (induction xs)
  case (Cons x xs)
  show ?case
  proof (cases "below x")
    case True
    then show ?thesis using Cons by simp
  next
    case False
    then have "z = x \<or> (below z \<longrightarrow> below x)" using Cons.prems by auto
    then show ?thesis using False by blast
  qed
qed simp

lemma bisect_left_takeWhile:
  assumes "sorted_wrt (\<lambda>x y. below y \<longrightarrow> below x) xs"
  shows "bisect_left below xs = length (takeWhile below xs)"
proof -
  have "bisect_left below (takeWhile below xs @ dropWhile below xs) = length (takeWhile below xs)"
  proof (rule bisect_left_split)
    show "\<forall>y \<in> set (takeWhile below xs). below y" by (blast dest: set_takeWhileD)
    show "\<forall>z \<in> set (dropWhile below xs). \<not> below z" using dropWhile_not_below [OF assms] by blast
  qed
  then show ?thesis by simp
qed

lemma list_pop_split [simp]: "list_pop (length ys) (ys @ x # zs) = ys @ zs"
  by (simp add: list_pop_def)

lemma list_insert_split [simp]: "list_insert (length ys) xs (ys @ zs) = ys @ xs @ zs"
  by (simp add: list_insert_def)

section \<open>Gap lists\<close>

definition starts_sorted :: "byte_range list \<Rightarrow> bool" where
  "starts_sorted gs \<longleftrightarrow> sorted_wrt (\<lambda>a b. fst a < fst b) gs"

lemma canonical_starts: "canonical gs \<Longrightarrow> starts_sorted gs"
  unfolding canonical_def starts_sorted_def
proof (induction gs)
  case (Cons g gs)
  then show ?case by (cases g) fastforce
qed simp

lemma bisect_fits:
  assumes "starts_sorted (ys @ gap # zs)"
  shows "bisect_left (pair_below gap) (filter p ys @ filter p zs) = length (filter p ys)"
    and "bisect_left (pair_below gap) (filter p ys @ gap # filter p zs) = length (filter p ys)"
proof -
  have "\<forall>y \<in> set ys. fst y < fst gap" "\<forall>z \<in> set zs. fst gap < fst z"
    using assms by (auto simp: starts_sorted_def sorted_wrt_append)
  then have y: "\<forall>y \<in> set (filter p ys). pair_below gap y"
    and z: "\<forall>z \<in> set (filter p zs). \<not> pair_below gap z" "\<forall>z \<in> set (gap # filter p zs). \<not> pair_below gap z"
    by (fastforce simp: pair_below_def)+
  show "bisect_left (pair_below gap) (filter p ys @ filter p zs) = length (filter p ys)"
    "bisect_left (pair_below gap) (filter p ys @ gap # filter p zs) = length (filter p ys)"
    using bisect_left_split [OF y z(1)] bisect_left_split [OF y z(2)] by simp_all
qed

lemma pop_gap_split:
  assumes "starts_sorted (ys @ gap # zs)"
  shows "pop_gap al (length ys) (ys @ gap # zs, filter (fit_gap al) (ys @ gap # zs)) =
    (gap, ys @ zs, filter (fit_gap al) (ys @ zs))"
  using bisect_fits(2) [OF assms, of "fit_gap al"] by (simp add: pop_gap_def Let_def)

lemma insert_fits_sorted:
  "starts_sorted (ys @ new @ zs) \<Longrightarrow>
    insert_fits al new (filter (fit_gap al) (ys @ zs)) = filter (fit_gap al) (ys @ new @ zs)"
proof (induction new arbitrary: ys)
  case (Cons gap new)
  have s: "starts_sorted (ys @ gap # zs)" "starts_sorted ((ys @ [gap]) @ new @ zs)"
    using Cons.prems by (auto simp: starts_sorted_def sorted_wrt_append)
  have "(if fit_gap al gap then list_insert (bisect_left (pair_below gap) (filter (fit_gap al) (ys @ zs))) [gap]
      (filter (fit_gap al) (ys @ zs)) else filter (fit_gap al) (ys @ zs)) =
      filter (fit_gap al) ((ys @ [gap]) @ zs)"
    using bisect_fits(1) [OF s(1), of "fit_gap al"] by simp
  then show ?case using Cons.IH [OF s(2)] by (simp only: insert_fits.simps append.simps append_assoc)
qed simp

lemma insert_gaps_split:
  "starts_sorted (ys @ new @ zs) \<Longrightarrow>
    insert_gaps al (length ys) new (ys @ zs, filter (fit_gap al) (ys @ zs)) =
      (ys @ new @ zs, filter (fit_gap al) (ys @ new @ zs))"
  using insert_fits_sorted [of ys new zs al] by (simp add: insert_gaps_def)

lemma absorb_gaps_split:
  "canonical (ys @ zs) \<Longrightarrow> b < E \<Longrightarrow> \<forall>(s, e) \<in> set zs. b \<le> s \<Longrightarrow>
    \<exists>E' zs'. absorb_gaps al (length ys) E (ys @ zs, filter (fit_gap al) (ys @ zs)) =
        (E', ys @ zs', filter (fit_gap al) (ys @ zs')) \<and> E \<le> E' \<and> canonical (ys @ zs') \<and> set zs' \<subseteq> set zs \<and>
      {b..<E'} \<union> covered zs' = {b..<E} \<union> covered zs \<and> (\<forall>(s, e) \<in> set zs'. E' < s)"
proof (induction zs arbitrary: E)
  case Nil
  then show ?case by (simp add: absorb_gaps.simps)
next
  case (Cons g zs)
  obtain s e where g: "g = (s, e)" by (cases g)
  have c: "canonical (ys @ zs)" "s < e" "\<forall>(s', e') \<in> set zs. e < s'" "b \<le> s"
    using Cons.prems g by (auto simp: canonical_append canonical_Cons)
  show ?case
  proof (cases "s \<le> E")
    case True
    note pop = pop_gap_split [OF canonical_starts [OF Cons.prems(1)], of al]
    have step: "absorb_gaps al (length ys) E (ys @ g # zs, filter (fit_gap al) (ys @ g # zs)) =
        absorb_gaps al (length ys) (max E e) (ys @ zs, filter (fit_gap al) (ys @ zs))"
      using True g pop by (subst absorb_gaps.simps) (simp add: Let_def)
    have bz: "\<forall>(s, e) \<in> set zs. b \<le> s" using Cons.prems(3) by simp
    have bE: "b < max E e" using Cons.prems(2) by simp
    from Cons.IH [OF c(1) bE bz] obtain E' zs' where
      r: "absorb_gaps al (length ys) (max E e) (ys @ zs, filter (fit_gap al) (ys @ zs)) =
          (E', ys @ zs', filter (fit_gap al) (ys @ zs'))" "max E e \<le> E'" "canonical (ys @ zs')"
        "set zs' \<subseteq> set zs" "{b..<E'} \<union> covered zs' = {b..<max E e} \<union> covered zs" "\<forall>(s, e) \<in> set zs'. E' < s"
      by blast
    have "{b..<max E e} = {b..<E} \<union> {s..<e}" using True c(2,4) Cons.prems(2) by auto
    then have "{b..<E'} \<union> covered zs' = {b..<E} \<union> covered (g # zs)"
      using r(5) g by (simp add: covered_simps Un_assoc)
    then show ?thesis using step r by (intro exI [of _ E'] exI [of _ zs']) auto
  next
    case False
    then have "absorb_gaps al (length ys) E (ys @ g # zs, filter (fit_gap al) (ys @ g # zs)) =
        (E, ys @ g # zs, filter (fit_gap al) (ys @ g # zs))"
      using g by (subst absorb_gaps.simps) simp
    moreover have "\<forall>(s', e') \<in> set (g # zs). E < s'" using False g c(2,3) by auto
    ultimately show ?thesis using Cons.prems(1) by blast
  qed
qed

text \<open>Freeing adds the bytes, occupying removes them.\<close>

lemma free_gap_correct:
  assumes c: "canonical gaps" and b: "base < stop"
  shows "\<exists>gaps'. free_gap al base stop (gaps, filter (fit_gap al) gaps) = (gaps', filter (fit_gap al) gaps') \<and>
    canonical gaps' \<and> covered gaps' = covered gaps \<union> {base..<stop}"
proof -
  define ys zs where "ys = takeWhile (\<lambda>g. fst g < base) gaps" and "zs = dropWhile (\<lambda>g. fst g < base) gaps"
  have gaps: "gaps = ys @ zs" by (simp add: ys_def zs_def)
  have cy: "canonical (ys @ zs)" using c gaps by simp
  have y: "\<forall>g \<in> set ys. fst g < base" unfolding ys_def by (auto dest: set_takeWhileD)
  have "sorted_wrt (\<lambda>x y. fst y < base \<longrightarrow> fst x < base) gaps"
    by (rule sorted_wrt_mono_rel [OF _ canonical_starts [OF c, unfolded starts_sorted_def]]) auto
  then have z: "\<forall>g \<in> set zs. \<not> fst g < base" unfolding zs_def using dropWhile_not_below by fast
  have pos: "bisect_left (\<lambda>gap. fst gap < base) (ys @ zs) = length ys" by (rule bisect_left_split [OF y z])
  show ?thesis
  proof (cases "ys \<noteq> [] \<and> base \<le> snd (last ys)")
    case True
    then obtain ys' s e where ys': "ys = ys' @ [(s, e)]" by (metis append_butlast_last_id surj_pair)
    have e: "base \<le> e" "s < base" "s < e" using True y ys' cy by (auto simp: canonical_append canonical_Cons)
    have c1: "canonical (ys' @ (s, e) # zs)" using cy ys' by simp
    note pop = pop_gap_split [OF canonical_starts [OF c1], of al]
    have c2: "canonical (ys' @ zs)" using c1 by (auto simp: canonical_append canonical_Cons)
    have "\<forall>(a, b) \<in> set zs. s \<le> a" using c1 e(3) by (fastforce simp: canonical_append canonical_Cons)
    from absorb_gaps_split [OF c2 _ this, of "max stop e" al] e b obtain E zs' where
      ab: "absorb_gaps al (length ys') (max stop e) (ys' @ zs, filter (fit_gap al) (ys' @ zs)) =
          (E, ys' @ zs', filter (fit_gap al) (ys' @ zs'))" "max stop e \<le> E" "canonical (ys' @ zs')"
        "{s..<E} \<union> covered zs' = {s..<max stop e} \<union> covered zs" "\<forall>(a, b) \<in> set zs'. E < a" by fastforce
    have fin: "canonical (ys' @ [(s, E)] @ zs')"
      using c1 ab(2,3,5) e by (fastforce simp: canonical_append canonical_Cons)
    have "free_gap al base stop (gaps, filter (fit_gap al) gaps) =
        (ys' @ [(s, E)] @ zs', filter (fit_gap al) (ys' @ [(s, E)] @ zs'))"
      using pos True e ab(1) pop insert_gaps_split [OF canonical_starts [OF fin], of al]
      unfolding gaps free_gap_def by (simp add: ys' Let_def nth_append)
    moreover have "covered (ys' @ [(s, E)] @ zs') = covered gaps \<union> {base..<stop}"
    proof -
      have "covered (ys' @ [(s, E)] @ zs') = covered ys' \<union> ({s..<max stop e} \<union> covered zs)"
        using ab(4) by (simp add: covered_simps)
      also have "{s..<max stop e} = {s..<e} \<union> {base..<stop}" using e b by auto
      finally show ?thesis unfolding gaps ys' by (auto simp: covered_simps)
    qed
    ultimately show ?thesis using fin by blast
  next
    case False
    have "\<forall>(a, b) \<in> set zs. base \<le> a" using z by fastforce
    from absorb_gaps_split [OF cy b this, of al] obtain E zs' where
      ab: "absorb_gaps al (length ys) stop (ys @ zs, filter (fit_gap al) (ys @ zs)) =
          (E, ys @ zs', filter (fit_gap al) (ys @ zs'))" "stop \<le> E" "canonical (ys @ zs')"
        "{base..<E} \<union> covered zs' = {base..<stop} \<union> covered zs" "\<forall>(a, b) \<in> set zs'. E < a" by blast
    have ye: "\<forall>(a, e) \<in> set ys. e < base"
    proof (cases ys rule: rev_cases)
      case (snoc ys' g)
      obtain a e where g: "g = (a, e)" by (cases g)
      have "e < base" "a < base" using False y snoc g by auto
      moreover have "\<forall>(a', e') \<in> set ys'. e' < a" using cy snoc g by (auto simp: canonical_append canonical_Cons)
      ultimately show ?thesis using snoc g by fastforce
    qed simp
    have fin: "canonical (ys @ [(base, E)] @ zs')"
      using ab(2,3,5) ye b by (fastforce simp: canonical_append canonical_Cons)
    have nj: "\<not> (length ys \<noteq> 0 \<and> base \<le> snd ((ys @ zs) ! (length ys - 1)))"
      using False by (auto simp: nth_append last_conv_nth)
    have "free_gap al base stop (gaps, filter (fit_gap al) gaps) =
        (ys @ [(base, E)] @ zs', filter (fit_gap al) (ys @ [(base, E)] @ zs'))"
      using ab(1) insert_gaps_split [OF canonical_starts [OF fin], of al]
      unfolding gaps free_gap_def fst_conv pos Let_def if_not_P [OF nj] by simp
    moreover have "covered (ys @ [(base, E)] @ zs') = covered gaps \<union> {base..<stop}"
      using ab(4) unfolding gaps by (auto simp: covered_simps)
    ultimately show ?thesis using fin by blast
  qed
qed

lemma occupy_extent_correct:
  assumes f: "al_free s = Some gaps" "al_fits s = filter (fit_gap (al_alignment s)) gaps" and c: "canonical gaps"
    and root: "pa_alias_of a = None" and sz: "0 < pa_size a" and sub: "{pa_base a..<pa_end a} \<subseteq> covered gaps"
  shows "\<exists>gaps'. occupy_extent a s = s\<lparr>al_free := Some gaps', al_fits := filter (fit_gap (al_alignment s)) gaps'\<rparr> \<and>
    canonical gaps' \<and> covered gaps' = covered gaps - {pa_base a..<pa_end a}"
proof -
  let ?b = "pa_base a" and ?e = "pa_end a" and ?al = "al_alignment s"
  have be: "?b < ?e" using sz by (simp add: pa_end_def)
  then have "?b \<in> covered gaps" using sub by auto
  then obtain g0 g1 where g: "(g0, g1) \<in> set gaps" "g0 \<le> ?b" "?b < g1" by (auto simp: in_covered)
  then obtain ys zs where gaps: "gaps = ys @ (g0, g1) # zs" by (auto dest: split_list)
  have e: "?e \<le> g1"
  proof (rule ccontr)
    assume "\<not> ?e \<le> g1"
    then have "g1 \<in> covered gaps" using sub g(3) by auto
    then show False using canonical_maximal(2) [OF c g(1)] by simp
  qed
  have ord: "\<forall>(a, e) \<in> set ys. a < e \<and> e < g0" "\<forall>(a, e) \<in> set zs. g1 < a \<and> a < e"
    using c unfolding gaps by (auto simp: canonical_append canonical_Cons dest: canonicalD)
  have y: "\<forall>x \<in> set (ys @ [(g0, g1)]). fst x < ?b + 1" using ord(1) g(2) by fastforce
  have z: "\<forall>x \<in> set zs. \<not> fst x < ?b + 1" using ord(2) g(3) by fastforce
  have pos: "bisect_left (\<lambda>gap. fst gap < ?b + 1) gaps = Suc (length ys)"
    using bisect_left_split [OF y z] gaps by simp
  let ?new = "(if g0 < ?b then [(g0, ?b)] else []) @ (if ?e < g1 then [(?e, g1)] else [])"
  have new: "canonical ?new" "\<forall>(a, b) \<in> set ?new. g0 \<le> a \<and> b \<le> g1"
    using g(2,3) e be by (auto simp: canonical_Cons)
  have cyz: "canonical ys" "canonical zs" "\<forall>(a, b) \<in> set ys. \<forall>(a', b') \<in> set zs. b < a'"
    using c unfolding gaps by (auto simp: canonical_append canonical_Cons)
  have cn: "canonical (ys @ ?new @ zs)"
    unfolding canonical_append
  proof (intro conjI cyz(1,2))
    show "canonical (if g0 < ?b then [(g0, ?b)] else [])" "canonical (if ?e < g1 then [(?e, g1)] else [])"
      "\<forall>(s, e) \<in> set (if g0 < ?b then [(g0, ?b)] else []). \<forall>(s', e') \<in> set (if ?e < g1 then [(?e, g1)] else []). e < s'"
      using new(1) unfolding canonical_append by blast+
    show "\<forall>(s, e) \<in> set ?new. \<forall>(s', e') \<in> set zs. e < s'" using new(2) ord(2) by fastforce
    show "\<forall>(s, e) \<in> set ys. \<forall>(s', e') \<in> set (?new @ zs). e < s'"
    proof (intro ballI, clarify)
      fix s e s' e' assume se: "(s, e) \<in> set ys" "(s', e') \<in> set (?new @ zs)"
      then have "e < g0" using ord(1) by auto
      moreover have "(s', e') \<in> set ?new \<Longrightarrow> g0 \<le> s'" using new(2) by blast
      moreover have "(s', e') \<in> set zs \<Longrightarrow> e < s'" using cyz(3) se(1) by blast
      moreover have "(s', e') \<in> set ?new \<or> (s', e') \<in> set zs" using se(2) by (simp only: set_append Un_iff)
      ultimately show "e < s'" by fastforce
    qed
  qed
  have "occupy_extent a s = s\<lparr>al_free := Some (ys @ ?new @ zs), al_fits := filter (fit_gap ?al) (ys @ ?new @ zs)\<rparr>"
  proof -
    have c1: "\<not> pa_alias_of a \<noteq> None" "\<not> pa_size a \<le> 0" using root sz by simp_all
    have c2: "\<not> (Suc (length ys) = 0 \<or> \<not> (fst (gaps ! length ys) \<le> ?b \<and> ?b < ?e \<and>
        ?e \<le> snd (gaps ! length ys)))"
      using be e g(2) by (simp add: gaps nth_append)
    have pop: "pop_gap ?al (length ys) (gaps, filter (fit_gap ?al) gaps) =
        ((g0, g1), ys @ zs, filter (fit_gap ?al) (ys @ zs))"
      using pop_gap_split [OF canonical_starts [OF c [unfolded gaps]], of ?al] by (simp only: gaps)
    show ?thesis
      unfolding occupy_extent_def f option.case Let_def if_not_P [OF c1(1)] if_not_P [OF c1(2)] pos
        diff_Suc_1 pa_end_def [symmetric] if_not_P [OF c2] pop prod.case
        insert_gaps_split [OF canonical_starts [OF cn], of ?al] fst_conv snd_conv ..
  qed
  moreover have "covered (ys @ ?new @ zs) = covered gaps - {?b..<?e}"
  proof -
    have n: "covered ?new = {g0..<g1} - {?b..<?e}" using g e be by (auto simp: covered_simps)
    have d: "covered ys \<inter> {g0..<g1} = {}" "covered zs \<inter> {g0..<g1} = {}"
      using ord by (fastforce simp: in_covered)+
    have "{?b..<?e} \<subseteq> {g0..<g1}" using g e by auto
    moreover have "covered gaps = covered ys \<union> ({g0..<g1} \<union> covered zs)"
      unfolding gaps by (simp add: covered_simps)
    moreover have "covered (ys @ ?new @ zs) = covered ys \<union> (({g0..<g1} - {?b..<?e}) \<union> covered zs)"
      unfolding covered_append [of ys] covered_append [of ?new zs] n ..
    ultimately show ?thesis using d by blast
  qed
  ultimately show ?thesis using cn by blast
qed

section \<open>What the indexes say of a map of allocations\<close>

type_synonym alloc_map = "alloc_key \<Rightarrow> allocation option"

definition keyed :: "alloc_map \<Rightarrow> bool" where
  "keyed M \<longleftrightarrow> (\<forall>k a. M k = Some a \<longrightarrow> pa_key a = k)"

definition root_bytes :: "('k \<Rightarrow> allocation option) \<Rightarrow> int set" where
  "root_bytes M = {x. \<exists>k a. M k = Some a \<and> pa_alias_of a = None \<and> pa_base a \<le> x \<and> x < pa_end a}"

definition roots_apart :: "('k \<Rightarrow> allocation option) \<Rightarrow> bool" where
  "roots_apart M \<longleftrightarrow> (\<forall>k a k' a'. M k = Some a \<and> M k' = Some a' \<and> k \<noteq> k' \<and> pa_alias_of a = None \<and>
     pa_alias_of a' = None \<longrightarrow> {pa_base a..<pa_end a} \<inter> {pa_base a'..<pa_end a'} = {})"

definition alias_index :: "('k \<Rightarrow> allocation option) \<Rightarrow> string \<times> int option \<Rightarrow> 'k set option" where
  "alias_index M t = (let ks = {k. \<exists>a. M k = Some a \<and> alias_target a = Some t} in
     if ks = {} then None else Some ks)"

lemma alias_index_None:
  "alias_index M t = None \<longleftrightarrow> (\<forall>k a. M k = Some a \<longrightarrow> alias_target a \<noteq> Some t)"
  by (auto simp: alias_index_def Let_def)

definition rows_index :: "alloc_map \<Rightarrow> allocation list \<Rightarrow> bool" where
  "rows_index M rows \<longleftrightarrow> sorted_wrt (\<lambda>a b. address_key a < address_key b) rows \<and> set rows = ran M"

definition indexed :: "alloc_map \<Rightarrow> allocator \<Rightarrow> bool" where
  "indexed M s \<longleftrightarrow> keyed M \<and> rows_index M (al_address_rows s) \<and>
     al_address_keys s = map address_key (al_address_rows s) \<and>
     wf_dict (al_aliases s) \<and> map_of (al_aliases s) = alias_index M \<and>
     (\<exists>gaps. al_free s = Some gaps \<and> canonical gaps \<and> covered gaps = {0..<al_capacity s} - root_bytes M \<and>
        al_fits s = filter (fit_gap (al_alignment s)) gaps)"

text \<open>The rows, and hence all indexes, are determined by the map.\<close>

lemma rows_index_unique:
  assumes "rows_index M rows" "rows_index M rows'" "keyed M"
  shows "rows = rows'"
proof -
  have "inj_on address_key (ran M)"
    using assms(3) by (auto simp: inj_on_def ran_def keyed_def address_key_def pa_key_def)
  then show ?thesis
    using assms(1,2) strict_sorted_equal [of "map address_key rows" "map address_key rows'"]
      map_inj_on [of address_key rows rows']
    by (auto simp: rows_index_def sorted_wrt_map strict_sorted_iff)
qed

lemma row_position:
  assumes "sorted_wrt (\<lambda>a b. address_key a < address_key b) (ys @ a # zs)"
  shows "bisect_left (\<lambda>k. k < address_key a) (map address_key (ys @ a # zs)) = length ys"
    and "bisect_left (\<lambda>k. k < address_key a) (map address_key (ys @ zs)) = length ys"
proof -
  have y: "\<forall>k \<in> set (map address_key ys). k < address_key a"
    and z: "\<forall>k \<in> set (map address_key zs). \<not> k < address_key a"
    using assms by (auto simp: sorted_wrt_append)
  then have z': "\<forall>k \<in> set (map address_key (a # zs)). \<not> k < address_key a" by simp
  show "bisect_left (\<lambda>k. k < address_key a) (map address_key (ys @ a # zs)) = length ys"
    using bisect_left_split [OF y z'] by simp
  show "bisect_left (\<lambda>k. k < address_key a) (map address_key (ys @ zs)) = length ys"
    using bisect_left_split [OF y z] by simp
qed

lemma remove_row_correct:
  assumes "al_address_keys s = map address_key (al_address_rows s)" "rows_index M (al_address_rows s)"
    "M k = Some a" "keyed M"
  obtains rows where "remove_row a s = s\<lparr>al_address_keys := map address_key rows, al_address_rows := rows\<rparr>"
    "rows_index (M(k := None)) rows"
proof -
  have "a \<in> set (al_address_rows s)" using assms(2) ranI [of M k a, OF assms(3)] by (simp add: rows_index_def)
  then obtain ys zs where rows: "al_address_rows s = ys @ a # zs" by (auto dest: split_list)
  have so: "sorted_wrt (\<lambda>a b. address_key a < address_key b) (ys @ a # zs)"
    using assms(2) rows by (simp add: rows_index_def)
  have "length ys = length (map address_key ys)" by simp
  then have "remove_row a s = s\<lparr>al_address_keys := map address_key (ys @ zs), al_address_rows := ys @ zs\<rparr>"
    using row_position(1) [OF so] list_pop_split [of "map address_key ys" "address_key a" "map address_key zs"]
    by (simp add: remove_row_def assms(1) rows)
  moreover have "a \<notin> set (ys @ zs)" using so by (auto simp: sorted_wrt_append)
  then have "set (ys @ zs) = ran M - {a}" using assms(2) rows by (auto simp: rows_index_def)
  moreover have "ran (M(k := None)) = ran M - {a}"
  proof -
    have uniq: "k' = k" if "M k' = Some a" for k' using assms(3,4) that unfolding keyed_def by metis
    show ?thesis
    proof (rule set_eqI)
      fix b
      have "b \<in> ran (M(k := None)) \<longleftrightarrow> (\<exists>k'. k' \<noteq> k \<and> M k' = Some b)"
        unfolding ran_def mem_Collect_eq by (intro ex_cong1) simp
      also have "\<dots> \<longleftrightarrow> (\<exists>k'. M k' = Some b) \<and> b \<noteq> a"
        using uniq assms(3) by (metis option.inject)
      also have "\<dots> \<longleftrightarrow> b \<in> ran M - {a}" unfolding ran_def by blast
      finally show "b \<in> ran (M(k := None)) \<longleftrightarrow> b \<in> ran M - {a}" .
    qed
  qed
  ultimately show ?thesis using that [of "ys @ zs"] so by (auto simp: rows_index_def sorted_wrt_append)
qed

lemma add_row_correct:
  assumes "al_address_keys s = map address_key (al_address_rows s)" "rows_index M (al_address_rows s)"
    "M k = None" "pa_key a = k" "keyed M"
  obtains rows where "add_row a s = s\<lparr>al_address_keys := map address_key rows, al_address_rows := rows\<rparr>"
    "rows_index (M(k \<mapsto> a)) rows"
proof -
  let ?rows = "al_address_rows s"
  define ys zs where "ys = takeWhile (\<lambda>b. address_key b < address_key a) ?rows"
    and "zs = dropWhile (\<lambda>b. address_key b < address_key a) ?rows"
  have rows: "?rows = ys @ zs" by (simp add: ys_def zs_def)
  have so: "sorted_wrt (\<lambda>a b. address_key a < address_key b) ?rows" using assms(2) by (simp add: rows_index_def)
  have y: "\<forall>b \<in> set ys. address_key b < address_key a" unfolding ys_def by (blast dest: set_takeWhileD)
  have "sorted_wrt (\<lambda>x y. address_key y < address_key a \<longrightarrow> address_key x < address_key a) ?rows"
    by (rule sorted_wrt_mono_rel [OF _ so]) auto
  then have nz: "\<forall>b \<in> set zs. \<not> address_key b < address_key a" unfolding zs_def using dropWhile_not_below by fast
  have "address_key b \<noteq> address_key a" if "b \<in> set ?rows" for b
  proof
    assume eq: "address_key b = address_key a"
    have "b \<in> ran M" using that assms(2) by (simp add: rows_index_def)
    then obtain k' where k': "M k' = Some b" unfolding ran_def by blast
    then have "pa_key b = k'" using assms(5) unfolding keyed_def by blast
    then have "k' = k" using eq assms(4) by (simp add: address_key_def pa_key_def)
    then show False using k' assms(3) by simp
  qed
  then have z: "\<forall>b \<in> set zs. address_key a < address_key b"
    using nz rows by (metis UnCI linorder_less_linear set_append)
  have so': "sorted_wrt (\<lambda>a b. address_key a < address_key b) (ys @ a # zs)"
    using so y z rows by (auto simp: sorted_wrt_append)
  have "add_row a s = s\<lparr>al_address_keys := map address_key (ys @ a # zs), al_address_rows := ys @ a # zs\<rparr>"
    using row_position(2) [OF so'] list_insert_split [of "map address_key ys" "[address_key a]" "map address_key zs"]
    by (simp add: add_row_def assms(1) rows)
  moreover have "ran (M(k \<mapsto> a)) = insert a (ran M)" using assms(3) by (rule ran_map_upd)
  then have "rows_index (M(k \<mapsto> a)) (ys @ a # zs)" using so' assms(2) rows by (auto simp: rows_index_def)
  ultimately show ?thesis using that [of "ys @ a # zs"] by simp
qed

section \<open>Storing, removing and rebuilding\<close>

lemma alias_index_add:
  assumes "M k = None" "map_of d = alias_index M" "alias_target a = Some t"
  shows "map_of (AList.update t (insert k (case map_of d t of None \<Rightarrow> {} | Some ks \<Rightarrow> ks)) d) =
    alias_index (M(k \<mapsto> a))"
proof
  fix u
  have s: "{k'. \<exists>b. (M(k \<mapsto> a)) k' = Some b \<and> alias_target b = Some u} =
      (if u = t then {k} else {}) \<union> {k'. \<exists>b. M k' = Some b \<and> alias_target b = Some u}"
    using assms(1,3) by (auto split: if_splits)
  have old: "(case map_of d t of None \<Rightarrow> {} | Some ks \<Rightarrow> ks) = {k'. \<exists>b. M k' = Some b \<and> alias_target b = Some t}"
    unfolding assms(2) alias_index_def Let_def by auto
  show "map_of (AList.update t (insert k (case map_of d t of None \<Rightarrow> {} | Some ks \<Rightarrow> ks)) d) u =
      alias_index (M(k \<mapsto> a)) u"
    unfolding old using s assms(2) by (auto simp: alias_index_def)
qed

lemma alias_index_other:
  assumes "M k = None" "alias_target a = None"
  shows "alias_index (M(k \<mapsto> a)) = alias_index M"
proof
  fix t
  have "{k'. \<exists>b. (M(k \<mapsto> a)) k' = Some b \<and> alias_target b = Some t} = {k'. \<exists>b. M k' = Some b \<and> alias_target b = Some t}"
    using assms by (auto split: if_splits)
  then show "alias_index (M(k \<mapsto> a)) t = alias_index M t" by (simp add: alias_index_def)
qed

lemma alias_index_remove:
  assumes "M k = Some a" "map_of d = alias_index M" "alias_target a = Some t"
  defines "ks \<equiv> (case map_of d t of None \<Rightarrow> {} | Some ks \<Rightarrow> ks) - {k}"
  shows "map_of (if ks = {} then AList.delete t d else AList.update t ks d) = alias_index (M(k := None))"
proof
  fix u
  have s: "{k'. \<exists>b. (M(k := None)) k' = Some b \<and> alias_target b = Some u} =
      {k'. \<exists>b. M k' = Some b \<and> alias_target b = Some u} - (if u = t then {k} else {})"
    using assms(1,3) by (auto split: if_splits)
  have old: "ks = {k'. \<exists>b. M k' = Some b \<and> alias_target b = Some t} - {k}"
    unfolding ks_def assms(2) alias_index_def Let_def by auto
  show "map_of (if ks = {} then AList.delete t d else AList.update t ks d) u = alias_index (M(k := None)) u"
    using s assms(2) old by (auto simp: alias_index_def)
qed

lemma alias_index_remove_root:
  assumes "M k = Some a" "alias_target a = None"
  shows "alias_index (M(k := None)) = alias_index M"
proof
  fix t
  have "{k'. \<exists>b. (M(k := None)) k' = Some b \<and> alias_target b = Some t} = {k'. \<exists>b. M k' = Some b \<and> alias_target b = Some t}"
    using assms by (auto split: if_splits)
  then show "alias_index (M(k := None)) t = alias_index M t" by (simp add: alias_index_def)
qed

lemma root_bytesI:
  "M k = Some a \<Longrightarrow> pa_alias_of a = None \<Longrightarrow> {pa_base a..<pa_end a} \<subseteq> root_bytes M"
  by (rule subsetI) (simp add: root_bytes_def, blast)

lemma root_bytes_remove:
  fixes M :: "'k \<Rightarrow> allocation option"
  assumes "M k = Some a" "roots_apart M"
  shows "root_bytes (M(k := None)) =
    (if pa_alias_of a = None then root_bytes M - {pa_base a..<pa_end a} else root_bytes M)"
proof (rule set_eqI)
  fix x
  have *: "x \<in> root_bytes (M(k := None)) \<longleftrightarrow>
      (\<exists>k' b. k' \<noteq> k \<and> M k' = Some b \<and> pa_alias_of b = None \<and> pa_base b \<le> x \<and> x < pa_end b)" (is "?l \<longleftrightarrow> ?r")
    by (auto simp: root_bytes_def)
  show "x \<in> root_bytes (M(k := None)) \<longleftrightarrow>
      x \<in> (if pa_alias_of a = None then root_bytes M - {pa_base a..<pa_end a} else root_bytes M)" (is "_ \<longleftrightarrow> ?s")
    unfolding *
  proof
    assume ?r
    then obtain k' b where b: "k' \<noteq> k" "M k' = Some b" "pa_alias_of b = None" "pa_base b \<le> x" "x < pa_end b" by blast
    then have "x \<in> root_bytes M" unfolding root_bytes_def by blast
    moreover have "x \<notin> {pa_base a..<pa_end a}" if "pa_alias_of a = None"
    proof -
      have "{pa_base b..<pa_end b} \<inter> {pa_base a..<pa_end a} = {}"
        using assms b that unfolding roots_apart_def by blast
      then show ?thesis using b(4,5) by auto
    qed
    ultimately show ?s by simp
  next
    assume s: ?s
    then have "x \<in> root_bytes M" by (simp split: if_splits)
    then obtain k' b where b: "M k' = Some b" "pa_alias_of b = None" "pa_base b \<le> x" "x < pa_end b"
      unfolding root_bytes_def by blast
    have "k' \<noteq> k"
    proof
      assume "k' = k"
      then have "b = a" using b(1) assms(1) by simp
      then show False using s b by simp
    qed
    then show ?r using b by blast
  qed
qed

lemma root_bytes_add:
  fixes M :: "'k \<Rightarrow> allocation option"
  assumes "M k = None"
  shows "root_bytes (M(k \<mapsto> a)) =
    (if pa_alias_of a = None then root_bytes M \<union> {pa_base a..<pa_end a} else root_bytes M)"
proof -
  have m: "x \<in> root_bytes (M(k \<mapsto> a)) \<longleftrightarrow> x \<in> root_bytes M \<or> pa_alias_of a = None \<and> pa_base a \<le> x \<and> x < pa_end a" for x
  proof
    assume "x \<in> root_bytes (M(k \<mapsto> a))"
    then obtain k' b where b: "(M(k \<mapsto> a)) k' = Some b" "pa_alias_of b = None" "pa_base b \<le> x" "x < pa_end b"
      unfolding root_bytes_def by blast
    show "x \<in> root_bytes M \<or> pa_alias_of a = None \<and> pa_base a \<le> x \<and> x < pa_end a"
    proof (cases "k' = k")
      case True
      then show ?thesis using b by simp
    next
      case False
      then have "M k' = Some b" using b(1) by simp
      then show ?thesis using b(2-4) unfolding root_bytes_def by blast
    qed
  next
    assume "x \<in> root_bytes M \<or> pa_alias_of a = None \<and> pa_base a \<le> x \<and> x < pa_end a"
    then consider (old) k' b where "M k' = Some b" "pa_alias_of b = None" "pa_base b \<le> x" "x < pa_end b"
      | (new) "pa_alias_of a = None" "pa_base a \<le> x" "x < pa_end a" by (auto simp: root_bytes_def)
    then show "x \<in> root_bytes (M(k \<mapsto> a))"
    proof cases
      case old
      then have "(M(k \<mapsto> a)) k' = Some b" using assms by auto
      then show ?thesis using old unfolding root_bytes_def by blast
    next
      case new
      moreover have "(M(k \<mapsto> a)) k = Some a" by simp
      ultimately show ?thesis unfolding root_bytes_def by blast
    qed
  qed
  show ?thesis by (intro set_eqI, cases "pa_alias_of a") (simp_all add: m)
qed

lemma free_extent_fields:
  "free_extent b e s = s\<lparr>al_free := al_free (free_extent b e s), al_fits := al_fits (free_extent b e s)\<rparr>"
  by (simp add: free_extent_def Let_def split: option.splits)

lemma unstore_correct:
  assumes ix: "indexed M s" and k: "M k = Some a" and apart: "roots_apart M"
    and cap: "0 \<le> pa_base a" "pa_base a < pa_end a" "pa_end a \<le> al_capacity s"
  obtains f g al rows where "unstore k a s = s\<lparr>al_free := f, al_fits := g, al_aliases := al,
      al_address_keys := map address_key rows, al_address_rows := rows\<rparr>" "indexed (M(k := None)) (unstore k a s)"
proof -
  note i = ix [unfolded indexed_def]
  obtain gaps where gaps: "al_free s = Some gaps" "canonical gaps" "covered gaps = {0..<al_capacity s} - root_bytes M"
    "al_fits s = filter (fit_gap (al_alignment s)) gaps" using i by blast
  let ?s1 = "if pa_alias_of a = None then free_extent (pa_base a) (pa_end a) s else s"
  have "\<exists>gaps'. ?s1 = s\<lparr>al_free := Some gaps', al_fits := filter (fit_gap (al_alignment s)) gaps'\<rparr> \<and>
      canonical gaps' \<and> covered gaps' = {0..<al_capacity s} - root_bytes (M(k := None))"
  proof (cases "pa_alias_of a = None")
    case True
    obtain gaps' where g: "free_gap (al_alignment s) (pa_base a) (pa_end a) (gaps, filter (fit_gap (al_alignment s)) gaps) =
        (gaps', filter (fit_gap (al_alignment s)) gaps')" "canonical gaps'"
      "covered gaps' = covered gaps \<union> {pa_base a..<pa_end a}"
      using free_gap_correct [OF gaps(2) cap(2)] by blast
    have "{pa_base a..<pa_end a} \<subseteq> root_bytes M" using root_bytesI [of M k a, OF k True] .
    then have "covered gaps' = {0..<al_capacity s} - root_bytes (M(k := None))"
      using True cap root_bytes_remove [OF k apart] unfolding g(3) gaps(3) by auto
    moreover have "?s1 = s\<lparr>al_free := Some gaps', al_fits := filter (fit_gap (al_alignment s)) gaps'\<rparr>"
      using True g(1) gaps(1,4) by (simp add: free_extent_def Let_def)
    ultimately show ?thesis using g(2) by blast
  next
    case False
    from False have "?s1 = s" by (rule if_not_P)
    also have "s = s\<lparr>al_free := Some gaps, al_fits := filter (fit_gap (al_alignment s)) gaps\<rparr>"
      using gaps(1,4) by (simp add: allocator.equality)
    finally have "?s1 = s\<lparr>al_free := Some gaps, al_fits := filter (fit_gap (al_alignment s)) gaps\<rparr>" .
    moreover have "covered gaps = {0..<al_capacity s} - root_bytes (M(k := None))"
      using gaps(3) unfolding root_bytes_remove [OF k apart] if_not_P [OF False] .
    ultimately show ?thesis using gaps(2) by blast
  qed
  then obtain gaps' where s1a: "?s1 = s\<lparr>al_free := Some gaps', al_fits := filter (fit_gap (al_alignment s)) gaps'\<rparr>"
    "canonical gaps'" "covered gaps' = {0..<al_capacity s} - root_bytes (M(k := None))" by blast
  define t1 where "t1 = ?s1"
  note s1 = s1a [folded t1_def]
  let ?s2 = "remove_alias k a t1"
  have "\<exists>al. ?s2 = t1\<lparr>al_aliases := al\<rparr> \<and> wf_dict al \<and> map_of al = alias_index (M(k := None))"
  proof (cases "alias_target a")
    case None
    then show ?thesis using i s1(1) alias_index_remove_root [of M k a, OF k None]
      by (intro exI [of _ "al_aliases s"]) (simp add: remove_alias_def)
  next
    case (Some t)
    have "map_of (al_aliases s) = alias_index M" using i by blast
    note ai = alias_index_remove [of M k a, OF k this Some]
    have al: "al_aliases t1 = al_aliases s" unfolding s1(1) by simp
    have "wf_dict (al_aliases s)" using i by blast
    then show ?thesis unfolding remove_alias_def Some option.case Let_def al using ai
      by (intro exI conjI refl) (simp_all split: if_split)
  qed
  then obtain al where s2: "?s2 = t1\<lparr>al_aliases := al\<rparr>" "wf_dict al" "map_of al = alias_index (M(k := None))" by blast
  have "al_address_keys ?s2 = map address_key (al_address_rows ?s2)" "rows_index M (al_address_rows ?s2)" "keyed M"
    using i unfolding s2(1) unfolding s1(1) by simp_all
  from remove_row_correct [of ?s2 M k a, OF this(1,2) k this(3)] obtain rows where
    s3: "remove_row a ?s2 = ?s2\<lparr>al_address_keys := map address_key rows, al_address_rows := rows\<rparr>"
      "rows_index (M(k := None)) rows" by blast
  have u: "unstore k a s = s\<lparr>al_free := Some gaps', al_fits := filter (fit_gap (al_alignment s)) gaps',
      al_aliases := al, al_address_keys := map address_key rows, al_address_rows := rows\<rparr>"
    unfolding unstore_def t1_def [symmetric] s3(1) unfolding s2(1) unfolding s1(1) by simp
  moreover have "keyed (M(k := None))" using i by (auto simp: keyed_def)
  then have "indexed (M(k := None)) (unstore k a s)"
    unfolding u using s1(2,3) s2(2,3) s3(2) by (simp add: indexed_def)
  ultimately show ?thesis by (rule that)
qed

lemma enter_correct:
  assumes ix: "indexed M s" and k: "M k = None" "pa_key a = k"
    and root: "pa_alias_of a = None \<longrightarrow> {pa_base a..<pa_end a} \<inter> root_bytes M = {}"
    and cap: "0 \<le> pa_base a" "0 < pa_size a" "pa_end a \<le> al_capacity s"
  obtains f g al rows where "enter k a s = s\<lparr>al_free := f, al_fits := g, al_aliases := al,
      al_address_keys := map address_key rows, al_address_rows := rows,
      al_largest := max (al_largest s) (pa_size a),
      al_peak := (if pa_alias_of a = None then max (al_peak s) (pa_end a) else al_peak s),
      al_allocations := AList.update k a (al_allocations s),
      al_order := (if map_of (al_order s) k = None then AList.update k (al_next_order s) (al_order s) else al_order s),
      al_next_order := (if map_of (al_order s) k = None then al_next_order s + 1 else al_next_order s)\<rparr>"
    "indexed (M(k \<mapsto> a)) (enter k a s)"
proof -
  note i = ix [unfolded indexed_def]
  have "al_address_keys s = map address_key (al_address_rows s)" "rows_index M (al_address_rows s)" "keyed M"
    using i by blast+
  from add_row_correct [OF this(1,2) k this(3)] obtain rows where
    s1: "add_row a s = s\<lparr>al_address_keys := map address_key rows, al_address_rows := rows\<rparr>"
      "rows_index (M(k \<mapsto> a)) rows" by blast
  let ?s3 = "s\<lparr>al_address_keys := map address_key rows, al_address_rows := rows,
      al_largest := max (al_largest s) (pa_size a),
      al_peak := (if pa_alias_of a = None then max (al_peak s) (pa_end a) else al_peak s),
      al_allocations := AList.update k a (al_allocations s),
      al_order := (if map_of (al_order s) k = None then AList.update k (al_next_order s) (al_order s) else al_order s),
      al_next_order := (if map_of (al_order s) k = None then al_next_order s + 1 else al_next_order s)\<rparr>"
  have e: "enter k a s = add_alias k a (occupy_extent a ?s3)"
    unfolding enter_def s1(1) Let_def by (cases "map_of (al_order s) k"; cases "pa_alias_of a") simp_all
  obtain gaps where gaps: "al_free s = Some gaps" "canonical gaps" "covered gaps = {0..<al_capacity s} - root_bytes M"
    "al_fits s = filter (fit_gap (al_alignment s)) gaps" using i by blast
  have "\<exists>gaps'. occupy_extent a ?s3 = ?s3\<lparr>al_free := Some gaps', al_fits := filter (fit_gap (al_alignment s)) gaps'\<rparr> \<and>
      canonical gaps' \<and> covered gaps' = {0..<al_capacity s} - root_bytes (M(k \<mapsto> a))"
  proof (cases "pa_alias_of a = None")
    case True
    have f: "al_free ?s3 = Some gaps" "al_fits ?s3 = filter (fit_gap (al_alignment ?s3)) gaps" using gaps by simp_all
    have sub: "{pa_base a..<pa_end a} \<subseteq> covered gaps" using True root cap gaps(3) by auto
    from occupy_extent_correct [OF f gaps(2) True cap(2) sub] obtain gaps' where
      "occupy_extent a ?s3 = ?s3\<lparr>al_free := Some gaps', al_fits := filter (fit_gap (al_alignment s)) gaps'\<rparr>"
      "canonical gaps'" "covered gaps' = covered gaps - {pa_base a..<pa_end a}" by auto
    then show ?thesis using True gaps(3) root_bytes_add [of M k a, OF k(1)] by (intro exI [of _ gaps']) auto
  next
    case False
    have "occupy_extent a ?s3 = ?s3" using False gaps(1) by (simp add: occupy_extent_def)
    also have "\<dots> = ?s3\<lparr>al_free := Some gaps, al_fits := filter (fit_gap (al_alignment s)) gaps\<rparr>"
      using gaps(1,4) by (simp add: allocator.equality)
    finally show ?thesis using False gaps root_bytes_add [of M k a, OF k(1)] by auto
  qed
  then obtain gaps' where oc: "occupy_extent a ?s3 = ?s3\<lparr>al_free := Some gaps', al_fits := filter (fit_gap (al_alignment s)) gaps'\<rparr>"
    "canonical gaps'" "covered gaps' = {0..<al_capacity s} - root_bytes (M(k \<mapsto> a))" by blast
  have "\<exists>al. add_alias k a (occupy_extent a ?s3) = (occupy_extent a ?s3)\<lparr>al_aliases := al\<rparr> \<and> wf_dict al \<and>
      map_of al = alias_index (M(k \<mapsto> a))"
  proof (cases "alias_target a")
    case None
    then show ?thesis using i oc(1) alias_index_other [of M k a, OF k(1) None]
      by (intro exI [of _ "al_aliases s"]) (simp add: add_alias_def)
  next
    case (Some t)
    have "map_of (al_aliases s) = alias_index M" using i by blast
    note ai = alias_index_add [of M k, OF k(1) this Some]
    have al: "al_aliases (occupy_extent a ?s3) = al_aliases s" unfolding oc(1) by simp
    have "wf_dict (al_aliases s)" using i by blast
    then show ?thesis unfolding add_alias_def Some option.case al using ai by (intro exI conjI refl) simp_all
  qed
  then obtain al where al: "add_alias k a (occupy_extent a ?s3) = (occupy_extent a ?s3)\<lparr>al_aliases := al\<rparr>" "wf_dict al"
    "map_of al = alias_index (M(k \<mapsto> a))" by blast
  have "enter k a s = (occupy_extent a ?s3)\<lparr>al_aliases := al\<rparr>" using e al(1) by (rule trans)
  also have "\<dots> = s\<lparr>al_free := Some gaps', al_fits := filter (fit_gap (al_alignment s)) gaps', al_aliases := al,
      al_address_keys := map address_key rows, al_address_rows := rows,
      al_largest := max (al_largest s) (pa_size a),
      al_peak := (if pa_alias_of a = None then max (al_peak s) (pa_end a) else al_peak s),
      al_allocations := AList.update k a (al_allocations s),
      al_order := (if map_of (al_order s) k = None then AList.update k (al_next_order s) (al_order s) else al_order s),
      al_next_order := (if map_of (al_order s) k = None then al_next_order s + 1 else al_next_order s)\<rparr>"
    unfolding oc(1) by simp
  finally have u: "enter k a s = s\<lparr>al_free := Some gaps', al_fits := filter (fit_gap (al_alignment s)) gaps', al_aliases := al,
      al_address_keys := map address_key rows, al_address_rows := rows,
      al_largest := max (al_largest s) (pa_size a),
      al_peak := (if pa_alias_of a = None then max (al_peak s) (pa_end a) else al_peak s),
      al_allocations := AList.update k a (al_allocations s),
      al_order := (if map_of (al_order s) k = None then AList.update k (al_next_order s) (al_order s) else al_order s),
      al_next_order := (if map_of (al_order s) k = None then al_next_order s + 1 else al_next_order s)\<rparr>" .
  have "keyed (M(k \<mapsto> a))" using i k(2) by (auto simp: keyed_def)
  then have "indexed (M(k \<mapsto> a)) (enter k a s)" unfolding u using oc(2,3) al(2,3) s1(2) by (simp add: indexed_def)
  then show ?thesis by (rule that [OF u])
qed

text \<open>The part of the indexes that \<open>_rebuild_indexes\<close> builds allocation by allocation.\<close>

definition part_indexed :: "alloc_map \<Rightarrow> allocator \<Rightarrow> bool" where
  "part_indexed M s \<longleftrightarrow> wf_dict (al_aliases s) \<and> map_of (al_aliases s) = alias_index M \<and>
     (\<exists>gaps. al_free s = Some gaps \<and> canonical gaps \<and> covered gaps = {0..<al_capacity s} - root_bytes M \<and>
        al_fits s = filter (fit_gap (al_alignment s)) gaps)"

definition same_but_gaps :: "allocator \<Rightarrow> allocator \<Rightarrow> bool" where
  "same_but_gaps s t \<longleftrightarrow> (\<exists>f g al. t = s\<lparr>al_aliases := al, al_free := f, al_fits := g\<rparr>)"

lemma same_but_gaps_refl: "same_but_gaps s s"
  unfolding same_but_gaps_def
  by (intro exI [of _ "al_aliases s"] exI [of _ "al_free s"] exI [of _ "al_fits s"]) simp

lemma same_but_gaps_trans: "same_but_gaps s t \<Longrightarrow> same_but_gaps t u \<Longrightarrow> same_but_gaps s u"
  unfolding same_but_gaps_def by (elim exE) (simp, blast)

lemma index_one_correct:
  assumes p: "part_indexed M s" and k: "M k = None"
    and root: "pa_alias_of a = None \<longrightarrow> {pa_base a..<pa_end a} \<inter> root_bytes M = {}"
    and cap: "0 \<le> pa_base a" "0 < pa_size a" "pa_end a \<le> al_capacity s"
  shows "same_but_gaps s (index_one (k, a) s)" "part_indexed (M(k \<mapsto> a)) (index_one (k, a) s)"
proof -
  obtain gaps where gaps: "al_free s = Some gaps" "canonical gaps" "covered gaps = {0..<al_capacity s} - root_bytes M"
    "al_fits s = filter (fit_gap (al_alignment s)) gaps" using p unfolding part_indexed_def by blast
  have al: "wf_dict (al_aliases s)" "map_of (al_aliases s) = alias_index M" using p unfolding part_indexed_def by blast+
  have "\<exists>gaps'. occupy_extent a s = s\<lparr>al_free := Some gaps', al_fits := filter (fit_gap (al_alignment s)) gaps'\<rparr> \<and>
      canonical gaps' \<and> covered gaps' = {0..<al_capacity s} - root_bytes (M(k \<mapsto> a))"
  proof (cases "pa_alias_of a = None")
    case True
    have sub: "{pa_base a..<pa_end a} \<subseteq> covered gaps" using True root cap gaps(3) by auto
    from occupy_extent_correct [OF gaps(1,4,2) True cap(2) sub] obtain gaps' where
      "occupy_extent a s = s\<lparr>al_free := Some gaps', al_fits := filter (fit_gap (al_alignment s)) gaps'\<rparr>"
      "canonical gaps'" "covered gaps' = covered gaps - {pa_base a..<pa_end a}" by blast
    then show ?thesis using True gaps(3) root_bytes_add [of M k a, OF k] by (intro exI [of _ gaps']) auto
  next
    case False
    have "occupy_extent a s = s" using False gaps(1) by (simp add: occupy_extent_def)
    also have "s = s\<lparr>al_free := Some gaps, al_fits := filter (fit_gap (al_alignment s)) gaps\<rparr>"
      using gaps(1,4) by (simp add: allocator.equality)
    finally show ?thesis using gaps(2,3) unfolding root_bytes_add [of M k a, OF k] if_not_P [OF False] by blast
  qed
  then obtain gaps' where oc: "occupy_extent a s = s\<lparr>al_free := Some gaps', al_fits := filter (fit_gap (al_alignment s)) gaps'\<rparr>"
    "canonical gaps'" "covered gaps' = {0..<al_capacity s} - root_bytes (M(k \<mapsto> a))" by blast
  have "\<exists>d. index_one (k, a) s = s\<lparr>al_aliases := d, al_free := Some gaps', al_fits := filter (fit_gap (al_alignment s)) gaps'\<rparr>
      \<and> wf_dict d \<and> map_of d = alias_index (M(k \<mapsto> a))"
  proof (cases "alias_target a")
    case None
    have "index_one (k, a) s = s\<lparr>al_aliases := al_aliases s, al_free := Some gaps', al_fits := filter (fit_gap (al_alignment s)) gaps'\<rparr>"
      unfolding index_one_def fst_conv snd_conv oc(1) add_alias_def None option.case by simp
    then show ?thesis using al alias_index_other [of M k a, OF k None] by fastforce
  next
    case (Some t)
    note ai = alias_index_add [of M k, OF k al(2) Some]
    have "index_one (k, a) s = s\<lparr>al_aliases := AList.update t (insert k (case map_of (al_aliases s) t of None \<Rightarrow> {} | Some ks \<Rightarrow> ks))
        (al_aliases s), al_free := Some gaps', al_fits := filter (fit_gap (al_alignment s)) gaps'\<rparr>"
      unfolding index_one_def fst_conv snd_conv oc(1) add_alias_def Some option.case by simp
    then show ?thesis using al(1) ai by blast
  qed
  then obtain d where d: "index_one (k, a) s = s\<lparr>al_aliases := d, al_free := Some gaps', al_fits := filter (fit_gap (al_alignment s)) gaps'\<rparr>"
    "wf_dict d" "map_of d = alias_index (M(k \<mapsto> a))" by blast
  show "same_but_gaps s (index_one (k, a) s)" unfolding d(1) same_but_gaps_def by blast
  show "part_indexed (M(k \<mapsto> a)) (index_one (k, a) s)" unfolding d(1) part_indexed_def using d(2,3) oc(2,3) by simp
qed

lemma roots_apartD:
  "roots_apart M \<Longrightarrow> M k = Some a \<Longrightarrow> M k' = Some a' \<Longrightarrow> k \<noteq> k' \<Longrightarrow> pa_alias_of a = None \<Longrightarrow>
    pa_alias_of a' = None \<Longrightarrow> {pa_base a..<pa_end a} \<inter> {pa_base a'..<pa_end a'} = {}"
  unfolding roots_apart_def by blast

lemma index_all_correct:
  assumes "part_indexed M s" "wf_dict d" "\<forall>k \<in> fst ` set d. M k = None" "roots_apart (M ++ map_of d)"
    "\<forall>(k, a) \<in> set d. 0 \<le> pa_base a \<and> 0 < pa_size a \<and> pa_end a \<le> al_capacity s"
  shows "same_but_gaps s (fold index_one d s) \<and> part_indexed (M ++ map_of d) (fold index_one d s)"
  using assms
proof (induction d arbitrary: M s)
  case Nil
  then show ?case by (simp add: same_but_gaps_refl)
next
  case (Cons ka d)
  obtain k a where ka: "ka = (k, a)" by (cases ka)
  have kd: "k \<notin> fst ` set d" "wf_dict d" "M k = None" using Cons.prems(2,3) ka by (simp_all add: wf_dict_Cons)
  have mk: "map_of d k = None" using kd(1) by (simp add: map_of_eq_None_iff)
  have eq: "M(k \<mapsto> a) ++ map_of d = M ++ map_of (ka # d)"
    using mk unfolding ka by (intro ext) (simp add: map_add_def split: option.splits)
  have ap: "roots_apart (M ++ map_of (ka # d))" using Cons.prems(4) .
  have root: "pa_alias_of a = None \<longrightarrow> {pa_base a..<pa_end a} \<inter> root_bytes M = {}"
  proof (intro impI equals0I)
    fix x assume r: "pa_alias_of a = None" and x: "x \<in> {pa_base a..<pa_end a} \<inter> root_bytes M"
    then obtain k' b where b: "M k' = Some b" "pa_alias_of b = None" "pa_base b \<le> x" "x < pa_end b"
      unfolding root_bytes_def by blast
    have ne: "k' \<noteq> k" using b(1) kd(3) by auto
    have "k' \<notin> fst ` set (ka # d)" using Cons.prems(3) b(1) by (metis option.distinct(1))
    then have "map_of (ka # d) k' = None" by (rule map_of_eq_None_iff [THEN iffD2])
    then have "(M ++ map_of (ka # d)) k' = Some b" using b(1) by (simp only: map_add_None map_add_def option.case)
    from roots_apartD [OF ap this _ ne b(2) r] have "{pa_base b..<pa_end b} \<inter> {pa_base a..<pa_end a} = {}"
      by (simp add: ka)
    then show False using x b(3,4) by auto
  qed
  have capa: "0 \<le> pa_base a" "0 < pa_size a" "pa_end a \<le> al_capacity s" using Cons.prems(5) ka by auto
  note one = index_one_correct [of M s k a, OF Cons.prems(1) kd(3) root capa]
  let ?t = "index_one (k, a) s"
  have cap: "al_capacity ?t = al_capacity s" using one(1) unfolding same_but_gaps_def by auto
  have none: "\<forall>k' \<in> fst ` set d. (M(k \<mapsto> a)) k' = None"
  proof
    fix k' assume k': "k' \<in> fst ` set d"
    then have "M k' = None" using Cons.prems(3) by auto
    moreover have "k' \<noteq> k" using k' kd(1) by blast
    ultimately show "(M(k \<mapsto> a)) k' = None" by simp
  qed
  have ap': "roots_apart (M(k \<mapsto> a) ++ map_of d)" unfolding eq by (rule ap)
  have bd: "\<forall>(k, a) \<in> set d. 0 \<le> pa_base a \<and> 0 < pa_size a \<and> pa_end a \<le> al_capacity ?t"
    unfolding cap using Cons.prems(5) by auto
  have f: "fold index_one (ka # d) s = fold index_one d ?t" by (simp add: ka)
  show ?case unfolding f eq [symmetric]
    using Cons.IH [of "M(k \<mapsto> a)" ?t, OF one(2) kd(2) none ap' bd] same_but_gaps_trans [OF one(1)] by blast
qed

lemma sorted_rows:
  assumes "wf_dict d" "keyed (map_of d)"
  shows "rows_index (map_of d) (sort_key address_key (map snd d))"
proof -
  have ran: "snd ` set d = ran (map_of d)" using assms(1) by (simp add: ran_distinct wf_dict_def)
  have keys: "map pa_key (map snd d) = map fst d"
  proof -
    have "pa_key a = k" if "(k, a) \<in> set d" for k a
      using that assms wf_dict_in_iff [OF assms(1)] unfolding keyed_def by blast
    then show ?thesis by (induction d) auto
  qed
  have "distinct (map pa_key (map snd d))" unfolding keys using assms(1) by (simp add: wf_dict_def)
  moreover have "map pa_key (map snd d) = map snd (map address_key (map snd d))"
    by (simp add: address_key_def pa_key_def)
  ultimately have "distinct (map address_key (map snd d))" by (metis distinct_map)
  then have "distinct (map address_key (sort_key address_key (map snd d)))"
    by (metis distinct_map distinct_sort set_sort)
  then have "sorted_wrt (<) (map address_key (sort_key address_key (map snd d)))"
    using sorted_sort_key [of address_key "map snd d"] by (simp add: strict_sorted_iff)
  then have "sorted_wrt (\<lambda>a b. address_key a < address_key b) (sort_key address_key (map snd d))"
    by (simp only: sorted_wrt_map)
  then show ?thesis using ran by (simp add: rows_index_def)
qed

lemma rebuild_correct:
  assumes wf: "wf_dict (al_allocations s)" and keyed: "keyed (map_of (al_allocations s))"
    and apart: "roots_apart (map_of (al_allocations s))" and cap: "0 < al_capacity s" "0 < al_alignment s"
    and bd: "\<forall>k a. map_of (al_allocations s) k = Some a \<longrightarrow> 0 \<le> pa_base a \<and> 0 < pa_size a \<and> pa_end a \<le> al_capacity s"
  obtains f g al rows n where "rebuild_indexes s = s\<lparr>al_free := f, al_fits := g, al_aliases := al,
      al_address_keys := map address_key rows, al_address_rows := rows, al_largest := n\<rparr>"
    "indexed (map_of (al_allocations s)) (rebuild_indexes s)"
    "\<forall>a \<in> set rows. pa_size a \<le> n"
proof -
  let ?d = "al_allocations s" and ?rows = "sort_key address_key (map snd (al_allocations s))"
  let ?n = "if ?rows = [] then 0 else Max (set (map pa_size ?rows))"
  define t where "t = s\<lparr>al_address_rows := ?rows, al_address_keys := map address_key ?rows, al_largest := ?n,
      al_aliases := [], al_free := Some [(0, al_capacity s)], al_fits := [(0, al_capacity s)]\<rparr>"
  have re: "rebuild_indexes s = fold index_one ?d t" unfolding rebuild_indexes_def t_def Let_def ..
  have ru: "round_up 0 (al_alignment s) = 0" using round_up_id [OF cap(2), of 0] by simp
  have ae: "alias_index Map.empty = Map.empty" by (rule ext) (simp add: alias_index_def)
  have "root_bytes (Map.empty :: alloc_map) = {}" by (simp add: root_bytes_def)
  then have "part_indexed Map.empty t"
    using cap(1) ru by (simp add: part_indexed_def t_def ae canonical_Cons covered_Cons fit_gap_def)
  moreover have "\<forall>(k, a) \<in> set ?d. 0 \<le> pa_base a \<and> 0 < pa_size a \<and> pa_end a \<le> al_capacity t"
  proof (intro ballI, clarify)
    fix k1 k2 a assume "((k1, k2), a) \<in> set ?d"
    then have "map_of ?d (k1, k2) = Some a" using wf_dict_in_iff [OF wf] by blast
    then show "0 \<le> pa_base a \<and> 0 < pa_size a \<and> pa_end a \<le> al_capacity t" using bd by (simp add: t_def)
  qed
  ultimately have all: "same_but_gaps t (fold index_one ?d t)" "part_indexed (map_of ?d) (fold index_one ?d t)"
    using index_all_correct [of Map.empty t ?d] wf apart by simp_all
  obtain f g al where eq: "fold index_one ?d t = t\<lparr>al_aliases := al, al_free := f, al_fits := g\<rparr>"
    using all(1) unfolding same_but_gaps_def by blast
  have r: "rebuild_indexes s = s\<lparr>al_free := f, al_fits := g, al_aliases := al, al_address_keys := map address_key ?rows,
      al_address_rows := ?rows, al_largest := ?n\<rparr>" unfolding re eq by (simp add: t_def)
  have "indexed (map_of ?d) (rebuild_indexes s)"
    using all(2) keyed sorted_rows [OF wf keyed] unfolding re eq by (simp add: indexed_def part_indexed_def t_def)
  moreover have "\<forall>a \<in> set ?rows. pa_size a \<le> ?n"
  proof
    fix a assume a: "a \<in> set ?rows"
    then have "?rows \<noteq> []" by (metis empty_iff list.set(1))
    moreover have "pa_size a \<le> Max (set (map pa_size ?rows))" using a by (intro Max_ge) simp_all
    ultimately show "pa_size a \<le> ?n" by simp
  qed
  ultimately show ?thesis by (rule that [OF r])
qed

end
