(* ===== verification/Allocator_State.thy ===== *)
theory Allocator_State
  imports Allocator_Index "HOL-Library.Multiset"
begin

text \<open>
  The invariant of the allocator. An image assigns every key its allocation and its ordinal; the
  current state has one, and every retained checkpoint has one, namely its before-images laid over
  the current image. All of them are well formed, which is what makes a rollback safe.
\<close>

type_synonym image_map = "alloc_key \<Rightarrow> before_image"

definition image_of :: "allocator \<Rightarrow> image_map" where
  "image_of s k = before_image_of k s"

definition restored :: "alloc_save \<Rightarrow> allocator \<Rightarrow> image_map" where
  "restored sv s k = (case map_of (sv_entries sv) k of Some p \<Rightarrow> p | None \<Rightarrow> image_of s k)"

definition in_arena :: "allocator \<Rightarrow> allocation \<Rightarrow> bool" where
  "in_arena s a \<longleftrightarrow> (case arena_bounds (pa_generation a) (pa_arena a) s of (lo, hi) \<Rightarrow>
     lo \<le> pa_base a \<and> pa_end a \<le> hi)"

definition alias_ok :: "image_map \<Rightarrow> alloc_key \<Rightarrow> allocation \<Rightarrow> string \<Rightarrow> bool" where
  "alias_ok v k a b \<longleftrightarrow> (\<exists>g t n m. pa_alias_generation a = Some g \<and> 0 \<le> g \<and> strip b = b \<and>
     v (b, g) = (Some t, Some n) \<and> snd (v k) = Some m \<and> n < m \<and>
     pa_base a = pa_base t + pa_alias_offset a \<and> 0 \<le> pa_alias_offset a \<and> pa_end a \<le> pa_end t)"

definition entry_ok :: "allocator \<Rightarrow> int \<Rightarrow> image_map \<Rightarrow> alloc_key \<Rightarrow> allocation \<Rightarrow> bool" where
  "entry_ok s p v k a \<longleftrightarrow> pa_key a = k \<and> strip (pa_buffer a) = pa_buffer a \<and> pa_buffer a \<noteq> [] \<and>
     0 \<le> pa_generation a \<and> 0 < pa_size a \<and> 0 \<le> pa_base a \<and> pa_end a \<le> al_capacity s \<and>
     (case pa_alias_of a of None \<Rightarrow> pa_end a \<le> p \<and> in_arena s a | Some b \<Rightarrow> alias_ok v k a b)"

definition image_ok :: "allocator \<Rightarrow> int \<Rightarrow> image_map \<Rightarrow> bool" where
  "image_ok s p v \<longleftrightarrow> (\<forall>k. fst (v k) = None \<longleftrightarrow> snd (v k) = None) \<and>
     (\<forall>k a. fst (v k) = Some a \<longrightarrow> entry_ok s p v k a) \<and> roots_apart (fst \<circ> v) \<and>
     (\<forall>k n. snd (v k) = Some n \<longrightarrow> 0 \<le> n) \<and>
     (\<forall>k k' n. snd (v k) = Some n \<and> snd (v k') = Some n \<longrightarrow> k = k')"

definition save_ok :: "allocator \<Rightarrow> alloc_save \<Rightarrow> bool" where
  "save_ok s sv \<longleftrightarrow> wf_dict (sv_entries sv) \<and> image_ok s (sv_peak sv) (restored sv s) \<and> 0 \<le> sv_peak sv \<and>
     sv_peak sv \<le> al_capacity s"

definition geometry_ok :: "allocator \<Rightarrow> bool" where
  "geometry_ok s \<longleftrightarrow> 0 < al_capacity s \<and> 0 < al_alignment s \<and> 0 \<le> al_workspace s \<and>
     al_workspace s < al_capacity s \<and> al_alignment s dvd (if al_workspace s = 0 then 0 else al_capacity s - al_workspace s)"

definition ordered :: "allocator \<Rightarrow> bool" where
  "ordered s \<longleftrightarrow> wf_dict (al_allocations s) \<and> wf_dict (al_order s) \<and>
     sorted_wrt (\<lambda>k k'. order_of s k < order_of s k') (map fst (al_allocations s)) \<and>
     (\<forall>k n. map_of (al_order s) k = Some n \<longrightarrow> n < al_next_order s) \<and> 0 \<le> al_next_order s"

definition saves_ok :: "allocator \<Rightarrow> bool" where
  "saves_ok s \<longleftrightarrow> wf_dict (al_saves s) \<and> (\<forall>h sv. map_of (al_saves s) h = Some sv \<longrightarrow> save_ok s sv \<and> h < al_next_save s)"

definition alloc_inv :: "allocator \<Rightarrow> bool" where
  "alloc_inv s \<longleftrightarrow> geometry_ok s \<and> ordered s \<and> image_ok s (al_peak s) (image_of s) \<and>
     indexed (map_of (al_allocations s)) s \<and> (\<forall>a \<in> set (al_address_rows s). pa_size a \<le> al_largest s) \<and>
     0 \<le> al_peak s \<and> al_peak s \<le> al_capacity s \<and> saves_ok s"

lemma image_simps:
  "fst (image_of s k) = map_of (al_allocations s) k" "snd (image_of s k) = map_of (al_order s) k"
  by (simp_all add: image_of_def before_image_of_def)

lemma image_fst: "fst \<circ> image_of s = map_of (al_allocations s)"
  by (rule ext) (simp add: image_simps)

lemma image_okD:
  assumes "image_ok s p v"
  shows "fst (v k) = None \<longleftrightarrow> snd (v k) = None" "fst (v k) = Some a \<Longrightarrow> entry_ok s p v k a" "roots_apart (fst \<circ> v)"
    "snd (v k) = Some n \<Longrightarrow> 0 \<le> n" "snd (v k) = Some n \<Longrightarrow> snd (v k') = Some n \<Longrightarrow> k = k'"
  using assms unfolding image_ok_def by blast+

lemma entry_okD:
  assumes "entry_ok s p v k a"
  shows "pa_key a = k" "0 < pa_size a" "0 \<le> pa_base a" "pa_end a \<le> al_capacity s" "pa_base a < pa_end a"
    "strip (pa_buffer a) = pa_buffer a" "pa_buffer a \<noteq> []" "0 \<le> pa_generation a"
    "pa_alias_of a = None \<Longrightarrow> pa_end a \<le> p" "pa_alias_of a = None \<Longrightarrow> in_arena s a"
    "pa_alias_of a = Some b \<Longrightarrow> alias_ok v k a b"
  using assms by (simp_all add: entry_ok_def pa_end_def split: option.splits)

text \<open>Only the capacities matter of the state, and a higher peak does no harm.\<close>

lemma image_ok_cong:
  assumes "al_capacity s' = al_capacity s" "al_workspace s' = al_workspace s"
  shows "image_ok s' p v \<longleftrightarrow> image_ok s p v"
proof -
  have "arena_bounds g r s' = arena_bounds g r s" for g r unfolding arena_bounds_def assms ..
  then have ia: "in_arena s' = in_arena s" by (intro ext) (simp add: in_arena_def)
  have "entry_ok s' = entry_ok s" by (intro ext) (unfold entry_ok_def ia assms, rule refl)
  then show ?thesis by (simp add: image_ok_def)
qed

lemma image_ok_empty: "image_ok s p (\<lambda>k. (None, None))"
  by (simp add: image_ok_def roots_apart_def)

section \<open>Changing one key of an image\<close>

lemma alias_ok_mono:
  assumes "alias_ok v k a b"
    "\<And>g t n. v (b, g) = (Some t, Some n) \<Longrightarrow>
      \<exists>t'. v' (b, g) = (Some t', Some n) \<and> pa_base t' = pa_base t \<and> pa_end t \<le> pa_end t'"
    "snd (v' k) = snd (v k)"
  shows "alias_ok v' k a b"
proof -
  obtain g t n m where a: "pa_alias_generation a = Some g" "0 \<le> g" "strip b = b" "v (b, g) = (Some t, Some n)"
    "snd (v k) = Some m" "n < m" "pa_base a = pa_base t + pa_alias_offset a" "0 \<le> pa_alias_offset a" "pa_end a \<le> pa_end t"
    using assms(1) unfolding alias_ok_def by blast
  from assms(2) [OF a(4)] obtain t' where "v' (b, g) = (Some t', Some n)" "pa_base t' = pa_base t" "pa_end t \<le> pa_end t'"
    by blast
  then show ?thesis using a assms(3) unfolding alias_ok_def
    by (intro exI [of _ g] exI [of _ t'] exI [of _ n] exI [of _ m]) simp
qed

lemma entry_ok_mono:
  assumes "entry_ok s p v k a" "p \<le> p'" "\<And>b. pa_alias_of a = Some b \<Longrightarrow> alias_ok v k a b \<Longrightarrow> alias_ok v' k a b"
  shows "entry_ok s p' v' k a"
proof (cases "pa_alias_of a")
  case None
  then show ?thesis using assms(1,2) by (simp add: entry_ok_def)
next
  case (Some b)
  then show ?thesis using assms(1) assms(3) [OF Some] by (simp add: entry_ok_def)
qed

lemma image_ok_set:
  assumes ok: "image_ok s p v" and e: "entry_ok s p' (v(k := (Some a, Some n))) k a" and pp: "p \<le> p'"
    and n: "0 \<le> n" "\<And>k'. k' \<noteq> k \<Longrightarrow> snd (v k') \<noteq> Some n"
    and root: "\<And>k' a'. pa_alias_of a = None \<Longrightarrow> k' \<noteq> k \<Longrightarrow> fst (v k') = Some a' \<Longrightarrow> pa_alias_of a' = None \<Longrightarrow>
        {pa_base a..<pa_end a} \<inter> {pa_base a'..<pa_end a'} = {}"
    and keep: "v k = (None, None) \<or> (\<exists>a0. v k = (Some a0, Some n) \<and> pa_base a = pa_base a0 \<and> pa_end a0 \<le> pa_end a)"
  shows "image_ok s p' (v(k := (Some a, Some n)))"
proof -
  let ?v = "v(k := (Some a, Some n))"
  have "entry_ok s p' ?v k' a'" if a': "fst (?v k') = Some a'" for k' a'
  proof (cases "k' = k")
    case True
    then show ?thesis using a' e by simp
  next
    case False
    then have a0: "fst (v k') = Some a'" using a' by simp
    show ?thesis
    proof (rule entry_ok_mono [OF image_okD(2) [OF ok a0] pp])
      fix b assume "alias_ok v k' a' b"
      then show "alias_ok ?v k' a' b"
      proof (rule alias_ok_mono)
        fix g t m assume t: "v (b, g) = (Some t, Some m)"
        show "\<exists>t'. ?v (b, g) = (Some t', Some m) \<and> pa_base t' = pa_base t \<and> pa_end t \<le> pa_end t'"
        proof (cases "(b, g) = k")
          case True
          then show ?thesis using keep t by auto
        next
          case False
          then show ?thesis using t by simp
        qed
      qed (use False in simp)
    qed
  qed
  moreover have "fst (?v k') = None \<longleftrightarrow> snd (?v k') = None" for k'
    using image_okD(1) [OF ok, of k'] by simp
  moreover have "roots_apart (fst \<circ> ?v)"
    unfolding roots_apart_def
  proof (intro allI impI, elim conjE)
    fix k1 a1 k2 a2
    assume k: "(fst \<circ> ?v) k1 = Some a1" "(fst \<circ> ?v) k2 = Some a2" "k1 \<noteq> k2" "pa_alias_of a1 = None" "pa_alias_of a2 = None"
    show "{pa_base a1..<pa_end a1} \<inter> {pa_base a2..<pa_end a2} = {}"
    proof (cases "k1 = k \<or> k2 = k")
      case True
      then consider (one) "k1 = k" "k2 \<noteq> k" | (two) "k2 = k" "k1 \<noteq> k" using k(3) by blast
      then show ?thesis
      proof cases
        case one
        then show ?thesis using root [of k2 a2] k by simp
      next
        case two
        then show ?thesis using root [of k1 a1] k by (subst Int_commute) simp
      qed
    next
      case False
      then show ?thesis using roots_apartD [OF image_okD(3) [OF ok], of k1 a1 k2 a2] k by simp
    qed
  qed
  moreover have "0 \<le> m" if "snd (?v k') = Some m" for k' m
    using that n(1) image_okD(4) [OF ok, of k' m] by (cases "k' = k") simp_all
  moreover have "k1 = k2" if "snd (?v k1) = Some m" "snd (?v k2) = Some m" for k1 k2 m
    using that n(2) [of k1] n(2) [of k2] image_okD(5) [OF ok, of k1 m k2] by (cases "k1 = k"; cases "k2 = k") auto
  ultimately show ?thesis unfolding image_ok_def by blast
qed

lemma image_ok_remove:
  assumes ok: "image_ok s p v"
    and free: "\<And>k' a b. fst (v k') = Some a \<Longrightarrow> pa_alias_of a = Some b \<Longrightarrow> pa_alias_generation a = Some (snd k) \<Longrightarrow> b \<noteq> fst k"
  shows "image_ok s p (v(k := (None, None)))"
proof -
  let ?v = "v(k := (None, None))"
  have "entry_ok s p ?v k' a'" if a': "fst (?v k') = Some a'" for k' a'
  proof -
    have kk: "k' \<noteq> k" using a' by auto
    then have a0: "fst (v k') = Some a'" using a' by simp
    show ?thesis
    proof (rule entry_ok_mono [OF image_okD(2) [OF ok a0] order_refl])
      fix b assume b: "pa_alias_of a' = Some b" "alias_ok v k' a' b"
      then have "(b, g) \<noteq> k" if "pa_alias_generation a' = Some g" for g
        using free [OF a0 b(1)] that by auto
      then show "alias_ok ?v k' a' b" using b(2) kk unfolding alias_ok_def by auto
    qed
  qed
  moreover have "fst (?v k') = None \<longleftrightarrow> snd (?v k') = None" for k'
    using image_okD(1) [OF ok, of k'] by simp
  moreover have "roots_apart (fst \<circ> ?v)"
    unfolding roots_apart_def
  proof (intro allI impI, elim conjE)
    fix k1 a1 k2 a2
    assume k: "(fst \<circ> ?v) k1 = Some a1" "(fst \<circ> ?v) k2 = Some a2" "k1 \<noteq> k2" "pa_alias_of a1 = None" "pa_alias_of a2 = None"
    then have "(fst \<circ> v) k1 = Some a1" "(fst \<circ> v) k2 = Some a2" by (auto split: if_splits)
    then show "{pa_base a1..<pa_end a1} \<inter> {pa_base a2..<pa_end a2} = {}"
      using roots_apartD [OF image_okD(3) [OF ok]] k(3-5) by blast
  qed
  moreover have "0 \<le> m" if "snd (?v k') = Some m" for k' m
    using that image_okD(4) [OF ok, of k' m] by (cases "k' = k") simp_all
  moreover have "k1 = k2" if "snd (?v k1) = Some m" "snd (?v k2) = Some m" for k1 k2 m
    using that image_okD(5) [OF ok, of k1 m k2] by (cases "k1 = k"; cases "k2 = k") auto
  ultimately show ?thesis unfolding image_ok_def by blast
qed

section \<open>Journalling\<close>

text \<open>Every retained checkpoint still restores what it restored before.\<close>

definition keeps_save :: "allocator \<Rightarrow> allocator \<Rightarrow> nat \<Rightarrow> bool" where
  "keeps_save s s' h \<longleftrightarrow> (\<forall>sv. map_of (al_saves s) h = Some sv \<longrightarrow>
     (\<exists>sv'. map_of (al_saves s') h = Some sv' \<and> sv_peak sv' = sv_peak sv \<and> restored sv' s' = restored sv s \<and>
        (wf_dict (sv_entries sv) \<longrightarrow> wf_dict (sv_entries sv'))))"

definition journalled :: "allocator \<Rightarrow> allocator \<Rightarrow> bool" where
  "journalled s s' \<longleftrightarrow> (\<forall>h. keeps_save s s' h) \<and> map fst (al_saves s') = map fst (al_saves s) \<and>
     al_next_save s' = al_next_save s \<and> al_capacity s' = al_capacity s \<and> al_workspace s' = al_workspace s \<and>
     al_alignment s' = al_alignment s"

lemma keeps_save_refl: "keeps_save s s h"
  by (simp add: keeps_save_def)

lemma keeps_save_trans: "keeps_save s t h \<Longrightarrow> keeps_save t u h \<Longrightarrow> keeps_save s u h"
  unfolding keeps_save_def by metis

lemma journalled_refl: "journalled s s"
  by (simp add: journalled_def keeps_save_refl)

lemma journalled_trans: "journalled s t \<Longrightarrow> journalled t u \<Longrightarrow> journalled s u"
  unfolding journalled_def using keeps_save_trans [of s t _ u] by auto

lemma map_of_map_value: "map_of (map (\<lambda>(h, x). (h, f x)) d) h = map_option f (map_of d h)"
  by (induction d) auto

lemma set_default_lookup: "map_of (set_default k x d) k' = (case map_of d k' of Some y \<Rightarrow> Some y
    | None \<Rightarrow> if k' = k then Some x else None)"
  by (auto simp: set_default_def map_add_def split: option.splits)

lemma set_default_wf: "wf_dict d \<Longrightarrow> wf_dict (set_default k x d)"
  by (auto simp: set_default_def wf_dict_def map_of_eq_None_iff)

text \<open>A change at one key after \<open>_before_mutation\<close> of that key is journalled.\<close>

lemma journalled_step:
  assumes "al_saves s' = al_saves (before_mutation k s)" "\<And>k'. k' \<noteq> k \<Longrightarrow> image_of s' k' = image_of s k'"
    "al_next_save s' = al_next_save s" "al_capacity s' = al_capacity s" "al_workspace s' = al_workspace s"
    "al_alignment s' = al_alignment s"
  shows "journalled s s'"
proof -
  let ?f = "\<lambda>sv. sv\<lparr>sv_entries := set_default k (before_image_of k s) (sv_entries sv)\<rparr>"
  have sv: "map_of (al_saves s') h = map_option ?f (map_of (al_saves s) h)" for h
    using map_of_map_value [of ?f "al_saves s" h] by (simp add: assms(1) before_mutation_def)
  have r: "restored (?f sv) s' = restored sv s" for sv
  proof
    fix k'
    show "restored (?f sv) s' k' = restored sv s k'"
      using assms(2) [of k'] by (auto simp: restored_def set_default_lookup image_of_def split: option.splits)
  qed
  have "keeps_save s s' h" for h
    unfolding keeps_save_def using r by (simp add: sv set_default_wf)
  moreover have "map fst (al_saves s') = map fst (al_saves s)"
    by (simp add: assms(1) before_mutation_def split_beta comp_def)
  ultimately show ?thesis using assms(3-6) by (simp add: journalled_def)
qed

lemma journalled_saves_ok:
  assumes "journalled s s'" "saves_ok s"
  shows "saves_ok s'"
proof -
  have j: "\<forall>h. keeps_save s s' h" "map fst (al_saves s') = map fst (al_saves s)" "al_next_save s' = al_next_save s"
    "al_capacity s' = al_capacity s" "al_workspace s' = al_workspace s" using assms(1) by (simp_all add: journalled_def)
  have "save_ok s' sv' \<and> h < al_next_save s'" if sv': "map_of (al_saves s') h = Some sv'" for h sv'
  proof -
    have "map_of (al_saves s) h \<noteq> None"
    proof
      assume "map_of (al_saves s) h = None"
      then have "h \<notin> set (map fst (al_saves s'))" unfolding j(2) by (simp add: map_of_eq_None_iff)
      then show False using sv' by (metis map_of_eq_None_iff option.distinct(1) set_map)
    qed
    then obtain sv where sv: "map_of (al_saves s) h = Some sv" by blast
    have "keeps_save s s' h" using j(1) ..
    then have k: "sv_peak sv' = sv_peak sv" "restored sv' s' = restored sv s"
      "wf_dict (sv_entries sv) \<longrightarrow> wf_dict (sv_entries sv')"
      using sv sv' unfolding keeps_save_def by auto
    have "save_ok s sv" "h < al_next_save s" using assms(2) sv unfolding saves_ok_def by blast+
    then show ?thesis using k j(3,4) image_ok_cong [OF j(4,5)] by (simp add: save_ok_def)
  qed
  moreover have "wf_dict (al_saves s')" using assms(2) j(2) by (simp add: saves_ok_def wf_dict_def)
  ultimately show ?thesis unfolding saves_ok_def by blast
qed

section \<open>Storing and releasing\<close>

lemma alloc_invD:
  assumes "alloc_inv s"
  shows "geometry_ok s" "ordered s" "image_ok s (al_peak s) (image_of s)" "indexed (map_of (al_allocations s)) s"
    "\<forall>a \<in> set (al_address_rows s). pa_size a \<le> al_largest s" "0 \<le> al_peak s" "al_peak s \<le> al_capacity s" "saves_ok s"
  using assms by (simp_all add: alloc_inv_def)

lemma entry_of:
  assumes "alloc_inv s" "map_of (al_allocations s) k = Some a"
  shows "entry_ok s (al_peak s) (image_of s) k a"
  using image_okD(2) [OF alloc_invD(3) [OF assms(1)], of k a] assms(2) by (simp add: image_simps)

lemma order_dom:
  assumes "image_ok s p (image_of s)"
  shows "map_of (al_order s) k = None \<longleftrightarrow> map_of (al_allocations s) k = None"
  using image_okD(1) [OF assms, of k] by (simp add: image_simps)

lemma before_mutation_fields:
  "before_mutation k s = s\<lparr>al_saves := al_saves (before_mutation k s)\<rparr>"
  by (simp add: before_mutation_def)

lemma indexed_cong:
  assumes "al_address_rows s' = al_address_rows s" "al_address_keys s' = al_address_keys s"
    "al_aliases s' = al_aliases s" "al_free s' = al_free s" "al_fits s' = al_fits s"
    "al_capacity s' = al_capacity s" "al_alignment s' = al_alignment s"
  shows "indexed M s' \<longleftrightarrow> indexed M s"
  unfolding indexed_def assms ..

lemma rows_of_map: "indexed M s \<Longrightarrow> set (al_address_rows s) = ran M"
  by (simp add: indexed_def rows_index_def)

lemma not_in_root_bytes:
  assumes "\<And>k' a'. M k' = Some a' \<Longrightarrow> pa_alias_of a' = None \<Longrightarrow>
    {pa_base a..<pa_end a} \<inter> {pa_base a'..<pa_end a'} = {}"
  shows "{pa_base a..<pa_end a} \<inter> root_bytes M = {}"
proof (rule equals0I)
  fix x assume x: "x \<in> {pa_base a..<pa_end a} \<inter> root_bytes M"
  then obtain k' a' where "M k' = Some a'" "pa_alias_of a' = None" "pa_base a' \<le> x" "x < pa_end a'"
    unfolding root_bytes_def by blast
  then show False using assms [of k' a'] x by auto
qed

definition stored_as :: "alloc_key \<Rightarrow> allocation \<Rightarrow> int \<Rightarrow> allocator \<Rightarrow> allocator \<Rightarrow> bool" where
  "stored_as k a n s s' \<longleftrightarrow> alloc_inv s' \<and> journalled s s' \<and> al_allocations s' = AList.update k a (al_allocations s) \<and>
     image_of s' = (image_of s)(k := (Some a, Some n)) \<and>
     al_peak s' = (if pa_alias_of a = None then max (al_peak s) (pa_end a) else al_peak s) \<and> al_open s' = al_open s"

lemma enter_ok:
  fixes s k a
  defines "n \<equiv> (case map_of (al_order s) k of None \<Rightarrow> al_next_order s | Some n \<Rightarrow> n)"
  defines "p' \<equiv> (if pa_alias_of a = None then max (al_peak s) (pa_end a) else al_peak s)"
  assumes inv: "alloc_inv s"
    and t: "indexed ((map_of (al_allocations s))(k := None)) t"
      "t = s\<lparr>al_saves := al_saves (before_mutation k s), al_free := f, al_fits := g, al_aliases := al,
        al_address_keys := map address_key rows, al_address_rows := rows\<rparr>"
    and e: "entry_ok s p' ((image_of s)(k := (Some a, Some n))) k a"
    and apart: "\<And>k' a'. pa_alias_of a = None \<Longrightarrow> k' \<noteq> k \<Longrightarrow> map_of (al_allocations s) k' = Some a' \<Longrightarrow>
        pa_alias_of a' = None \<Longrightarrow> {pa_base a..<pa_end a} \<inter> {pa_base a'..<pa_end a'} = {}"
    and keep: "\<And>a0. map_of (al_allocations s) k = Some a0 \<Longrightarrow> pa_base a = pa_base a0 \<and> pa_end a0 \<le> pa_end a"
  shows "stored_as k a n s (enter k a t)"
proof -
  let ?M = "map_of (al_allocations s)" and ?s' = "enter k a t"
  note iv = alloc_invD [OF inv]
  have ord: "wf_dict (al_allocations s)" "wf_dict (al_order s)"
    "sorted_wrt (\<lambda>k k'. order_of s k < order_of s k') (map fst (al_allocations s))"
    "\<forall>k n. map_of (al_order s) k = Some n \<longrightarrow> n < al_next_order s" "0 \<le> al_next_order s"
    using iv(2) by (simp_all add: ordered_def)
  note od = order_dom [OF iv(3)]
  have mk: "(?M(k := None)) k = None" by simp
  have key: "pa_key a = k" and cap: "0 \<le> pa_base a" "0 < pa_size a" "pa_end a \<le> al_capacity t"
    using entry_okD [OF e] t(2) by simp_all
  have rt: "pa_alias_of a = None \<longrightarrow> {pa_base a..<pa_end a} \<inter> root_bytes (?M(k := None)) = {}"
    by (intro impI not_in_root_bytes) (use apart in \<open>auto split: if_splits\<close>)
  obtain f' g' al' rows' where en: "?s' = t\<lparr>al_free := f', al_fits := g', al_aliases := al',
      al_address_keys := map address_key rows', al_address_rows := rows',
      al_largest := max (al_largest t) (pa_size a),
      al_peak := (if pa_alias_of a = None then max (al_peak t) (pa_end a) else al_peak t),
      al_allocations := AList.update k a (al_allocations t),
      al_order := (if map_of (al_order t) k = None then AList.update k (al_next_order t) (al_order t) else al_order t),
      al_next_order := (if map_of (al_order t) k = None then al_next_order t + 1 else al_next_order t)\<rparr>"
    "indexed ((?M(k := None))(k \<mapsto> a)) ?s'"
    by (rule enter_correct [of "?M(k := None)" t k a, OF t(1) mk key rt cap])
  have s': "al_allocations ?s' = AList.update k a (al_allocations s)" "al_open ?s' = al_open s"
    "al_peak ?s' = p'" "al_capacity ?s' = al_capacity s" "al_alignment ?s' = al_alignment s"
    "al_workspace ?s' = al_workspace s" "al_saves ?s' = al_saves (before_mutation k s)"
    "al_order ?s' = (if map_of (al_order s) k = None then AList.update k (al_next_order s) (al_order s) else al_order s)"
    "al_next_order ?s' = (if map_of (al_order s) k = None then al_next_order s + 1 else al_next_order s)"
    "al_next_save ?s' = al_next_save s" "al_largest ?s' = max (al_largest s) (pa_size a)"
    unfolding en(1) unfolding t(2) p'_def by simp_all
  have on: "map_of (al_order ?s') = (map_of (al_order s))(k \<mapsto> n)"
    unfolding s'(8) n_def by (rule ext) (simp split: option.splits)
  have img: "image_of ?s' = (image_of s)(k := (Some a, Some n))"
    by (rule ext) (simp add: image_of_def before_image_of_def s'(1) on)
  have n0: "0 \<le> n" "n < al_next_order ?s'" "\<And>k'. k' \<noteq> k \<Longrightarrow> map_of (al_order s) k' \<noteq> Some n"
  proof -
    show "0 \<le> n" using ord(5) image_okD(4) [OF iv(3), of k] by (simp add: n_def image_simps split: option.splits)
    show "n < al_next_order ?s'" using ord(4) [rule_format, of k] by (simp add: n_def s'(9) split: option.splits)
    show "map_of (al_order s) k' \<noteq> Some n" if "k' \<noteq> k" for k'
      using ord(4) [rule_format, of k' n] image_okD(5) [OF iv(3), of k' n k] that
      by (cases "map_of (al_order s) k") (auto simp: n_def image_simps)
  qed
  have iok: "image_ok s p' ((image_of s)(k := (Some a, Some n)))"
  proof (rule image_ok_set [OF iv(3) e])
    show "al_peak s \<le> p'" by (simp add: p'_def)
    show "0 \<le> n" by (rule n0)
    show "snd (image_of s k') \<noteq> Some n" if "k' \<noteq> k" for k' using n0(3) that by (simp add: image_simps)
    show "{pa_base a..<pa_end a} \<inter> {pa_base a'..<pa_end a'} = {}"
      if "pa_alias_of a = None" "k' \<noteq> k" "fst (image_of s k') = Some a'" "pa_alias_of a' = None" for k' a'
      using apart that by (simp add: image_simps)
    show "image_of s k = (None, None) \<or>
        (\<exists>a0. image_of s k = (Some a0, Some n) \<and> pa_base a = pa_base a0 \<and> pa_end a0 \<le> pa_end a)"
    proof (cases "?M k")
      case None
      then show ?thesis using od [of k] by (simp add: image_of_def before_image_of_def)
    next
      case (Some a0)
      then obtain m where "map_of (al_order s) k = Some m" using od [of k] by auto
      then show ?thesis using keep [OF Some] Some by (simp add: image_of_def before_image_of_def n_def)
    qed
  qed
  have j: "journalled s ?s'"
  proof (rule journalled_step [of ?s' k s])
    show "image_of ?s' k' = image_of s k'" if "k' \<noteq> k" for k' using that by (simp add: img)
  qed (use s' in simp_all)
  have "ordered ?s'"
  proof -
    have same: "order_of ?s' k' = order_of s k'" if "k' \<noteq> k" for k' using that by (simp add: order_of_def on)
    have "sorted_wrt (\<lambda>k k'. order_of ?s' k < order_of ?s' k') (map fst (AList.update k a (al_allocations s)))"
    proof (cases "?M k")
      case None
      then have kn: "k \<notin> fst ` set (al_allocations s)" by (simp add: map_of_eq_None_iff)
      have up: "map fst (AList.update k a (al_allocations s)) = map fst (al_allocations s) @ [k]"
        using kn by (simp add: update_keys)
      have lt: "order_of ?s' k' < order_of ?s' k" if k': "k' \<in> fst ` set (al_allocations s)" for k'
      proof -
        have ne: "k' \<noteq> k" using k' kn by blast
        have "?M k' \<noteq> None" using k' by (simp add: map_of_eq_None_iff)
        then obtain m where m: "map_of (al_order s) k' = Some m" using od [of k'] by auto
        moreover have "n = al_next_order s" using None od [of k] by (simp add: n_def)
        ultimately show ?thesis using ord(4) [rule_format, OF m] ne by (simp add: order_of_def on)
      qed
      have "sorted_wrt (\<lambda>k k'. order_of ?s' k < order_of ?s' k') (map fst (al_allocations s))"
        by (rule sorted_wrt_mono_rel [OF _ ord(3)]) (use same kn in \<open>metis image_set\<close>)
      then show ?thesis unfolding up using lt by (simp add: sorted_wrt_append)
    next
      case (Some a0)
      then have "k \<in> fst ` set (al_allocations s)" by (metis map_of_eq_None_iff option.distinct(1))
      then have up: "map fst (AList.update k a (al_allocations s)) = map fst (al_allocations s)"
        by (simp add: update_keys)
      have "order_of ?s' k' = order_of s k'" for k'
        using Some od [of k] by (cases "k' = k") (auto simp: order_of_def on n_def split: option.splits)
      then show ?thesis unfolding up using ord(3) by simp
    qed
    moreover have "m < al_next_order ?s'" if "map_of (al_order ?s') k' = Some m" for k' m
    proof (cases "k' = k")
      case True
      then show ?thesis using that n0(2) by (simp add: on)
    next
      case False
      then have "m < al_next_order s" using that ord(4) [rule_format, of k' m] by (simp add: on)
      then show ?thesis by (simp add: s'(9))
    qed
    ultimately show ?thesis
      using ord(1,2,5) unfolding ordered_def s'(1) by (simp add: s'(8,9))
  qed
  moreover have "(?M(k := None))(k \<mapsto> a) = map_of (al_allocations ?s')" by (rule ext) (simp add: s'(1))
  then have ix: "indexed (map_of (al_allocations ?s')) ?s'" using en(2) by simp
  moreover have "image_ok ?s' (al_peak ?s') (image_of ?s')"
    using iok image_ok_cong [OF s'(4,6)] by (simp add: img s'(3))
  moreover have "pa_size b \<le> al_largest ?s'" if b: "b \<in> set (al_address_rows ?s')" for b
  proof -
    obtain k' where "map_of (al_allocations ?s') k' = Some b"
      using b unfolding rows_of_map [OF ix] ran_def by blast
    then have "b = a \<or> ?M k' = Some b" by (simp add: s'(1) split: if_splits)
    then have "b = a \<or> b \<in> ran ?M" using ranI [of ?M k' b] by blast
    then show ?thesis using iv(5) rows_of_map [OF iv(4)] by (auto simp: s'(11))
  qed
  moreover have "0 \<le> p'" "p' \<le> al_capacity s" using iv(6,7) cap t(2) by (simp_all add: p'_def le_max_iff_disj)
  moreover have "geometry_ok ?s'" using iv(1) unfolding geometry_ok_def s'(4-6) .
  moreover have "saves_ok ?s'" by (rule journalled_saves_ok [OF j iv(8)])
  ultimately have "alloc_inv ?s'" using s'(3,4) unfolding alloc_inv_def by simp
  then show ?thesis using j img s'(1-3) by (simp add: stored_as_def p'_def)
qed

text \<open>Storing under a new key and storing a changed allocation under its old key.\<close>

lemma store_allocation_ok:
  fixes s k a
  defines "n \<equiv> (case map_of (al_order s) k of None \<Rightarrow> al_next_order s | Some n \<Rightarrow> n)"
  defines "p' \<equiv> (if pa_alias_of a = None then max (al_peak s) (pa_end a) else al_peak s)"
  assumes inv: "alloc_inv s"
    and e: "entry_ok s p' ((image_of s)(k := (Some a, Some n))) k a"
    and apart: "\<And>k' a'. pa_alias_of a = None \<Longrightarrow> k' \<noteq> k \<Longrightarrow> map_of (al_allocations s) k' = Some a' \<Longrightarrow>
        pa_alias_of a' = None \<Longrightarrow> {pa_base a..<pa_end a} \<inter> {pa_base a'..<pa_end a'} = {}"
    and keep: "\<And>a0. map_of (al_allocations s) k = Some a0 \<Longrightarrow> pa_base a = pa_base a0 \<and> pa_end a0 \<le> pa_end a"
  shows "map_of (al_allocations s) k = Some a \<and> store_allocation k a s = s \<or> stored_as k a n s (store_allocation k a s)"
proof -
  let ?M = "map_of (al_allocations s)" and ?b = "before_mutation k s"
  note iv = alloc_invD [OF inv]
  have bm: "al_address_rows ?b = al_address_rows s" "al_address_keys ?b = al_address_keys s" "al_aliases ?b = al_aliases s"
    "al_free ?b = al_free s" "al_fits ?b = al_fits s" "al_capacity ?b = al_capacity s" "al_alignment ?b = al_alignment s"
    by (simp_all add: before_mutation_def)
  have ixb: "indexed ?M ?b" using iv(4) indexed_cong [OF bm] by simp
  show ?thesis
  proof (cases "?M k")
    case None
    have mk: "?M(k := None) = ?M" using None by (rule fun_upd_idem)
    have "indexed (?M(k := None)) ?b" unfolding mk by (rule ixb)
    moreover have "?b = s\<lparr>al_saves := al_saves ?b, al_free := al_free s, al_fits := al_fits s, al_aliases := al_aliases s,
        al_address_keys := map address_key (al_address_rows s), al_address_rows := al_address_rows s\<rparr>"
      using iv(4) by (simp add: before_mutation_def indexed_def)
    ultimately have "stored_as k a n s (enter k a ?b)" using enter_ok [OF inv] e apart keep unfolding n_def p'_def by blast
    then show ?thesis using None by (simp add: store_allocation_def)
  next
    case (Some a0)
    show ?thesis
    proof (cases "a0 = a")
      case True
      then show ?thesis using Some by (simp add: store_allocation_def)
    next
      case False
      note e0 = entry_okD [OF entry_of [OF inv Some]]
      have ap: "roots_apart ?M" using image_okD(3) [OF iv(3)] by (simp only: image_fst)
      have cap: "0 \<le> pa_base a0" "pa_base a0 < pa_end a0" "pa_end a0 \<le> al_capacity ?b" using e0 bm(6) by simp_all
      obtain f g al rows where u: "unstore k a0 ?b = ?b\<lparr>al_free := f, al_fits := g, al_aliases := al,
          al_address_keys := map address_key rows, al_address_rows := rows\<rparr>" "indexed (?M(k := None)) (unstore k a0 ?b)"
        by (rule unstore_correct [of ?M ?b k a0, OF ixb Some ap cap])
      have "?b\<lparr>al_free := f, al_fits := g, al_aliases := al, al_address_keys := map address_key rows, al_address_rows := rows\<rparr> =
          s\<lparr>al_saves := al_saves ?b, al_free := f, al_fits := g, al_aliases := al,
            al_address_keys := map address_key rows, al_address_rows := rows\<rparr>"
        by (simp add: before_mutation_def)
      then have "unstore k a0 ?b = s\<lparr>al_saves := al_saves ?b, al_free := f, al_fits := g, al_aliases := al,
            al_address_keys := map address_key rows, al_address_rows := rows\<rparr>" using u(1) by simp
      from enter_ok [OF inv u(2) this] e apart keep have "stored_as k a n s (enter k a (unstore k a0 ?b))"
        unfolding n_def p'_def by blast
      then show ?thesis using Some False by (simp add: store_allocation_def)
    qed
  qed
qed

definition removed :: "alloc_key \<Rightarrow> allocator \<Rightarrow> allocator \<Rightarrow> bool" where
  "removed k s s' \<longleftrightarrow> alloc_inv s' \<and> journalled s s' \<and> al_allocations s' = AList.delete k (al_allocations s) \<and>
     image_of s' = (image_of s)(k := (None, None)) \<and> al_peak s' = al_peak s \<and> al_open s' = al_open s"

lemma map_fst_delete: "map fst (AList.delete k d) = filter (\<lambda>k'. k' \<noteq> k) (map fst d)"
  by (induction d) auto

lemma release_ok:
  assumes inv: "alloc_inv s"
  shows "(\<exists>e. release_allocation b g s = (Inl e, s)) \<or> release_allocation b g s = (Inr (), s) \<and>
      map_of (al_allocations s) (strip b, g) = None \<or>
    (\<exists>s'. release_allocation b g s = (Inr (), s') \<and> removed (strip b, g) s s' \<and>
      map_of (al_allocations s) (strip b, g) \<noteq> None \<and> alias_index (map_of (al_allocations s)) (strip b, Some g) = None)"
proof (cases "alloc_key_of b g")
  case (Inl e)
  then show ?thesis by (simp add: release_allocation_def)
next
  case (Inr k)
  then have k: "k = (strip b, g)" by (auto simp: alloc_key_of_def split: if_splits)
  let ?M = "map_of (al_allocations s)"
  note iv = alloc_invD [OF inv]
  show ?thesis
  proof (cases "?M k")
    case None
    then show ?thesis using Inr k by (simp add: release_allocation_def)
  next
    case (Some a)
    have al: "map_of (al_aliases s) = alias_index ?M" using iv(4) by (simp add: indexed_def)
    show ?thesis
    proof (cases "alias_index ?M (fst k, Some (snd k)) = None")
      case False
      then have "alias_index ?M (fst k, Some (snd k)) \<noteq> Some {}" by (auto simp: alias_index_def Let_def split: if_splits)
      then have "\<exists>e. release_allocation b g s = (Inl e, s)"
        using False Inr Some al by (simp add: release_allocation_def)
      then show ?thesis by blast
    next
      case True
      let ?b = "before_mutation k s"
      define t where "t = ?b\<lparr>al_allocations := AList.delete k (al_allocations ?b), al_order := AList.delete k (al_order ?b)\<rparr>"
      have tf: "al_address_rows t = al_address_rows s" "al_address_keys t = al_address_keys s" "al_aliases t = al_aliases s"
        "al_free t = al_free s" "al_fits t = al_fits s" "al_capacity t = al_capacity s" "al_alignment t = al_alignment s"
        by (simp_all add: t_def before_mutation_def)
      have ixt: "indexed ?M t" using iv(4) indexed_cong [OF tf] by simp
      note e0 = entry_okD [OF entry_of [OF inv Some]]
      have ap: "roots_apart ?M" using image_okD(3) [OF iv(3)] by (simp only: image_fst)
      have cap: "0 \<le> pa_base a" "pa_base a < pa_end a" "pa_end a \<le> al_capacity t" using e0 tf(6) by simp_all
      obtain f g' al' rows where u: "unstore k a t = t\<lparr>al_free := f, al_fits := g', al_aliases := al',
          al_address_keys := map address_key rows, al_address_rows := rows\<rparr>" "indexed (?M(k := None)) (unstore k a t)"
        by (rule unstore_correct [of ?M t k a, OF ixt Some ap cap])
      define s' where "s' = unstore k a t"
      have run: "release_allocation b g s = (Inr (), s')"
        using Inr Some al True by (simp add: release_allocation_def s'_def t_def Let_def)
      have s': "al_allocations s' = AList.delete k (al_allocations s)" "al_order s' = AList.delete k (al_order s)"
        "al_peak s' = al_peak s" "al_open s' = al_open s" "al_capacity s' = al_capacity s" "al_workspace s' = al_workspace s"
        "al_alignment s' = al_alignment s" "al_saves s' = al_saves ?b" "al_next_save s' = al_next_save s"
        "al_next_order s' = al_next_order s" "al_largest s' = al_largest s"
        unfolding s'_def u(1) by (simp_all add: t_def before_mutation_def)
      have img: "image_of s' = (image_of s)(k := (None, None))"
        by (rule ext) (simp add: image_of_def before_image_of_def s'(1,2))
      have iok: "image_ok s (al_peak s) ((image_of s)(k := (None, None)))"
      proof (rule image_ok_remove [OF iv(3)])
        fix k' a' b' assume a': "fst (image_of s k') = Some a'" "pa_alias_of a' = Some b'" "pa_alias_generation a' = Some (snd k)"
        show "b' \<noteq> fst k"
        proof
          assume "b' = fst k"
          then have "?M k' = Some a'" "alias_target a' = Some (fst k, Some (snd k))"
            using a' by (simp_all add: image_simps alias_target_def)
          then show False using True unfolding alias_index_None by blast
        qed
      qed
      have j: "journalled s s'"
      proof (rule journalled_step [of s' k s])
        show "image_of s' k' = image_of s k'" if "k' \<noteq> k" for k' using that by (simp add: img)
      qed (use s' in simp_all)
      have "ordered s'"
      proof -
        have ord: "wf_dict (al_allocations s)" "wf_dict (al_order s)"
          "sorted_wrt (\<lambda>k k'. order_of s k < order_of s k') (map fst (al_allocations s))"
          "\<forall>k n. map_of (al_order s) k = Some n \<longrightarrow> n < al_next_order s" "0 \<le> al_next_order s"
          using iv(2) by (simp_all add: ordered_def)
        have same: "order_of s' k' = order_of s k'" if "k' \<noteq> k" for k' using that by (simp add: order_of_def s'(2))
        have "sorted_wrt (\<lambda>k k'. order_of s k < order_of s k') (filter (\<lambda>k'. k' \<noteq> k) (map fst (al_allocations s)))"
          by (rule sorted_wrt_filter [OF ord(3)])
        then have "sorted_wrt (\<lambda>k k'. order_of s' k < order_of s' k') (map fst (al_allocations s'))"
          unfolding s'(1) map_fst_delete by (rule sorted_wrt_mono_rel [rotated]) (simp add: same)
        moreover have "m < al_next_order s" if "map_of (al_order s') k' = Some m" for k' m
          using ord(4) [rule_format, of k' m] that by (simp add: s'(2) split: if_splits)
        ultimately show ?thesis using ord(1,2,5) unfolding ordered_def by (simp add: s'(1,2,10))
      qed
      moreover have "?M(k := None) = map_of (al_allocations s')" by (rule ext) (simp add: s'(1))
      then have ix: "indexed (map_of (al_allocations s')) s'" using u(2) by (simp add: s'_def)
      moreover have "image_ok s' (al_peak s') (image_of s')" using iok image_ok_cong [OF s'(5,6)] by (simp add: img s'(3))
      moreover have "pa_size b \<le> al_largest s'" if b: "b \<in> set (al_address_rows s')" for b
      proof -
        obtain k' where "map_of (al_allocations s') k' = Some b" using b unfolding rows_of_map [OF ix] ran_def by blast
        then have "?M k' = Some b" by (simp add: s'(1) split: if_splits)
        then have "b \<in> ran ?M" using ranI [of ?M k' b] by blast
        then show ?thesis using iv(5) rows_of_map [OF iv(4)] by (simp add: s'(11))
      qed
      moreover have "geometry_ok s'" using iv(1) unfolding geometry_ok_def s'(5-7) .
      moreover have "saves_ok s'" by (rule journalled_saves_ok [OF j iv(8)])
      ultimately have "alloc_inv s'" using iv(6,7) s'(3,5) unfolding alloc_inv_def by simp
      then have "removed k s s'" using j img s'(1,3,4) by (simp add: removed_def)
      then show ?thesis using run True Some k by auto
    qed
  qed
qed

section \<open>Rolling back\<close>

definition only_entries :: "allocator \<Rightarrow> allocator \<Rightarrow> bool" where
  "only_entries s t \<longleftrightarrow> (\<exists>d od sv. t = s\<lparr>al_allocations := d, al_order := od, al_saves := sv\<rparr>)"

lemma only_entriesD:
  assumes "only_entries s t"
  shows "al_capacity t = al_capacity s" "al_workspace t = al_workspace s" "al_alignment t = al_alignment s"
    "al_next_save t = al_next_save s" "al_peak t = al_peak s" "al_open t = al_open s" "al_next_order t = al_next_order s"
    "al_native_keys t = al_native_keys s" "al_address_rows t = al_address_rows s" "al_address_keys t = al_address_keys s"
    "al_aliases t = al_aliases s" "al_free t = al_free s" "al_fits t = al_fits s" "al_largest t = al_largest s"
  using assms by (auto simp: only_entries_def)

lemma only_entries_refl: "only_entries s s"
  unfolding only_entries_def
  by (intro exI [of _ "al_allocations s"] exI [of _ "al_order s"] exI [of _ "al_saves s"]) simp

lemma only_entries_trans: "only_entries s t \<Longrightarrow> only_entries t u \<Longrightarrow> only_entries s u"
  unfolding only_entries_def by (elim exE) (simp, blast)

lemma restore_key_one:
  assumes p: "fst p = None \<longleftrightarrow> snd p = None" and wf: "wf_dict (al_allocations t)" "wf_dict (al_order t)"
    and r: "restore_key (k, p) (t, ch, ex) = (u, ch', ex')"
  shows "only_entries t u" "journalled t u" "image_of u = (image_of t)(k := p)" "wf_dict (al_allocations u)"
    "wf_dict (al_order u)" "\<not> ch' \<Longrightarrow> u = t \<and> \<not> ch"
    "\<not> ex' \<Longrightarrow> \<not> ex \<and> (\<exists>P. map fst (al_allocations u) = filter P (map fst (al_allocations t))) \<and>
      (\<forall>k n. map_of (al_order u) k = Some n \<longrightarrow> map_of (al_order t) k = Some n)"
proof -
  obtain prev order where po: "p = (prev, order)" by (cases p)
  have "only_entries t u \<and> journalled t u \<and> image_of u = (image_of t)(k := p) \<and> wf_dict (al_allocations u) \<and>
    wf_dict (al_order u) \<and> (\<not> ch' \<longrightarrow> u = t \<and> \<not> ch) \<and>
    (\<not> ex' \<longrightarrow> \<not> ex \<and> (\<exists>P. map fst (al_allocations u) = filter P (map fst (al_allocations t))) \<and>
      (\<forall>k n. map_of (al_order u) k = Some n \<longrightarrow> map_of (al_order t) k = Some n))"
  proof (cases "before_image_of k t = (prev, order)")
    case True
    then have u: "u = t" "ch' = ch" "ex' = ex" using r by (simp_all add: restore_key_def po)
    have "image_of t = (image_of t)(k := p)" using True by (intro ext) (simp add: image_of_def po)
    moreover have "\<exists>P. map fst (al_allocations t) = filter P (map fst (al_allocations t))"
      by (intro exI [of _ "\<lambda>_. True"]) simp
    ultimately show ?thesis using wf by (simp add: u only_entries_refl journalled_refl)
  next
    case False
    define al where "al = (case prev of None \<Rightarrow> AList.delete k (al_allocations t) | Some a \<Rightarrow> AList.update k a (al_allocations t))"
    define od where "od = (case order of None \<Rightarrow> AList.delete k (al_order t) | Some n \<Rightarrow> AList.update k n (al_order t))"
    have u: "u = t\<lparr>al_allocations := al, al_order := od, al_saves := al_saves (before_mutation k t)\<rparr>" "ch'"
      "ex' = (case prev of None \<Rightarrow> ex | Some a \<Rightarrow> True)"
      using r False p by (auto simp: restore_key_def po al_def od_def Let_def before_mutation_def split: option.splits)
    have img: "image_of u = (image_of t)(k := p)"
      by (rule ext) (simp add: image_of_def before_image_of_def u(1) al_def od_def po split: option.splits)
    have j: "journalled t u"
    proof (rule journalled_step [of u k t])
      show "image_of u k' = image_of t k'" if "k' \<noteq> k" for k' using that by (simp add: img)
    qed (simp_all add: u(1))
    have oe: "only_entries t u" unfolding u(1) only_entries_def by blast
    have w: "wf_dict (al_allocations u)" "wf_dict (al_order u)"
      using wf by (simp_all add: u(1) al_def od_def split: option.splits)
    have "\<not> ex \<and> (\<exists>P. map fst (al_allocations u) = filter P (map fst (al_allocations t))) \<and>
      (\<forall>k n. map_of (al_order u) k = Some n \<longrightarrow> map_of (al_order t) k = Some n)" if ne: "\<not> ex'"
    proof -
      have prev: "prev = None" "\<not> ex" using ne u(3) by (auto split: option.splits)
      then have order: "order = None" using p po by simp
      have "map_of (al_order u) k' = Some n \<longrightarrow> map_of (al_order t) k' = Some n" for k' n
        by (simp add: u(1) od_def order)
      moreover have "map fst (al_allocations u) = filter (\<lambda>k'. k' \<noteq> k) (map fst (al_allocations t))"
        by (simp add: u(1) al_def prev(1) map_fst_delete)
      ultimately show ?thesis using prev(2) by blast
    qed
    then show ?thesis using oe j img w u(2) by blast
  qed
  then show "only_entries t u" "journalled t u" "image_of u = (image_of t)(k := p)" "wf_dict (al_allocations u)"
    "wf_dict (al_order u)" "\<not> ch' \<Longrightarrow> u = t \<and> \<not> ch"
    "\<not> ex' \<Longrightarrow> \<not> ex \<and> (\<exists>P. map fst (al_allocations u) = filter P (map fst (al_allocations t))) \<and>
      (\<forall>k n. map_of (al_order u) k = Some n \<longrightarrow> map_of (al_order t) k = Some n)" by blast+
qed

definition over :: "(alloc_key, before_image) dict \<Rightarrow> image_map \<Rightarrow> image_map" where
  "over es v k = (case map_of es k of Some p \<Rightarrow> p | None \<Rightarrow> v k)"

lemma restored_over: "restored sv s = over (sv_entries sv) (image_of s)"
  by (rule ext) (simp add: restored_def over_def)

lemma restore_fold:
  assumes "wf_dict es" "\<forall>(k, p) \<in> set es. fst p = None \<longleftrightarrow> snd p = None" "wf_dict (al_allocations t)" "wf_dict (al_order t)"
    "fold restore_key es (t, ch, ex) = (u, ch', ex')"
  shows "only_entries t u \<and> journalled t u \<and> image_of u = over es (image_of t) \<and> wf_dict (al_allocations u) \<and>
    wf_dict (al_order u) \<and> (\<not> ch' \<longrightarrow> u = t \<and> \<not> ch) \<and>
    (\<not> ex' \<longrightarrow> \<not> ex \<and> (\<exists>P. map fst (al_allocations u) = filter P (map fst (al_allocations t))) \<and>
      (\<forall>k n. map_of (al_order u) k = Some n \<longrightarrow> map_of (al_order t) k = Some n))"
  using assms
proof (induction es arbitrary: t ch ex)
  case Nil
  have "\<exists>P. map fst (al_allocations t) = filter P (map fst (al_allocations t))"
    by (intro exI [of _ "\<lambda>_. True"]) simp
  then show ?case using Nil by (simp add: over_def only_entries_refl journalled_refl)
next
  case (Cons e es)
  obtain k p where e: "e = (k, p)" by (cases e)
  obtain t1 ch1 ex1 where one: "restore_key (k, p) (t, ch, ex) = (t1, ch1, ex1)" by (metis prod_cases3)
  have pp: "fst p = None \<longleftrightarrow> snd p = None" using Cons.prems(2) e by auto
  note a = restore_key_one [OF pp Cons.prems(3,4) one]
  have wfe: "wf_dict es" "k \<notin> fst ` set es" using Cons.prems(1) e by (simp_all add: wf_dict_Cons)
  have es: "\<forall>(k, p) \<in> set es. fst p = None \<longleftrightarrow> snd p = None" using Cons.prems(2) by simp
  have run: "fold restore_key es (t1, ch1, ex1) = (u, ch', ex')" using Cons.prems(5) one e by simp
  note b = Cons.IH [OF wfe(1) es a(4,5) run]
  have ov: "over es (image_of t1) = over (e # es) (image_of t)"
  proof
    fix k'
    have "map_of es k = None" using wfe(2) by (simp add: map_of_eq_None_iff)
    then show "over es (image_of t1) k' = over (e # es) (image_of t) k'" by (cases "map_of es k'") (auto simp: over_def a(3) e)
  qed
  have "\<exists>P. map fst (al_allocations u) = filter P (map fst (al_allocations t))" if ne: "\<not> ex'"
  proof -
    obtain P Q where "map fst (al_allocations u) = filter P (map fst (al_allocations t1))"
      "map fst (al_allocations t1) = filter Q (map fst (al_allocations t))" using b a(7) ne by blast
    then have "map fst (al_allocations u) = filter (\<lambda>x. Q x \<and> P x) (map fst (al_allocations t))" by simp
    then show ?thesis by blast
  qed
  moreover have "u = t \<and> \<not> ch" if "\<not> ch'" using that b a(6) by blast
  moreover have "\<not> ex \<and> (\<forall>k n. map_of (al_order u) k = Some n \<longrightarrow> map_of (al_order t) k = Some n)" if "\<not> ex'"
    using that b a(7) by blast
  ultimately show ?case
    using b only_entries_trans [OF a(1)] journalled_trans [OF a(2)] unfolding ov by blast
qed

lemma map_of_sort_key: "wf_dict d \<Longrightarrow> map_of (sort_key f d) = map_of d"
proof -
  assume wf: "wf_dict d"
  then have "distinct d" by (simp add: wf_dict_def distinct_map)
  have "mset (map fst (sort_key f d)) = mset (map fst d)" by simp
  then have wf': "wf_dict (sort_key f d)" using wf unfolding wf_dict_def by (metis mset_eq_imp_distinct_iff)
  show ?thesis
  proof
    fix k
    have "map_of (sort_key f d) k = Some a \<longleftrightarrow> map_of d k = Some a" for a
      using wf_dict_in_iff [OF wf, of k a] wf_dict_in_iff [OF wf', of k a] by simp
    then show "map_of (sort_key f d) k = map_of d k" by (metis option.exhaust)
  qed
qed

lemma wf_sort_key: "wf_dict d \<Longrightarrow> wf_dict (sort_key f d)"
proof -
  assume wf: "wf_dict d"
  have "mset (map fst (sort_key f d)) = mset (map fst d)" by simp
  then show ?thesis using wf unfolding wf_dict_def by (metis mset_eq_imp_distinct_iff)
qed

text \<open>Keys with distinct ordinals in dictionary order.\<close>

lemma order_strict:
  assumes "wf_dict d" "\<forall>k \<in> fst ` set d. \<exists>n. map_of od k = Some n"
    "\<And>k k' n. map_of od k = Some n \<Longrightarrow> map_of od k' = Some n \<Longrightarrow> k = k'"
  defines "f \<equiv> \<lambda>k. case map_of od k of None \<Rightarrow> 0 | Some n \<Rightarrow> (n :: int)"
  shows "sorted_wrt (\<lambda>k k'. f k < f k') (map fst (sort_key (\<lambda>(k, a). f k) d))"
proof -
  let ?d = "sort_key (\<lambda>(k, a). f k) d"
  have eq: "map (\<lambda>(k, a). f k) ?d = map f (map fst ?d)" by (simp add: split_beta)
  have "inj_on f (fst ` set d)"
  proof (rule inj_onI)
    fix k k' assume k: "k \<in> fst ` set d" "k' \<in> fst ` set d" "f k = f k'"
    obtain n n' where n: "map_of od k = Some n" "map_of od k' = Some n'" using assms(2) k(1,2) by blast
    then have "n = n'" using k(3) by (simp add: f_def)
    then show "k = k'" using n assms(3) by blast
  qed
  moreover have "distinct (map fst ?d)" using wf_sort_key [OF assms(1)] by (simp add: wf_dict_def)
  ultimately have "distinct (map f (map fst ?d))" by (simp add: distinct_map comp_inj_on)
  moreover have "sorted (map f (map fst ?d))" unfolding eq [symmetric] by (rule sorted_sort_key)
  ultimately have "sorted_wrt (<) (map f (map fst ?d))" by (simp add: strict_sorted_iff)
  then show ?thesis by (simp only: sorted_wrt_map)
qed

text \<open>A rollback puts the saved image back.\<close>

lemma close_save_fields: "close_save h s = s\<lparr>al_open := al_open (close_save h s)\<rparr>"
  by (simp add: close_save_def)

lemma rollback_ok:
  assumes inv: "alloc_inv s" and h: "map_of (al_saves s) h = Some sv"
  shows "alloc_inv (rollback_save h s) \<and> journalled s (rollback_save h s) \<and>
    image_of (rollback_save h s) = restored sv s \<and> al_peak (rollback_save h s) = sv_peak sv"
proof -
  note iv = alloc_invD [OF inv]
  have so: "save_ok s sv" using iv(8) h unfolding saves_ok_def by blast
  then have wfe: "wf_dict (sv_entries sv)" and rok: "image_ok s (sv_peak sv) (restored sv s)"
    and pk: "0 \<le> sv_peak sv" "sv_peak sv \<le> al_capacity s" by (simp_all add: save_ok_def)
  have ord: "wf_dict (al_allocations s)" "wf_dict (al_order s)"
    "sorted_wrt (\<lambda>k k'. order_of s k < order_of s k') (map fst (al_allocations s))"
    "\<forall>k n. map_of (al_order s) k = Some n \<longrightarrow> n < al_next_order s" "0 \<le> al_next_order s"
    using iv(2) by (simp_all add: ordered_def)
  define s1 where "s1 = (close_save h s)\<lparr>al_peak := sv_peak sv\<rparr>"
  have s1: "al_allocations s1 = al_allocations s" "al_order s1 = al_order s" "al_saves s1 = al_saves s"
    "al_next_save s1 = al_next_save s" "al_capacity s1 = al_capacity s" "al_workspace s1 = al_workspace s"
    "al_alignment s1 = al_alignment s" "al_next_order s1 = al_next_order s" "al_peak s1 = sv_peak sv"
    "al_address_rows s1 = al_address_rows s" "al_address_keys s1 = al_address_keys s"
    "al_aliases s1 = al_aliases s" "al_free s1 = al_free s" "al_fits s1 = al_fits s" "al_largest s1 = al_largest s"
    by (simp_all add: s1_def close_save_def)
  have img1: "image_of s1 = image_of s" by (rule ext) (simp add: image_of_def before_image_of_def s1)
  have res1: "restored v s1 = restored v s" for v by (rule ext) (unfold restored_def img1, rule refl)
  have j1: "journalled s s1" using s1 res1 by (simp add: journalled_def keeps_save_def)
  obtain u ch ex where fold: "fold restore_key (sv_entries sv) (s1, False, False) = (u, ch, ex)" by (metis prod_cases3)
  have ep: "\<forall>(k, p) \<in> set (sv_entries sv). fst p = None \<longleftrightarrow> snd p = None"
  proof (intro ballI, clarify)
    fix k1 k2 p1 p2 assume "((k1, k2), p1, p2) \<in> set (sv_entries sv)"
    then have "restored sv s (k1, k2) = (p1, p2)" using wf_dict_in_iff [OF wfe] by (simp add: restored_def)
    then show "fst (p1, p2) = None \<longleftrightarrow> snd (p1, p2) = None" using image_okD(1) [OF rok, of "(k1, k2)"] by simp
  qed
  have w1: "wf_dict (al_allocations s1)" "wf_dict (al_order s1)" using ord s1 by simp_all
  note f = restore_fold [OF wfe ep w1 fold]
  have img: "image_of u = restored sv s" using f unfolding restored_over img1 by blast
  have oe: "only_entries s1 u" and j2: "journalled s1 u" and wu: "wf_dict (al_allocations u)" "wf_dict (al_order u)"
    using f by blast+
  note of' = only_entriesD [OF oe]
  have run: "rollback_save h s = (if \<not> ch then u else let s3 = u\<lparr>al_next_order := max (al_next_order u) (max_order u + 1)\<rparr>;
       s4 = (if ex \<or> \<not> al_native_keys s3
         then s3\<lparr>al_allocations := sort_key (\<lambda>(k, a). order_of s3 k) (al_allocations s3)\<rparr> else s3) in rebuild_indexes s4)"
    unfolding rollback_save_def h option.case Let_def s1_def [symmetric] fold prod.case ..
  show ?thesis
  proof (cases ch)
    case False
    then have u: "u = s1" using f by blast
    then have r: "rollback_save h s = s1" using run False by simp
    have "ordered s1" using iv(2) unfolding ordered_def order_of_def s1 .
    moreover have "image_ok s1 (al_peak s1) (image_of s1)"
      using rok img image_ok_cong [OF s1(5,6)] by (simp add: u s1(9))
    moreover have "indexed (map_of (al_allocations s1)) s1"
      using iv(4) indexed_cong [of s1 s "map_of (al_allocations s)"] s1 by simp
    moreover have "geometry_ok s1" using iv(1) unfolding geometry_ok_def s1 .
    moreover have "saves_ok s1" by (rule journalled_saves_ok [OF j1 iv(8)])
    ultimately have "alloc_inv s1" using iv(5) pk unfolding alloc_inv_def s1 by blast
    then show ?thesis unfolding r using j1 img u s1(9) by simp
  next
    case True
    define s3 where "s3 = u\<lparr>al_next_order := max (al_next_order u) (max_order u + 1)\<rparr>"
    define s4 where "s4 = (if ex \<or> \<not> al_native_keys s3
         then s3\<lparr>al_allocations := sort_key (\<lambda>(k, a). order_of s3 k) (al_allocations s3)\<rparr> else s3)"
    have r: "rollback_save h s = rebuild_indexes s4" unfolding run using True by (simp add: s4_def s3_def Let_def)
    have s4: "al_order s4 = al_order u" "al_saves s4 = al_saves u" "al_next_save s4 = al_next_save s"
      "al_capacity s4 = al_capacity s" "al_workspace s4 = al_workspace s" "al_alignment s4 = al_alignment s"
      "al_peak s4 = sv_peak sv" "al_next_order s4 = max (al_next_order s) (max_order u + 1)"
      "order_of s4 = order_of u"
      using of' s1 by (simp_all add: s4_def s3_def order_of_def fun_eq_iff)
    have m4: "map_of (al_allocations s4) = map_of (al_allocations u)" "wf_dict (al_allocations s4)"
      using wu(1) by (simp_all add: s4_def s3_def map_of_sort_key wf_sort_key)
    have img4: "image_of s4 = restored sv s"
      unfolding img [symmetric] by (rule ext) (simp add: image_of_def before_image_of_def m4(1) s4(1))
    have ok4: "image_ok s (sv_peak sv) (image_of s4)" unfolding img4 by (rule rok)
    have bd: "\<forall>k a. map_of (al_allocations s4) k = Some a \<longrightarrow> 0 \<le> pa_base a \<and> 0 < pa_size a \<and> pa_end a \<le> al_capacity s4"
      and ky: "keyed (map_of (al_allocations s4))"
    proof -
      have e: "entry_ok s (sv_peak sv) (image_of s4) k a" if "map_of (al_allocations s4) k = Some a" for k a
        using image_okD(2) [OF ok4, of k a] that by (simp add: image_simps)
      show "\<forall>k a. map_of (al_allocations s4) k = Some a \<longrightarrow> 0 \<le> pa_base a \<and> 0 < pa_size a \<and> pa_end a \<le> al_capacity s4"
        unfolding s4(4) by (intro allI impI conjI) (rule entry_okD(3) [OF e] entry_okD(2) [OF e] entry_okD(4) [OF e], assumption)+
      show "keyed (map_of (al_allocations s4))"
        unfolding keyed_def by (intro allI impI) (rule entry_okD(1) [OF e])
    qed
    have ap: "roots_apart (map_of (al_allocations s4))" using image_okD(3) [OF ok4] by (simp only: image_fst)
    have dom_u: "map_of (al_allocations u) k = None \<longleftrightarrow> map_of (al_order u) k = None" for k
      using image_okD(1) [OF ok4, of k] by (simp only: image_simps m4(1) s4(1))
    have cap: "0 < al_capacity s4" "0 < al_alignment s4" using iv(1) by (simp_all add: geometry_ok_def s4)
    obtain ff g al rows n where re: "rebuild_indexes s4 = s4\<lparr>al_free := ff, al_fits := g, al_aliases := al,
        al_address_keys := map address_key rows, al_address_rows := rows, al_largest := n\<rparr>"
      "indexed (map_of (al_allocations s4)) (rebuild_indexes s4)" "\<forall>a \<in> set rows. pa_size a \<le> n"
      by (rule rebuild_correct [OF m4(2) ky ap cap bd])
    let ?t = "rebuild_indexes s4"
    have t: "al_allocations ?t = al_allocations s4" "al_order ?t = al_order s4" "al_saves ?t = al_saves s4"
      "al_next_save ?t = al_next_save s4" "al_capacity ?t = al_capacity s4" "al_workspace ?t = al_workspace s4"
      "al_alignment ?t = al_alignment s4" "al_next_order ?t = al_next_order s4" "al_peak ?t = al_peak s4"
      "order_of ?t = order_of s4"
      unfolding re(1) by (simp_all add: order_of_def fun_eq_iff)
    have imgt: "image_of ?t = restored sv s"
      unfolding img4 [symmetric] by (rule ext) (simp add: image_of_def before_image_of_def t)
    have j: "journalled s ?t"
    proof -
      have ut: "restored v ?t = restored v u" for v
        by (rule ext) (unfold restored_def imgt img, rule refl)
      have "journalled u ?t" using of' s1 by (simp add: journalled_def keeps_save_def ut t s4)
      then show ?thesis using journalled_trans [OF j1 journalled_trans [OF j2]] by blast
    qed
    have ordt: "ordered ?t"
      unfolding ordered_def t s4(9)
    proof (intro conjI)
      show "wf_dict (al_allocations s4)" by (rule m4)
      show "wf_dict (al_order s4)" using wu(2) by (simp add: s4(1))
      show "\<forall>k n. map_of (al_order s4) k = Some n \<longrightarrow> n < al_next_order s4"
      proof (intro allI impI)
        fix k n assume "map_of (al_order s4) k = Some n"
        then have "n \<in> set (map snd (al_order u))" by (force simp: s4(1) dest: map_of_SomeD)
        moreover have "m \<in> set ms \<Longrightarrow> m \<le> foldr max ms (- 1)" for m :: int and ms by (induction ms) auto
        ultimately have "n \<le> max_order u" unfolding max_order_def by blast
        then show "n < al_next_order s4" by (simp add: s4(8))
      qed
      show "0 \<le> al_next_order s4" using ord(5) by (simp add: s4(8) le_max_iff_disj)
      show "sorted_wrt (\<lambda>k k'. order_of u k < order_of u k') (map fst (al_allocations s4))"
      proof (cases "ex \<or> \<not> al_native_keys s3")
        case True
        have al4: "al_allocations s4 = sort_key (\<lambda>(k, a). order_of u k) (al_allocations u)"
          using True by (simp add: s4_def) (simp add: s3_def order_of_def)
        have iu: "image_of u = image_of s4" using img img4 by simp
        have d: "\<forall>k \<in> fst ` set (al_allocations u). \<exists>n. map_of (al_order u) k = Some n"
        proof
          fix k assume "k \<in> fst ` set (al_allocations u)"
          then have "map_of (al_allocations u) k \<noteq> None" by (simp add: map_of_eq_None_iff)
          then have "map_of (al_order u) k \<noteq> None" by (rule contrapos_nn) (rule iffD2 [OF dom_u])
          then show "\<exists>n. map_of (al_order u) k = Some n" by blast
        qed
        have i: "k = k'" if "map_of (al_order u) k = Some n" "map_of (al_order u) k' = Some n" for k k' n
          using image_okD(5) [OF ok4, of k n k'] that by (simp add: image_simps s4(1))
        show ?thesis unfolding al4 order_of_def by (rule order_strict [OF wu(1) d i])
      next
        case nex: False
        then have al4: "al_allocations s4 = al_allocations u" by (simp add: s4_def) (simp add: s3_def)
        obtain P where P: "map fst (al_allocations u) = filter P (map fst (al_allocations s))"
          "\<forall>k n. map_of (al_order u) k = Some n \<longrightarrow> map_of (al_order s) k = Some n"
          using f nex unfolding s1 by blast
        have same: "order_of u k = order_of s k" if k: "k \<in> set (filter P (map fst (al_allocations s)))" for k
        proof -
          have "k \<in> fst ` set (al_allocations u)" using k unfolding P(1) [symmetric] by simp
          then have "map_of (al_allocations u) k \<noteq> None" by (simp add: map_of_eq_None_iff)
          then have "map_of (al_order u) k \<noteq> None" by (rule contrapos_nn) (rule iffD2 [OF dom_u])
          then obtain n where n: "map_of (al_order u) k = Some n" by blast
          then show ?thesis using P(2) [rule_format, OF n] by (simp add: order_of_def)
        qed
        have "sorted_wrt (\<lambda>k k'. order_of s k < order_of s k') (filter P (map fst (al_allocations s)))"
          by (rule sorted_wrt_filter [OF ord(3)])
        then show ?thesis unfolding al4 P(1) by (rule sorted_wrt_mono_rel [rotated]) (simp only: same)
      qed
    qed
    have "image_ok ?t (al_peak ?t) (image_of ?t)"
      using rok image_ok_cong [of ?t s] unfolding imgt t s4 by blast
    moreover have "\<forall>a \<in> set (al_address_rows ?t). pa_size a \<le> al_largest ?t" using re(3) unfolding re(1) by simp
    moreover have "geometry_ok ?t" using iv(1) unfolding geometry_ok_def t s4 .
    moreover have "saves_ok ?t" by (rule journalled_saves_ok [OF j iv(8)])
    moreover have "indexed (map_of (al_allocations ?t)) ?t" using re(2) unfolding t .
    moreover have "0 \<le> al_peak ?t" "al_peak ?t \<le> al_capacity ?t" using pk by (simp_all add: t s4)
    ultimately have "alloc_inv ?t" using ordt unfolding alloc_inv_def by blast
    then show ?thesis unfolding r using j imgt by (simp add: t s4)
  qed
qed

end
