(* ===== verification/Allocator_Search.thy ===== *)
theory Allocator_Search
  imports Allocator_State
begin

text \<open>
  First fit. A base fits when it is aligned, lies with the whole extent in the arena, and touches no
  root allocation. Both the scan of the free extents and the scan of the address rows return the
  least base that fits, so they agree; the locale states the contract they share.
\<close>

locale first_fit =
  fixes valid :: "'q \<Rightarrow> bool"
    and ok :: "'q \<Rightarrow> int \<Rightarrow> bool"
    and search :: "'q \<Rightarrow> int option"
  assumes found: "valid q \<Longrightarrow> search q = Some c \<Longrightarrow> ok q c"
    and least: "valid q \<Longrightarrow> search q = Some c \<Longrightarrow> ok q c' \<Longrightarrow> c \<le> c'"
    and complete: "valid q \<Longrightarrow> ok q c \<Longrightarrow> search q \<noteq> None"
begin

lemma search_Some: "valid q \<Longrightarrow> search q = Some c \<longleftrightarrow> ok q c \<and> (\<forall>c'. ok q c' \<longrightarrow> c \<le> c')"
proof -
  assume v: "valid q"
  show ?thesis
  proof
    assume r: "ok q c \<and> (\<forall>c'. ok q c' \<longrightarrow> c \<le> c')"
    then obtain d where d: "search q = Some d" using complete [OF v, of c] by blast
    then have "ok q d" "d \<le> c" using found [OF v d] least [OF v d] r by blast+
    then have "d = c" using r by (simp add: order_antisym)
    then show "search q = Some c" using d by simp
  qed (use found [OF v] least [OF v] in blast)
qed

lemma search_None: "valid q \<Longrightarrow> search q = None \<longleftrightarrow> (\<forall>c. \<not> ok q c)"
  using found [of q] complete [of q] by (metis option.exhaust)

end

type_synonym fit_query = "allocator \<times> int \<times> int \<times> int"

definition fit_valid :: "fit_query \<Rightarrow> bool" where
  "fit_valid q = (case q of (s, sz, lo, hi) \<Rightarrow> alloc_inv s \<and> 0 < sz \<and> 0 \<le> lo \<and> hi \<le> al_capacity s)"

definition fits_at :: "fit_query \<Rightarrow> int \<Rightarrow> bool" where
  "fits_at q c = (case q of (s, sz, lo, hi) \<Rightarrow> al_alignment s dvd c \<and> lo \<le> c \<and> c + sz \<le> hi \<and>
     {c..<c + sz} \<inter> root_bytes (map_of (al_allocations s)) = {})"

section \<open>The scan of the free extents\<close>

lemma gap_scan_correct:
  assumes "0 < al" "0 < sz" "starts_sorted G"
  shows "(case gap_scan al lo hi sz G of
      Some c \<Rightarrow> al dvd c \<and> lo \<le> c \<and> (\<exists>(a, b) \<in> set G. a \<le> c \<and> c + sz \<le> min b hi) \<and>
        (\<forall>c'. al dvd c' \<and> lo \<le> c' \<and> (\<exists>(a, b) \<in> set G. a \<le> c' \<and> c' + sz \<le> min b hi) \<longrightarrow> c \<le> c')
    | None \<Rightarrow> \<forall>c'. \<not> (al dvd c' \<and> lo \<le> c' \<and> (\<exists>(a, b) \<in> set G. a \<le> c' \<and> c' + sz \<le> min b hi)))"
  using assms(3)
proof (induction G)
  case (Cons g G)
  obtain a b where g: "g = (a, b)" by (cases g)
  have later: "a < a'" if "(a', b') \<in> set G" for a' b' using Cons.prems g that by (auto simp: starts_sorted_def)
  show ?case
  proof (cases "hi \<le> a")
    case True
    have "\<not> (\<exists>(a', b') \<in> set (g # G). a' \<le> c' \<and> c' + sz \<le> min b' hi)" for c'
    proof
      assume "\<exists>(a', b') \<in> set (g # G). a' \<le> c' \<and> c' + sz \<le> min b' hi"
      then obtain a' b' where x: "(a', b') \<in> set (g # G)" "a' \<le> c'" "c' + sz \<le> min b' hi" by blast
      then have "a \<le> a'" using later [of a' b'] g by auto
      then show False using x True assms(2) by simp
    qed
    then show ?thesis using True g by simp
  next
    case False
    let ?c = "round_up (max a lo) al"
    note up = round_up_ge [OF assms(1), of "max a lo"]
    have least: "?c \<le> c'" if "al dvd c'" "lo \<le> c'" "a \<le> c'" for c'
      using round_up_least [OF assms(1), of "max a lo" c'] that by simp
    show ?thesis
    proof (cases "?c + sz \<le> min b hi")
      case True
      have "?c \<le> c'" if c': "al dvd c' \<and> lo \<le> c' \<and> (\<exists>(a', b') \<in> set (g # G). a' \<le> c' \<and> c' + sz \<le> min b' hi)" for c'
      proof -
        obtain a' b' where "(a', b') \<in> set (g # G)" "a' \<le> c'" using c' by blast
        then have "a \<le> c'" using later [of a' b'] g by auto
        then show ?thesis using least c' by blast
      qed
      moreover have "\<exists>(a', b') \<in> set (g # G). a' \<le> ?c \<and> ?c + sz \<le> min b' hi"
        using True up g by (intro bexI [of _ g]) auto
      moreover have "lo \<le> ?c" using up by simp
      ultimately show ?thesis using True False g by (simp add: Let_def)
    next
      case nofit: False
      have r: "gap_scan al lo hi sz (g # G) = gap_scan al lo hi sz G" using False nofit g by (auto simp: Let_def)
      have iff: "al dvd c' \<and> lo \<le> c' \<and> (\<exists>(a', b') \<in> set (g # G). a' \<le> c' \<and> c' + sz \<le> min b' hi) \<longleftrightarrow>
          al dvd c' \<and> lo \<le> c' \<and> (\<exists>(a', b') \<in> set G. a' \<le> c' \<and> c' + sz \<le> min b' hi)" for c'
      proof -
        have "\<not> (al dvd c' \<and> lo \<le> c' \<and> a \<le> c' \<and> c' + sz \<le> min b hi)" using least [of c'] nofit by auto
        then show ?thesis using g by auto
      qed
      have G: "starts_sorted G" using Cons.prems by (simp add: starts_sorted_def)
      show ?thesis
      proof (cases "gap_scan al lo hi sz G")
        case None
        show ?thesis using Cons.IH [OF G] unfolding r None option.case iff .
      next
        case (Some c)
        have h: "al dvd c \<and> lo \<le> c \<and> (\<exists>(a, b) \<in> set G. a \<le> c \<and> c + sz \<le> min b hi) \<and>
          (\<forall>c'. al dvd c' \<and> lo \<le> c' \<and> (\<exists>(a, b) \<in> set G. a \<le> c' \<and> c' + sz \<le> min b hi) \<longrightarrow> c \<le> c')"
          using Cons.IH [OF G] unfolding Some option.case .
        then have c: "al dvd c \<and> lo \<le> c \<and> (\<exists>(a, b) \<in> set (g # G). a \<le> c \<and> c + sz \<le> min b hi)"
          unfolding iff by (elim conjE) (intro conjI)
        have l: "\<forall>c'. al dvd c' \<and> lo \<le> c' \<and> (\<exists>(a, b) \<in> set (g # G). a \<le> c' \<and> c' + sz \<le> min b hi) \<longrightarrow> c \<le> c'"
          unfolding iff using h by (elim conjE)
        show ?thesis unfolding r Some option.case using c l by (elim conjE) (intro conjI)
      qed
    qed
  qed
qed simp

text \<open>An extent within the free bytes lies in one free extent, which the search does not skip.\<close>

lemma run_in_gap:
  assumes c: "canonical gaps" and sub: "{x..<y} \<subseteq> covered gaps" and ne: "x < (y :: int)"
  obtains a b where "(a, b) \<in> set gaps" "a \<le> x" "y \<le> b"
proof -
  have "x \<in> covered gaps" using sub ne by auto
  then obtain a b where ab: "(a, b) \<in> set gaps" "a \<le> x" "x < b" by (auto simp: in_covered)
  have "y \<le> b"
  proof (rule ccontr)
    assume "\<not> y \<le> b"
    then have "b \<in> covered gaps" using sub ab(3) by auto
    then show False using canonical_maximal(2) [OF c ab(1)] by simp
  qed
  then show ?thesis using that ab by blast
qed

lemma starts_sorted_filter: "starts_sorted gs \<Longrightarrow> starts_sorted (filter P gs)"
  unfolding starts_sorted_def by (rule sorted_wrt_filter)

lemma starts_sorted_drop: "starts_sorted gs \<Longrightarrow> starts_sorted (drop n gs)"
  unfolding starts_sorted_def by (rule sorted_wrt_drop)

lemma free_gaps:
  assumes "alloc_inv s"
  obtains gaps where "al_free s = Some gaps" "canonical gaps" "0 < al_alignment s"
    "covered gaps = {0..<al_capacity s} - root_bytes (map_of (al_allocations s))"
    "al_fits s = filter (fit_gap (al_alignment s)) gaps"
  using alloc_invD(1,4) [OF assms] unfolding indexed_def geometry_ok_def by blast

lemma gap_fits:
  assumes v: "fit_valid (s, sz, lo, hi)"
  defines "G \<equiv> drop (bisect_left (\<lambda>gap. fst gap < lo + 1) (al_fits s) - 1) (al_fits s)"
  shows "fits_at (s, sz, lo, hi) c \<longleftrightarrow>
    al_alignment s dvd c \<and> lo \<le> c \<and> (\<exists>(a, b) \<in> set G. a \<le> c \<and> c + sz \<le> min b hi)"
proof -
  have inv: "alloc_inv s" and q: "0 < sz" "0 \<le> lo" "hi \<le> al_capacity s" using v by (simp_all add: fit_valid_def)
  obtain gaps where gaps: "al_free s = Some gaps" "canonical gaps" "0 < al_alignment s"
    "covered gaps = {0..<al_capacity s} - root_bytes (map_of (al_allocations s))"
    "al_fits s = filter (fit_gap (al_alignment s)) gaps" by (rule free_gaps [OF inv])
  let ?below = "\<lambda>gap. fst gap < lo + 1" and ?F = "al_fits s"
  have sF: "starts_sorted ?F" unfolding gaps(5) by (rule starts_sorted_filter [OF canonical_starts [OF gaps(2)]])
  have n: "bisect_left ?below ?F = length (takeWhile ?below ?F)"
    by (rule bisect_left_takeWhile, rule sorted_wrt_mono_rel [OF _ sF [unfolded starts_sorted_def]]) auto
  show ?thesis
  proof
    assume f: "fits_at (s, sz, lo, hi) c"
    then have cc: "al_alignment s dvd c" "lo \<le> c" "c + sz \<le> hi" "{c..<c + sz} \<subseteq> covered gaps"
      using q unfolding fits_at_def gaps(4) by auto
    obtain a b where ab: "(a, b) \<in> set gaps" "a \<le> c" "c + sz \<le> b"
      using run_in_gap [OF gaps(2) cc(4)] q(1) by auto
    have "round_up a (al_alignment s) \<le> c" using round_up_least [OF gaps(3) ab(2) cc(1)] .
    then have "(a, b) \<in> set ?F" using ab q(1) by (simp add: gaps(5) fit_gap_def)
    then obtain ys zs where F: "?F = ys @ (a, b) # zs" by (auto dest: split_list)
    have "length (takeWhile ?below ?F) - 1 \<le> length ys"
    proof (rule ccontr)
      assume "\<not> ?thesis"
      then have len: "Suc (length ys) < length (takeWhile ?below ?F)" by simp
      then obtain a' b' zs' where z: "zs = (a', b') # zs'"
        using F length_takeWhile_le [of ?below ?F] by (cases zs) auto
      have "takeWhile ?below ?F ! Suc (length ys) = ?F ! Suc (length ys)" using len by (rule takeWhile_nth)
      also have "\<dots> = (a', b')" unfolding F z by (simp add: nth_append)
      finally have "(a', b') \<in> set (takeWhile ?below ?F)" using len by (metis nth_mem)
      then have "a' < lo + 1" using set_takeWhileD by fastforce
      moreover have "(a', b') \<in> set gaps" "(a, b) \<noteq> (a', b')" "a < a'"
      proof -
        have "(a', b') \<in> set ?F" unfolding F z by simp
        then show "(a', b') \<in> set gaps" by (simp add: gaps(5))
        show "a < a'" using sF unfolding F z starts_sorted_def by (simp add: sorted_wrt_append)
        then show "(a, b) \<noteq> (a', b')" by simp
      qed
      then have "b < a'" using canonicalD(2) [OF gaps(2) ab(1), of a' b'] canonicalD(1) [OF gaps(2), of a' b'] by auto
      ultimately show False using ab(3) cc(2) q(1) by linarith
    qed
    then have "(a, b) \<in> set (drop (length (takeWhile ?below ?F) - 1) (ys @ (a, b) # zs))" by simp
    then have "(a, b) \<in> set G" unfolding G_def n F [symmetric] .
    then show "al_alignment s dvd c \<and> lo \<le> c \<and> (\<exists>(a, b) \<in> set G. a \<le> c \<and> c + sz \<le> min b hi)"
      using ab(2,3) cc by auto
  next
    assume r: "al_alignment s dvd c \<and> lo \<le> c \<and> (\<exists>(a, b) \<in> set G. a \<le> c \<and> c + sz \<le> min b hi)"
    then obtain a b where ab: "(a, b) \<in> set G" "a \<le> c" "c + sz \<le> min b hi" by blast
    then have "(a, b) \<in> set gaps" unfolding G_def gaps(5) by (auto dest: in_set_dropD)
    then have "{a..<b} \<subseteq> covered gaps" by (rule canonical_maximal(4) [OF gaps(2)])
    moreover have "{c..<c + sz} \<subseteq> {a..<b}" using ab(2,3) by auto
    ultimately have "{c..<c + sz} \<inter> root_bytes (map_of (al_allocations s)) = {}" unfolding gaps(4) by blast
    then show "fits_at (s, sz, lo, hi) c" using r ab by (simp add: fits_at_def)
  qed
qed

definition gap_search :: "fit_query \<Rightarrow> int option" where
  "gap_search q = (case q of (s, sz, lo, hi) \<Rightarrow> gap_first_fit sz lo hi s)"

lemma gap_search_correct:
  assumes v: "fit_valid (s, sz, lo, hi)"
  shows "case gap_search (s, sz, lo, hi) of
      Some c \<Rightarrow> fits_at (s, sz, lo, hi) c \<and> (\<forall>c'. fits_at (s, sz, lo, hi) c' \<longrightarrow> c \<le> c')
    | None \<Rightarrow> \<forall>c'. \<not> fits_at (s, sz, lo, hi) c'"
proof -
  have inv: "alloc_inv s" and q: "0 < sz" using v by (simp_all add: fit_valid_def)
  obtain gaps where gaps: "canonical gaps" "0 < al_alignment s" "al_fits s = filter (fit_gap (al_alignment s)) gaps"
    by (rule free_gaps [OF inv])
  let ?G = "drop (bisect_left (\<lambda>gap. fst gap < lo + 1) (al_fits s) - 1) (al_fits s)"
  have "starts_sorted ?G" unfolding gaps(3)
    by (intro starts_sorted_drop starts_sorted_filter canonical_starts gaps(1))
  from gap_scan_correct [OF gaps(2) q this, of lo hi] show ?thesis
    unfolding gap_search_def gap_first_fit_def prod.case Let_def gap_fits [OF v] conj_assoc .
qed

interpretation gap_fit: first_fit fit_valid fits_at gap_search
proof unfold_locales
  fix q c c'
  assume v: "fit_valid q"
  obtain s sz lo hi where q: "q = (s, sz, lo, hi)" by (cases q)
  note g = gap_search_correct [OF v [unfolded q]]
  show "gap_search q = Some c \<Longrightarrow> fits_at q c" using g by (simp add: q)
  show "gap_search q = Some c \<Longrightarrow> fits_at q c' \<Longrightarrow> c \<le> c'" using g by (simp add: q)
  show "fits_at q c \<Longrightarrow> gap_search q \<noteq> None" using g by (auto simp: q split: option.splits)
qed

section \<open>The scan of the address rows\<close>

definition row_bytes :: "allocation list \<Rightarrow> int set" where
  "row_bytes rows = {x. \<exists>a \<in> set rows. pa_alias_of a = None \<and> pa_base a \<le> x \<and> x < pa_end a}"

definition rows_apart :: "allocation list \<Rightarrow> bool" where
  "rows_apart rows \<longleftrightarrow> sorted_wrt (\<lambda>a b. pa_base a \<le> pa_base b \<and>
     (pa_alias_of a = None \<and> pa_alias_of b = None \<longrightarrow> pa_end a \<le> pa_base b)) rows"

definition row_ok :: "int \<Rightarrow> int \<Rightarrow> int \<Rightarrow> allocation list \<Rightarrow> int \<Rightarrow> int \<Rightarrow> bool" where
  "row_ok al hi sz rows cursor c \<longleftrightarrow> al dvd c \<and> cursor \<le> c \<and> c + sz \<le> hi \<and> {c..<c + sz} \<inter> row_bytes rows = {}"

lemma row_bytes_Cons:
  "row_bytes (a # rows) = (if pa_alias_of a = None then {pa_base a..<pa_end a} else {}) \<union> row_bytes rows"
  by (auto simp: row_bytes_def)

lemma row_bytes_above:
  assumes "\<forall>a \<in> set rows. n \<le> pa_base a" "c + sz \<le> (n :: int)"
  shows "{c..<c + sz} \<inter> row_bytes rows = {}"
  using assms by (fastforce simp: row_bytes_def)

lemma row_scan_correct:
  assumes "0 < al" "0 < sz" "lo \<le> cursor" "rows_apart rows" "\<forall>a \<in> set rows. pa_base a < pa_end a"
  shows "case row_scan al lo hi sz rows cursor of
      (Some d, _) \<Rightarrow> row_ok al hi sz rows cursor d \<and> (\<forall>c. row_ok al hi sz rows cursor c \<longrightarrow> d \<le> c)
    | (None, c0) \<Rightarrow> cursor \<le> c0 \<and> (\<forall>c. row_ok al hi sz rows cursor c \<longleftrightarrow> al dvd c \<and> c0 \<le> c \<and> c + sz \<le> hi)"
  using assms(3-)
proof (induction rows arbitrary: cursor)
  case Nil
  then show ?case by (auto simp: row_ok_def row_bytes_def)
next
  case (Cons item rows)
  let ?c = "round_up cursor al" and ?b = "pa_base item" and ?e = "pa_end item"
  have ap: "rows_apart rows" "\<forall>a \<in> set rows. ?b \<le> pa_base a"
    "pa_alias_of item = None \<Longrightarrow> \<forall>a \<in> set rows. pa_alias_of a = None \<longrightarrow> ?e \<le> pa_base a"
    using Cons.prems(2) by (auto simp: rows_apart_def)
  have ne: "\<forall>a \<in> set rows. pa_base a < pa_end a" "?b < ?e" using Cons.prems(3) by auto
  note up = round_up_ge [OF assms(1), of cursor]
  have least: "?c \<le> c" if "al dvd c" "cursor \<le> c" for c using round_up_least [OF assms(1)] that by blast
  have e: "pa_base item + pa_size item = ?e" by (simp add: pa_end_def)
  consider (beyond) "hi \<le> ?b" | (skip) "\<not> hi \<le> ?b" "pa_alias_of item \<noteq> None \<or> ?e \<le> lo"
    | (here) "\<not> hi \<le> ?b" "pa_alias_of item = None" "lo < ?e" by force
  then show ?case
  proof cases
    case beyond
    have "{c..<c + sz} \<inter> row_bytes (item # rows) = {}" if "c + sz \<le> hi" for c
      using row_bytes_above [of "item # rows" ?b c sz] ap(2) beyond that by simp
    then show ?thesis using beyond by (auto simp: row_ok_def)
  next
    case skip
    have iff: "row_ok al hi sz (item # rows) cursor c \<longleftrightarrow> row_ok al hi sz rows cursor c" for c
      using skip(2) Cons.prems(1) by (auto simp: row_ok_def row_bytes_Cons)
    have r: "row_scan al lo hi sz (item # rows) cursor = row_scan al lo hi sz rows cursor"
      using skip by (auto simp: e)
    show ?thesis unfolding r iff by (rule Cons.IH [OF Cons.prems(1) ap(1) ne(1)])
  next
    case here
    then have skip: "\<not> (pa_alias_of item \<noteq> None \<or> pa_base item + pa_size item \<le> lo)" by (simp add: e)
    show ?thesis
    proof (cases "?c + sz \<le> ?b")
      case True
      have r: "row_scan al lo hi sz (item # rows) cursor = (Some ?c, ?c)"
        unfolding row_scan.simps if_not_P [OF here(1)] if_not_P [OF skip] Let_def if_P [OF True] ..
      have "{?c..<?c + sz} \<inter> row_bytes (item # rows) = {}"
        using row_bytes_above [of "item # rows" ?b ?c sz] ap(2) True by simp
      then have "row_ok al hi sz (item # rows) cursor ?c" using True here(1) up by (simp add: row_ok_def)
      moreover have "\<forall>c. row_ok al hi sz (item # rows) cursor c \<longrightarrow> ?c \<le> c" using least by (simp add: row_ok_def)
      ultimately show ?thesis unfolding r by simp
    next
      case False
      let ?m = "max ?c ?e"
      have r: "row_scan al lo hi sz (item # rows) cursor = row_scan al lo hi sz rows ?m"
        unfolding row_scan.simps if_not_P [OF here(1)] if_not_P [OF skip] Let_def if_not_P [OF False]
        unfolding e ..
      have iff: "row_ok al hi sz (item # rows) cursor c \<longleftrightarrow> row_ok al hi sz rows ?m c" for c
      proof
        assume ok: "row_ok al hi sz (item # rows) cursor c"
        then have c: "al dvd c" "cursor \<le> c" "c + sz \<le> hi" "{c..<c + sz} \<inter> {?b..<?e} = {}"
          "{c..<c + sz} \<inter> row_bytes rows = {}"
          using here(2) unfolding row_ok_def row_bytes_Cons Int_Un_distrib by simp_all
        have "?c \<le> c" by (rule least [OF c(1,2)])
        moreover have "?e \<le> c"
        proof (rule ccontr)
          assume "\<not> ?e \<le> c"
          then have m: "max c ?b \<in> {c..<c + sz}" "max c ?b \<in> {?b..<?e}"
            using \<open>?c \<le> c\<close> False ne(2) assms(2) by simp_all
          show False using c(4) IntI [OF m] by blast
        qed
        ultimately show "row_ok al hi sz rows ?m c" using c by (simp add: row_ok_def)
      next
        assume ok: "row_ok al hi sz rows ?m c"
        then have "{c..<c + sz} \<inter> {?b..<?e} = {}" by (auto simp: row_ok_def)
        then show "row_ok al hi sz (item # rows) cursor c"
          using ok up by (auto simp: row_ok_def row_bytes_Cons)
      qed
      have lm: "lo \<le> ?m" "cursor \<le> ?m" using Cons.prems(1) up by simp_all
      show ?thesis using Cons.IH [OF lm(1) ap(1) ne(1)] lm(2)
        unfolding r iff by (auto split: prod.splits option.splits)
    qed
  qed
qed

definition row_search :: "fit_query \<Rightarrow> int option" where
  "row_search q = (case q of (s, sz, lo, hi) \<Rightarrow> row_first_fit sz lo hi s)"

lemma alloc_rows:
  assumes inv: "alloc_inv s"
  shows "rows_apart (al_address_rows s)" "\<forall>a \<in> set (al_address_rows s). pa_base a < pa_end a \<and> pa_size a \<le> al_largest s"
    "row_bytes (al_address_rows s) = root_bytes (map_of (al_allocations s))"
    "al_address_keys s = map address_key (al_address_rows s)"
    "sorted_wrt (\<lambda>a b. pa_base a \<le> pa_base b) (al_address_rows s)"
proof -
  let ?M = "map_of (al_allocations s)" and ?R = "al_address_rows s"
  note iv = alloc_invD [OF inv]
  have R: "sorted_wrt (\<lambda>a b. address_key a < address_key b) ?R" "set ?R = ran ?M"
    using iv(4) by (simp_all add: indexed_def rows_index_def)
  show "al_address_keys s = map address_key ?R" using iv(4) by (simp add: indexed_def)
  have in_map: "\<exists>k. ?M k = Some a" if "a \<in> set ?R" for a using that unfolding R(2) ran_def by blast
  have ne: "pa_base a < pa_end a" if "a \<in> set ?R" for a
    using in_map [OF that] entry_okD(5) [OF entry_of [OF inv]] by blast
  show "\<forall>a \<in> set ?R. pa_base a < pa_end a \<and> pa_size a \<le> al_largest s" using ne iv(5) by blast
  show "row_bytes ?R = root_bytes ?M"
  proof (rule set_eqI)
    fix x
    have "x \<in> row_bytes ?R \<longleftrightarrow> (\<exists>a. (\<exists>k. ?M k = Some a) \<and> pa_alias_of a = None \<and> pa_base a \<le> x \<and> x < pa_end a)"
      unfolding row_bytes_def R(2) ran_def by blast
    also have "\<dots> \<longleftrightarrow> x \<in> root_bytes ?M" unfolding root_bytes_def by blast
    finally show "x \<in> row_bytes ?R \<longleftrightarrow> x \<in> root_bytes ?M" .
  qed
  have base: "pa_base a \<le> pa_base b" if "address_key a < address_key b" for a b
    using that by (auto simp: address_key_def)
  show "sorted_wrt (\<lambda>a b. pa_base a \<le> pa_base b) ?R"
    by (rule sorted_wrt_mono_rel [OF _ R(1)]) (rule base)
  have ap: "roots_apart ?M" using image_okD(3) [OF iv(3)] by (simp only: image_fst)
  show "rows_apart ?R"
    unfolding rows_apart_def
  proof (rule sorted_wrt_mono_rel [OF _ R(1)])
    fix a b assume ab: "a \<in> set ?R" "b \<in> set ?R" "address_key a < address_key b"
    obtain k k' where k: "?M k = Some a" "?M k' = Some b" using in_map ab(1,2) by meson
    have "k \<noteq> k'" using k ab(3) by auto
    have "pa_end a \<le> pa_base b" if r: "pa_alias_of a = None" "pa_alias_of b = None"
    proof (rule ccontr)
      assume "\<not> pa_end a \<le> pa_base b"
      then have "pa_base b \<in> {pa_base a..<pa_end a} \<inter> {pa_base b..<pa_end b}" using base [OF ab(3)] ne [OF ab(2)] by simp
      then show False using roots_apartD [OF ap k(1) k(2) \<open>k \<noteq> k'\<close> r] by simp
    qed
    then show "pa_base a \<le> pa_base b \<and> (pa_alias_of a = None \<and> pa_alias_of b = None \<longrightarrow> pa_end a \<le> pa_base b)"
      using base [OF ab(3)] by blast
  qed
qed

lemma row_search_correct:
  assumes v: "fit_valid (s, sz, lo, hi)"
  shows "case row_search (s, sz, lo, hi) of
      Some c \<Rightarrow> fits_at (s, sz, lo, hi) c \<and> (\<forall>c'. fits_at (s, sz, lo, hi) c' \<longrightarrow> c \<le> c')
    | None \<Rightarrow> \<forall>c'. \<not> fits_at (s, sz, lo, hi) c'"
proof -
  have inv: "alloc_inv s" and sz: "0 < sz" using v by (simp_all add: fit_valid_def)
  have al: "0 < al_alignment s" using alloc_invD(1) [OF inv] by (simp add: geometry_ok_def)
  note ar = alloc_rows [OF inv]
  let ?R = "al_address_rows s" and ?al = "al_alignment s"
  let ?below = "\<lambda>k. fst k < lo - al_largest s"
  have n: "bisect_left ?below (al_address_keys s) = length (takeWhile (\<lambda>a. pa_base a < lo - al_largest s) ?R)"
  proof -
    have "sorted_wrt (\<lambda>x y. ?below y \<longrightarrow> ?below x) (map address_key ?R)"
      unfolding sorted_wrt_map by (rule sorted_wrt_mono_rel [OF _ ar(5)]) (auto simp: address_key_def)
    then have "bisect_left ?below (map address_key ?R) = length (takeWhile ?below (map address_key ?R))"
      by (rule bisect_left_takeWhile)
    also have "takeWhile ?below (map address_key ?R) = map address_key (takeWhile (\<lambda>a. pa_base a < lo - al_largest s) ?R)"
      by (simp add: takeWhile_map comp_def address_key_def)
    finally show ?thesis unfolding ar(4) by simp
  qed
  define D where "D = dropWhile (\<lambda>a. pa_base a < lo - al_largest s) ?R"
  define T where "T = takeWhile (\<lambda>a. pa_base a < lo - al_largest s) ?R"
  have TD: "?R = T @ D" by (simp add: T_def D_def)
  have D: "drop (bisect_left ?below (al_address_keys s)) ?R = D" unfolding n D_def by (rule dropWhile_eq_drop [symmetric])
  have apD: "rows_apart D" using ar(1) unfolding rows_apart_def TD sorted_wrt_append by blast
  have neD: "\<forall>a \<in> set D. pa_base a < pa_end a" using ar(2) TD by auto
  have T: "pa_end a < lo" if "a \<in> set T" for a
  proof -
    have "pa_base a < lo - al_largest s" using that unfolding T_def by (blast dest: set_takeWhileD)
    moreover have "pa_size a \<le> al_largest s" using ar(2) that TD by auto
    ultimately show ?thesis by (simp add: pa_end_def)
  qed
  have fit: "fits_at (s, sz, lo, hi) c \<longleftrightarrow> row_ok ?al hi sz D lo c" for c
  proof -
    have "{c..<c + sz} \<inter> row_bytes ?R = {} \<longleftrightarrow> {c..<c + sz} \<inter> row_bytes D = {}" if "lo \<le> c"
    proof -
      have "{c..<c + sz} \<inter> row_bytes T = {}" using T that by (fastforce simp: row_bytes_def)
      moreover have "row_bytes ?R = row_bytes T \<union> row_bytes D" unfolding TD by (auto simp: row_bytes_def)
      ultimately show ?thesis by blast
    qed
    then show ?thesis unfolding ar(3) by (auto simp: fits_at_def row_ok_def)
  qed
  note rs = row_scan_correct [OF al sz order_refl apD neD, of lo hi]
  obtain r c0 where r: "row_scan ?al lo hi sz D lo = (r, c0)" by (cases "row_scan ?al lo hi sz D lo")
  have run: "row_search (s, sz, lo, hi) = (case r of Some d \<Rightarrow> Some d
      | None \<Rightarrow> if hi < round_up c0 ?al + sz then None else Some (round_up c0 ?al))"
    unfolding row_search_def row_first_fit_def prod.case Let_def D r by (simp split: option.splits)
  show ?thesis
  proof (cases r)
    case (Some d)
    then show ?thesis using rs r unfolding run fit by simp
  next
    case None
    have ok: "row_ok ?al hi sz D lo c \<longleftrightarrow> ?al dvd c \<and> c0 \<le> c \<and> c + sz \<le> hi" for c using rs r None by simp
    note up = round_up_ge [OF al, of c0]
    have least: "round_up c0 ?al \<le> c" if "?al dvd c" "c0 \<le> c" for c using round_up_least [OF al] that by blast
    show ?thesis
    proof (cases "hi < round_up c0 ?al + sz")
      case True
      have "\<not> fits_at (s, sz, lo, hi) c" for c unfolding fit ok using least [of c] True by auto
      then show ?thesis using None True unfolding run by simp
    next
      case False
      have "fits_at (s, sz, lo, hi) (round_up c0 ?al)" unfolding fit ok using up False by simp
      moreover have "round_up c0 ?al \<le> c" if "fits_at (s, sz, lo, hi) c" for c using that least unfolding fit ok by blast
      ultimately show ?thesis using None False unfolding run by simp
    qed
  qed
qed

interpretation row_fit: first_fit fit_valid fits_at row_search
proof unfold_locales
  fix q c c'
  assume v: "fit_valid q"
  obtain s sz lo hi where q: "q = (s, sz, lo, hi)" by (cases q)
  note g = row_search_correct [OF v [unfolded q]]
  show "row_search q = Some c \<Longrightarrow> fits_at q c" using g by (simp add: q)
  show "row_search q = Some c \<Longrightarrow> fits_at q c' \<Longrightarrow> c \<le> c'" using g by (simp add: q)
  show "fits_at q c \<Longrightarrow> row_search q \<noteq> None" using g by (auto simp: q split: option.splits)
qed

lemma searches_agree: "fit_valid q \<Longrightarrow> gap_search q = row_search q"
proof -
  assume v: "fit_valid q"
  show ?thesis
  proof (cases "gap_search q")
    case None
    then show ?thesis using gap_fit.search_None [OF v] row_fit.search_None [OF v] by simp
  next
    case (Some c)
    then show ?thesis using gap_fit.search_Some [OF v, of c] row_fit.search_Some [OF v, of c] by simp
  qed
qed

end
