(* ===== verification/Allocator_Props.thy ===== *)
theory Allocator_Props
  imports Allocator_Search
begin

section \<open>Allocating\<close>

lemma request_checksD:
  assumes "request_checks q = Inr k"
  shows "k = (strip (aq_buffer q), aq_generation q)" "strip (aq_buffer q) \<noteq> []" "0 \<le> aq_generation q" "0 < aq_size q"
    "\<And>g. aq_alias_generation q = Some g \<Longrightarrow> 0 \<le> g" "\<And>b. aq_alias_of q = Some b \<Longrightarrow> strip b \<noteq> []" "0 \<le> aq_alias_offset q"
  using assms unfolding request_checks_def alloc_key_of_def
  by (auto simp: rbind_eq_Inr split: if_splits option.splits)

lemma resolved_aliasD:
  assumes "fst (resolved_alias q) = Some b" "request_checks q = Inr k"
  obtains g where "snd (resolved_alias q) = Some g" "0 \<le> g" "strip b = b"
proof -
  obtain b0 where b0: "aq_alias_of q = Some b0" "b = strip b0"
    using assms(1) by (auto simp: resolved_alias_def split: option.splits)
  show ?thesis
    by (rule that [of "case aq_alias_generation q of None \<Rightarrow> aq_generation q | Some g \<Rightarrow> g"])
      (use b0 request_checksD(3,5) [OF assms(2)] in \<open>auto simp: resolved_alias_def split: option.splits\<close>)
qed

lemma check_extentD:
  "check_extent base sz s = Inr u \<longleftrightarrow> 0 \<le> base \<and> 0 < sz \<and> base + sz \<le> al_capacity s"
  by (auto simp: check_extent_def)

lemma check_arenaD:
  "check_arena_extent base sz g r s = Inr u \<longleftrightarrow> 0 \<le> base \<and> 0 < sz \<and> base + sz \<le> al_capacity s \<and>
     fst (arena_bounds g r s) \<le> base \<and> base + sz \<le> snd (arena_bounds g r s)"
  by (auto simp: check_arena_extent_def rbind_eq_Inr check_extentD split: prod.splits)

lemma overlapping_empty:
  assumes "wf_dict (al_allocations s)" "overlapping base sz ignore s = []"
    "map_of (al_allocations s) k = Some a" "Some k \<noteq> ignore" "pa_alias_of a = None"
  shows "{base..<base + sz} \<inter> {pa_base a..<pa_end a} = {}"
proof -
  have "(k, a) \<in> set (al_allocations s)" using assms(1,3) by (simp add: wf_dict_in_iff)
  then have "\<not> (base < pa_end a \<and> pa_base a < base + sz)"
    using assms(2,4,5) by (auto simp: overlapping_def pa_end_def filter_empty_conv)
  then show ?thesis by auto
qed

lemma arena_bounds_range:
  assumes "geometry_ok s"
  shows "0 \<le> fst (arena_bounds g r s)" "snd (arena_bounds g r s) \<le> al_capacity s"
  using assms by (auto simp: arena_bounds_def geometry_ok_def Let_def split: option.splits)

text \<open>A key that is registered again keeps its extent, or its root extent grows where it is.\<close>

lemma reallocate_cases:
  assumes "reallocate q k ex s = Inr a"
  defines "arena \<equiv> (case aq_arena q of None \<Rightarrow> pa_arena ex | Some r \<Rightarrow> Some r)"
  shows "(aq_arena q = None \<or> check_arena_extent (pa_base ex) (pa_size ex) (aq_generation q) arena s = Inr ()) \<and>
    (a = ex\<lparr>pa_arena := arena\<rparr> \<or>
     (a = ex\<lparr>pa_size := aq_size q, pa_arena := arena\<rparr> \<and> pa_size ex < aq_size q \<and> pa_alias_of ex = None \<and>
       check_arena_extent (pa_base ex) (aq_size q) (aq_generation q) arena s = Inr () \<and>
       overlapping (pa_base ex) (aq_size q) (Some k) s = []))"
proof -
  have ne: "\<not> (aq_arena q \<noteq> None \<and> pa_arena ex \<noteq> None \<and> aq_arena q \<noteq> pa_arena ex)"
    using assms(1) unfolding reallocate_def by (rule contrapos_pn) (simp only: if_P, simp)
  have "rbind (if aq_arena q \<noteq> None
          then check_arena_extent (pa_base ex) (pa_size ex) (aq_generation q) arena s else Inr ())
        (\<lambda>_. if aq_address q \<noteq> None \<and> aq_address q \<noteq> Some (pa_base ex)
      then Inl (Allocation_Error ''allocation address changed'')
      else if pa_alias_of ex \<noteq> fst (resolved_alias q) \<or> pa_alias_generation ex \<noteq> snd (resolved_alias q)
      then Inl (Allocation_Error ''allocation alias changed'')
      else if pa_alias_offset ex \<noteq> aq_alias_offset q
      then Inl (Allocation_Error ''allocation alias offset changed'')
      else if pa_size ex < aq_size q
      then if pa_alias_of ex \<noteq> None \<or> \<not> pa_inferred ex \<or> \<not> aq_inferred q
        then Inl (Allocation_Error ''allocation cannot grow'')
        else rbind (check_arena_extent (pa_base ex) (aq_size q) (aq_generation q) arena s) (\<lambda>_.
          if overlapping (pa_base ex) (aq_size q) (Some k) s \<noteq> []
          then Inl (Allocation_Error ''allocation cannot grow without moving'')
          else Inr (ex\<lparr>pa_size := aq_size q, pa_arena := arena\<rparr>))
      else if aq_size q \<noteq> pa_size ex \<and> (\<not> pa_inferred ex \<or> \<not> aq_inferred q)
      then Inl (Allocation_Error ''allocation size changed'')
      else Inr (ex\<lparr>pa_arena := arena\<rparr>)) = Inr a"
    using assms(1) unfolding reallocate_def Let_def arena_def if_not_P [OF ne] .
  then show ?thesis unfolding rbind_eq_Inr by (elim exE conjE) (auto simp: rbind_eq_Inr split: if_split_asm)
qed

lemma allocate_existing:
  assumes inv: "alloc_inv s" and q: "request_checks q = Inr k" and ex: "map_of (al_allocations s) k = Some ex"
    and r: "reallocate q k ex s = Inr a"
  shows "\<exists>n. map_of (al_allocations s) k = Some a \<and> store_allocation k a s = s \<or> stored_as k a n s (store_allocation k a s)"
proof -
  note iv = alloc_invD [OF inv] and e0 = entry_okD [OF entry_of [OF inv ex]] and rc = request_checksD [OF q]
  define arena where "arena = (case aq_arena q of None \<Rightarrow> pa_arena ex | Some r \<Rightarrow> Some r)"
  note c = reallocate_cases [OF r, folded arena_def]
  have kg: "aq_generation q = pa_generation ex" using e0(1) rc(1) by (simp add: pa_key_def)
  obtain m where m: "map_of (al_order s) k = Some m" using order_dom [OF iv(3), of k] ex by auto
  have img: "image_of s k = (Some ex, Some m)" using ex m by (simp add: image_of_def before_image_of_def)
  have f: "pa_buffer a = pa_buffer ex" "pa_generation a = pa_generation ex" "pa_base a = pa_base ex"
    "pa_alias_of a = pa_alias_of ex" "pa_alias_generation a = pa_alias_generation ex"
    "pa_alias_offset a = pa_alias_offset ex" "pa_arena a = arena"
    using c by auto
  have big: "pa_end ex \<le> pa_end a" using c by (auto simp: pa_end_def)
  have al: "pa_end a = pa_end ex" if "pa_alias_of a = Some b" for b using c that by (auto simp: pa_end_def)
  have cap: "pa_end a \<le> al_capacity s" using c e0(4) by (auto simp: pa_end_def check_arenaD)
  have pos: "0 < pa_size a" using c e0(2) rc(4) by auto
  have ia: "in_arena s a" if "pa_alias_of a = None"
  proof (cases "aq_arena q")
    case None
    then have "arena = pa_arena ex" by (simp add: arena_def)
    moreover have "in_arena s ex" using e0(10) that f(4) by simp
    ultimately show ?thesis using c f by (auto simp: in_arena_def pa_end_def check_arenaD kg split: prod.splits)
  next
    case (Some r)
    then have "check_arena_extent (pa_base ex) (pa_size a) (aq_generation q) arena s = Inr ()"
      using c by auto
    then show ?thesis using f by (auto simp: in_arena_def pa_end_def check_arenaD kg split: prod.splits)
  qed
  let ?p = "if pa_alias_of a = None then max (al_peak s) (pa_end a) else al_peak s"
  have n: "(case map_of (al_order s) k of None \<Rightarrow> al_next_order s | Some n \<Rightarrow> n) = m" by (simp add: m)
  have "entry_ok s ?p ((image_of s)(k := (Some a, Some m))) k a"
  proof (cases "pa_alias_of a")
    case None
    then show ?thesis using e0 f pos cap ia by (simp add: entry_ok_def pa_key_def)
  next
    case (Some b)
    have ao: "alias_ok (image_of s) k ex b" using e0(11) Some f(4) by simp
    then obtain g t n' where t: "pa_alias_generation ex = Some g" "0 \<le> g" "strip b = b" "image_of s (b, g) = (Some t, Some n')" "n' < m"
      "pa_base ex = pa_base t + pa_alias_offset ex" "0 \<le> pa_alias_offset ex" "pa_end ex \<le> pa_end t"
      using img unfolding alias_ok_def by auto
    have ne: "(b, g) \<noteq> k" using t(4,5) img by auto
    have "alias_ok ((image_of s)(k := (Some a, Some m))) k a b"
      unfolding alias_ok_def
      by (intro exI [of _ g] exI [of _ t] exI [of _ n'] exI [of _ m]) (use t ne f al [OF Some] in simp)
    then show ?thesis using e0(1,3,6-8) f(1-3) pos cap Some by (simp add: entry_ok_def pa_key_def)
  qed
  moreover have "{pa_base a..<pa_end a} \<inter> {pa_base a'..<pa_end a'} = {}"
    if "pa_alias_of a = None" "k' \<noteq> k" "map_of (al_allocations s) k' = Some a'" "pa_alias_of a' = None" for k' a'
  proof -
    have wf: "wf_dict (al_allocations s)" using iv(2) by (simp add: ordered_def)
    have ap: "roots_apart (map_of (al_allocations s))" using image_okD(3) [OF iv(3)] by (simp only: image_fst)
    consider "pa_end a = pa_end ex" | "overlapping (pa_base ex) (aq_size q) (Some k) s = []" "pa_size a = aq_size q"
      using c by (auto simp: pa_end_def)
    then show ?thesis
    proof cases
      case 1
      then show ?thesis using roots_apartD [OF ap ex that(3)] that f(3,4) by auto
    next
      case 2
      then show ?thesis using overlapping_empty [OF wf 2(1) that(3) _ that(4)] that(2) f(3) by (simp add: pa_end_def)
    qed
  qed
  moreover have "pa_base a = pa_base a0 \<and> pa_end a0 \<le> pa_end a" if "map_of (al_allocations s) k = Some a0" for a0
    using that ex f(3) big by simp
  ultimately show ?thesis using store_allocation_ok [where k = k and a = a, OF inv] unfolding n by blast
qed

lemma fit_valid_arena:
  assumes "alloc_inv s" "0 < sz" "arena_bounds g r s = (lo, hi)"
  shows "fit_valid (s, sz, lo, hi)"
  using arena_bounds_range [OF alloc_invD(1) [OF assms(1)], of g r] assms by (simp add: fit_valid_def)

lemma find_first_fit_search:
  assumes "alloc_inv s" "arena_bounds g r s = (lo, hi)"
  shows "find_first_fit sz g r s = (case gap_search (s, sz, lo, hi) of
    None \<Rightarrow> Inl (Allocation_Error ''unable to allocate'') | Some base \<Rightarrow> Inr base)"
proof -
  obtain gaps where "al_free s = Some gaps" by (rule free_gaps [OF assms(1)])
  then show ?thesis by (simp add: find_first_fit_def assms(2) gap_search_def)
qed

lemma root_bytes_apart:
  assumes "map_of (al_allocations s) k = Some a" "pa_alias_of a = None" "X \<inter> root_bytes (map_of (al_allocations s)) = {}"
  shows "X \<inter> {pa_base a..<pa_end a} = {}"
  using root_bytesI [of "map_of (al_allocations s)" k a] assms by blast

lemma overlapping_root_bytes:
  assumes "wf_dict (al_allocations s)" "overlapping base sz None s = []"
  shows "{base..<base + sz} \<inter> root_bytes (map_of (al_allocations s)) = {}"
proof (rule equals0I)
  fix x assume x: "x \<in> {base..<base + sz} \<inter> root_bytes (map_of (al_allocations s))"
  then obtain k a where a: "map_of (al_allocations s) k = Some a" "pa_alias_of a = None" "x \<in> {pa_base a..<pa_end a}"
    unfolding root_bytes_def by (elim IntE CollectE exE conjE) (rule that, simp_all)
  then show False using overlapping_empty [OF assms a(1) _ a(2)] x by blast
qed

text \<open>What a placed extent satisfies: a root is free of other roots, an alias lies in its target.\<close>

definition placed_ok :: "alloc_request \<Rightarrow> allocator \<Rightarrow> int \<Rightarrow> string option \<Rightarrow> bool" where
  "placed_ok q s base r \<longleftrightarrow> 0 \<le> base \<and> base + aq_size q \<le> al_capacity s \<and>
     (case fst (resolved_alias q) of
        None \<Rightarrow> fst (arena_bounds (aq_generation q) r s) \<le> base \<and> base + aq_size q \<le> snd (arena_bounds (aq_generation q) r s) \<and>
          {base..<base + aq_size q} \<inter> root_bytes (map_of (al_allocations s)) = {}
      | Some b \<Rightarrow> (\<exists>g t. snd (resolved_alias q) = Some g \<and> map_of (al_allocations s) (b, g) = Some t \<and>
          base = pa_base t + aq_alias_offset q \<and> base + aq_size q \<le> pa_end t))"

lemma place_new_ok:
  assumes inv: "alloc_inv s" and q: "request_checks q = Inr k" and p: "place_new q s = Inr (base, r)"
  shows "placed_ok q s base r"
proof (cases "fst (resolved_alias q)")
  case (Some b)
  obtain g where g: "snd (resolved_alias q) = Some g" by (rule resolved_aliasD [OF Some q])
  have pa: "place_alias q b s = Inr (base, r)" using p Some by (simp add: place_new_def)
  obtain t where t: "map_of (al_allocations s) (b, g) = Some t"
    using pa g by (cases "map_of (al_allocations s) (b, g)") (simp_all add: place_alias_def Let_def)
  have "base = pa_base t + aq_alias_offset q" "aq_alias_offset q + aq_size q \<le> pa_size t" "0 \<le> base"
    "base + aq_size q \<le> al_capacity s"
    using pa unfolding place_alias_def Let_def g option.sel t option.case
    by (auto simp: rbind_eq_Inr check_extentD split: if_split_asm)
  then show ?thesis using Some g t by (simp add: placed_ok_def pa_end_def)
next
  case None
  have wf: "wf_dict (al_allocations s)" using alloc_invD(2) [OF inv] by (simp add: ordered_def)
  show ?thesis
  proof (cases "aq_address q")
    case (Some a)
    then have "place_at q a s = Inr (base, r)" using p None by (simp add: place_new_def)
    then have b: "base = a" "r = aq_arena q" "check_arena_extent base (aq_size q) (aq_generation q) r s = Inr ()"
      "overlapping base (aq_size q) None s = []"
      by (auto simp: place_at_def rbind_eq_Inr split: if_split_asm)
    then show ?thesis using None overlapping_root_bytes [OF wf b(4)] by (simp add: placed_ok_def check_arenaD)
  next
    case none: None
    obtain lo hi where ab: "arena_bounds (aq_generation q) (aq_arena q) s = (lo, hi)"
      by (cases "arena_bounds (aq_generation q) (aq_arena q) s")
    note v = fit_valid_arena [OF inv request_checksD(4) [OF q] ab]
    have "find_first_fit (aq_size q) (aq_generation q) (aq_arena q) s = Inr base" "r = aq_arena q"
      using p None none by (auto simp: place_new_def rbind_eq_Inr)
    then have f: "fits_at (s, aq_size q, lo, hi) base" "r = aq_arena q"
      using gap_fit.found [OF v] unfolding find_first_fit_search [OF inv ab] by (auto split: option.splits)
    have "lo \<le> base" "base + aq_size q \<le> hi" "0 \<le> lo" "hi \<le> al_capacity s"
      "{base..<base + aq_size q} \<inter> root_bytes (map_of (al_allocations s)) = {}"
      using f(1) v by (simp_all add: fits_at_def fit_valid_def)
    then show ?thesis using None ab f(2) by (simp add: placed_ok_def)
  qed
qed

lemma allocate_absent:
  assumes inv: "alloc_inv s" and q: "request_checks q = Inr k" and new: "map_of (al_allocations s) k = None"
    and p: "place_new q s = Inr placed"
  defines "a \<equiv> new_allocation q k placed"
  shows "stored_as k a (al_next_order s) s (store_allocation k a s)"
proof -
  note iv = alloc_invD [OF inv] and rc = request_checksD [OF q]
  obtain base r where pl: "placed = (base, r)" by (cases placed)
  have ok: "placed_ok q s base r" using place_new_ok [OF inv q] p pl by simp
  have nx: "map_of (al_order s) k = None" using order_dom [OF iv(3), of k] new by simp
  have f: "pa_key a = k" "pa_base a = base" "pa_size a = aq_size q" "pa_end a = base + aq_size q"
    "pa_buffer a = fst k" "pa_generation a = snd k" "pa_alias_of a = fst (resolved_alias q)"
    "pa_alias_generation a = snd (resolved_alias q)" "pa_alias_offset a = aq_alias_offset q" "pa_arena a = r"
    by (simp_all add: a_def new_allocation_def pl pa_key_def pa_end_def)
  let ?n = "al_next_order s"
  let ?p = "if pa_alias_of a = None then max (al_peak s) (pa_end a) else al_peak s"
  have n: "(case map_of (al_order s) k of None \<Rightarrow> ?n | Some n \<Rightarrow> n) = ?n" by (simp add: nx)
  have base: "0 \<le> base" "base + aq_size q \<le> al_capacity s" using ok by (simp_all add: placed_ok_def)
  have "entry_ok s ?p ((image_of s)(k := (Some a, Some ?n))) k a"
  proof (cases "fst (resolved_alias q)")
    case None
    then have "in_arena s a" using ok rc(1) f unfolding in_arena_def by (simp add: placed_ok_def split_beta)
    then show ?thesis using None f rc(1-4) base by (simp add: entry_ok_def)
  next
    case (Some b)
    obtain g where g: "snd (resolved_alias q) = Some g" "0 \<le> g" "strip b = b" by (rule resolved_aliasD [OF Some q])
    obtain t where t: "map_of (al_allocations s) (b, g) = Some t" "base = pa_base t + aq_alias_offset q"
      "base + aq_size q \<le> pa_end t"
      using ok Some g by (auto simp: placed_ok_def)
    obtain m where m: "map_of (al_order s) (b, g) = Some m" using order_dom [OF iv(3), of "(b, g)"] t(1) by auto
    have "m < ?n" using iv(2) m unfolding ordered_def by blast
    moreover have "(b, g) \<noteq> k" using t(1) new by auto
    ultimately have "alias_ok ((image_of s)(k := (Some a, Some ?n))) k a b"
      unfolding alias_ok_def
      by (intro exI [of _ g] exI [of _ t] exI [of _ m] exI [of _ ?n])
        (use g t m f rc(7) in \<open>simp add: image_of_def before_image_of_def\<close>)
    then show ?thesis using Some f rc(1-4) base by (simp add: entry_ok_def)
  qed
  moreover have "{pa_base a..<pa_end a} \<inter> {pa_base a'..<pa_end a'} = {}"
    if "pa_alias_of a = None" "k' \<noteq> k" "map_of (al_allocations s) k' = Some a'" "pa_alias_of a' = None" for k' a'
    using root_bytes_apart [OF that(3,4), of "{pa_base a..<pa_end a}"] ok that(1) f(2,4,7) by (simp add: placed_ok_def)
  ultimately have "map_of (al_allocations s) k = Some a \<and> store_allocation k a s = s \<or> stored_as k a ?n s (store_allocation k a s)"
    using store_allocation_ok [where k = k and a = a, OF inv] new unfolding n by auto
  then show ?thesis using new by simp
qed

text \<open>An allocation either fails and changes nothing, or returns what is stored under its key.\<close>

lemma allocate_ok:
  assumes "alloc_inv s"
  shows "(\<exists>e. allocate q s = (Inl e, s)) \<or>
    (\<exists>a k n. allocate q s = (Inr a, store_allocation k a s) \<and> request_checks q = Inr k \<and>
      (map_of (al_allocations s) k = Some a \<and> store_allocation k a s = s \<or> stored_as k a n s (store_allocation k a s)))"
proof (cases "request_checks q")
  case (Inl e)
  then show ?thesis by (simp add: allocate_def)
next
  case k: (Inr k)
  show ?thesis
  proof (cases "map_of (al_allocations s) k")
    case None
    then have run: "allocate q s = (case rbind (place_new q s) (\<lambda>placed. Inr (new_allocation q k placed)) of
       Inl e \<Rightarrow> (Inl e, s) | Inr a \<Rightarrow> (Inr a, store_allocation k a s))" using k by (simp add: allocate_def)
    show ?thesis
    proof (cases "place_new q s")
      case (Inr placed)
      then show ?thesis using run allocate_absent [OF assms k None Inr] k unfolding Inr rbind_simps sum.case by blast
    qed (use run in simp)
  next
    case (Some ex)
    then have run: "allocate q s = (case reallocate q k ex s of
       Inl e \<Rightarrow> (Inl e, s) | Inr a \<Rightarrow> (Inr a, store_allocation k a s))" using k by (simp add: allocate_def)
    show ?thesis
    proof (cases "reallocate q k ex s")
      case (Inr a)
      then show ?thesis using run allocate_existing [OF assms k Some Inr] k unfolding Inr sum.case by blast
    qed (use run in simp)
  qed
qed

section \<open>The allocator as a state machine\<close>

datatype alloc_call = Call_Allocate alloc_request | Call_Register alloc_declaration | Call_Release string int
  | Call_Begin | Call_Commit nat | Call_Rollback nat | Call_Drop nat

fun apply_call :: "alloc_call \<Rightarrow> allocator \<Rightarrow> allocator" where
  "apply_call (Call_Allocate q) s = snd (allocate q s)"
| "apply_call (Call_Register d) s = snd (register_declaration d s)"
| "apply_call (Call_Release b g) s = snd (release_allocation b g s)"
| "apply_call Call_Begin s = snd (begin_save s)"
| "apply_call (Call_Commit h) s = commit_save h s"
| "apply_call (Call_Rollback h) s = rollback_save h s"
| "apply_call (Call_Drop h) s = drop_save h s"

inductive alloc_step :: "allocator \<Rightarrow> allocator \<Rightarrow> bool" where
  call: "alloc_step s (apply_call c s)"

inductive_cases alloc_stepE: "alloc_step s t"
inductive_simps alloc_step_iff: "alloc_step s t"

definition alloc_start :: "allocator \<Rightarrow> bool" where
  "alloc_start s \<longleftrightarrow> (\<exists>c a w. new_allocator c a w = Inr s)"

lemma alloc_inv_start: "alloc_start s \<Longrightarrow> alloc_inv s"
proof -
  assume "alloc_start s"
  then obtain c a w where "new_allocator c a w = Inr s" by (auto simp: alloc_start_def)
  then have g: "0 < c" "0 < a" "0 \<le> w" "w < c" "w \<noteq> 0 \<longrightarrow> (c - w) mod a = 0" and s: "s = \<lparr>al_capacity = c, al_alignment = a, al_workspace = w,
        al_allocations = [], al_native_keys = True, al_address_keys = [], al_address_rows = [],
        al_largest = 0, al_peak = 0, al_aliases = [], al_free = Some [(0, c)],
        al_fits = [(0, c)], al_order = [], al_next_order = 0, al_open = [], al_saves = [], al_next_save = 0\<rparr>"
    by (auto simp: new_allocator_def split: if_split_asm)
  have "geometry_ok s" using g by (auto simp: geometry_ok_def s mod_eq_0_iff_dvd)
  moreover have "image_of s = (\<lambda>k. (None, None))" by (rule ext) (simp add: s image_of_def before_image_of_def)
  then have "image_ok s (al_peak s) (image_of s)" using image_ok_empty by simp
  moreover have "ordered s" by (simp add: s ordered_def)
  moreover have "indexed (map_of (al_allocations s)) s"
  proof -
    have m: "map_of (al_allocations s) = (\<lambda>k. None)" by (rule ext) (simp add: s)
    have f: "fit_gap a (0, c)" using g round_up_id [of a 0] by (simp add: fit_gap_def)
    have "root_bytes (map_of (al_allocations s)) = {}" by (simp add: m root_bytes_def)
    moreover have "alias_index (map_of (al_allocations s)) = map_of []" by (rule ext) (simp add: m alias_index_def)
    moreover have "rows_index (map_of (al_allocations s)) []" by (simp add: m rows_index_def ran_def)
    ultimately show ?thesis using g f by (simp add: indexed_def s keyed_def canonical_Cons covered_def)
  qed
  moreover have "saves_ok s" by (simp add: s saves_ok_def)
  ultimately show ?thesis using g by (simp add: alloc_inv_def s)
qed

text \<open>Only the journal changes when a checkpoint is begun, closed or dropped.\<close>

definition only_saves :: "allocator \<Rightarrow> allocator \<Rightarrow> bool" where
  "only_saves s t \<longleftrightarrow> t = s\<lparr>al_open := al_open t, al_saves := al_saves t, al_next_save := al_next_save t\<rparr>"

lemma only_savesD:
  assumes "only_saves s t"
  shows "al_capacity t = al_capacity s" "al_alignment t = al_alignment s" "al_workspace t = al_workspace s"
    "al_allocations t = al_allocations s" "al_order t = al_order s" "al_next_order t = al_next_order s"
    "al_peak t = al_peak s" "al_address_rows t = al_address_rows s" "al_address_keys t = al_address_keys s"
    "al_largest t = al_largest s" "al_aliases t = al_aliases s" "al_free t = al_free s" "al_fits t = al_fits s"
    "image_of t = image_of s" "restored sv t = restored sv s"
proof -
  note e = assms [unfolded only_saves_def]
  show eqs: "al_capacity t = al_capacity s" "al_alignment t = al_alignment s" "al_workspace t = al_workspace s"
    "al_allocations t = al_allocations s" "al_order t = al_order s" "al_next_order t = al_next_order s"
    "al_peak t = al_peak s" "al_address_rows t = al_address_rows s" "al_address_keys t = al_address_keys s"
    "al_largest t = al_largest s" "al_aliases t = al_aliases s" "al_free t = al_free s" "al_fits t = al_fits s"
    by (subst e, simp)+
  show i: "image_of t = image_of s" by (rule ext) (simp add: image_of_def before_image_of_def eqs(4,5))
  show "restored sv t = restored sv s" by (rule ext) (simp only: restored_def i)
qed

lemma only_saves_inv:
  assumes "alloc_inv s" "only_saves s t" "saves_ok t"
  shows "alloc_inv t"
proof -
  note e = only_savesD [OF assms(2)] and iv = alloc_invD [OF assms(1)]
  have "geometry_ok t" using iv(1) unfolding geometry_ok_def e .
  moreover have "ordered t" using iv(2) unfolding ordered_def order_of_def e .
  moreover have "image_ok t (al_peak t) (image_of t)" using iv(3) image_ok_cong [OF e(1,3)] unfolding e by blast
  moreover have "indexed (map_of (al_allocations t)) t"
    using iv(4) indexed_cong [OF e(8,9,11-13,1,2)] unfolding e(4) by blast
  ultimately show ?thesis using iv(5-7) assms(3) unfolding alloc_inv_def e by blast
qed

lemma save_ok_only: "only_saves s t \<Longrightarrow> save_ok s sv \<Longrightarrow> save_ok t sv"
proof -
  assume o: "only_saves s t" and ok: "save_ok s sv"
  note e = only_savesD [OF o]
  show ?thesis using ok image_ok_cong [OF e(1,3)] unfolding save_ok_def e by blast
qed

lemma begin_ok:
  assumes inv: "alloc_inv s" and b: "begin_save s = (h, t)"
  shows "only_saves s t" "alloc_inv t" "h = al_next_save s" "al_next_save t = Suc h"
    "map_of (al_saves t) = (map_of (al_saves s))(h \<mapsto> \<lparr>sv_entries = [], sv_peak = al_peak s\<rparr>)" "map_of (al_saves s) h = None"
proof -
  let ?sv = "\<lparr>sv_entries = [], sv_peak = al_peak s\<rparr>"
  note iv = alloc_invD [OF inv]
  have t: "t = s\<lparr>al_open := al_open s @ [h], al_saves := AList.update h ?sv (al_saves s), al_next_save := h + 1\<rparr>"
    and h: "h = al_next_save s" using b by (auto simp: begin_save_def)
  show o: "only_saves s t" by (simp add: only_saves_def t)
  show "h = al_next_save s" by (rule h)
  show "al_next_save t = Suc h" by (simp add: t)
  show m: "map_of (al_saves t) = (map_of (al_saves s))(h \<mapsto> ?sv)" by (rule ext) (simp add: t)
  have lt: "h' < h" if "map_of (al_saves s) h' = Some sv" for h' sv using iv(8) that unfolding saves_ok_def h by blast
  then show "map_of (al_saves s) h = None" by (meson less_irrefl option.exhaust)
  have "restored ?sv t = image_of s" by (rule ext) (simp add: restored_def only_savesD(14) [OF o])
  then have new: "save_ok t ?sv"
    using iv(3,6,7) image_ok_cong [OF only_savesD(1,3) [OF o]] by (simp add: save_ok_def only_savesD(1) [OF o])
  have "saves_ok t"
    unfolding saves_ok_def
  proof (intro conjI allI impI)
    show "wf_dict (al_saves t)" using iv(8) by (simp add: t saves_ok_def)
    fix h' sv assume sv: "map_of (al_saves t) h' = Some sv"
    show "save_ok t sv"
    proof (cases "h' = h")
      case False
      then have "map_of (al_saves s) h' = Some sv" using sv by (simp add: m)
      then have "save_ok s sv" using iv(8) unfolding saves_ok_def by blast
      then show ?thesis by (rule save_ok_only [OF o])
    qed (use sv m new in simp)
    show "h' < al_next_save t" using sv lt [of h' sv] by (cases "h' = h") (simp_all add: m t)
  qed
  then show "alloc_inv t" by (rule only_saves_inv [OF inv o])
qed

lemma close_ok:
  assumes inv: "alloc_inv s"
  shows "only_saves s (close_save h s)" "alloc_inv (close_save h s)" "al_saves (close_save h s) = al_saves s"
    "al_next_save (close_save h s) = al_next_save s"
proof -
  show o: "only_saves s (close_save h s)" by (simp add: only_saves_def close_save_def)
  show sv: "al_saves (close_save h s) = al_saves s" "al_next_save (close_save h s) = al_next_save s"
    by (simp_all add: close_save_def)
  show "alloc_inv (close_save h s)"
    by (rule only_saves_inv [OF inv o])
      (use alloc_invD(8) [OF inv] save_ok_only [OF o] in \<open>simp add: saves_ok_def sv\<close>)
qed

lemma drop_ok:
  assumes inv: "alloc_inv s"
  shows "only_saves s (drop_save h s)" "alloc_inv (drop_save h s)" "al_next_save (drop_save h s) = al_next_save s"
    "map_of (al_saves (drop_save h s)) h' = None \<or> map_of (al_saves (drop_save h s)) h' = map_of (al_saves s) h'"
    "h' \<noteq> h \<Longrightarrow> map_of (al_saves (drop_save h s)) h' = map_of (al_saves s) h'"
proof -
  let ?t = "drop_save h s"
  show o: "only_saves s ?t" by (simp add: only_saves_def drop_save_def)
  show n: "al_next_save ?t = al_next_save s" by (simp add: drop_save_def)
  show m: "map_of (al_saves ?t) h' = None \<or> map_of (al_saves ?t) h' = map_of (al_saves s) h'"
    and "h' \<noteq> h \<Longrightarrow> map_of (al_saves ?t) h' = map_of (al_saves s) h'" for h' by (simp_all add: drop_save_def)
  have iv: "saves_ok s" by (rule alloc_invD(8) [OF inv])
  have "saves_ok ?t"
    unfolding saves_ok_def
  proof (intro conjI allI impI)
    show "wf_dict (al_saves ?t)" using iv by (simp add: saves_ok_def drop_save_def)
    fix h' sv assume "map_of (al_saves ?t) h' = Some sv"
    then have "map_of (al_saves s) h' = Some sv" using m [of h'] by simp
    then have "save_ok s sv" "h' < al_next_save s" using iv unfolding saves_ok_def by blast+
    then show "save_ok ?t sv" "h' < al_next_save ?t" using save_ok_only [OF o] n by simp_all
  qed
  then show "alloc_inv ?t" by (rule only_saves_inv [OF inv o])
qed

section \<open>Checkpoints of a machine\<close>

text \<open>
  A machine with checkpoints promises that what a checkpoint holds never changes while it is
  retained, and that restoring it gives the content it holds.
\<close>

locale checkpointed = state_machine start step inv
  for start :: "'s \<Rightarrow> bool" and step :: "'s \<Rightarrow> 's \<Rightarrow> bool" and inv :: "'s \<Rightarrow> bool" +
  fixes content :: "'s \<Rightarrow> 'c"
    and issued :: "'s \<Rightarrow> 'h \<Rightarrow> bool"
    and saved :: "'s \<Rightarrow> 'h \<Rightarrow> 'c option"
    and save :: "'s \<Rightarrow> 'h \<times> 's"
    and restore :: "'h \<Rightarrow> 's \<Rightarrow> 's"
  assumes save_step: "step s (snd (save s))"
    and save_saved: "inv s \<Longrightarrow> issued (snd (save s)) (fst (save s)) \<and> saved (snd (save s)) (fst (save s)) = Some (content s)"
    and step_saved: "inv s \<Longrightarrow> step s t \<Longrightarrow> issued s h \<Longrightarrow> issued t h \<and> (saved t h = None \<or> saved t h = saved s h)"
    and restore_content: "inv s \<Longrightarrow> saved s h = Some x \<Longrightarrow> inv (restore h s) \<and> content (restore h s) = x"
begin

lemma run_saved:
  assumes "inv s" "issued s h" "step\<^sup>*\<^sup>* s t"
  shows "inv t \<and> issued t h \<and> (saved t h = None \<or> saved t h = saved s h)"
  using assms(3)
proof (induction rule: rtranclp_induct)
  case (step t u)
  then have "inv t" "issued t h" "saved t h = None \<or> saved t h = saved s h" by blast+
  then show ?case using inv_step [OF _ step(2)] step_saved [OF _ step(2), of h] by metis
qed (use assms in simp)

lemma restore_run:
  assumes "inv s" "save s = (h, s')" "step\<^sup>*\<^sup>* s' t" "saved t h \<noteq> None"
  shows "inv (restore h t) \<and> content (restore h t) = content s"
proof -
  have s': "inv s'" "issued s' h" "saved s' h = Some (content s)"
    using save_saved [OF assms(1)] inv_step [OF assms(1) save_step] by (simp_all add: assms(2))
  then have t: "inv t" "saved t h = Some (content s)" using run_saved [OF s'(1,2) assms(3)] assms(4) by auto
  then show ?thesis by (rule restore_content)
qed

end

text \<open>The content of an allocator, and the content a retained checkpoint would restore.\<close>

definition alloc_content :: "allocator \<Rightarrow> image_map \<times> int \<times> int \<times> int \<times> int" where
  "alloc_content s = (image_of s, al_peak s, al_capacity s, al_alignment s, al_workspace s)"

definition alloc_saved :: "allocator \<Rightarrow> nat \<Rightarrow> (image_map \<times> int \<times> int \<times> int \<times> int) option" where
  "alloc_saved s h = (case map_of (al_saves s) h of None \<Rightarrow> None
     | Some sv \<Rightarrow> Some (restored sv s, sv_peak sv, al_capacity s, al_alignment s, al_workspace s))"

definition alloc_issued :: "allocator \<Rightarrow> nat \<Rightarrow> bool" where
  "alloc_issued s h \<longleftrightarrow> h < al_next_save s"

definition journal_step :: "allocator \<Rightarrow> allocator \<Rightarrow> bool" where
  "journal_step s t \<longleftrightarrow> alloc_inv t \<and>
     (\<forall>h. alloc_issued s h \<longrightarrow> alloc_issued t h \<and> (alloc_saved t h = None \<or> alloc_saved t h = alloc_saved s h))"

lemma journalled_saved:
  assumes "journalled s t"
  shows "alloc_saved t h = alloc_saved s h"
proof -
  have k: "keeps_save s t h" and g: "al_capacity t = al_capacity s" "al_alignment t = al_alignment s" "al_workspace t = al_workspace s"
    and m: "map fst (al_saves t) = map fst (al_saves s)" using assms by (simp_all add: journalled_def)
  show ?thesis
  proof (cases "map_of (al_saves s) h")
    case None
    then have "h \<notin> set (map fst (al_saves s))" by (simp add: map_of_eq_None_iff)
    then have "map_of (al_saves t) h = None" unfolding m [symmetric] by (simp add: map_of_eq_None_iff)
    then show ?thesis using None by (simp add: alloc_saved_def)
  next
    case (Some sv)
    then show ?thesis using k g unfolding keeps_save_def by (auto simp: alloc_saved_def)
  qed
qed

lemma journalled_step_ok: "alloc_inv t \<Longrightarrow> journalled s t \<Longrightarrow> journal_step s t"
  using journalled_saved [of s t] by (simp add: journal_step_def alloc_issued_def journalled_def)

lemma only_saves_saved:
  assumes "only_saves s t" "map_of (al_saves t) h = map_of (al_saves s) h"
  shows "alloc_saved t h = alloc_saved s h"
  unfolding alloc_saved_def assms(2) only_savesD [OF assms(1)] by (rule refl)

lemma journal_step_refl: "alloc_inv s \<Longrightarrow> journal_step s s"
  by (simp add: journal_step_def)

lemma allocate_step:
  assumes "alloc_inv s"
  shows "journal_step s (snd (allocate q s))"
  using allocate_ok [OF assms, of q]
proof (elim disjE exE)
  fix e assume "allocate q s = (Inl e, s)"
  then show ?thesis using journal_step_refl [OF assms] by simp
next
  fix a k n
  assume a: "allocate q s = (Inr a, store_allocation k a s) \<and> request_checks q = Inr k \<and>
    (map_of (al_allocations s) k = Some a \<and> store_allocation k a s = s \<or> stored_as k a n s (store_allocation k a s))"
  then have e: "snd (allocate q s) = store_allocation k a s" by simp
  show ?thesis
  proof (cases "store_allocation k a s = s")
    case False
    then have "stored_as k a n s (store_allocation k a s)" using a by blast
    then show ?thesis unfolding e stored_as_def using journalled_step_ok by blast
  qed (use e journal_step_refl [OF assms] in simp)
qed

lemma apply_call_step:
  assumes "alloc_inv s"
  shows "journal_step s (apply_call c s)"
proof (cases c)
  case (Call_Allocate q)
  then show ?thesis using allocate_step [OF assms, of q] by simp
next
  case (Call_Register d)
  then show ?thesis using allocate_step [OF assms] journal_step_refl [OF assms]
    by (simp add: register_declaration_def split: option.splits)
next
  case (Call_Release b g)
  from release_ok [OF assms, of b g] show ?thesis
  proof (elim disjE exE)
    fix s' assume r: "release_allocation b g s = (Inr (), s') \<and> removed (strip b, g) s s' \<and>
      map_of (al_allocations s) (strip b, g) \<noteq> None \<and> alias_index (map_of (al_allocations s)) (strip b, Some g) = None"
    then have "apply_call c s = s'" using Call_Release by simp
    then show ?thesis using r journalled_step_ok [of s' s] by (simp add: removed_def)
  qed (use Call_Release journal_step_refl [OF assms] in simp_all)
next
  case Call_Begin
  obtain h t where b: "begin_save s = (h, t)" by (cases "begin_save s")
  note bo = begin_ok [OF assms b]
  have "alloc_saved t h' = alloc_saved s h'" if "h' < h" for h'
    by (rule only_saves_saved [OF bo(1)]) (use that in \<open>simp add: bo(5)\<close>)
  then show ?thesis using b Call_Begin bo(2-4) by (simp add: journal_step_def alloc_issued_def)
next
  case (Call_Commit h)
  note co = close_ok [OF assms, of h]
  have "alloc_saved (close_save h s) h' = alloc_saved s h'" for h'
    by (rule only_saves_saved [OF co(1)]) (simp add: co(3))
  then show ?thesis using Call_Commit co by (simp add: journal_step_def alloc_issued_def commit_save_def)
next
  case (Call_Rollback h)
  show ?thesis
  proof (cases "map_of (al_saves s) h")
    case None
    then show ?thesis using Call_Rollback journal_step_refl [OF assms] by (simp add: rollback_save_def)
  next
    case (Some sv)
    then show ?thesis using rollback_ok [OF assms Some] Call_Rollback by (simp add: journalled_step_ok)
  qed
next
  case (Call_Drop h)
  note d = drop_ok [OF assms, of h]
  have "alloc_saved (drop_save h s) h' = None \<or> alloc_saved (drop_save h s) h' = alloc_saved s h'" for h'
    using d(4) [of h']
  proof
    assume "map_of (al_saves (drop_save h s)) h' = None"
    then show ?thesis by (simp add: alloc_saved_def)
  next
    assume "map_of (al_saves (drop_save h s)) h' = map_of (al_saves s) h'"
    then show ?thesis using only_saves_saved [OF d(1)] by blast
  qed
  then show ?thesis using Call_Drop d(2,3) by (simp add: journal_step_def alloc_issued_def)
qed

interpretation alloc_journal: checkpointed alloc_start alloc_step alloc_inv alloc_content alloc_issued alloc_saved
  begin_save rollback_save
proof unfold_locales
  show "alloc_inv s" if "alloc_start s" for s by (rule alloc_inv_start [OF that])
  show "alloc_inv t" if "alloc_inv s" "alloc_step s t" for s t
    using that apply_call_step [OF that(1)] by (auto elim: alloc_stepE simp: journal_step_def)
  show "alloc_step s (snd (begin_save s))" for s using call [of s Call_Begin] by simp
  show "alloc_issued (snd (begin_save s)) (fst (begin_save s)) \<and>
    alloc_saved (snd (begin_save s)) (fst (begin_save s)) = Some (alloc_content s)" if "alloc_inv s" for s
  proof -
    obtain h t where b: "begin_save s = (h, t)" by (cases "begin_save s")
    note bo = begin_ok [OF that b] and e = only_savesD [OF begin_ok(1) [OF that b]]
    have "restored \<lparr>sv_entries = [], sv_peak = al_peak s\<rparr> s = image_of s" by (rule ext) (simp add: restored_def)
    then show ?thesis by (simp add: b bo(4,5) alloc_issued_def alloc_saved_def alloc_content_def e)
  qed
  show "alloc_issued t h \<and> (alloc_saved t h = None \<or> alloc_saved t h = alloc_saved s h)"
    if "alloc_inv s" "alloc_step s t" "alloc_issued s h" for s t h
  proof -
    have "journal_step s t" using that(2) apply_call_step [OF that(1)] by (elim alloc_stepE) simp
    then show ?thesis using that(3) by (simp add: journal_step_def)
  qed
  show "alloc_inv (rollback_save h s) \<and> alloc_content (rollback_save h s) = x"
    if i: "alloc_inv s" and x: "alloc_saved s h = Some x" for s h x
  proof -
    obtain sv where sv: "map_of (al_saves s) h = Some sv"
      "x = (restored sv s, sv_peak sv, al_capacity s, al_alignment s, al_workspace s)"
      using x by (auto simp: alloc_saved_def split: option.splits)
    then show ?thesis using rollback_ok [OF i sv(1)] by (simp add: alloc_content_def journalled_def)
  qed
qed

section \<open>What the image determines\<close>

lemma sorted_by_unique:
  assumes "sorted_wrt (\<lambda>k k'. f k < (f k' :: int)) xs" "sorted_wrt (\<lambda>k k'. f k < f k') ys" "set xs = set ys"
  shows "xs = ys"
proof -
  have s: "sorted_wrt (<) (map f xs)" "sorted_wrt (<) (map f ys)" using assms(1,2) by (simp_all add: sorted_wrt_map)
  have "map f xs = map f ys" by (rule strict_sorted_equal [OF s(2,1)]) (simp add: assms(3))
  moreover have "inj_on f (set xs)" using s(1) by (simp add: strict_sorted_iff distinct_map)
  then have "inj_on f (set xs \<union> set ys)" using assms(3) by simp
  ultimately show ?thesis using map_inj_on [of f xs ys] by blast
qed

lemma dict_eqI:
  assumes "wf_dict d" "wf_dict d'" "map fst d = map fst d'" "map_of d = map_of d'"
  shows "d = d'"
proof -
  have "d = map (\<lambda>k. (k, the (map_of d k))) (map fst d)" if "wf_dict d" for d :: "('a \<times> 'b) list"
    using that by (auto simp: wf_dict_in_iff intro!: nth_equalityI) (metis nth_mem option.sel prod.collapse wf_dict_in_iff)
  from this [OF assms(1)] this [OF assms(2)] show ?thesis unfolding assms(3,4) by simp
qed

definition same_indexes :: "allocator \<Rightarrow> allocator \<Rightarrow> bool" where
  "same_indexes s t \<longleftrightarrow> al_address_rows t = al_address_rows s \<and> al_address_keys t = al_address_keys s \<and>
     al_free t = al_free s \<and> al_fits t = al_fits s \<and> map_of (al_aliases t) = map_of (al_aliases s)"

lemma indexed_unique:
  assumes "indexed M s" "indexed M t" "al_capacity t = al_capacity s" "al_alignment t = al_alignment s"
  shows "same_indexes s t"
proof -
  have r: "al_address_rows t = al_address_rows s"
    using rows_index_unique [of M "al_address_rows t" "al_address_rows s"] assms(1,2) by (simp add: indexed_def)
  obtain g where g: "al_free s = Some g" "canonical g" "covered g = {0..<al_capacity s} - root_bytes M"
    "al_fits s = filter (fit_gap (al_alignment s)) g" using assms(1) unfolding indexed_def by blast
  obtain g' where g': "al_free t = Some g'" "canonical g'" "covered g' = {0..<al_capacity t} - root_bytes M"
    "al_fits t = filter (fit_gap (al_alignment t)) g'" using assms(2) unfolding indexed_def by blast
  have "g' = g" by (rule canonical_unique [OF g'(2) g(2)]) (simp add: g(3) g'(3) assms(3))
  then show ?thesis using r g g' assms by (simp add: same_indexes_def indexed_def)
qed

lemma content_determines:
  assumes s: "alloc_inv s" and t: "alloc_inv t" and c: "alloc_content t = alloc_content s"
  shows "al_allocations t = al_allocations s \<and> map_of (al_order t) = map_of (al_order s) \<and> same_indexes s t \<and>
    al_peak t = al_peak s"
proof -
  have e: "image_of t = image_of s" "al_peak t = al_peak s" "al_capacity t = al_capacity s" "al_alignment t = al_alignment s"
    using c by (simp_all add: alloc_content_def)
  have m: "map_of (al_allocations t) k = map_of (al_allocations s) k" "map_of (al_order t) k = map_of (al_order s) k" for k
    using fun_cong [OF e(1), of k] by (simp_all add: image_of_def before_image_of_def)
  then have m': "map_of (al_allocations t) = map_of (al_allocations s)" "map_of (al_order t) = map_of (al_order s)"
    by (auto intro: ext simp del: split_paired_All)
  have o: "order_of t = order_of s" by (rule ext) (simp only: order_of_def m'(2))
  have os: "ordered s" "ordered t" using s t by (simp_all add: alloc_inv_def)
  have "map fst (al_allocations t) = map fst (al_allocations s)"
  proof (rule sorted_by_unique [of "order_of s"])
    show "set (map fst (al_allocations t)) = set (map fst (al_allocations s))"
      using arg_cong [OF m'(1), of dom] by (simp add: dom_map_of_conv_image_fst)
  qed (use os in \<open>simp_all add: ordered_def o\<close>)
  then have "al_allocations t = al_allocations s"
    using dict_eqI [of "al_allocations t" "al_allocations s"] os m'(1) by (simp add: ordered_def)
  then show ?thesis
    using indexed_unique [OF alloc_invD(4) [OF s], of t] alloc_invD(4) [OF t] m' e by simp
qed

section \<open>Following aliases\<close>

text \<open>Ordinals fall along an alias chain, so a chain never returns to a key.\<close>

lemma alias_target_of:
  assumes "alloc_inv s" "map_of (al_allocations s) k = Some a" "pa_alias_of a = Some b"
  obtains g t where "pa_alias_generation a = Some g" "lookup_allocation b g s = Inr t"
    "map_of (al_allocations s) (b, g) = Some t" "order_of s (b, g) < order_of s k" "pa_base t \<le> pa_base a" "pa_end a \<le> pa_end t"
proof -
  note iv = alloc_invD [OF assms(1)]
  have "alias_ok (image_of s) k a b" using entry_okD(11) [OF entry_of [OF assms(1,2)]] assms(3) by blast
  then obtain g t n m where x: "pa_alias_generation a = Some g" "0 \<le> g" "strip b = b" "image_of s (b, g) = (Some t, Some n)"
    "snd (image_of s k) = Some m" "n < m" "pa_base a = pa_base t + pa_alias_offset a" "0 \<le> pa_alias_offset a" "pa_end a \<le> pa_end t"
    unfolding alias_ok_def by blast
  then have t: "map_of (al_allocations s) (b, g) = Some t" "map_of (al_order s) (b, g) = Some n" "map_of (al_order s) k = Some m"
    by (simp_all add: image_of_def before_image_of_def)
  have "pa_key t = (b, g)" "pa_buffer t \<noteq> []" using entry_okD(1,7) [OF entry_of [OF assms(1) t(1)]] by simp_all
  then have "b \<noteq> []" by (auto simp: pa_key_def)
  then have "lookup_allocation b g s = Inr t"
    using x(2,3) t(1) by (simp add: lookup_allocation_def get_allocation_def alloc_key_of_def)
  then show ?thesis using that x t by (simp add: order_of_def)
qed

lemma follow_ok:
  assumes "alloc_inv s" "map_of (al_allocations s) k = Some a" "\<forall>v \<in> visited. order_of s k < order_of s v"
  shows "\<exists>rk r. follow_aliases s visited a off = Inr (fst rk, snd rk, pa_base a + off - pa_base r) \<and>
    map_of (al_allocations s) rk = Some r \<and> pa_alias_of r = None \<and> pa_base r \<le> pa_base a \<and> pa_end a \<le> pa_end r"
  using assms(2,3)
proof (induction "nat (order_of s k)" arbitrary: k a visited off rule: less_induct)
  case less
  note iv = alloc_invD [OF assms(1)] and key = entry_okD(1) [OF entry_of [OF assms(1) less.prems(1)]]
  show ?case
  proof (cases "pa_alias_of a")
    case None
    then have "follow_aliases s visited a off = Inr (fst k, snd k, pa_base a + off - pa_base a)"
      using key by (subst follow_aliases.simps) (auto simp: pa_key_def)
    then show ?thesis using less.prems(1) None by (intro exI [of _ k] exI [of _ a]) simp
  next
    case (Some b)
    obtain g t where t: "pa_alias_generation a = Some g" "lookup_allocation b g s = Inr t"
      "map_of (al_allocations s) (b, g) = Some t" "order_of s (b, g) < order_of s k" "pa_base t \<le> pa_base a" "pa_end a \<le> pa_end t"
      by (rule alias_target_of [OF assms(1) less.prems(1) Some])
    obtain n where n: "map_of (al_order s) (b, g) = Some n" using order_dom [OF iv(3), of "(b, g)"] t(3) by auto
    have "0 \<le> n" by (rule image_okD(4) [OF iv(3), of "(b, g)"]) (simp add: image_simps n)
    then have lt: "nat (order_of s (b, g)) < nat (order_of s k)" using t(4) by (simp add: order_of_def n)
    have new: "pa_key a \<notin> visited" using less.prems(2) key by auto
    have vis: "\<forall>v \<in> insert (pa_key a) visited. order_of s (b, g) < order_of s v"
      using less.prems(2) t(4) key by fastforce
    have run: "follow_aliases s visited a off =
        follow_aliases s (insert (pa_key a) visited) t (off + (pa_base a - pa_base t))"
      using Some new t(1,2) by (subst follow_aliases.simps) simp
    obtain rk r where r: "follow_aliases s (insert (pa_key a) visited) t (off + (pa_base a - pa_base t)) =
        Inr (fst rk, snd rk, pa_base t + (off + (pa_base a - pa_base t)) - pa_base r)"
      "map_of (al_allocations s) rk = Some r" "pa_alias_of r = None" "pa_base r \<le> pa_base t" "pa_end t \<le> pa_end r"
      using less.hyps [OF lt t(3) vis] by blast
    show ?thesis unfolding run by (intro exI [of _ rk] exI [of _ r]) (use r t(5,6) in simp)
  qed
qed

section \<open>A sample run\<close>

definition sample_request :: "string \<Rightarrow> int \<Rightarrow> alloc_request" where
  "sample_request b n = \<lparr>aq_buffer = b, aq_size = n, aq_generation = 0, aq_alias_of = None, aq_alias_generation = None,
     aq_address = None, aq_alias_offset = 0, aq_inferred = False, aq_arena = None\<rparr>"

definition sample_view :: "alloc_request" where
  "sample_view = (sample_request ''view'' 4)\<lparr>aq_alias_of := Some ''kv'', aq_alias_offset := 2\<rparr>"

definition sample_start :: allocator where
  "sample_start = (case new_allocator 64 8 16 of Inr s \<Rightarrow> s | Inl _ \<Rightarrow> undefined)"

definition sample_calls :: "alloc_call list" where
  "sample_calls = [Call_Allocate (sample_request ''weights'' 12), Call_Allocate (sample_request ''kv'' 10),
     Call_Allocate sample_view, Call_Release ''weights'' 0]"

definition sample_state :: allocator where
  "sample_state = fold apply_call sample_calls sample_start"

definition sample_more :: allocator where
  "sample_more = fold apply_call [Call_Allocate (sample_request ''weights'' 12), Call_Allocate (sample_request ''act'' 3)] sample_state"

lemma step_call: "reach alloc_start alloc_step s \<Longrightarrow> reach alloc_start alloc_step (apply_call c s)"
  by (rule reach_step, assumption, rule call)

lemma sample_reach: "reach alloc_start alloc_step sample_state"
proof -
  have "new_allocator 64 8 16 = Inr sample_start" by (simp add: sample_start_def new_allocator_def)
  then have "reach alloc_start alloc_step sample_start" by (intro reach_start) (auto simp: alloc_start_def)
  then show ?thesis unfolding sample_state_def sample_calls_def by (simp only: fold.simps comp_def id_def step_call)
qed

section \<open>Properties\<close>

text \<open>C26: in every reachable allocator no two root allocations share a byte, every allocation lies
  within the capacity and ends at or below the peak, the address rows list the allocations in address order
  and the free extents are exactly the bytes no root allocation takes, in maximal runs.\<close>

theorem allocator_reachable_invariant:
  assumes "reach alloc_start alloc_step s"
  shows "(\<forall>k k' a a'. map_of (al_allocations s) k = Some a \<and> map_of (al_allocations s) k' = Some a' \<and> k \<noteq> k' \<and>
        pa_alias_of a = None \<and> pa_alias_of a' = None \<longrightarrow> {pa_base a..<pa_end a} \<inter> {pa_base a'..<pa_end a'} = {})
    \<and> (\<forall>k a. map_of (al_allocations s) k = Some a \<longrightarrow> 0 \<le> pa_base a \<and> 0 < pa_size a \<and> pa_end a \<le> al_capacity s
        \<and> (pa_alias_of a = None \<longrightarrow> pa_end a \<le> al_peak s))
    \<and> al_peak s \<le> al_capacity s
    \<and> sorted_wrt (\<lambda>a b. address_key a < address_key b) (al_address_rows s) \<and> set (al_address_rows s) = ran (map_of (al_allocations s))
    \<and> (\<exists>gaps. al_free s = Some gaps \<and> canonical gaps \<and> covered gaps = {0..<al_capacity s} - root_bytes (map_of (al_allocations s))
        \<and> al_fits s = filter (fit_gap (al_alignment s)) gaps)"
proof -
  have inv: "alloc_inv s" by (rule alloc_journal.reach_inv [OF assms])
  note iv = alloc_invD [OF inv]
  have ap: "roots_apart (map_of (al_allocations s))" using image_okD(3) [OF iv(3)] by (simp only: image_fst)
  show ?thesis
  proof (intro conjI)
    show "\<forall>k k' a a'. map_of (al_allocations s) k = Some a \<and> map_of (al_allocations s) k' = Some a' \<and> k \<noteq> k' \<and>
        pa_alias_of a = None \<and> pa_alias_of a' = None \<longrightarrow> {pa_base a..<pa_end a} \<inter> {pa_base a'..<pa_end a'} = {}"
      using roots_apartD [OF ap] by blast
    show "\<forall>k a. map_of (al_allocations s) k = Some a \<longrightarrow> 0 \<le> pa_base a \<and> 0 < pa_size a \<and> pa_end a \<le> al_capacity s
        \<and> (pa_alias_of a = None \<longrightarrow> pa_end a \<le> al_peak s)"
      using entry_okD(2-4,9) [OF entry_of [OF inv]] by blast
  qed (use iv(4,7) in \<open>simp_all add: indexed_def rows_index_def\<close>)
qed

theorem allocator_reachable_invariant_witness:
  "\<exists>gaps. al_free sample_state = Some gaps \<and> canonical gaps \<and> al_peak sample_state \<le> 64"
proof -
  have "al_capacity sample_state = 64" by code_simp
  with allocator_reachable_invariant [OF sample_reach] show ?thesis by auto
qed

text \<open>C27: a new allocation without an address of its own is placed at the least aligned base of
  its arena whose extent touches no root allocation, and is refused, changing nothing, exactly when
  no such base exists.\<close>

theorem allocate_first_fit:
  assumes "reach alloc_start alloc_step s" "request_checks q = Inr k" "map_of (al_allocations s) k = None"
    "aq_alias_of q = None" "aq_address q = None" "arena_bounds (aq_generation q) (aq_arena q) s = (lo, hi)"
  shows "case fst (allocate q s) of
      Inl e \<Rightarrow> snd (allocate q s) = s \<and> (\<forall>c. \<not> fits_at (s, aq_size q, lo, hi) c)
    | Inr a \<Rightarrow> fits_at (s, aq_size q, lo, hi) (pa_base a) \<and> (\<forall>c. fits_at (s, aq_size q, lo, hi) c \<longrightarrow> pa_base a \<le> c)
        \<and> pa_size a = aq_size q \<and> map_of (al_allocations (snd (allocate q s))) = (map_of (al_allocations s))(k \<mapsto> a)"
proof -
  have inv: "alloc_inv s" by (rule alloc_journal.reach_inv [OF assms(1)])
  have v: "fit_valid (s, aq_size q, lo, hi)" by (rule fit_valid_arena [OF inv request_checksD(4) [OF assms(2)] assms(6)])
  have al: "fst (resolved_alias q) = None" by (simp add: resolved_alias_def assms(4))
  have p: "place_new q s = (case gap_search (s, aq_size q, lo, hi) of
      None \<Rightarrow> Inl (Allocation_Error ''unable to allocate'') | Some base \<Rightarrow> Inr (base, aq_arena q))"
    by (simp add: place_new_def al assms(5) find_first_fit_search [OF inv assms(6)] split: option.splits)
  show ?thesis
  proof (cases "gap_search (s, aq_size q, lo, hi)")
    case None
    then have "allocate q s = (Inl (Allocation_Error ''unable to allocate''), s)"
      using p assms(2,3) by (simp add: allocate_def)
    then show ?thesis using gap_fit.search_None [OF v] None by simp
  next
    case (Some c)
    let ?a = "new_allocation q k (c, aq_arena q)"
    have pl: "place_new q s = Inr (c, aq_arena q)" using p Some by simp
    have "allocate q s = (Inr ?a, store_allocation k ?a s)" using pl assms(2,3) by (simp add: allocate_def)
    moreover have "al_allocations (store_allocation k ?a s) = AList.update k ?a (al_allocations s)"
      using allocate_absent [OF inv assms(2,3) pl] by (simp add: stored_as_def)
    moreover have "pa_base ?a = c" "pa_size ?a = aq_size q" by (simp_all add: new_allocation_def)
    ultimately show ?thesis using gap_fit.search_Some [OF v, of c] Some by (simp add: update_conv')
  qed
qed

theorem allocate_first_fit_witness:
  "fits_at (sample_state, 10, 0, 48) 0 \<and> \<not> fits_at (sample_state, 32, 0, 48) 16"
proof -
  let ?q = "sample_request ''act'' 10" and ?r = "sample_request ''act'' 32"
  have r: "request_checks ?q = Inr (''act'', 0)" "request_checks ?r = Inr (''act'', 0)" by code_simp+
  have new: "map_of (al_allocations sample_state) (''act'', 0) = None" by code_simp
  have ab: "arena_bounds (aq_generation ?q) (aq_arena ?q) sample_state = (0, 48)"
    "arena_bounds (aq_generation ?r) (aq_arena ?r) sample_state = (0, 48)" by code_simp+
  have d: "aq_alias_of ?q = None" "aq_address ?q = None" "aq_alias_of ?r = None" "aq_address ?r = None"
    "aq_size ?q = 10" "aq_size ?r = 32" by (simp_all add: sample_request_def)
  have run: "map_sum (\<lambda>_. ()) pa_base (fst (allocate ?q sample_state)) = Inr 0"
    "map_sum (\<lambda>_. ()) pa_base (fst (allocate ?r sample_state)) = Inl ()" by code_simp+
  show ?thesis
    using allocate_first_fit [OF sample_reach r(1) new d(1,2) ab(1)] allocate_first_fit [OF sample_reach r(2) new d(3,4) ab(2)] run
    unfolding d(5,6) by (auto split: sum.splits)
qed

text \<open>C31: the search of the free extents and the fallback scan of the address rows find the same
  base in every reachable allocator.\<close>

theorem first_fit_scans_agree:
  assumes "reach alloc_start alloc_step s" "0 < sz" "arena_bounds g r s = (lo, hi)"
  shows "gap_first_fit sz lo hi s = row_first_fit sz lo hi s"
  using searches_agree [OF fit_valid_arena [OF alloc_journal.reach_inv [OF assms(1)] assms(2,3)]]
  by (simp add: gap_search_def row_search_def)

theorem first_fit_scans_agree_witness:
  "gap_first_fit 10 0 48 sample_state = row_first_fit 10 0 48 sample_state"
proof -
  have "arena_bounds 0 None sample_state = (0, 48)" by code_simp
  from first_fit_scans_agree [OF sample_reach _ this, of 10] show ?thesis by simp
qed

text \<open>C28: rolling back to a checkpoint after any further operations, nested checkpoints and
  rollbacks among them, restores the allocations with their order, the address rows, the free
  extents, the alias index and the peak of the moment the checkpoint was begun, as long as the
  checkpoint is retained.\<close>

theorem allocator_rollback_restores:
  assumes "reach alloc_start alloc_step s" "begin_save s = (h, s0)" "alloc_step\<^sup>*\<^sup>* s0 t" "map_of (al_saves t) h \<noteq> None"
  defines "u \<equiv> rollback_save h t"
  shows "al_allocations u = al_allocations s \<and> map_of (al_order u) = map_of (al_order s)
    \<and> al_address_rows u = al_address_rows s \<and> al_address_keys u = al_address_keys s \<and> al_free u = al_free s
    \<and> al_fits u = al_fits s \<and> map_of (al_aliases u) = map_of (al_aliases s) \<and> al_peak u = al_peak s"
proof -
  have inv: "alloc_inv s" by (rule alloc_journal.reach_inv [OF assms(1)])
  have sv: "alloc_saved t h \<noteq> None" using assms(4) by (auto simp: alloc_saved_def)
  have "alloc_inv u" "alloc_content u = alloc_content s"
    using alloc_journal.restore_run [OF inv assms(2,3) sv] by (simp_all add: u_def)
  from content_determines [OF inv this] show ?thesis by (simp add: same_indexes_def)
qed

theorem allocator_rollback_restores_witness:
  "al_allocations (rollback_save 0 (apply_call (Call_Release ''view'' 0) (snd (begin_save sample_state)))) =
    al_allocations sample_state"
proof -
  have b: "begin_save sample_state = (0, snd (begin_save sample_state))" by code_simp
  have "map_of (al_saves (apply_call (Call_Release ''view'' 0) (snd (begin_save sample_state)))) 0 \<noteq> None" by code_simp
  from allocator_rollback_restores [OF sample_reach b r_into_rtranclp [where r = alloc_step, OF call] this]
  show ?thesis by simp
qed

text \<open>C29: following the aliases of an access within a registered allocation ends at a live root
  allocation, with an offset that names the same bytes in it.\<close>

theorem canonical_range_same_bytes:
  assumes "reach alloc_start alloc_step s" "address_of b offset sz g s = Inr addr"
  shows "\<exists>rb rg ro r. canonical_range b offset sz g s = Inr (rb, rg, ro) \<and> map_of (al_allocations s) (rb, rg) = Some r
    \<and> pa_alias_of r = None \<and> address_of rb ro sz rg s = Inr addr"
proof -
  have inv: "alloc_inv s" by (rule alloc_journal.reach_inv [OF assms(1)])
  obtain a where a: "lookup_allocation b g s = Inr a" "allocation_address a offset sz = Inr addr"
    using assms(2) by (auto simp: address_of_def rbind_eq_Inr)
  obtain k where k: "map_of (al_allocations s) k = Some a"
    using a(1) by (auto simp: lookup_allocation_def get_allocation_def rbind_eq_Inr split: option.splits)
  obtain rk r where r: "follow_aliases s {} a offset = Inr (fst rk, snd rk, pa_base a + offset - pa_base r)"
    "map_of (al_allocations s) rk = Some r" "pa_alias_of r = None" "pa_base r \<le> pa_base a" "pa_end a \<le> pa_end r"
    using follow_ok [OF inv k, of "{}" offset] by blast
  have ad: "addr = pa_base a + offset" "0 \<le> offset" "0 < sz" "offset + sz \<le> pa_size a"
    using a(2) by (auto simp: allocation_address_def split: if_split_asm)
  have "allocation_address r (pa_base a + offset - pa_base r) sz = Inr addr"
    using ad r(4,5) by (auto simp: allocation_address_def pa_end_def)
  moreover have "lookup_allocation (fst rk) (snd rk) s = Inr r"
  proof -
    note e = entry_okD [OF entry_of [OF inv r(2)]]
    have "fst rk = pa_buffer r" "snd rk = pa_generation r" using e(1) by (auto simp: pa_key_def)
    then show ?thesis using e(6-8) r(2) e(1) by (simp add: lookup_allocation_def get_allocation_def alloc_key_of_def pa_key_def)
  qed
  moreover have "canonical_range b offset sz g s = Inr (fst rk, snd rk, pa_base a + offset - pa_base r)"
    using a r(1) by (simp add: canonical_range_def)
  ultimately show ?thesis using r(2,3)
    by (intro exI [of _ "fst rk"] exI [of _ "snd rk"] exI [of _ "pa_base a + offset - pa_base r"] exI [of _ r])
      (simp add: address_of_def)
qed

theorem canonical_range_same_bytes_witness:
  "canonical_range ''view'' 1 2 0 sample_state = Inr (''kv'', 0, 3) \<and>
   (\<exists>rb rg ro r. canonical_range ''view'' 1 2 0 sample_state = Inr (rb, rg, ro) \<and> pa_alias_of (r :: allocation) = None)"
proof -
  have "address_of ''view'' 1 2 0 sample_state = Inr 19" by code_simp
  from canonical_range_same_bytes [OF sample_reach this]
  have "\<exists>rb rg ro r. canonical_range ''view'' 1 2 0 sample_state = Inr (rb, rg, ro) \<and> pa_alias_of (r :: allocation) = None"
    by blast
  moreover have "canonical_range ''view'' 1 2 0 sample_state = Inr (''kv'', 0, 3)" by code_simp
  ultimately show ?thesis by blast
qed

text \<open>C32: releasing a registered buffer is refused, changing nothing, exactly while some live
  allocation aliases it; otherwise it removes that allocation only, and the bytes of a released
  root become free again.\<close>

theorem release_live_aliases:
  assumes "reach alloc_start alloc_step s" "alloc_key_of b g = Inr k" "map_of (al_allocations s) k = Some a"
  shows "if \<exists>k' a'. map_of (al_allocations s) k' = Some a' \<and> alias_target a' = Some (fst k, Some (snd k))
    then (\<exists>e. release_allocation b g s = (Inl e, s))
    else fst (release_allocation b g s) = Inr ()
      \<and> map_of (al_allocations (snd (release_allocation b g s))) = (map_of (al_allocations s))(k := None)
      \<and> (pa_alias_of a = None \<longrightarrow> (\<exists>gaps. al_free (snd (release_allocation b g s)) = Some gaps \<and> {pa_base a..<pa_end a} \<subseteq> covered gaps))"
proof -
  have inv: "alloc_inv s" by (rule alloc_journal.reach_inv [OF assms(1)])
  note iv = alloc_invD [OF inv]
  have k: "k = (strip b, g)" using assms(2) by (auto simp: alloc_key_of_def split: if_split_asm)
  let ?live = "\<exists>k' a'. map_of (al_allocations s) k' = Some a' \<and> alias_target a' = Some (fst k, Some (snd k))"
  have al: "map_of (al_aliases s) = alias_index (map_of (al_allocations s))" using iv(4) by (simp add: indexed_def)
  have live: "?live \<longleftrightarrow> alias_index (map_of (al_allocations s)) (fst k, Some (snd k)) \<noteq> None"
    unfolding alias_index_None by blast
  show ?thesis
  proof (cases ?live)
    case True
    then have "alias_index (map_of (al_allocations s)) (fst k, Some (snd k)) \<noteq> None" using live by blast
    moreover then have "alias_index (map_of (al_allocations s)) (fst k, Some (snd k)) \<noteq> Some {}"
      by (auto simp: alias_index_def Let_def split: if_splits)
    ultimately have "\<exists>e. release_allocation b g s = (Inl e, s)" using assms(2,3) al by (simp add: release_allocation_def)
    then show ?thesis unfolding if_P [OF True] .
  next
    case False
    have none: "alias_index (map_of (al_allocations s)) (strip b, Some g) = None"
      by (rule ccontr) (use False live in \<open>simp only: k fst_conv snd_conv not_not HOL.simp_thms\<close>)
    have "\<nexists>e. release_allocation b g s = (Inl e, s)"
      using assms(2,3) al none k by (simp add: release_allocation_def Let_def)
    then obtain t where t: "release_allocation b g s = (Inr (), t)" "removed (strip b, g) s t"
      using release_ok [OF inv, of b g] assms(3) k by auto
    have m: "map_of (al_allocations t) = (map_of (al_allocations s))(k := None)"
      using t(2) k by (simp add: removed_def delete_conv')
    have "\<exists>gaps. al_free t = Some gaps \<and> {pa_base a..<pa_end a} \<subseteq> covered gaps" if root: "pa_alias_of a = None"
    proof -
      have it: "alloc_inv t" and jt: "journalled s t" using t(2) by (simp_all add: removed_def)
      obtain gaps where gaps: "al_free t = Some gaps"
        "covered gaps = {0..<al_capacity t} - root_bytes (map_of (al_allocations t))" by (rule free_gaps [OF it])
      have ap: "roots_apart (map_of (al_allocations s))" using image_okD(3) [OF iv(3)] by (simp only: image_fst)
      have "{pa_base a..<pa_end a} \<inter> root_bytes ((map_of (al_allocations s))(k := None)) = {}"
      proof (rule not_in_root_bytes)
        fix k' a' assume "((map_of (al_allocations s))(k := None)) k' = Some a'" "pa_alias_of a' = None"
        then show "{pa_base a..<pa_end a} \<inter> {pa_base a'..<pa_end a'} = {}"
          using roots_apartD [OF ap assms(3), of k' a'] root by (cases "k' = k") auto
      qed
      moreover have "{pa_base a..<pa_end a} \<subseteq> {0..<al_capacity t}"
        using entry_okD(3,4) [OF entry_of [OF inv assms(3)]] jt by (auto simp: journalled_def)
      ultimately show ?thesis using gaps unfolding m by blast
    qed
    then show ?thesis unfolding if_not_P [OF False] using m t(1) by simp
  qed
qed

theorem release_live_aliases_witness:
  "(\<exists>e. release_allocation ''kv'' 0 sample_state = (Inl e, sample_state)) \<and>
   fst (release_allocation ''view'' 0 sample_state) = Inr ()"
proof -
  have k: "alloc_key_of ''kv'' 0 = Inr (''kv'', 0)" "alloc_key_of ''view'' 0 = Inr (''view'', 0)" by code_simp+
  have "map_of (al_allocations sample_state) (''kv'', 0) \<noteq> None" by code_simp
  then obtain kv where kv: "map_of (al_allocations sample_state) (''kv'', 0) = Some kv" by blast
  have v: "map_option alias_target (map_of (al_allocations sample_state) (''view'', 0)) = Some (Some (''kv'', Some 0))" by code_simp
  then obtain view where view: "map_of (al_allocations sample_state) (''view'', 0) = Some view" by blast
  have "alias_target view = Some (''kv'', Some 0)" using v view by simp
  then have l: "\<exists>k' a'. map_of (al_allocations sample_state) k' = Some a' \<and>
      alias_target a' = Some (fst (''kv'', 0 :: int), Some (snd (''kv'' :: string, 0)))" using view by (intro exI) simp
  have n: "\<not> (\<exists>k' a'. map_of (al_allocations sample_state) k' = Some a' \<and>
      alias_target a' = Some (fst (''view'', 0 :: int), Some (snd (''view'' :: string, 0))))"
  proof -
    have "list_all (\<lambda>(k, a). alias_target a \<noteq> Some (''view'', Some 0)) (al_allocations sample_state)" by code_simp
    then show ?thesis by (auto simp: list_all_iff dest!: map_of_SomeD)
  qed
  show ?thesis
    using release_live_aliases [OF sample_reach k(1) kv, unfolded if_P [OF l]]
      release_live_aliases [OF sample_reach k(2) view, unfolded if_not_P [OF n]] by blast
qed

end
