(* ===== verification/Allocator_Snapshot.thy ===== *)
theory Allocator_Snapshot
  imports Allocator_Props
begin

text \<open>
  Snapshots list the allocations in address order; reading one back must find an order in which
  every alias follows its target. The theory also states what an allocation returns.
\<close>

section \<open>The order of a snapshot's items\<close>

definition target_key :: "allocation \<Rightarrow> alloc_key option" where
  "target_key a = target_of (pa_alias_of a) (pa_alias_generation a) (pa_generation a)"

definition ready :: "alloc_key set \<Rightarrow> allocation \<Rightarrow> bool" where
  "ready A a \<longleftrightarrow> (case target_key a of None \<Rightarrow> True | Some t \<Rightarrow> t \<in> A)"

fun in_order :: "alloc_key set \<Rightarrow> allocation list \<Rightarrow> bool" where
  "in_order A [] \<longleftrightarrow> True"
| "in_order A (a # as) \<longleftrightarrow> ready A a \<and> in_order (insert (pa_key a) A) as"

lemma ready_mono: "ready A a \<Longrightarrow> A \<subseteq> B \<Longrightarrow> ready B a"
  by (auto simp: ready_def split: option.splits)

lemma in_order_append: "in_order A (xs @ ys) \<longleftrightarrow> in_order A xs \<and> in_order (A \<union> pa_key ` set xs) ys"
  by (induction xs arbitrary: A) (simp_all add: insert_commute Un_insert_left)

lemma snapshot_pass_stored:
  "\<exists>done late. snapshot_pass (map Stored as) A = Inr (map Stored done, map Stored late, A \<union> pa_key ` set done) \<and>
     mset as = mset done + mset late \<and> in_order A done \<and> (\<forall>a \<in> set late. \<not> ready A a)"
proof (induction as arbitrary: A)
  case (Cons a as)
  have l: "item_links (Stored a) = Inr (pa_key a, target_key a)" by (simp add: item_links_def target_key_def)
  have c: "(case target_key a of None \<Rightarrow> False | Some t \<Rightarrow> t \<notin> A) \<longleftrightarrow> \<not> ready A a"
    by (simp add: ready_def split: option.splits)
  show ?case
  proof (cases "ready A a")
    case True
    obtain d l where IH: "snapshot_pass (map Stored as) (insert (pa_key a) A) =
        Inr (map Stored d, map Stored l, insert (pa_key a) A \<union> pa_key ` set d)"
      "mset as = mset d + mset l" "in_order (insert (pa_key a) A) d" "\<forall>a' \<in> set l. \<not> ready (insert (pa_key a) A) a'"
      using Cons.IH [of "insert (pa_key a) A"] by blast
    have "\<forall>a' \<in> set l. \<not> ready A a'" using IH(4) ready_mono [of A _ "insert (pa_key a) A"] by blast
    then show ?thesis using IH True c l by (intro exI [of _ "a # d"] exI [of _ l]) simp
  next
    case False
    obtain d l where IH: "snapshot_pass (map Stored as) A = Inr (map Stored d, map Stored l, A \<union> pa_key ` set d)"
      "mset as = mset d + mset l" "in_order A d" "\<forall>a' \<in> set l. \<not> ready A a'"
      using Cons.IH [of A] by blast
    then show ?thesis using False c l by (intro exI [of _ d] exI [of _ "a # l"]) simp
  qed
qed simp

text \<open>Items whose targets come with smaller ordinals are ordered in finitely many passes.\<close>

definition grounded :: "(alloc_key \<Rightarrow> int) \<Rightarrow> alloc_key set \<Rightarrow> allocation set \<Rightarrow> bool" where
  "grounded ord A P \<longleftrightarrow> (\<forall>a \<in> P. case target_key a of None \<Rightarrow> True
     | Some t \<Rightarrow> t \<in> A \<or> (\<exists>b \<in> P. pa_key b = t \<and> ord t < ord (pa_key a)))"

lemma snapshot_order_stored:
  assumes "grounded ord A (set as)"
  shows "\<exists>done. snapshot_order (map Stored as) A = Inr (map Stored done) \<and> mset done = mset as \<and> in_order A done"
  using assms
proof (induction "length as" arbitrary: as A rule: less_induct)
  case less
  show ?case
  proof (cases "as = []")
    case True
    then show ?thesis by (subst snapshot_order.simps) simp
  next
    case False
    obtain d l where p: "snapshot_pass (map Stored as) A = Inr (map Stored d, map Stored l, A \<union> pa_key ` set d)"
      "mset as = mset d + mset l" "in_order A d" "\<forall>a \<in> set l. \<not> ready A a"
      using snapshot_pass_stored [of as A] by blast
    have sets: "set as = set d \<union> set l" using arg_cong [OF p(2), of set_mset] by simp
    have len: "length as = length d + length l" using arg_cong [OF p(2), of size] by simp
    have "d \<noteq> []"
    proof
      assume "d = []"
      then have all: "\<not> ready A a" if "a \<in> set as" for a using p(4) sets that by simp
      let ?m = "Min (ord ` pa_key ` set as)"
      have "?m \<in> ord ` pa_key ` set as" using False by (intro Min_in) simp_all
      then obtain a where a: "a \<in> set as" "ord (pa_key a) = ?m" by auto
      then obtain t where t: "target_key a = Some t" "t \<notin> A" using all [OF a(1)] by (auto simp: ready_def split: option.splits)
      then obtain b where b: "b \<in> set as" "pa_key b = t" "ord t < ord (pa_key a)"
        using less.prems a(1) by (fastforce simp: grounded_def)
      then have "?m \<le> ord (pa_key b)" by (intro Min_le) blast+
      then show False using a(2) b by simp
    qed
    then have lt: "length l < length as" using len by (cases d) simp_all
    have "grounded ord (A \<union> pa_key ` set d) (set l)"
      unfolding grounded_def
    proof
      fix a assume a: "a \<in> set l"
      then have "a \<in> set as" using sets by blast
      then have g: "case target_key a of None \<Rightarrow> True | Some t \<Rightarrow> t \<in> A \<or> (\<exists>b \<in> set as. pa_key b = t \<and> ord t < ord (pa_key a))"
        using less.prems unfolding grounded_def by blast
      show "case target_key a of None \<Rightarrow> True
        | Some t \<Rightarrow> t \<in> A \<union> pa_key ` set d \<or> (\<exists>b \<in> set l. pa_key b = t \<and> ord t < ord (pa_key a))"
      proof (cases "target_key a")
        case (Some t)
        then show ?thesis using g unfolding sets by auto
      qed simp
    qed
    from less.hyps [OF lt this] obtain r where r: "snapshot_order (map Stored l) (A \<union> pa_key ` set d) = Inr (map Stored r)"
      "mset r = mset l" "in_order (A \<union> pa_key ` set d) r" by blast
    have "snapshot_order (map Stored as) A = Inr (map Stored (d @ r))"
      by (subst snapshot_order.simps) (use False p(1) lt r(1) in simp)
    then show ?thesis using p(2,3) r(2,3) by (intro exI [of _ "d @ r"]) (simp add: in_order_append)
  qed
qed


section \<open>Storing the items\<close>

definition built_from :: "allocator \<Rightarrow> alloc_key set \<Rightarrow> allocator \<Rightarrow> bool" where
  "built_from s A t \<longleftrightarrow> alloc_inv t \<and> map_of (al_allocations t) = map_of (al_allocations s) |` A \<and> al_saves t = [] \<and>
     al_capacity t = al_capacity s \<and> al_workspace t = al_workspace s \<and> al_alignment t = al_alignment s"

lemma target_key_Some:
  assumes "alloc_inv s" "map_of (al_allocations s) k = Some a" "pa_alias_of a = Some b"
  obtains g t where "pa_alias_generation a = Some g" "target_key a = Some (b, g)"
    "map_of (al_allocations s) (b, g) = Some t" "order_of s (b, g) < order_of s k" "0 \<le> g" "strip b = b"
    "pa_base a = pa_base t + pa_alias_offset a" "0 \<le> pa_alias_offset a" "pa_end a \<le> pa_end t"
proof -
  have "alias_ok (image_of s) k a b" using entry_okD(11) [OF entry_of [OF assms(1,2)]] assms(3) by blast
  then obtain g t n m where x: "pa_alias_generation a = Some g" "0 \<le> g" "strip b = b" "image_of s (b, g) = (Some t, Some n)"
    "snd (image_of s k) = Some m" "n < m" "pa_base a = pa_base t + pa_alias_offset a" "0 \<le> pa_alias_offset a" "pa_end a \<le> pa_end t"
    unfolding alias_ok_def by blast
  then have t: "map_of (al_allocations s) (b, g) = Some t" "map_of (al_order s) (b, g) = Some n" "map_of (al_order s) k = Some m"
    by (simp_all add: image_of_def before_image_of_def)
  have "target_key a = Some (b, g)" using x(1) assms(3) by (simp add: target_key_def target_of_def field_or_def)
  then show ?thesis using that x t by (simp add: order_of_def)
qed

lemma store_new_ok:
  assumes s: "alloc_inv s" and t: "built_from s A t" and a: "map_of (al_allocations s) k = Some a" "k \<notin> A" "ready A a"
  shows "store_item (Stored a) t = Inr (store_allocation k a t) \<and> built_from s (insert k A) (store_allocation k a t)"
proof -
  have it: "alloc_inv t" and m: "map_of (al_allocations t) = map_of (al_allocations s) |` A" and sv: "al_saves t = []"
    and g: "al_capacity t = al_capacity s" "al_workspace t = al_workspace s" "al_alignment t = al_alignment s"
    using t by (simp_all add: built_from_def)
  note e = entry_okD [OF entry_of [OF s a(1)]] and iv = alloc_invD [OF it]
  have new: "map_of (al_allocations t) k = None" using a(2) by (simp add: m)
  have nx: "map_of (al_order t) k = None" using order_dom [OF iv(3), of k] new by simp
  let ?n = "al_next_order t"
  let ?p = "if pa_alias_of a = None then max (al_peak t) (pa_end a) else al_peak t"
  have n: "(case map_of (al_order t) k of None \<Rightarrow> ?n | Some n \<Rightarrow> n) = ?n" by (simp add: nx)
  have ab: "arena_bounds x y t = arena_bounds x y s" for x y unfolding arena_bounds_def g by (rule refl)
  have si: "store_item (Stored a) t = Inr (store_allocation k a t)"
  proof (cases "pa_alias_of a")
    case None
    then show ?thesis using e(1) by (simp add: store_item_def)
  next
    case (Some b)
    obtain gn where "pa_alias_generation a = Some gn" by (rule target_key_Some [OF s a(1) Some])
    then show ?thesis using e(1) by (simp add: store_item_def)
  qed
  have "entry_ok t ?p ((image_of t)(k := (Some a, Some ?n))) k a"
  proof (cases "pa_alias_of a")
    case None
    have "in_arena t a" using e(10) [OF None] unfolding in_arena_def ab .
    then show ?thesis using None e by (simp add: entry_ok_def g)
  next
    case (Some b)
    obtain gn tg where x: "pa_alias_generation a = Some gn" "target_key a = Some (b, gn)"
      "map_of (al_allocations s) (b, gn) = Some tg" "0 \<le> gn" "strip b = b"
      "pa_base a = pa_base tg + pa_alias_offset a" "0 \<le> pa_alias_offset a" "pa_end a \<le> pa_end tg"
      by (rule target_key_Some [OF s a(1) Some])
    have inA: "(b, gn) \<in> A" using a(3) x(2) by (simp add: ready_def)
    then have tg: "map_of (al_allocations t) (b, gn) = Some tg" using x(3) by (simp add: m)
    obtain i where i: "map_of (al_order t) (b, gn) = Some i" using order_dom [OF iv(3), of "(b, gn)"] tg by auto
    have "i < ?n" using iv(2) i unfolding ordered_def by blast
    moreover have "(b, gn) \<noteq> k" using inA a(2) by blast
    ultimately have "alias_ok ((image_of t)(k := (Some a, Some ?n))) k a b"
      unfolding alias_ok_def
      by (intro exI [of _ gn] exI [of _ tg] exI [of _ i] exI [of _ ?n])
        (use x tg i in \<open>simp add: image_of_def before_image_of_def\<close>)
    then show ?thesis using Some e(1,3,4,6-8) e(2) by (simp add: entry_ok_def g)
  qed
  moreover have "{pa_base a..<pa_end a} \<inter> {pa_base a'..<pa_end a'} = {}"
    if r: "pa_alias_of a = None" "k' \<noteq> k" "map_of (al_allocations t) k' = Some a'" "pa_alias_of a' = None" for k' a'
  proof -
    have ap: "roots_apart (map_of (al_allocations s))" using image_okD(3) [OF alloc_invD(3) [OF s]] by (simp only: image_fst)
    have "map_of (al_allocations s) k' = Some a'" using r(3) unfolding m by (simp add: restrict_map_def split: if_splits)
    then show ?thesis using roots_apartD [OF ap a(1)] r by blast
  qed
  ultimately have "map_of (al_allocations t) k = Some a \<and> store_allocation k a t = t \<or> stored_as k a ?n t (store_allocation k a t)"
    using store_allocation_ok [where k = k and a = a, OF it] new unfolding n by auto
  then have st: "stored_as k a ?n t (store_allocation k a t)" using new by simp
  then have j: "journalled t (store_allocation k a t)" "alloc_inv (store_allocation k a t)"
    "al_allocations (store_allocation k a t) = AList.update k a (al_allocations t)" by (simp_all add: stored_as_def)
  have "map_of (al_allocations (store_allocation k a t)) = map_of (al_allocations s) |` insert k A"
    unfolding j(3) update_conv' m using a(1) by (auto simp: restrict_map_def fun_eq_iff simp del: split_paired_All)
  moreover have "al_saves (store_allocation k a t) = []" using j(1) sv by (simp add: journalled_def)
  ultimately show ?thesis using si j g by (simp add: built_from_def journalled_def)
qed

lemma store_items_ok:
  assumes s: "alloc_inv s" and t: "built_from s A t" and as: "in_order A as" "distinct (map pa_key as)"
    "pa_key ` set as \<inter> A = {}" "\<forall>a \<in> set as. map_of (al_allocations s) (pa_key a) = Some a"
  shows "\<exists>u. store_items (map Stored as) t = Inr u \<and> built_from s (A \<union> pa_key ` set as) u"
  using t as
proof (induction as arbitrary: A t)
  case (Cons a as)
  have a: "map_of (al_allocations s) (pa_key a) = Some a" "pa_key a \<notin> A" "ready A a" using Cons.prems by simp_all
  note st = store_new_ok [OF s Cons.prems(1) a]
  have "pa_key ` set as \<inter> insert (pa_key a) A = {}" using Cons.prems(3,4) by auto
  with Cons.IH [of "insert (pa_key a) A" "store_allocation (pa_key a) a t"] st Cons.prems
  obtain u where "store_items (map Stored as) (store_allocation (pa_key a) a t) = Inr u"
    "built_from s (insert (pa_key a) A \<union> pa_key ` set as) u" by auto
  then show ?case using st by simp
qed simp


lemma rows_distinct_keys:
  assumes "indexed M s"
  shows "distinct (map pa_key (al_address_rows s))"
proof -
  have "sorted_wrt (<) (map address_key (al_address_rows s))" using assms by (simp add: indexed_def rows_index_def sorted_wrt_map)
  then have d: "distinct (al_address_rows s)" by (metis distinct_map strict_sorted_iff)
  have k: "M (pa_key a) = Some a" if "a \<in> set (al_address_rows s)" for a
    using assms that by (auto simp: indexed_def rows_index_def ran_def keyed_def simp del: split_paired_Ex)
  have "inj_on pa_key (set (al_address_rows s))" by (rule inj_onI) (metis k option.inject)
  then show ?thesis using d by (simp add: distinct_map)
qed

lemma rows_grounded:
  assumes "alloc_inv s"
  shows "grounded (order_of s) {} (set (al_address_rows s))"
  unfolding grounded_def
proof
  note iv = alloc_invD [OF assms]
  fix a assume "a \<in> set (al_address_rows s)"
  then obtain k where k: "map_of (al_allocations s) k = Some a"
    unfolding rows_of_map [OF iv(4)] ran_def by blast
  have key: "pa_key a = k" by (rule entry_okD(1) [OF entry_of [OF assms k]])
  show "case target_key a of None \<Rightarrow> True
    | Some t \<Rightarrow> t \<in> {} \<or> (\<exists>b \<in> set (al_address_rows s). pa_key b = t \<and> order_of s t < order_of s (pa_key a))"
  proof (cases "pa_alias_of a")
    case None
    then show ?thesis by (simp add: target_key_def target_of_def)
  next
    case (Some b)
    obtain g t where t: "target_key a = Some (b, g)" "map_of (al_allocations s) (b, g) = Some t"
      "order_of s (b, g) < order_of s k" by (rule target_key_Some [OF assms k Some])
    have "t \<in> set (al_address_rows s)" unfolding rows_of_map [OF iv(4)] by (rule ranI [where a = "(b, g)"], rule t(2))
    moreover have "pa_key t = (b, g)" by (rule entry_okD(1) [OF entry_of [OF assms t(2)]])
    ultimately show ?thesis unfolding t(1) option.case using t(3) key by blast
  qed
qed

lemma restore_same:
  assumes "alloc_inv t" "al_saves t = []" "indexed (map_of (al_allocations t)) s"
    "al_capacity t = al_capacity s" "al_alignment t = al_alignment s" "al_workspace t = al_workspace s"
  defines "u \<equiv> restore_allocations (al_allocations t) t"
  shows "al_allocations u = al_allocations t \<and> same_indexes s u \<and> snapshot_allocator u = snapshot_allocator s"
proof -
  define v where "v = t\<lparr>al_native_keys := False, al_allocations := al_allocations t,
     al_order := zip (map fst (al_allocations t)) (map int [0..<length (al_allocations t)]),
     al_next_order := int (length (al_allocations t))\<rparr>"
  have u: "u = rebuild_indexes v" unfolding u_def restore_allocations_def Let_def v_def by (simp add: assms(2))
  note iv = alloc_invD [OF assms(1)]
  have wf: "wf_dict (al_allocations v)" using iv(2) by (simp add: v_def ordered_def)
  have ky: "keyed (map_of (al_allocations v))" using iv(4) by (simp add: v_def indexed_def)
  have ap: "roots_apart (map_of (al_allocations v))" using image_okD(3) [OF iv(3)] by (simp only: image_fst) (simp add: v_def)
  have cap: "0 < al_capacity v" "0 < al_alignment v" using iv(1) by (simp_all add: v_def geometry_ok_def)
  have bd: "\<forall>k a. map_of (al_allocations v) k = Some a \<longrightarrow> 0 \<le> pa_base a \<and> 0 < pa_size a \<and> pa_end a \<le> al_capacity v"
  proof (intro allI impI)
    fix k a assume "map_of (al_allocations v) k = Some a"
    then have "map_of (al_allocations t) k = Some a" by (simp add: v_def)
    from entry_okD(2-4) [OF entry_of [OF assms(1) this]]
    show "0 \<le> pa_base a \<and> 0 < pa_size a \<and> pa_end a \<le> al_capacity v" by (simp add: v_def)
  qed
  obtain f g al rows n where r: "rebuild_indexes v = v\<lparr>al_free := f, al_fits := g, al_aliases := al,
      al_address_keys := map address_key rows, al_address_rows := rows, al_largest := n\<rparr>"
    "indexed (map_of (al_allocations v)) (rebuild_indexes v)" by (rule rebuild_correct [OF wf ky ap cap bd])
  have uf: "al_allocations u = al_allocations t" "al_capacity u = al_capacity s" "al_alignment u = al_alignment s"
    "al_workspace u = al_workspace s"
    unfolding u r(1) using assms(4-6) by (simp_all add: v_def)
  have "indexed (map_of (al_allocations t)) u" using r(2) unfolding u by (simp add: v_def)
  from indexed_unique [OF assms(3) this uf(2,3)] have "same_indexes s u" .
  then show ?thesis using uf by (simp add: snapshot_allocator_def same_indexes_def)
qed

section \<open>Properties\<close>

text \<open>C30: reading back the snapshot of a reachable allocator succeeds, finds an order in which every
  alias follows its target, and gives an allocator with the same allocations, address rows, free
  extents, alias index and snapshot.\<close>

theorem snapshot_roundtrip:
  assumes "reach alloc_start alloc_step s"
  shows "\<exists>t. from_snapshot (snapshot_allocator s) = Inr t
    \<and> map_of (al_allocations t) = map_of (al_allocations s) \<and> al_address_rows t = al_address_rows s
    \<and> al_free t = al_free s \<and> al_fits t = al_fits s \<and> map_of (al_aliases t) = map_of (al_aliases s)
    \<and> snapshot_allocator t = snapshot_allocator s"
proof -
  have inv: "alloc_inv s" by (rule alloc_journal.reach_inv [OF assms])
  note iv = alloc_invD [OF inv]
  obtain s0 where s0: "new_allocator (al_capacity s) (al_alignment s) (al_workspace s) = Inr s0"
    "al_capacity s0 = al_capacity s" "al_workspace s0 = al_workspace s" "al_alignment s0 = al_alignment s"
    "al_saves s0 = []" "al_allocations s0 = []"
    using iv(1) by (simp add: new_allocator_def geometry_ok_def mod_eq_0_iff_dvd split: if_splits)
  have "alloc_inv s0" using s0(1) by (intro alloc_inv_start) (auto simp: alloc_start_def)
  then have b0: "built_from s {} s0" using s0 by (simp add: built_from_def)
  obtain ord where ord: "snapshot_order (map Stored (al_address_rows s)) {} = Inr (map Stored ord)"
    "mset ord = mset (al_address_rows s)" "in_order {} ord"
    using snapshot_order_stored [OF rows_grounded [OF inv]] by blast
  have so: "set ord = set (al_address_rows s)" using ord(2) by (metis set_mset_mset)
  have di: "distinct (map pa_key ord)"
  proof -
    have "mset (map pa_key ord) = mset (map pa_key (al_address_rows s))" using ord(2) by simp
    then show ?thesis using rows_distinct_keys [OF iv(4)] mset_eq_imp_distinct_iff by blast
  qed
  have all: "\<forall>a \<in> set ord. map_of (al_allocations s) (pa_key a) = Some a"
  proof
    fix a assume "a \<in> set ord"
    then obtain k where k: "map_of (al_allocations s) k = Some a" unfolding so rows_of_map [OF iv(4)] ran_def by blast
    then show "map_of (al_allocations s) (pa_key a) = Some a" using entry_okD(1) [OF entry_of [OF inv k]] by simp
  qed
  obtain t where t: "store_items (map Stored ord) s0 = Inr t" "built_from s ({} \<union> pa_key ` set ord) t"
    using store_items_ok [OF inv b0 ord(3) di _ all] by auto
  have keys: "k \<in> pa_key ` set ord" if "map_of (al_allocations s) k = Some a" for k a
  proof -
    have "a \<in> set ord" unfolding so rows_of_map [OF iv(4)] by (rule ranI [where a = k], rule that)
    then show ?thesis using entry_okD(1) [OF entry_of [OF inv that]] by blast
  qed
  have m: "map_of (al_allocations t) = map_of (al_allocations s)"
  proof
    fix k
    have "map_of (al_allocations t) k = (map_of (al_allocations s) |` (pa_key ` set ord)) k"
      using t(2) by (simp add: built_from_def)
    then show "map_of (al_allocations t) k = map_of (al_allocations s) k"
      using keys [of k] by (cases "map_of (al_allocations s) k") (auto simp: restrict_map_def)
  qed
  have tf: "alloc_inv t" "al_saves t = []" "al_capacity t = al_capacity s" "al_alignment t = al_alignment s"
    "al_workspace t = al_workspace s" using t(2) by (simp_all add: built_from_def)
  have "indexed (map_of (al_allocations t)) s" unfolding m by (rule iv(4))
  note rs = restore_same [OF tf(1,2) this tf(3-5)]
  have "from_snapshot (snapshot_allocator s) = Inr (restore_allocations (al_allocations t) t)"
    using s0(1) ord(1) t(1) by (simp add: from_snapshot_def snapshot_allocator_def)
  then show ?thesis using rs m by (simp add: same_indexes_def)
qed

theorem snapshot_roundtrip_witness:
  "\<exists>t. from_snapshot (snapshot_allocator sample_state) = Inr t \<and> al_address_rows t = al_address_rows sample_state"
  using snapshot_roundtrip [OF sample_reach] by blast

lemma reallocate_size:
  assumes "reallocate q k ex s = Inr a"
  shows "aq_size q \<le> pa_size a \<and> (\<forall>addr. aq_address q = Some addr \<longrightarrow> pa_base a = addr) \<and>
    pa_alias_of a = fst (resolved_alias q)"
proof -
  define arena where "arena = (case aq_arena q of None \<Rightarrow> pa_arena ex | Some r \<Rightarrow> Some r)"
  have ne: "\<not> (aq_arena q \<noteq> None \<and> pa_arena ex \<noteq> None \<and> aq_arena q \<noteq> pa_arena ex)"
    using assms unfolding reallocate_def by (rule contrapos_pn) (simp only: if_P, simp)
  note r = assms [unfolded reallocate_def if_not_P [OF ne] Let_def, folded arena_def, unfolded rbind_eq_Inr]
  from r obtain u where "(if aq_address q \<noteq> None \<and> aq_address q \<noteq> Some (pa_base ex)
      then Inl (Allocation_Error ''allocation address changed'')
      else if pa_alias_of ex \<noteq> fst (resolved_alias q) \<or> pa_alias_generation ex \<noteq> snd (resolved_alias q)
      then Inl (Allocation_Error ''allocation alias changed'')
      else if pa_alias_offset ex \<noteq> aq_alias_offset q
      then Inl (Allocation_Error ''allocation alias offset changed'')
      else if pa_size ex < aq_size q
      then if pa_alias_of ex \<noteq> None \<or> \<not> pa_inferred ex \<or> \<not> aq_inferred q
        then Inl (Allocation_Error ''allocation cannot grow'')
        else rbind (check_arena_extent (pa_base ex) (aq_size q) (aq_generation q) arena s) (\<lambda>_.
          if overlapping (pa_base ex) (aq_size q) (Some k) s \<noteq> []
          then Inl (Allocation_Error ''allocation cannot grow without moving'')
          else Inr (ex\<lparr>pa_size := aq_size q, pa_arena := arena\<rparr>))
      else if aq_size q \<noteq> pa_size ex \<and> (\<not> pa_inferred ex \<or> \<not> aq_inferred q)
      then Inl (Allocation_Error ''allocation size changed'')
      else Inr (ex\<lparr>pa_arena := arena\<rparr>)) = Inr a" by blast
  then show ?thesis by (auto simp: rbind_eq_Inr split: if_split_asm)
qed

lemma place_new_address:
  assumes "place_new q s = Inr (base, r)" "aq_address q = Some addr"
  shows "base = addr"
proof (cases "fst (resolved_alias q)")
  case (Some b)
  then have p: "place_alias q b s = Inr (base, r)" using assms(1) by (simp add: place_new_def)
  obtain t where "map_of (al_allocations s) (b, the (snd (resolved_alias q))) = Some t"
    using p by (cases "map_of (al_allocations s) (b, the (snd (resolved_alias q)))") (simp_all add: place_alias_def Let_def)
  then show ?thesis using p assms(2) by (auto simp: place_alias_def Let_def rbind_eq_Inr split: if_split_asm)
next
  case None
  then show ?thesis using assms by (auto simp: place_new_def place_at_def rbind_eq_Inr split: if_split_asm)
qed

text \<open>C33: an allocation either fails and changes nothing, or stores and returns an allocation of at
  least the requested size under the normalised key, at the requested address when one is given,
  leaving every other key as it was.\<close>

theorem allocate_outcome:
  assumes "reach alloc_start alloc_step s"
  shows "case allocate q s of
      (Inl e, t) \<Rightarrow> t = s
    | (Inr a, t) \<Rightarrow> pa_key a = (strip (aq_buffer q), aq_generation q) \<and> pa_alias_of a = fst (resolved_alias q)
        \<and> map_of (al_allocations t) = (map_of (al_allocations s))((strip (aq_buffer q), aq_generation q) \<mapsto> a)
        \<and> aq_size q \<le> pa_size a \<and> (\<forall>addr. aq_address q = Some addr \<longrightarrow> pa_base a = addr)"
proof -
  have inv: "alloc_inv s" by (rule alloc_journal.reach_inv [OF assms])
  from allocate_ok [OF inv, of q] show ?thesis
  proof (elim disjE exE)
    fix a k n
    assume r: "allocate q s = (Inr a, store_allocation k a s) \<and> request_checks q = Inr k \<and>
      (map_of (al_allocations s) k = Some a \<and> store_allocation k a s = s \<or> stored_as k a n s (store_allocation k a s))"
    then have run: "allocate q s = (Inr a, store_allocation k a s)" and chk: "request_checks q = Inr k" by blast+
    have k: "k = (strip (aq_buffer q), aq_generation q)" by (rule request_checksD [OF chk])
    have m: "map_of (al_allocations (store_allocation k a s)) = (map_of (al_allocations s))(k \<mapsto> a)"
    proof (cases "map_of (al_allocations s) k = Some a \<and> store_allocation k a s = s")
      case True
      then show ?thesis by (simp add: fun_upd_idem)
    next
      case False
      then have "stored_as k a n s (store_allocation k a s)" using r by blast
      then show ?thesis by (simp add: stored_as_def update_conv')
    qed
    have "pa_key a = k \<and> pa_alias_of a = fst (resolved_alias q) \<and> aq_size q \<le> pa_size a \<and>
      (\<forall>addr. aq_address q = Some addr \<longrightarrow> pa_base a = addr)"
    proof (cases "map_of (al_allocations s) k")
      case None
      then obtain placed where p: "place_new q s = Inr placed" "a = new_allocation q k placed"
        using run chk by (auto simp: allocate_def rbind_def split: sum.splits)
      then show ?thesis using place_new_address [of q s "fst placed" "snd placed"]
        by (simp add: new_allocation_def pa_key_def)
    next
      case (Some ex)
      then have re: "reallocate q k ex s = Inr a" using run chk by (auto simp: allocate_def split: sum.splits)
      have "pa_key a = pa_key ex" using reallocate_cases [OF re] by (auto simp: pa_key_def)
      then show ?thesis using reallocate_size [OF re] entry_okD(1) [OF entry_of [OF inv Some]] by simp
    qed
    then show ?thesis unfolding run prod.case sum.case k [symmetric] using m by blast
  qed simp
qed

theorem allocate_outcome_witness:
  "al_allocations (snd (allocate (sample_request '' '' 8) sample_state)) = al_allocations sample_state"
proof -
  have "isl (fst (allocate (sample_request '' '' 8) sample_state))" by code_simp
  then show ?thesis using allocate_outcome [OF sample_reach, of "sample_request '' '' 8"]
    by (auto split: prod.splits sum.splits)
qed

end
