(* ===== verification/Kv_Pool.thy ===== *)
theory Kv_Pool
  imports Cache_State
begin

text \<open>
  \<open>kv_pool.py\<close>: the paged key-value cache pool. Pages of a component's memory belong to requests
  and to registered prefixes, with a reference count, a pin and a last access; a capacity ledger
  counts the bytes taken on each component; pages move between components through an injected
  transfer executor, at once or in two phases.

  Bandwidths, latencies and time stamps are floating point numbers in the code. They are compared
  here and never computed with, so they are integers, multiples of the smallest float unit. What
  the pool does not own is a parameter of each call, the record \<open>kv_env\<close>: the topology that may
  have no route, and the executor, which answers with a plan, raises, or returns something else.
  The outcome of a plan's hook is part of the plan. The ledger is the pool's own; other holders
  of it may adjust it between calls. Two page objects are the same when their ids are.
\<close>

section \<open>Data\<close>

datatype kv_error = Kv_Error string | Kv_Unsupported string | Kv_Runtime string | Kv_Missing | Kv_Hook

record kv_component =
  kc_id :: string
  kc_capacity :: int
  kc_kind :: string
  kc_tier :: string
  kc_active :: bool
  kc_writable :: bool
  kc_machine :: string
  kc_read_bandwidth :: int
  kc_write_bandwidth :: int
  kc_latency :: int
  kc_granule :: int

text \<open>\<open>KvPoolComponent.__post_init__\<close>; the granule is that of its physical memory, 1 without one.\<close>

definition check_component :: "kv_component \<Rightarrow> kv_error + unit" where
  "check_component c = check_all
     [(kc_id c \<noteq> [], Kv_Error ''component_id must be non-empty''),
      (0 \<le> kc_capacity c, Kv_Error ''component capacity_bytes must be non-negative''),
      (0 \<le> kc_read_bandwidth c \<and> 0 \<le> kc_write_bandwidth c, Kv_Error ''component bandwidth must be non-negative''),
      (0 \<le> kc_latency c, Kv_Error ''component latency_ns must be non-negative''),
      (kc_machine c \<noteq> [], Kv_Error ''machine_id must be non-empty'')]"

record kv_page =
  kp_request :: string
  kp_id :: int
  kp_start :: int
  kp_end :: int
  kp_layer :: string
  kp_owner :: string
  kp_tier :: string
  kp_bytes :: int
  kp_refs :: int
  kp_pinned :: bool
  kp_access :: int
  kp_prefix :: "string option"
  kp_generation :: int

definition make_page :: "kv_page \<Rightarrow> kv_error + kv_page" where
  "make_page p =
     (if kp_request p = [] \<or> kp_layer p = [] \<or> kp_owner p = []
      then Inl (Kv_Error ''page request_id, layer_group, and owner_component are required'')
      else if kp_id p < 0 \<or> kp_start p < 0 \<or> kp_end p < kp_start p then Inl (Kv_Error ''invalid page token range'')
      else if kp_bytes p \<le> 0 \<or> kp_refs p < 1 \<or> kp_access p < 0
      then Inl (Kv_Error ''page bytes/ref_count/last_access are invalid'')
      else Inr p)"

record kv_transfer =
  kt_kind :: string
  kt_page :: int
  kt_source :: string
  kt_target :: string
  kt_bytes :: int
  kt_duration :: int
  kt_start :: "int option"
  kt_completion :: "int option"

record transfer_request =
  tq_page :: int
  tq_request :: string
  tq_layer :: string
  tq_source :: string
  tq_target :: string
  tq_bytes :: int
  tq_generation :: int
  tq_start :: int
  tq_end :: int

text \<open>A hook is absent, or present and then returns or raises.\<close>

datatype hook = No_Hook | Hook_Returns | Hook_Raises

record kv_plan =
  kl_duration :: int
  kl_start :: "int option"
  kl_completion :: "int option"
  kl_commit :: hook
  kl_rollback :: hook
  kl_advance :: bool
  kl_cancel :: hook

definition make_plan :: "kv_plan \<Rightarrow> kv_error + kv_plan" where
  "make_plan p =
     (if kl_duration p < 0 then Inl (Kv_Error ''transfer plan duration_ns must be finite and non-negative'')
      else if (case kl_start p of None \<Rightarrow> False | Some t \<Rightarrow> t < 0)
      then Inl (Kv_Error ''transfer plan start_ns must be finite and non-negative'')
      else if (case kl_completion p of None \<Rightarrow> False | Some t \<Rightarrow> t < 0)
      then Inl (Kv_Error ''transfer plan completion_ns must be finite and non-negative'')
      else if (case (kl_start p, kl_completion p) of (Some a, Some b) \<Rightarrow> b < a | _ \<Rightarrow> False)
      then Inl (Kv_Error ''transfer plan completion_ns precedes start_ns'')
      else Inr p)"

definition instant_plan :: kv_plan where
  "instant_plan = \<lparr>kl_duration = 0, kl_start = None, kl_completion = None, kl_commit = No_Hook,
     kl_rollback = No_Hook, kl_advance = False, kl_cancel = No_Hook\<rparr>"

datatype executor_answer = Planned kv_plan | Raised_Pool kv_error | Raised_Other | No_Plan

record kv_env =
  ev_topology :: "(string \<Rightarrow> string \<Rightarrow> int \<Rightarrow> bool) option"
  ev_execute :: "transfer_request \<Rightarrow> executor_answer"
  ev_prepare :: "transfer_request \<Rightarrow> executor_answer"

section \<open>The capacity ledger\<close>

record kv_ledger =
  lg_limits :: "(string, int) dict"
  lg_used :: "(string, int) dict"

definition int_at :: "(string, int) dict \<Rightarrow> string \<Rightarrow> int" where
  "int_at d k = (case map_of d k of None \<Rightarrow> 0 | Some n \<Rightarrow> n)"

definition can_adjust :: "string \<Rightarrow> int \<Rightarrow> kv_ledger \<Rightarrow> bool" where
  "can_adjust c delta l \<longleftrightarrow> c = [] \<or> delta \<le> 0 \<or>
     (case map_of (lg_limits l) c of None \<Rightarrow> True | Some limit \<Rightarrow> int_at (lg_used l) c + delta \<le> limit)"

definition adjust :: "string \<Rightarrow> int \<Rightarrow> kv_ledger \<Rightarrow> (kv_error + bool) \<times> kv_ledger" where
  "adjust c delta l =
     (if \<not> can_adjust c delta l then (Inr False, l)
      else if c \<noteq> [] \<and> map_of (lg_limits l) c \<noteq> None
      then let v = int_at (lg_used l) c + delta in
        if v < 0 then (Inl (Kv_Runtime ''KV pool physical ledger underflow''), l)
        else (Inr True, l\<lparr>lg_used := AList.update c v (lg_used l)\<rparr>)
      else (Inr True, l))"

definition can_transfer :: "string \<Rightarrow> string \<Rightarrow> int \<Rightarrow> kv_ledger \<Rightarrow> bool" where
  "can_transfer source target n l \<longleftrightarrow> (if source = target then n \<le> int_at (lg_used l) source
     else n \<le> int_at (lg_used l) source \<and> can_adjust target n l)"

definition transfer :: "string \<Rightarrow> string \<Rightarrow> int \<Rightarrow> kv_ledger \<Rightarrow> (kv_error + bool) \<times> kv_ledger" where
  "transfer source target n l =
     (if \<not> can_transfer source target n l then (Inr False, l)
      else if source \<noteq> target
      then sbind (adjust source (- n) l) (\<lambda>_ l. sbind (adjust target n l) (\<lambda>_ l. (Inr True, l)))
      else (Inr True, l))"

text \<open>\<open>_LedgerAdapter.adjust_many\<close>: what was changed is reverted when a later entry is refused.\<close>

fun undo_adjust :: "(string \<times> int) list \<Rightarrow> kv_ledger \<Rightarrow> (kv_error + unit) \<times> kv_ledger" where
  "undo_adjust [] l = (Inr (), l)"
| "undo_adjust ((c, delta) # changed) l = (case adjust c (- delta) l of
     (Inl e, l) \<Rightarrow> (Inl e, l)
   | (Inr ok, l) \<Rightarrow> if ok then undo_adjust changed l
       else (Inl (Kv_Runtime ''KV pool ledger could not reverse failed capacity adjustment''), l))"

fun adjust_each :: "(string \<times> int) list \<Rightarrow> (string \<times> int) list \<Rightarrow> kv_ledger \<Rightarrow> (kv_error + bool) \<times> kv_ledger" where
  "adjust_each [] changed l = (Inr True, l)"
| "adjust_each ((c, delta) # deltas) changed l = (case adjust c delta l of
     (Inl e, l) \<Rightarrow> sbind (undo_adjust changed l) (\<lambda>_ l. (Inl e, l))
   | (Inr ok, l) \<Rightarrow> if ok then adjust_each deltas ((c, delta) # changed) l
       else sbind (undo_adjust changed l) (\<lambda>_ l. (Inr False, l)))"

definition adjust_many :: "(string \<times> int) list \<Rightarrow> kv_ledger \<Rightarrow> (kv_error + bool) \<times> kv_ledger" where
  "adjust_many deltas l = (if list_all (\<lambda>(c, delta). can_adjust c delta l) deltas
     then adjust_each deltas [] l else (Inr False, l))"

definition can_transfer_sized :: "string \<Rightarrow> string \<Rightarrow> int \<Rightarrow> int \<Rightarrow> kv_ledger \<Rightarrow> bool" where
  "can_transfer_sized source target source_bytes target_bytes l \<longleftrightarrow>
     (if source_bytes = target_bytes then can_transfer source target source_bytes l
      else can_adjust source (- source_bytes) l \<and> can_adjust target target_bytes l)"

definition transfer_sized :: "string \<Rightarrow> string \<Rightarrow> int \<Rightarrow> int \<Rightarrow> kv_ledger \<Rightarrow> (kv_error + bool) \<times> kv_ledger" where
  "transfer_sized source target source_bytes target_bytes l =
     (if source_bytes = target_bytes then transfer source target source_bytes l
      else if \<not> can_transfer_sized source target source_bytes target_bytes l then (Inr False, l)
      else adjust_many [(source, - source_bytes), (target, target_bytes)] l)"

section \<open>The pool\<close>

type_synonym pending_move = "string \<times> string \<times> int \<times> string"

record kv_pool =
  kv_components :: "(string, kv_component) dict"
  kv_granularity :: "(string, int) dict"
  kv_tokens :: int
  kv_default_bytes :: int
  kv_layer_bytes :: "(string, int) dict"
  kv_ledger :: kv_ledger
  kv_executor :: bool
  kv_offload :: "string list"
  kv_pages :: "(int, kv_page) dict"
  kv_requests :: "(string, int list) dict"
  kv_request_components :: "(string, string option) dict"
  kv_prefixes :: "(string, int list) dict"
  kv_pending :: "(int, pending_move) dict"
  kv_bindings :: "(int, string set) dict"
  kv_owned :: "(string, int) dict"
  kv_counter :: int
  kv_clock :: int
  kv_events :: "kv_transfer list"
  kv_last_error :: "string option"

type_synonym 'a kv_op = "(kv_error + 'a) \<times> kv_pool"

definition ids_at :: "(string, int list) dict \<Rightarrow> string \<Rightarrow> int list" where
  "ids_at d k = (case map_of d k of None \<Rightarrow> [] | Some ids \<Rightarrow> ids)"

definition bound_to :: "int \<Rightarrow> kv_pool \<Rightarrow> string set" where
  "bound_to p s = (case map_of (kv_bindings s) p of None \<Rightarrow> {} | Some rs \<Rightarrow> rs)"

definition granule_of :: "string \<Rightarrow> kv_pool \<Rightarrow> int" where
  "granule_of c s = int_at (kv_granularity s) c"

definition allocation_bytes :: "string \<Rightarrow> int \<Rightarrow> kv_pool \<Rightarrow> int" where
  "allocation_bytes c payload s = round_up payload (granule_of c s)"

definition page_reserved :: "kv_page \<Rightarrow> kv_pool \<Rightarrow> int" where
  "page_reserved p s = allocation_bytes (kp_owner p) (kp_bytes p) s"

definition bytes_for_layer :: "string \<Rightarrow> kv_pool \<Rightarrow> kv_error + int" where
  "bytes_for_layer layer s = (let v = (case map_of (kv_layer_bytes s) layer of None \<Rightarrow> kv_default_bytes s | Some n \<Rightarrow> n) in
     if v \<le> 0 then Inl (Kv_Error ''page bytes must be positive'') else Inr v)"

definition component_used :: "string \<Rightarrow> kv_pool \<Rightarrow> int" where
  "component_used c s = (case map_of (lg_used (kv_ledger s)) c of
     Some n \<Rightarrow> max 0 n | None \<Rightarrow> max 0 (int_at (kv_owned s) c))"

definition component_free :: "kv_component \<Rightarrow> kv_pool \<Rightarrow> int" where
  "component_free c s = max 0 (kc_capacity c - component_used (kc_id c) s)"

definition used_by_component :: "kv_pool \<Rightarrow> (string, int) dict" where
  "used_by_component s = map (\<lambda>(c, _). (c, component_used c s)) (kv_components s)"

definition page_owners :: "kv_pool \<Rightarrow> (int, string) dict" where
  "page_owners s = map (\<lambda>(p, page). (p, kp_owner page)) (kv_pages s)"

definition clear_events :: "kv_pool \<Rightarrow> kv_pool" where
  "clear_events s = s\<lparr>kv_events := []\<rparr>"

text \<open>The lifted ledger operation.\<close>

definition pool_adjust :: "string \<Rightarrow> int \<Rightarrow> kv_pool \<Rightarrow> bool kv_op" where
  "pool_adjust c delta s = (case adjust c delta (kv_ledger s) of (r, l) \<Rightarrow> (r, s\<lparr>kv_ledger := l\<rparr>))"

section \<open>Construction\<close>

definition granule_with :: "(string \<Rightarrow> int) option \<Rightarrow> kv_pool \<Rightarrow> kv_error + (string, int) dict" where
  "granule_with footprint s = (case footprint of
     None \<Rightarrow> Inr (kv_granularity s)
   | Some f \<Rightarrow> if list_all (\<lambda>(c, _). 0 < f c) (kv_components s)
       then Inr (fold (\<lambda>(c, _) g. AList.update c (f c) g) (kv_components s) (kv_granularity s))
       else Inl (Kv_Error ''physical allocation granularity must be a positive integer''))"

definition owned_total :: "(string, int) dict \<Rightarrow> string \<Rightarrow> (int, kv_page) dict \<Rightarrow> int" where
  "owned_total g c pages = dict_sum (\<lambda>p. if kp_owner p = c then round_up (kp_bytes p) (int_at g c) else 0) pages"

definition set_executor :: "bool \<Rightarrow> (string \<Rightarrow> int) option \<Rightarrow> kv_pool \<Rightarrow> unit kv_op" where
  "set_executor present footprint s =
     (if kv_pending s \<noteq> [] then (Inl (Kv_Error ''cannot replace transfer executor with in-flight pages''), s)
      else case granule_with (if present then footprint else None) s of
        Inl e \<Rightarrow> (Inl e, s)
      | Inr g \<Rightarrow> let
          totals = map (\<lambda>(c, _). (c, owned_total g c (kv_pages s))) (kv_components s);
          deltas = map (\<lambda>(c, n). (c, n - int_at (kv_owned s) c)) (filter (\<lambda>(c, n). n \<noteq> int_at (kv_owned s) c) totals)
        in if deltas \<noteq> [] \<and> kv_executor s \<and> kv_pages s \<noteq> []
          then (Inl (Kv_Error ''cannot change allocation granularity of already bound pages''), s)
          else case (if deltas = [] then (Inr True, kv_ledger s) else adjust_many deltas (kv_ledger s)) of
            (Inl e, l) \<Rightarrow> (Inl e, s\<lparr>kv_ledger := l\<rparr>)
          | (Inr ok, l) \<Rightarrow> if \<not> ok
              then (Inl (Kv_Error ''existing pages exceed capacity at physical allocation granularity''), s\<lparr>kv_ledger := l\<rparr>)
              else (Inr (), s\<lparr>kv_ledger := l, kv_granularity := g,
                kv_owned := filter (\<lambda>(c, n). n \<noteq> 0) totals, kv_executor := present\<rparr>))"

record pool_config =
  pc_components :: "kv_component list"
  pc_tokens :: int
  pc_bytes :: int
  pc_layer_bytes :: "(string, int) dict"
  pc_offload :: "string list"
  pc_cross_machine :: bool
  pc_executor :: bool
  pc_footprint :: "(string \<Rightarrow> int) option"

fun check_components :: "kv_component list \<Rightarrow> kv_error + unit" where
  "check_components [] = Inr ()"
| "check_components (c # cs) = rbind (check_component c) (\<lambda>_. check_components cs)"

definition check_pool :: "pool_config \<Rightarrow> kv_error + unit" where
  "check_pool q = check_all
     [(pc_components q \<noteq> [], Kv_Error ''paged KV pool needs at least one component''),
      (distinct (map kc_id (pc_components q)), Kv_Error ''paged KV pool component ids must be unique''),
      (card (set (map kc_machine (pc_components q))) \<le> 1 \<or> pc_cross_machine q,
        Kv_Unsupported ''cross-machine KV pools require the future external KV store''),
      (list_all (\<lambda>(layer, n). 0 < n) (pc_layer_bytes q), Kv_Error ''page_bytes_by_layer values must be positive''),
      (list_all (\<lambda>c. c \<in> set (map kc_id (pc_components q))) (pc_offload q), Kv_Error ''unknown offload component(s)'')]"

definition new_pool :: "pool_config \<Rightarrow> kv_error + kv_pool" where
  "new_pool q =
     (if pc_tokens q \<le> 0 then Inl (Kv_Error ''tokens_per_page must be positive'')
      else if pc_bytes q \<le> 0 then Inl (Kv_Error ''page_bytes must be positive'')
      else rbind (check_components (pc_components q)) (\<lambda>_. rbind (check_pool q) (\<lambda>_. let
        components = map (\<lambda>c. (kc_id c, c)) (pc_components q);
        limits = map (\<lambda>c. (kc_id c, max 0 (kc_capacity c))) (pc_components q);
        s = \<lparr>kv_components = components, kv_granularity = map (\<lambda>c. (kc_id c, kc_granule c)) (pc_components q),
          kv_tokens = pc_tokens q, kv_default_bytes = pc_bytes q, kv_layer_bytes = pc_layer_bytes q,
          kv_ledger = \<lparr>lg_limits = limits, lg_used = map (\<lambda>(c, _). (c, 0)) limits\<rparr>, kv_executor = False,
          kv_offload = (if pc_offload q \<noteq> [] then pc_offload q
            else map kc_id (filter (\<lambda>c. \<not> kc_active c \<and> kc_writable c) (pc_components q))),
          kv_pages = [], kv_requests = [], kv_request_components = [], kv_prefixes = [], kv_pending = [],
          kv_bindings = [], kv_owned = [], kv_counter = 0, kv_clock = 0, kv_events = [], kv_last_error = None\<rparr>
      in case set_executor (pc_executor q) (pc_footprint q) s of (Inl e, _) \<Rightarrow> Inl e | (Inr _, s) \<Rightarrow> Inr s)))"

section \<open>Placement\<close>

text \<open>The rank of a candidate: more free bytes, then bandwidth, then lower latency, then its name.\<close>

datatype kv_score = Kv_Score (score_free: int) (score_bandwidth: int) (score_latency: int) (score_name: string)

definition score_tuple :: "kv_score \<Rightarrow> int \<times> int \<times> int \<times> string" where
  "score_tuple x = (- score_free x, - score_bandwidth x, score_latency x, score_name x)"

lemma score_tuple_inject: "score_tuple x = score_tuple y \<longleftrightarrow> x = y"
  by (cases x; cases y) (simp add: score_tuple_def)

instantiation kv_score :: linorder
begin

definition less_eq_kv_score :: "kv_score \<Rightarrow> kv_score \<Rightarrow> bool" where
  "less_eq_kv_score x y \<longleftrightarrow> score_tuple x \<le> score_tuple y"

definition less_kv_score :: "kv_score \<Rightarrow> kv_score \<Rightarrow> bool" where
  "less_kv_score x y \<longleftrightarrow> score_tuple x < score_tuple y"

instance
  by standard (auto simp: less_eq_kv_score_def less_kv_score_def less_le_not_le score_tuple_inject [symmetric] simp del: score_tuple_inject)

end

definition route_exists :: "kv_env \<Rightarrow> string option \<Rightarrow> string \<Rightarrow> int \<Rightarrow> bool" where
  "route_exists ev source target n = (case source of None \<Rightarrow> True | Some src \<Rightarrow>
     src = [] \<or> src = target \<or> (case ev_topology ev of None \<Rightarrow> True | Some route \<Rightarrow> route src target n))"

datatype compat = Any_Component | Only_Components "string list" | By_Layer "(string, string list) dict"

definition allowed_in :: "compat \<Rightarrow> string \<Rightarrow> string \<Rightarrow> bool" where
  "allowed_in compatible layer c = (case compatible of
     Any_Component \<Rightarrow> True
   | Only_Components cs \<Rightarrow> c \<in> set cs
   | By_Layer d \<Rightarrow> c \<in> set (case map_of d layer of Some cs \<Rightarrow> cs
       | None \<Rightarrow> (case map_of d ''*'' of Some cs \<Rightarrow> cs | None \<Rightarrow> [])))"

definition is_candidate :: "kv_env \<Rightarrow> string \<Rightarrow> int \<Rightarrow> string option \<Rightarrow> compat \<Rightarrow> bool \<Rightarrow> kv_pool \<Rightarrow> string \<times> kv_component \<Rightarrow> bool" where
  "is_candidate ev layer n from compatible active s = (\<lambda>(c, component).
     kc_active component = active \<and> kc_writable component \<and> allowed_in compatible layer c \<and> route_exists ev from c n \<and>
     allocation_bytes c n s \<le> component_free component s \<and> can_adjust c (allocation_bytes c n s) (kv_ledger s))"

definition score_of :: "kv_pool \<Rightarrow> string \<times> kv_component \<Rightarrow> kv_score" where
  "score_of s = (\<lambda>(c, component). Kv_Score (component_free component s)
     (max (max (kc_write_bandwidth component) (kc_read_bandwidth component)) 0) (kc_latency component) c)"

definition candidate_ids :: "kv_env \<Rightarrow> string \<Rightarrow> int \<Rightarrow> string option \<Rightarrow> compat \<Rightarrow> bool \<Rightarrow> kv_pool \<Rightarrow> string list" where
  "candidate_ids ev layer n from compatible active s =
     map fst (sort_key (score_of s) (filter (is_candidate ev layer n from compatible active s) (kv_components s)))"

section \<open>Pages and references\<close>

definition put_page :: "kv_page \<Rightarrow> kv_pool \<Rightarrow> kv_pool" where
  "put_page p s = s\<lparr>kv_pages := AList.update (kp_id p) p (kv_pages s)\<rparr>"

definition with_page :: "int \<Rightarrow> (kv_page \<Rightarrow> kv_page) \<Rightarrow> kv_pool \<Rightarrow> kv_pool" where
  "with_page i f s = (case map_of (kv_pages s) i of None \<Rightarrow> s
     | Some p \<Rightarrow> s\<lparr>kv_pages := AList.update i (f p) (kv_pages s)\<rparr>)"

definition touch_page :: "int \<Rightarrow> kv_pool \<Rightarrow> kv_pool" where
  "touch_page i s = (let now = kv_clock s + 1 in
     with_page i (\<lambda>p. p\<lparr>kp_access := now\<rparr>) (s\<lparr>kv_clock := now\<rparr>))"

definition register_page :: "kv_page \<Rightarrow> kv_pool \<Rightarrow> kv_pool" where
  "register_page p s = (let s1 = put_page p s in
     s1\<lparr>kv_owned := AList.update (kp_owner p) (int_at (kv_owned s1) (kp_owner p) + page_reserved p s1) (kv_owned s1),
       kv_bindings := AList.update (kp_id p) (insert (kp_request p) (bound_to (kp_id p) s1)) (kv_bindings s1)\<rparr>)"

definition without_page :: "int \<Rightarrow> (string, int list) dict \<Rightarrow> (string, int list) dict" where
  "without_page i d = filter (\<lambda>(k, ids). ids \<noteq> []) (map (\<lambda>(k, ids). (k, filter (\<lambda>v. v \<noteq> i) ids)) d)"

definition free_page :: "int \<Rightarrow> kv_pool \<Rightarrow> unit kv_op" where
  "free_page i s = (case map_of (kv_pages s) i of
     None \<Rightarrow> (Inr (), s)
   | Some p \<Rightarrow> let reserved = page_reserved p s in
       (case pool_adjust (kp_owner p) (- reserved) s of
         (Inl e, s1) \<Rightarrow> (Inl e, s1)
       | (Inr ok, s1) \<Rightarrow> if \<not> ok then (Inl (Kv_Runtime ''KV pool physical ledger rejected page release''), s1)
           else let left = int_at (kv_owned s1) (kp_owner p) - reserved in
             (Inr (), s1\<lparr>kv_pages := AList.delete i (kv_pages s1),
               kv_owned := (if left \<le> 0 then AList.delete (kp_owner p) (kv_owned s1)
                 else AList.update (kp_owner p) left (kv_owned s1)),
               kv_bindings := AList.delete i (kv_bindings s1),
               kv_prefixes := without_page i (kv_prefixes s1)\<rparr>)))"

definition drop_ref :: "int \<Rightarrow> string option \<Rightarrow> kv_pool \<Rightarrow> unit kv_op" where
  "drop_ref i binding s = (case map_of (kv_pages s) i of
     None \<Rightarrow> (Inr (), s)
   | Some p \<Rightarrow>
       if kp_refs p \<le> 0 then (Inl (Kv_Runtime ''KV pool page refcount underflow''), s)
       else if kp_refs p = 1 \<and> \<not> kp_pinned p then free_page i s
       else let s1 = (case binding of None \<Rightarrow> s | Some r \<Rightarrow>
           (case map_of (kv_bindings s) i of None \<Rightarrow> s
            | Some rs \<Rightarrow> s\<lparr>kv_bindings := AList.update i (rs - {r}) (kv_bindings s)\<rparr>)) in
         (Inr (), with_page i (\<lambda>p. p\<lparr>kp_refs := kp_refs p - 1\<rparr>) s1))"

definition attach_ref :: "int \<Rightarrow> string \<Rightarrow> kv_pool \<Rightarrow> unit kv_op" where
  "attach_ref i r s = (case map_of (kv_pages s) i of
     None \<Rightarrow> (Inl Kv_Missing, s)
   | Some p \<Rightarrow> (Inr (), touch_page i
       ((with_page i (\<lambda>p. p\<lparr>kp_refs := kp_refs p + 1\<rparr>) s)
         \<lparr>kv_bindings := AList.update i (insert r (bound_to i s)) (kv_bindings s)\<rparr>)))"

section \<open>Resizing\<close>

record resize_request =
  rz_request :: string
  rz_pages :: "int option"
  rz_tokens :: "int option"
  rz_layer :: string
  rz_component :: "string option"
  rz_compat :: compat
  rz_prefix :: "string option"

record resize_result =
  rr_success :: bool
  rr_request :: string
  rr_count :: int
  rr_allocated :: int
  rr_released :: int
  rr_error :: "string option"

text \<open>
  \<open>_allocate_one\<close>: the bytes are reserved first and the page is constructed after, so a page that
  the constructor refuses leaves its reservation behind.
\<close>

definition blank_page :: "resize_request \<Rightarrow> int \<Rightarrow> string \<Rightarrow> int \<Rightarrow> kv_pool \<Rightarrow> kv_page" where
  "blank_page q index owner n s = (let start = index * kv_tokens s; stop = start + kv_tokens s in
     \<lparr>kp_request = rz_request q, kp_id = kv_counter s, kp_start = start,
      kp_end = (case rz_tokens q of None \<Rightarrow> stop | Some t \<Rightarrow> min stop (max start t)), kp_layer = rz_layer q,
      kp_owner = owner, kp_tier = (case map_of (kv_components s) owner of None \<Rightarrow> [] | Some c \<Rightarrow> kc_tier c),
      kp_bytes = n, kp_refs = 1, kp_pinned = False, kp_access = kv_clock s, kp_prefix = None, kp_generation = 0\<rparr>)"

definition allocate_one :: "kv_env \<Rightarrow> resize_request \<Rightarrow> int \<Rightarrow> kv_pool \<Rightarrow> int option kv_op" where
  "allocate_one ev q index s = (case bytes_for_layer (rz_layer q) s of
     Inl e \<Rightarrow> (Inl e, s)
   | Inr n \<Rightarrow> (case candidate_ids ev (rz_layer q) n (rz_component q) (rz_compat q) True s of
       [] \<Rightarrow> (Inr None, s)
     | owner # _ \<Rightarrow> (case pool_adjust owner (allocation_bytes owner n s) s of
         (Inl e, s1) \<Rightarrow> (Inl e, s1)
       | (Inr ok, s1) \<Rightarrow> if \<not> ok then (Inr None, s1)
           else (case make_page (blank_page q index owner n s1) of
             Inl e \<Rightarrow> (Inl e, s1)
           | Inr p \<Rightarrow> (Inr (Some (kp_id p)),
               touch_page (kp_id p) (register_page p (s1\<lparr>kv_counter := kv_counter s1 + 1\<rparr>)))))))"

fun attach_all :: "string \<Rightarrow> int list \<Rightarrow> int list \<Rightarrow> kv_pool \<Rightarrow> (kv_error option \<times> int list) \<times> kv_pool" where
  "attach_all r [] attached s = ((None, attached), s)"
| "attach_all r (i # ids) attached s = (case attach_ref i r s of
     (Inl e, s) \<Rightarrow> ((Some e, attached), s)
   | (Inr _, s) \<Rightarrow> attach_all r ids (attached @ [i]) s)"

text \<open>Each turn of the loop adds one page, so the number of missing pages is the recursion.\<close>

fun allocate_all :: "kv_env \<Rightarrow> resize_request \<Rightarrow> nat \<Rightarrow> int \<Rightarrow> int list \<Rightarrow> kv_pool \<Rightarrow> (kv_error option \<times> int list) \<times> kv_pool" where
  "allocate_all ev q 0 index allocated s = ((None, allocated), s)"
| "allocate_all ev q (Suc n) index allocated s = (case allocate_one ev q index s of
     (Inl e, s) \<Rightarrow> ((Some e, allocated), s)
   | (Inr None, s) \<Rightarrow>
       ((Some (Kv_Error ''no compatible writable active component has capacity for page''), allocated), s)
   | (Inr (Some i), s) \<Rightarrow> allocate_all ev q n (index + 1) (allocated @ [i]) s)"

fun drop_each :: "string \<Rightarrow> int list \<Rightarrow> kv_pool \<Rightarrow> unit kv_op" where
  "drop_each r [] s = (Inr (), s)"
| "drop_each r (i # ids) s = sbind (drop_ref i (Some r) s) (\<lambda>_ s. drop_each r ids s)"

text \<open>The releasing loop: after every page the request keeps exactly the references it still has.\<close>

fun shrink_refs :: "string \<Rightarrow> int list \<Rightarrow> int list \<Rightarrow> kv_pool \<Rightarrow> unit kv_op" where
  "shrink_refs r kept [] s = (Inr (), s)"
| "shrink_refs r kept (i # ids) s = (case drop_ref i (Some r) s of
     (Inl e, s) \<Rightarrow> (Inl e, s\<lparr>kv_requests := AList.update r (kept @ i # ids) (kv_requests s)\<rparr>)
   | (Inr _, s) \<Rightarrow> shrink_refs r kept ids (s\<lparr>kv_requests := AList.update r (kept @ ids) (kv_requests s)\<rparr>))"

definition error_text :: "kv_error \<Rightarrow> string" where
  "error_text e = (case e of Kv_Error m \<Rightarrow> m | Kv_Unsupported m \<Rightarrow> m | Kv_Runtime m \<Rightarrow> m | Kv_Missing \<Rightarrow> [] | Kv_Hook \<Rightarrow> [])"

definition resize_target :: "resize_request \<Rightarrow> kv_pool \<Rightarrow> kv_error + int" where
  "resize_target q s =
     (if rz_request q = [] then Inl (Kv_Error ''request_id must be non-empty'')
      else case (case rz_pages q of Some n \<Rightarrow> Inr n | None \<Rightarrow>
          (case rz_tokens q of None \<Rightarrow> Inl (Kv_Error ''target_pages or target_tokens is required'')
           | Some t \<Rightarrow> if t < 0 then Inl (Kv_Error ''target_tokens must be non-negative'')
               else Inr ((t + kv_tokens s - 1) div kv_tokens s))) of
        Inl e \<Rightarrow> Inl e
      | Inr n \<Rightarrow> if n < 0 then Inl (Kv_Error ''target_pages must be non-negative'') else Inr n)"

definition resize_result_of :: "bool \<Rightarrow> string \<Rightarrow> int \<Rightarrow> int \<Rightarrow> int \<Rightarrow> string option \<Rightarrow> resize_result" where
  "resize_result_of ok r count allocated released e = \<lparr>rr_success = ok, rr_request = r, rr_count = count,
     rr_allocated = allocated, rr_released = released, rr_error = e\<rparr>"

definition shrink :: "string \<Rightarrow> nat \<Rightarrow> int list \<Rightarrow> kv_pool \<Rightarrow> resize_result kv_op" where
  "shrink r n current s = sbind (shrink_refs r (take n current) (drop n current) s) (\<lambda>_ s.
     let s1 = s\<lparr>kv_requests := AList.update r (take n current) (kv_requests s)\<rparr> in
     (Inr (resize_result_of True r (int n) 0 (int (length (drop n current))) None),
      if take n current = [] then s1\<lparr>kv_requests := AList.delete r (kv_requests s1),
        kv_request_components := AList.delete r (kv_request_components s1)\<rparr> else s1))"

definition grow :: "kv_env \<Rightarrow> resize_request \<Rightarrow> nat \<Rightarrow> int list \<Rightarrow> kv_pool \<Rightarrow> resize_result kv_op" where
  "grow ev q n current s = (let
     r = rz_request q;
     shared = (case rz_prefix q of None \<Rightarrow> [] | Some k \<Rightarrow>
       if k \<noteq> [] \<and> current = [] then take n (ids_at (kv_prefixes s) k) else []);
     undo = (\<lambda>e attached allocated s. case e of
         Kv_Missing \<Rightarrow> (Inl e, s)
       | _ \<Rightarrow> sbind (drop_each r (rev allocated) s) (\<lambda>_ s. sbind (drop_each r (rev attached) s) (\<lambda>_ s.
           (Inr (resize_result_of False r (int (length current)) 0 0 (Some (error_text e))),
            s\<lparr>kv_last_error := Some (error_text e)\<rparr>))))
   in case attach_all r shared [] s of
     ((Some e, attached), s) \<Rightarrow> undo e attached [] s
   | ((None, attached), s) \<Rightarrow>
       (case allocate_all ev q (n - length (current @ attached)) (int (length (current @ attached))) [] s of
         ((Some e, allocated), s) \<Rightarrow> undo e attached allocated s
       | ((None, allocated), s) \<Rightarrow> (Inr (resize_result_of True r (int n) (int (length allocated)) 0 None),
           s\<lparr>kv_requests := AList.update r (current @ attached @ allocated) (kv_requests s),
             kv_request_components := AList.update r (rz_component q) (kv_request_components s)\<rparr>)))"

definition resize_detailed :: "kv_env \<Rightarrow> resize_request \<Rightarrow> kv_pool \<Rightarrow> resize_result kv_op" where
  "resize_detailed ev q s0 = (let s = s0\<lparr>kv_last_error := None\<rparr>; r = rz_request q in
     case resize_target q s of
       Inl e \<Rightarrow> (Inl e, s)
     | Inr target \<Rightarrow> let current = ids_at (kv_requests s) r; n = nat target in
         if list_ex (\<lambda>i. map_of (kv_pending s) i \<noteq> None) current
         then let m = ''cannot resize KV pages with an in-flight transfer'' in
           (Inr (resize_result_of False r (int (length current)) 0 0 (Some m)), s\<lparr>kv_last_error := Some m\<rparr>)
         else if n = length current
         then let s1 = fold touch_page current s in
           (Inr (resize_result_of True r (int n) 0 0 None),
            if map_of (kv_request_components s1) r = None
            then s1\<lparr>kv_request_components := AList.update r (rz_component q) (kv_request_components s1)\<rparr> else s1)
         else if n < length current then shrink r n current s
         else grow ev q n current s)"

text \<open>
  \<open>can_resize\<close> runs the same code on a copy of the pool and of its ledger; asking the original
  ledger for the total growth as well adds nothing when it is the pool's own.
\<close>

definition can_resize :: "kv_env \<Rightarrow> string \<Rightarrow> int \<Rightarrow> kv_pool \<Rightarrow> kv_error + bool" where
  "can_resize ev r n s = (case resize_detailed ev \<lparr>rz_request = r, rz_pages = Some n, rz_tokens = None,
       rz_layer = ''default'', rz_component = None, rz_compat = Any_Component, rz_prefix = None\<rparr> s of
     (Inl e, _) \<Rightarrow> Inl e | (Inr result, _) \<Rightarrow> Inr (rr_success result))"

section \<open>Requests and prefixes\<close>

definition request_pages :: "string \<Rightarrow> kv_pool \<Rightarrow> kv_page list" where
  "request_pages r s = List.map_filter (map_of (kv_pages s)) (ids_at (kv_requests s) r)"

definition prefix_pages :: "string \<Rightarrow> kv_pool \<Rightarrow> kv_page list" where
  "prefix_pages k s = List.map_filter (map_of (kv_pages s)) (ids_at (kv_prefixes s) k)"

definition page_at :: "int \<Rightarrow> kv_pool \<Rightarrow> kv_error + kv_page" where
  "page_at i s = (case map_of (kv_pages s) i of None \<Rightarrow> Inl (Kv_Error ''unknown KV page'') | Some p \<Rightarrow> Inr p)"

fun hand_over :: "string \<Rightarrow> string \<Rightarrow> int list \<Rightarrow> kv_pool \<Rightarrow> unit kv_op" where
  "hand_over source target [] s = (Inr (), s)"
| "hand_over source target (i # ids) s = (if source \<notin> bound_to i s then (Inl Kv_Missing, s)
     else hand_over source target ids (with_page i (\<lambda>p. p\<lparr>kp_request := target\<rparr>)
       (s\<lparr>kv_bindings := AList.update i (insert target (bound_to i s - {source})) (kv_bindings s)\<rparr>)))"

definition handoff_request :: "string \<Rightarrow> string \<Rightarrow> kv_pool \<Rightarrow> int list kv_op" where
  "handoff_request source target s =
     (if source = target \<or> ids_at (kv_requests s) target \<noteq> []
      then (Inl (Kv_Error ''KV handoff requires a distinct empty destination request''), s)
      else if list_ex (\<lambda>p. kp_refs p \<noteq> 1 \<or> kp_pinned p \<or> kp_prefix p \<noteq> None \<or> map_of (kv_pending s) (kp_id p) \<noteq> None)
        (request_pages source s)
      then (Inl (Kv_Error ''KV handoff supports exclusive pages without in-flight copies only''), s)
      else let ids = ids_at (kv_requests s) source; pages = request_pages source s;
          component = (case map_of (kv_request_components s) source of None \<Rightarrow> None | Some c \<Rightarrow> c);
          s1 = s\<lparr>kv_requests := AList.update target ids (AList.delete source (kv_requests s)),
            kv_request_components := (let d = AList.delete source (kv_request_components s) in
              case component of None \<Rightarrow> d | Some c \<Rightarrow> AList.update target (Some c) d)\<rparr>
        in sbind (hand_over source target (map kp_id pages) s1) (\<lambda>_ s. (Inr ids, s)))"

definition release :: "string \<Rightarrow> kv_pool \<Rightarrow> unit kv_op" where
  "release r s =
     (if list_ex (\<lambda>i. map_of (kv_pending s) i \<noteq> None) (ids_at (kv_requests s) r)
      then (Inl (Kv_Error ''cannot release KV pages with an in-flight transfer''), s)
      else sbind (shrink_refs r [] (ids_at (kv_requests s) r) s) (\<lambda>_ s.
        (Inr (), s\<lparr>kv_requests := AList.delete r (kv_requests s),
          kv_request_components := AList.delete r (kv_request_components s)\<rparr>)))"

fun collect_prefix :: "kv_pool \<Rightarrow> int list \<Rightarrow> int list \<Rightarrow> kv_error + int list" where
  "collect_prefix s [] ids = Inr ids"
| "collect_prefix s (i # pages) ids =
     (if map_of (kv_pages s) i = None then Inl (Kv_Error ''cannot register unknown page'')
      else if i \<in> set ids then Inl (Kv_Error ''a prefix cannot contain the same physical page twice'')
      else collect_prefix s pages (ids @ [i]))"

definition hold_page :: "string \<Rightarrow> int \<Rightarrow> kv_pool \<Rightarrow> kv_pool" where
  "hold_page k i s = touch_page i (with_page i (\<lambda>p. p\<lparr>kp_refs := kp_refs p + 1, kp_prefix := Some k\<rparr>) s)"

definition register_prefix :: "string \<Rightarrow> int list \<Rightarrow> kv_pool \<Rightarrow> unit kv_op" where
  "register_prefix k pages s =
     (if k = [] then (Inl (Kv_Error ''prefix_key must be non-empty''), s)
      else if map_of (kv_prefixes s) k \<noteq> None then (Inl (Kv_Error ''prefix_key already registered''), s)
      else case collect_prefix s pages [] of
        Inl e \<Rightarrow> (Inl e, s)
      | Inr ids \<Rightarrow> (Inr (), let s1 = fold (hold_page k) ids s in
          s1\<lparr>kv_prefixes := AList.update k ids (kv_prefixes s1)\<rparr>))"

definition other_prefix :: "int \<Rightarrow> (string, int list) dict \<Rightarrow> string option" where
  "other_prefix i d = map_option fst (List.find (\<lambda>(k, ids). i \<in> set ids) d)"

fun release_held :: "string \<Rightarrow> int list \<Rightarrow> kv_pool \<Rightarrow> unit kv_op" where
  "release_held k [] s = (Inr (), s)"
| "release_held k (i # ids) s = (case drop_ref i None s of
     (Inl e, s) \<Rightarrow> (Inl e, s\<lparr>kv_prefixes := AList.update k (i # ids) (kv_prefixes s)\<rparr>)
   | (Inr _, s) \<Rightarrow> let
       s1 = (if map_of (kv_prefixes s) k \<noteq> None then s\<lparr>kv_prefixes := AList.update k ids (kv_prefixes s)\<rparr> else s);
       s2 = with_page i (\<lambda>p. p\<lparr>kp_prefix := other_prefix i (kv_prefixes s1)\<rparr>) s1
     in release_held k ids s2)"

definition release_prefix :: "string \<Rightarrow> kv_pool \<Rightarrow> unit kv_op" where
  "release_prefix k s = sbind (release_held k (ids_at (kv_prefixes s) k) s) (\<lambda>_ s.
     (Inr (), s\<lparr>kv_prefixes := AList.delete k (kv_prefixes s)\<rparr>))"

text \<open>\<open>pin\<close> and \<open>unpin\<close> take one page of the request or all of them.\<close>

definition chosen_pages :: "string \<Rightarrow> int option \<Rightarrow> kv_pool \<Rightarrow> kv_page list" where
  "chosen_pages r which s = (let pages = request_pages r s in
     case which of None \<Rightarrow> pages | Some i \<Rightarrow> filter (\<lambda>p. kp_id p = i) pages)"

definition pin_page :: "int \<Rightarrow> kv_pool \<Rightarrow> kv_pool" where
  "pin_page i s = touch_page i (with_page i (\<lambda>p. p\<lparr>kp_pinned := True\<rparr>) s)"

definition pin :: "string \<Rightarrow> int option \<Rightarrow> kv_pool \<Rightarrow> int \<times> kv_pool" where
  "pin r which s = (let ids = map kp_id (chosen_pages r which s) in (int (length ids), fold pin_page ids s))"

definition unpin_one :: "int \<Rightarrow> kv_pool \<Rightarrow> unit kv_op" where
  "unpin_one i s = (case map_of (kv_pages s) i of None \<Rightarrow> (Inr (), s)
     | Some p \<Rightarrow> if kp_refs p = 0 then free_page i s else (Inr (), with_page i (\<lambda>p. p\<lparr>kp_pinned := False\<rparr>) s))"

fun unpin_each :: "int list \<Rightarrow> kv_pool \<Rightarrow> unit kv_op" where
  "unpin_each [] s = (Inr (), s)"
| "unpin_each (i # ids) s = sbind (unpin_one i s) (\<lambda>_ s. unpin_each ids s)"

definition unpin :: "string \<Rightarrow> int option \<Rightarrow> kv_pool \<Rightarrow> int kv_op" where
  "unpin r which s = (let ids = map kp_id (chosen_pages r which s) in
     sbind (unpin_each ids s) (\<lambda>_ s. (Inr (int (length ids)), s)))"

definition unpin_page :: "int \<Rightarrow> kv_pool \<Rightarrow> bool kv_op" where
  "unpin_page i s = (case page_at i s of
     Inl e \<Rightarrow> (Inl e, s)
   | Inr p \<Rightarrow> if \<not> kp_pinned p then (Inr False, s) else sbind (unpin_one i s) (\<lambda>_ s. (Inr True, s)))"

definition touch_request :: "string \<Rightarrow> kv_pool \<Rightarrow> kv_pool" where
  "touch_request r s = fold touch_page (map kp_id (request_pages r s)) s"

section \<open>Eviction\<close>

definition evictable :: "string list option \<Rightarrow> kv_pool \<Rightarrow> kv_page \<Rightarrow> bool" where
  "evictable allowed s p \<longleftrightarrow> kp_refs p = 1 \<and> \<not> kp_pinned p \<and> bound_to (kp_id p) s = {} \<and>
     (case allowed of None \<Rightarrow> True | Some cs \<Rightarrow> kp_owner p \<in> set cs)"

definition eviction_order :: "string list option \<Rightarrow> kv_pool \<Rightarrow> kv_page list" where
  "eviction_order allowed s =
     sort_key (\<lambda>p. (kp_access p, kp_id p)) (filter (evictable allowed s) (map snd (kv_pages s)))"

fun evict_pages :: "int \<Rightarrow> int \<Rightarrow> kv_page list \<Rightarrow> kv_pool \<Rightarrow> int kv_op" where
  "evict_pages needed freed [] s = (Inr freed, s)"
| "evict_pages needed freed (p # pages) s = (if needed \<le> freed then (Inr freed, s)
     else sbind (free_page (kp_id p) s) (\<lambda>_ s. evict_pages needed (freed + page_reserved p s) pages s))"

definition evict_kv :: "int \<Rightarrow> string list option \<Rightarrow> kv_pool \<Rightarrow> int kv_op" where
  "evict_kv needed allowed s = (if needed < 0 then (Inl (Kv_Error ''bytes_needed must be non-negative''), s)
     else evict_pages needed 0 (eviction_order allowed s) s)"

section \<open>Moving a page\<close>

definition storage_kinds :: "string list" where
  "storage_kinds = [''hbf'', ''ssd'', ''high_io_ssd'', ''nvme'', ''flash'', ''storage'']"

definition normal_kind :: "string \<Rightarrow> string" where
  "normal_kind k = map (\<lambda>c. if c = CHR ''-'' \<or> c = CHR '' '' then CHR ''_'' else c) (lower (strip k))"

definition check_bandwidth :: "kv_component \<Rightarrow> bool \<Rightarrow> kv_error + unit" where
  "check_bandwidth c reading = (if normal_kind (kc_kind c) \<notin> set storage_kinds then Inr ()
     else if (if reading then kc_read_bandwidth c else kc_write_bandwidth c) \<le> 0
     then Inl (Kv_Unsupported ''storage component requires a positive bandwidth'') else Inr ())"

definition transfer_plan :: "kv_env \<Rightarrow> kv_page \<Rightarrow> string \<Rightarrow> string \<Rightarrow> bool \<Rightarrow> kv_pool \<Rightarrow> kv_error + kv_plan" where
  "transfer_plan ev p source target staged s =
     (if source = target \<or> kp_bytes p = 0 then Inr instant_plan
      else if \<not> kv_executor s then Inl (Kv_Unsupported ''paged_pool migration requires physical lowering'')
      else let q = \<lparr>tq_page = kp_id p, tq_request = kp_request p, tq_layer = kp_layer p, tq_source = source,
          tq_target = target, tq_bytes = kp_bytes p, tq_generation = kp_generation p, tq_start = kp_start p,
          tq_end = kp_end p\<rparr>
        in (case (if staged then ev_prepare ev q else ev_execute ev q) of
          Planned plan \<Rightarrow> Inr plan
        | Raised_Pool e \<Rightarrow> Inl e
        | Raised_Other \<Rightarrow> Inl (Kv_Unsupported ''paged_pool physical transfer executor failed'')
        | No_Plan \<Rightarrow> Inl (Kv_Unsupported ''paged_pool physical transfer executor must return KvPoolTransferPlan'')))"

definition run_hook :: "hook \<Rightarrow> kv_error + unit" where
  "run_hook h = (if h = Hook_Raises then Inl (Kv_Unsupported ''paged_pool transfer hook failed'') else Inr ())"

definition pool_transfer :: "string \<Rightarrow> string \<Rightarrow> int \<Rightarrow> int \<Rightarrow> kv_pool \<Rightarrow> bool kv_op" where
  "pool_transfer source target n m s = (case transfer_sized source target n m (kv_ledger s) of
     (r, l) \<Rightarrow> (r, s\<lparr>kv_ledger := l\<rparr>))"

definition shift_owned :: "string \<Rightarrow> int \<Rightarrow> kv_pool \<Rightarrow> kv_pool" where
  "shift_owned c delta s = s\<lparr>kv_owned := AList.update c (int_at (kv_owned s) c + delta) (kv_owned s)\<rparr>"

definition arrive :: "int \<Rightarrow> kv_component \<Rightarrow> kv_page \<Rightarrow> kv_page" where
  "arrive n target p = p\<lparr>kp_generation := n, kp_owner := kc_id target, kp_tier := kc_tier target\<rparr>"

definition log_transfer :: "string \<Rightarrow> kv_page \<Rightarrow> string \<Rightarrow> string \<Rightarrow> kv_plan \<Rightarrow> kv_pool \<Rightarrow> kv_pool" where
  "log_transfer kind p source target plan s = s\<lparr>kv_events := kv_events s @ [\<lparr>kt_kind = kind, kt_page = kp_id p,
     kt_source = source, kt_target = target, kt_bytes = kp_bytes p, kt_duration = kl_duration plan,
     kt_start = kl_start plan, kt_completion = kl_completion plan\<rparr>]\<rparr>"

text \<open>The page has moved: accounts, page, event.\<close>

definition publish :: "string \<Rightarrow> kv_page \<Rightarrow> kv_component \<Rightarrow> kv_plan \<Rightarrow> kv_pool \<Rightarrow> kv_pool" where
  "publish kind p target plan s = (let
     source = kp_owner p;
     s1 = shift_owned (kc_id target) (allocation_bytes (kc_id target) (kp_bytes p) s) (shift_owned source (- page_reserved p s) s)
   in log_transfer kind p source (kc_id target) plan
     (touch_page (kp_id p) (with_page (kp_id p) (arrive (kp_generation p + 1) target) s1)))"

definition fail_with :: "string \<Rightarrow> kv_pool \<Rightarrow> bool kv_op" where
  "fail_with m s = (Inr False, s\<lparr>kv_last_error := Some m\<rparr>)"

text \<open>After a failed commit the rollback hook runs and the ledger is moved back.\<close>

definition revert_move :: "kv_plan \<Rightarrow> kv_error \<Rightarrow> string \<Rightarrow> string \<Rightarrow> int \<Rightarrow> int \<Rightarrow> kv_pool \<Rightarrow> bool kv_op" where
  "revert_move plan e source target n m s = (case pool_transfer target source m n s of
     (reverted, s1) \<Rightarrow>
       (Inl (if run_hook (kl_rollback plan) = Inr () \<and> reverted = Inr True then e
           else Kv_Unsupported ''paged_pool transfer commit failed and rollback was incomplete''),
        s1\<lparr>kv_last_error := Some (error_text e)\<rparr>))"

definition move_page :: "kv_env \<Rightarrow> int \<Rightarrow> string \<Rightarrow> string \<Rightarrow> kv_pool \<Rightarrow> bool kv_op" where
  "move_page ev i target kind s = (case page_at i s of Inl e \<Rightarrow> (Inl e, s) | Inr p \<Rightarrow>
     if map_of (kv_pending s) i \<noteq> None then fail_with ''KV page already has an in-flight transfer'' s
     else case map_of (kv_components s) target of
       None \<Rightarrow> fail_with ''unknown target component'' s
     | Some tc \<Rightarrow>
       if kp_owner p = target then (Inr True, s\<lparr>kv_last_error := None\<rparr>)
       else if \<not> kc_writable tc then fail_with ''target component is read-only'' s
       else case map_of (kv_components s) (kp_owner p) of
         None \<Rightarrow> (Inl Kv_Missing, s)
       | Some sc \<Rightarrow> (case rbind (check_bandwidth sc True) (\<lambda>_. check_bandwidth tc False) of
         Inl e \<Rightarrow> (Inl e, s)
       | Inr _ \<Rightarrow>
         let source = kp_owner p; n = page_reserved p s; m = allocation_bytes target (kp_bytes p) s in
         if \<not> route_exists ev (Some source) target (kp_bytes p) then fail_with ''no topology route'' s
         else if \<not> can_transfer_sized source target n m (kv_ledger s)
         then fail_with ''target component has insufficient physical capacity'' s
         else (case transfer_plan ev p source target False s of
           Inl e \<Rightarrow> (Inl e, s\<lparr>kv_last_error := Some (error_text e)\<rparr>)
         | Inr plan \<Rightarrow> (case pool_transfer source target n m s of
             (Inl e, s1) \<Rightarrow> (Inl e, s1)
           | (Inr ok, s1) \<Rightarrow>
             if \<not> ok then (case run_hook (kl_rollback plan) of
                 Inl e \<Rightarrow> (Inl e, s1\<lparr>kv_last_error := Some ''physical transfer reservation could not be rolled back''\<rparr>)
               | Inr _ \<Rightarrow> fail_with ''physical ledger rejected transfer'' s1)
             else (case run_hook (kl_commit plan) of
                 Inl e \<Rightarrow> revert_move plan e source target n m s1
               | Inr _ \<Rightarrow> (Inr True, (publish kind p tc plan s1)\<lparr>kv_last_error := None\<rparr>))))))"

definition migrate_page :: "kv_env \<Rightarrow> int \<Rightarrow> string \<Rightarrow> kv_pool \<Rightarrow> bool kv_op" where
  "migrate_page ev i target s = (case page_at i s of Inl e \<Rightarrow> (Inl e, s) | Inr p \<Rightarrow>
     case map_of (kv_components s) target of
       None \<Rightarrow> (Inl Kv_Missing, s)
     | Some c \<Rightarrow> if \<not> kc_active c
         then (Inl (Kv_Unsupported ''migrate_page target must be active memory; use offload_page for backing tiers''), s)
         else move_page ev i target ''migration'' s)"

text \<open>The targets are tried in turn until one takes the page.\<close>

fun move_first :: "kv_env \<Rightarrow> int \<Rightarrow> string list \<Rightarrow> string \<Rightarrow> string \<Rightarrow> kv_pool \<Rightarrow> bool kv_op" where
  "move_first ev i [] kind otherwise s =
     (Inr False, s\<lparr>kv_last_error := (case kv_last_error s of None \<Rightarrow> Some otherwise
       | Some m \<Rightarrow> if m = [] then Some otherwise else Some m)\<rparr>)"
| "move_first ev i (target # targets) kind otherwise s = sbind (move_page ev i target kind s)
     (\<lambda>ok s. if ok then (Inr True, s) else move_first ev i targets kind otherwise s)"

definition offload_page :: "kv_env \<Rightarrow> int \<Rightarrow> string option \<Rightarrow> string \<Rightarrow> kv_pool \<Rightarrow> bool kv_op" where
  "offload_page ev i target kind s = (case page_at i s of Inl e \<Rightarrow> (Inl e, s) | Inr p \<Rightarrow>
     move_first ev i (filter (\<lambda>c. map_of (kv_components s) c \<noteq> None \<and> c \<in> set (kv_offload s))
         (case target of Some c \<Rightarrow> [c] | None \<Rightarrow> sort (remdups (kv_offload s))))
       kind ''no writable offload component has capacity'' s)"

definition restore_page :: "kv_env \<Rightarrow> int \<Rightarrow> string option \<Rightarrow> string \<Rightarrow> kv_pool \<Rightarrow> bool kv_op" where
  "restore_page ev i target kind s = (case page_at i s of Inl e \<Rightarrow> (Inl e, s) | Inr p \<Rightarrow>
     move_first ev i (filter (\<lambda>c. case map_of (kv_components s) c of None \<Rightarrow> False | Some x \<Rightarrow> kc_active x)
         (case target of Some c \<Rightarrow> [c]
          | None \<Rightarrow> candidate_ids ev (kp_layer p) (kp_bytes p) (Some (kp_owner p)) Any_Component True s))
       kind ''no active component has capacity for restore'' s)"


section \<open>Moving in two phases\<close>

definition prepare_restore :: "kv_env \<Rightarrow> int \<Rightarrow> string \<Rightarrow> string \<Rightarrow> kv_pool \<Rightarrow> kv_plan option kv_op" where
  "prepare_restore ev i target kind s = (case page_at i s of Inl e \<Rightarrow> (Inl e, s) | Inr p \<Rightarrow>
     (case map_of (kv_components s) target of
       None \<Rightarrow> (Inr None, s\<lparr>kv_last_error := Some ''invalid or already pending asynchronous restore''\<rparr>)
     | Some tc \<Rightarrow>
       if map_of (kv_pending s) i \<noteq> None \<or> \<not> kc_active tc \<or> \<not> kc_writable tc \<or> kp_owner p = target
         \<or> kp_refs p \<noteq> 1 \<or> kp_pinned p
       then (Inr None, s\<lparr>kv_last_error := Some ''invalid or already pending asynchronous restore''\<rparr>)
       else case map_of (kv_components s) (kp_owner p) of
         None \<Rightarrow> (Inl Kv_Missing, s)
       | Some sc \<Rightarrow> (case rbind (check_bandwidth sc True) (\<lambda>_. check_bandwidth tc False) of
         Inl e \<Rightarrow> (Inl e, s)
       | Inr _ \<Rightarrow> let source = kp_owner p; m = allocation_bytes target (kp_bytes p) s in
         if \<not> route_exists ev (Some source) target (kp_bytes p) \<or> \<not> can_adjust target m (kv_ledger s)
         then (Inr None, s\<lparr>kv_last_error := Some ''asynchronous restore has no route or destination capacity''\<rparr>)
         else (case transfer_plan ev p source target True s of
           Inl e \<Rightarrow> (Inl e, s)
         | Inr plan \<Rightarrow>
           if kl_start plan = None \<or> kl_completion plan = None
           then (Inl (case run_hook (kl_rollback plan) of Inl e \<Rightarrow> e | Inr _ \<Rightarrow>
               Kv_Unsupported ''asynchronous restore requires absolute physical completion timestamps''), s)
           else (case pool_adjust target m s of
             (Inl e, s1) \<Rightarrow> (Inl e, s1)
           | (Inr ok, s1) \<Rightarrow> if \<not> ok then (case run_hook (kl_rollback plan) of
                 Inl e \<Rightarrow> (Inl e, s1)
               | Inr _ \<Rightarrow> (Inr None, s1\<lparr>kv_last_error := Some ''physical ledger rejected asynchronous restore reservation''\<rparr>))
             else (Inr (Some plan), s1\<lparr>kv_pending := AList.update i (source, target, kp_generation p, kind) (kv_pending s1),
               kv_last_error := None\<rparr>))))))"

text \<open>
  A reservation is changed, a hook runs, and a failing hook puts the reservation back: the common
  part of aborting, completing and cancelling. The exception of a cancel hook passes unchanged.
\<close>

definition settle :: "string \<Rightarrow> int \<Rightarrow> kv_error + unit \<Rightarrow> string \<Rightarrow> string \<Rightarrow> kv_pool \<Rightarrow> unit kv_op" where
  "settle c delta outcome refusal trouble s = (case pool_adjust c delta s of
     (Inl e, s1) \<Rightarrow> (Inl e, s1)
   | (Inr ok, s1) \<Rightarrow> if \<not> ok then (Inl (Kv_Error refusal), s1)
     else case outcome of
       Inr _ \<Rightarrow> (Inr (), s1)
     | Inl e \<Rightarrow> (case pool_adjust c (- delta) s1 of
         (Inl e', s2) \<Rightarrow> (Inl e', s2)
       | (Inr back, s2) \<Rightarrow> (Inl (if back then e else Kv_Unsupported trouble), s2)))"

definition pending_page :: "int \<Rightarrow> kv_pool \<Rightarrow> kv_error + kv_page \<times> pending_move" where
  "pending_page i s = rbind (page_at i s) (\<lambda>p. case map_of (kv_pending s) i of None \<Rightarrow> Inl Kv_Missing | Some m \<Rightarrow> Inr (p, m))"

definition abort_restore :: "int \<Rightarrow> kv_plan \<Rightarrow> kv_pool \<Rightarrow> unit kv_op" where
  "abort_restore i plan s = (case pending_page i s of
     Inl e \<Rightarrow> (Inl e, s)
   | Inr (p, source, target, generation, kind) \<Rightarrow>
       sbind (settle target (- allocation_bytes target (kp_bytes p) s) (run_hook (kl_rollback plan))
           ''could not release asynchronous restore reservation''
           ''could not restore failed KV abort reservation'' s)
         (\<lambda>_ s. (Inr (), s\<lparr>kv_pending := AList.delete i (kv_pending s)\<rparr>)))"

definition complete_restore :: "int \<Rightarrow> kv_plan \<Rightarrow> int \<Rightarrow> kv_pool \<Rightarrow> unit kv_op" where
  "complete_restore i plan now s = (case pending_page i s of
     Inl e \<Rightarrow> (Inl e, s)
   | Inr (p, source, target, generation, kind) \<Rightarrow>
       if now < 0 \<or> kl_advance plan \<or> (case kl_completion plan of None \<Rightarrow> True | Some t \<Rightarrow> now < t)
       then (Inl (Kv_Error ''cannot consume a KV transfer before its completion''), s)
       else if kp_owner p \<noteq> source \<or> kp_generation p \<noteq> generation
       then (Inl (Kv_Error ''in-flight KV source identity changed''), s)
       else sbind (settle source (- allocation_bytes source (kp_bytes p) s) (run_hook (kl_commit plan))
           ''could not release completed KV transfer source''
           ''could not restore failed KV transfer source reservation'' s)
         (\<lambda>_ s. case map_of (kv_components s) target of
            None \<Rightarrow> (Inl Kv_Missing, s)
          | Some tc \<Rightarrow> (Inr (), (publish kind p tc plan s)\<lparr>kv_pending := AList.delete i (kv_pending s)\<rparr>)))"

definition cancel_restore :: "int \<Rightarrow> kv_plan \<Rightarrow> int \<Rightarrow> kv_pool \<Rightarrow> unit kv_op" where
  "cancel_restore i plan now s = (case pending_page i s of
     Inl e \<Rightarrow> (Inl e, s)
   | Inr (p, source, target, generation, kind) \<Rightarrow>
       if now < 0 \<or> (case kl_completion plan of None \<Rightarrow> True | Some t \<Rightarrow> now < t)
       then (Inl (Kv_Error ''cancellation must drain the currently submitted physical phase''), s)
       else if kp_owner p \<noteq> source \<or> kp_generation p \<noteq> generation
       then (Inl (Kv_Error ''in-flight KV source identity changed''), s)
       else if kl_cancel plan = No_Hook
       then (Inl (Kv_Unsupported ''executor does not support cost-preserving cancellation''), s)
       else sbind (settle target (- allocation_bytes target (kp_bytes p) s)
           (if kl_cancel plan = Hook_Raises then Inl Kv_Hook else Inr ())
           ''could not release cancelled restore reservation''
           ''could not restore failed KV cancellation reservation'' s)
         (\<lambda>_ s. (Inr (), s\<lparr>kv_pending := AList.delete i (kv_pending s)\<rparr>)))"

section \<open>Reports\<close>

record component_stat =
  cs_capacity :: int
  cs_used :: int
  cs_pool :: int
  cs_logical :: int
  cs_granularity :: int
  cs_free :: int
  cs_pages :: int
  cs_active :: bool
  cs_tier :: string

definition component_stats :: "kv_pool \<Rightarrow> (string, component_stat) dict" where
  "component_stats s = map (\<lambda>(c, component). (c, let owned = filter (\<lambda>p. kp_owner p = c) (map snd (kv_pages s)) in
     \<lparr>cs_capacity = kc_capacity component, cs_used = component_used c s, cs_pool = int_at (kv_owned s) c,
      cs_logical = sum_list (map kp_bytes owned), cs_granularity = granule_of c s,
      cs_free = component_free component s, cs_pages = int (length owned), cs_active = kc_active component,
      cs_tier = kc_tier component\<rparr>)) (kv_components s)"

text \<open>Another holder of the ledger adjusts it; \<open>pool.ledger\<close> hands it out.\<close>

definition outside_adjust :: "string \<Rightarrow> int \<Rightarrow> kv_pool \<Rightarrow> bool kv_op" where
  "outside_adjust = pool_adjust"

end
