(* ===== verification/Kv_Inv.thy ===== *)
theory Kv_Inv
  imports Kv_Pool
begin

text \<open>
  The invariant of the pool. Its accounts: what the pages own and what the copies in flight have
  reserved on a component is covered by the ledger, and the ledger stays within the capacity. Its
  references: the count of a page is the number of requests and prefixes that list it, the bindings
  are these requests, and only pinned pages may be without a reference. Operations work on the
  request lists before they store them, so the references are stated for given lists.
\<close>

section \<open>Lists of pages\<close>

definition refs_in :: "int \<Rightarrow> (string, int list) dict \<Rightarrow> int" where
  "refs_in i d = dict_sum (\<lambda>ids. if i \<in> set ids then 1 else 0) d"

definition lists_ok :: "(int \<Rightarrow> kv_page option) \<Rightarrow> (string, int list) dict \<Rightarrow> bool" where
  "lists_ok M d \<longleftrightarrow> wf_dict d \<and> (\<forall>k. distinct (ids_at d k) \<and> (\<forall>i \<in> set (ids_at d k). M i \<noteq> None))"

lemma ids_at_update [simp]: "ids_at (AList.update k ids d) k' = (if k' = k then ids else ids_at d k')"
  by (simp add: ids_at_def)

lemma ids_at_delete [simp]: "ids_at (AList.delete k d) k' = (if k' = k then [] else ids_at d k')"
  by (simp add: ids_at_def)

lemma ids_at_Nil [simp]: "ids_at [] k = []"
  by (simp add: ids_at_def)

lemma refs_in_Nil [simp]: "refs_in i [] = 0"
  by (simp add: refs_in_def)

lemma refs_in_nonneg: "0 \<le> refs_in i d"
  unfolding refs_in_def by (rule dict_sum_nonneg) simp

lemma refs_in_update:
  "wf_dict d \<Longrightarrow> refs_in i (AList.update k ids d) =
     refs_in i d - (if i \<in> set (ids_at d k) then 1 else 0) + (if i \<in> set ids then 1 else 0)"
  unfolding refs_in_def by (simp add: dict_sum_update dict_val_def ids_at_def split: option.splits)

lemma refs_in_delete:
  "wf_dict d \<Longrightarrow> refs_in i (AList.delete k d) = refs_in i d - (if i \<in> set (ids_at d k) then 1 else 0)"
  unfolding refs_in_def by (simp add: dict_sum_delete dict_val_def ids_at_def split: option.splits)

lemma refs_in_zero:
  assumes "wf_dict d"
  shows "refs_in i d = 0 \<longleftrightarrow> (\<forall>k. i \<notin> set (ids_at d k))"
proof
  assume z: "refs_in i d = 0"
  show "\<forall>k. i \<notin> set (ids_at d k)"
  proof
    fix k
    have "dict_val (\<lambda>ids. if i \<in> set ids then 1 else 0) d k \<le> refs_in i d"
      unfolding refs_in_def by (rule dict_val_le_sum [OF assms]) simp
    then show "i \<notin> set (ids_at d k)" using z by (auto simp: dict_val_def ids_at_def split: option.splits if_splits)
  qed
next
  assume n: "\<forall>k. i \<notin> set (ids_at d k)"
  have "\<forall>(k, ids) \<in> set d. i \<notin> set ids"
  proof (intro ballI, clarify)
    fix k ids assume "(k, ids) \<in> set d" "i \<in> set ids"
    then show False using n assms by (metis ids_at_def option.case(2) wf_dict_in_iff)
  qed
  then show "refs_in i d = 0" unfolding refs_in_def by (induction d) auto
qed

lemma refs_in_pos: "wf_dict d \<Longrightarrow> i \<in> set (ids_at d k) \<Longrightarrow> 1 \<le> refs_in i d"
  using refs_in_zero [of d i] refs_in_nonneg [of i d] by (metis int_one_le_iff_zero_less order_less_le)

lemma without_page_lists:
  assumes "wf_dict d"
  shows "wf_dict (without_page i d)" "ids_at (without_page i d) k = filter (\<lambda>v. v \<noteq> i) (ids_at d k)"
    "refs_in j (without_page i d) = (if j = i then 0 else refs_in j d)"
proof -
  let ?m = "map (\<lambda>(k, ids). (k, filter (\<lambda>v. v \<noteq> i) ids)) d"
  have mf: "map fst ?m = map fst d" by (induction d) auto
  have m: "wf_dict ?m" unfolding wf_dict_def mf using assms by (simp add: wf_dict_def)
  then show w: "wf_dict (without_page i d)" unfolding without_page_def wf_dict_def by (rule distinct_map_filter)
  have l: "map_of ?m k = map_option (filter (\<lambda>v. v \<noteq> i)) (map_of d k)" by (induction d) auto
  show "ids_at (without_page i d) k = filter (\<lambda>v. v \<noteq> i) (ids_at d k)"
  proof (cases "map_of (without_page i d) k")
    case None
    then have "\<forall>ids. (k, ids) \<notin> set (without_page i d)" using w wf_dict_in_iff [of "without_page i d" k] by simp
    then have "\<forall>ids. (k, ids) \<in> set ?m \<longrightarrow> ids = []" by (auto simp: without_page_def)
    then have "map_of ?m k = None \<or> map_of ?m k = Some []" using map_of_SomeD [of ?m k] by (cases "map_of ?m k") auto
    then show ?thesis using None l by (auto simp: ids_at_def split: option.splits)
  next
    case (Some ids)
    then have "(k, ids) \<in> set ?m" using map_of_SomeD [OF Some] by (auto simp: without_page_def)
    then have "map_of ?m k = Some ids" using m wf_dict_in_iff by fast
    then show ?thesis using Some l by (auto simp: ids_at_def split: option.splits)
  qed
  have "refs_in j (filter (\<lambda>(k, ids). ids \<noteq> []) e) = refs_in j e" for e
    unfolding refs_in_def by (induction e) auto
  moreover have "refs_in j ?m = (if j = i then 0 else refs_in j d)" unfolding refs_in_def by (induction d) auto
  ultimately show "refs_in j (without_page i d) = (if j = i then 0 else refs_in j d)" by (simp add: without_page_def)
qed

lemma lists_okD:
  assumes "lists_ok M d"
  shows "wf_dict d" "distinct (ids_at d k)" "i \<in> set (ids_at d k) \<Longrightarrow> M i \<noteq> None"
  using assms unfolding lists_ok_def by blast+

lemma lists_ok_update:
  "lists_ok M d \<Longrightarrow> distinct ids \<Longrightarrow> (\<And>i. i \<in> set ids \<Longrightarrow> M i \<noteq> None) \<Longrightarrow> lists_ok M (AList.update k ids d)"
  by (simp add: lists_ok_def)

lemma lists_ok_delete: "lists_ok M d \<Longrightarrow> lists_ok M (AList.delete k d)"
  by (simp add: lists_ok_def)

lemma lists_ok_mono: "lists_ok M d \<Longrightarrow> (\<And>i k. i \<in> set (ids_at d k) \<Longrightarrow> M i \<noteq> None \<Longrightarrow> M' i \<noteq> None) \<Longrightarrow> lists_ok M' d"
  unfolding lists_ok_def by blast

section \<open>Accounts\<close>

definition static_ok :: "kv_pool \<Rightarrow> bool" where
  "static_ok s \<longleftrightarrow> wf_dict (kv_components s) \<and>
     (\<forall>c x. map_of (kv_components s) c = Some x \<longrightarrow> c \<noteq> [] \<and> kc_id x = c \<and> 0 \<le> kc_capacity x \<and> 0 < granule_of c s) \<and>
     0 < kv_tokens s \<and> 0 < kv_default_bytes s \<and> (\<forall>layer n. map_of (kv_layer_bytes s) layer = Some n \<longrightarrow> 0 < n)"

definition claim_of :: "(string, int) dict \<Rightarrow> (int, pending_move) dict \<Rightarrow> string \<Rightarrow> kv_page \<Rightarrow> int" where
  "claim_of g pend c p = (if kp_owner p = c then round_up (kp_bytes p) (int_at g c) else 0) +
     (case map_of pend (kp_id p) of None \<Rightarrow> 0
      | Some m \<Rightarrow> if fst (snd m) = c then round_up (kp_bytes p) (int_at g c) else 0)"

definition claims :: "string \<Rightarrow> kv_pool \<Rightarrow> int" where
  "claims c s = dict_sum (claim_of (kv_granularity s) (kv_pending s) c) (kv_pages s)"

definition used_at :: "string \<Rightarrow> kv_pool \<Rightarrow> int" where
  "used_at c s = int_at (lg_used (kv_ledger s)) c"

definition accounts_ok :: "kv_pool \<Rightarrow> bool" where
  "accounts_ok s \<longleftrightarrow> (\<forall>c x. map_of (kv_components s) c = Some x \<longrightarrow>
       map_of (lg_limits (kv_ledger s)) c = Some (kc_capacity x) \<and> map_of (lg_used (kv_ledger s)) c \<noteq> None \<and>
       claims c s \<le> used_at c s \<and> used_at c s \<le> kc_capacity x) \<and>
     (\<forall>c. int_at (kv_owned s) c = owned_total (kv_granularity s) c (kv_pages s))"

definition page_ok :: "kv_pool \<Rightarrow> int \<Rightarrow> kv_page \<Rightarrow> bool" where
  "page_ok s i p \<longleftrightarrow> kp_id p = i \<and> 0 \<le> i \<and> i < kv_counter s \<and> 0 < kp_bytes p \<and>
     map_of (kv_components s) (kp_owner p) \<noteq> None \<and>
     (case map_of (kv_pending s) i of None \<Rightarrow> True | Some (source, target, generation, kind) \<Rightarrow>
       source = kp_owner p \<and> generation = kp_generation p \<and> target \<noteq> source \<and> map_of (kv_components s) target \<noteq> None)"

definition pages_ok :: "kv_pool \<Rightarrow> bool" where
  "pages_ok s \<longleftrightarrow> wf_dict (kv_pages s) \<and> (\<forall>i p. map_of (kv_pages s) i = Some p \<longrightarrow> page_ok s i p) \<and>
     (\<forall>i. map_of (kv_pending s) i \<noteq> None \<longrightarrow> i < kv_counter s) \<and> 0 \<le> kv_counter s \<and> 0 \<le> kv_clock s"

definition acc_ok :: "kv_pool \<Rightarrow> bool" where
  "acc_ok s \<longleftrightarrow> static_ok s \<and> accounts_ok s \<and> pages_ok s"

lemmas acc_defs = acc_ok_def static_ok_def accounts_ok_def pages_ok_def page_ok_def claims_def used_at_def granule_of_def

lemma acc_ok_fields [simp]:
  "acc_ok (s\<lparr>kv_requests := x\<rparr>) = acc_ok s"
  "acc_ok (s\<lparr>kv_request_components := y\<rparr>) = acc_ok s"
  "acc_ok (s\<lparr>kv_prefixes := x\<rparr>) = acc_ok s"
  "acc_ok (s\<lparr>kv_bindings := z\<rparr>) = acc_ok s"
  "acc_ok (s\<lparr>kv_events := e\<rparr>) = acc_ok s"
  "acc_ok (s\<lparr>kv_last_error := m\<rparr>) = acc_ok s"
  by (cases s; simp only: acc_defs kv_pool.select_convs kv_pool.update_convs)+

lemma acc_ok_clock: "acc_ok s \<Longrightarrow> 0 \<le> n \<Longrightarrow> acc_ok (s\<lparr>kv_clock := n\<rparr>)"
  by (cases s; simp only: acc_defs kv_pool.select_convs kv_pool.update_convs; blast)

lemma claim_nonneg:
  assumes "0 < int_at g c" "0 < kp_bytes p"
  shows "0 \<le> claim_of g pend c p"
  using round_up_ge [OF assms(1), of "kp_bytes p"] assms(2) by (simp add: claim_of_def split: option.splits)

lemma acc_okD:
  assumes "acc_ok s"
  shows "static_ok s" "accounts_ok s" "pages_ok s"
    "map_of (kv_components s) c = Some x \<Longrightarrow> c \<noteq> []" "map_of (kv_components s) c = Some x \<Longrightarrow> kc_id x = c"
    "map_of (kv_components s) c = Some x \<Longrightarrow> 0 < granule_of c s"
    "map_of (kv_components s) c = Some x \<Longrightarrow> map_of (lg_limits (kv_ledger s)) c = Some (kc_capacity x)"
    "map_of (kv_components s) c = Some x \<Longrightarrow> map_of (lg_used (kv_ledger s)) c = Some (used_at c s)"
    "map_of (kv_components s) c = Some x \<Longrightarrow> claims c s \<le> used_at c s"
    "map_of (kv_components s) c = Some x \<Longrightarrow> used_at c s \<le> kc_capacity x"
    "int_at (kv_owned s) c = owned_total (kv_granularity s) c (kv_pages s)"
    "wf_dict (kv_pages s)" "map_of (kv_pages s) i = Some p \<Longrightarrow> page_ok s i p"
    "map_of (kv_pending s) i \<noteq> None \<Longrightarrow> i < kv_counter s" "0 \<le> kv_counter s" "0 \<le> kv_clock s"
proof -
  show a: "static_ok s" "accounts_ok s" "pages_ok s" using assms by (simp_all add: acc_ok_def)
  show "map_of (kv_components s) c = Some x \<Longrightarrow> c \<noteq> []" "map_of (kv_components s) c = Some x \<Longrightarrow> kc_id x = c"
    "map_of (kv_components s) c = Some x \<Longrightarrow> 0 < granule_of c s"
    using a(1) unfolding static_ok_def by blast+
  show "map_of (kv_components s) c = Some x \<Longrightarrow> map_of (lg_limits (kv_ledger s)) c = Some (kc_capacity x)"
    "map_of (kv_components s) c = Some x \<Longrightarrow> claims c s \<le> used_at c s"
    "map_of (kv_components s) c = Some x \<Longrightarrow> used_at c s \<le> kc_capacity x"
    "int_at (kv_owned s) c = owned_total (kv_granularity s) c (kv_pages s)"
    using a(2) unfolding accounts_ok_def by blast+
  show "map_of (kv_components s) c = Some x \<Longrightarrow> map_of (lg_used (kv_ledger s)) c = Some (used_at c s)"
    using a(2) by (auto simp: accounts_ok_def used_at_def int_at_def split: option.splits)
  show "wf_dict (kv_pages s)" "map_of (kv_pages s) i = Some p \<Longrightarrow> page_ok s i p"
    "map_of (kv_pending s) i \<noteq> None \<Longrightarrow> i < kv_counter s" "0 \<le> kv_counter s" "0 \<le> kv_clock s"
    using a(3) unfolding pages_ok_def by blast+
qed

lemma page_okD:
  assumes "page_ok s i p"
  shows "kp_id p = i" "0 \<le> i" "i < kv_counter s" "0 < kp_bytes p" "map_of (kv_components s) (kp_owner p) \<noteq> None"
    "map_of (kv_pending s) i = Some (source, target, generation, kind) \<Longrightarrow> source = kp_owner p \<and> generation = kp_generation p
      \<and> target \<noteq> source \<and> map_of (kv_components s) target \<noteq> None"
  using assms by (auto simp: page_ok_def)

section \<open>Changing the ledger and the pages\<close>

definition charge :: "string \<Rightarrow> int \<Rightarrow> kv_pool \<Rightarrow> kv_pool" where
  "charge c delta s = s\<lparr>kv_ledger := (kv_ledger s)\<lparr>lg_used := AList.update c (used_at c s + delta) (lg_used (kv_ledger s))\<rparr>\<rparr>"

lemma charge_fields [simp]:
  "kv_components (charge c d s) = kv_components s" "kv_granularity (charge c d s) = kv_granularity s"
  "kv_tokens (charge c d s) = kv_tokens s" "kv_default_bytes (charge c d s) = kv_default_bytes s"
  "kv_layer_bytes (charge c d s) = kv_layer_bytes s" "kv_pages (charge c d s) = kv_pages s"
  "kv_requests (charge c d s) = kv_requests s" "kv_prefixes (charge c d s) = kv_prefixes s"
  "kv_pending (charge c d s) = kv_pending s" "kv_bindings (charge c d s) = kv_bindings s"
  "kv_owned (charge c d s) = kv_owned s" "kv_counter (charge c d s) = kv_counter s" "kv_clock (charge c d s) = kv_clock s"
  "kv_executor (charge c d s) = kv_executor s" "kv_last_error (charge c d s) = kv_last_error s"
  "kv_request_components (charge c d s) = kv_request_components s" "kv_offload (charge c d s) = kv_offload s"
  "kv_events (charge c d s) = kv_events s"
  "lg_limits (kv_ledger (charge c d s)) = lg_limits (kv_ledger s)"
  "used_at c' (charge c d s) = used_at c' s + (if c' = c then d else 0)"
  "map_of (lg_used (kv_ledger (charge c d s))) c' = (if c' = c then Some (used_at c s + d) else map_of (lg_used (kv_ledger s)) c')"
  by (simp_all add: charge_def used_at_def int_at_def)

lemma pool_adjust_run:
  assumes "acc_ok s" "map_of (kv_components s) c = Some x" "0 \<le> used_at c s + delta"
  shows "pool_adjust c delta s = (if delta \<le> 0 \<or> used_at c s + delta \<le> kc_capacity x then (Inr True, charge c delta s) else (Inr False, s))"
  using acc_okD(4,7) [OF assms(1,2)] assms(3)
  by (simp add: pool_adjust_def adjust_def can_adjust_def Let_def used_at_def charge_def)

lemma acc_okI:
  assumes "acc_ok s" "kv_components t = kv_components s" "kv_granularity t = kv_granularity s" "kv_tokens t = kv_tokens s"
    "kv_default_bytes t = kv_default_bytes s" "kv_layer_bytes t = kv_layer_bytes s"
    "lg_limits (kv_ledger t) = lg_limits (kv_ledger s)" "pages_ok t"
    "\<And>c x. map_of (kv_components s) c = Some x \<Longrightarrow> map_of (lg_used (kv_ledger t)) c \<noteq> None \<and> claims c t \<le> used_at c t \<and> used_at c t \<le> kc_capacity x"
    "\<And>c. int_at (kv_owned t) c = owned_total (kv_granularity s) c (kv_pages t)"
  shows "acc_ok t"
proof -
  have "static_ok t" using acc_okD(1) [OF assms(1)] unfolding static_ok_def granule_of_def assms(2-6) .
  moreover have "accounts_ok t"
    unfolding accounts_ok_def assms(2,3,7) using acc_okD(7) [OF assms(1)] assms(9,10) by blast
  ultimately show ?thesis using assms(8) by (simp add: acc_ok_def)
qed

lemma claims_update:
  assumes "wf_dict (kv_pages s)" "kv_pages t = AList.update i p (kv_pages s)" "kv_granularity t = kv_granularity s"
    "kv_pending t = kv_pending s"
  shows "claims c t = claims c s - dict_val (claim_of (kv_granularity s) (kv_pending s) c) (kv_pages s) i
    + claim_of (kv_granularity s) (kv_pending s) c p"
  using assms by (simp add: claims_def dict_sum_update)

lemma owned_total_update:
  "wf_dict d \<Longrightarrow> owned_total g c (AList.update i p d) = owned_total g c d
     - (case map_of d i of None \<Rightarrow> 0 | Some q \<Rightarrow> if kp_owner q = c then round_up (kp_bytes q) (int_at g c) else 0)
     + (if kp_owner p = c then round_up (kp_bytes p) (int_at g c) else 0)"
  by (simp add: owned_total_def dict_sum_update dict_val_def)

lemma owned_total_delete:
  "wf_dict d \<Longrightarrow> map_of d i = Some q \<Longrightarrow> owned_total g c (AList.delete i d) = owned_total g c d
     - (if kp_owner q = c then round_up (kp_bytes q) (int_at g c) else 0)"
  by (simp add: owned_total_def dict_sum_delete dict_val_def)

lemma page_ok_cong:
  assumes "kv_counter t = kv_counter s" "kv_components t = kv_components s" "kv_pending t = kv_pending s"
  shows "page_ok t = page_ok s"
  by (intro ext) (unfold page_ok_def assms, rule refl)

lemma acc_ok_with_page:
  assumes "acc_ok s" "\<And>p. kp_id (f p) = kp_id p" "\<And>p. kp_owner (f p) = kp_owner p" "\<And>p. kp_bytes (f p) = kp_bytes p"
    "\<And>p. kp_generation (f p) = kp_generation p"
  shows "acc_ok (with_page i f s)"
proof (cases "map_of (kv_pages s) i")
  case None
  then show ?thesis using assms(1) by (simp add: with_page_def)
next
  case (Some p)
  define t where "t = s\<lparr>kv_pages := AList.update i (f p) (kv_pages s)\<rparr>"
  have wf: "wf_dict (kv_pages s)" by (rule acc_okD(12) [OF assms(1)])
  have cl: "claim_of g d c (f p) = claim_of g d c p" for g d c by (simp only: claim_of_def assms(2-4))
  have claims: "claims c t = claims c s" for c
    using claims_update [OF wf, of t i "f p" c] by (simp add: t_def cl dict_val_def Some)
  have own: "owned_total g c (kv_pages t) = owned_total g c (kv_pages s)" for g c
    by (simp add: t_def owned_total_update [OF wf] Some assms)
  have "page_ok t i' p'" if "map_of (kv_pages t) i' = Some p'" for i' p'
  proof (cases "i' = i")
    case True
    then have "p' = f p" using that by (simp add: t_def)
    moreover have "page_ok s i (f p) = page_ok s i p" by (simp only: page_ok_def assms(2-5))
    ultimately have "page_ok s i' p'" using acc_okD(13) [OF assms(1) Some] True by simp
    then show ?thesis using page_ok_cong [of t s] by (simp add: t_def)
  next
    case False
    then have "page_ok s i' p'" using that acc_okD(13) [OF assms(1)] by (simp add: t_def)
    then show ?thesis using page_ok_cong [of t s] by (simp add: t_def)
  qed
  then have po: "pages_ok t" using acc_okD(3) [OF assms(1)] by (simp add: pages_ok_def t_def)
  have "acc_ok t"
  proof (rule acc_okI [OF assms(1) _ _ _ _ _ _ po])
    show "map_of (lg_used (kv_ledger t)) c \<noteq> None \<and> claims c t \<le> used_at c t \<and> used_at c t \<le> kc_capacity x"
      if "map_of (kv_components s) c = Some x" for c x
      using acc_okD(8-10) [OF assms(1) that] by (simp add: claims) (simp add: t_def used_at_def)
    show "int_at (kv_owned t) c = owned_total (kv_granularity s) c (kv_pages t)" for c
      using acc_okD(11) [OF assms(1), of c] by (simp add: own) (simp add: t_def)
  qed (simp_all add: t_def)
  then show ?thesis by (simp add: with_page_def Some t_def)
qed

lemma touch_acc: "acc_ok s \<Longrightarrow> acc_ok (touch_page i s)"
  unfolding touch_page_def Let_def
  by (intro acc_ok_with_page acc_ok_clock) (simp_all add: acc_okD(16))

lemma charge_swap:
  assumes "c \<noteq> c'" "map_of (lg_used (kv_ledger s)) c \<noteq> None"
  shows "charge c d (charge c' d' s) = charge c' d' (charge c d s)"
  using assms(1) dict_update_swap [OF assms(2,1)] by (simp add: charge_def used_at_def int_at_def)

section \<open>Freeing a page\<close>

definition freed :: "int \<Rightarrow> kv_page \<Rightarrow> kv_pool \<Rightarrow> kv_pool" where
  "freed i p s = (let n = page_reserved p s; left = int_at (kv_owned s) (kp_owner p) - n in
     (charge (kp_owner p) (- n) s)\<lparr>kv_pages := AList.delete i (kv_pages s),
       kv_owned := (if left \<le> 0 then AList.delete (kp_owner p) (kv_owned s) else AList.update (kp_owner p) left (kv_owned s)),
       kv_bindings := AList.delete i (kv_bindings s), kv_prefixes := without_page i (kv_prefixes s)\<rparr>)"

lemma freed_fields [simp]:
  "kv_components (freed i p s) = kv_components s" "kv_granularity (freed i p s) = kv_granularity s"
  "kv_pages (freed i p s) = AList.delete i (kv_pages s)" "kv_requests (freed i p s) = kv_requests s"
  "kv_prefixes (freed i p s) = without_page i (kv_prefixes s)" "kv_pending (freed i p s) = kv_pending s"
  "bound_to j (freed i p s) = (if j = i then {} else bound_to j s)" "kv_counter (freed i p s) = kv_counter s"
  "kv_clock (freed i p s) = kv_clock s" "kv_executor (freed i p s) = kv_executor s"
  "kv_request_components (freed i p s) = kv_request_components s"
  "used_at c (freed i p s) = used_at c s - (if c = kp_owner p then page_reserved p s else 0)"
  by (simp_all add: freed_def Let_def bound_to_def) (simp_all add: used_at_def charge_def int_at_def)

lemma free_page_ok:
  assumes a: "acc_ok s" and p: "map_of (kv_pages s) i = Some p"
  shows "free_page i s = (Inr (), freed i p s)" "acc_ok (freed i p s)"
proof -
  note wf = acc_okD(12) [OF a] and po = page_okD [OF acc_okD(13) [OF a p]]
  obtain x where x: "map_of (kv_components s) (kp_owner p) = Some x" using po(5) by blast
  let ?cl = "\<lambda>c. claim_of (kv_granularity s) (kv_pending s) c"
  have pos: "0 \<le> ?cl c q" if "map_of (kv_components s) c = Some y" "map_of (kv_pages s) j = Some q" for c y j q
    using claim_nonneg [of "kv_granularity s" c q] acc_okD(6) [OF a that(1)] page_okD(4) [OF acc_okD(13) [OF a that(2)]]
    by (simp add: granule_of_def)
  have le: "?cl c p \<le> claims c s" if c: "map_of (kv_components s) c = Some y" for c y
  proof -
    have "dict_val (?cl c) (kv_pages s) i \<le> claims c s"
      unfolding claims_def by (rule dict_val_le_sum [OF wf]) (use pos [OF c] wf_dict_in_iff [OF wf] in blast)
    then show ?thesis by (simp add: dict_val_def p)
  qed
  have own: "page_reserved p s \<le> ?cl (kp_owner p) p" "0 < page_reserved p s"
    using acc_okD(6) [OF a x] po(4) round_up_ge [of "granule_of (kp_owner p) s" "kp_bytes p"]
    by (auto simp: page_reserved_def allocation_bytes_def claim_of_def granule_of_def split: option.splits)
  have ge: "0 \<le> used_at (kp_owner p) s + - page_reserved p s"
    using le [OF x] own(1) acc_okD(9) [OF a x] by linarith
  have run: "pool_adjust (kp_owner p) (- page_reserved p s) s = (Inr True, charge (kp_owner p) (- page_reserved p s) s)"
    unfolding pool_adjust_run [OF a x ge] using own(2) by simp
  show "free_page i s = (Inr (), freed i p s)"
    by (simp add: free_page_def p Let_def run freed_def)
  let ?t = "freed i p s"
  have cl: "claims c ?t = claims c s - ?cl c p" for c
    by (simp add: claims_def dict_sum_delete [OF wf] dict_val_def p)
  have ot: "owned_total g c (kv_pages ?t) = owned_total g c (kv_pages s)
      - (if kp_owner p = c then round_up (kp_bytes p) (int_at g c) else 0)" for g c
    by (simp add: owned_total_delete [OF wf p])
  have onn: "0 \<le> owned_total (kv_granularity s) c (AList.delete i (kv_pages s))" if c: "map_of (kv_components s) c = Some y" for c y
    unfolding owned_total_def
  proof (rule dict_sum_nonneg)
    fix j q assume "(j, q) \<in> set (AList.delete i (kv_pages s))"
    then have "map_of (kv_pages s) j = Some q" using wf by (auto simp: AList.delete_eq wf_dict_in_iff)
    then have "0 < kp_bytes q" using page_okD(4) acc_okD(13) [OF a] by blast
    then show "0 \<le> (if kp_owner q = c then round_up (kp_bytes q) (int_at (kv_granularity s) c) else 0)"
      using round_up_ge [of "int_at (kv_granularity s) c" "kp_bytes q"] acc_okD(6) [OF a c] by (simp add: granule_of_def)
  qed
  have po': "pages_ok ?t"
    using acc_okD(3) [OF a] page_ok_cong [of ?t s] by (simp add: pages_ok_def)
  show "acc_ok ?t"
  proof (rule acc_okI [OF a _ _ _ _ _ _ po'])
    fix c y assume c: "map_of (kv_components s) c = Some y"
    have "map_of (lg_used (kv_ledger ?t)) c \<noteq> None" using acc_okD(8) [OF a c] by (simp add: freed_def Let_def)
    moreover have "claims c ?t \<le> used_at c ?t"
      using cl [of c] acc_okD(9) [OF a c] own(1) pos [OF c p] by (cases "c = kp_owner p") simp_all
    moreover have "used_at c ?t \<le> kc_capacity y" using acc_okD(10) [OF a c] own(2) by (cases "c = kp_owner p") simp_all
    ultimately show "map_of (lg_used (kv_ledger ?t)) c \<noteq> None \<and> claims c ?t \<le> used_at c ?t \<and> used_at c ?t \<le> kc_capacity y"
      by blast
  next
    fix c
    have o: "int_at (kv_owned s) c = owned_total (kv_granularity s) c (kv_pages s)" by (rule acc_okD(11) [OF a])
    show "int_at (kv_owned ?t) c = owned_total (kv_granularity s) c (kv_pages ?t)"
    proof (cases "c = kp_owner p")
      case True
      have "owned_total (kv_granularity s) c (kv_pages ?t) = int_at (kv_owned s) c - page_reserved p s"
        using ot [of "kv_granularity s" c] o True by (simp add: page_reserved_def allocation_bytes_def granule_of_def)
      then show ?thesis using onn [of c x] x True by (auto simp: freed_def Let_def int_at_def)
    next
      case False
      then show ?thesis using ot [of "kv_granularity s" c] o by (simp add: freed_def Let_def int_at_def)
    qed
  qed (simp_all add: freed_def Let_def)
qed

section \<open>References\<close>

definition refs_ok :: "(string, int list) dict \<Rightarrow> (string, int list) dict \<Rightarrow> kv_pool \<Rightarrow> bool" where
  "refs_ok R P s \<longleftrightarrow> lists_ok (map_of (kv_pages s)) R \<and> lists_ok (map_of (kv_pages s)) P \<and>
     (\<forall>i p. map_of (kv_pages s) i = Some p \<longrightarrow> kp_refs p = refs_in i R + refs_in i P \<and>
        (kp_refs p = 0 \<longrightarrow> kp_pinned p) \<and> bound_to i s = {r. i \<in> set (ids_at R r)}) \<and>
     (\<forall>i. map_of (kv_pages s) i = None \<longrightarrow> bound_to i s = {})"

definition kv_ok :: "(string, int list) dict \<Rightarrow> kv_pool \<Rightarrow> bool" where
  "kv_ok R s \<longleftrightarrow> acc_ok s \<and> refs_ok R (kv_prefixes s) s"

definition kv_inv :: "kv_pool \<Rightarrow> bool" where
  "kv_inv s \<longleftrightarrow> kv_ok (kv_requests s) s"

lemma refs_okD:
  assumes "refs_ok R P s"
  shows "lists_ok (map_of (kv_pages s)) R" "lists_ok (map_of (kv_pages s)) P"
    "map_of (kv_pages s) i = Some p \<Longrightarrow> kp_refs p = refs_in i R + refs_in i P"
    "map_of (kv_pages s) i = Some p \<Longrightarrow> kp_refs p = 0 \<Longrightarrow> kp_pinned p"
    "map_of (kv_pages s) i = Some p \<Longrightarrow> bound_to i s = {r. i \<in> set (ids_at R r)}"
    "map_of (kv_pages s) i = None \<Longrightarrow> bound_to i s = {}"
    "bound_to i s = {r. i \<in> set (ids_at R r)}"
proof -
  show "lists_ok (map_of (kv_pages s)) R" "lists_ok (map_of (kv_pages s)) P"
    "map_of (kv_pages s) i = Some p \<Longrightarrow> kp_refs p = refs_in i R + refs_in i P"
    "map_of (kv_pages s) i = Some p \<Longrightarrow> kp_refs p = 0 \<Longrightarrow> kp_pinned p"
    "map_of (kv_pages s) i = Some p \<Longrightarrow> bound_to i s = {r. i \<in> set (ids_at R r)}"
    "map_of (kv_pages s) i = None \<Longrightarrow> bound_to i s = {}"
    using assms unfolding refs_ok_def by blast+
  show "bound_to i s = {r. i \<in> set (ids_at R r)}"
    using assms unfolding refs_ok_def lists_ok_def by (cases "map_of (kv_pages s) i") blast+
qed

lemma refs_okI:
  assumes "lists_ok (map_of (kv_pages s)) R" "lists_ok (map_of (kv_pages s)) P"
    "\<And>i p. map_of (kv_pages s) i = Some p \<Longrightarrow> kp_refs p = refs_in i R + refs_in i P \<and>
       (kp_refs p = 0 \<longrightarrow> kp_pinned p) \<and> bound_to i s = {r. i \<in> set (ids_at R r)}"
    "\<And>i. map_of (kv_pages s) i = None \<Longrightarrow> bound_to i s = {}"
  shows "refs_ok R P s"
  using assms unfolding refs_ok_def by blast

lemma refs_ok_cong:
  assumes "map_of (kv_pages t) = map_of (kv_pages s)" "\<And>i. bound_to i t = bound_to i s"
  shows "refs_ok R P t = refs_ok R P s"
  unfolding refs_ok_def assms ..

lemma with_page_lookup:
  "map_of (kv_pages (with_page i f s)) j = (if j = i then map_option f (map_of (kv_pages s) i) else map_of (kv_pages s) j)"
  by (simp add: with_page_def split: option.splits)

lemma with_page_fields [simp]:
  "kv_components (with_page i f s) = kv_components s" "kv_granularity (with_page i f s) = kv_granularity s"
  "kv_requests (with_page i f s) = kv_requests s" "kv_prefixes (with_page i f s) = kv_prefixes s"
  "kv_pending (with_page i f s) = kv_pending s" "kv_bindings (with_page i f s) = kv_bindings s"
  "kv_ledger (with_page i f s) = kv_ledger s" "kv_counter (with_page i f s) = kv_counter s"
  "kv_owned (with_page i f s) = kv_owned s" "kv_executor (with_page i f s) = kv_executor s"
  "kv_request_components (with_page i f s) = kv_request_components s" "kv_clock (with_page i f s) = kv_clock s"
  "kv_tokens (with_page i f s) = kv_tokens s" "kv_events (with_page i f s) = kv_events s"
  "kv_last_error (with_page i f s) = kv_last_error s" "kv_offload (with_page i f s) = kv_offload s"
  "kv_default_bytes (with_page i f s) = kv_default_bytes s" "kv_layer_bytes (with_page i f s) = kv_layer_bytes s"
  by (simp_all add: with_page_def split: option.splits)

lemma bound_with_page [simp]: "bound_to j (with_page i f s) = bound_to j s" "used_at c (with_page i f s) = used_at c s"
  by (simp_all add: bound_to_def used_at_def)

lemma touch_fields [simp]:
  "kv_components (touch_page i s) = kv_components s" "kv_granularity (touch_page i s) = kv_granularity s"
  "kv_requests (touch_page i s) = kv_requests s" "kv_prefixes (touch_page i s) = kv_prefixes s"
  "kv_pending (touch_page i s) = kv_pending s" "kv_bindings (touch_page i s) = kv_bindings s"
  "kv_ledger (touch_page i s) = kv_ledger s" "kv_counter (touch_page i s) = kv_counter s"
  "kv_owned (touch_page i s) = kv_owned s" "kv_executor (touch_page i s) = kv_executor s"
  "kv_request_components (touch_page i s) = kv_request_components s" "kv_tokens (touch_page i s) = kv_tokens s"
  "kv_events (touch_page i s) = kv_events s" "kv_last_error (touch_page i s) = kv_last_error s"
  "kv_offload (touch_page i s) = kv_offload s" "kv_default_bytes (touch_page i s) = kv_default_bytes s"
  "kv_layer_bytes (touch_page i s) = kv_layer_bytes s" "bound_to j (touch_page i s) = bound_to j s" "used_at c (touch_page i s) = used_at c s"
  by (simp_all add: touch_page_def Let_def bound_to_def used_at_def)

lemma touch_lookup:
  "map_of (kv_pages (touch_page i s)) j = (if j = i then map_option (\<lambda>p. p\<lparr>kp_access := kv_clock s + 1\<rparr>) (map_of (kv_pages s) i)
     else map_of (kv_pages s) j)"
  by (simp add: touch_page_def Let_def with_page_lookup)

text \<open>Replacing a page by one with the same count and pin.\<close>

lemma refs_ok_pages:
  assumes "refs_ok R P s" "\<And>i. bound_to i t = bound_to i s"
    "\<And>i. map_option (\<lambda>p. (kp_refs p, kp_pinned p)) (map_of (kv_pages t) i) = map_option (\<lambda>p. (kp_refs p, kp_pinned p)) (map_of (kv_pages s) i)"
  shows "refs_ok R P t"
proof -
  have dom: "map_of (kv_pages t) i \<noteq> None \<longleftrightarrow> map_of (kv_pages s) i \<noteq> None" for i
    using assms(3) [of i] by (cases "map_of (kv_pages t) i"; cases "map_of (kv_pages s) i") simp_all
  have "lists_ok (map_of (kv_pages t)) R" "lists_ok (map_of (kv_pages t)) P"
    using refs_okD(1,2) [OF assms(1)] dom unfolding lists_ok_def by blast+
  moreover have "kp_refs p = refs_in i R + refs_in i P \<and> (kp_refs p = 0 \<longrightarrow> kp_pinned p) \<and> bound_to i t = {r. i \<in> set (ids_at R r)}"
    if p: "map_of (kv_pages t) i = Some p" for i p
  proof -
    obtain q where q: "map_of (kv_pages s) i = Some q" "kp_refs q = kp_refs p" "kp_pinned q = kp_pinned p"
      using assms(3) [of i] p by (cases "map_of (kv_pages s) i") auto
    then show ?thesis using refs_okD(3-5) [OF assms(1) q(1)] assms(2) by simp
  qed
  moreover have "bound_to i t = {}" if "map_of (kv_pages t) i = None" for i
    using refs_okD(6) [OF assms(1)] dom [of i] that assms(2) by blast
  ultimately show ?thesis by (intro refs_okI)
qed

lemma refs_ok_with_page:
  "refs_ok R P s \<Longrightarrow> (\<And>p. kp_refs (f p) = kp_refs p) \<Longrightarrow> (\<And>p. kp_pinned (f p) = kp_pinned p) \<Longrightarrow> refs_ok R P (with_page i f s)"
  by (rule refs_ok_pages, assumption) (simp, cases "map_of (kv_pages s) i", simp_all add: with_page_lookup)

lemma touch_refs: "refs_ok R P s \<Longrightarrow> refs_ok R P (touch_page i s)"
  by (rule refs_ok_pages, assumption) (simp, cases "map_of (kv_pages s) i", simp_all add: touch_lookup)

lemma lists_ok_without:
  assumes "lists_ok (map_of d) P"
  shows "lists_ok (map_of (AList.delete i d)) (without_page i P)"
proof -
  note w = without_page_lists [OF lists_okD(1) [OF assms], of i]
  show ?thesis
    unfolding lists_ok_def w(2)
  proof (intro conjI allI ballI)
    show "distinct (filter (\<lambda>v. v \<noteq> i) (ids_at P k))" for k using lists_okD(2) [OF assms] by simp
    show "map_of (AList.delete i d) j \<noteq> None" if "j \<in> set (filter (\<lambda>v. v \<noteq> i) (ids_at P k))" for j k
      using lists_okD(3) [OF assms, of j k] that by simp
  qed (rule w(1))
qed

text \<open>An unlisted page can be freed.\<close>

lemma free_refs:
  assumes "refs_ok R (kv_prefixes s) s" "\<And>r. i \<notin> set (ids_at R r)"
  shows "refs_ok R (kv_prefixes (freed i p s)) (freed i p s)"
proof -
  note l = refs_okD(1,2) [OF assms(1)] and lW = refs_okD(2) [OF assms(1)]
  have "lists_ok (map_of (kv_pages (freed i p s))) R"
    by (rule lists_ok_mono [OF l(1)]) (use assms(2) in auto)
  moreover have "lists_ok (map_of (kv_pages (freed i p s))) (without_page i (kv_prefixes s))"
    using lists_ok_without [OF l(2)] by simp
  moreover have "kp_refs q = refs_in j R + refs_in j (without_page i (kv_prefixes s)) \<and> (kp_refs q = 0 \<longrightarrow> kp_pinned q) \<and>
      bound_to j (freed i p s) = {r. j \<in> set (ids_at R r)}" if "map_of (kv_pages (freed i p s)) j = Some q" for j q
  proof -
    have j: "j \<noteq> i" "map_of (kv_pages s) j = Some q" using that by (simp_all split: if_splits)
    then show ?thesis using refs_okD(3-5) [OF assms(1) j(2)] without_page_lists(3) [OF lists_okD(1) [OF lW], of j i] by simp
  qed
  moreover have "bound_to j (freed i p s) = {}" if "map_of (kv_pages (freed i p s)) j = None" for j
    using refs_okD(6) [OF assms(1), of j] that by (simp split: if_splits)
  ultimately show ?thesis by (intro refs_okI) simp_all
qed

lemma drop_ref_keep:
  assumes "map_of (kv_pages s) i = Some p" "1 < kp_refs p \<or> kp_refs p = 1 \<and> kp_pinned p"
  shows "\<exists>b. drop_ref i binding s = (Inr (), with_page i (\<lambda>p. p\<lparr>kp_refs := kp_refs p - 1\<rparr>) (s\<lparr>kv_bindings := b\<rparr>)) \<and>
    (\<forall>j. bound_to j (s\<lparr>kv_bindings := b\<rparr>) = (if j = i then bound_to i s - set_option binding else bound_to j s))"
proof -
  let ?b = "case binding of None \<Rightarrow> kv_bindings s | Some r \<Rightarrow>
     (case map_of (kv_bindings s) i of None \<Rightarrow> kv_bindings s | Some rs \<Rightarrow> AList.update i (rs - {r}) (kv_bindings s))"
  have "drop_ref i binding s = (Inr (), with_page i (\<lambda>p. p\<lparr>kp_refs := kp_refs p - 1\<rparr>) (s\<lparr>kv_bindings := ?b\<rparr>))"
    using assms by (auto simp: drop_ref_def Let_def split: option.splits)
  then show ?thesis by (intro exI [of _ ?b] conjI) (auto simp: bound_to_def split: option.splits)
qed

lemma drop_ref_free:
  assumes "acc_ok s" "map_of (kv_pages s) i = Some p" "kp_refs p = 1" "\<not> kp_pinned p"
  shows "drop_ref i binding s = (Inr (), freed i p s)"
  using assms(2-4) free_page_ok(1) [OF assms(1,2)] by (simp add: drop_ref_def)

text \<open>Dropping the reference of a request takes the page from its list.\<close>

lemma drop_request_ok:
  assumes a: "acc_ok s" and r: "refs_ok R (kv_prefixes s) s" and i: "i \<in> set (ids_at R r)"
    and ids: "set ids = set (ids_at R r) - {i}" "distinct ids"
  shows "\<exists>t. drop_ref i (Some r) s = (Inr (), t) \<and> acc_ok t \<and> refs_ok (AList.update r ids R) (kv_prefixes t) t \<and>
    kv_requests t = kv_requests s \<and> kv_pending t = kv_pending s \<and> kv_request_components t = kv_request_components s"
proof -
  note lR = refs_okD(1) [OF r] and lP = refs_okD(2) [OF r]
  let ?R = "AList.update r ids R"
  obtain p where p: "map_of (kv_pages s) i = Some p" using lists_okD(3) [OF lR i] by blast
  note po = refs_okD(3-5) [OF r p]
  have one: "1 \<le> refs_in i R" by (rule refs_in_pos [OF lists_okD(1) [OF lR] i])
  have rf: "refs_in j ?R = refs_in j R - (if j = i then 1 else 0)" for j
    using refs_in_update [OF lists_okD(1) [OF lR], of j r ids] ids(1) i by auto
  have lR': "lists_ok M ?R" if "lists_ok M R" for M
    using that ids lists_okD(3) [OF that, of _ r] by (intro lists_ok_update) auto
  have bd: "{r'. j \<in> set (ids_at ?R r')} = (if j = i then {r'. j \<in> set (ids_at R r')} - {r} else {r'. j \<in> set (ids_at R r')})" for j
    using ids(1) by auto
  show ?thesis
  proof (cases "kp_refs p = 1 \<and> \<not> kp_pinned p")
    case True
    then have z: "refs_in i R = 1" "refs_in i (kv_prefixes s) = 0" using po(1) one refs_in_nonneg [of i "kv_prefixes s"] by simp_all
    then have "refs_in i ?R = 0" using rf by simp
    then have none: "i \<notin> set (ids_at ?R r')" for r' using refs_in_zero [OF lists_okD(1) [OF lR' [OF lR]]] by blast
    let ?t = "freed i p s"
    note lW = lP
    have "lists_ok (map_of (kv_pages ?t)) ?R"
      by (rule lists_ok_mono [OF lR' [OF lR]]) (use none in auto)
    moreover have "lists_ok (map_of (kv_pages ?t)) (without_page i (kv_prefixes s))"
      using lists_ok_without [OF lP] by simp
    moreover have "kp_refs q = refs_in j ?R + refs_in j (without_page i (kv_prefixes s)) \<and> (kp_refs q = 0 \<longrightarrow> kp_pinned q) \<and>
        bound_to j ?t = {r'. j \<in> set (ids_at ?R r')}" if "map_of (kv_pages ?t) j = Some q" for j q
    proof -
      have j: "j \<noteq> i" "map_of (kv_pages s) j = Some q" using that by (simp_all split: if_splits)
      then show ?thesis using refs_okD(3-5) [OF r j(2)] without_page_lists(3) [OF lists_okD(1) [OF lW], of j i] rf [of j] bd [of j] by simp
    qed
    moreover have "bound_to j ?t = {}" if "map_of (kv_pages ?t) j = None" for j
      using refs_okD(6) [OF r, of j] that by (simp split: if_splits)
    ultimately have "refs_ok ?R (kv_prefixes ?t) ?t" by (intro refs_okI) simp_all
    moreover have "acc_ok ?t" by (rule free_page_ok(2) [OF a p])
    moreover have "drop_ref i (Some r) s = (Inr (), ?t)" using drop_ref_free [OF a p] True by blast
    ultimately show ?thesis by (intro exI [of _ ?t]) simp
  next
    case False
    then have k: "1 < kp_refs p \<or> kp_refs p = 1 \<and> kp_pinned p"
      using po(1) one refs_in_nonneg [of i "kv_prefixes s"] by auto
    obtain b where b: "drop_ref i (Some r) s = (Inr (), with_page i (\<lambda>p. p\<lparr>kp_refs := kp_refs p - 1\<rparr>) (s\<lparr>kv_bindings := b\<rparr>))"
      "\<forall>j. bound_to j (s\<lparr>kv_bindings := b\<rparr>) = (if j = i then bound_to i s - {r} else bound_to j s)"
      using drop_ref_keep [OF p k, where binding = "Some r"] by (elim exE conjE) simp
    define t where "t = with_page i (\<lambda>p. p\<lparr>kp_refs := kp_refs p - 1\<rparr>) (s\<lparr>kv_bindings := b\<rparr>)"
    have at: "acc_ok t" unfolding t_def by (rule acc_ok_with_page) (simp_all add: a)
    have lk: "map_of (kv_pages t) j = (if j = i then Some (p\<lparr>kp_refs := kp_refs p - 1\<rparr>) else map_of (kv_pages s) j)" for j
      by (simp add: t_def with_page_lookup p)
    have "lists_ok (map_of (kv_pages t)) ?R"
      by (rule lists_ok_mono [OF lR' [OF lR]]) (simp add: lk)
    moreover have "lists_ok (map_of (kv_pages t)) (kv_prefixes s)" by (rule lists_ok_mono [OF lP]) (simp add: lk)
    moreover have "kp_refs q = refs_in j ?R + refs_in j (kv_prefixes s) \<and> (kp_refs q = 0 \<longrightarrow> kp_pinned q) \<and>
        bound_to j t = {r'. j \<in> set (ids_at ?R r')}" if q: "map_of (kv_pages t) j = Some q" for j q
    proof (cases "j = i")
      case True
      then have qq: "q = p\<lparr>kp_refs := kp_refs p - 1\<rparr>" using q by (simp add: lk)
      have "bound_to i t = bound_to i s - {r}" using b(2) by (simp add: t_def)
      then show ?thesis using True qq po k rf [of i] bd [of i] by auto
    next
      case False
      then have q': "map_of (kv_pages s) j = Some q" using q by (simp add: lk)
      have "bound_to j t = bound_to j s" using b(2) False by (simp add: t_def)
      then show ?thesis using refs_okD(3-5) [OF r q'] rf [of j] bd [of j] False by simp
    qed
    moreover have "kv_prefixes t = kv_prefixes s" by (simp add: t_def)
    moreover have "bound_to j t = {}" if "map_of (kv_pages t) j = None" for j
    proof -
      have "j \<noteq> i" "map_of (kv_pages s) j = None" using that by (simp_all add: lk split: if_splits)
      then show ?thesis using refs_okD(6) [OF r, of j] b(2) by (simp add: t_def)
    qed
    ultimately have "refs_ok ?R (kv_prefixes t) t" by (intro refs_okI) simp_all
    then show ?thesis using b(1) at by (intro exI [of _ t]) (simp add: t_def)
  qed
qed

lemma refs_ok_step:
  assumes "refs_ok R P s" "\<And>j. map_of (kv_pages t) j = (if j = i then Some q else map_of (kv_pages s) j)"
    "lists_ok (map_of (kv_pages t)) R'" "lists_ok (map_of (kv_pages t)) P'"
    "\<And>j. j \<noteq> i \<Longrightarrow> refs_in j R' + refs_in j P' = refs_in j R + refs_in j P"
    "\<And>j r. j \<noteq> i \<Longrightarrow> j \<in> set (ids_at R' r) \<longleftrightarrow> j \<in> set (ids_at R r)"
    "\<And>j. j \<noteq> i \<Longrightarrow> bound_to j t = bound_to j s"
    "kp_refs q = refs_in i R' + refs_in i P'" "kp_refs q = 0 \<longrightarrow> kp_pinned q" "bound_to i t = {r. i \<in> set (ids_at R' r)}"
  shows "refs_ok R' P' t"
proof -
  have "kp_refs p = refs_in j R' + refs_in j P' \<and> (kp_refs p = 0 \<longrightarrow> kp_pinned p) \<and> bound_to j t = {r. j \<in> set (ids_at R' r)}"
    if p: "map_of (kv_pages t) j = Some p" for j p
  proof (cases "j = i")
    case True
    then have "p = q" using p assms(2) by simp
    then show ?thesis using True assms(8-10) by simp
  next
    case False
    then have "map_of (kv_pages s) j = Some p" using p assms(2) by simp
    from refs_okD(3-5) [OF assms(1) this] show ?thesis using assms(5-7) [OF False] by simp
  qed
  moreover have "bound_to j t = {}" if "map_of (kv_pages t) j = None" for j
    using refs_okD(6) [OF assms(1), of j] assms(2,7) that by (cases "j = i") simp_all
  ultimately show ?thesis using assms(3,4) by (intro refs_okI)
qed

definition kept_but_pages :: "kv_pool \<Rightarrow> kv_pool \<Rightarrow> bool" where
  "kept_but_pages s t \<longleftrightarrow> kv_components t = kv_components s \<and> kv_granularity t = kv_granularity s \<and>
     kv_requests t = kv_requests s \<and> kv_request_components t = kv_request_components s \<and> kv_pending t = kv_pending s \<and>
     kv_executor t = kv_executor s \<and> kv_tokens t = kv_tokens s \<and> kv_events t = kv_events s \<and>
     kv_default_bytes t = kv_default_bytes s \<and> kv_layer_bytes t = kv_layer_bytes s \<and> kv_offload t = kv_offload s"

lemma kept_refl: "kept_but_pages s s"
  by (simp add: kept_but_pages_def)

lemma kept_trans: "kept_but_pages s t \<Longrightarrow> kept_but_pages t u \<Longrightarrow> kept_but_pages s u"
  by (simp add: kept_but_pages_def)

section \<open>Attaching a page\<close>

definition attached :: "int \<Rightarrow> string \<Rightarrow> kv_pool \<Rightarrow> kv_pool" where
  "attached i r s = touch_page i ((with_page i (\<lambda>p. p\<lparr>kp_refs := kp_refs p + 1\<rparr>) s)
     \<lparr>kv_bindings := AList.update i (insert r (bound_to i s)) (kv_bindings s)\<rparr>)"

lemma attached_lookup:
  "map_of (kv_pages (attached i r s)) j = (if j = i then map_option (\<lambda>p. p\<lparr>kp_refs := kp_refs p + 1, kp_access := kv_clock s + 1\<rparr>)
     (map_of (kv_pages s) i) else map_of (kv_pages s) j)"
  by (simp add: attached_def touch_lookup with_page_lookup option.map_comp comp_def)

lemma attached_fields [simp]:
  "kv_prefixes (attached i r s) = kv_prefixes s" "bound_to j (attached i r s) = (if j = i then insert r (bound_to i s) else bound_to j s)"
  "used_at c (attached i r s) = used_at c s"
  by (simp_all add: attached_def bound_to_def used_at_def)

lemma attached_kept: "kept_but_pages s (attached i r s)"
  by (simp add: kept_but_pages_def attached_def)

lemma attach_ref_ok:
  assumes a: "acc_ok s" and r: "refs_ok R (kv_prefixes s) s" and i: "map_of (kv_pages s) i \<noteq> None" "i \<notin> set (ids_at R r)"
  shows "attach_ref i r s = (Inr (), attached i r s)" "acc_ok (attached i r s)"
    "refs_ok (AList.update r (ids_at R r @ [i]) R) (kv_prefixes s) (attached i r s)"
proof -
  obtain p where p: "map_of (kv_pages s) i = Some p" using i(1) by blast
  show "attach_ref i r s = (Inr (), attached i r s)" by (simp add: attach_ref_def p attached_def)
  show "acc_ok (attached i r s)"
    unfolding attached_def by (intro touch_acc, simp, rule acc_ok_with_page) (simp_all add: a)
  note lR = refs_okD(1) [OF r] and lP = refs_okD(2) [OF r]
  let ?R = "AList.update r (ids_at R r @ [i]) R" and ?t = "attached i r s"
  let ?q = "p\<lparr>kp_refs := kp_refs p + 1, kp_access := kv_clock s + 1\<rparr>"
  have lk: "map_of (kv_pages ?t) j = (if j = i then Some ?q else map_of (kv_pages s) j)" for j
    by (simp add: attached_lookup p)
  have dom: "map_of (kv_pages s) j \<noteq> None \<Longrightarrow> map_of (kv_pages ?t) j \<noteq> None" for j by (simp add: lk)
  have rf: "refs_in j ?R = refs_in j R + (if j = i then 1 else 0)" for j
    using refs_in_update [OF lists_okD(1) [OF lR], of j r "ids_at R r @ [i]"] i(2) by auto
  show "refs_ok ?R (kv_prefixes s) ?t"
  proof (rule refs_ok_step [OF r lk])
    have "lists_ok (map_of (kv_pages ?t)) R" by (rule lists_ok_mono [OF lR dom])
    then show "lists_ok (map_of (kv_pages ?t)) ?R"
      using i(2) lists_okD(2) [OF lR, of r] lists_okD(3) [where k = r and M = "map_of (kv_pages ?t)" and d = R] dom [OF i(1)]
      by (intro lists_ok_update) auto
    show "lists_ok (map_of (kv_pages ?t)) (kv_prefixes s)" by (rule lists_ok_mono [OF lP dom])
    show "kp_refs ?q = refs_in i ?R + refs_in i (kv_prefixes s)" using refs_okD(3) [OF r p] by (simp add: rf)
    show "kp_refs ?q = 0 \<longrightarrow> kp_pinned ?q"
      using refs_okD(3) [OF r p] refs_in_nonneg [of i R] refs_in_nonneg [of i "kv_prefixes s"] by simp
    show "bound_to i ?t = {r'. i \<in> set (ids_at ?R r')}" using refs_okD(5) [OF r p] by auto
  qed (auto simp: rf)
qed

section \<open>Allocating a page\<close>

lemma register_acc:
  assumes a: "acc_ok s" and x: "map_of (kv_components s) (kp_owner p) = Some x" and p: "kp_id p = kv_counter s" "0 < kp_bytes p"
    and room: "used_at (kp_owner p) s + page_reserved p s \<le> kc_capacity x"
  defines "t \<equiv> register_page p ((charge (kp_owner p) (page_reserved p s) s)\<lparr>kv_counter := kv_counter s + 1\<rparr>)"
  shows "acc_ok t"
proof -
  note wf = acc_okD(12) [OF a]
  let ?i = "kv_counter s" and ?n = "page_reserved p s"
  have none: "map_of (kv_pages s) ?i = None" "map_of (kv_pending s) ?i = None"
  proof -
    show "map_of (kv_pages s) ?i = None"
    proof (rule ccontr)
      assume "map_of (kv_pages s) ?i \<noteq> None"
      then obtain q where "map_of (kv_pages s) ?i = Some q" by blast
      then show False using page_okD(3) [OF acc_okD(13) [OF a]] by blast
    qed
    show "map_of (kv_pending s) ?i = None" using acc_okD(14) [OF a, of ?i] by blast
  qed
  define s1 where "s1 = (charge (kp_owner p) ?n s)\<lparr>kv_counter := ?i + 1\<rparr>"
  define s2 where "s2 = put_page p s1"
  have s2: "kv_granularity s2 = kv_granularity s" "kv_owned s2 = kv_owned s" "kv_bindings s2 = kv_bindings s" "kv_ledger s2 = kv_ledger s1"
    "kv_pages s2 = AList.update ?i p (kv_pages s)" "kv_components s2 = kv_components s" "kv_pending s2 = kv_pending s"
    "kv_counter s2 = ?i + 1" "kv_clock s2 = kv_clock s" "kv_tokens s2 = kv_tokens s" "kv_default_bytes s2 = kv_default_bytes s"
    "kv_layer_bytes s2 = kv_layer_bytes s"
    by (simp_all add: s2_def put_page_def s1_def p(1))
  have led: "lg_limits (kv_ledger s1) = lg_limits (kv_ledger s)" "int_at (lg_used (kv_ledger s1)) c = used_at c s + (if c = kp_owner p then ?n else 0)"
    "map_of (lg_used (kv_ledger s1)) c = (if c = kp_owner p then Some (used_at (kp_owner p) s + ?n) else map_of (lg_used (kv_ledger s)) c)" for c
  proof -
    have k: "kv_ledger s1 = kv_ledger (charge (kp_owner p) ?n s)" by (simp add: s1_def)
    show "int_at (lg_used (kv_ledger s1)) c = used_at c s + (if c = kp_owner p then ?n else 0)"
      unfolding k used_at_def [of c "charge (kp_owner p) ?n s", symmetric] by simp
  qed (simp_all add: s1_def)
  have res: "page_reserved p s2 = ?n" unfolding page_reserved_def allocation_bytes_def granule_of_def s2 ..
  have t: "t = s2\<lparr>kv_owned := AList.update (kp_owner p) (int_at (kv_owned s2) (kp_owner p) + page_reserved p s2) (kv_owned s2),
       kv_bindings := AList.update (kp_id p) (insert (kp_request p) (bound_to (kp_id p) s2)) (kv_bindings s2)\<rparr>"
    unfolding t_def s1_def [symmetric] register_page_def Let_def s2_def [symmetric] ..
  have tf: "kv_pages t = AList.update ?i p (kv_pages s)" "kv_components t = kv_components s" "kv_granularity t = kv_granularity s"
    "kv_pending t = kv_pending s" "kv_counter t = ?i + 1" "kv_clock t = kv_clock s" "kv_tokens t = kv_tokens s"
    "kv_default_bytes t = kv_default_bytes s" "kv_layer_bytes t = kv_layer_bytes s"
    "lg_limits (kv_ledger t) = lg_limits (kv_ledger s)"
    "kv_owned t = AList.update (kp_owner p) (int_at (kv_owned s) (kp_owner p) + ?n) (kv_owned s)"
    "used_at c t = used_at c s + (if c = kp_owner p then ?n else 0)"
    "map_of (lg_used (kv_ledger t)) c = (if c = kp_owner p then Some (used_at (kp_owner p) s + ?n) else map_of (lg_used (kv_ledger s)) c)" for c
  proof -
    have kl: "kv_ledger t = kv_ledger s1" by (simp add: t s2)
    show "used_at c t = used_at c s + (if c = kp_owner p then ?n else 0)" by (simp only: used_at_def [of c t] kl led)
    show "lg_limits (kv_ledger t) = lg_limits (kv_ledger s)"
      "map_of (lg_used (kv_ledger t)) c = (if c = kp_owner p then Some (used_at (kp_owner p) s + ?n) else map_of (lg_used (kv_ledger s)) c)"
      unfolding kl by (rule led)+
  qed (simp_all add: t s2 res)
  have cl: "claims c t = claims c s + (if c = kp_owner p then ?n else 0)" for c
    using claims_update [OF wf tf(1,3,4), of c] none
    by (simp add: dict_val_def claim_of_def p(1) page_reserved_def allocation_bytes_def granule_of_def)
  have "page_ok t j q" if "map_of (kv_pages t) j = Some q" for j q
  proof (cases "j = ?i")
    case True
    then have "q = p" using that by (simp add: tf)
    then show ?thesis using True p x none(2) acc_okD(15) [OF a] by (simp add: page_ok_def tf)
  next
    case False
    then have "page_ok s j q" using that acc_okD(13) [OF a] by (simp add: tf)
    then show ?thesis unfolding page_ok_def tf(2,4,5) by linarith
  qed
  moreover have "j < ?i + 1" if "map_of (kv_pending s) j \<noteq> None" for j using acc_okD(14) [OF a that] by simp
  ultimately have po: "pages_ok t" using wf acc_okD(15,16) [OF a] by (simp add: pages_ok_def tf)
  show ?thesis
  proof (rule acc_okI [OF a tf(2,3,7-10) po])
    fix c y assume c: "map_of (kv_components s) c = Some y"
    have "map_of (lg_used (kv_ledger t)) c \<noteq> None" using acc_okD(8) [OF a c] by (simp add: tf)
    moreover have "claims c t \<le> used_at c t" using acc_okD(9) [OF a c] by (simp add: cl tf)
    moreover have "used_at c t \<le> kc_capacity y" using acc_okD(10) [OF a c] room x c by (cases "c = kp_owner p") (simp_all add: tf)
    ultimately show "map_of (lg_used (kv_ledger t)) c \<noteq> None \<and> claims c t \<le> used_at c t \<and> used_at c t \<le> kc_capacity y" by blast
  next
    fix c
    have "int_at (kv_owned t) c = int_at (kv_owned s) c + (if c = kp_owner p then ?n else 0)"
      by (simp add: tf int_at_def)
    then show "int_at (kv_owned t) c = owned_total (kv_granularity s) c (kv_pages t)"
      using acc_okD(11) [OF a, of c] none(1)
      by (simp add: tf owned_total_update [OF wf] page_reserved_def allocation_bytes_def granule_of_def)
  qed
qed

end
