(* ===== verification/Kv_Growth.thy ===== *)
theory Kv_Growth
  imports Kv_Inv
begin

text \<open>
  Growing and shrinking a request: the page that is placed, the loops of \<open>resize_request_detailed\<close>
  on request lists that are not stored yet, and the rollback of a growth that failed.
\<close>

section \<open>Placing one page\<close>

lemma charge_acc:
  assumes a: "acc_ok s" and x: "map_of (kv_components s) c = Some x" and n: "claims c s \<le> used_at c s + n" "used_at c s + n \<le> kc_capacity x"
  shows "acc_ok (charge c n s)"
proof (rule acc_okI [OF a])
  have "page_ok (charge c n s) = page_ok s" by (rule page_ok_cong) simp_all
  then show "pages_ok (charge c n s)" using acc_okD(3) [OF a] by (simp add: pages_ok_def)
  fix d y assume d: "map_of (kv_components s) d = Some y"
  have "claims d (charge c n s) = claims d s" by (simp add: claims_def)
  then show "map_of (lg_used (kv_ledger (charge c n s))) d \<noteq> None \<and> claims d (charge c n s) \<le> used_at d (charge c n s)
      \<and> used_at d (charge c n s) \<le> kc_capacity y"
    using acc_okD(8-10) [OF a d] n x d by (cases "d = c") simp_all
qed (simp_all add: acc_okD(11) [OF a])

lemma candidateD:
  assumes a: "acc_ok s" and c: "c \<in> set (candidate_ids ev layer n from compatible active s)"
  obtains x where "map_of (kv_components s) c = Some x" "kc_active x = active" "kc_writable x" "allowed_in compatible layer c"
    "route_exists ev from c n" "0 < allocation_bytes c n s \<Longrightarrow> used_at c s + allocation_bytes c n s \<le> kc_capacity x"
proof -
  obtain x where x: "(c, x) \<in> set (kv_components s)" "is_candidate ev layer n from compatible active s (c, x)"
    using c by (auto simp: candidate_ids_def)
  have "wf_dict (kv_components s)" using acc_okD(1) [OF a] by (simp add: static_ok_def)
  then have m: "map_of (kv_components s) c = Some x" using x(1) by (simp add: wf_dict_in_iff)
  show ?thesis
    by (rule that [OF m]) (use x(2) acc_okD(4,7) [OF a m] in \<open>auto simp: is_candidate_def can_adjust_def used_at_def\<close>)
qed

lemma candidateI:
  assumes a: "acc_ok s" and m: "map_of (kv_components s) c = Some x" and "kc_active x = active" "kc_writable x"
    "allowed_in compatible layer c" "route_exists ev from c n" "used_at c s + allocation_bytes c n s \<le> kc_capacity x" "0 \<le> used_at c s"
  shows "c \<in> set (candidate_ids ev layer n from compatible active s)"
proof -
  have "component_used c s = used_at c s" using acc_okD(8) [OF a m] assms(8) by (simp add: component_used_def)
  then have "is_candidate ev layer n from compatible active s (c, x)"
    using assms(3-8) acc_okD(4,5,7) [OF a m] by (simp add: is_candidate_def component_free_def can_adjust_def used_at_def)
  moreover have "(c, x) \<in> set (kv_components s)" by (rule map_of_SomeD [OF m])
  ultimately show ?thesis unfolding candidate_ids_def by force
qed

definition placed :: "resize_request \<Rightarrow> int \<Rightarrow> string \<Rightarrow> int \<Rightarrow> kv_pool \<Rightarrow> kv_pool" where
  "placed q index owner n s = touch_page (kv_counter s) (register_page (blank_page q index owner n s)
     ((charge owner (allocation_bytes owner n s) s)\<lparr>kv_counter := kv_counter s + 1\<rparr>))"

lemma blank_fields [simp]:
  "kp_id (blank_page q index owner n s) = kv_counter s" "kp_owner (blank_page q index owner n s) = owner"
  "kp_bytes (blank_page q index owner n s) = n" "kp_refs (blank_page q index owner n s) = 1"
  "\<not> kp_pinned (blank_page q index owner n s)" "kp_request (blank_page q index owner n s) = rz_request q"
  "blank_page q index owner n (charge c m s) = blank_page q index owner n s"
  by (simp_all add: blank_page_def Let_def)

lemma make_blank:
  assumes "acc_ok s" "0 \<le> index" "rz_request q \<noteq> []" "owner \<noteq> []" "0 < n"
  shows "make_page (blank_page q index owner n s) = (if rz_layer q = []
    then Inl (Kv_Error ''page request_id, layer_group, and owner_component are required'') else Inr (blank_page q index owner n s))"
proof -
  have t: "0 < kv_tokens s" using acc_okD(1) [OF assms(1)] by (simp add: static_ok_def)
  define start where "start = index * kv_tokens s"
  have nn: "0 \<le> start" using assms(2) t by (simp add: start_def)
  show ?thesis
    unfolding make_page_def blank_page_def Let_def start_def [symmetric]
    using assms(3-5) t nn acc_okD(15,16) [OF assms(1)] by (auto simp: min_def max_def split: option.splits)
qed

lemma bytes_for_layer_ok: "acc_ok s \<Longrightarrow> \<exists>n. bytes_for_layer layer s = Inr n \<and> 0 < n"
  using acc_okD(1) [of s] by (auto simp: bytes_for_layer_def Let_def static_ok_def not_le split: option.splits)

definition placement :: "resize_request \<Rightarrow> kv_pool \<Rightarrow> string \<Rightarrow> int \<Rightarrow> bool" where
  "placement q s owner n \<longleftrightarrow> bytes_for_layer (rz_layer q) s = Inr n \<and> 0 < n \<and> (\<exists>x. map_of (kv_components s) owner = Some x \<and>
     kc_active x \<and> kc_writable x \<and> 0 < allocation_bytes owner n s \<and> used_at owner s + allocation_bytes owner n s \<le> kc_capacity x)"

lemma allocate_one_cases:
  assumes a: "acc_ok s" and q: "0 \<le> index" "rz_request q \<noteq> []"
  shows "allocate_one ev q index s = (Inr None, s) \<or>
    (\<exists>owner n. placement q s owner n \<and> allocate_one ev q index s = (if rz_layer q = []
       then (Inl (Kv_Error ''page request_id, layer_group, and owner_component are required''), charge owner (allocation_bytes owner n s) s)
       else (Inr (Some (kv_counter s)), placed q index owner n s)))"
proof -
  obtain n where n: "bytes_for_layer (rz_layer q) s = Inr n" "0 < n" using bytes_for_layer_ok [OF a] by blast
  show ?thesis
  proof (cases "candidate_ids ev (rz_layer q) n (rz_component q) (rz_compat q) True s")
    case Nil
    then show ?thesis by (simp add: allocate_one_def n)
  next
    case (Cons owner rest)
    then have mem: "owner \<in> set (candidate_ids ev (rz_layer q) n (rz_component q) (rz_compat q) True s)" by simp
    obtain x where x: "map_of (kv_components s) owner = Some x" "kc_active x" "kc_writable x"
      "0 < allocation_bytes owner n s \<Longrightarrow> used_at owner s + allocation_bytes owner n s \<le> kc_capacity x"
      by (rule candidateD [OF a mem]) simp
    have pos: "0 < allocation_bytes owner n s"
      using round_up_ge [OF acc_okD(6) [OF a x(1)], of n] n(2) by (simp add: allocation_bytes_def)
    have nn: "0 \<le> used_at owner s"
    proof -
      have "0 \<le> claims owner s"
        unfolding claims_def
      proof (rule dict_sum_nonneg)
        fix j p assume "(j, p) \<in> set (kv_pages s)"
        then have "0 < kp_bytes p" using acc_okD(12) [OF a] page_okD(4) [OF acc_okD(13) [OF a]] by (simp add: wf_dict_in_iff)
        then show "0 \<le> claim_of (kv_granularity s) (kv_pending s) owner p"
          using claim_nonneg acc_okD(6) [OF a x(1)] by (simp add: granule_of_def)
      qed
      then show ?thesis using acc_okD(9) [OF a x(1)] by simp
    qed
    have run: "pool_adjust owner (allocation_bytes owner n s) s = (Inr True, charge owner (allocation_bytes owner n s) s)"
      using pool_adjust_run [OF a x(1), of "allocation_bytes owner n s"] x(4) [OF pos] pos nn by simp
    have pl: "placement q s owner n" using n x pos by (simp add: placement_def)
    have "allocate_one ev q index s = (if rz_layer q = []
       then (Inl (Kv_Error ''page request_id, layer_group, and owner_component are required''), charge owner (allocation_bytes owner n s) s)
       else (Inr (Some (kv_counter s)), placed q index owner n s))"
      unfolding allocate_one_def n(1) sum.case Cons list.case run prod.case
      by (simp add: make_blank [OF a q acc_okD(4) [OF a x(1)] n(2)] placed_def)
    then show ?thesis using pl by blast
  qed
qed

lemma claims_nonneg:
  assumes a: "acc_ok s" and x: "map_of (kv_components s) c = Some x"
  shows "0 \<le> claims c s" "0 \<le> used_at c s"
proof -
  show "0 \<le> claims c s"
    unfolding claims_def
  proof (rule dict_sum_nonneg)
    fix j p assume "(j, p) \<in> set (kv_pages s)"
    then have "0 < kp_bytes p" using acc_okD(12) [OF a] page_okD(4) [OF acc_okD(13) [OF a]] by (simp add: wf_dict_in_iff)
    then show "0 \<le> claim_of (kv_granularity s) (kv_pending s) c p"
      using claim_nonneg acc_okD(6) [OF a x] by (simp add: granule_of_def)
  qed
  then show "0 \<le> used_at c s" using acc_okD(9) [OF a x] by simp
qed

lemma placed_lookup:
  "map_of (kv_pages (placed q index owner n s)) j = (if j = kv_counter s
     then Some ((blank_page q index owner n s)\<lparr>kp_access := kv_clock s + 1\<rparr>) else map_of (kv_pages s) j)"
  by (simp add: placed_def touch_lookup register_page_def put_page_def Let_def)

lemma placed_fields [simp]:
  "kv_prefixes (placed q index owner n s) = kv_prefixes s"
  "bound_to j (placed q index owner n s) = (if j = kv_counter s then insert (rz_request q) (bound_to j s) else bound_to j s)"
  "used_at c (placed q index owner n s) = used_at c s + (if c = owner then allocation_bytes owner n s else 0)"
  "kv_counter (placed q index owner n s) = kv_counter s + 1"
proof -
  show "used_at c (placed q index owner n s) = used_at c s + (if c = owner then allocation_bytes owner n s else 0)"
    by (simp add: placed_def register_page_def put_page_def Let_def used_at_def [of c "_\<lparr>kv_owned := _, kv_bindings := _\<rparr>"]
      used_at_def [of c "charge owner _ s", symmetric])
qed (simp_all add: placed_def register_page_def put_page_def Let_def bound_to_def)

lemma placed_kept: "kept_but_pages s (placed q index owner n s)"
  by (simp add: kept_but_pages_def placed_def register_page_def put_page_def Let_def)

lemma placed_acc:
  assumes a: "acc_ok s" and pl: "placement q s owner n"
  shows "acc_ok (placed q index owner n s)"
proof -
  obtain x where x: "map_of (kv_components s) owner = Some x" "used_at owner s + allocation_bytes owner n s \<le> kc_capacity x" "0 < n"
    using pl by (auto simp: placement_def)
  let ?p = "blank_page q index owner n s"
  have e: "page_reserved ?p s = allocation_bytes owner n s" by (simp add: page_reserved_def)
  have "acc_ok (register_page ?p ((charge (kp_owner ?p) (page_reserved ?p s) s)\<lparr>kv_counter := kv_counter s + 1\<rparr>))"
    by (rule register_acc [OF a, of ?p x]) (use x e in simp_all)
  then show ?thesis unfolding placed_def e by (intro touch_acc) (simp add: e)
qed

lemma fresh_counter:
  assumes "acc_ok s"
  shows "map_of (kv_pages s) (kv_counter s) = None"
proof (rule ccontr)
  assume "map_of (kv_pages s) (kv_counter s) \<noteq> None"
  then obtain p where "map_of (kv_pages s) (kv_counter s) = Some p" by blast
  from page_okD(3) [OF acc_okD(13) [OF assms this]] show False by simp
qed

lemma placed_refs:
  assumes a: "acc_ok s" and r: "refs_ok R (kv_prefixes s) s"
  shows "refs_ok (AList.update (rz_request q) (ids_at R (rz_request q) @ [kv_counter s]) R) (kv_prefixes s) (placed q index owner n s)"
proof -
  note lR = refs_okD(1) [OF r] and lP = refs_okD(2) [OF r] and fresh = fresh_counter [OF a]
  let ?r = "rz_request q" and ?i = "kv_counter s" and ?t = "placed q index owner n s"
  let ?R = "AList.update ?r (ids_at R ?r @ [?i]) R"
  have nR: "?i \<notin> set (ids_at R k)" "?i \<notin> set (ids_at (kv_prefixes s) k)" for k
    using lists_okD(3) [OF lR, of ?i k] lists_okD(3) [OF lP, of ?i k] fresh by blast+
  have z: "refs_in ?i R = 0" "refs_in ?i (kv_prefixes s) = 0"
    using refs_in_zero [OF lists_okD(1) [OF lR]] refs_in_zero [OF lists_okD(1) [OF lP]] nR by blast+
  have rf: "refs_in j ?R = refs_in j R + (if j = ?i then 1 else 0)" for j
    using refs_in_update [OF lists_okD(1) [OF lR], of j ?r "ids_at R ?r @ [?i]"] nR(1) by auto
  have dom: "map_of (kv_pages s) j \<noteq> None \<Longrightarrow> map_of (kv_pages ?t) j \<noteq> None" for j by (simp add: placed_lookup)
  have nb: "bound_to ?i s = {}" by (rule refs_okD(6) [OF r fresh])
  show ?thesis
  proof (rule refs_ok_step [OF r placed_lookup])
    have "lists_ok (map_of (kv_pages ?t)) R" by (rule lists_ok_mono [OF lR dom])
    then show "lists_ok (map_of (kv_pages ?t)) ?R"
      using nR(1) [of ?r] lists_okD(2) [OF lR, of ?r] lists_okD(3) [OF lR, of _ ?r]
      by (intro lists_ok_update) (auto simp: placed_lookup)
    show "lists_ok (map_of (kv_pages ?t)) (kv_prefixes s)" by (rule lists_ok_mono [OF lP dom])
    show "bound_to ?i ?t = {r. ?i \<in> set (ids_at ?R r)}" using nR(1) by (auto simp: nb)
  qed (auto simp: rf z nR(1))
qed

section \<open>Observing a pool\<close>

lemma finite_listed: "finite {k. i \<in> set (ids_at d k)}"
proof (rule finite_subset [OF _ finite_dom_map_of [of d]])
  show "{k. i \<in> set (ids_at d k)} \<subseteq> dom (map_of d)"
  proof
    fix k assume "k \<in> {k. i \<in> set (ids_at d k)}"
    then show "k \<in> dom (map_of d)" by (cases "map_of d k") (simp_all add: ids_at_def domIff)
  qed
qed

lemma refs_in_card: "wf_dict d \<Longrightarrow> refs_in i d = int (card {k. i \<in> set (ids_at d k)})"
proof (induction d)
  case Nil
  then show ?case by simp
next
  case (Cons x d)
  obtain k ids where x: "x = (k, ids)" by (cases x)
  have w: "wf_dict d" "map_of d k = None" using Cons.prems by (simp_all add: x wf_dict_def map_of_eq_None_iff)
  then have e: "ids_at d k = []" by (simp add: ids_at_def)
  note fin = finite_listed [of i d]
  have at: "ids_at ((k, ids) # d) k' = (if k' = k then ids else ids_at d k')" for k' by (simp add: ids_at_def)
  have s: "{k'. i \<in> set (ids_at (x # d) k')} = (if i \<in> set ids then insert k {k. i \<in> set (ids_at d k)} else {k. i \<in> set (ids_at d k)})"
    unfolding x at using e by auto
  have "k \<notin> {k. i \<in> set (ids_at d k)}" using e by simp
  then show ?case using Cons.IH [OF w(1)] fin unfolding s by (simp add: x refs_in_def)
qed

lemma refs_ok_lists:
  assumes "refs_ok R P s" "wf_dict R'" "wf_dict P'" "\<And>k. ids_at R' k = ids_at R k" "\<And>k. ids_at P' k = ids_at P k"
  shows "refs_ok R' P' s"
proof -
  have w: "wf_dict R" "wf_dict P" using refs_okD(1,2) [OF assms(1)] lists_okD(1) by blast+
  have e: "refs_in i R' = refs_in i R" "refs_in i P' = refs_in i P" for i
    using refs_in_card [OF assms(2)] refs_in_card [OF assms(3)] refs_in_card [OF w(1)] refs_in_card [OF w(2)] assms(4,5) by simp_all
  show ?thesis
    using assms(1-3) unfolding refs_ok_def lists_ok_def e assms(4,5) by blast
qed

lemma refs_ok_fields [simp]:
  "refs_ok R P (s\<lparr>kv_requests := x\<rparr>) = refs_ok R P s"
  "refs_ok R P (s\<lparr>kv_request_components := y\<rparr>) = refs_ok R P s"
  "refs_ok R P (s\<lparr>kv_prefixes := x\<rparr>) = refs_ok R P s"
  "refs_ok R P (s\<lparr>kv_pending := z\<rparr>) = refs_ok R P s"
  "refs_ok R P (s\<lparr>kv_ledger := l\<rparr>) = refs_ok R P s"
  "refs_ok R P (s\<lparr>kv_owned := d\<rparr>) = refs_ok R P s"
  "refs_ok R P (s\<lparr>kv_clock := c1\<rparr>) = refs_ok R P s"
  "refs_ok R P (s\<lparr>kv_counter := c1\<rparr>) = refs_ok R P s"
  "refs_ok R P (s\<lparr>kv_granularity := d\<rparr>) = refs_ok R P s"
  "refs_ok R P (s\<lparr>kv_executor := b\<rparr>) = refs_ok R P s"
  "refs_ok R P (s\<lparr>kv_events := e\<rparr>) = refs_ok R P s"
  "refs_ok R P (s\<lparr>kv_last_error := m\<rparr>) = refs_ok R P s"
  "refs_ok R P (charge c n s) = refs_ok R P s"
  by (cases s; simp only: refs_ok_def bound_to_def charge_def kv_pool.select_convs kv_pool.update_convs)+

lemma kv_ok_fields [simp]:
  "kv_ok R (s\<lparr>kv_requests := x\<rparr>) = kv_ok R s"
  "kv_ok R (s\<lparr>kv_request_components := y\<rparr>) = kv_ok R s"
  "kv_ok R (s\<lparr>kv_events := e\<rparr>) = kv_ok R s"
  "kv_ok R (s\<lparr>kv_last_error := m\<rparr>) = kv_ok R s"
  by (simp_all add: kv_ok_def)

lemma kv_inv_fields [simp]:
  "kv_inv (s\<lparr>kv_request_components := y\<rparr>) = kv_inv s"
  "kv_inv (s\<lparr>kv_events := e\<rparr>) = kv_inv s"
  "kv_inv (s\<lparr>kv_last_error := m\<rparr>) = kv_inv s"
  by (simp_all add: kv_inv_def)

lemma kv_ok_lists:
  "kv_ok R s \<Longrightarrow> wf_dict R' \<Longrightarrow> (\<And>k. ids_at R' k = ids_at R k) \<Longrightarrow> kv_ok R' s"
  unfolding kv_ok_def using refs_ok_lists refs_okD(2) lists_okD(1) by blast

definition untimed :: "kv_page \<Rightarrow> kv_page" where
  "untimed p = p\<lparr>kp_access := 0\<rparr>"

text \<open>Two pools with the same content; last accesses, the clock and the next page id may differ.\<close>

definition like :: "kv_pool \<Rightarrow> kv_pool \<Rightarrow> bool" where
  "like s t \<longleftrightarrow> kept_but_pages t s \<and> (\<forall>k. ids_at (kv_prefixes s) k = ids_at (kv_prefixes t) k) \<and>
     (\<forall>i. bound_to i s = bound_to i t) \<and> (\<forall>c. used_at c s = used_at c t) \<and>
     (\<forall>i. map_option untimed (map_of (kv_pages s) i) = map_option untimed (map_of (kv_pages t) i))"

lemma like_refl: "like s s"
  by (simp add: like_def kept_refl)

lemma like_trans: "like s t \<Longrightarrow> like t u \<Longrightarrow> like s u"
  by (simp add: like_def kept_but_pages_def)

lemma likeD:
  assumes "like s t"
  shows "kept_but_pages t s" "ids_at (kv_prefixes s) k = ids_at (kv_prefixes t) k" "bound_to i s = bound_to i t"
    "used_at c s = used_at c t" "map_option untimed (map_of (kv_pages s) i) = map_option untimed (map_of (kv_pages t) i)"
  using assms unfolding like_def by blast+

lemma untimed_eq:
  "untimed p = untimed q \<Longrightarrow> kp_owner p = kp_owner q \<and> kp_bytes p = kp_bytes q \<and> kp_refs p = kp_refs q \<and> kp_pinned p = kp_pinned q"
  by (cases p; cases q) (simp add: untimed_def)

lemma like_owned:
  assumes "acc_ok s" "acc_ok t" "like t s"
  shows "int_at (kv_owned t) c = int_at (kv_owned s) c"
proof -
  let ?f = "\<lambda>p. if kp_owner p = c then round_up (kp_bytes p) (int_at (kv_granularity s) c) else 0"
  have "map_option ?f (map_of (kv_pages t) k) = map_option ?f (map_of (kv_pages s) k)" for k
  proof (cases "map_of (kv_pages t) k")
    case None
    then show ?thesis using likeD(5) [OF assms(3), of k] by simp
  next
    case (Some q)
    then obtain p where p: "map_of (kv_pages s) k = Some p" "untimed q = untimed p"
      using likeD(5) [OF assms(3), of k] by (cases "map_of (kv_pages s) k") simp_all
    show ?thesis using untimed_eq [OF p(2)] by (simp add: Some p(1))
  qed
  then have "owned_total (kv_granularity s) c (kv_pages t) = owned_total (kv_granularity s) c (kv_pages s)"
    unfolding owned_total_def by (rule dict_sum_ext [OF acc_okD(12) [OF assms(2)] acc_okD(12) [OF assms(1)]])
  then show ?thesis
    using acc_okD(11) [OF assms(1), of c] acc_okD(11) [OF assms(2), of c] likeD(1) [OF assms(3)]
    by (simp add: kept_but_pages_def)
qed

lemma untimed_simps [simp]:
  "untimed (p\<lparr>kp_access := n\<rparr>) = untimed p" "untimed (p\<lparr>kp_refs := m\<rparr>) = (untimed p)\<lparr>kp_refs := m\<rparr>"
  by (simp_all add: untimed_def)

lemma untimed_drop: "untimed p' = untimed (p\<lparr>kp_refs := m\<rparr>) \<Longrightarrow> untimed (p'\<lparr>kp_refs := kp_refs p\<rparr>) = untimed p"
  by (cases p; cases p') (simp add: untimed_def)

lemma freed_kept: "kept_but_pages s (freed i p s)"
  by (simp add: kept_but_pages_def freed_def Let_def)

definition sound :: "kv_pool \<Rightarrow> bool" where
  "sound s \<longleftrightarrow> acc_ok s \<and> wf_dict (kv_prefixes s)"

lemma kv_ok_sound: "kv_ok R s \<Longrightarrow> sound s"
  unfolding kv_ok_def sound_def using refs_okD(2) lists_okD(1) by blast

text \<open>Dropping drops_undo placing and attaching.\<close>

lemma undo_placed:
  assumes k: "kv_ok R s" and u: "sound u" "like u (placed q index owner n s)"
  shows "\<exists>v. drop_ref (kv_counter s) (Some r) u = (Inr (), v) \<and> sound v \<and> like v s"
proof -
  have a: "acc_ok s" and rf: "refs_ok R (kv_prefixes s) s" and au: "acc_ok u" and wu: "wf_dict (kv_prefixes u)"
    using k u(1) by (simp_all add: kv_ok_def sound_def)
  note lP = refs_okD(2) [OF rf] and fresh = fresh_counter [OF a] and l = likeD [OF u(2)]
  let ?i = "kv_counter s" and ?b = "blank_page q index owner n s"
  have "map_option untimed (map_of (kv_pages u) ?i) = Some (untimed ?b)" using l(5) [of ?i] by (simp add: placed_lookup)
  then obtain p where p: "map_of (kv_pages u) ?i = Some p" "untimed p = untimed ?b" by blast
  have pf: "kp_owner p = owner" "kp_bytes p = n" "kp_refs p = 1" "\<not> kp_pinned p"
    using untimed_eq [OF p(2)] by simp_all
  have g: "kv_granularity u = kv_granularity s"
    using l(1) placed_kept [of s q index owner n] by (simp add: kept_but_pages_def)
  have pr: "page_reserved p u = allocation_bytes owner n s" by (simp add: page_reserved_def allocation_bytes_def granule_of_def pf g)
  let ?v = "freed ?i p u"
  have "drop_ref ?i (Some r) u = (Inr (), ?v)" by (rule drop_ref_free [OF au p(1) pf(3,4)])
  moreover have "sound ?v"
    using free_page_ok(2) [OF au p(1)] without_page_lists(1) [OF wu] by (simp add: sound_def)
  moreover have "like ?v s"
    unfolding like_def
  proof (intro conjI allI)
    show "kept_but_pages s ?v" by (rule kept_trans [OF kept_trans [OF placed_kept l(1)] freed_kept])
    show "ids_at (kv_prefixes ?v) k = ids_at (kv_prefixes s) k" for k
    proof -
      have "?i \<notin> set (ids_at (kv_prefixes s) k)" using lists_okD(3) [OF lP, of ?i k] fresh by blast
      then show ?thesis by (simp add: without_page_lists(2) [OF wu] l(2) filter_id_conv) (auto intro!: filter_True)
    qed
    show "bound_to i ?v = bound_to i s" for i using l(3) [of i] refs_okD(6) [OF rf fresh] by simp
    show "used_at c ?v = used_at c s" for c using l(4) [of c] by (simp add: pf pr)
    show "map_option untimed (map_of (kv_pages ?v) i) = map_option untimed (map_of (kv_pages s) i)" for i
      using l(5) [of i] by (simp add: fresh placed_lookup)
  qed
  ultimately show ?thesis by blast
qed

lemma undo_attached:
  assumes k: "kv_ok R s" and i: "map_of (kv_pages s) i \<noteq> None" "i \<notin> set (ids_at R r)" and u: "sound u" "like u (attached i r s)"
  shows "\<exists>v. drop_ref i (Some r) u = (Inr (), v) \<and> sound v \<and> like v s"
proof -
  have rf: "refs_ok R (kv_prefixes s) s" and au: "acc_ok u" and wu: "wf_dict (kv_prefixes u)"
    using k u(1) by (simp_all add: kv_ok_def sound_def)
  note l = likeD [OF u(2)]
  obtain p where p: "map_of (kv_pages s) i = Some p" using i(1) by blast
  have "map_option untimed (map_of (kv_pages u) i) = Some (untimed (p\<lparr>kp_refs := kp_refs p + 1\<rparr>))"
    using l(5) [of i] by (simp add: attached_lookup p)
  then obtain p' where p': "map_of (kv_pages u) i = Some p'" "untimed p' = untimed (p\<lparr>kp_refs := kp_refs p + 1\<rparr>)" by blast
  have pf: "kp_refs p' = kp_refs p + 1" "kp_pinned p' = kp_pinned p" using untimed_eq [OF p'(2)] by simp_all
  have "0 \<le> kp_refs p" using refs_okD(3) [OF rf p] refs_in_nonneg [of i R] refs_in_nonneg [of i "kv_prefixes s"] by simp
  then have "1 < kp_refs p' \<or> kp_refs p' = 1 \<and> kp_pinned p'" using refs_okD(4) [OF rf p] pf by (cases "kp_refs p = 0") simp_all
  from drop_ref_keep [OF p'(1) this, of "Some r"] obtain b where
    b: "drop_ref i (Some r) u = (Inr (), with_page i (\<lambda>p. p\<lparr>kp_refs := kp_refs p - 1\<rparr>) (u\<lparr>kv_bindings := b\<rparr>))"
      "\<forall>j. bound_to j (u\<lparr>kv_bindings := b\<rparr>) = (if j = i then bound_to i u - set_option (Some r) else bound_to j u)" by blast
  let ?v = "with_page i (\<lambda>p. p\<lparr>kp_refs := kp_refs p - 1\<rparr>) (u\<lparr>kv_bindings := b\<rparr>)"
  have "sound ?v" using au wu by (simp add: sound_def acc_ok_with_page)
  moreover have "like ?v s"
    unfolding like_def
  proof (intro conjI allI)
    have "kept_but_pages u ?v" by (simp add: kept_but_pages_def)
    then show "kept_but_pages s ?v" by (intro kept_trans [OF kept_trans [OF attached_kept l(1)]])
    show "ids_at (kv_prefixes ?v) k = ids_at (kv_prefixes s) k" for k using l(2) by simp
    show "bound_to j ?v = bound_to j s" for j
    proof -
      have "r \<notin> bound_to i s" using refs_okD(5) [OF rf p] i(2) by simp
      then show ?thesis using b(2) l(3) [of j] l(3) [of i] by (cases "j = i") auto
    qed
    show "used_at c ?v = used_at c s" for c
      using l(4) [of c] attached_fields(3) by (simp only: used_at_def [of c "with_page i _ _"]) (simp add: used_at_def)
    show "map_option untimed (map_of (kv_pages ?v) j) = map_option untimed (map_of (kv_pages s) j)" for j
    proof (cases "j = i")
      case True
      have "kp_refs p' - 1 = kp_refs p" using pf by simp
      then show ?thesis using True untimed_drop [OF p'(2)] by (simp add: with_page_lookup p' p del: untimed_simps)
    next
      case False
      then show ?thesis using l(5) [of j] by (simp add: with_page_lookup attached_lookup)
    qed
  qed
  ultimately show ?thesis using b(1) by blast
qed

section \<open>The loops of a growth\<close>

lemma kv_okD:
  assumes "kv_ok R s"
  shows "acc_ok s" "refs_ok R (kv_prefixes s) s" "lists_ok (map_of (kv_pages s)) R" "lists_ok (map_of (kv_pages s)) (kv_prefixes s)"
    "wf_dict R"
  using assms refs_okD(1,2) lists_okD(1) unfolding kv_ok_def by blast+

lemma attached_ok:
  assumes "kv_ok R s" "map_of (kv_pages s) i \<noteq> None" "i \<notin> set (ids_at R r)"
  shows "attach_ref i r s = (Inr (), attached i r s)" "kv_ok (AList.update r (ids_at R r @ [i]) R) (attached i r s)"
  using attach_ref_ok [OF kv_okD(1,2) [OF assms(1)] assms(2,3)] by (simp_all add: kv_ok_def kv_okD)

lemma kv_ok_update_cong:
  assumes "kv_ok (AList.update r a (AList.update r b R)) s" "wf_dict R"
  shows "kv_ok (AList.update r a R) s"
  by (rule kv_ok_lists [OF assms(1)]) (simp_all add: assms(2))

text \<open>What a loop leaves: the invariant for the extended list, and a state that can be undone.\<close>

definition drops_undo :: "string \<Rightarrow> int list \<Rightarrow> kv_pool \<Rightarrow> kv_pool \<Rightarrow> bool" where
  "drops_undo r ids s t \<longleftrightarrow> (\<forall>u. sound u \<and> like u t \<longrightarrow> (\<exists>v. drop_each r (rev ids) u = (Inr (), v) \<and> sound v \<and> like v s))"

lemma drops_undoD: "drops_undo r ids s t \<Longrightarrow> sound u \<Longrightarrow> like u t \<Longrightarrow> \<exists>v. drop_each r (rev ids) u = (Inr (), v) \<and> sound v \<and> like v s"
  unfolding drops_undo_def by blast

lemma drops_undo_Nil: "drops_undo r [] s s"
  by (simp add: drops_undo_def)

lemma drop_each_append:
  "drop_each r (xs @ ys) s = sbind (drop_each r xs s) (\<lambda>_ s. drop_each r ys s)"
  by (induction r xs s rule: drop_each.induct) (auto simp: sbind_def split: prod.splits sum.splits)

lemma drops_undo_Cons:
  assumes "drops_undo r ids s' t" and one: "\<And>u. sound u \<Longrightarrow> like u s' \<Longrightarrow> \<exists>v. drop_ref i (Some r) u = (Inr (), v) \<and> sound v \<and> like v s"
  shows "drops_undo r (i # ids) s t"
  unfolding drops_undo_def
proof (intro allI impI, elim conjE)
  fix u assume u: "sound u" "like u t"
  obtain v where v: "drop_each r (rev ids) u = (Inr (), v)" "sound v" "like v s'" using drops_undoD [OF assms(1) u] by blast
  obtain w where w: "drop_ref i (Some r) v = (Inr (), w)" "sound w" "like w s" using one [OF v(2,3)] by blast
  show "\<exists>v. drop_each r (rev (i # ids)) u = (Inr (), v) \<and> sound v \<and> like v s"
    using w by (simp add: drop_each_append v(1) sbind_def)
qed

lemma attach_all_ok:
  assumes "kv_ok R s" "distinct ids" "\<forall>i \<in> set ids. map_of (kv_pages s) i \<noteq> None \<and> i \<notin> set (ids_at R r)"
  shows "\<exists>t. attach_all r ids acc s = ((None, acc @ ids), t) \<and> kv_ok (AList.update r (ids_at R r @ ids) R) t \<and>
    kept_but_pages s t \<and> kv_prefixes t = kv_prefixes s \<and> drops_undo r ids s t"
  using assms
proof (induction ids arbitrary: R s acc)
  case Nil
  have "kv_ok (AList.update r (ids_at R r) R) s" by (rule kv_ok_lists [OF Nil(1)]) (simp_all add: kv_okD(5) [OF Nil(1)])
  then show ?case by (simp add: kept_refl drops_undo_Nil)
next
  case (Cons i ids)
  let ?s = "attached i r s" and ?R = "AList.update r (ids_at R r @ [i]) R"
  have i: "map_of (kv_pages s) i \<noteq> None" "i \<notin> set (ids_at R r)" using Cons.prems(3) by auto
  note at = attached_ok [OF Cons.prems(1) i]
  have "\<exists>t. attach_all r ids (acc @ [i]) ?s = ((None, (acc @ [i]) @ ids), t) \<and> kv_ok (AList.update r (ids_at ?R r @ ids) ?R) t \<and>
    kept_but_pages ?s t \<and> kv_prefixes t = kv_prefixes ?s \<and> drops_undo r ids ?s t"
    by (rule Cons.IH [OF at(2)]) (use Cons.prems(2,3) in \<open>auto simp: attached_lookup\<close>)
  then obtain t where t: "attach_all r ids (acc @ [i]) ?s = ((None, (acc @ [i]) @ ids), t)"
    "kv_ok (AList.update r (ids_at ?R r @ ids) ?R) t" "kept_but_pages ?s t" "kv_prefixes t = kv_prefixes ?s" "drops_undo r ids ?s t" by blast
  have "kv_ok (AList.update r (ids_at R r @ i # ids) R) t"
    using kv_ok_update_cong [OF t(2) kv_okD(5) [OF Cons.prems(1)]] by simp
  moreover have "drops_undo r (i # ids) s t"
    by (rule drops_undo_Cons [OF t(5)]) (rule undo_attached [OF Cons.prems(1) i])
  moreover have "attach_all r (i # ids) acc s = ((None, acc @ i # ids), t)" using t(1) by (simp add: at(1))
  ultimately show ?case using kept_trans [OF attached_kept t(3)] t(4) by auto
qed

lemma placed_ok:
  assumes "kv_ok R s" "placement q s owner n"
  shows "kv_ok (AList.update (rz_request q) (ids_at R (rz_request q) @ [kv_counter s]) R) (placed q index owner n s)"
  using placed_acc [OF kv_okD(1) [OF assms(1)] assms(2)] placed_refs [OF kv_okD(1,2) [OF assms(1)]] by (simp add: kv_ok_def)

lemma charge_ok:
  assumes "kv_ok R s" "placement q s owner n"
  shows "kv_ok R (charge owner (allocation_bytes owner n s) s)"
proof -
  obtain x where x: "map_of (kv_components s) owner = Some x" "0 < allocation_bytes owner n s"
    "used_at owner s + allocation_bytes owner n s \<le> kc_capacity x" using assms(2) by (auto simp: placement_def)
  have "acc_ok (charge owner (allocation_bytes owner n s) s)"
    by (rule charge_acc [OF kv_okD(1) [OF assms(1)] x(1)]) (use x acc_okD(9) [OF kv_okD(1) [OF assms(1)] x(1)] in simp_all)
  then show ?thesis using kv_okD(2) [OF assms(1)] by (simp add: kv_ok_def)
qed

definition new_page :: "resize_request \<Rightarrow> int \<Rightarrow> kv_pool \<Rightarrow> int \<Rightarrow> bool" where
  "new_page q index t i \<longleftrightarrow> (\<exists>p. map_of (kv_pages t) i = Some p \<and> kp_request p = rz_request q \<and> kp_layer p = rz_layer q \<and>
     kp_start p = index * kv_tokens t \<and> kp_refs p = 1 \<and> \<not> kp_pinned p)"

lemma new_page_cong:
  assumes "map_of (kv_pages t) i = map_of (kv_pages s) i" "kv_tokens t = kv_tokens s"
  shows "new_page q index t i = new_page q index s i"
  unfolding new_page_def assms ..

lemma allocate_all_ok:
  assumes "kv_ok R s" "0 \<le> index" "rz_request q \<noteq> []"
  shows "\<exists>e new t. allocate_all ev q n index acc s = ((e, acc @ new), t) \<and>
    kv_ok (AList.update (rz_request q) (ids_at R (rz_request q) @ new) R) t \<and> kept_but_pages s t \<and> kv_prefixes t = kv_prefixes s \<and>
    (e = None \<longrightarrow> length new = n) \<and> e \<noteq> Some Kv_Missing \<and> (rz_layer q \<noteq> [] \<longrightarrow> drops_undo (rz_request q) new s t) \<and>
    (\<forall>j < kv_counter s. map_of (kv_pages t) j = map_of (kv_pages s) j) \<and>
    (\<forall>k < length new. new_page q (index + int k) t (new ! k))"
  using assms
proof (induction n arbitrary: index acc R s)
  case 0
  have "kv_ok (AList.update (rz_request q) (ids_at R (rz_request q)) R) s"
    by (rule kv_ok_lists [OF 0(1)]) (simp_all add: kv_okD(5) [OF 0(1)])
  then show ?case by (simp add: kept_refl drops_undo_Nil)
next
  case (Suc n)
  let ?r = "rz_request q" and ?i = "kv_counter s"
  have same: "kv_ok (AList.update ?r (ids_at R ?r @ []) R) u" if "kv_ok R u" for u
    by (rule kv_ok_lists [OF that]) (simp_all add: kv_okD(5) [OF Suc.prems(1)])
  consider (none) "allocate_one ev q index s = (Inr None, s)"
    | (bad) owner m where "placement q s owner m" "rz_layer q = []" "allocate_one ev q index s =
        (Inl (Kv_Error ''page request_id, layer_group, and owner_component are required''), charge owner (allocation_bytes owner m s) s)"
    | (ok) owner m where "placement q s owner m" "rz_layer q \<noteq> []" "allocate_one ev q index s = (Inr (Some ?i), placed q index owner m s)"
    using allocate_one_cases [OF kv_okD(1) [OF Suc.prems(1)] Suc.prems(2,3), of ev] by (cases "rz_layer q = []") fastforce+
  then show ?case
  proof cases
    case none
    show ?thesis
      by (intro exI [of _ "Some (Kv_Error ''no compatible writable active component has capacity for page'')"] exI [of _ "[]"] exI [of _ s])
        (use same [OF Suc.prems(1)] none in \<open>simp add: kept_refl drops_undo_Nil\<close>)
  next
    case (bad owner m)
    let ?u = "charge owner (allocation_bytes owner m s) s"
    have "kept_but_pages s ?u" by (simp add: kept_but_pages_def)
    then show ?thesis
      by (intro exI [of _ "Some (Kv_Error ''page request_id, layer_group, and owner_component are required'')"] exI [of _ "[]"] exI [of _ ?u])
        (use same [OF charge_ok [OF Suc.prems(1) bad(1)]] bad in \<open>simp\<close>)
  next
    case (ok owner m)
    let ?s = "placed q index owner m s" and ?R = "AList.update ?r (ids_at R ?r @ [?i]) R"
    have k: "kv_ok ?R ?s" by (rule placed_ok [OF Suc.prems(1) ok(1)])
    have "0 \<le> index + 1" using Suc.prems(2) by simp
    from Suc.IH [OF k this Suc.prems(3), of "acc @ [?i]"] obtain e new t where
      t: "allocate_all ev q n (index + 1) (acc @ [?i]) ?s = ((e, (acc @ [?i]) @ new), t)"
        "kv_ok (AList.update ?r (ids_at ?R ?r @ new) ?R) t" "kept_but_pages ?s t" "kv_prefixes t = kv_prefixes ?s"
        "e = None \<longrightarrow> length new = n" "e \<noteq> Some Kv_Missing" "rz_layer q \<noteq> [] \<longrightarrow> drops_undo ?r new ?s t"
        "\<forall>j < kv_counter ?s. map_of (kv_pages t) j = map_of (kv_pages ?s) j" "\<forall>k < length new. new_page q (index + 1 + int k) t (new ! k)"
      by blast
    have tk: "kv_tokens t = kv_tokens s" using kept_trans [OF placed_kept t(3)] by (simp add: kept_but_pages_def)
    have "new_page q index t ?i"
      using t(8) by (simp add: new_page_def placed_lookup tk blank_page_def Let_def)
    then have np: "new_page q (index + int k) t ((?i # new) ! k)" if "k < length (?i # new)" for k
      using t(9) that by (cases k) (simp_all add: add.assoc)
    have "\<forall>j < ?i. map_of (kv_pages t) j = map_of (kv_pages s) j" using t(8) by (simp add: placed_lookup)
    moreover have "kv_ok (AList.update ?r (ids_at R ?r @ ?i # new) R) t"
      using kv_ok_update_cong [OF t(2) kv_okD(5) [OF Suc.prems(1)]] by simp
    moreover have "drops_undo ?r (?i # new) s t"
      by (rule drops_undo_Cons [OF mp [OF t(7) ok(2)]]) (rule undo_placed [OF Suc.prems(1)])
    moreover have "allocate_all ev q (Suc n) index acc s = ((e, acc @ ?i # new), t)" using t(1) by (simp add: ok(3))
    ultimately show ?thesis using kept_trans [OF placed_kept t(3)] t(4-6) np
      by (intro exI [of _ e] exI [of _ "?i # new"] exI [of _ t]) simp
  qed
qed

section \<open>Dropping references\<close>

lemma drop_request_kv:
  assumes "kv_ok R s" "i \<in> set (ids_at R r)" "set ids = set (ids_at R r) - {i}" "distinct ids"
  shows "\<exists>t. drop_ref i (Some r) s = (Inr (), t) \<and> kv_ok (AList.update r ids R) t \<and> kv_requests t = kv_requests s \<and>
    kv_pending t = kv_pending s \<and> kv_request_components t = kv_request_components s"
  using drop_request_ok [OF kv_okD(1,2) [OF assms(1)] assms(2-4)] unfolding kv_ok_def by blast

lemma drop_each_ok:
  assumes "kv_ok R s" "distinct ids" "ids_at R r = keep @ rev ids"
  shows "\<exists>t. drop_each r ids s = (Inr (), t) \<and> kv_ok (AList.update r keep R) t \<and> kv_requests t = kv_requests s"
  using assms
proof (induction ids arbitrary: R s)
  case Nil
  have "kv_ok (AList.update r keep R) s" by (rule kv_ok_lists [OF Nil(1)]) (use Nil kv_okD(5) [OF Nil(1)] in simp_all)
  then show ?case by simp
next
  case (Cons i ids)
  have d: "distinct (keep @ rev (i # ids))" using lists_okD(2) [OF kv_okD(3) [OF Cons.prems(1)], of r] Cons.prems(3) by simp
  have "\<exists>t. drop_ref i (Some r) s = (Inr (), t) \<and> kv_ok (AList.update r (keep @ rev ids) R) t \<and> kv_requests t = kv_requests s \<and>
    kv_pending t = kv_pending s \<and> kv_request_components t = kv_request_components s"
    by (rule drop_request_kv [OF Cons.prems(1)]) (use Cons.prems(3) d in auto)
  then obtain t where t: "drop_ref i (Some r) s = (Inr (), t)" "kv_ok (AList.update r (keep @ rev ids) R) t" "kv_requests t = kv_requests s" by blast
  have "\<exists>v. drop_each r ids t = (Inr (), v) \<and> kv_ok (AList.update r keep (AList.update r (keep @ rev ids) R)) v \<and> kv_requests v = kv_requests t"
    by (rule Cons.IH [OF t(2)]) (use Cons.prems(2) in simp_all)
  then obtain v where v: "drop_each r ids t = (Inr (), v)" "kv_ok (AList.update r keep (AList.update r (keep @ rev ids) R)) v" "kv_requests v = kv_requests t" by blast
  show ?case
    using v(1,3) kv_ok_update_cong [OF v(2) kv_okD(5) [OF Cons.prems(1)]] t(3) by (simp add: t(1) sbind_def)
qed

lemma kv_inv_requests: "kv_inv (s\<lparr>kv_requests := R\<rparr>) = kv_ok R s"
  by (simp add: kv_inv_def)

lemma shrink_refs_ok:
  assumes "kv_inv s" "ids_at (kv_requests s) r = kept @ ids"
  shows "\<exists>t. shrink_refs r kept ids s = (Inr (), t) \<and> kv_inv t \<and> (\<forall>k. ids_at (kv_requests t) k = (if k = r then kept else ids_at (kv_requests s) k)) \<and>
    kv_pending t = kv_pending s \<and> kv_request_components t = kv_request_components s"
  using assms
proof (induction ids arbitrary: s)
  case Nil
  then show ?case by simp
next
  case (Cons i ids)
  have k: "kv_ok (kv_requests s) s" using Cons.prems(1) by (simp add: kv_inv_def)
  have d: "distinct (kept @ i # ids)" using lists_okD(2) [OF kv_okD(3) [OF k], of r] Cons.prems(2) by simp
  have "\<exists>t. drop_ref i (Some r) s = (Inr (), t) \<and> kv_ok (AList.update r (kept @ ids) (kv_requests s)) t \<and> kv_requests t = kv_requests s \<and>
    kv_pending t = kv_pending s \<and> kv_request_components t = kv_request_components s"
    by (rule drop_request_kv [OF k]) (use Cons.prems(2) d in auto)
  then obtain t where t: "drop_ref i (Some r) s = (Inr (), t)" "kv_ok (AList.update r (kept @ ids) (kv_requests s)) t" "kv_requests t = kv_requests s"
    "kv_pending t = kv_pending s" "kv_request_components t = kv_request_components s" by blast
  let ?t = "t\<lparr>kv_requests := AList.update r (kept @ ids) (kv_requests t)\<rparr>"
  have "kv_inv ?t" using t(2,3) by (simp add: kv_inv_requests)
  from Cons.IH [OF this] obtain v where v: "shrink_refs r kept ids ?t = (Inr (), v)" "kv_inv v"
    "\<forall>k. ids_at (kv_requests v) k = (if k = r then kept else ids_at (kv_requests ?t) k)"
    "kv_pending v = kv_pending ?t" "kv_request_components v = kv_request_components ?t" by auto
  show ?case using v t(3-5) by (intro exI [of _ v]) (simp add: t(1))
qed

lemma kv_inv_lists:
  assumes "kv_inv s" "wf_dict R" "\<And>k. ids_at R k = ids_at (kv_requests s) k"
  shows "kv_inv (s\<lparr>kv_requests := R\<rparr>)"
  unfolding kv_inv_requests using assms(1) by (intro kv_ok_lists [OF _ assms(2,3)]) (simp add: kv_inv_def)

lemma touch_ok: "kv_ok R s \<Longrightarrow> kv_ok R (touch_page i s)"
  unfolding kv_ok_def using touch_acc touch_refs by simp

lemma touch_inv: "kv_inv s \<Longrightarrow> kv_inv (touch_page i s)"
  unfolding kv_inv_def using touch_ok by simp

lemma touch_all_inv: "kv_inv s \<Longrightarrow> kv_inv (fold touch_page ids s)"
  by (induction ids arbitrary: s) (simp_all add: touch_inv)

lemma touch_all_fields [simp]:
  "kv_requests (fold touch_page ids s) = kv_requests s" "kv_request_components (fold touch_page ids s) = kv_request_components s"
  "kv_pending (fold touch_page ids s) = kv_pending s"
  by (induction ids arbitrary: s) simp_all

lemma touch_like: "like (touch_page i s) s"
  unfolding like_def
proof (intro conjI allI)
  show "kept_but_pages s (touch_page i s)" by (simp add: kept_but_pages_def)
  show "map_option untimed (map_of (kv_pages (touch_page i s)) j) = map_option untimed (map_of (kv_pages s) j)" for j
    by (simp add: touch_lookup option.map_comp comp_def)
qed simp_all

lemma touch_all_like: "like (fold touch_page ids s) s"
proof (induction ids arbitrary: s)
  case (Cons i ids)
  then show ?case using like_trans [OF Cons [of "touch_page i s"] touch_like] by simp
qed (simp add: like_refl)

section \<open>Resizing a request\<close>

lemma shrink_ok:
  assumes "kv_inv s" "ids_at (kv_requests s) r = current"
  shows "\<exists>t. shrink r n current s = (Inr (resize_result_of True r (int n) 0 (int (length current - n)) None), t) \<and> kv_inv t \<and>
    (\<forall>k. ids_at (kv_requests t) k = (if k = r then take n current else ids_at (kv_requests s) k)) \<and> kv_pending t = kv_pending s"
proof -
  have "ids_at (kv_requests s) r = take n current @ drop n current" using assms(2) by simp
  from shrink_refs_ok [OF assms(1) this] obtain t where t: "shrink_refs r (take n current) (drop n current) s = (Inr (), t)" "kv_inv t"
    "\<forall>k. ids_at (kv_requests t) k = (if k = r then take n current else ids_at (kv_requests s) k)" "kv_pending t = kv_pending s" by blast
  let ?u = "t\<lparr>kv_requests := AList.update r (take n current) (kv_requests t)\<rparr>"
  have w: "wf_dict (kv_requests t)" using t(2) kv_okD(5) by (auto simp: kv_inv_def)
  have u: "kv_inv ?u" by (rule kv_inv_lists [OF t(2)]) (use w t(3) in simp_all)
  let ?v = "?u\<lparr>kv_requests := AList.delete r (kv_requests ?u), kv_request_components := AList.delete r (kv_request_components ?u)\<rparr>"
  have v: "kv_inv ?v" if "take n current = []"
  proof -
    have "kv_inv (?u\<lparr>kv_requests := AList.delete r (kv_requests ?u)\<rparr>)"
      by (rule kv_inv_lists [OF u]) (use w that in simp_all)
    then show ?thesis by (subst kv_inv_fields(1))
  qed
  have run: "shrink r n current s = (Inr (resize_result_of True r (int n) 0 (int (length current - n)) None),
      if take n current = [] then ?v else ?u)"
    by (simp only: shrink_def t(1) sbind_def fst_conv snd_conv sum.case Let_def length_drop)
  show ?thesis
  proof (cases "take n current = []")
    case True
    show ?thesis
      unfolding run if_P [OF True]
    proof (intro exI conjI, rule refl, rule v [OF True])
      show "\<forall>k. ids_at (kv_requests ?v) k = (if k = r then take n current else ids_at (kv_requests s) k)" using t(3) True by simp
      show "kv_pending ?v = kv_pending s" using t(4) by simp
    qed
  next
    case False
    show ?thesis
      unfolding run if_not_P [OF False]
    proof (intro exI conjI, rule refl, rule u)
      show "\<forall>k. ids_at (kv_requests ?u) k = (if k = r then take n current else ids_at (kv_requests s) k)" using t(3) by simp
      show "kv_pending ?u = kv_pending s" using t(4) by simp
    qed
  qed
qed

lemma shared_ok:
  assumes "lists_ok M P"
  shows "distinct (take n (ids_at P k))" "i \<in> set (take n (ids_at P k)) \<Longrightarrow> M i \<noteq> None"
  using lists_okD(2,3) [OF assms] in_set_takeD [of i n "ids_at P k"] by simp_all

definition shared_pages :: "resize_request \<Rightarrow> nat \<Rightarrow> kv_pool \<Rightarrow> int list" where
  "shared_pages q n s = (case rz_prefix q of None \<Rightarrow> [] | Some k \<Rightarrow>
     if k \<noteq> [] \<and> ids_at (kv_requests s) (rz_request q) = [] then take n (ids_at (kv_prefixes s) k) else [])"

text \<open>The attached and allocated pages of a growth, given back in the reverse order.\<close>

lemma undo_growth:
  assumes k: "kv_ok (AList.update r (current @ shared @ new) R) t" "wf_dict R" "ids_at R r = current"
  shows "\<exists>v. sbind (drop_each r (rev new) t) (\<lambda>_ s. drop_each r (rev shared) s) = (Inr (), v) \<and> kv_ok R v \<and> kv_requests v = kv_requests t"
proof -
  let ?R = "AList.update r (current @ shared @ new) R"
  have d: "distinct (current @ shared @ new)" using lists_okD(2) [OF kv_okD(3) [OF k(1)], of r] by simp
  have "\<exists>v. drop_each r (rev (shared @ new)) t = (Inr (), v) \<and> kv_ok (AList.update r current ?R) v \<and> kv_requests v = kv_requests t"
    by (rule drop_each_ok [OF k(1)]) (use d in auto)
  then obtain v where v: "drop_each r (rev (shared @ new)) t = (Inr (), v)" "kv_ok (AList.update r current ?R) v" "kv_requests v = kv_requests t" by blast
  have "kv_ok R v" by (rule kv_ok_lists [OF v(2) k(2)]) (use k(3) in simp)
  then show ?thesis using v(1,3) by (simp add: drop_each_append)
qed

definition grown :: "resize_request \<Rightarrow> nat \<Rightarrow> resize_result \<Rightarrow> kv_pool \<Rightarrow> kv_pool \<Rightarrow> bool" where
  "grown q n res s t \<longleftrightarrow> (\<exists>new. let current = ids_at (kv_requests s) (rz_request q); shared = shared_pages q n s in
     res = resize_result_of True (rz_request q) (int n) (int (length new)) 0 None \<and> length (current @ shared @ new) = n \<and>
     kv_requests t = AList.update (rz_request q) (current @ shared @ new) (kv_requests s) \<and>
     (\<forall>k < length new. new_page q (int (length (current @ shared)) + int k) t (new ! k)))"

lemma grown_cong:
  assumes "kv_requests s' = kv_requests s" "kv_prefixes s' = kv_prefixes s"
  shows "grown q n res s' t = grown q n res s t"
  unfolding grown_def shared_pages_def assms ..

definition not_grown :: "resize_request \<Rightarrow> resize_result \<Rightarrow> kv_pool \<Rightarrow> kv_pool \<Rightarrow> bool" where
  "not_grown q res s t \<longleftrightarrow> \<not> rr_success res \<and> rr_count res = int (length (ids_at (kv_requests s) (rz_request q))) \<and>
     rr_allocated res = 0 \<and> rr_released res = 0 \<and> rr_error res = kv_last_error t \<and> kv_requests t = kv_requests s \<and>
     (rz_layer q \<noteq> [] \<longrightarrow> like t s)"

lemma like_error: "like s (t\<lparr>kv_last_error := m\<rparr>) = like s t" "like (s\<lparr>kv_last_error := m\<rparr>) t = like s t"
  by (simp_all add: like_def kept_but_pages_def bound_to_def used_at_def)

lemma grow_ok:
  assumes inv: "kv_inv s" and q: "rz_request q \<noteq> []" "length (ids_at (kv_requests s) (rz_request q)) < n"
  shows "\<exists>res t. grow ev q n (ids_at (kv_requests s) (rz_request q)) s = (Inr res, t) \<and> kv_inv t \<and> (grown q n res s t \<or> not_grown q res s t)"
proof -
  let ?r = "rz_request q" and ?R = "kv_requests s"
  define current where "current = ids_at ?R ?r"
  define shared where "shared = shared_pages q n s"
  have k: "kv_ok ?R s" using inv by (simp add: kv_inv_def)
  have sh: "distinct shared" "\<forall>i \<in> set shared. map_of (kv_pages s) i \<noteq> None \<and> i \<notin> set (ids_at ?R ?r)" "length (current @ shared) \<le> n"
    using shared_ok [OF kv_okD(4) [OF k], where n = n] q(2)
    by (auto simp: shared_def shared_pages_def current_def split: option.split)
  from attach_all_ok [OF k sh(1,2)] obtain s1 where
    s1: "attach_all ?r shared [] s = ((None, [] @ shared), s1)" "kv_ok (AList.update ?r (ids_at ?R ?r @ shared) ?R) s1"
      "kept_but_pages s s1" "kv_prefixes s1 = kv_prefixes s" "drops_undo ?r shared s s1" by blast
  let ?R1 = "AList.update ?r (current @ shared) ?R" and ?m = "n - length (current @ shared)"
  have "0 \<le> int (length (current @ shared))" by simp
  from allocate_all_ok [OF s1(2) this q(1), of ev ?m "[]"] obtain e new t where
    t: "allocate_all ev q ?m (int (length (current @ shared))) [] s1 = ((e, [] @ new), t)"
      "kv_ok (AList.update ?r (current @ shared @ new) (AList.update ?r (ids_at ?R ?r @ shared) ?R)) t" "kept_but_pages s1 t"
      "kv_prefixes t = kv_prefixes s1" "e = None \<longrightarrow> length new = ?m" "e \<noteq> Some Kv_Missing"
      "rz_layer q \<noteq> [] \<longrightarrow> drops_undo ?r new s1 t"
      "\<forall>k < length new. new_page q (int (length (current @ shared)) + int k) t (new ! k)"
    by (auto simp: current_def)
  have kt: "kv_ok (AList.update ?r (current @ shared @ new) ?R) t" by (rule kv_ok_update_cong [OF t(2) kv_okD(5) [OF k]])
  have rq: "kv_requests t = ?R" using kept_trans [OF s1(3) t(3)] by (simp add: kept_but_pages_def)
  have gdef: "(case rz_prefix q of None \<Rightarrow> [] | Some k \<Rightarrow> if k \<noteq> [] \<and> current = [] then take n (ids_at (kv_prefixes s) k) else []) = shared"
    unfolding shared_def shared_pages_def current_def ..
  show ?thesis
  proof (cases e)
    case None
    let ?u = "t\<lparr>kv_requests := AList.update ?r (current @ shared @ new) (kv_requests t),
             kv_request_components := AList.update ?r (rz_component q) (kv_request_components t)\<rparr>"
    have run: "grow ev q n current s = (Inr (resize_result_of True ?r (int n) (int (length new)) 0 None), ?u)"
      using t(1) s1(1) by (simp add: grow_def Let_def gdef None)
    have "kv_inv ?u" using kt by (simp add: kv_inv_def rq)
    moreover have "new_page q j ?u i = new_page q j t i" for i j by (rule new_page_cong) simp_all
    then have "grown q n (resize_result_of True ?r (int n) (int (length new)) 0 None) s ?u"
      using t(5,8) sh(3) None unfolding grown_def Let_def shared_def [symmetric] current_def [symmetric]
      by (intro exI [of _ new]) (simp add: rq)
    ultimately show ?thesis using run unfolding current_def by blast
  next
    case (Some x)
    let ?res = "resize_result_of False ?r (int (length current)) 0 0 (Some (error_text x))"
    obtain v where v: "sbind (drop_each ?r (rev new) t) (\<lambda>_ s. drop_each ?r (rev shared) s) = (Inr (), v)" "kv_ok ?R v" "kv_requests v = kv_requests t"
      using undo_growth [OF kt kv_okD(5) [OF k]] by (auto simp: current_def)
    let ?u = "v\<lparr>kv_last_error := Some (error_text x)\<rparr>"
    have x: "x \<noteq> Kv_Missing" using t(6) Some by simp
    have "sbind (drop_each ?r (rev new) t) (\<lambda>_ s. sbind (drop_each ?r (rev shared) s)
        (\<lambda>_ s. (Inr ?res, s\<lparr>kv_last_error := Some (error_text x)\<rparr>))) = (Inr ?res, ?u)"
      using v(1) by (auto simp: sbind_def split: sum.splits prod.splits)
    then have run: "grow ev q n current s = (Inr ?res, ?u)"
      using t(1) s1(1) x by (cases x) (simp_all add: grow_def Let_def gdef Some)
    have "kv_inv ?u" using v(2) by (simp add: kv_inv_def v(3) rq)
    moreover have "like v s" if layer: "rz_layer q \<noteq> []"
    proof -
      obtain w where w: "drop_each ?r (rev new) t = (Inr (), w)" "sound w" "like w s1"
        using drops_undoD [OF mp [OF t(7) layer] kv_ok_sound [OF kt] like_refl] by blast
      obtain w' where w': "drop_each ?r (rev shared) w = (Inr (), w')" "like w' s"
        using drops_undoD [OF s1(5) w(2,3)] by blast
      then show ?thesis using v(1) by (simp add: w(1) sbind_def)
    qed
    then have "not_grown q ?res s ?u"
      by (simp add: not_grown_def resize_result_of_def v(3) rq like_error current_def)
    ultimately show ?thesis using run unfolding current_def by blast
  qed
qed


text \<open>Every resize of a sound pool: a rejected request, a refusal that changes nothing, or the target.\<close>

definition resized :: "resize_request \<Rightarrow> int \<Rightarrow> resize_result \<Rightarrow> kv_pool \<Rightarrow> kv_pool \<Rightarrow> bool" where
  "resized q n res s t \<longleftrightarrow> rr_success res \<and> rr_error res = None \<and> rr_request res = rz_request q \<and> rr_count res = n \<and>
     int (length (ids_at (kv_requests t) (rz_request q))) = n \<and>
     (\<forall>k. k \<noteq> rz_request q \<longrightarrow> ids_at (kv_requests t) k = ids_at (kv_requests s) k) \<and>
     take (nat n) (ids_at (kv_requests s) (rz_request q)) = take (length (ids_at (kv_requests s) (rz_request q))) (ids_at (kv_requests t) (rz_request q))"

lemma resize_target_cong: "kv_tokens t = kv_tokens s \<Longrightarrow> resize_target q t = resize_target q s"
  by (simp only: resize_target_def)

lemma grown_resized:
  assumes "grown q (nat n) res s t" "0 \<le> n" "length (ids_at (kv_requests s) (rz_request q)) < nat n"
  shows "resized q n res s t"
proof -
  obtain new where g: "res = resize_result_of True (rz_request q) (int (nat n)) (int (length new)) 0 None"
    "length (ids_at (kv_requests s) (rz_request q) @ shared_pages q (nat n) s @ new) = nat n"
    "kv_requests t = AList.update (rz_request q) (ids_at (kv_requests s) (rz_request q) @ shared_pages q (nat n) s @ new) (kv_requests s)"
    using assms(1) unfolding grown_def Let_def by blast
  show ?thesis
    unfolding resized_def g(3) using g(1,2) assms(2,3) by (simp add: resize_result_of_def)
qed

lemma resize_ok:
  assumes inv: "kv_inv s"
  shows "\<exists>r t. resize_detailed ev q s = (r, t) \<and> kv_inv t \<and> (case resize_target q s of
    Inl e \<Rightarrow> r = Inl e \<and> t = s\<lparr>kv_last_error := None\<rparr>
  | Inr n \<Rightarrow> \<exists>res. r = Inr res \<and> (resized q n res s t \<or> not_grown q res s t))"
proof -
  let ?s = "s\<lparr>kv_last_error := None\<rparr>" and ?r = "rz_request q"
  have inv': "kv_inv ?s" using inv by simp
  have tgt: "resize_target q ?s = resize_target q s" by (rule resize_target_cong) simp
  define current where "current = ids_at (kv_requests s) ?r"
  show ?thesis
  proof (cases "resize_target q s")
    case (Inl e)
    then show ?thesis using inv' by (simp add: resize_detailed_def Let_def tgt)
  next
    case (Inr n)
    have q: "?r \<noteq> []" "0 \<le> n" using Inr by (auto simp: resize_target_def split: if_splits option.splits sum.splits)
    have run: "resize_detailed ev q s = (if list_ex (\<lambda>i. map_of (kv_pending s) i \<noteq> None) current
         then (Inr (resize_result_of False ?r (int (length current)) 0 0 (Some ''cannot resize KV pages with an in-flight transfer'')),
           ?s\<lparr>kv_last_error := Some ''cannot resize KV pages with an in-flight transfer''\<rparr>)
         else if nat n = length current
         then (Inr (resize_result_of True ?r (int (nat n)) 0 0 None),
            if map_of (kv_request_components (fold touch_page current ?s)) ?r = None
            then (fold touch_page current ?s)\<lparr>kv_request_components :=
              AList.update ?r (rz_component q) (kv_request_components (fold touch_page current ?s))\<rparr> else fold touch_page current ?s)
         else if nat n < length current then shrink ?r (nat n) current ?s
         else grow ev q (nat n) current ?s)"
      by (simp add: resize_detailed_def Let_def tgt Inr current_def)
    have "\<exists>res t. resize_detailed ev q s = (Inr res, t) \<and> kv_inv t \<and> (resized q n res s t \<or> not_grown q res s t)"
    proof (cases "list_ex (\<lambda>i. map_of (kv_pending s) i \<noteq> None) current")
      case True
      show ?thesis
        unfolding run if_P [OF True]
        by (intro exI conjI, rule refl) (use inv in \<open>simp_all add: not_grown_def resize_result_of_def like_error like_refl current_def\<close>)
    next
      case calm: False
      consider "nat n = length current" | "nat n < length current" | "length current < nat n" by linarith
      then show ?thesis
      proof cases
        case 1
        then have n: "n = int (length current)" using q(2) by simp
        have i: "kv_inv (fold touch_page current ?s)" by (rule touch_all_inv [OF inv'])
        show ?thesis
          unfolding run if_not_P [OF calm] if_P [OF 1]
          by (intro exI conjI, rule refl) (use i n in \<open>simp_all add: resized_def resize_result_of_def current_def\<close>)
      next
        case 2
        from shrink_ok [OF inv', of ?r current "nat n"] obtain t where
          t: "shrink ?r (nat n) current ?s = (Inr (resize_result_of True ?r (int (nat n)) 0 (int (length current - nat n)) None), t)" "kv_inv t"
          "\<forall>k. ids_at (kv_requests t) k = (if k = ?r then take (nat n) current else ids_at (kv_requests ?s) k)" by (auto simp: current_def)
        have "resized q n (resize_result_of True ?r (int (nat n)) 0 (int (length current - nat n)) None) s t"
          using t(3) 2 q(2) by (simp add: resized_def resize_result_of_def current_def [symmetric])
        then show ?thesis using t(1,2) 2 calm by (simp add: run)
      next
        case 3
        have g: "\<exists>res t. grow ev q (nat n) current ?s = (Inr res, t) \<and> kv_inv t \<and> (grown q (nat n) res ?s t \<or> not_grown q res ?s t)"
          using grow_ok [OF inv' q(1), of "nat n" ev] 3 by (simp add: current_def)
        then obtain res t where t: "grow ev q (nat n) current ?s = (Inr res, t)" "kv_inv t" "grown q (nat n) res ?s t \<or> not_grown q res ?s t" by blast
        have "grown q (nat n) res ?s t = grown q (nat n) res s t" by (rule grown_cong) simp_all
        moreover have "not_grown q res ?s t = not_grown q res s t" by (simp add: not_grown_def like_error)
        ultimately have "resized q n res s t \<or> not_grown q res s t"
          using t(3) grown_resized [of q n res s t] q(2) 3 by (auto simp: current_def)
        moreover have "resize_detailed ev q s = (Inr res, t)" using t(1) 3 calm by (simp add: run)
        ultimately show ?thesis using t(2) by blast
      qed
    qed
    then show ?thesis by (auto simp: Inr)
  qed
qed

end
