(* ===== verification/Kv_Ops.thy ===== *)
theory Kv_Ops
  imports Kv_Growth
begin

text \<open>
  The other operations on requests and prefixes: each keeps the invariant of the pool and, on a
  sound pool, runs without the internal errors of its loops.
\<close>

section \<open>Changing a page\<close>

lemma with_page_ok:
  assumes k: "kv_ok R s" and f: "\<And>p. kp_id (f p) = kp_id p" "\<And>p. kp_owner (f p) = kp_owner p" "\<And>p. kp_bytes (f p) = kp_bytes p"
    "\<And>p. kp_generation (f p) = kp_generation p" and "\<And>p. kp_refs (f p) = kp_refs p"
    "\<And>p. map_of (kv_pages s) i = Some p \<Longrightarrow> kp_refs p = 0 \<Longrightarrow> kp_pinned (f p)"
  shows "kv_ok R (with_page i f s)"
proof -
  note r = kv_okD(2) [OF k]
  have acc: "acc_ok (with_page i f s)" by (rule acc_ok_with_page [OF kv_okD(1) [OF k] f])
  have dom: "map_of (kv_pages (with_page i f s)) j = None \<longleftrightarrow> map_of (kv_pages s) j = None" for j by (simp add: with_page_lookup)
  have "refs_ok R (kv_prefixes s) (with_page i f s)"
  proof (rule refs_okI)
    show "lists_ok (map_of (kv_pages (with_page i f s))) R" by (rule lists_ok_mono [OF kv_okD(3) [OF k]]) (simp add: dom)
    show "lists_ok (map_of (kv_pages (with_page i f s))) (kv_prefixes s)" by (rule lists_ok_mono [OF kv_okD(4) [OF k]]) (simp add: dom)
    show "bound_to j (with_page i f s) = {}" if "map_of (kv_pages (with_page i f s)) j = None" for j
      using refs_okD(6) [OF r] that by (simp add: dom)
    fix j q assume q: "map_of (kv_pages (with_page i f s)) j = Some q"
    then obtain p where p: "map_of (kv_pages s) j = Some p" "q = (if j = i then f p else p)"
      by (auto simp: with_page_lookup split: if_splits)
    show "kp_refs q = refs_in j R + refs_in j (kv_prefixes s) \<and> (kp_refs q = 0 \<longrightarrow> kp_pinned q) \<and>
        bound_to j (with_page i f s) = {r. j \<in> set (ids_at R r)}"
      using refs_okD(3-5) [OF r p(1)] p assms(6,7) by (cases "j = i") simp_all
  qed
  then show ?thesis using acc by (simp add: kv_ok_def)
qed

lemma pin_page_inv: "kv_inv s \<Longrightarrow> kv_inv (pin_page i s)"
  unfolding kv_inv_def pin_page_def by (intro touch_ok) (simp add: with_page_ok)

lemma pin_inv: "kv_inv s \<Longrightarrow> kv_inv (snd (pin r which s))"
proof -
  have "kv_inv s \<Longrightarrow> kv_inv (fold pin_page ids s)" for ids by (induction ids arbitrary: s) (simp_all add: pin_page_inv)
  then show "kv_inv s \<Longrightarrow> kv_inv (snd (pin r which s))" by (simp add: pin_def Let_def)
qed

lemma touch_request_inv: "kv_inv s \<Longrightarrow> kv_inv (touch_request r s)"
  by (simp add: touch_request_def touch_all_inv)

lemma request_ids:
  assumes "kv_inv s"
  shows "map kp_id (request_pages r s) = ids_at (kv_requests s) r"
proof -
  have k: "kv_ok (kv_requests s) s" using assms by (simp add: kv_inv_def)
  have "\<forall>i \<in> set ids. map_of (kv_pages s) i \<noteq> None \<Longrightarrow> map kp_id (List.map_filter (map_of (kv_pages s)) ids) = ids" for ids
    using page_okD(1) [OF acc_okD(13) [OF kv_okD(1) [OF k]]] by (induction ids) (auto simp: List.map_filter_simps)
  then show ?thesis
    using lists_okD(3) [OF kv_okD(3) [OF k], of _ r] by (simp add: request_pages_def)
qed

section \<open>Freeing unlisted pages\<close>

lemma free_ok:
  assumes k: "kv_ok R s" and p: "map_of (kv_pages s) i = Some p" and n: "\<And>r. i \<notin> set (ids_at R r)"
  shows "free_page i s = (Inr (), freed i p s)" "kv_ok R (freed i p s)"
  using free_page_ok [OF kv_okD(1) [OF k] p] free_refs [OF kv_okD(2) [OF k] n] by (simp_all add: kv_ok_def)

lemma unpin_one_ok:
  assumes "kv_inv s"
  shows "\<exists>t. unpin_one i s = (Inr (), t) \<and> kv_inv t"
proof (cases "map_of (kv_pages s) i")
  case None
  then show ?thesis using assms by (simp add: unpin_one_def)
next
  case (Some p)
  have k: "kv_ok (kv_requests s) s" using assms by (simp add: kv_inv_def)
  show ?thesis
  proof (cases "kp_refs p = 0")
    case True
    then have "refs_in i (kv_requests s) = 0"
      using refs_okD(3) [OF kv_okD(2) [OF k] Some] refs_in_nonneg [of i "kv_requests s"] refs_in_nonneg [of i "kv_prefixes s"] by simp
    then have "i \<notin> set (ids_at (kv_requests s) r)" for r using refs_in_zero [OF kv_okD(5) [OF k]] by blast
    note f = free_ok [OF k Some this]
    show ?thesis using f by (simp add: unpin_one_def Some True kv_inv_def)
  next
    case False
    have "kv_ok (kv_requests s) (with_page i (\<lambda>p. p\<lparr>kp_pinned := False\<rparr>) s)"
      by (rule with_page_ok [OF k]) (use False Some in simp_all)
    then show ?thesis by (simp add: unpin_one_def Some False kv_inv_def)
  qed
qed

lemma unpin_each_ok: "kv_inv s \<Longrightarrow> \<exists>t. unpin_each ids s = (Inr (), t) \<and> kv_inv t"
proof (induction ids arbitrary: s)
  case (Cons i ids)
  obtain u where "unpin_one i s = (Inr (), u)" "kv_inv u" using unpin_one_ok [OF Cons.prems] by blast
  then show ?case using Cons.IH by (simp add: sbind_def)
qed simp

lemma unpin_ok:
  assumes "kv_inv s"
  shows "\<exists>n t. unpin r which s = (Inr n, t) \<and> kv_inv t"
  using unpin_each_ok [OF assms, of "map kp_id (chosen_pages r which s)"] by (auto simp: unpin_def Let_def sbind_def)

lemma unpin_page_inv:
  assumes "kv_inv s"
  shows "kv_inv (snd (unpin_page i s))"
  using unpin_one_ok [OF assms, of i] assms by (auto simp: unpin_page_def page_at_def sbind_def split: option.split)

section \<open>Releasing and handing over\<close>

lemma release_request_ok:
  assumes inv: "kv_inv s" and calm: "\<forall>i \<in> set (ids_at (kv_requests s) r). map_of (kv_pending s) i = None"
  shows "\<exists>t. release r s = (Inr (), t) \<and> kv_inv t \<and>
    (\<forall>k. ids_at (kv_requests t) k = (if k = r then [] else ids_at (kv_requests s) k))"
proof -
  have "ids_at (kv_requests s) r = [] @ ids_at (kv_requests s) r" by simp
  from shrink_refs_ok [OF inv this] obtain t where t: "shrink_refs r [] (ids_at (kv_requests s) r) s = (Inr (), t)" "kv_inv t"
    "\<forall>k. ids_at (kv_requests t) k = (if k = r then [] else ids_at (kv_requests s) k)" by blast
  let ?u = "t\<lparr>kv_requests := AList.delete r (kv_requests t)\<rparr>"
  have w: "wf_dict (kv_requests t)" using t(2) kv_okD(5) by (auto simp: kv_inv_def)
  have u: "kv_inv ?u" by (rule kv_inv_lists [OF t(2)]) (use w t(3) in simp_all)
  have e: "\<not> list_ex (\<lambda>i. map_of (kv_pending s) i \<noteq> None) (ids_at (kv_requests s) r)" using calm by (simp add: list_ex_iff)
  have run: "release r s = (Inr (), ?u\<lparr>kv_request_components := AList.delete r (kv_request_components ?u)\<rparr>)"
    unfolding release_def if_not_P [OF e] t(1) by (simp add: sbind_def)
  show ?thesis
    unfolding run by (intro exI conjI, rule refl) (use u t(3) in simp_all)
qed

lemma release_inv:
  assumes "kv_inv s"
  shows "kv_inv (snd (release r s))"
proof (cases "\<forall>i \<in> set (ids_at (kv_requests s) r). map_of (kv_pending s) i = None")
  case True
  then show ?thesis using release_request_ok [OF assms True] by auto
next
  case False
  then have "list_ex (\<lambda>i. map_of (kv_pending s) i \<noteq> None) (ids_at (kv_requests s) r)" by (auto simp: list_ex_iff)
  then show ?thesis using assms by (simp add: release_def)
qed

lemma hand_over_run:
  assumes "distinct ids" "\<forall>i \<in> set ids. source \<in> bound_to i s"
  shows "\<exists>t. hand_over source target ids s = (Inr (), t) \<and> kv_requests t = kv_requests s \<and> kv_prefixes t = kv_prefixes s \<and>
    kv_request_components t = kv_request_components s \<and> (acc_ok s \<longrightarrow> acc_ok t) \<and>
    (\<forall>j. bound_to j t = (if j \<in> set ids then insert target (bound_to j s - {source}) else bound_to j s)) \<and>
    (\<forall>j. map_of (kv_pages t) j = (if j \<in> set ids then map_option (\<lambda>p. p\<lparr>kp_request := target\<rparr>) (map_of (kv_pages s) j) else map_of (kv_pages s) j))"
  using assms
proof (induction ids arbitrary: s)
  case Nil
  then show ?case by simp
next
  case (Cons i ids)
  let ?u = "with_page i (\<lambda>p. p\<lparr>kp_request := target\<rparr>) (s\<lparr>kv_bindings := AList.update i (insert target (bound_to i s - {source})) (kv_bindings s)\<rparr>)"
  have b: "bound_to j ?u = (if j = i then insert target (bound_to i s - {source}) else bound_to j s)" for j
    by (simp add: bound_to_def [of j "s\<lparr>kv_bindings := _\<rparr>"]) (simp add: bound_to_def)
  have a: "acc_ok ?u" if "acc_ok s" by (rule acc_ok_with_page) (simp_all add: that)
  have "\<exists>t. hand_over source target ids ?u = (Inr (), t) \<and> kv_requests t = kv_requests ?u \<and> kv_prefixes t = kv_prefixes ?u \<and>
    kv_request_components t = kv_request_components ?u \<and> (acc_ok ?u \<longrightarrow> acc_ok t) \<and>
    (\<forall>j. bound_to j t = (if j \<in> set ids then insert target (bound_to j ?u - {source}) else bound_to j ?u)) \<and>
    (\<forall>j. map_of (kv_pages t) j = (if j \<in> set ids then map_option (\<lambda>p. p\<lparr>kp_request := target\<rparr>) (map_of (kv_pages ?u) j) else map_of (kv_pages ?u) j))"
    by (rule Cons.IH) (use Cons.prems b in auto)
  then obtain t where t: "hand_over source target ids ?u = (Inr (), t)" "kv_requests t = kv_requests ?u" "kv_prefixes t = kv_prefixes ?u"
    "kv_request_components t = kv_request_components ?u" "acc_ok ?u \<longrightarrow> acc_ok t"
    "\<forall>j. bound_to j t = (if j \<in> set ids then insert target (bound_to j ?u - {source}) else bound_to j ?u)"
    "\<forall>j. map_of (kv_pages t) j = (if j \<in> set ids then map_option (\<lambda>p. p\<lparr>kp_request := target\<rparr>) (map_of (kv_pages ?u) j) else map_of (kv_pages ?u) j)"
    by blast
  have ni: "i \<notin> set ids" using Cons.prems(1) by simp
  show ?case
  proof (intro exI [of _ t] conjI allI)
    show "hand_over source target (i # ids) s = (Inr (), t)" using t(1) Cons.prems(2) by simp
    show "bound_to j t = (if j \<in> set (i # ids) then insert target (bound_to j s - {source}) else bound_to j s)" for j
      using spec [OF t(6), of j] b [of j] ni by (cases "j = i") simp_all
    show "map_of (kv_pages t) j = (if j \<in> set (i # ids) then map_option (\<lambda>p. p\<lparr>kp_request := target\<rparr>) (map_of (kv_pages s) j) else map_of (kv_pages s) j)" for j
      using t(7) ni by (simp add: with_page_lookup)
  qed (use t(2-5) a in simp_all)
qed

definition exclusive :: "kv_pool \<Rightarrow> kv_page \<Rightarrow> bool" where
  "exclusive s p \<longleftrightarrow> kp_refs p = 1 \<and> \<not> kp_pinned p \<and> kp_prefix p = None \<and> map_of (kv_pending s) (kp_id p) = None"

text \<open>The source's list becomes the target's.\<close>

definition moved_lists :: "string \<Rightarrow> string \<Rightarrow> (string, int list) dict \<Rightarrow> (string, int list) dict" where
  "moved_lists source target R = AList.update target (ids_at R source) (AList.delete source R)"

lemma moved_lists_ids:
  "source \<noteq> target \<Longrightarrow> ids_at (moved_lists source target R) k = (if k = target then ids_at R source else if k = source then [] else ids_at R k)"
  by (simp add: moved_lists_def)

lemma moved_lists_ok:
  assumes R: "lists_ok M R" and st: "source \<noteq> target" "ids_at R target = []"
  shows "lists_ok M (moved_lists source target R)" "refs_in i (moved_lists source target R) = refs_in i R"
proof -
  have w: "wf_dict R" by (rule lists_okD(1) [OF R])
  show "lists_ok M (moved_lists source target R)"
    using R w lists_okD(2) [OF R] unfolding lists_ok_def moved_lists_ids [OF st(1)] by (simp add: moved_lists_def)
  show "refs_in i (moved_lists source target R) = refs_in i R"
    using w st by (simp add: moved_lists_def refs_in_update refs_in_delete)
qed

lemma handoff_ok:
  assumes inv: "kv_inv s" and st: "source \<noteq> target" "ids_at (kv_requests s) target = []"
    and ex: "\<forall>p \<in> set (request_pages source s). exclusive s p"
  shows "\<exists>t. handoff_request source target s = (Inr (ids_at (kv_requests s) source), t) \<and> kv_inv t \<and>
    kv_requests t = moved_lists source target (kv_requests s)"
proof -
  have k: "kv_ok (kv_requests s) s" using inv by (simp add: kv_inv_def)
  note lR = kv_okD(3) [OF k] and lP = kv_okD(4) [OF k] and r = kv_okD(2) [OF k]
  define ids where "ids = ids_at (kv_requests s) source"
  define R where "R = moved_lists source target (kv_requests s)"
  note id_eq = request_ids [OF inv, of source, folded ids_def]
  have one: "kp_refs p = 1" if "i \<in> set ids" "map_of (kv_pages s) i = Some p" for i p
  proof -
    have "p \<in> set (request_pages source s)"
      using that unfolding request_pages_def ids_def by (auto simp: List.map_filter_def image_iff intro!: bexI [of _ i])
    then show ?thesis using ex by (simp add: exclusive_def)
  qed
  have own: "bound_to i s = {source}" if i: "i \<in> set ids" for i
  proof -
    obtain p where p: "map_of (kv_pages s) i = Some p" using lists_okD(3) [OF lR, of i source] i by (auto simp: ids_def)
    have le: "refs_in i (kv_requests s) \<le> 1"
      using refs_okD(3) [OF r p] one [OF i p] refs_in_nonneg [of i "kv_prefixes s"] by simp
    have fin: "card {k. i \<in> set (ids_at (kv_requests s) k)} \<le> 1" using le refs_in_card [OF kv_okD(5) [OF k], of i] by simp
    have eq: "\<forall>x \<in> {k. i \<in> set (ids_at (kv_requests s) k)}. \<forall>y \<in> {k. i \<in> set (ids_at (kv_requests s) k)}. x = y"
      using fin card_le_Suc0_iff_eq [OF finite_listed [of i "kv_requests s"]] by (simp only: One_nat_def)
    have "{k. i \<in> set (ids_at (kv_requests s) k)} = {source}"
    proof
      show "{source} \<subseteq> {k. i \<in> set (ids_at (kv_requests s) k)}" using i by (simp add: ids_def)
      then have m: "source \<in> {k. i \<in> set (ids_at (kv_requests s) k)}" by blast
      show "{k. i \<in> set (ids_at (kv_requests s) k)} \<subseteq> {source}"
      proof
        fix k' assume "k' \<in> {k. i \<in> set (ids_at (kv_requests s) k)}"
        from bspec [OF bspec [OF eq m] this] show "k' \<in> {source}" by (simp only: singleton_iff)
      qed
    qed
    then show ?thesis using refs_okD(7) [OF r, of i] by simp
  qed
  define s1 where "s1 = s\<lparr>kv_requests := R, kv_request_components := (let d = AList.delete source (kv_request_components s) in
     case case map_of (kv_request_components s) source of None \<Rightarrow> None | Some c \<Rightarrow> c of None \<Rightarrow> d | Some c \<Rightarrow> AList.update target (Some c) d)\<rparr>"
  have s1: "kv_requests s1 = R" "kv_prefixes s1 = kv_prefixes s" "bound_to i s1 = bound_to i s" "kv_pages s1 = kv_pages s" "acc_ok s1" for i
    using kv_okD(1) [OF k] by (simp_all add: s1_def bound_to_def)
  have "distinct ids" using lists_okD(2) [OF lR] by (simp add: ids_def)
  moreover have "\<forall>i \<in> set ids. source \<in> bound_to i s1" by (simp add: s1(3) own)
  ultimately obtain t where t: "hand_over source target ids s1 = (Inr (), t)" "kv_requests t = R" "kv_prefixes t = kv_prefixes s" "acc_ok t"
    "\<forall>j. bound_to j t = (if j \<in> set ids then insert target (bound_to j s - {source}) else bound_to j s)"
    "\<forall>j. map_of (kv_pages t) j = (if j \<in> set ids then map_option (\<lambda>p. p\<lparr>kp_request := target\<rparr>) (map_of (kv_pages s) j) else map_of (kv_pages s) j)"
    using hand_over_run [of ids source s1 target] s1 by auto
  have guards: "\<not> (source = target \<or> ids_at (kv_requests s) target \<noteq> [])"
    "\<not> list_ex (\<lambda>p. kp_refs p \<noteq> 1 \<or> kp_pinned p \<or> kp_prefix p \<noteq> None \<or> map_of (kv_pending s) (kp_id p) \<noteq> None) (request_pages source s)"
    using st ex by (auto simp: list_ex_iff exclusive_def)
  have run: "handoff_request source target s = (Inr ids, t)"
    unfolding handoff_request_def if_not_P [OF guards(1)] if_not_P [OF guards(2)]
    using t(1) by (simp add: id_eq ids_def [symmetric] s1_def R_def moved_lists_def sbind_def Let_def)
  have dom: "map_of (kv_pages t) j = None \<longleftrightarrow> map_of (kv_pages s) j = None" for j using t(6) by simp
  have mR: "lists_ok M R" if "lists_ok M (kv_requests s)" for M unfolding R_def by (rule moved_lists_ok(1) [OF that st])
  have "refs_ok R (kv_prefixes s) t"
  proof (rule refs_okI)
    show "lists_ok (map_of (kv_pages t)) R" by (rule mR, rule lists_ok_mono [OF lR]) (simp add: dom)
    show "lists_ok (map_of (kv_pages t)) (kv_prefixes s)" by (rule lists_ok_mono [OF lP]) (simp add: dom)
    show "bound_to j t = {}" if "map_of (kv_pages t) j = None" for j
      using t(5) refs_okD(6) [OF r, of j] own [of j] that dom [of j] by auto
    fix j q assume q: "map_of (kv_pages t) j = Some q"
    obtain p where p: "map_of (kv_pages s) j = Some p" "kp_refs q = kp_refs p" "kp_pinned q = kp_pinned p"
      using q spec [OF t(6), of j] by (cases "j \<in> set ids") auto
    have "bound_to j t = {r. j \<in> set (ids_at R r)}"
      using spec [OF t(5), of j] own [of j] refs_okD(7) [OF r, of j] st unfolding R_def moved_lists_ids [OF st(1)]
      by (cases "j \<in> set ids") (auto simp: ids_def)
    then show "kp_refs q = refs_in j R + refs_in j (kv_prefixes s) \<and> (kp_refs q = 0 \<longrightarrow> kp_pinned q) \<and>
        bound_to j t = {r. j \<in> set (ids_at R r)}"
      using refs_okD(3,4) [OF r p(1)] p(2,3) moved_lists_ok(2) [OF lR st, of j] by (simp add: R_def)
  qed
  then have "kv_inv t" using t(2-4) by (simp add: kv_inv_def kv_ok_def)
  then show ?thesis using run t(2) by (simp add: ids_def R_def)
qed

lemma handoff_inv:
  assumes "kv_inv s"
  shows "kv_inv (snd (handoff_request source target s))"
proof (cases "source \<noteq> target \<and> ids_at (kv_requests s) target = [] \<and> (\<forall>p \<in> set (request_pages source s). exclusive s p)")
  case True
  then show ?thesis using handoff_ok [OF assms, of source target] by fastforce
next
  case False
  then have "(source = target \<or> ids_at (kv_requests s) target \<noteq> []) \<or>
    list_ex (\<lambda>p. kp_refs p \<noteq> 1 \<or> kp_pinned p \<or> kp_prefix p \<noteq> None \<or> map_of (kv_pending s) (kp_id p) \<noteq> None) (request_pages source s)"
    by (auto simp: list_ex_iff exclusive_def)
  then show ?thesis using assms unfolding handoff_request_def by auto
qed

section \<open>Prefixes\<close>

lemma collect_prefix_ok:
  "collect_prefix s pages ids = Inr out \<Longrightarrow> distinct ids \<Longrightarrow> out = ids @ pages \<and> distinct out \<and> (\<forall>i \<in> set pages. map_of (kv_pages s) i \<noteq> None)"
  by (induction s pages ids rule: collect_prefix.induct) (auto split: if_splits)

lemma hold_all:
  fixes k :: string
  assumes "distinct ids" "\<forall>i \<in> set ids. map_of (kv_pages s) i \<noteq> None" "kv_ok R s"
  defines "t \<equiv> fold (hold_page k) ids s"
  shows "acc_ok t" "kv_requests t = kv_requests s" "kv_prefixes t = kv_prefixes s" "bound_to j t = bound_to j s"
    "map_option (\<lambda>p. (kp_refs p, kp_pinned p)) (map_of (kv_pages t) j) =
       map_option (\<lambda>p. (kp_refs p + (if j \<in> set ids then 1 else 0), kp_pinned p)) (map_of (kv_pages s) j)"
proof -
  have "(acc_ok s \<longrightarrow> acc_ok (fold (hold_page k) ids s)) \<and> kv_requests (fold (hold_page k) ids s) = kv_requests s \<and>
    kv_prefixes (fold (hold_page k) ids s) = kv_prefixes s \<and> (\<forall>j. bound_to j (fold (hold_page k) ids s) = bound_to j s) \<and>
    (\<forall>j. map_option (\<lambda>p. (kp_refs p, kp_pinned p)) (map_of (kv_pages (fold (hold_page k) ids s)) j) =
       map_option (\<lambda>p. (kp_refs p + (if j \<in> set ids then 1 else 0), kp_pinned p)) (map_of (kv_pages s) j))"
    using assms(1)
  proof (induction ids arbitrary: s)
    case Nil
    then show ?case by simp
  next
    case (Cons i ids)
    let ?u = "hold_page k i s"
    have ni: "i \<notin> set ids" "distinct ids" using Cons.prems by simp_all
    have u: "kv_requests ?u = kv_requests s" "kv_prefixes ?u = kv_prefixes s" "\<And>j. bound_to j ?u = bound_to j s" "acc_ok s \<longrightarrow> acc_ok ?u"
      "\<And>j. map_of (kv_pages ?u) j = (if j = i then map_option (\<lambda>p. p\<lparr>kp_refs := kp_refs p + 1, kp_prefix := Some k, kp_access := kv_clock s + 1\<rparr>)
         (map_of (kv_pages s) i) else map_of (kv_pages s) j)"
      by (auto simp: hold_page_def touch_lookup with_page_lookup option.map_comp comp_def intro!: touch_acc acc_ok_with_page)
    note ih = Cons.IH [OF ni(2), of ?u]
    show ?case
    proof (intro conjI allI)
      show "map_option (\<lambda>p. (kp_refs p, kp_pinned p)) (map_of (kv_pages (fold (hold_page k) (i # ids) s)) j) =
         map_option (\<lambda>p. (kp_refs p + (if j \<in> set (i # ids) then 1 else 0), kp_pinned p)) (map_of (kv_pages s) j)" for j
        using conjunct2 [OF conjunct2 [OF conjunct2 [OF conjunct2 [OF ih]]], rule_format, of j] ni(1)
        by (cases "j = i") (simp_all add: u(5) option.map_comp comp_def)
    qed (use ih u in simp_all)
  qed
  then show "acc_ok t" "kv_requests t = kv_requests s" "kv_prefixes t = kv_prefixes s" "bound_to j t = bound_to j s"
    "map_option (\<lambda>p. (kp_refs p, kp_pinned p)) (map_of (kv_pages t) j) =
       map_option (\<lambda>p. (kp_refs p + (if j \<in> set ids then 1 else 0), kp_pinned p)) (map_of (kv_pages s) j)"
    using kv_okD(1) [OF assms(3)] unfolding t_def by blast+
qed

lemma register_prefix_inv:
  assumes inv: "kv_inv s"
  shows "kv_inv (snd (register_prefix k pages s))"
proof (cases "k = [] \<or> map_of (kv_prefixes s) k \<noteq> None")
  case True
  then show ?thesis using inv by (auto simp: register_prefix_def)
next
  case False
  have k: "kv_ok (kv_requests s) s" using inv by (simp add: kv_inv_def)
  note r = kv_okD(2) [OF k] and lR = kv_okD(3) [OF k] and lP = kv_okD(4) [OF k]
  show ?thesis
  proof (cases "collect_prefix s pages []")
    case (Inl e)
    then show ?thesis using inv by (auto simp: register_prefix_def)
  next
    case (Inr ids)
    have ids: "ids = pages" "distinct ids" "\<forall>i \<in> set ids. map_of (kv_pages s) i \<noteq> None"
      using collect_prefix_ok [OF Inr] by auto
    define t where "t = fold (hold_page k) ids s"
    note h = hold_all [OF ids(2,3) k, where k = k, folded t_def]
    let ?P = "AList.update k ids (kv_prefixes s)" and ?u = "t\<lparr>kv_prefixes := AList.update k ids (kv_prefixes t)\<rparr>"
    have none: "ids_at (kv_prefixes s) k = []" using False by (simp add: ids_at_def)
    have dom: "map_of (kv_pages t) j = None \<longleftrightarrow> map_of (kv_pages s) j = None" for j
      using h(5) [of j] by (cases "map_of (kv_pages t) j"; cases "map_of (kv_pages s) j") simp_all
    have "refs_ok (kv_requests s) ?P t"
    proof (rule refs_okI)
      show "lists_ok (map_of (kv_pages t)) (kv_requests s)" by (rule lists_ok_mono [OF lR]) (simp add: dom)
      have "lists_ok (map_of (kv_pages t)) (kv_prefixes s)" by (rule lists_ok_mono [OF lP]) (simp add: dom)
      then show "lists_ok (map_of (kv_pages t)) ?P" by (rule lists_ok_update) (use ids dom in auto)
      show "bound_to j t = {}" if "map_of (kv_pages t) j = None" for j using refs_okD(6) [OF r, of j] that by (simp add: h(4) dom)
      fix j q assume q: "map_of (kv_pages t) j = Some q"
      obtain p where p: "map_of (kv_pages s) j = Some p" "kp_refs q = kp_refs p + (if j \<in> set ids then 1 else 0)" "kp_pinned q = kp_pinned p"
        using h(5) [of j] q by (cases "map_of (kv_pages s) j") auto
      have "refs_in j ?P = refs_in j (kv_prefixes s) + (if j \<in> set ids then 1 else 0)"
        using refs_in_update [OF lists_okD(1) [OF lP], of j k ids] none by simp
      then show "kp_refs q = refs_in j (kv_requests s) + refs_in j ?P \<and> (kp_refs q = 0 \<longrightarrow> kp_pinned q) \<and>
          bound_to j t = {r. j \<in> set (ids_at (kv_requests s) r)}"
        using refs_okD(3-5) [OF r p(1)] p(2,3) refs_in_nonneg [of j "kv_requests s"] refs_in_nonneg [of j "kv_prefixes s"]
        by (simp add: h(4))
    qed
    then have "kv_inv ?u" using h(1-3) by (simp add: kv_inv_def kv_ok_def)
    moreover have "register_prefix k pages s = (Inr (), ?u)" using False Inr by (simp add: register_prefix_def Let_def t_def)
    ultimately show ?thesis by simp
  qed
qed

text \<open>Dropping the reference of a prefix, with the prefix list shortened as the loop does.\<close>

definition shorten :: "string \<Rightarrow> int list \<Rightarrow> kv_pool \<Rightarrow> kv_pool" where
  "shorten k ids s = (if map_of (kv_prefixes s) k \<noteq> None then s\<lparr>kv_prefixes := AList.update k ids (kv_prefixes s)\<rparr> else s)"

lemma drop_prefix_ok:
  assumes k: "kv_ok R s" and i: "ids_at (kv_prefixes s) key = i # ids"
  shows "\<exists>t. drop_ref i None s = (Inr (), t) \<and> kv_ok R (shorten key ids t) \<and> kv_requests t = kv_requests s \<and>
    ids_at (kv_prefixes (shorten key ids t)) key = ids"
proof -
  note a = kv_okD(1) [OF k] and r = kv_okD(2) [OF k] and lR = kv_okD(3) [OF k] and lP = kv_okD(4) [OF k]
  have mem: "i \<in> set (ids_at (kv_prefixes s) key)" using i by simp
  obtain p where p: "map_of (kv_pages s) i = Some p" using lists_okD(3) [OF lP mem] by blast
  have d: "i \<notin> set ids" "distinct ids" using lists_okD(2) [OF lP, of key] i by simp_all
  have one: "1 \<le> refs_in i (kv_prefixes s)" by (rule refs_in_pos [OF lists_okD(1) [OF lP] mem])
  have nn: "0 \<le> refs_in i R" by (rule refs_in_nonneg)
  show ?thesis
  proof (cases "kp_refs p = 1 \<and> \<not> kp_pinned p")
    case True
    let ?t = "freed i p s"
    have "refs_in i R = 0" using refs_okD(3) [OF r p] True one nn by simp
    then have none: "i \<notin> set (ids_at R r)" for r using refs_in_zero [OF lists_okD(1) [OF lR]] by blast
    have t: "kv_ok R ?t" by (rule free_ok(2) [OF k p none])
    have w: "wf_dict (kv_prefixes ?t)" using kv_okD(4) [OF t] lists_okD(1) by blast
    have ids: "ids_at (kv_prefixes ?t) key = ids"
      using without_page_lists(2) [OF lists_okD(1) [OF lP], of i key] d(1) by (simp add: i filter_id_conv) (auto intro!: filter_True)
    have "kv_ok R (shorten key ids ?t) \<and> ids_at (kv_prefixes (shorten key ids ?t)) key = ids"
    proof (cases "map_of (kv_prefixes ?t) key")
      case None
      then show ?thesis using t ids by (simp add: shorten_def)
    next
      case (Some x)
      have "refs_ok R (AList.update key ids (kv_prefixes ?t)) ?t"
        by (rule refs_ok_lists [OF kv_okD(2) [OF t]]) (use lists_okD(1) [OF lR] w ids in simp_all)
      then show ?thesis using t Some by (simp add: shorten_def kv_ok_def)
    qed
    then show ?thesis using drop_ref_free [OF a p] True by (intro exI [of _ ?t]) simp
  next
    case False
    then have kp: "1 < kp_refs p \<or> kp_refs p = 1 \<and> kp_pinned p" using refs_okD(3) [OF r p] one nn by auto
    from drop_ref_keep [OF p kp, of None] obtain b where
      b: "drop_ref i None s = (Inr (), with_page i (\<lambda>p. p\<lparr>kp_refs := kp_refs p - 1\<rparr>) (s\<lparr>kv_bindings := b\<rparr>))"
        "\<forall>j. bound_to j (s\<lparr>kv_bindings := b\<rparr>) = bound_to j s" by (elim exE conjE) simp
    define t where "t = with_page i (\<lambda>p. p\<lparr>kp_refs := kp_refs p - 1\<rparr>) (s\<lparr>kv_bindings := b\<rparr>)"
    let ?P = "AList.update key ids (kv_prefixes s)" and ?q = "p\<lparr>kp_refs := kp_refs p - 1\<rparr>"
    have at: "acc_ok t" unfolding t_def by (rule acc_ok_with_page) (simp_all add: a)
    have lk: "map_of (kv_pages t) j = (if j = i then Some ?q else map_of (kv_pages s) j)" for j by (simp add: t_def with_page_lookup p)
    have tp: "kv_prefixes t = kv_prefixes s" "kv_requests t = kv_requests s" "bound_to j t = bound_to j s" for j
      using b(2) by (simp_all add: t_def)
    have dom: "map_of (kv_pages s) j \<noteq> None \<Longrightarrow> map_of (kv_pages t) j \<noteq> None" for j by (simp add: lk)
    have rf: "refs_in j ?P = refs_in j (kv_prefixes s) - (if j = i then 1 else 0)" for j
      using refs_in_update [OF lists_okD(1) [OF lP], of j key ids] i d(1) by auto
    have some: "map_of (kv_prefixes t) key \<noteq> None" using i by (auto simp: tp ids_at_def split: option.splits)
    have "refs_ok R ?P t"
    proof (rule refs_ok_step [OF r lk])
      show "lists_ok (map_of (kv_pages t)) R" by (rule lists_ok_mono [OF lR dom])
      have "lists_ok (map_of (kv_pages t)) (kv_prefixes s)" by (rule lists_ok_mono [OF lP dom])
      then show "lists_ok (map_of (kv_pages t)) ?P" by (rule lists_ok_update) (use d(2) lists_okD(3) [OF lP, of _ key] i dom in auto)
      show "kp_refs ?q = refs_in i R + refs_in i ?P" using refs_okD(3) [OF r p] by (simp add: rf)
      show "kp_refs ?q = 0 \<longrightarrow> kp_pinned ?q" using kp by auto
      show "bound_to i t = {r. i \<in> set (ids_at R r)}" using refs_okD(5) [OF r p] by (simp add: tp)
    qed (simp_all add: tp rf)
    then have "kv_ok R (shorten key ids t)" using at some by (simp add: shorten_def kv_ok_def tp)
    moreover have "ids_at (kv_prefixes (shorten key ids t)) key = ids" using some by (simp add: shorten_def)
    ultimately show ?thesis using b(1) tp(2) by (simp add: t_def [symmetric])
  qed
qed

lemma shorten_requests [simp]: "kv_requests (shorten k ids s) = kv_requests s"
  by (simp add: shorten_def)

lemma release_held_ok:
  assumes "kv_ok R s" "ids_at (kv_prefixes s) k = ids"
  shows "\<exists>t. release_held k ids s = (Inr (), t) \<and> kv_ok R t \<and> kv_requests t = kv_requests s \<and> ids_at (kv_prefixes t) k = []"
  using assms
proof (induction ids arbitrary: s)
  case (Cons i ids)
  obtain t where t: "drop_ref i None s = (Inr (), t)" "kv_ok R (shorten k ids t)" "kv_requests t = kv_requests s"
    "ids_at (kv_prefixes (shorten k ids t)) k = ids" using drop_prefix_ok [OF Cons.prems] by blast
  let ?u = "with_page i (\<lambda>p. p\<lparr>kp_prefix := other_prefix i (kv_prefixes (shorten k ids t))\<rparr>) (shorten k ids t)"
  have "kv_ok R ?u"
    by (rule with_page_ok [OF t(2)]) (use refs_okD(4) [OF kv_okD(2) [OF t(2)]] in simp_all)
  then have "\<exists>v. release_held k ids ?u = (Inr (), v) \<and> kv_ok R v \<and> kv_requests v = kv_requests ?u \<and> ids_at (kv_prefixes v) k = []"
    using Cons.IH [of ?u] t(4) by simp
  moreover have "release_held k (i # ids) s = release_held k ids ?u"
    by (simp only: release_held.simps t(1) prod.case sum.case Let_def shorten_def)
  ultimately show ?case using t(3) by simp
qed simp

lemma release_prefix_ok:
  assumes "kv_inv s"
  shows "\<exists>t. release_prefix k s = (Inr (), t) \<and> kv_inv t \<and> kv_requests t = kv_requests s \<and> map_of (kv_prefixes t) k = None"
proof -
  have k: "kv_ok (kv_requests s) s" using assms by (simp add: kv_inv_def)
  obtain t where t: "release_held k (ids_at (kv_prefixes s) k) s = (Inr (), t)" "kv_ok (kv_requests s) t" "kv_requests t = kv_requests s"
    "ids_at (kv_prefixes t) k = []" using release_held_ok [OF k refl] by blast
  have w: "wf_dict (kv_prefixes t)" using lists_okD(1) [OF kv_okD(4) [OF t(2)]] .
  have "refs_ok (kv_requests s) (AList.delete k (kv_prefixes t)) t"
    by (rule refs_ok_lists [OF kv_okD(2) [OF t(2)]]) (use w t(4) kv_okD(5) [OF t(2)] in simp_all)
  then have "kv_inv (t\<lparr>kv_prefixes := AList.delete k (kv_prefixes t)\<rparr>)"
    using kv_okD(1) [OF t(2)] t(3) by (simp add: kv_inv_def kv_ok_def)
  then show ?thesis using t(1,3) by (simp add: release_prefix_def sbind_def)
qed

section \<open>Eviction\<close>

lemma evictable_unlisted:
  assumes "kv_inv s" "evictable allowed s p" "kp_id p = i"
  shows "i \<notin> set (ids_at (kv_requests s) r)"
  using assms refs_okD(7) [of "kv_requests s" "kv_prefixes s" s i] by (auto simp: evictable_def kv_inv_def kv_ok_def)

lemma page_reserved_cong: "kv_granularity t = kv_granularity s \<Longrightarrow> page_reserved p t = page_reserved p s"
  by (simp add: page_reserved_def allocation_bytes_def granule_of_def)

definition owned_by :: "string \<Rightarrow> kv_pool \<Rightarrow> kv_page list \<Rightarrow> int" where
  "owned_by c s ps = sum_list (map (\<lambda>p. if kp_owner p = c then page_reserved p s else 0) ps)"

text \<open>The first \<open>m\<close> pages are gone, everything else is as before.\<close>

definition evicted :: "kv_page list \<Rightarrow> kv_pool \<Rightarrow> kv_pool \<Rightarrow> bool" where
  "evicted gone s t \<longleftrightarrow>
     (\<forall>j. map_of (kv_pages t) j = (if j \<in> kp_id ` set gone then None else map_of (kv_pages s) j)) \<and>
     kv_requests t = kv_requests s \<and> (\<forall>c. used_at c t = used_at c s - owned_by c s gone) \<and> kv_pending t = kv_pending s \<and>
     (\<forall>k. ids_at (kv_prefixes t) k = filter (\<lambda>i. i \<notin> kp_id ` set gone) (ids_at (kv_prefixes s) k))"

lemma evicted_Nil: "evicted [] s s"
  by (simp add: evicted_def owned_by_def)

lemma evicted_Cons:
  assumes k: "kv_inv s" and p: "map_of (kv_pages s) (kp_id p) = Some p" and e: "evicted gone (freed (kp_id p) p s) t"
  shows "evicted (p # gone) s t"
proof -
  have "kv_ok (kv_requests s) s" using k by (simp add: kv_inv_def)
  then have w: "wf_dict (kv_prefixes s)" using kv_okD(4) lists_okD(1) by blast
  have r: "page_reserved q (freed (kp_id p) p s) = page_reserved q s" for q by (rule page_reserved_cong) simp
  have o: "owned_by c (freed (kp_id p) p s) gone = owned_by c s gone" for c unfolding owned_by_def r ..
  show ?thesis
    unfolding evicted_def
  proof (intro conjI allI)
    show "map_of (kv_pages t) j = (if j \<in> kp_id ` set (p # gone) then None else map_of (kv_pages s) j)" for j
      using e by (simp add: evicted_def)
    show "used_at c t = used_at c s - owned_by c s (p # gone)" for c
      using e by (simp add: evicted_def o) (simp add: owned_by_def)
    show "ids_at (kv_prefixes t) key = filter (\<lambda>i. i \<notin> kp_id ` set (p # gone)) (ids_at (kv_prefixes s) key)" for key
      using e by (auto simp: evicted_def without_page_lists(2) [OF w] intro: filter_cong)
  qed (use e in \<open>simp_all add: evicted_def\<close>)
qed

lemma evict_pages_ok:
  assumes "kv_inv s" "distinct (map kp_id ps)" "\<forall>p \<in> set ps. map_of (kv_pages s) (kp_id p) = Some p \<and> evictable allowed s p"
  shows "\<exists>m t. evict_pages needed got ps s = (Inr (got + sum_list (map (\<lambda>p. page_reserved p s) (take m ps))), t) \<and> kv_inv t \<and>
    evicted (take m ps) s t \<and> m \<le> length ps \<and>
    (needed \<le> got + sum_list (map (\<lambda>p. page_reserved p s) (take m ps)) \<or> m = length ps) \<and>
    (\<forall>l < m. got + sum_list (map (\<lambda>p. page_reserved p s) (take l ps)) < needed)"
  using assms
proof (induction ps arbitrary: s got)
  case Nil
  then show ?case using evicted_Nil by simp
next
  case (Cons p ps)
  show ?case
  proof (cases "needed \<le> got")
    case True
    then show ?thesis using Cons.prems(1) evicted_Nil by (intro exI [of _ 0] exI [of _ s]) simp
  next
    case False
    have p: "map_of (kv_pages s) (kp_id p) = Some p" "evictable allowed s p" using Cons.prems(3) by simp_all
    let ?s = "freed (kp_id p) p s"
    have k: "kv_ok (kv_requests s) s" using Cons.prems(1) by (simp add: kv_inv_def)
    note f = free_ok [OF k p(1) evictable_unlisted [OF Cons.prems(1) p(2) refl]]
    have inv: "kv_inv ?s" using f(2) by (simp add: kv_inv_def)
    have rest: "\<forall>q \<in> set ps. map_of (kv_pages ?s) (kp_id q) = Some q \<and> evictable allowed ?s q"
    proof
      fix q assume q: "q \<in> set ps"
      have "kp_id q \<noteq> kp_id p" using Cons.prems(2) q by (metis distinct.simps(2) image_eqI list.simps(9) set_map)
      then show "map_of (kv_pages ?s) (kp_id q) = Some q \<and> evictable allowed ?s q"
        using bspec [OF Cons.prems(3), of q] q by (simp add: evictable_def)
    qed
    have r: "page_reserved q ?s = page_reserved q s" for q by (rule page_reserved_cong) simp
    have "distinct (map kp_id ps)" using Cons.prems(2) by simp
    from Cons.IH [OF inv this rest, of "got + page_reserved p s", unfolded r] obtain m t where
      t: "evict_pages needed (got + page_reserved p s) ps ?s =
          (Inr (got + page_reserved p s + sum_list (map (\<lambda>p. page_reserved p s) (take m ps))), t)" "kv_inv t" "evicted (take m ps) ?s t"
        "m \<le> length ps" "needed \<le> got + page_reserved p s + sum_list (map (\<lambda>p. page_reserved p s) (take m ps)) \<or> m = length ps"
        "\<forall>l < m. got + page_reserved p s + sum_list (map (\<lambda>p. page_reserved p s) (take l ps)) < needed" by blast
    have "got + sum_list (map (\<lambda>p. page_reserved p s) (take l (p # ps))) < needed" if "l < Suc m" for l
      using t(6) that False by (cases l) (simp_all add: add.assoc)
    moreover have "evict_pages needed got (p # ps) s = (Inr (got + sum_list (map (\<lambda>p. page_reserved p s) (take (Suc m) (p # ps)))), t)"
      using t(1) False by (simp add: f(1) sbind_def r add.assoc)
    ultimately show ?thesis
      using t(2,4,5) evicted_Cons [OF Cons.prems(1) p(1) t(3)] by (intro exI [of _ "Suc m"] exI [of _ t]) (simp add: add.assoc)
  qed
qed

lemma map_fst_ids:
  assumes "acc_ok s"
  shows "map kp_id (map snd (kv_pages s)) = map fst (kv_pages s)"
proof -
  have "kp_id p = i" if "(i, p) \<in> set (kv_pages s)" for i p
    using page_okD(1) [OF acc_okD(13) [OF assms, of i p]] that wf_dict_in_iff [OF acc_okD(12) [OF assms]] by blast
  then show ?thesis by auto
qed

lemma eviction_order_ok:
  assumes "kv_inv s"
  shows "distinct (map kp_id (eviction_order allowed s))"
    "\<forall>p \<in> set (eviction_order allowed s). map_of (kv_pages s) (kp_id p) = Some p \<and> evictable allowed s p"
    "set (eviction_order allowed s) = {p. map_of (kv_pages s) (kp_id p) = Some p \<and> evictable allowed s p}"
    "sorted (map (\<lambda>p. (kp_access p, kp_id p)) (eviction_order allowed s))"
proof -
  have a: "acc_ok s" using assms by (simp add: kv_inv_def kv_ok_def)
  note w = acc_okD(12) [OF a]
  have d: "distinct (map kp_id (map snd (kv_pages s)))" unfolding map_fst_ids [OF a] using w by (simp add: wf_dict_def)
  then have "distinct (map kp_id (filter (evictable allowed s) (map snd (kv_pages s))))" by (rule distinct_map_filter)
  then show "distinct (map kp_id (eviction_order allowed s))"
    unfolding eviction_order_def by (simp add: distinct_map)
  show set: "set (eviction_order allowed s) = {p. map_of (kv_pages s) (kp_id p) = Some p \<and> evictable allowed s p}"
  proof -
    have "(\<exists>i. (i, p) \<in> set (kv_pages s)) \<longleftrightarrow> map_of (kv_pages s) (kp_id p) = Some p" for p
      using page_okD(1) [OF acc_okD(13) [OF a]] wf_dict_in_iff [OF w] by blast
    then have "snd ` set (kv_pages s) = {p. map_of (kv_pages s) (kp_id p) = Some p}" by force
    then show ?thesis by (auto simp: eviction_order_def)
  qed
  show "\<forall>p \<in> set (eviction_order allowed s). map_of (kv_pages s) (kp_id p) = Some p \<and> evictable allowed s p"
    unfolding set by simp
  show "sorted (map (\<lambda>p. (kp_access p, kp_id p)) (eviction_order allowed s))" by (simp add: eviction_order_def)
qed

lemma evict_ok:
  assumes "kv_inv s" "0 \<le> needed"
  shows "\<exists>m t. evict_kv needed allowed s = (Inr (sum_list (map (\<lambda>p. page_reserved p s) (take m (eviction_order allowed s)))), t) \<and>
    kv_inv t \<and> evicted (take m (eviction_order allowed s)) s t \<and>
    (needed \<le> sum_list (map (\<lambda>p. page_reserved p s) (take m (eviction_order allowed s))) \<or> m = length (eviction_order allowed s)) \<and>
    (\<forall>l < m. sum_list (map (\<lambda>p. page_reserved p s) (take l (eviction_order allowed s))) < needed)"
  using evict_pages_ok [OF assms(1) eviction_order_ok(1,2) [OF assms(1)], where needed = needed and got = 0] assms(2)
  by (simp add: evict_kv_def not_less) blast

lemma evict_inv: "kv_inv s \<Longrightarrow> kv_inv (snd (evict_kv needed allowed s))"
  using evict_ok [of s needed allowed] by (cases "0 \<le> needed") (auto simp: evict_kv_def)

end
