(* ===== verification/Kv_Moves.thy ===== *)
theory Kv_Moves
  imports Kv_Ops
begin

text \<open>
  Moving a page, at once or in two phases: the ledger, the owned bytes and the page change together,
  and whatever fails leaves the content of the pool as it was.
\<close>

section \<open>The ledger of a move\<close>

lemma reserved_bounds:
  assumes a: "acc_ok s" and p: "map_of (kv_pages s) i = Some p"
  shows "0 < page_reserved p s" "page_reserved p s \<le> used_at (kp_owner p) s"
    "map_of (kv_components s) c = Some y \<Longrightarrow> 0 < allocation_bytes c (kp_bytes p) s"
    "map_of (kv_components s) c = Some y \<Longrightarrow> 0 \<le> used_at c s"
    "map_of (kv_pending s) i = Some (src, c, g, kind) \<Longrightarrow> allocation_bytes c (kp_bytes p) s \<le> used_at c s"
proof -
  note po = page_okD [OF acc_okD(13) [OF a p]] and wf = acc_okD(12) [OF a]
  have pos: "0 < allocation_bytes c (kp_bytes p) s" if "map_of (kv_components s) c = Some y" for c y
    using round_up_ge [OF acc_okD(6) [OF a that], of "kp_bytes p"] po(4) by (simp add: allocation_bytes_def)
  then show "map_of (kv_components s) c = Some y \<Longrightarrow> 0 < allocation_bytes c (kp_bytes p) s" .
  obtain x where x: "map_of (kv_components s) (kp_owner p) = Some x" using po(5) by blast
  show r: "0 < page_reserved p s" using pos [OF x] by (simp add: page_reserved_def)
  have le: "claim_of (kv_granularity s) (kv_pending s) c p \<le> used_at c s" if c: "map_of (kv_components s) c = Some y" for c y
  proof -
    have "dict_val (claim_of (kv_granularity s) (kv_pending s) c) (kv_pages s) i \<le> claims c s"
      unfolding claims_def
    proof (rule dict_val_le_sum [OF wf])
      fix j q assume "(j, q) \<in> set (kv_pages s)"
      then have "0 < kp_bytes q" using page_okD(4) [OF acc_okD(13) [OF a]] wf_dict_in_iff [OF wf] by blast
      then show "0 \<le> claim_of (kv_granularity s) (kv_pending s) c q"
        using claim_nonneg acc_okD(6) [OF a c] by (simp add: granule_of_def)
    qed
    then show ?thesis using acc_okD(9) [OF a c] by (simp add: dict_val_def p)
  qed
  show "page_reserved p s \<le> used_at (kp_owner p) s"
    using le [OF x] r pos by (auto simp: claim_of_def page_reserved_def allocation_bytes_def granule_of_def split: option.splits if_splits)
  show "map_of (kv_components s) c = Some y \<Longrightarrow> 0 \<le> used_at c s" by (rule claims_nonneg(2) [OF a])
  show "allocation_bytes c (kp_bytes p) s \<le> used_at c s" if pend: "map_of (kv_pending s) i = Some (src, c, g, kind)"
  proof -
    obtain y where y: "map_of (kv_components s) c = Some y" using po(6) [OF pend] by blast
    have "c \<noteq> kp_owner p" using po(6) [OF pend] by auto
    then show ?thesis using le [OF y] pend by (simp add: claim_of_def po(1) allocation_bytes_def granule_of_def)
  qed
qed

lemma charge_ledger: "kv_ledger (charge c d s) = (kv_ledger s)\<lparr>lg_used := AList.update c (used_at c s + d) (lg_used (kv_ledger s))\<rparr>"
  by (simp add: charge_def)

lemma charge_charge: "s\<lparr>kv_ledger := kv_ledger (charge c d s)\<rparr> = charge c d s"
  by (simp add: charge_def)

lemma can_adjust_charge:
  assumes "acc_ok s" "map_of (kv_components s) c = Some x"
  shows "can_adjust c d (kv_ledger s) \<longleftrightarrow> d \<le> 0 \<or> used_at c s + d \<le> kc_capacity x"
  using acc_okD(4,7) [OF assms] by (simp add: can_adjust_def used_at_def)

definition shift_ledger :: "string \<Rightarrow> string \<Rightarrow> int \<Rightarrow> int \<Rightarrow> kv_pool \<Rightarrow> kv_pool" where
  "shift_ledger source target n m s = charge target m (charge source (- n) s)"

lemma adjust_charge:
  assumes "map_of (lg_limits (kv_ledger s)) c = Some limit" "c \<noteq> []" "d \<le> 0 \<or> used_at c s + d \<le> limit" "0 \<le> used_at c s + d"
  shows "adjust c d (kv_ledger s) = (Inr True, kv_ledger (charge c d s))"
  using assms by (simp add: adjust_def can_adjust_def charge_ledger used_at_def Let_def)

text \<open>A transfer between two components of the pool: it fits or it is refused.\<close>

lemma pool_transfer_run:
  assumes x: "map_of (lg_limits (kv_ledger s)) source = Some sc" and y: "map_of (lg_limits (kv_ledger s)) target = Some tc"
    and st: "source \<noteq> target" "source \<noteq> []" "target \<noteq> []" and n: "0 < n" "n \<le> used_at source s" "0 < m" "0 \<le> used_at target s"
  shows "pool_transfer source target n m s =
      (if used_at target s + m \<le> tc then (Inr True, shift_ledger source target n m s) else (Inr False, s))"
    "can_transfer_sized source target n m (kv_ledger s) \<longleftrightarrow> used_at target s + m \<le> tc"
proof -
  have ut: "used_at target (charge source (- n) s) = used_at target s" using st(1) by simp
  have y': "map_of (lg_limits (kv_ledger (charge source (- n) s))) target = Some tc" using y by simp
  have us: "int_at (lg_used (kv_ledger s)) source = used_at source s" by (simp add: used_at_def)
  have ct: "can_adjust target m (kv_ledger s) \<longleftrightarrow> used_at target s + m \<le> tc"
    using y st n by (simp add: can_adjust_def used_at_def)
  have cs: "can_adjust source (- n) (kv_ledger s)" using n by (simp add: can_adjust_def)
  show can: "can_transfer_sized source target n m (kv_ledger s) \<longleftrightarrow> used_at target s + m \<le> tc"
    unfolding can_transfer_sized_def can_transfer_def us using ct cs n st(1) by auto
  have a1: "adjust source (- n) (kv_ledger s) = (Inr True, kv_ledger (charge source (- n) s))"
    by (rule adjust_charge [OF x st(2)]) (use n in auto)
  have a2: "adjust target m (kv_ledger (charge source (- n) s)) = (Inr True, kv_ledger (charge target m (charge source (- n) s)))"
    if "used_at target s + m \<le> tc"
    by (rule adjust_charge [OF y' st(3)]) (use n that ut in auto)
  have s2: "s\<lparr>kv_ledger := kv_ledger (charge target m (charge source (- n) s))\<rparr> = shift_ledger source target n m s"
    by (simp add: shift_ledger_def charge_def)
  show "pool_transfer source target n m s =
      (if used_at target s + m \<le> tc then (Inr True, shift_ledger source target n m s) else (Inr False, s))"
  proof (cases "used_at target s + m \<le> tc")
    case False
    then show ?thesis using can by (auto simp: pool_transfer_def transfer_sized_def transfer_def can_transfer_sized_def)
  next
    case True
    have "transfer_sized source target n m (kv_ledger s) = (Inr True, kv_ledger (charge target m (charge source (- n) s)))"
    proof (cases "n = m")
      case eq: True
      then have "can_transfer source target n (kv_ledger s)" using can True by (simp add: can_transfer_sized_def)
      then show ?thesis using eq a1 a2 [OF True] st(1) by (simp add: transfer_sized_def transfer_def sbind_def)
    next
      case False
      then show ?thesis using can True cs ct a1 a2 [OF True] by (simp add: transfer_sized_def adjust_many_def)
    qed
    then show ?thesis using True by (simp add: pool_transfer_def s2)
  qed
qed

lemma shift_fields [simp]:
  "used_at c (shift_ledger source target n m s) = used_at c s - (if c = source then n else 0) + (if c = target then m else 0)"
  "lg_limits (kv_ledger (shift_ledger source target n m s)) = lg_limits (kv_ledger s)"
  by (simp_all add: shift_ledger_def)

lemma charge_kept: "kept_but_pages s (charge c d s)"
  by (simp add: kept_but_pages_def)

lemma shift_kept: "kept_but_pages s (shift_ledger source target n m s)"
  unfolding shift_ledger_def by (intro kept_trans [OF charge_kept charge_kept])

section \<open>One page and its reservation change\<close>

abbreviation claim_at :: "kv_pool \<Rightarrow> string \<Rightarrow> kv_page \<Rightarrow> int" where
  "claim_at s \<equiv> claim_of (kv_granularity s) (kv_pending s)"

lemma claims_change:
  assumes a: "acc_ok s" and p: "map_of (kv_pages s) i = Some p"
    and t: "kv_pages t = AList.update i p' (kv_pages s)" "kv_granularity t = kv_granularity s"
      "\<And>j. j \<noteq> i \<Longrightarrow> map_of (kv_pending t) j = map_of (kv_pending s) j"
  shows "claims c t = claims c s - claim_at s c p + claim_at t c p'"
proof -
  note wf = acc_okD(12) [OF a]
  have "claim_at t c q = claim_at s c q" if "(j, q) \<in> set (AList.delete i (kv_pages s))" for j q
  proof -
    have "(j, q) \<in> set (kv_pages s)" "j \<noteq> i" using that by (auto simp: AList.delete_eq)
    then have "kp_id q = j" using page_okD(1) [OF acc_okD(13) [OF a]] wf_dict_in_iff [OF wf] by blast
    then show ?thesis using t(3) [OF \<open>j \<noteq> i\<close>] by (simp add: claim_of_def t(2))
  qed
  then have "map (\<lambda>(k, q). claim_at t c q) (AList.delete i (kv_pages s)) = map (\<lambda>(k, q). claim_at s c q) (AList.delete i (kv_pages s))"
    by (intro map_cong refl) auto
  then have "dict_sum (claim_at t c) (AList.delete i (kv_pages s)) = dict_sum (claim_at s c) (AList.delete i (kv_pages s))"
    unfolding dict_sum_def by (rule arg_cong)
  then show ?thesis
    by (simp add: claims_def t(1) dict_sum_update [OF wf] dict_sum_delete [OF wf] dict_val_def p)
qed

definition pool_setup_kept :: "kv_pool \<Rightarrow> kv_pool \<Rightarrow> bool" where
  "pool_setup_kept s t \<longleftrightarrow> kv_components t = kv_components s \<and> kv_granularity t = kv_granularity s \<and> kv_tokens t = kv_tokens s \<and>
     kv_default_bytes t = kv_default_bytes s \<and> kv_layer_bytes t = kv_layer_bytes s \<and>
     lg_limits (kv_ledger t) = lg_limits (kv_ledger s) \<and> kv_counter t = kv_counter s"

lemma change_acc:
  assumes a: "acc_ok s" and p: "map_of (kv_pages s) i = Some p" and same: "pool_setup_kept s t" "0 \<le> kv_clock t"
    and t: "kv_pages t = AList.update i p' (kv_pages s)" "\<And>j. j \<noteq> i \<Longrightarrow> map_of (kv_pending t) j = map_of (kv_pending s) j"
    and p': "page_ok t i p'" "kp_bytes p' = kp_bytes p"
    and led: "\<And>c x. map_of (kv_components s) c = Some x \<Longrightarrow> map_of (lg_used (kv_ledger t)) c \<noteq> None \<and>
       used_at c s - claim_at s c p + claim_at t c p' \<le> used_at c t \<and> used_at c t \<le> kc_capacity x"
    and own: "\<And>c. int_at (kv_owned t) c = int_at (kv_owned s) c - (if kp_owner p = c then page_reserved p s else 0)
       + (if kp_owner p' = c then page_reserved p' s else 0)"
  shows "acc_ok t"
proof -
  note wf = acc_okD(12) [OF a]
  have st: "kv_components t = kv_components s" "kv_granularity t = kv_granularity s" "kv_tokens t = kv_tokens s"
    "kv_default_bytes t = kv_default_bytes s" "kv_layer_bytes t = kv_layer_bytes s"
    "lg_limits (kv_ledger t) = lg_limits (kv_ledger s)" "kv_counter t = kv_counter s"
    using same(1) by (simp_all add: pool_setup_kept_def)
  have "page_ok t j q" if q: "map_of (kv_pages t) j = Some q" for j q
  proof (cases "j = i")
    case True
    then show ?thesis using q p'(1) by (simp add: t(1))
  next
    case False
    then have "page_ok s j q" using q acc_okD(13) [OF a] by (simp add: t(1))
    then show ?thesis unfolding page_ok_def st t(2) [OF False] .
  qed
  moreover have "j < kv_counter t" if "map_of (kv_pending t) j \<noteq> None" for j
    using acc_okD(14) [OF a, of j] that page_okD(3) [OF p'(1)] t(2) [of j] by (cases "j = i") (simp_all add: st)
  ultimately have po: "pages_ok t" using wf acc_okD(15) [OF a] same(2) by (simp add: pages_ok_def st t(1))
  show ?thesis
  proof (rule acc_okI [OF a st(1-6) po])
    fix c x assume c: "map_of (kv_components s) c = Some x"
    have "claims c t \<le> used_at c t"
      using claims_change [OF a p t(1) st(2) t(2), of c] acc_okD(9) [OF a c] led [OF c] by linarith
    then show "map_of (lg_used (kv_ledger t)) c \<noteq> None \<and> claims c t \<le> used_at c t \<and> used_at c t \<le> kc_capacity x"
      using led [OF c] by blast
  next
    fix c
    have "owned_total (kv_granularity s) c (kv_pages t) = int_at (kv_owned s) c - (if kp_owner p = c then page_reserved p s else 0)
       + (if kp_owner p' = c then page_reserved p' s else 0)"
      using acc_okD(11) [OF a, of c]
      by (simp add: t(1) owned_total_update [OF wf] p page_reserved_def allocation_bytes_def granule_of_def)
    then show "int_at (kv_owned t) c = owned_total (kv_granularity s) c (kv_pages t)" by (simp add: own)
  qed
qed

lemma change_ok:
  assumes k: "kv_ok R s" and p: "map_of (kv_pages s) i = Some p" and t: "acc_ok t" "kv_pages t = AList.update i p' (kv_pages s)"
    "kv_prefixes t = kv_prefixes s" "kv_bindings t = kv_bindings s" and p': "kp_refs p' = kp_refs p" "kp_pinned p' = kp_pinned p"
  shows "kv_ok R t"
proof -
  have "refs_ok R (kv_prefixes s) t"
    by (rule refs_ok_pages [OF kv_okD(2) [OF k]]) (simp_all add: bound_to_def t p p')
  then show ?thesis using t(1,3) by (simp add: kv_ok_def)
qed

text \<open>A reservation is taken or given back: the pages stay.\<close>

definition reserved_move :: "int \<Rightarrow> pending_move option \<Rightarrow> string \<Rightarrow> int \<Rightarrow> kv_pool \<Rightarrow> kv_pool" where
  "reserved_move i m c d s = (charge c d s)\<lparr>kv_pending := (case m of None \<Rightarrow> AList.delete i (kv_pending s)
     | Some x \<Rightarrow> AList.update i x (kv_pending s))\<rparr>"

lemma reserved_move_fields [simp]:
  "kv_pages (reserved_move i m c d s) = kv_pages s" "kv_prefixes (reserved_move i m c d s) = kv_prefixes s"
  "kv_requests (reserved_move i m c d s) = kv_requests s" "kv_bindings (reserved_move i m c d s) = kv_bindings s"
  "map_of (kv_pending (reserved_move i m c d s)) j = (if j = i then m else map_of (kv_pending s) j)"
  "used_at c' (reserved_move i m c d s) = used_at c' s + (if c' = c then d else 0)"
  "kv_granularity (reserved_move i m c d s) = kv_granularity s" "kv_owned (reserved_move i m c d s) = kv_owned s"
  "kv_ledger (reserved_move i m c d s) = kv_ledger (charge c d s)" "kv_clock (reserved_move i m c d s) = kv_clock s"
  "kv_components (reserved_move i m c d s) = kv_components s" "kv_counter (reserved_move i m c d s) = kv_counter s"
  "kv_events (reserved_move i m c d s) = kv_events s"
  by (simp_all add: reserved_move_def split: option.split) (simp_all add: used_at_def charge_def int_at_def)

lemma reserved_move_ok:
  assumes k: "kv_ok R s" and p: "map_of (kv_pages s) i = Some p" and c: "map_of (kv_components s) c = Some x"
    and room: "used_at c s + d \<le> kc_capacity x"
    and gain: "\<And>c'. claim_of (kv_granularity s) (kv_pending (reserved_move i m c d s)) c' p = claim_at s c' p + (if c' = c then d else 0)"
    and m: "page_ok (reserved_move i m c d s) i p"
  shows "kv_ok R (reserved_move i m c d s)"
proof (rule change_ok [OF k p])
  let ?t = "reserved_move i m c d s"
  note a = kv_okD(1) [OF k]
  show "acc_ok ?t"
  proof (rule change_acc [OF a p _ _ _ _ m])
    show "pool_setup_kept s ?t" by (simp add: pool_setup_kept_def reserved_move_def split: option.split)
    show "map_of (lg_used (kv_ledger ?t)) c' \<noteq> None \<and> used_at c' s - claim_at s c' p + claim_at ?t c' p \<le> used_at c' ?t \<and>
        used_at c' ?t \<le> kc_capacity y" if y: "map_of (kv_components s) c' = Some y" for c' y
    proof (intro conjI)
      show "map_of (lg_used (kv_ledger ?t)) c' \<noteq> None" using acc_okD(8) [OF a y] by simp
      show "used_at c' s - claim_at s c' p + claim_at ?t c' p \<le> used_at c' ?t" using gain [of c'] by simp
      show "used_at c' ?t \<le> kc_capacity y" using acc_okD(10) [OF a y] room c y by (cases "c' = c") simp_all
    qed
  qed (use acc_okD(16) [OF a] in \<open>simp_all add: p update_triv\<close>)
qed (simp_all add: p update_triv)

section \<open>A page arrives\<close>

definition landed :: "int \<Rightarrow> string \<Rightarrow> kv_page \<Rightarrow> kv_component \<Rightarrow> kv_plan \<Rightarrow> kv_pool \<Rightarrow> kv_pool" where
  "landed i kind p tc plan s = (publish kind p tc plan s)\<lparr>kv_pending := AList.delete i (kv_pending s)\<rparr>"

definition arrived :: "kv_page \<Rightarrow> kv_component \<Rightarrow> kv_pool \<Rightarrow> kv_page" where
  "arrived p tc s = (arrive (kp_generation p + 1) tc p)\<lparr>kp_access := kv_clock s + 1\<rparr>"

lemma arrived_fields [simp]:
  "kp_id (arrived p tc s) = kp_id p" "kp_bytes (arrived p tc s) = kp_bytes p" "kp_owner (arrived p tc s) = kc_id tc"
  "kp_refs (arrived p tc s) = kp_refs p" "kp_pinned (arrived p tc s) = kp_pinned p" "kp_generation (arrived p tc s) = kp_generation p + 1"
  "kp_tier (arrived p tc s) = kc_tier tc" "kp_request (arrived p tc s) = kp_request p"
  by (simp_all add: arrived_def arrive_def)

lemma landed_fields:
  assumes "map_of (kv_pages s) i = Some p" "kp_id p = i"
  shows "kv_pages (landed i kind p tc plan s) = AList.update i (arrived p tc s) (kv_pages s)"
    "kv_prefixes (landed i kind p tc plan s) = kv_prefixes s" "kv_bindings (landed i kind p tc plan s) = kv_bindings s"
    "kv_requests (landed i kind p tc plan s) = kv_requests s" "kv_ledger (landed i kind p tc plan s) = kv_ledger s"
    "kv_pending (landed i kind p tc plan s) = AList.delete i (kv_pending s)" "kv_clock (landed i kind p tc plan s) = kv_clock s + 1"
    "pool_setup_kept s (landed i kind p tc plan s)"
    "int_at (kv_owned (landed i kind p tc plan s)) c = int_at (kv_owned s) c - (if kp_owner p = c then page_reserved p s else 0)
       + (if kc_id tc = c then allocation_bytes (kc_id tc) (kp_bytes p) s else 0)"
    "kv_events (landed i kind p tc plan s) = kv_events s @ [\<lparr>kt_kind = kind, kt_page = i, kt_source = kp_owner p,
       kt_target = kc_id tc, kt_bytes = kp_bytes p, kt_duration = kl_duration plan, kt_start = kl_start plan, kt_completion = kl_completion plan\<rparr>]"
  using assms by (simp_all add: landed_def publish_def log_transfer_def Let_def touch_page_def with_page_def shift_owned_def
    pool_setup_kept_def arrived_def int_at_def)

lemma landed_ok:
  assumes k: "kv_ok R s" and p: "map_of (kv_pages s) i = Some p" and tc: "map_of (kv_components s) target = Some tc" "kp_owner p \<noteq> target"
    and l: "lg_limits l = lg_limits (kv_ledger s)"
    and led: "\<And>c x. map_of (kv_components s) c = Some x \<Longrightarrow> map_of (lg_used l) c \<noteq> None \<and>
       used_at c s - claim_at s c p + (if c = target then allocation_bytes target (kp_bytes p) s else 0) \<le> int_at (lg_used l) c \<and>
       int_at (lg_used l) c \<le> kc_capacity x"
  shows "kv_ok R (landed i kind p tc plan (s\<lparr>kv_ledger := l\<rparr>))"
proof -
  note a = kv_okD(1) [OF k]
  let ?u = "s\<lparr>kv_ledger := l\<rparr>" and ?t = "landed i kind p tc plan (s\<lparr>kv_ledger := l\<rparr>)"
  note po = page_okD [OF acc_okD(13) [OF a p]]
  have id: "kp_id p = i" "kc_id tc = target" using po(1) acc_okD(5) [OF a tc(1)] by simp_all
  have pu: "map_of (kv_pages ?u) i = Some p" using p by simp
  note f = landed_fields [OF pu id(1), of kind tc plan]
  have r: "page_reserved p ?u = page_reserved p s" "allocation_bytes c n ?u = allocation_bytes c n s" for c n
    by (simp_all add: page_reserved_def allocation_bytes_def granule_of_def)
  have ss: "pool_setup_kept s ?t" using f(8) l by (simp add: pool_setup_kept_def)
  have pa: "page_ok ?t i (arrived p tc ?u)"
    using po(2,3) id tc ss po(4) by (simp add: page_ok_def f(6) pool_setup_kept_def)
  have cl: "claim_at ?t c (arrived p tc ?u) = (if c = target then allocation_bytes target (kp_bytes p) s else 0)" for c
    using ss by (simp add: claim_of_def id f(6) pool_setup_kept_def allocation_bytes_def granule_of_def)
  show ?thesis
  proof (rule change_ok [OF k p, where p' = "arrived p tc ?u"])
    show "acc_ok ?t"
    proof (rule change_acc [OF a p ss _ _ _ pa])
      show "kv_pages ?t = AList.update i (arrived p tc ?u) (kv_pages s)" using f(1) by simp
      show "map_of (kv_pending ?t) j = map_of (kv_pending s) j" if "j \<noteq> i" for j using that by (simp add: f(6))
      show "map_of (lg_used (kv_ledger ?t)) c \<noteq> None \<and> used_at c s - claim_at s c p + claim_at ?t c (arrived p tc ?u) \<le> used_at c ?t \<and>
          used_at c ?t \<le> kc_capacity x" if x: "map_of (kv_components s) c = Some x" for c x
        using led [OF x] by (simp add: cl used_at_def [of c ?t] f(5))
      show "int_at (kv_owned ?t) c = int_at (kv_owned s) c - (if kp_owner p = c then page_reserved p s else 0) +
          (if kp_owner (arrived p tc ?u) = c then page_reserved (arrived p tc ?u) s else 0)" for c
        using f(9) [of c] by (simp add: r id) (simp add: page_reserved_def id)
      show "0 \<le> kv_clock ?t" using acc_okD(16) [OF a] by (simp add: f(7))
    qed simp
  qed (use f(1-3) in simp_all)
qed

lemma claim_at_parts:
  assumes a: "acc_ok s" and p: "map_of (kv_pages s) i = Some p"
  shows "map_of (kv_pending s) i = None \<Longrightarrow> claim_at s c p = (if c = kp_owner p then page_reserved p s else 0)"
    "map_of (kv_pending s) i = Some (src, target, g, kind) \<Longrightarrow> claim_at s c p =
       (if c = kp_owner p then page_reserved p s else 0) + (if c = target then allocation_bytes target (kp_bytes p) s else 0)"
  using page_okD(1) [OF acc_okD(13) [OF a p]] by (auto simp: claim_of_def page_reserved_def allocation_bytes_def granule_of_def)

section \<open>Moving at once\<close>

lemma shift_ledger_form: "shift_ledger source target n m s = s\<lparr>kv_ledger := kv_ledger (shift_ledger source target n m s)\<rparr>"
  by (simp add: shift_ledger_def charge_def)

lemma shift_page_ok [simp]:
  "kv_pages (shift_ledger source target n m s) = kv_pages s" "kv_pending (shift_ledger source target n m s) = kv_pending s"
  "kv_prefixes (shift_ledger source target n m s) = kv_prefixes s" "kv_requests (shift_ledger source target n m s) = kv_requests s"
  "kv_clock (shift_ledger source target n m s) = kv_clock s" "kv_components (shift_ledger source target n m s) = kv_components s"
  "kv_granularity (shift_ledger source target n m s) = kv_granularity s" "kv_events (shift_ledger source target n m s) = kv_events s"
  "bound_to i (shift_ledger source target n m s) = bound_to i s" "kv_bindings (shift_ledger source target n m s) = kv_bindings s"
  "kv_owned (shift_ledger source target n m s) = kv_owned s" "page_reserved p (shift_ledger source target n m s) = page_reserved p s"
  "allocation_bytes c k (shift_ledger source target n m s) = allocation_bytes c k s"
  by (simp_all add: shift_ledger_def bound_to_def page_reserved_def allocation_bytes_def granule_of_def)

lemma shift_back_like: "source \<noteq> target \<Longrightarrow> like (shift_ledger target source m n (shift_ledger source target n m s)) s"
  unfolding like_def by (intro conjI allI kept_trans [OF shift_kept shift_kept]) simp_all

lemma back_acc:
  assumes a: "acc_ok s" and t: "t = s\<lparr>kv_ledger := l\<rparr>" "lg_limits l = lg_limits (kv_ledger s)" "\<And>c. int_at (lg_used l) c = used_at c s"
    "\<And>c x. map_of (kv_components s) c = Some x \<Longrightarrow> map_of (lg_used l) c \<noteq> None"
  shows "acc_ok t"
proof (rule acc_okI [OF a])
  have "page_ok t = page_ok s" by (rule page_ok_cong) (simp_all add: t)
  then show "pages_ok t" using acc_okD(3) [OF a] by (simp add: pages_ok_def t(1))
  show "map_of (lg_used (kv_ledger t)) c \<noteq> None \<and> claims c t \<le> used_at c t \<and> used_at c t \<le> kc_capacity x"
    if c: "map_of (kv_components s) c = Some x" for c x
  proof -
    have "used_at c t = used_at c s" using t(3) by (simp add: t(1) used_at_def)
    moreover have "claims c t = claims c s" by (simp add: claims_def t(1))
    ultimately show ?thesis using t(4) [OF c] acc_okD(9,10) [OF a c] by (simp add: t(1))
  qed
qed (simp_all add: t acc_okD(11) [OF a])

lemma back_ok:
  assumes k: "kv_ok R s" and t: "t = s\<lparr>kv_ledger := l\<rparr>" "lg_limits l = lg_limits (kv_ledger s)" "\<And>c. int_at (lg_used l) c = used_at c s"
    "\<And>c x. map_of (kv_components s) c = Some x \<Longrightarrow> map_of (lg_used l) c \<noteq> None"
  shows "kv_ok R t" "like t s"
proof -
  have "acc_ok t" by (rule back_acc [OF kv_okD(1) [OF k] t])
  then show "kv_ok R t" using kv_okD(2) [OF k] by (simp add: kv_ok_def t(1))
  show "like t s"
    unfolding like_def using t(3) by (simp add: t(1) kept_but_pages_def bound_to_def used_at_def)
qed

text \<open>What a move with a given plan does: the page, both ledger rows, the owned bytes and the event.\<close>

definition page_moved :: "kv_plan \<Rightarrow> int \<Rightarrow> string \<Rightarrow> string \<Rightarrow> kv_pool \<Rightarrow> kv_pool \<Rightarrow> bool" where
  "page_moved plan i target kind s t \<longleftrightarrow> (\<exists>p tc. map_of (kv_pages s) i = Some p \<and> map_of (kv_components s) target = Some tc \<and>
     kp_owner p \<noteq> target \<and> map_of (kv_pages t) i = Some (p\<lparr>kp_owner := target, kp_tier := kc_tier tc,
       kp_generation := kp_generation p + 1, kp_access := kv_clock s + 1\<rparr>) \<and>
     (\<forall>j. j \<noteq> i \<longrightarrow> map_of (kv_pages t) j = map_of (kv_pages s) j) \<and>
     (\<forall>c. used_at c t = used_at c s - (if c = kp_owner p then page_reserved p s else 0)
        + (if c = target then allocation_bytes target (kp_bytes p) s else 0)) \<and>
     (\<forall>c. int_at (kv_owned t) c = int_at (kv_owned s) c - (if kp_owner p = c then page_reserved p s else 0)
        + (if target = c then allocation_bytes target (kp_bytes p) s else 0)) \<and>
     kv_pending t = kv_pending s \<and> kv_requests t = kv_requests s \<and> kv_prefixes t = kv_prefixes s \<and> (\<forall>j. bound_to j t = bound_to j s) \<and>
     kv_events t = kv_events s @ [\<lparr>kt_kind = kind, kt_page = i, kt_source = kp_owner p, kt_target = target,
       kt_bytes = kp_bytes p, kt_duration = kl_duration plan, kt_start = kl_start plan, kt_completion = kl_completion plan\<rparr>])"

definition move_outcome :: "kv_env \<Rightarrow> int \<Rightarrow> string \<Rightarrow> string \<Rightarrow> kv_pool \<Rightarrow> kv_error + bool \<Rightarrow> kv_pool \<Rightarrow> bool" where
  "move_outcome ev i target kind s r t \<longleftrightarrow> (if r = Inr True
     then (\<exists>p. map_of (kv_pages s) i = Some p \<and> (kp_owner p = target \<and> t = s\<lparr>kv_last_error := None\<rparr> \<or>
       kp_owner p \<noteq> target \<and> (\<exists>plan. transfer_plan ev p (kp_owner p) target False s = Inr plan \<and>
         kl_commit plan \<noteq> Hook_Raises \<and> page_moved plan i target kind s t)))
     else like t s)"

text \<open>What has to hold for a page to move to a component, and what moving it then does.\<close>

definition can_move :: "kv_env \<Rightarrow> kv_page \<Rightarrow> string \<Rightarrow> kv_component \<Rightarrow> kv_pool \<Rightarrow> bool" where
  "can_move ev p target tc s \<longleftrightarrow> map_of (kv_components s) target = Some tc \<and> kp_owner p \<noteq> target \<and> kc_writable tc \<and>
     (\<exists>sc. map_of (kv_components s) (kp_owner p) = Some sc \<and> rbind (check_bandwidth sc True) (\<lambda>_. check_bandwidth tc False) = Inr ()) \<and>
     route_exists ev (Some (kp_owner p)) target (kp_bytes p) \<and>
     used_at target s + allocation_bytes target (kp_bytes p) s \<le> kc_capacity tc"

text \<open>An executor that answers an immediate request as it answers a staged one.\<close>

lemma staged_at_once: "transfer_plan (ev\<lparr>ev_execute := ev_prepare ev\<rparr>) p source target False s = transfer_plan ev p source target True s"
  unfolding transfer_plan_def by (cases ev) simp

lemma route_exists_cong: "ev_topology ev' = ev_topology ev \<Longrightarrow> route_exists ev' = route_exists ev"
  by (intro ext) (simp add: route_exists_def split: option.split)

abbreviation shifted :: "kv_page \<Rightarrow> string \<Rightarrow> kv_pool \<Rightarrow> kv_pool" where
  "shifted p target s \<equiv> shift_ledger (kp_owner p) target (page_reserved p s) (allocation_bytes target (kp_bytes p) s) s"

lemma move_page_runs:
  assumes a: "acc_ok s" and p: "map_of (kv_pages s) i = Some p" and none: "map_of (kv_pending s) i = None"
    and m: "can_move ev p target tc s" and plan: "transfer_plan ev p (kp_owner p) target False s = Inr plan" "kl_commit plan \<noteq> Hook_Raises"
  shows "move_page ev i target kind s = (Inr True, (landed i kind p tc plan (shifted p target s))\<lparr>kv_last_error := None\<rparr>)"
proof -
  let ?s1 = "shifted p target s"
  obtain sc where sc: "map_of (kv_components s) (kp_owner p) = Some sc" "rbind (check_bandwidth sc True) (\<lambda>_. check_bandwidth tc False) = Inr ()"
    and c: "map_of (kv_components s) target = Some tc" "kp_owner p \<noteq> target" "kc_writable tc"
      "route_exists ev (Some (kp_owner p)) target (kp_bytes p)" "used_at target s + allocation_bytes target (kp_bytes p) s \<le> kc_capacity tc"
    using m unfolding can_move_def by blast
  note rb = reserved_bounds [OF a p]
  note run = pool_transfer_run [OF acc_okD(7) [OF a sc(1)] acc_okD(7) [OF a c(1)] c(2) acc_okD(4) [OF a sc(1)] acc_okD(4) [OF a c(1)]
    rb(1,2) rb(3) [OF c(1)] rb(4) [OF c(1)]]
  have pend: "AList.delete i (kv_pending ?s1) = kv_pending s" using none by (simp add: map_of_eq_None_iff)
  have same: "(publish kind p tc plan ?s1)\<lparr>kv_pending := kv_pending s\<rparr> = publish kind p tc plan ?s1"
    by (simp add: publish_def log_transfer_def shift_owned_def touch_page_def with_page_def Let_def split: option.splits)
  have t: "landed i kind p tc plan ?s1 = publish kind p tc plan ?s1" unfolding landed_def pend same ..
  have h: "run_hook (kl_commit plan) = Inr ()" using plan(2) by (simp add: run_hook_def)
  show ?thesis
    using c none by (simp add: move_page_def page_at_def p sc run Let_def plan(1) h t)
qed

lemma landed_moved:
  assumes a: "acc_ok s" and p: "map_of (kv_pages s) i = Some p" and none: "map_of (kv_pending s) i = None"
    and tc: "map_of (kv_components s) target = Some tc" "kp_owner p \<noteq> target"
  shows "page_moved plan i target kind s ((landed i kind p tc plan (shifted p target s))\<lparr>kv_last_error := None\<rparr>)"
proof -
  let ?s1 = "shifted p target s"
  let ?t = "landed i kind p tc plan ?s1"
  have ps: "map_of (kv_pages ?s1) i = Some p" using p by simp
  note f = landed_fields [OF ps page_okD(1) [OF acc_okD(13) [OF a p]], of kind tc plan]
  have u: "used_at c (?t\<lparr>kv_last_error := None\<rparr>) = used_at c ?s1" for c by (simp add: used_at_def f(5))
  have bt: "bound_to j (?t\<lparr>kv_last_error := None\<rparr>) = bound_to j s" for j by (simp add: bound_to_def f(3))
  show ?thesis
    unfolding page_moved_def
    by (intro exI [of _ p] exI [of _ tc])
      (use p none tc acc_okD(5) [OF a tc(1)] in \<open>simp add: f(1,2,4,6,9,10) u bt arrived_def arrive_def delete_notin\<close>)
qed

lemma move_error: "r \<noteq> Inr True \<Longrightarrow> like t s \<Longrightarrow> move_outcome ev i target kind s r t"
  by (simp add: move_outcome_def)

lemma fail_ok:
  "kv_inv s \<Longrightarrow> \<exists>r t. fail_with m s = (r, t) \<and> kv_inv t \<and> move_outcome ev i target kind s r t"
  by (simp add: fail_with_def move_outcome_def like_error like_refl)

lemma same_ok: "kv_inv s \<Longrightarrow> \<exists>r t. (Inl e, s) = (r, t) \<and> kv_inv t \<and> move_outcome ev i target kind s r t"
  by (simp add: move_outcome_def like_refl)

lemma move_page_ok:
  assumes inv: "kv_inv s"
  shows "\<exists>r t. move_page ev i target kind s = (r, t) \<and> kv_inv t \<and> move_outcome ev i target kind s r t"
proof (cases "map_of (kv_pages s) i")
  case None
  then have "move_page ev i target kind s = (Inl (Kv_Error ''unknown KV page''), s)" by (simp add: move_page_def page_at_def)
  then show ?thesis using same_ok [OF inv] by simp
next
  case (Some p)
  have k: "kv_ok (kv_requests s) s" using inv by (simp add: kv_inv_def)
  note a = kv_okD(1) [OF k]
  note po = page_okD [OF acc_okD(13) [OF a Some]]
  obtain sc where sc: "map_of (kv_components s) (kp_owner p) = Some sc" using po(5) by blast
  let ?n = "page_reserved p s" and ?m = "allocation_bytes target (kp_bytes p) s" and ?source = "kp_owner p"
  have at: "page_at i s = Inr p" by (simp add: page_at_def Some)
  consider (pending) "map_of (kv_pending s) i \<noteq> None"
    | (unknown) "map_of (kv_pending s) i = None" "map_of (kv_components s) target = None"
    | (known) tc where "map_of (kv_pending s) i = None" "map_of (kv_components s) target = Some tc" by fastforce
  then show ?thesis
  proof cases
    case pending
    then show ?thesis using fail_ok [OF inv] by (auto simp: move_page_def at)
  next
    case unknown
    then show ?thesis using fail_ok [OF inv] by (simp add: move_page_def at)
  next
    case (known tc)
    show ?thesis
    proof (cases "kp_owner p = target \<or> \<not> kc_writable tc")
      case True
      then show ?thesis
        using fail_ok [OF inv] inv Some by (auto simp: move_page_def at known move_outcome_def)
    next
      case False
      then have ne: "?source \<noteq> target" and wr: "kc_writable tc" by simp_all
      note lim = acc_okD(7) [OF a sc] acc_okD(7) [OF a known(2)]
      note rb = reserved_bounds [OF a Some]
      note run = pool_transfer_run [OF lim ne acc_okD(4) [OF a sc] acc_okD(4) [OF a known(2)] rb(1,2) rb(3) [OF known(2)] rb(4) [OF known(2)]]
      show ?thesis
      proof (cases "rbind (check_bandwidth sc True) (\<lambda>_. check_bandwidth tc False)")
        case (Inl e)
        then show ?thesis using same_ok [OF inv] ne wr by (simp add: move_page_def at known sc)
      next
        case bw: (Inr unit)
        show ?thesis
        proof (cases "route_exists ev (Some ?source) target (kp_bytes p) \<and> used_at target s + ?m \<le> kc_capacity tc")
          case False
          then show ?thesis using fail_ok [OF inv] ne wr by (auto simp: move_page_def at known sc bw run(2) Let_def)
        next
          case True
          show ?thesis
          proof (cases "transfer_plan ev p ?source target False s")
            case (Inl e)
            then show ?thesis using inv True ne wr
              by (simp add: move_page_def at known sc bw run(2) Let_def move_outcome_def like_error like_refl)
          next
            case plan: (Inr plan)
            let ?s1 = "shift_ledger ?source target ?n ?m s"
            show ?thesis
            proof (cases "run_hook (kl_commit plan)")
              case (Inl e)
              let ?s2 = "shift_ledger target ?source ?m ?n ?s1"
              have undo: "pool_transfer target ?source ?m ?n ?s1 = (Inr True, ?s2)"
              proof -
                have "pool_transfer target ?source ?m ?n ?s1 =
                  (if used_at ?source ?s1 + ?n \<le> kc_capacity sc then (Inr True, ?s2) else (Inr False, ?s1))"
                  by (rule pool_transfer_run(1)) (use lim ne acc_okD(4) [OF a sc] acc_okD(4) [OF a known(2)] rb(1,2)
                    rb(3,4) [OF known(2)] in simp_all)
                then show ?thesis using acc_okD(10) [OF a sc] ne by simp
              qed
              have form: "?s2 = s\<lparr>kv_ledger := kv_ledger ?s2\<rparr>" by (simp add: shift_ledger_def charge_def)
              have "kv_ok (kv_requests s) ?s2" "like ?s2 s"
                by (rule back_ok [OF k form]; use ne acc_okD(8) [OF a] in \<open>simp add: used_at_def [symmetric] shift_ledger_def\<close>)+
              then have "kv_inv ?s2" "like ?s2 s" by (simp_all add: kv_inv_def)
              then show ?thesis using True ne wr
                by (simp add: move_page_def at known sc bw run Let_def plan Inl revert_move_def undo move_outcome_def like_error)
            next
              case (Inr unit)
              let ?t = "landed i kind p tc plan ?s1"
              have "kv_ok (kv_requests s) (landed i kind p tc plan (s\<lparr>kv_ledger := kv_ledger ?s1\<rparr>))"
              proof (rule landed_ok [OF k Some known(2) ne])
                fix c x assume x: "map_of (kv_components s) c = Some x"
                have "map_of (lg_used (kv_ledger ?s1)) c \<noteq> None" using acc_okD(8) [OF a x] by (simp add: shift_ledger_def)
                moreover have "used_at c ?s1 \<le> kc_capacity x"
                  using acc_okD(10) [OF a x] True known(2) rb(1) x ne by (cases "c = target"; cases "c = ?source") simp_all
                ultimately show "map_of (lg_used (kv_ledger ?s1)) c \<noteq> None \<and>
                    used_at c s - claim_at s c p + (if c = target then ?m else 0) \<le> int_at (lg_used (kv_ledger ?s1)) c \<and>
                    int_at (lg_used (kv_ledger ?s1)) c \<le> kc_capacity x"
                  unfolding used_at_def [of c ?s1, symmetric] by (simp add: claim_at_parts(1) [OF a Some known(1)])
              qed simp
              then have ok: "kv_ok (kv_requests s) ?t" by (simp only: shift_ledger_form [symmetric])
              have ps: "map_of (kv_pages ?s1) i = Some p" using Some by simp
              note f = landed_fields [OF ps po(1), of kind tc plan]
              have "kv_inv ?t" using ok by (simp add: kv_inv_def f(4))
              moreover have "page_moved plan i target kind s (?t\<lparr>kv_last_error := None\<rparr>)"
                by (rule landed_moved [OF a Some known(1,2) ne])
              moreover have "move_page ev i target kind s = (Inr True, ?t\<lparr>kv_last_error := None\<rparr>)"
                by (rule move_page_runs [OF a Some known(1) _ plan])
                  (use True ne wr known(2) sc bw Inr in \<open>auto simp: can_move_def run_hook_def split: if_splits\<close>)
              ultimately show ?thesis using Some ne plan Inr by (auto simp: move_outcome_def run_hook_def split: if_splits)
            qed
          qed
        qed
      qed
    qed
  qed
qed

lemma move_page_inv:
  assumes "kv_inv s"
  shows "kv_inv (snd (move_page ev i target kind s))"
  using move_page_ok [OF assms, of ev i target kind] by (elim exE conjE) simp

lemma migrate_inv:
  assumes "kv_inv s"
  shows "kv_inv (snd (migrate_page ev i target s))"
  using assms move_page_inv [OF assms] by (simp add: migrate_page_def page_at_def split: option.split)

lemma move_first_inv: "kv_inv s \<Longrightarrow> kv_inv (snd (move_first ev i targets kind otherwise s))"
proof (induction targets arbitrary: s)
  case Nil
  then show ?case by simp
next
  case (Cons target targets)
  obtain r t where t: "move_page ev i target kind s = (r, t)" "kv_inv t" using move_page_ok [OF Cons.prems] by blast
  show ?case using Cons.IH [OF t(2)] t(2) by (cases r) (simp_all add: t(1) sbind_def)
qed

lemma offload_inv: "kv_inv s \<Longrightarrow> kv_inv (snd (offload_page ev i target kind s))"
  using move_first_inv by (simp add: offload_page_def page_at_def split: option.split)

lemma restore_inv: "kv_inv s \<Longrightarrow> kv_inv (snd (restore_page ev i target kind s))"
  using move_first_inv by (simp add: restore_page_def page_at_def split: option.split)

section \<open>Moving in two phases\<close>

lemma landed_settled:
  "landed i kind p tc plan (s\<lparr>kv_pending := q, kv_last_error := None\<rparr>) =
     (landed i kind p tc plan s)\<lparr>kv_pending := AList.delete i q, kv_last_error := None\<rparr>"
  by (simp add: landed_def publish_def log_transfer_def shift_owned_def touch_page_def with_page_def Let_def
    page_reserved_def allocation_bytes_def granule_of_def split: option.split)

lemma pool_adjust_take:
  assumes "acc_ok s" "map_of (kv_components s) c = Some x" "0 \<le> used_at c s" "0 < d"
  shows "pool_adjust c d s = (if used_at c s + d \<le> kc_capacity x then (Inr True, charge c d s) else (Inr False, s))"
  using pool_adjust_run [OF assms(1,2), of d] assms(3,4) by simp

definition prepared :: "int \<Rightarrow> string \<Rightarrow> string \<Rightarrow> kv_page \<Rightarrow> kv_pool \<Rightarrow> kv_pool" where
  "prepared i target kind p s = reserved_move i (Some (kp_owner p, target, kp_generation p, kind)) target (allocation_bytes target (kp_bytes p) s) s"

lemma prepared_ok:
  assumes k: "kv_ok R s" and p: "map_of (kv_pages s) i = Some p" and none: "map_of (kv_pending s) i = None"
    and tc: "map_of (kv_components s) target = Some tc" "kp_owner p \<noteq> target"
    and room: "used_at target s + allocation_bytes target (kp_bytes p) s \<le> kc_capacity tc"
  shows "kv_ok R (prepared i target kind p s)"
proof -
  note po = page_okD [OF acc_okD(13) [OF kv_okD(1) [OF k] p]]
  show ?thesis
    unfolding prepared_def
  proof (rule reserved_move_ok [OF k p tc(1) room])
    let ?t = "reserved_move i (Some (kp_owner p, target, kp_generation p, kind)) target (allocation_bytes target (kp_bytes p) s) s"
    show "claim_of (kv_granularity s) (kv_pending ?t) c p = claim_at s c p + (if c = target then allocation_bytes target (kp_bytes p) s else 0)" for c
      using none by (simp add: claim_of_def po(1) allocation_bytes_def granule_of_def)
    show "page_ok ?t i p" using po(1-5) tc by (simp add: page_ok_def)
  qed
qed

definition unreserved :: "int \<Rightarrow> string \<Rightarrow> kv_page \<Rightarrow> kv_pool \<Rightarrow> kv_pool" where
  "unreserved i target p s = reserved_move i None target (- allocation_bytes target (kp_bytes p) s) s"

lemma unreserved_ok:
  assumes k: "kv_ok R s" and p: "map_of (kv_pages s) i = Some p" and pend: "map_of (kv_pending s) i = Some (source, target, generation, kind)"
  shows "kv_ok R (unreserved i target p s)"
proof -
  note a = kv_okD(1) [OF k]
  note po = page_okD [OF acc_okD(13) [OF a p]]
  obtain tc where tc: "map_of (kv_components s) target = Some tc" using po(6) [OF pend] by blast
  have ne: "kp_owner p \<noteq> target" using po(6) [OF pend] by auto
  show ?thesis
    unfolding unreserved_def
  proof (rule reserved_move_ok [OF k p tc])
    let ?t = "reserved_move i None target (- allocation_bytes target (kp_bytes p) s) s"
    show "used_at target s + - allocation_bytes target (kp_bytes p) s \<le> kc_capacity tc"
      using acc_okD(10) [OF a tc] reserved_bounds(3) [OF a p tc] by simp
    show "claim_of (kv_granularity s) (kv_pending ?t) c p = claim_at s c p + (if c = target then - allocation_bytes target (kp_bytes p) s else 0)" for c
      using pend by (simp add: claim_of_def po(1) allocation_bytes_def granule_of_def)
    show "page_ok ?t i p" using po(1-5) by (simp add: page_ok_def)
  qed
qed

text \<open>Preparing fails and changes nothing but the last error, or reserves the target.\<close>

lemma prepare_ok:
  assumes inv: "kv_inv s"
  shows "\<exists>r t. prepare_restore ev i target kind s = (r, t) \<and> kv_inv t \<and>
    (case r of Inr (Some plan) \<Rightarrow> (\<exists>p. map_of (kv_pages s) i = Some p \<and> map_of (kv_pending s) i = None \<and> kp_owner p \<noteq> target \<and>
       (\<exists>tc. can_move ev p target tc s) \<and> transfer_plan ev p (kp_owner p) target True s = Inr plan \<and> kl_start plan \<noteq> None \<and>
       kp_refs p = 1 \<and> \<not> kp_pinned p \<and> t = (prepared i target kind p s)\<lparr>kv_last_error := None\<rparr>)
     | _ \<Rightarrow> like t s)"
proof (cases "map_of (kv_pages s) i")
  case None
  then show ?thesis using inv by (simp add: prepare_restore_def page_at_def like_refl)
next
  case (Some p)
  have k: "kv_ok (kv_requests s) s" using inv by (simp add: kv_inv_def)
  note a = kv_okD(1) [OF k]
  note po = page_okD [OF acc_okD(13) [OF a Some]]
  obtain sc where sc: "map_of (kv_components s) (kp_owner p) = Some sc" using po(5) by blast
  let ?m = "allocation_bytes target (kp_bytes p) s" and ?source = "kp_owner p"
  have at: "page_at i s = Inr p" by (simp add: page_at_def Some)
  show ?thesis
  proof (cases "map_of (kv_components s) target")
    case None
    then show ?thesis using inv by (simp add: prepare_restore_def at like_error like_refl)
  next
    case tc: (Some tc)
    show ?thesis
    proof (cases "map_of (kv_pending s) i \<noteq> None \<or> \<not> kc_active tc \<or> \<not> kc_writable tc \<or> ?source = target \<or> kp_refs p \<noteq> 1 \<or> kp_pinned p")
      case True
      then have "prepare_restore ev i target kind s = (Inr None, s\<lparr>kv_last_error := Some ''invalid or already pending asynchronous restore''\<rparr>)"
        by (simp only: prepare_restore_def at tc sum.case option.case if_True)
      then show ?thesis using inv by (simp add: like_error like_refl)
    next
      case False
      then have ok: "map_of (kv_pending s) i = None" "kc_active tc" "kc_writable tc" "?source \<noteq> target" "kp_refs p = 1" "\<not> kp_pinned p" by blast+
      note rb = reserved_bounds [OF a Some]
      show ?thesis
      proof (cases "rbind (check_bandwidth sc True) (\<lambda>_. check_bandwidth tc False)")
        case (Inl e)
        then show ?thesis using inv ok by (simp add: prepare_restore_def at tc sc like_refl)
      next
        case bw: (Inr unit)
        show ?thesis
        proof (cases "route_exists ev (Some ?source) target (kp_bytes p) \<and> can_adjust target ?m (kv_ledger s)")
          case False
          then show ?thesis using inv ok by (auto simp: prepare_restore_def at tc sc bw Let_def like_error like_refl)
        next
          case True
          then have room: "used_at target s + ?m \<le> kc_capacity tc"
            using can_adjust_charge [OF a tc, of ?m] rb(3) [OF tc] by simp
          have run: "pool_adjust target ?m s = (Inr True, charge target ?m s)"
            using pool_adjust_take [OF a tc rb(4) [OF tc] rb(3) [OF tc]] room by simp
          show ?thesis
          proof (cases "transfer_plan ev p ?source target True s")
            case (Inl e)
            then show ?thesis using inv ok True by (simp add: prepare_restore_def at tc sc bw Let_def like_refl)
          next
            case plan: (Inr plan)
            show ?thesis
            proof (cases "kl_start plan = None \<or> kl_completion plan = None")
              case late: True
              then show ?thesis using inv ok True by (auto simp: prepare_restore_def at tc sc bw plan Let_def like_refl)
            next
              case timed: False
              have "(charge target ?m s)\<lparr>kv_pending := AList.update i (?source, target, kp_generation p, kind) (kv_pending (charge target ?m s)),
                  kv_last_error := None\<rparr> = (prepared i target kind p s)\<lparr>kv_last_error := None\<rparr>"
                by (simp add: prepared_def reserved_move_def)
              then have "prepare_restore ev i target kind s = (Inr (Some plan), (prepared i target kind p s)\<lparr>kv_last_error := None\<rparr>)"
                using ok True timed by (simp add: prepare_restore_def at tc sc bw plan Let_def run)
              moreover have "kv_inv (prepared i target kind p s)"
                using prepared_ok [OF k Some ok(1) tc ok(4) room] by (simp add: kv_inv_def prepared_def)
              moreover have "can_move ev p target tc s" using ok tc sc bw True room by (simp add: can_move_def)
              ultimately show ?thesis using Some ok plan timed by auto
            qed
          qed
        qed
      qed
    qed
  qed
qed

lemma settle_run:
  assumes a: "acc_ok s" and x: "map_of (kv_components s) c = Some x" and v: "0 < v" "v \<le> used_at c s"
  shows "settle c (- v) outcome refusal trouble s = (case outcome of Inr _ \<Rightarrow> (Inr (), charge c (- v) s)
    | Inl e \<Rightarrow> (Inl e, charge c v (charge c (- v) s)))"
proof -
  have one: "pool_adjust c (- v) s = (Inr True, charge c (- v) s)"
    using pool_adjust_run [OF a x, of "- v"] v by simp
  have "adjust c v (kv_ledger (charge c (- v) s)) = (Inr True, kv_ledger (charge c v (charge c (- v) s)))"
    by (rule adjust_charge [of _ _ "kc_capacity x"]) (use acc_okD(4,7,10) [OF a x] v in simp_all)
  then have two: "pool_adjust c v (charge c (- v) s) = (Inr True, charge c v (charge c (- v) s))"
    by (simp add: pool_adjust_def charge_def)
  show ?thesis by (simp add: settle_def one two split: sum.split)
qed

lemma recharged_ok:
  assumes k: "kv_ok R s" and x: "map_of (kv_components s) c = Some x"
  shows "kv_ok R (charge c v (charge c (- v) s))" "like (charge c v (charge c (- v) s)) s"
proof -
  let ?t = "charge c v (charge c (- v) s)"
  have form: "?t = s\<lparr>kv_ledger := kv_ledger ?t\<rparr>" by (simp add: charge_def)
  have led: "lg_limits (kv_ledger ?t) = lg_limits (kv_ledger s)" "int_at (lg_used (kv_ledger ?t)) c' = used_at c' s"
    "map_of (kv_components s) c' = Some y \<Longrightarrow> map_of (lg_used (kv_ledger ?t)) c' \<noteq> None" for c' y
    using acc_okD(8) [OF kv_okD(1) [OF k]] by (simp_all add: used_at_def [of c' ?t, symmetric])
  show "kv_ok R ?t" by (rule back_ok(1) [OF k form led(1,2)]) (rule led(3))
  show "like ?t s" by (rule back_ok(2) [OF k form led(1,2)]) (rule led(3))
qed

definition settle_outcome :: "kv_pool \<Rightarrow> kv_pool \<Rightarrow> kv_error + unit \<Rightarrow> kv_pool \<Rightarrow> bool" where
  "settle_outcome goal s r t \<longleftrightarrow> (if r = Inr () then t = goal else like t s)"

lemma pending_pageD:
  assumes "kv_ok R s" "pending_page i s = Inr (p, source, target, generation, kind)"
  shows "map_of (kv_pages s) i = Some p" "map_of (kv_pending s) i = Some (source, target, generation, kind)" "source = kp_owner p"
    "generation = kp_generation p" "target \<noteq> source" "\<exists>x. map_of (kv_components s) source = Some x" "\<exists>x. map_of (kv_components s) target = Some x"
proof -
  show p: "map_of (kv_pages s) i = Some p" "map_of (kv_pending s) i = Some (source, target, generation, kind)"
    using assms(2) by (auto simp: pending_page_def page_at_def split: option.splits)
  note po = page_okD [OF acc_okD(13) [OF kv_okD(1) [OF assms(1)] p(1)]]
  show "source = kp_owner p" "generation = kp_generation p" "target \<noteq> source" "\<exists>x. map_of (kv_components s) source = Some x"
    "\<exists>x. map_of (kv_components s) target = Some x"
    using po(6) [OF p(2)] po(5) by auto
qed

text \<open>The target's reservation is given back and the page stays, for aborting and for cancelling.\<close>

lemma give_back:
  assumes k: "kv_ok R s" and pp: "pending_page i s = Inr (p, source, target, generation, kind)"
  shows "\<exists>r t. sbind (settle target (- allocation_bytes target (kp_bytes p) s) outcome m m' s)
      (\<lambda>_ s. (Inr (), s\<lparr>kv_pending := AList.delete i (kv_pending s)\<rparr>)) = (r, t) \<and> kv_ok R t \<and> kv_requests t = kv_requests s \<and>
    (r = Inr () \<longleftrightarrow> outcome = Inr ()) \<and> settle_outcome (unreserved i target p s) s r t"
proof -
  note d = pending_pageD [OF k pp] and a = kv_okD(1) [OF k]
  obtain tc where tc: "map_of (kv_components s) target = Some tc" using d(7) by blast
  let ?m = "allocation_bytes target (kp_bytes p) s"
  note rb = reserved_bounds [OF a d(1)]
  have un: "(charge target (- ?m) s)\<lparr>kv_pending := AList.delete i (kv_pending (charge target (- ?m) s))\<rparr> = unreserved i target p s"
    by (simp add: unreserved_def reserved_move_def)
  show ?thesis
  proof (cases outcome)
    case (Inl e)
    then show ?thesis
      using recharged_ok [OF k tc, of ?m]
      by (simp add: settle_run [OF a tc rb(3) [OF tc] rb(5) [OF d(2)]] sbind_def settle_outcome_def)
  next
    case (Inr u)
    have "settle target (- ?m) outcome m m' s = (Inr (), charge target (- ?m) s)"
      by (simp add: settle_run [OF a tc rb(3) [OF tc] rb(5) [OF d(2)]] Inr)
    then have run: "sbind (settle target (- ?m) outcome m m' s)
        (\<lambda>_ s. (Inr (), s\<lparr>kv_pending := AList.delete i (kv_pending s)\<rparr>)) = (Inr (), unreserved i target p s)"
      unfolding un [symmetric] by (simp add: sbind_def)
    have "kv_requests (unreserved i target p s) = kv_requests s" by (simp add: unreserved_def)
    then show ?thesis
      unfolding run using unreserved_ok [OF k d(1,2)] Inr by (simp add: settle_outcome_def)
  qed
qed

lemma abort_ok:
  assumes inv: "kv_inv s" and pp: "pending_page i s = Inr (p, source, target, generation, kind)"
  shows "\<exists>r t. abort_restore i plan s = (r, t) \<and> kv_inv t \<and> (r = Inr () \<longleftrightarrow> kl_rollback plan \<noteq> Hook_Raises) \<and>
    settle_outcome (unreserved i target p s) s r t"
proof -
  have k: "kv_ok (kv_requests s) s" using inv by (simp add: kv_inv_def)
  have run: "abort_restore i plan s = sbind (settle target (- allocation_bytes target (kp_bytes p) s) (run_hook (kl_rollback plan))
        ''could not release asynchronous restore reservation'' ''could not restore failed KV abort reservation'' s)
      (\<lambda>_ s. (Inr (), s\<lparr>kv_pending := AList.delete i (kv_pending s)\<rparr>))"
    by (simp add: abort_restore_def pp)
  obtain r t where t: "abort_restore i plan s = (r, t)" "kv_ok (kv_requests s) t" "kv_requests t = kv_requests s"
    "r = Inr () \<longleftrightarrow> run_hook (kl_rollback plan) = Inr ()" "settle_outcome (unreserved i target p s) s r t"
    unfolding run using give_back [OF k pp] by blast
  then show ?thesis by (simp add: kv_inv_def run_hook_def)
qed

lemma abort_inv:
  assumes "kv_inv s"
  shows "kv_inv (snd (abort_restore i plan s))"
proof (cases "pending_page i s")
  case (Inl e)
  then show ?thesis using assms by (simp add: abort_restore_def)
next
  case (Inr x)
  obtain p source target generation kind where "x = (p, source, target, generation, kind)" by (cases x)
  then show ?thesis using abort_ok [OF assms, of i p source target generation kind plan] Inr by auto
qed

lemma cancel_inv:
  assumes inv: "kv_inv s"
  shows "kv_inv (snd (cancel_restore i plan now s))"
proof (cases "pending_page i s")
  case (Inl e)
  then show ?thesis using inv by (simp add: cancel_restore_def)
next
  case (Inr x)
  obtain p source target generation kind where x: "x = (p, source, target, generation, kind)" by (cases x)
  have k: "kv_ok (kv_requests s) s" using inv by (simp add: kv_inv_def)
  have pp: "pending_page i s = Inr (p, source, target, generation, kind)" using Inr x by simp
  have run: "cancel_restore i plan now s \<in> {(Inl e, s) | e. True} \<union> {sbind (settle target (- allocation_bytes target (kp_bytes p) s)
        (if kl_cancel plan = Hook_Raises then Inl Kv_Hook else Inr ())
        ''could not release cancelled restore reservation'' ''could not restore failed KV cancellation reservation'' s)
      (\<lambda>_ s. (Inr (), s\<lparr>kv_pending := AList.delete i (kv_pending s)\<rparr>))}"
    by (simp add: cancel_restore_def pp)
  obtain r t where t: "sbind (settle target (- allocation_bytes target (kp_bytes p) s)
        (if kl_cancel plan = Hook_Raises then Inl Kv_Hook else Inr ())
        ''could not release cancelled restore reservation'' ''could not restore failed KV cancellation reservation'' s)
      (\<lambda>_ s. (Inr (), s\<lparr>kv_pending := AList.delete i (kv_pending s)\<rparr>)) = (r, t)" "kv_ok (kv_requests s) t" "kv_requests t = kv_requests s"
    using give_back [OF k pp] by blast
  then show ?thesis using run inv by (auto simp: kv_inv_def)
qed

text \<open>Completing: the page arrives and the source is released.\<close>

definition completed :: "int \<Rightarrow> string \<Rightarrow> kv_page \<Rightarrow> kv_component \<Rightarrow> kv_plan \<Rightarrow> kv_pool \<Rightarrow> kv_pool" where
  "completed i kind p tc plan s = landed i kind p tc plan (charge (kp_owner p) (- page_reserved p s) s)"

lemma complete_ok:
  assumes inv: "kv_inv s" and pp: "pending_page i s = Inr (p, source, target, generation, kind)"
  shows "\<exists>r t. complete_restore i plan now s = (r, t) \<and> kv_inv t \<and>
    (r = Inr () \<longleftrightarrow> 0 \<le> now \<and> \<not> kl_advance plan \<and> (\<exists>c. kl_completion plan = Some c \<and> c \<le> now) \<and> kl_commit plan \<noteq> Hook_Raises) \<and>
    settle_outcome (completed i kind p (the (map_of (kv_components s) target)) plan s) s r t"
proof -
  have k: "kv_ok (kv_requests s) s" using inv by (simp add: kv_inv_def)
  note d = pending_pageD [OF k pp] and a = kv_okD(1) [OF k]
  obtain sc where sc: "map_of (kv_components s) (kp_owner p) = Some sc" using d(3,6) by blast
  obtain tc where tc: "map_of (kv_components s) target = Some tc" using d(7) by blast
  note rb = reserved_bounds [OF a d(1)]
  let ?late = "now < 0 \<or> kl_advance plan \<or> (case kl_completion plan of None \<Rightarrow> True | Some t \<Rightarrow> now < t)"
  have late: "\<not> ?late \<longleftrightarrow> 0 \<le> now \<and> \<not> kl_advance plan \<and> (\<exists>c. kl_completion plan = Some c \<and> c \<le> now)"
    by (cases "kl_completion plan") auto
  show ?thesis
  proof (cases ?late)
    case True
    then have "complete_restore i plan now s = (Inl (Kv_Error ''cannot consume a KV transfer before its completion''), s)"
      by (simp only: complete_restore_def pp sum.case prod.case if_True)
    then show ?thesis using inv True late by (simp add: settle_outcome_def like_refl) blast
  next
    case False
    let ?n = "page_reserved p s" and ?u = "charge (kp_owner p) (- page_reserved p s) s"
    have run: "complete_restore i plan now s = sbind (settle (kp_owner p) (- ?n) (run_hook (kl_commit plan))
        ''could not release completed KV transfer source'' ''could not restore failed KV transfer source reservation'' s)
      (\<lambda>_ s. case map_of (kv_components s) target of None \<Rightarrow> (Inl Kv_Missing, s)
        | Some tc \<Rightarrow> (Inr (), (publish kind p tc plan s)\<lparr>kv_pending := AList.delete i (kv_pending s)\<rparr>))"
      unfolding complete_restore_def pp sum.case prod.case if_not_P [OF False] using d(3,4) by (simp add: page_reserved_def)
    show ?thesis
    proof (cases "run_hook (kl_commit plan)")
      case (Inl e)
      then show ?thesis
        using recharged_ok [OF k sc, of ?n] False
        by (simp add: run settle_run [OF a sc rb(1,2)] sbind_def settle_outcome_def kv_inv_def run_hook_def split: if_splits)
    next
      case (Inr u)
      have h: "kl_commit plan \<noteq> Hook_Raises" using Inr by (auto simp: run_hook_def)
      have "settle (kp_owner p) (- ?n) (run_hook (kl_commit plan)) m m' s = (Inr (), ?u)" for m m'
        by (simp add: settle_run [OF a sc rb(1,2)] Inr)
      then have res: "complete_restore i plan now s = (Inr (), completed i kind p tc plan s)"
        by (simp add: run sbind_def tc completed_def landed_def)
      have form: "?u = s\<lparr>kv_ledger := kv_ledger ?u\<rparr>" by (simp add: charge_def)
      have "kv_ok (kv_requests s) (landed i kind p tc plan (s\<lparr>kv_ledger := kv_ledger ?u\<rparr>))"
      proof (rule landed_ok [OF k d(1) tc])
        fix c x assume x: "map_of (kv_components s) c = Some x"
        have "map_of (lg_used (kv_ledger ?u)) c \<noteq> None" using acc_okD(8) [OF a x] by simp
        moreover have "used_at c ?u \<le> kc_capacity x" using acc_okD(10) [OF a x] rb(1) by (cases "c = kp_owner p") simp_all
        ultimately show "map_of (lg_used (kv_ledger ?u)) c \<noteq> None \<and>
            used_at c s - claim_at s c p + (if c = target then allocation_bytes target (kp_bytes p) s else 0) \<le> int_at (lg_used (kv_ledger ?u)) c \<and>
            int_at (lg_used (kv_ledger ?u)) c \<le> kc_capacity x"
          unfolding used_at_def [of c ?u, symmetric] by (simp add: claim_at_parts(2) [OF a d(1,2)])
      qed (use d(3,5) in simp_all)
      then have ok: "kv_ok (kv_requests s) (completed i kind p tc plan s)" by (simp only: completed_def form [symmetric])
      have "kv_requests (completed i kind p tc plan s) = kv_requests s"
        using landed_fields(4) [of ?u i p] d(1) page_okD(1) [OF acc_okD(13) [OF a d(1)]] by (simp add: completed_def)
      then have "kv_inv (completed i kind p tc plan s)" using ok by (simp add: kv_inv_def)
      then show ?thesis using False h late by (simp add: res tc settle_outcome_def)
    qed
  qed
qed

text \<open>Preparing and completing ends in the very state that moving at once ends in.\<close>

lemma prepared_completed:
  assumes a: "acc_ok s" and p: "map_of (kv_pages s) i = Some p" and none: "map_of (kv_pending s) i = None"
    and tc: "map_of (kv_components s) target = Some tc" "kp_owner p \<noteq> target"
  shows "completed i kind p tc plan ((prepared i target kind p s)\<lparr>kv_last_error := None\<rparr>) =
    (landed i kind p tc plan (shifted p target s))\<lparr>kv_last_error := None\<rparr>"
proof -
  let ?n = "page_reserved p s" and ?m = "allocation_bytes target (kp_bytes p) s" and ?q = "(kp_owner p, target, kp_generation p, kind)"
  let ?t = "(prepared i target kind p s)\<lparr>kv_last_error := None\<rparr>"
  have pend: "AList.delete i (AList.update i x (kv_pending s)) = kv_pending s" for x
    using none by (simp add: delete_update_same delete_notin)
  have r: "page_reserved p ?t = ?n" by (rule page_reserved_cong) (simp add: prepared_def)
  have "map_of (lg_used (kv_ledger s)) target \<noteq> None" using acc_okD(8) [OF a tc(1)] by simp
  then have swap: "charge (kp_owner p) (- ?n) (charge target ?m s) = shifted p target s"
    unfolding shift_ledger_def by (rule charge_swap [OF tc(2) [symmetric], symmetric])
  have "charge (kp_owner p) (- ?n) ?t =
      (charge (kp_owner p) (- ?n) (charge target ?m s))\<lparr>kv_pending := AList.update i ?q (kv_pending s), kv_last_error := None\<rparr>"
    by (simp add: prepared_def reserved_move_def charge_def used_at_def)
  then have "completed i kind p tc plan ?t = (landed i kind p tc plan (shifted p target s))\<lparr>kv_pending := kv_pending s, kv_last_error := None\<rparr>"
    by (simp only: completed_def r swap landed_settled pend)
  moreover have "kv_pending (landed i kind p tc plan (shifted p target s)) = kv_pending s"
    using none by (simp add: landed_def delete_notin)
  ultimately show ?thesis by (auto intro: kv_pool.equality)
qed

lemma complete_inv:
  assumes "kv_inv s"
  shows "kv_inv (snd (complete_restore i plan now s))"
proof (cases "pending_page i s")
  case (Inl e)
  then show ?thesis using assms by (simp add: complete_restore_def)
next
  case (Inr x)
  obtain p source target generation kind where "x = (p, source, target, generation, kind)" by (cases x)
  then show ?thesis using complete_ok [OF assms, of i p source target generation kind plan now] Inr by auto
qed

end
