(* ===== verification/Kv_Machine.thy ===== *)
theory Kv_Machine
  imports Kv_Moves
begin

text \<open>
  Building a pool and attaching its executor, the steps of a pool, and what holds in every pool
  that a program can reach.
\<close>

section \<open>Changing the granularity\<close>

lemma adjust_each_run:
  assumes "distinct (map fst ds)" "\<forall>(c, d) \<in> set ds. c \<noteq> [] \<and> (\<exists>limit. map_of (lg_limits l) c = Some limit \<and>
     (d \<le> 0 \<or> int_at (lg_used l) c + d \<le> limit)) \<and> 0 \<le> int_at (lg_used l) c + d"
  shows "\<exists>l'. adjust_each ds changed l = (Inr True, l') \<and> lg_limits l' = lg_limits l \<and>
    (\<forall>c. int_at (lg_used l') c = int_at (lg_used l) c + int_at ds c) \<and> (\<forall>c. map_of (lg_used l) c \<noteq> None \<longrightarrow> map_of (lg_used l') c \<noteq> None)"
  using assms
proof (induction ds arbitrary: l changed)
  case Nil
  then show ?case by (simp add: int_at_def)
next
  case (Cons x ds)
  obtain c d where x: "x = (c, d)" by (cases x)
  have nd: "c \<notin> fst ` set ds" "distinct (map fst ds)" using Cons.prems(1) by (simp_all add: x)
  obtain limit where lim: "c \<noteq> []" "map_of (lg_limits l) c = Some limit" "d \<le> 0 \<or> int_at (lg_used l) c + d \<le> limit" "0 \<le> int_at (lg_used l) c + d"
    using Cons.prems(2) by (auto simp: x)
  let ?l = "l\<lparr>lg_used := AList.update c (int_at (lg_used l) c + d) (lg_used l)\<rparr>"
  have one: "adjust c d l = (Inr True, ?l)" using lim by (simp add: adjust_def can_adjust_def Let_def)
  have u: "int_at (lg_used ?l) c' = int_at (lg_used l) c' + (if c' = c then d else 0)" for c' by (simp add: int_at_def)
  have "\<forall>(c', d') \<in> set ds. c' \<noteq> [] \<and> (\<exists>limit. map_of (lg_limits ?l) c' = Some limit \<and>
     (d' \<le> 0 \<or> int_at (lg_used ?l) c' + d' \<le> limit)) \<and> 0 \<le> int_at (lg_used ?l) c' + d'"
  proof (intro ballI, clarify)
    fix c' d' assume m: "(c', d') \<in> set ds"
    then have "c' \<noteq> c" using nd(1) by (metis fst_conv image_eqI)
    then show "c' \<noteq> [] \<and> (\<exists>limit. map_of (lg_limits ?l) c' = Some limit \<and>
        (d' \<le> 0 \<or> int_at (lg_used ?l) c' + d' \<le> limit)) \<and> 0 \<le> int_at (lg_used ?l) c' + d'"
      using Cons.prems(2) m unfolding u by (auto simp: x)
  qed
  from Cons.IH [OF nd(2) this, of "(c, d) # changed"] obtain l' where l': "adjust_each ds ((c, d) # changed) ?l = (Inr True, l')"
    "lg_limits l' = lg_limits ?l" "\<forall>c'. int_at (lg_used l') c' = int_at (lg_used ?l) c' + int_at ds c'"
    "\<forall>c'. map_of (lg_used ?l) c' \<noteq> None \<longrightarrow> map_of (lg_used l') c' \<noteq> None" by blast
  have "map_of ds c = None" using nd(1) by (simp add: map_of_eq_None_iff)
  then have "int_at ds c = 0" by (simp add: int_at_def)
  then have "int_at (lg_used l') c' = int_at (lg_used l) c' + int_at (x # ds) c'" for c'
    using l'(3) u [of c'] by (simp add: x) (simp add: int_at_def)
  then show ?case using l'(1,2,4) one by (intro exI [of _ l']) (simp add: x)
qed

lemma adjust_many_run:
  assumes "distinct (map fst ds)" "\<forall>(c, d) \<in> set ds. c \<noteq> [] \<and> map_of (lg_limits l) c \<noteq> None \<and> 0 \<le> int_at (lg_used l) c + d"
  shows "adjust_many ds l = (Inr False, l) \<or> (\<exists>l'. adjust_many ds l = (Inr True, l') \<and> lg_limits l' = lg_limits l \<and>
    (\<forall>c. int_at (lg_used l') c = int_at (lg_used l) c + int_at ds c) \<and> (\<forall>c. map_of (lg_used l) c \<noteq> None \<longrightarrow> map_of (lg_used l') c \<noteq> None) \<and>
    (\<forall>(c, d) \<in> set ds. can_adjust c d l))"
proof (cases "list_all (\<lambda>(c, delta). can_adjust c delta l) ds")
  case True
  then have can: "\<forall>(c, d) \<in> set ds. can_adjust c d l" by (simp add: list_all_iff)
  have "\<forall>(c, d) \<in> set ds. c \<noteq> [] \<and> (\<exists>limit. map_of (lg_limits l) c = Some limit \<and>
     (d \<le> 0 \<or> int_at (lg_used l) c + d \<le> limit)) \<and> 0 \<le> int_at (lg_used l) c + d"
  proof (intro ballI, clarify)
    fix c d assume m: "(c, d) \<in> set ds"
    then have "can_adjust c d l" "c \<noteq> []" "map_of (lg_limits l) c \<noteq> None" "0 \<le> int_at (lg_used l) c + d" using can assms(2) by blast+
    then show "c \<noteq> [] \<and> (\<exists>limit. map_of (lg_limits l) c = Some limit \<and> (d \<le> 0 \<or> int_at (lg_used l) c + d \<le> limit)) \<and> 0 \<le> int_at (lg_used l) c + d"
      by (auto simp: can_adjust_def)
  qed
  from adjust_each_run [OF assms(1) this, of "[]"] can True show ?thesis by (simp add: adjust_many_def)
next
  case False
  then show ?thesis by (auto simp: adjust_many_def)
qed

lemma dict_sum_zero: "(\<And>k v. (k, v) \<in> set d \<Longrightarrow> f v = 0) \<Longrightarrow> dict_sum f d = 0"
proof (induction d)
  case (Cons x d)
  obtain k v where x: "x = (k, v)" by (cases x)
  have "f v = 0" by (rule Cons.prems [of k]) (simp add: x)
  moreover have "dict_sum f d = 0"
  proof (rule Cons.IH)
    show "f v' = 0" if "(k', v') \<in> set d" for k' v' by (rule Cons.prems [of k']) (simp add: that)
  qed
  ultimately show ?case by (simp add: x)
qed simp

lemma owned_total_foreign:
  assumes "acc_ok s" "map_of (kv_components s) c = None"
  shows "owned_total g c (kv_pages s) = 0"
  unfolding owned_total_def
proof (rule dict_sum_zero)
  fix j q assume "(j, q) \<in> set (kv_pages s)"
  then have "map_of (kv_components s) (kp_owner q) \<noteq> None"
    using page_okD(5) [OF acc_okD(13) [OF assms(1)]] wf_dict_in_iff [OF acc_okD(12) [OF assms(1)]] by blast
  then show "(if kp_owner q = c then round_up (kp_bytes q) (int_at g c) else 0) = 0" using assms(2) by auto
qed

lemma int_at_filter: "distinct (map fst d) \<Longrightarrow> int_at (filter (\<lambda>(c, n). n \<noteq> 0) d) c = int_at d c"
proof (induction d)
  case (Cons x d)
  obtain k n where x: "x = (k, n)" by (cases x)
  have "map_of d k = None" using Cons.prems by (simp add: x map_of_eq_None_iff)
  then have "int_at d k = 0" by (simp add: int_at_def)
  then show ?case using Cons by (simp add: x) (simp add: int_at_def)
qed (simp add: int_at_def)

lemma map_of_values: "map_of (map (\<lambda>(c, _). (c, f c)) d) c = map_option (\<lambda>_. f c) (map_of d c)"
  by (induction d) auto

lemma granule_with_ok:
  assumes "static_ok s" "granule_with footprint s = Inr g" "map_of (kv_components s) c = Some x"
  shows "0 < int_at g c"
proof (cases footprint)
  case None
  then show ?thesis using assms by (simp add: granule_with_def static_ok_def granule_of_def)
next
  case (Some f)
  have pos: "\<forall>(c, _) \<in> set (kv_components s). 0 < f c" and g: "g = fold (\<lambda>(c, _) g. AList.update c (f c) g) (kv_components s) (kv_granularity s)"
    using assms(2) Some by (auto simp: granule_with_def list_all_iff split: if_splits)
  have "map_of (fold (\<lambda>(c, _) g. AList.update c (f c) g) d h) c = (if c \<in> fst ` set d then Some (f c) else map_of h c)" for d :: "(string, kv_component) dict" and h
    by (induction d arbitrary: h) auto
  moreover have "c \<in> fst ` set (kv_components s)" "0 < f c" using map_of_SomeD [OF assms(3)] pos by force+
  ultimately show ?thesis by (simp add: g int_at_def)
qed


lemma set_executor_ok:
  assumes inv: "kv_inv s"
  shows "kv_inv (snd (set_executor present footprint s))"
proof (cases "kv_pending s \<noteq> []")
  case True
  then show ?thesis using inv by (simp add: set_executor_def)
next
  case False
  then have pend: "kv_pending s = []" by simp
  have k: "kv_ok (kv_requests s) s" using inv by (simp add: kv_inv_def)
  note a = kv_okD(1) [OF k]
  have st: "static_ok s" by (rule acc_okD(1) [OF a])
  have wc: "wf_dict (kv_components s)" using st by (simp add: static_ok_def)
  let ?fp = "if present then footprint else None"
  show ?thesis
  proof (cases "granule_with ?fp s")
    case (Inl e)
    then show ?thesis using inv by (simp add: set_executor_def pend)
  next
    case (Inr g)
    define totals where "totals = map (\<lambda>(c, _). (c, owned_total g c (kv_pages s))) (kv_components s)"
    define ds where "ds = map (\<lambda>(c, n). (c, n - int_at (kv_owned s) c)) (filter (\<lambda>(c, n). n \<noteq> int_at (kv_owned s) c) totals)"
    have run: "set_executor present footprint s = (if ds \<noteq> [] \<and> kv_executor s \<and> kv_pages s \<noteq> []
          then (Inl (Kv_Error ''cannot change allocation granularity of already bound pages''), s)
          else case (if ds = [] then (Inr True, kv_ledger s) else adjust_many ds (kv_ledger s)) of
            (Inl e, l) \<Rightarrow> (Inl e, s\<lparr>kv_ledger := l\<rparr>)
          | (Inr ok, l) \<Rightarrow> if \<not> ok
              then (Inl (Kv_Error ''existing pages exceed capacity at physical allocation granularity''), s\<lparr>kv_ledger := l\<rparr>)
              else (Inr (), s\<lparr>kv_ledger := l, kv_granularity := g,
                kv_owned := filter (\<lambda>(c, n). n \<noteq> 0) totals, kv_executor := present\<rparr>))"
      by (simp only: set_executor_def pend Inr sum.case Let_def totals_def ds_def simp_thms if_False)
    have ft: "map fst totals = map fst (kv_components s)" by (simp add: totals_def case_prod_beta)
    have dt: "distinct (map fst totals)" using wc by (simp add: ft wf_dict_def)
    have mt: "map_of totals c = map_option (\<lambda>_. owned_total g c (kv_pages s)) (map_of (kv_components s) c)" for c
      unfolding totals_def by (rule map_of_values)
    have it: "int_at totals c = owned_total g c (kv_pages s)" for c
      using owned_total_foreign [OF a, of c g] by (cases "map_of (kv_components s) c") (simp_all add: int_at_def mt)
    have md: "map_of ds c = (case map_of totals c of None \<Rightarrow> None | Some n \<Rightarrow> if n = int_at (kv_owned s) c then None else Some (n - int_at (kv_owned s) c))" for c
      unfolding ds_def using dt
    proof (induction totals)
      case (Cons x d)
      obtain k n where x: "x = (k, n)" by (cases x)
      have "map_of d k = None" using Cons.prems by (simp add: x map_of_eq_None_iff)
      then show ?case using Cons by (auto simp: x)
    qed simp
    have dd: "distinct (map fst ds)"
    proof -
      have "map fst ds = map fst (filter (\<lambda>(c, n). n \<noteq> int_at (kv_owned s) c) totals)" by (simp add: ds_def comp_def case_prod_beta)
      then show ?thesis using dt by (simp add: distinct_map_filter)
    qed
    have delta: "int_at ds c = owned_total g c (kv_pages s) - int_at (kv_owned s) c" if "map_of (kv_components s) c = Some x" for c x
      by (simp add: int_at_def [of ds] md mt that)
    have cl: "claims c s = int_at (kv_owned s) c" for c
      unfolding acc_okD(11) [OF a] by (simp add: claims_def owned_total_def claim_of_def [abs_def] pend)
    have nn: "0 \<le> owned_total g c (kv_pages s)" if x: "map_of (kv_components s) c = Some x" for c x
      unfolding owned_total_def
    proof (rule dict_sum_nonneg)
      fix j q assume "(j, q) \<in> set (kv_pages s)"
      then have "0 < kp_bytes q" using page_okD(4) [OF acc_okD(13) [OF a]] wf_dict_in_iff [OF acc_okD(12) [OF a]] by blast
      then show "0 \<le> (if kp_owner q = c then round_up (kp_bytes q) (int_at g c) else 0)"
        using round_up_ge [OF granule_with_ok [OF st Inr x], of "kp_bytes q"] by simp
    qed
    have good: "kv_inv (s\<lparr>kv_ledger := l, kv_granularity := g, kv_owned := filter (\<lambda>(c, n). n \<noteq> 0) totals, kv_executor := present\<rparr>)"
      if l: "lg_limits l = lg_limits (kv_ledger s)" "\<And>c. int_at (lg_used l) c = used_at c s + int_at ds c"
        "\<And>c. map_of (lg_used (kv_ledger s)) c \<noteq> None \<Longrightarrow> map_of (lg_used l) c \<noteq> None"
        "\<And>c d. (c, d) \<in> set ds \<Longrightarrow> can_adjust c d (kv_ledger s)" for l
    proof -
      let ?t = "s\<lparr>kv_ledger := l, kv_granularity := g, kv_owned := filter (\<lambda>(c, n). n \<noteq> 0) totals, kv_executor := present\<rparr>"
      have "static_ok ?t" using st granule_with_ok [OF st Inr] by (simp add: static_ok_def granule_of_def)
      moreover have "pages_ok ?t"
      proof -
        have "page_ok ?t = page_ok s" by (rule page_ok_cong) simp_all
        then show ?thesis using acc_okD(3) [OF a] by (simp add: pages_ok_def)
      qed
      moreover have "accounts_ok ?t"
        unfolding accounts_ok_def
      proof (intro conjI allI impI)
        show "int_at (kv_owned ?t) c = owned_total (kv_granularity ?t) c (kv_pages ?t)" for c
          by (simp add: int_at_filter [OF dt] it)
        fix c x assume "map_of (kv_components ?t) c = Some x"
        then have x: "map_of (kv_components s) c = Some x" by simp
        have ct: "claims c ?t = owned_total g c (kv_pages s)"
          by (simp add: claims_def owned_total_def claim_of_def [abs_def] pend)
        have ut: "used_at c ?t = used_at c s + owned_total g c (kv_pages s) - int_at (kv_owned s) c"
          by (simp add: used_at_def [of c ?t] l(2) delta [OF x])
        show "map_of (lg_limits (kv_ledger ?t)) c = Some (kc_capacity x)" using acc_okD(7) [OF a x] by (simp add: l(1))
        show "map_of (lg_used (kv_ledger ?t)) c \<noteq> None" using acc_okD(8) [OF a x] l(3) [of c] by simp
        show "claims c ?t \<le> used_at c ?t" using acc_okD(9) [OF a x] by (simp add: ct ut cl)
        show "used_at c ?t \<le> kc_capacity x"
        proof (cases "owned_total g c (kv_pages s) \<le> int_at (kv_owned s) c")
          case True
          then show ?thesis using acc_okD(10) [OF a x] by (simp add: ut)
        next
          case False
          then have "map_of ds c = Some (owned_total g c (kv_pages s) - int_at (kv_owned s) c)" by (simp add: md mt x)
          then have "can_adjust c (owned_total g c (kv_pages s) - int_at (kv_owned s) c) (kv_ledger s)" using l(4) map_of_SomeD by fast
          then show ?thesis using False unfolding can_adjust_charge [OF a x] by (simp add: ut)
        qed
      qed
      ultimately have "acc_ok ?t" by (simp add: acc_ok_def)
      then show ?thesis using kv_okD(2) [OF k] by (simp add: kv_inv_def kv_ok_def)
    qed
    show ?thesis
    proof (cases "ds \<noteq> [] \<and> kv_executor s \<and> kv_pages s \<noteq> []")
      case True
      then show ?thesis using inv by (simp add: run)
    next
      case free: False
      show ?thesis
      proof (cases "ds = []")
        case True
        then show ?thesis using good [of "kv_ledger s"] by (simp add: run used_at_def int_at_def)
      next
        case False
        have "\<forall>(c, d) \<in> set ds. c \<noteq> [] \<and> map_of (lg_limits (kv_ledger s)) c \<noteq> None \<and> 0 \<le> int_at (lg_used (kv_ledger s)) c + d"
        proof (intro ballI, clarify)
          fix c d assume "(c, d) \<in> set ds"
          then have m: "map_of ds c = Some d" using dd by (simp add: map_of_eq_Some_iff)
          then obtain x where x: "map_of (kv_components s) c = Some x" by (auto simp: md mt split: option.splits)
          have "d = owned_total g c (kv_pages s) - int_at (kv_owned s) c" using m by (simp add: md mt x split: if_splits)
          then show "c \<noteq> [] \<and> map_of (lg_limits (kv_ledger s)) c \<noteq> None \<and> 0 \<le> int_at (lg_used (kv_ledger s)) c + d"
            using acc_okD(4,7,9) [OF a x] nn [OF x] by (simp add: used_at_def [symmetric] cl)
        qed
        from adjust_many_run [OF dd this] show ?thesis
        proof (elim disjE exE conjE)
          assume "adjust_many ds (kv_ledger s) = (Inr False, kv_ledger s)"
          then show ?thesis using free False inv by (simp add: run)
        next
          fix l assume l: "adjust_many ds (kv_ledger s) = (Inr True, l)" "lg_limits l = lg_limits (kv_ledger s)"
            "\<forall>c. int_at (lg_used l) c = int_at (lg_used (kv_ledger s)) c + int_at ds c"
            "\<forall>c. map_of (lg_used (kv_ledger s)) c \<noteq> None \<longrightarrow> map_of (lg_used l) c \<noteq> None" "\<forall>(c, d) \<in> set ds. can_adjust c d (kv_ledger s)"
          have "kv_inv (s\<lparr>kv_ledger := l, kv_granularity := g, kv_owned := filter (\<lambda>(c, n). n \<noteq> 0) totals, kv_executor := present\<rparr>)"
          proof (rule good [OF l(2)])
            show "int_at (lg_used l) c = used_at c s + int_at ds c" for c using l(3) by (simp add: used_at_def)
          qed (use l(4,5) in blast)+
          then show ?thesis using free False l(1) by (auto simp: run)
        qed
      qed
    qed
  qed
qed

section \<open>Construction\<close>

lemma map_of_ids:
  "map_of (map (\<lambda>c. (kc_id c, f c)) cs) k = map_option f (map_of (map (\<lambda>c. (kc_id c, c)) cs) k)"
  by (induction cs) auto

lemma map_of_component: "map_of (map (\<lambda>c. (kc_id c, c)) cs) k = Some x \<Longrightarrow> kc_id x = k \<and> x \<in> set cs"
  by (induction cs) (auto split: if_splits)

lemma check_components_ok: "check_components cs = Inr () \<Longrightarrow> x \<in> set cs \<Longrightarrow> kc_id x \<noteq> [] \<and> 0 \<le> kc_capacity x"
  by (induction cs) (auto simp: check_component_def rbind_def split: sum.splits if_splits)

lemma new_pool_inv:
  assumes new: "new_pool q = Inr s" and pos: "\<forall>c \<in> set (pc_components q). 0 < kc_granule c"
  shows "kv_inv s"
proof -
  let ?cs = "pc_components q"
  define s0 where "s0 = \<lparr>kv_components = map (\<lambda>c. (kc_id c, c)) ?cs, kv_granularity = map (\<lambda>c. (kc_id c, kc_granule c)) ?cs,
    kv_tokens = pc_tokens q, kv_default_bytes = pc_bytes q, kv_layer_bytes = pc_layer_bytes q,
    kv_ledger = \<lparr>lg_limits = map (\<lambda>c. (kc_id c, max 0 (kc_capacity c))) ?cs,
      lg_used = map (\<lambda>(c, _). (c, 0)) (map (\<lambda>c. (kc_id c, max 0 (kc_capacity c))) ?cs)\<rparr>, kv_executor = False,
    kv_offload = (if pc_offload q \<noteq> [] then pc_offload q else map kc_id (filter (\<lambda>c. \<not> kc_active c \<and> kc_writable c) ?cs)),
    kv_pages = [], kv_requests = [], kv_request_components = [], kv_prefixes = [], kv_pending = [],
    kv_bindings = [], kv_owned = [], kv_counter = 0, kv_clock = 0, kv_events = [], kv_last_error = None\<rparr>"
  have checks: "0 < pc_tokens q" "0 < pc_bytes q" "check_components ?cs = Inr ()" "check_pool q = Inr ()"
    and s: "case set_executor (pc_executor q) (pc_footprint q) s0 of (Inl e, _) \<Rightarrow> False | (Inr _, t) \<Rightarrow> s = t"
    using new by (auto simp: new_pool_def rbind_def Let_def s0_def split: if_splits sum.splits prod.splits)
  have d: "distinct (map kc_id ?cs)" "\<forall>(layer, n) \<in> set (pc_layer_bytes q). 0 < n"
    using checks(4) by (auto simp: check_pool_def list_all_iff split: if_splits)
  have c: "kc_id x = c \<and> c \<noteq> [] \<and> 0 \<le> kc_capacity x \<and> 0 < kc_granule x" if "map_of (map (\<lambda>c. (kc_id c, c)) ?cs) c = Some x" for c x
    using map_of_component [OF that] check_components_ok [OF checks(3)] pos by blast
  have "static_ok s0"
    unfolding static_ok_def
  proof (intro conjI allI impI)
    show "wf_dict (kv_components s0)" using d(1) by (simp add: s0_def wf_dict_def comp_def)
    show "0 < n" if "map_of (kv_layer_bytes s0) layer = Some n" for layer n
      using map_of_SomeD [OF that] d(2) by (auto simp: s0_def)
    fix k x assume x: "map_of (kv_components s0) k = Some x"
    then show "k \<noteq> []" "kc_id x = k" "0 \<le> kc_capacity x" "0 < granule_of k s0"
      using c [of k x] by (simp_all add: s0_def granule_of_def int_at_def map_of_ids [of kc_granule])
  qed (use checks in \<open>simp_all add: s0_def\<close>)
  moreover have "accounts_ok s0"
  proof -
    have u: "map_of (lg_used (kv_ledger s0)) k = map_option (\<lambda>_. 0) (map_of (kv_components s0) k)"
      "map_of (lg_limits (kv_ledger s0)) k = map_option (\<lambda>c. max 0 (kc_capacity c)) (map_of (kv_components s0) k)" for k
      by (simp_all add: s0_def comp_def map_of_ids [of "\<lambda>c. 0"] map_of_ids [of "\<lambda>c. max 0 (kc_capacity c)"])
    have z: "claims k s0 = 0" "int_at (kv_owned s0) k = 0" "owned_total (kv_granularity s0) k (kv_pages s0) = 0" for k
      by (simp_all add: claims_def s0_def int_at_def owned_total_def)
    have cc: "0 \<le> kc_capacity x" if "map_of (kv_components s0) k = Some x" for k x using c [of k x] that by (simp add: s0_def)
    show ?thesis unfolding accounts_ok_def used_at_def z by (simp add: u cc int_at_def)
  qed
  moreover have "pages_ok s0" by (simp add: pages_ok_def s0_def wf_dict_def)
  moreover have "refs_ok (kv_requests s0) (kv_prefixes s0) s0"
    by (rule refs_okI) (simp_all add: s0_def lists_ok_def wf_dict_def bound_to_def)
  ultimately have "kv_inv s0" by (simp add: kv_inv_def kv_ok_def acc_ok_def)
  from set_executor_ok [OF this, of "pc_executor q" "pc_footprint q"] s show ?thesis
    by (auto split: prod.splits sum.splits)
qed

section \<open>The steps of a pool\<close>

text \<open>
  Every operation, with any environment of the call, and another holder of the ledger, who takes
  bytes within the limit and gives back only bytes that are not the pool's.
\<close>

definition kv_start :: "kv_pool \<Rightarrow> bool" where
  "kv_start s \<longleftrightarrow> (\<exists>q. new_pool q = Inr s \<and> (\<forall>c \<in> set (pc_components q). 0 < kc_granule c))"

inductive kv_step :: "kv_pool \<Rightarrow> kv_pool \<Rightarrow> bool" where
  step_executor: "kv_step s (snd (set_executor present footprint s))"
| step_resize: "kv_step s (snd (resize_detailed ev q s))"
| step_release: "kv_step s (snd (release r s))"
| step_handoff: "kv_step s (snd (handoff_request source target s))"
| step_register_prefix: "kv_step s (snd (register_prefix k pages s))"
| step_release_prefix: "kv_step s (snd (release_prefix k s))"
| step_pin: "kv_step s (snd (pin r which s))"
| step_unpin: "kv_step s (snd (unpin r which s))"
| step_unpin_page: "kv_step s (snd (unpin_page i s))"
| step_touch: "kv_step s (touch_request r s)"
| step_evict_kv: "kv_step s (snd (evict_kv needed allowed s))"
| step_migrate: "kv_step s (snd (migrate_page ev i target s))"
| step_offload: "kv_step s (snd (offload_page ev i where_to kind s))"
| step_restore_page: "kv_step s (snd (restore_page ev i where_to kind s))"
| step_prepare: "kv_step s (snd (prepare_restore ev i target kind s))"
| step_abort: "kv_step s (snd (abort_restore i plan s))"
| step_complete: "kv_step s (snd (complete_restore i plan now s))"
| step_cancel: "kv_step s (snd (cancel_restore i plan now s))"
| step_clear: "kv_step s (clear_events s)"
| step_outside: "claims c s \<le> used_at c s + d \<Longrightarrow> kv_step s (snd (outside_adjust c d s))"

inductive_cases kv_stepE: "kv_step s t"
inductive_simps kv_step_iff: "kv_step s t"

lemma outside_inv:
  assumes inv: "kv_inv s" and cover: "claims c s \<le> used_at c s + d"
  shows "kv_inv (snd (outside_adjust c d s))"
proof -
  have k: "kv_ok (kv_requests s) s" using inv by (simp add: kv_inv_def)
  note a = kv_okD(1) [OF k]
  show ?thesis
  proof (cases "map_of (kv_components s) c")
    case (Some x)
    have "0 \<le> used_at c s + d" using claims_nonneg(1) [OF a Some] cover by simp
    from pool_adjust_run [OF a Some this] show ?thesis
    proof (cases "d \<le> 0 \<or> used_at c s + d \<le> kc_capacity x")
      case True
      have "acc_ok (charge c d s)"
        by (rule charge_acc [OF a Some cover]) (use True acc_okD(10) [OF a Some] in auto)
      then have "kv_inv (charge c d s)" using kv_okD(2) [OF k] by (simp add: kv_inv_def kv_ok_def)
      then show ?thesis using pool_adjust_run [OF a Some \<open>0 \<le> used_at c s + d\<close>] True by (simp add: outside_adjust_def)
    next
      case False
      then show ?thesis using pool_adjust_run [OF a Some \<open>0 \<le> used_at c s + d\<close>] inv by (auto simp: outside_adjust_def)
    qed
  next
    case None
    let ?t = "snd (outside_adjust c d s)" and ?l = "snd (adjust c d (kv_ledger s))"
    have form: "?t = s\<lparr>kv_ledger := ?l\<rparr>" by (simp add: outside_adjust_def pool_adjust_def split: prod.split)
    have lim: "lg_limits ?l = lg_limits (kv_ledger s)" by (simp add: adjust_def Let_def)
    have used: "map_of (lg_used ?l) c' = map_of (lg_used (kv_ledger s)) c'" if "c' \<noteq> c" for c'
      using that by (simp add: adjust_def Let_def)
    have "acc_ok ?t"
      unfolding form
    proof (rule acc_okI [OF a])
      have "page_ok (s\<lparr>kv_ledger := ?l\<rparr>) = page_ok s" by (rule page_ok_cong) simp_all
      then show "pages_ok (s\<lparr>kv_ledger := ?l\<rparr>)" using acc_okD(3) [OF a] by (simp add: pages_ok_def)
      fix c' y assume y: "map_of (kv_components s) c' = Some y"
      then have "c' \<noteq> c" using None by auto
      note u = used [OF this]
      have "used_at c' (s\<lparr>kv_ledger := ?l\<rparr>) = used_at c' s" by (simp add: used_at_def int_at_def u)
      then show "map_of (lg_used (kv_ledger (s\<lparr>kv_ledger := ?l\<rparr>))) c' \<noteq> None \<and> claims c' (s\<lparr>kv_ledger := ?l\<rparr>) \<le> used_at c' (s\<lparr>kv_ledger := ?l\<rparr>) \<and>
          used_at c' (s\<lparr>kv_ledger := ?l\<rparr>) \<le> kc_capacity y"
        using acc_okD(8-10) [OF a y] by (simp add: u claims_def)
    qed (simp_all add: lim acc_okD(11) [OF a])
    then show ?thesis using kv_okD(2) [OF k] unfolding form by (simp add: kv_inv_def kv_ok_def)
  qed
qed

lemma resize_inv:
  assumes "kv_inv s"
  shows "kv_inv (snd (resize_detailed ev q s))"
  using resize_ok [OF assms, of ev q] by (elim exE conjE) simp

lemma prepare_inv:
  assumes "kv_inv s"
  shows "kv_inv (snd (prepare_restore ev i target kind s))"
  using prepare_ok [OF assms, of ev i target kind] by (elim exE conjE) simp

lemma unpin_inv:
  assumes "kv_inv s"
  shows "kv_inv (snd (unpin r which s))"
  using unpin_ok [OF assms, of r which] by (elim exE conjE) simp

lemma release_prefix_inv:
  assumes "kv_inv s"
  shows "kv_inv (snd (release_prefix k s))"
  using release_prefix_ok [OF assms, of k] by (elim exE conjE) simp

lemmas kv_step_invs = set_executor_ok resize_inv release_inv handoff_inv register_prefix_inv release_prefix_inv pin_inv unpin_inv
  unpin_page_inv touch_request_inv evict_inv migrate_inv offload_inv restore_inv prepare_inv abort_inv complete_inv cancel_inv outside_inv

lemma clear_events_inv: "kv_inv s \<Longrightarrow> kv_inv (clear_events s)"
  by (simp add: clear_events_def)

lemma kv_step_inv:
  assumes inv: "kv_inv s" and step: "kv_step s t"
  shows "kv_inv t"
  using step by cases (use inv in \<open>simp_all add: kv_step_invs clear_events_inv\<close>)

lemma kv_start_inv: "kv_start s \<Longrightarrow> kv_inv s"
  unfolding kv_start_def using new_pool_inv by blast

interpretation kv_machine: state_machine kv_start kv_step kv_inv
  by unfold_locales (fact kv_start_inv, fact kv_step_inv)

end
