(* ===== verification/Kv_Props.thy ===== *)
theory Kv_Props
  imports Kv_Machine
begin

text \<open>What holds in every pool that a program can reach, with example pools as witnesses.\<close>

section \<open>Example pools\<close>

text \<open>Two active memories and a flash tier; a fixed plan that takes from time 0 to time 5.\<close>

definition example_component :: "string \<Rightarrow> int \<Rightarrow> string \<Rightarrow> bool \<Rightarrow> int \<Rightarrow> kv_component" where
  "example_component c capacity kind active granule = \<lparr>kc_id = c, kc_capacity = capacity, kc_kind = kind, kc_tier = kind,
     kc_active = active, kc_writable = True, kc_machine = ''m0'', kc_read_bandwidth = 8, kc_write_bandwidth = 4,
     kc_latency = 1, kc_granule = granule\<rparr>"

definition example_config :: pool_config where
  "example_config = \<lparr>pc_components = [example_component ''hbm'' 48 ''hbm'' True 16, example_component ''dram'' 32 ''dram'' True 8,
     example_component ''ssd'' 64 ''ssd'' False 32], pc_tokens = 4, pc_bytes = 12, pc_layer_bytes = [], pc_offload = [],
     pc_cross_machine = False, pc_executor = True, pc_footprint = None\<rparr>"

definition example_plan :: kv_plan where
  "example_plan = \<lparr>kl_duration = 5, kl_start = Some 0, kl_completion = Some 5, kl_commit = Hook_Returns,
     kl_rollback = Hook_Returns, kl_advance = False, kl_cancel = No_Hook\<rparr>"

definition example_env :: kv_env where
  "example_env = \<lparr>ev_topology = None, ev_execute = (\<lambda>_. Planned example_plan), ev_prepare = (\<lambda>_. Planned example_plan)\<rparr>"

definition example_resize :: "string \<Rightarrow> int \<Rightarrow> string \<Rightarrow> resize_request" where
  "example_resize r n layer = \<lparr>rz_request = r, rz_pages = Some n, rz_tokens = None, rz_layer = layer, rz_component = None,
     rz_compat = Any_Component, rz_prefix = None\<rparr>"

definition example_pool0 :: kv_pool where
  "example_pool0 = projr (new_pool example_config)"

definition example_pool1 :: kv_pool where
  "example_pool1 = snd (resize_detailed example_env (example_resize ''a'' 2 ''default'') example_pool0)"

definition example_pool2 :: kv_pool where
  "example_pool2 = snd (register_prefix ''sys'' [0] example_pool1)"

definition example_pool :: kv_pool where
  "example_pool = snd (release ''a'' example_pool2)"

lemma example_pool0_start: "kv_start example_pool0"
proof -
  have "new_pool example_config = Inr example_pool0" by code_simp
  moreover have "\<forall>c \<in> set (pc_components example_config). 0 < kc_granule c" by code_simp
  ultimately show ?thesis unfolding kv_start_def by blast
qed

lemma example_pool_reach:
  "reach kv_start kv_step example_pool1" "reach kv_start kv_step example_pool2" "reach kv_start kv_step example_pool"
proof -
  show one: "reach kv_start kv_step example_pool1"
    unfolding example_pool1_def by (rule reach_step, rule reach_start, rule example_pool0_start) (rule step_resize)
  show two: "reach kv_start kv_step example_pool2"
    unfolding example_pool2_def by (rule reach_step [OF one]) (rule step_register_prefix)
  show "reach kv_start kv_step example_pool"
    unfolding example_pool_def by (rule reach_step [OF two]) (rule step_release)
qed

section \<open>Properties\<close>

lemma inv_like_owned: "kv_inv s \<Longrightarrow> kv_inv t \<Longrightarrow> like t s \<Longrightarrow> int_at (kv_owned t) c = int_at (kv_owned s) c"
  unfolding kv_inv_def by (rule like_owned [OF kv_okD(1) kv_okD(1)])

lemma reach_kv_ok: "reach kv_start kv_step s \<Longrightarrow> kv_ok (kv_requests s) s"
  using kv_machine.reach_inv unfolding kv_inv_def .

text \<open>C35: in every reachable pool the reference count of a page is the number of requests and of
  prefixes that list it, its bindings are exactly the requests that list it, a page without a
  reference is pinned, and every listed page exists and is listed once.\<close>

theorem kv_references_exact:
  assumes "reach kv_start kv_step s"
  shows "(\<forall>i p. map_of (kv_pages s) i = Some p \<longrightarrow> kp_id p = i
      \<and> kp_refs p = int (card {r. i \<in> set (ids_at (kv_requests s) r)}) + int (card {k. i \<in> set (ids_at (kv_prefixes s) k)})
      \<and> (kp_refs p = 0 \<longrightarrow> kp_pinned p))
    \<and> (\<forall>i. bound_to i s = {r. i \<in> set (ids_at (kv_requests s) r)})
    \<and> (\<forall>k. distinct (ids_at (kv_requests s) k) \<and> distinct (ids_at (kv_prefixes s) k))
    \<and> (\<forall>i k. i \<in> set (ids_at (kv_requests s) k) \<or> i \<in> set (ids_at (kv_prefixes s) k) \<longrightarrow> map_of (kv_pages s) i \<noteq> None)"
proof -
  note k = reach_kv_ok [OF assms]
  note r = refs_okD [OF kv_okD(2) [OF k]] and lR = lists_okD [OF kv_okD(3) [OF k]] and lP = lists_okD [OF kv_okD(4) [OF k]]
  show ?thesis
  proof (intro conjI allI impI)
    fix i p assume p: "map_of (kv_pages s) i = Some p"
    show "kp_id p = i" by (rule page_okD(1) [OF acc_okD(13) [OF kv_okD(1) [OF k] p]])
    show "kp_refs p = int (card {r. i \<in> set (ids_at (kv_requests s) r)}) + int (card {k. i \<in> set (ids_at (kv_prefixes s) k)})"
      using r(3) [OF p] by (simp add: refs_in_card [OF lR(1)] refs_in_card [OF lP(1)])
    show "kp_pinned p" if "kp_refs p = 0" by (rule r(4) [OF p that])
  qed (use r(7) lR(2,3) lP(2,3) in blast)+
qed

theorem kv_references_exact_witness:
  "map_option kp_refs (map_of (kv_pages example_pool2) 0) = Some 2
    \<and> card {r. 0 \<in> set (ids_at (kv_requests example_pool2) r)} + card {k. 0 \<in> set (ids_at (kv_prefixes example_pool2) k)} = 2"
proof -
  obtain p where p: "map_of (kv_pages example_pool2) 0 = Some p" "kp_refs p = 2"
  proof -
    have "map_option kp_refs (map_of (kv_pages example_pool2) 0) = Some 2" by code_simp
    then show ?thesis using that by (cases "map_of (kv_pages example_pool2) 0") simp_all
  qed
  then show ?thesis using kv_references_exact [OF example_pool_reach(2)] by fastforce
qed

text \<open>C36: in every reachable pool the bytes that pages own on a component and the bytes that copies
  in flight have reserved there are covered by the ledger, the ledger stays within the capacity,
  and the pool's own count is the sum over its pages of the payload rounded up to the granule.\<close>

theorem kv_capacity_kept:
  assumes "reach kv_start kv_step s"
  shows "(\<forall>c x. map_of (kv_components s) c = Some x \<longrightarrow>
        dict_sum (\<lambda>p. (if kp_owner p = c then page_reserved p s else 0) +
          (case map_of (kv_pending s) (kp_id p) of None \<Rightarrow> 0 | Some (source, target, generation, kind) \<Rightarrow>
             if target = c then allocation_bytes c (kp_bytes p) s else 0)) (kv_pages s) \<le> component_used c s
        \<and> component_used c s \<le> kc_capacity x \<and> component_free x s = kc_capacity x - component_used c s)
    \<and> (\<forall>c. int_at (kv_owned s) c = dict_sum (\<lambda>p. if kp_owner p = c then page_reserved p s else 0) (kv_pages s))"
proof -
  note a = kv_okD(1) [OF reach_kv_ok [OF assms]]
  have c: "dict_sum (\<lambda>p. (if kp_owner p = c then page_reserved p s else 0) +
      (case map_of (kv_pending s) (kp_id p) of None \<Rightarrow> 0 | Some (source, target, generation, kind) \<Rightarrow>
         if target = c then allocation_bytes c (kp_bytes p) s else 0)) (kv_pages s) = claims c s" for c
    unfolding claims_def
    by (rule arg_cong [where f = "\<lambda>f. dict_sum f (kv_pages s)"])
      (auto simp: fun_eq_iff claim_of_def page_reserved_def allocation_bytes_def granule_of_def split: option.split)
  have o: "owned_total (kv_granularity s) c (kv_pages s) = dict_sum (\<lambda>p. if kp_owner p = c then page_reserved p s else 0) (kv_pages s)" for c
    unfolding owned_total_def
    by (rule arg_cong [where f = "\<lambda>f. dict_sum f (kv_pages s)"])
      (auto simp: fun_eq_iff page_reserved_def allocation_bytes_def granule_of_def)
  have u: "component_used c s = used_at c s" if "map_of (kv_components s) c = Some x" for c x
    using acc_okD(8) [OF a that] claims_nonneg(2) [OF a that] by (simp add: component_used_def)
  show ?thesis
  proof (intro conjI allI impI)
    fix c x assume x: "map_of (kv_components s) c = Some x"
    show "dict_sum (\<lambda>p. (if kp_owner p = c then page_reserved p s else 0) +
        (case map_of (kv_pending s) (kp_id p) of None \<Rightarrow> 0 | Some (source, target, generation, kind) \<Rightarrow>
           if target = c then allocation_bytes c (kp_bytes p) s else 0)) (kv_pages s) \<le> component_used c s"
      unfolding c u [OF x] by (rule acc_okD(9) [OF a x])
    show "component_used c s \<le> kc_capacity x" unfolding u [OF x] by (rule acc_okD(10) [OF a x])
    then show "component_free x s = kc_capacity x - component_used c s"
      using acc_okD(5) [OF a x] by (simp add: component_free_def)
  next
    fix c
    show "int_at (kv_owned s) c = dict_sum (\<lambda>p. if kp_owner p = c then page_reserved p s else 0) (kv_pages s)"
      using acc_okD(11) [OF a, of c] by (simp only: o)
  qed
qed

theorem kv_capacity_kept_witness:
  "component_used ''hbm'' example_pool1 = 16 \<and> 16 \<le> kc_capacity (example_component ''hbm'' 48 ''hbm'' True 16)
    \<and> int_at (kv_owned example_pool1) ''hbm'' = 16"
proof -
  have m: "map_of (kv_components example_pool1) ''hbm'' = Some (example_component ''hbm'' 48 ''hbm'' True 16)" by code_simp
  have u: "component_used ''hbm'' example_pool1 = 16" by code_simp
  have "int_at (kv_owned example_pool1) ''hbm'' = 16" by code_simp
  then show ?thesis
    using kv_capacity_kept [OF example_pool_reach(1)] m u by fastforce
qed

text \<open>C34: resizing a request of a reachable pool rejects a malformed target and changes nothing, or
  reaches the target exactly, keeping the pages the request had and every other request, or refuses
  with every request keeping its pages; and a refusal leaves the content of the pool, the owned bytes
  and the ledger included, as it was when the layer group of the request is a non-empty name. For an
  empty layer group that last part fails, as \<open>empty_layer_leaks\<close> below shows.\<close>

theorem resize_reaches_or_refuses:
  assumes "reach kv_start kv_step s" and "resize_detailed ev q s = (r, t)"
  shows "case resize_target q s of
      Inl e \<Rightarrow> r = Inl e \<and> t = s\<lparr>kv_last_error := None\<rparr>
    | Inr n \<Rightarrow> (\<exists>res. r = Inr res \<and> (
        rr_success res \<and> rr_count res = n \<and> int (length (ids_at (kv_requests t) (rz_request q))) = n
          \<and> (\<forall>k. k \<noteq> rz_request q \<longrightarrow> ids_at (kv_requests t) k = ids_at (kv_requests s) k)
          \<and> take (nat n) (ids_at (kv_requests s) (rz_request q))
            = take (length (ids_at (kv_requests s) (rz_request q))) (ids_at (kv_requests t) (rz_request q))
        \<or> \<not> rr_success res \<and> rr_error res = kv_last_error t \<and> rr_count res = int (length (ids_at (kv_requests s) (rz_request q)))
          \<and> kv_requests t = kv_requests s \<and> (rz_layer q \<noteq> [] \<longrightarrow> like t s \<and> (\<forall>c. int_at (kv_owned t) c = int_at (kv_owned s) c))))"
proof -
  have inv: "kv_inv s" by (rule kv_machine.reach_inv [OF assms(1)])
  have "kv_inv t" using kv_machine.inv_step [OF inv step_resize [of s ev q]] by (simp add: assms(2))
  then have owned: "like t s \<Longrightarrow> int_at (kv_owned t) c = int_at (kv_owned s) c" for c
    using inv_like_owned [OF inv] by blast
  show ?thesis
    using resize_ok [OF inv, of ev q] assms(2) owned
    by (cases "resize_target q s") (auto simp: resized_def not_grown_def)
qed

theorem resize_reaches_or_refuses_witness:
  "rr_success (projr (fst (resize_detailed example_env (example_resize ''b'' 1 ''default'') example_pool1)))
    \<and> length (ids_at (kv_requests (snd (resize_detailed example_env (example_resize ''b'' 1 ''default'') example_pool1))) ''b'') = 1
    \<and> like (snd (resize_detailed example_env (example_resize ''b'' 6 ''default'') example_pool1)) example_pool1"
proof -
  let ?q = "example_resize ''b'' 1 ''default''" and ?big = "example_resize ''b'' 6 ''default''"
  obtain res t where t: "resize_detailed example_env ?q example_pool1 = (Inr res, t)" "rr_success res"
  proof -
    have "case fst (resize_detailed example_env ?q example_pool1) of Inr res \<Rightarrow> rr_success res | Inl _ \<Rightarrow> False" by code_simp
    then show ?thesis using that by (cases "resize_detailed example_env ?q example_pool1") (auto split: sum.splits)
  qed
  obtain res' t' where t': "resize_detailed example_env ?big example_pool1 = (Inr res', t')" "\<not> rr_success res'"
  proof -
    have "case fst (resize_detailed example_env ?big example_pool1) of Inr res \<Rightarrow> \<not> rr_success res | Inl _ \<Rightarrow> False" by code_simp
    then show ?thesis using that by (cases "resize_detailed example_env ?big example_pool1") (auto split: sum.splits)
  qed
  have tg: "resize_target ?q example_pool1 = Inr 1" "resize_target ?big example_pool1 = Inr 6" by code_simp+
  have n: "rz_request ?q = ''b''" "rz_layer ?big = ''default''" by (simp_all add: example_resize_def)
  have "length (ids_at (kv_requests t) ''b'') = 1"
    using resize_reaches_or_refuses [OF example_pool_reach(1) t(1)] t(2) by (simp add: tg n)
  moreover have "like t' example_pool1"
    using resize_reaches_or_refuses [OF example_pool_reach(1) t'(1)] t'(2) by (simp add: tg n)
  ultimately show ?thesis using t t' by simp
qed

text \<open>C38: eviction frees exactly a prefix of the pages that no request holds, that are not pinned and
  that have a single reference, in the order of their last access, stops as soon as the reserved
  bytes it freed suffice, and returns that sum; nothing else of the pool's accounts changes.\<close>

theorem eviction_frees_lru:
  assumes "reach kv_start kv_step s" and "0 \<le> needed"
  shows "\<exists>m t. evict_kv needed allowed s = (Inr (sum_list (map (\<lambda>p. page_reserved p s) (take m (eviction_order allowed s)))), t)
    \<and> set (eviction_order allowed s) = {p. map_of (kv_pages s) (kp_id p) = Some p \<and> evictable allowed s p}
    \<and> sorted (map (\<lambda>p. (kp_access p, kp_id p)) (eviction_order allowed s))
    \<and> (\<forall>j. map_of (kv_pages t) j = (if j \<in> kp_id ` set (take m (eviction_order allowed s)) then None else map_of (kv_pages s) j))
    \<and> (\<forall>c. used_at c t = used_at c s - owned_by c s (take m (eviction_order allowed s)))
    \<and> kv_requests t = kv_requests s
    \<and> (needed \<le> sum_list (map (\<lambda>p. page_reserved p s) (take m (eviction_order allowed s))) \<or> m = length (eviction_order allowed s))
    \<and> (\<forall>l < m. sum_list (map (\<lambda>p. page_reserved p s) (take l (eviction_order allowed s))) < needed)"
proof -
  have inv: "kv_inv s" by (rule kv_machine.reach_inv [OF assms(1)])
  show ?thesis
    using evict_ok [OF inv assms(2), of allowed] eviction_order_ok(3,4) [OF inv, of allowed] unfolding evicted_def by blast
qed

theorem eviction_frees_lru_witness:
  "\<exists>m t. evict_kv 10 None example_pool = (Inr (sum_list (map (\<lambda>p. page_reserved p example_pool) (take m (eviction_order None example_pool)))), t)
    \<and> map_of (kv_pages t) 0 = None \<and> kv_requests t = kv_requests example_pool"
proof -
  have v: "map_of (kv_pages (snd (evict_kv 10 None example_pool))) 0 = None" by code_simp
  have "(0::int) \<le> 10" by simp
  from eviction_frees_lru [OF example_pool_reach(3) this, of None] obtain m t where
    t: "evict_kv 10 None example_pool = (Inr (sum_list (map (\<lambda>p. page_reserved p example_pool) (take m (eviction_order None example_pool)))), t)"
      "kv_requests t = kv_requests example_pool" by (elim exE conjE) (rule that)
  have "map_of (kv_pages t) 0 = None" using v by (simp add: t(1))
  then show ?thesis using t by blast
qed

text \<open>C37: moving a page of a reachable pool is all or nothing: if it answers True the page is at the
  target, either because it was there already or because the executor gave a plan whose commit hook
  did not raise, and then owner, tier, generation, last access, both ledger rows, the owned bytes and
  the event log, with the duration and the times of that plan, changed together and nothing else of
  the pages, requests, prefixes, bindings and copies in flight; on every other answer or error, a
  failing commit hook included, the content of the pool is as before, the owned bytes included.\<close>

theorem move_all_or_nothing:
  assumes "reach kv_start kv_step s" and "move_page ev i target kind s = (r, t)"
  shows "if r = Inr True
    then \<exists>p. map_of (kv_pages s) i = Some p \<and> (kp_owner p = target \<and> t = s\<lparr>kv_last_error := None\<rparr> \<or>
      kp_owner p \<noteq> target \<and> (\<exists>plan. transfer_plan ev p (kp_owner p) target False s = Inr plan \<and>
        kl_commit plan \<noteq> Hook_Raises \<and> page_moved plan i target kind s t))
    else like t s \<and> (\<forall>c. int_at (kv_owned t) c = int_at (kv_owned s) c)"
proof -
  have inv: "kv_inv s" by (rule kv_machine.reach_inv [OF assms(1)])
  have "kv_inv t" "move_outcome ev i target kind s r t"
    using move_page_ok [OF inv, of ev i target kind] assms(2) by auto
  then show ?thesis using inv_like_owned [OF inv] by (simp add: move_outcome_def split: if_splits)
qed

theorem move_all_or_nothing_witness:
  "page_moved example_plan 0 ''ssd'' ''offload'' example_pool (snd (move_page example_env 0 ''ssd'' ''offload'' example_pool))
    \<and> like (snd (move_page example_env 7 ''ssd'' ''offload'' example_pool)) example_pool"
proof -
  obtain t where t: "move_page example_env 0 ''ssd'' ''offload'' example_pool = (Inr True, t)"
  proof -
    have "fst (move_page example_env 0 ''ssd'' ''offload'' example_pool) = Inr True" by code_simp
    then show ?thesis using that by (cases "move_page example_env 0 ''ssd'' ''offload'' example_pool") simp
  qed
  obtain t' e where t': "move_page example_env 7 ''ssd'' ''offload'' example_pool = (Inl e, t')"
  proof -
    have "isl (fst (move_page example_env 7 ''ssd'' ''offload'' example_pool))" by code_simp
    then show ?thesis
      using that by (cases "move_page example_env 7 ''ssd'' ''offload'' example_pool") (auto simp: isl_def)
  qed
  have o: "map_option kp_owner (map_of (kv_pages example_pool) 0) = Some ''hbm''" by code_simp
  have plan: "transfer_plan example_env p source target' b x = Inr plan \<Longrightarrow> kp_bytes p \<noteq> 0 \<Longrightarrow> source \<noteq> target' \<Longrightarrow> plan = example_plan"
    for p source target' b x plan
    by (simp add: transfer_plan_def example_env_def Let_def split: if_splits)
  have "kp_bytes p \<noteq> 0" if "map_of (kv_pages example_pool) 0 = Some p" for p
    using page_okD(4) [OF acc_okD(13) [OF kv_okD(1) [OF reach_kv_ok [OF example_pool_reach(3)]] that]] by simp
  then have "page_moved example_plan 0 ''ssd'' ''offload'' example_pool t"
    using move_all_or_nothing [OF example_pool_reach(3) t] o plan by fastforce
  moreover have "like t' example_pool" using move_all_or_nothing [OF example_pool_reach(3) t'] by simp
  ultimately show ?thesis by (simp add: t t')
qed

lemma prepared_form:
  assumes inv: "kv_inv s" and t: "prepare_restore ev i target kind s = (Inr (Some plan), t)"
  shows "\<exists>p tc. map_of (kv_pages s) i = Some p \<and> map_of (kv_pending s) i = None \<and> can_move ev p target tc s \<and>
    transfer_plan ev p (kp_owner p) target True s = Inr plan \<and> t = (prepared i target kind p s)\<lparr>kv_last_error := None\<rparr> \<and>
    kv_inv t \<and> pending_page i t = Inr (p, kp_owner p, target, kp_generation p, kind)"
proof -
  from prepare_ok [OF inv, of ev i target kind] t obtain p tc where p: "map_of (kv_pages s) i = Some p" "map_of (kv_pending s) i = None"
    "can_move ev p target tc s" "transfer_plan ev p (kp_owner p) target True s = Inr plan"
    "t = (prepared i target kind p s)\<lparr>kv_last_error := None\<rparr>" "kv_inv t"
    by (elim exE conjE) auto
  have "pending_page i t = Inr (p, kp_owner p, target, kp_generation p, kind)"
    using p(1) by (simp add: pending_page_def page_at_def rbind_def p(5) prepared_def)
  then show ?thesis using p by blast
qed

text \<open>C40: a restore that was prepared on a reachable pool and is aborted, its rollback hook not
  raising, leaves the content of the pool as it was before.\<close>

theorem abort_undoes_prepare:
  assumes "reach kv_start kv_step s" and "prepare_restore ev i target kind s = (Inr (Some plan), t)"
    and "kl_rollback plan \<noteq> Hook_Raises"
  shows "\<exists>u. abort_restore i plan t = (Inr (), u) \<and> like u s \<and> kv_pages u = kv_pages s"
proof -
  obtain p tc where p: "map_of (kv_pages s) i = Some p" "map_of (kv_pending s) i = None" "can_move ev p target tc s"
    "t = (prepared i target kind p s)\<lparr>kv_last_error := None\<rparr>" "kv_inv t" "pending_page i t = Inr (p, kp_owner p, target, kp_generation p, kind)"
    using prepared_form [OF kv_machine.reach_inv [OF assms(1)] assms(2)] by blast
  obtain u where u: "abort_restore i plan t = (Inr (), u)" "u = unreserved i target p t"
    using abort_ok [OF p(5,6), of plan] assms(3) by (auto simp: settle_outcome_def)
  have "i \<notin> fst ` set (kv_pending s)" using p(2) by (simp add: map_of_eq_None_iff)
  then have pend: "AList.delete i (AList.update i x (kv_pending s)) = kv_pending s" for x by (simp add: delete_update_same)
  have g: "allocation_bytes target n t = allocation_bytes target n s" for n
    by (simp add: allocation_bytes_def granule_of_def p(4) prepared_def)
  have pages: "kv_pages u = kv_pages s" by (simp add: u(2) unreserved_def p(4) prepared_def)
  have "like u s"
    unfolding like_def
  proof (intro conjI allI)
    show "kept_but_pages s u"
      by (simp add: kept_but_pages_def u(2) unreserved_def p(4) prepared_def reserved_move_def pend)
    show "ids_at (kv_prefixes u) k = ids_at (kv_prefixes s) k" for k by (simp add: u(2) unreserved_def p(4) prepared_def)
    show "bound_to j u = bound_to j s" for j by (simp add: bound_to_def u(2) unreserved_def p(4) prepared_def)
    show "map_option untimed (map_of (kv_pages u) j) = map_option untimed (map_of (kv_pages s) j)" for j by (simp add: pages)
    show "used_at c u = used_at c s" for c
    proof -
      have "used_at c u = used_at c t + (if c = target then - allocation_bytes target (kp_bytes p) s else 0)"
        by (simp add: u(2) unreserved_def g)
      moreover have "used_at c t = used_at c (prepared i target kind p s)" by (simp add: p(4) used_at_def)
      ultimately show ?thesis by (simp add: prepared_def)
    qed
  qed
  then show ?thesis using u(1) pages by blast
qed

theorem abort_undoes_prepare_witness:
  "\<exists>t u. prepare_restore example_env 0 ''dram'' ''prefetch'' example_pool = (Inr (Some example_plan), t)
    \<and> used_at ''dram'' t = 16 \<and> abort_restore 0 example_plan t = (Inr (), u) \<and> like u example_pool"
proof -
  obtain t where t: "prepare_restore example_env 0 ''dram'' ''prefetch'' example_pool = (Inr (Some example_plan), t)"
  proof -
    have "fst (prepare_restore example_env 0 ''dram'' ''prefetch'' example_pool) = Inr (Some example_plan)" by code_simp
    then show ?thesis using that by (cases "prepare_restore example_env 0 ''dram'' ''prefetch'' example_pool") simp
  qed
  have "used_at ''dram'' (snd (prepare_restore example_env 0 ''dram'' ''prefetch'' example_pool)) = 16" by code_simp
  moreover have "kl_rollback example_plan \<noteq> Hook_Raises" by (simp add: example_plan_def)
  ultimately show ?thesis using abort_undoes_prepare [OF example_pool_reach(3) t] t by fastforce
qed

text \<open>C39: a restore that was prepared and is completed at or after its completion time, its commit hook
  not raising, ends in the same pool, in every field, as moving the page at once through an executor
  that gives the same plan; and that pool is the one where the page has moved with the plan's times.\<close>

theorem two_phases_move:
  assumes "reach kv_start kv_step s" and "prepare_restore ev i target kind s = (Inr (Some plan), t)"
    and "kl_commit plan \<noteq> Hook_Raises" and "\<not> kl_advance plan" and "kl_completion plan = Some finish" and "finish \<le> now" and "0 \<le> now"
  shows "\<exists>u. complete_restore i plan now t = (Inr (), u)
    \<and> move_page (ev\<lparr>ev_execute := ev_prepare ev\<rparr>) i target kind s = (Inr True, u)
    \<and> page_moved plan i target kind s u \<and> map_of (kv_pending u) i = None"
proof -
  note a = kv_okD(1) [OF reach_kv_ok [OF assms(1)]]
  obtain p tc where p: "map_of (kv_pages s) i = Some p" "map_of (kv_pending s) i = None" "can_move ev p target tc s"
    "transfer_plan ev p (kp_owner p) target True s = Inr plan" "t = (prepared i target kind p s)\<lparr>kv_last_error := None\<rparr>" "kv_inv t"
    "pending_page i t = Inr (p, kp_owner p, target, kp_generation p, kind)"
    using prepared_form [OF kv_machine.reach_inv [OF assms(1)] assms(2)] by blast
  have tc: "map_of (kv_components s) target = Some tc" "kp_owner p \<noteq> target" using p(3) unfolding can_move_def by blast+
  have tct: "map_of (kv_components t) target = Some tc" using tc(1) by (simp add: p(5) prepared_def)
  let ?u = "(landed i kind p tc plan (shifted p target s))\<lparr>kv_last_error := None\<rparr>"
  obtain u where u: "complete_restore i plan now t = (Inr (), u)" "u = completed i kind p tc plan t"
    using complete_ok [OF p(6,7), of plan now] assms(3-7) by (auto simp: settle_outcome_def tct)
  have eq: "u = ?u" unfolding u(2) p(5) by (rule prepared_completed [OF a p(1,2) tc])
  have "route_exists (ev\<lparr>ev_execute := ev_prepare ev\<rparr>) = route_exists ev" by (rule route_exists_cong) simp
  then have "can_move (ev\<lparr>ev_execute := ev_prepare ev\<rparr>) p target tc s"
    using p(3) unfolding can_move_def by simp
  moreover have "transfer_plan (ev\<lparr>ev_execute := ev_prepare ev\<rparr>) p (kp_owner p) target False s = Inr plan"
    unfolding staged_at_once by (rule p(4))
  ultimately have "move_page (ev\<lparr>ev_execute := ev_prepare ev\<rparr>) i target kind s = (Inr True, u)"
    unfolding eq by (intro move_page_runs [OF a p(1,2)] assms(3))
  moreover have "page_moved plan i target kind s u" unfolding eq by (rule landed_moved [OF a p(1,2) tc])
  moreover have "map_of (kv_pending u) i = None" by (simp add: eq landed_def)
  ultimately show ?thesis using u(1) by blast
qed

theorem two_phases_move_witness:
  "\<exists>t u. prepare_restore example_env 0 ''dram'' ''prefetch'' example_pool = (Inr (Some example_plan), t)
    \<and> complete_restore 0 example_plan 5 t = (Inr (), u)
    \<and> move_page (example_env\<lparr>ev_execute := ev_prepare example_env\<rparr>) 0 ''dram'' ''prefetch'' example_pool = (Inr True, u)
    \<and> page_moved example_plan 0 ''dram'' ''prefetch'' example_pool u"
proof -
  obtain t where t: "prepare_restore example_env 0 ''dram'' ''prefetch'' example_pool = (Inr (Some example_plan), t)"
  proof -
    have "fst (prepare_restore example_env 0 ''dram'' ''prefetch'' example_pool) = Inr (Some example_plan)" by code_simp
    then show ?thesis using that by (cases "prepare_restore example_env 0 ''dram'' ''prefetch'' example_pool") simp
  qed
  have "kl_commit example_plan \<noteq> Hook_Raises" "\<not> kl_advance example_plan" "kl_completion example_plan = Some 5"
    by (simp_all add: example_plan_def)
  from two_phases_move [OF example_pool_reach(3) t this, of 5] show ?thesis using t by auto
qed

section \<open>Reservations that are lost\<close>

text \<open>
  An empty layer group makes the constructor of a page raise after its bytes were reserved: the
  resize fails and its rollback does not know of the reservation.
\<close>

lemma empty_layer_leaks:
  "\<not> rr_success (projr (fst (resize_detailed example_env (example_resize ''b'' 1 []) example_pool1)))
    \<and> used_at ''hbm'' (snd (resize_detailed example_env (example_resize ''b'' 1 []) example_pool1)) = used_at ''hbm'' example_pool1 + 16
    \<and> page_owners (snd (resize_detailed example_env (example_resize ''b'' 1 []) example_pool1)) = page_owners example_pool1"
  by code_simp

text \<open>
  Eviction does not look at copies in flight: it frees a page whose restore is prepared, and then
  neither completing nor aborting finds the page, so the target's reservation stays.
\<close>

definition evicted_copy :: kv_pool where
  "evicted_copy = snd (evict_kv 10 None (snd (prepare_restore example_env 0 ''dram'' ''prefetch'' example_pool)))"

lemma eviction_loses_copy:
  "kv_pages evicted_copy = [] \<and> used_at ''dram'' evicted_copy = 16
    \<and> fst (abort_restore 0 example_plan evicted_copy) = Inl (Kv_Error ''unknown KV page'')
    \<and> fst (complete_restore 0 example_plan 5 evicted_copy) = Inl (Kv_Error ''unknown KV page'')"
  by code_simp

end
