(* ===== verification/Spec2Isabelle.thy ===== *)
theory Spec2Isabelle
  imports Request_Split Cache_Props Residency_Props Allocator_Snapshot Kv_Props
begin

text \<open>
  A model of the memory side of the simulator under \<open>src/src/heterollm_sim\<close>: how a request finds
  its bank and row, which lines a cache keeps, which bytes of an allocation are resident,
  where buffers are placed, which component holds a page of the key-value cache, and how these
  components fail.

  \<^bold>\<open>The program.\<close> The simulator lowers a model and a hardware description to tasks and replays them
  against components. A task's memory traffic becomes \<open>MemoryRequest\<close>s; \<open>memory_mapping.py\<close> turns a
  request into segments on channels, banks, rows and pages using the geometry of
  \<open>memory_types.py\<close>. \<open>cache_state.py\<close> decides which lines of a buffer hit and what goes to the
  backing store. \<open>residency.py\<close> owns the bytes of a fast tier: allocations register there, accesses
  fault their missing granules in and evict others, leases and pins keep bytes in place.
  \<open>memory_allocator.py\<close> gives buffers their physical addresses. \<open>kv_pool.py\<close> pages the key-value
  cache of the serving loop: requests and prefixes share reference-counted pages, a ledger counts the
  bytes on each component, and an injected executor moves pages between memory and backing tiers.

  \<^bold>\<open>Theories and code.\<close>
  \<^item> \<^verbatim>\<open>Prelude\<close>: results with errors (\<^verbatim>\<open>rbind\<close>, and \<^verbatim>\<open>sbind\<close> for operations on a state), dictionaries
    in insertion order as association lists, string helpers, integer rounding, the cutting of an
    interval into chunks, and reachable states. The locale \<^verbatim>\<open>state_machine\<close> proves once what an
    inductive invariant gives; each stateful component interprets it.
  \<^item> \<^verbatim>\<open>Memory_Types\<close>, \<^verbatim>\<open>Memory_Mapping\<close>, \<^verbatim>\<open>Request_Split\<close>: \<open>memory_types.py\<close> (requests, coordinates,
    DRAM and NAND geometry with the checks of their constructors, those of the JEDEC controller's
    geometry and queues included) and \<open>memory_mapping.py\<close> (address to
    coordinates and back, bank rotation, splitting of requests). The locale \<^verbatim>\<open>chunk_splitter\<close> holds the
    laws both splitting loops share and is interpreted on the DRAM and the NAND splitter.
  \<^item> \<^verbatim>\<open>Cache_State\<close>, \<^verbatim>\<open>Cache_Props\<close>: every operation of \<open>ExplicitCacheState\<close>, with the LRU links, the
    per-buffer index, the transaction journal and the counters as separate fields, as in the code.
  \<^item> \<^verbatim>\<open>Byte_Ranges\<close>, \<^verbatim>\<open>Residency\<close>, \<^verbatim>\<open>Residency_Inv\<close>, \<^verbatim>\<open>Residency_Ops\<close>, \<^verbatim>\<open>Residency_Props\<close>: \<open>residency.py\<close>.
    The first has the range algebra, the second the data and every operation of
    \<open>AllocationResidencyManager\<close>, the others the invariant, what each operation does, and the
    properties.
  \<^item> \<^verbatim>\<open>Physical_Allocator\<close>, \<^verbatim>\<open>Allocator_Index\<close>, \<^verbatim>\<open>Allocator_State\<close>, \<^verbatim>\<open>Allocator_Search\<close>, \<^verbatim>\<open>Allocator_Props\<close>,
    \<^verbatim>\<open>Allocator_Snapshot\<close>: \<open>memory_allocator.py\<close>. The first has every operation of
    \<open>PhysicalAddressAllocator\<close>; the others show that bisection keeps the indexes exact, that every
    operation keeps the invariant and the journal of retained checkpoints, and what the searches find.
    The locale \<^verbatim>\<open>first_fit\<close> is the contract of a search and is interpreted on both searches;
    \<^verbatim>\<open>checkpointed\<close> extends \<^verbatim>\<open>state_machine\<close> by checkpoints and is interpreted on the allocator.
  \<^item> \<^verbatim>\<open>Kv_Pool\<close>, \<^verbatim>\<open>Kv_Inv\<close>, \<^verbatim>\<open>Kv_Growth\<close>, \<^verbatim>\<open>Kv_Ops\<close>, \<^verbatim>\<open>Kv_Moves\<close>, \<^verbatim>\<open>Kv_Machine\<close>, \<^verbatim>\<open>Kv_Props\<close>: \<open>kv_pool.py\<close>. The
    first has \<open>DynamicKVPool\<close> and its ledger (\<open>_LocalLedger\<close> behind \<open>_LedgerAdapter\<close>); the topology and the
    transfer executor are arguments of each call (\<^verbatim>\<open>kv_env\<close>). \<^verbatim>\<open>Kv_Inv\<close> has the invariant of accounts and
    references, \<^verbatim>\<open>Kv_Growth\<close> the resizing of a request with its rollback, \<^verbatim>\<open>Kv_Ops\<close> the other operations
    on requests and prefixes and eviction, \<^verbatim>\<open>Kv_Moves\<close> the moves at once and in two phases, \<^verbatim>\<open>Kv_Machine\<close>
    the steps with the interpretation of \<^verbatim>\<open>state_machine\<close>, \<^verbatim>\<open>Kv_Props\<close> the properties.

  \<^bold>\<open>State.\<close> A Python object with mutable fields is a record, an operation returns its result or the
  raised error together with the new state, so that what a failed operation leaves behind is part of
  the model. Python integers are unbounded and are modelled as integers; the code has no fixed-width
  arithmetic in these files. A dictionary is an association list where its order is observable.

  \<^bold>\<open>What the lemmas show.\<close> Address maps are inverse to each other, bank rotation permutes, splitting
  covers a request exactly once. A DRAM address is mapped exactly when it lies below
  \<^verbatim>\<open>dram_mapped_capacity\<close>, which is the capacity of the device except for SID-aware geometries whose bank
  groups do not divide into the SIDs; the constructor accepts those, and the rest of their declared
  capacity raises. The cache refines an ideal LRU list, accounts for its traffic, never
  loses dirty data and restores itself on rollback. The range functions compute set operations on a
  canonical form. The residency self-check never fails on a reachable manager; accesses page in what
  they must, evict in least-recently-used order only bytes that nothing protects, write dirty bytes
  back, fail without effect (a batch keeps the accesses before the one that raises), and fail for lack
  of room only when the evictable bytes do not suffice.
  The allocator keeps roots disjoint and its indexes exact, places at the least base that fits, finds
  the root of every alias, and restores itself from checkpoints and snapshots. The pool counts
  references exactly and keeps its bytes within the ledger and the ledger within the capacities;
  a move happens completely, with the plan its executor gave, or leaves the content as it was, and so
  does a resize whose layer group is a non-empty name; eviction frees unbound pages in the order of
  their use, and a move in two phases ends in the same state as one at once with the same plan. Two
  lemmas show reservations the code loses: a resize with an empty layer group, and the eviction of a
  page whose copy is in flight.

  \<^bold>\<open>Termination.\<close> Loops are structural recursion or functions with a termination proof; no fuel is
  used. \<^verbatim>\<open>iter_units\<close> ends because every unit is at least one byte long.

  \<^bold>\<open>Not modelled.\<close> Checks of Python types (\<open>isinstance\<close>) hold by typing. Floating point timing and
  bandwidth fields of the device configurations with their checks and the derivation of HBM values
  (\<open>_hbm_dependencies.py\<close>), cost models (\<open>cost_models.py\<close>, \<open>calibration.py\<close>, \<open>kernel_*\<close>, the timing cores), the planner and the
  serving loops that only arrange calls of the components here, reporting, configuration parsing,
  presets, the web server, and the compiled kernels are listed as components with the reason. Of the
  pool, the projection of IR components, foreign ledger objects, the checkpoint hooks of the executor
  and the exported cache accesses are left out; its bandwidths and times are compared and never
  computed with, and are integers.
\<close>

end
